(* ===== verification/Prelude.thy ===== *)
theory Prelude
  imports Main "HOL-Library.Monad_Syntax"
begin

text \<open>
  Shared material of the development.
  \<^item> \<open>returns\<close>: total correctness of a computation in the option monad, where
    \<open>None\<close> stands for a computation that does not return normally (a failed
    \<open>REALM_ASSERT\<close>, which calls \<open>terminate\<close>, or a loop that does not end).
  \<^item> the functions of the C++ standard library the code uses on vectors
    (\<open>std::find_if\<close>, \<open>std::lower_bound\<close>).
  \<^item> positions in a list of lists, the shape of every chunked container.
\<close>

section \<open>Computations that may abort\<close>

text \<open>\<open>returns m Q\<close>: the computation returns, and its result satisfies \<open>Q\<close>.\<close>

definition returns :: "'a option \<Rightarrow> ('a \<Rightarrow> bool) \<Rightarrow> bool" where
  "returns m Q = (case m of None \<Rightarrow> False | Some x \<Rightarrow> Q x)"

text \<open>
  \<open>REALM_ASSERT\<close> of realm/util/assert.hpp. The configuration under src/
  (realm/util/config.h) defines \<open>REALM_ENABLE_ASSERTIONS\<close> as 1, so a failed assertion
  terminates the process. \<open>REALM_DEBUG\<close> is not defined there, so
  \<open>REALM_ASSERT_DEBUG\<close> and the bodies under \<open>#ifdef REALM_DEBUG\<close> compile to nothing.
\<close>

definition realm_assert :: "bool \<Rightarrow> unit option" where
  "realm_assert b = (if b then Some () else None)"

named_theorems wp \<open>total-correctness rules of the model's operations\<close>

lemma returns_Some [simp]: "returns (Some x) Q = Q x"
  by (simp add: returns_def)

lemma returns_None [simp]: "\<not> returns None Q"
  by (simp add: returns_def)

lemma returns_bind [simp]: "returns (Option.bind m f) Q = returns m (\<lambda>x. returns (f x) Q)"
  by (cases m) simp_all

lemma returns_map_option [simp]: "returns (map_option f m) Q = returns m (\<lambda>x. Q (f x))"
  by (cases m) simp_all

lemma returns_assert [simp]: "returns (realm_assert b) Q = (b \<and> Q ())"
  by (simp add: realm_assert_def)

lemma returns_mono: "returns m P \<Longrightarrow> (\<And>x. P x \<Longrightarrow> Q x) \<Longrightarrow> returns m Q"
  by (cases m) simp_all

lemma returns_conj: "returns m P \<Longrightarrow> returns m Q \<Longrightarrow> returns m (\<lambda>x. P x \<and> Q x)"
  by (cases m) simp_all

lemma returns_iff: "returns m Q \<longleftrightarrow> (\<exists>x. m = Some x \<and> Q x)"
  by (cases m) simp_all

lemma returnsE:
  assumes "returns m Q"
  obtains x where "m = Some x" and "Q x"
  using assms by (auto simp: returns_iff)

lemma returns_someI: "m = Some x \<Longrightarrow> Q x \<Longrightarrow> returns m Q"
  by simp

section \<open>The standard library on vectors\<close>

text \<open>
  \<open>std::find_if(first, last, p)\<close> returns the first position from \<open>first\<close> on whose
  element satisfies \<open>p\<close>, else the end; \<open>std::lower_bound\<close> with a comparison that
  partitions the sequence returns the first position whose element does not compare less.
\<close>

definition find_if_from :: "nat \<Rightarrow> ('a \<Rightarrow> bool) \<Rightarrow> 'a list \<Rightarrow> nat" where
  "find_if_from k p xs = k + length (takeWhile (\<lambda>x. \<not> p x) (drop k xs))"

definition lower_bound_from :: "nat \<Rightarrow> ('a \<Rightarrow> bool) \<Rightarrow> 'a list \<Rightarrow> nat" where
  "lower_bound_from k lt xs = k + length (takeWhile lt (drop k xs))"

lemma length_takeWhile_eqI:
  assumes "k \<le> length xs"
    and "\<And>i. i < k \<Longrightarrow> p (xs ! i)"
    and "k < length xs \<Longrightarrow> \<not> p (xs ! k)"
  shows "length (takeWhile p xs) = k"
  using assms
proof (induction xs arbitrary: k)
  case Nil
  then show ?case by simp
next
  case (Cons x xs)
  show ?case
  proof (cases k)
    case 0
    then show ?thesis using Cons.prems(3) by simp
  next
    case (Suc j)
    have "p x" using Cons.prems(2)[of 0] Suc by simp
    moreover have "length (takeWhile p xs) = j"
    proof (rule Cons.IH)
      show "j \<le> length xs" using Cons.prems(1) Suc by simp
      show "p (xs ! i)" if "i < j" for i using Cons.prems(2)[of "Suc i"] that Suc by simp
      show "\<not> p (xs ! j)" if "j < length xs" using Cons.prems(3) that Suc by simp
    qed
    ultimately show ?thesis using Suc by simp
  qed
qed

lemma length_takeWhile_less_nth: "i < length (takeWhile p xs) \<Longrightarrow> p (xs ! i)"
  by (metis nth_mem set_takeWhileD takeWhile_nth)

lemma length_takeWhile_drop:
  assumes "k \<le> length xs" and "\<And>i. i < k \<Longrightarrow> p (xs ! i)"
  shows "k + length (takeWhile p (drop k xs)) = length (takeWhile p xs)"
proof -
  have "length (takeWhile p xs) = k + length (takeWhile p (drop k xs))"
  proof (rule length_takeWhile_eqI)
    show "k + length (takeWhile p (drop k xs)) \<le> length xs"
      using length_takeWhile_le[of p "drop k xs"] assms(1) by simp
    show "p (xs ! i)" if "i < k + length (takeWhile p (drop k xs))" for i
    proof (cases "i < k")
      case True
      then show ?thesis by (rule assms(2))
    next
      case False
      then have "p (drop k xs ! (i - k))"
        using that by (intro length_takeWhile_less_nth[of "i - k" p "drop k xs"]) simp
      then show ?thesis using False assms(1) by simp
    qed
    show "\<not> p (xs ! (k + length (takeWhile p (drop k xs))))"
      if "k + length (takeWhile p (drop k xs)) < length xs"
      using nth_length_takeWhile[of p "drop k xs"] that assms(1) by simp
  qed
  then show ?thesis by simp
qed

section \<open>Positions in a list of lists\<close>

text \<open>
  \<open>flat_pos xss o i\<close> is the index in \<open>concat xss\<close> of element \<open>i\<close> of list \<open>o\<close>.
\<close>

definition flat_pos :: "'a list list \<Rightarrow> nat \<Rightarrow> nat \<Rightarrow> nat" where
  "flat_pos xss k i = length (concat (take k xss)) + i"

lemma concat_split:
  "k < length xss \<Longrightarrow> concat xss = concat (take k xss) @ xss ! k @ concat (drop (Suc k) xss)"
  by (metis append_take_drop_id concat.simps(2) concat_append Cons_nth_drop_Suc)

lemma concat_list_update:
  "k < length xss \<Longrightarrow>
     concat (xss[k := ys]) = concat (take k xss) @ ys @ concat (drop (Suc k) xss)"
  by (simp add: upd_conv_take_nth_drop)

lemma concat_nth_flat_pos:
  "k < length xss \<Longrightarrow> i < length (xss ! k) \<Longrightarrow> concat xss ! flat_pos xss k i = xss ! k ! i"
  by (simp add: concat_split[of k xss] flat_pos_def nth_append)

lemma flat_pos_less:
  "k < length xss \<Longrightarrow> i < length (xss ! k) \<Longrightarrow> flat_pos xss k i < length (concat xss)"
  by (simp add: concat_split[of k xss] flat_pos_def)

lemma flat_pos_end: "flat_pos xss (length xss) 0 = length (concat xss)"
  by (simp add: flat_pos_def)

lemma flat_pos_Suc:
  "k < length xss \<Longrightarrow> flat_pos xss (Suc k) 0 = flat_pos xss k (length (xss ! k))"
  by (simp add: flat_pos_def take_Suc_conv_app_nth)

lemma take_flat_pos:
  "k < length xss \<Longrightarrow> i \<le> length (xss ! k) \<Longrightarrow>
     take (flat_pos xss k i) (concat xss) = concat (take k xss) @ take i (xss ! k)"
  by (simp add: concat_split[of k xss] flat_pos_def)

lemma drop_flat_pos:
  "k < length xss \<Longrightarrow> i \<le> length (xss ! k) \<Longrightarrow>
     drop (flat_pos xss k i) (concat xss) = drop i (xss ! k) @ concat (drop (Suc k) xss)"
  by (simp add: concat_split[of k xss] flat_pos_def)

lemma concat_update_nth:
  assumes "k < length xss" and "i < length (xss ! k)"
  shows "concat (xss[k := (xss ! k)[i := v]]) = (concat xss)[flat_pos xss k i := v]"
  using assms by (simp add: concat_list_update concat_split[of k xss] flat_pos_def list_update_append)

end
