(* ===== verification/IndexRanges.thy ===== *)
theory IndexRanges
  imports Prelude
begin

text \<open>
  The abstract side of \<open>IndexSet\<close> (index_set.hpp): sorted lists of half-open ranges, the
  set of indexes such a list stands for, and the order isomorphisms a finite set of indexes
  induces. \<open>shift_of S\<close> numbers the indexes outside \<open>S\<close> ("shift an index by inserting
  each of the indexes in this set") and \<open>unshift_of S\<close> is its inverse ("by deleting
  each of the indexes"). \<open>size_t\<close> is modelled by \<open>nat\<close>: row positions stay far below
  \<open>2 ^ 64\<close>, and every subtraction of the code is shown not to underflow where a theorem
  depends on it.
\<close>

section \<open>Range lists\<close>

type_synonym index_range = "nat \<times> nat"

definition range_size :: "index_range \<Rightarrow> nat" where
  "range_size r = snd r - fst r"

definition ranges_size :: "index_range list \<Rightarrow> nat" where
  "ranges_size rs = sum_list (map range_size rs)"

definition iset :: "index_range list \<Rightarrow> nat set" where
  "iset rs = (\<Union>r\<in>set rs. {fst r..<snd r})"

definition indexes :: "index_range list \<Rightarrow> nat list" where
  "indexes rs = concat (map (\<lambda>r. [fst r..<snd r]) rs)"

text \<open>
  What \<open>ChunkedRangeVector::verify\<close> asserts of the ranges: each is non-empty, and each
  starts after the end of the one before it, with a gap.
\<close>

definition ranges_ok :: "index_range list \<Rightarrow> bool" where
  "ranges_ok rs \<longleftrightarrow> sorted_wrt (\<lambda>r s. snd r < fst s) rs \<and> (\<forall>r\<in>set rs. fst r < snd r)"

lemma iset_Nil [simp]: "iset [] = {}"
  and iset_Cons [simp]: "iset (r # rs) = {fst r..<snd r} \<union> iset rs"
  and iset_append [simp]: "iset (rs @ ss) = iset rs \<union> iset ss"
  by (auto simp: iset_def)

lemma finite_iset [simp]: "finite (iset rs)"
  by (simp add: iset_def)

lemma indexes_Nil [simp]: "indexes [] = []"
  and indexes_Cons [simp]: "indexes (r # rs) = [fst r..<snd r] @ indexes rs"
  and indexes_append [simp]: "indexes (rs @ ss) = indexes rs @ indexes ss"
  by (auto simp: indexes_def)

lemma set_indexes [simp]: "set (indexes rs) = iset rs"
  by (induction rs) auto

lemma ranges_size_simps [simp]: "ranges_size [] = 0"
  "ranges_size (r # rs) = range_size r + ranges_size rs"
  "ranges_size (rs @ ss) = ranges_size rs + ranges_size ss"
  by (simp_all add: ranges_size_def)

lemma ranges_ok_Nil [simp]: "ranges_ok []"
  by (simp add: ranges_ok_def)

lemma ranges_ok_Cons:
  "ranges_ok (r # rs) \<longleftrightarrow> fst r < snd r \<and> (\<forall>s\<in>set rs. snd r < fst s) \<and> ranges_ok rs"
  by (auto simp: ranges_ok_def)

lemma ranges_ok_append:
  "ranges_ok (rs @ ss) \<longleftrightarrow>
     ranges_ok rs \<and> ranges_ok ss \<and> (\<forall>r\<in>set rs. \<forall>s\<in>set ss. snd r < fst s)"
  by (auto simp: ranges_ok_def sorted_wrt_append)

lemma ranges_ok_single [simp]: "ranges_ok [r] \<longleftrightarrow> fst r < snd r"
  by (simp add: ranges_ok_Cons)

lemma ranges_ok_nonempty: "ranges_ok rs \<Longrightarrow> r \<in> set rs \<Longrightarrow> fst r < snd r"
  by (simp add: ranges_ok_def)

text \<open>Only the neighbours of a split point need checking.\<close>

lemma ranges_ok_append_hd:
  "ranges_ok (rs @ s # ss) \<longleftrightarrow>
     ranges_ok rs \<and> ranges_ok (s # ss) \<and> (rs \<noteq> [] \<longrightarrow> snd (last rs) < fst s)"
proof
  assume "ranges_ok (rs @ s # ss)"
  then show "ranges_ok rs \<and> ranges_ok (s # ss) \<and> (rs \<noteq> [] \<longrightarrow> snd (last rs) < fst s)"
    by (auto simp: ranges_ok_append)
next
  assume *: "ranges_ok rs \<and> ranges_ok (s # ss) \<and> (rs \<noteq> [] \<longrightarrow> snd (last rs) < fst s)"
  have "snd r < fst t" if r: "r \<in> set rs" and t: "t \<in> set (s # ss)" for r t
  proof -
    from r have "rs \<noteq> []" by auto
    then have rs: "rs = butlast rs @ [last rs]" by simp
    have "snd r \<le> snd (last rs)"
    proof (cases "r = last rs")
      case False
      with r rs have "r \<in> set (butlast rs)" by (metis UnE append_butlast_last_id
        \<open>rs \<noteq> []\<close> set_ConsD set_append empty_iff empty_set)
      moreover have "ranges_ok (butlast rs @ [last rs])" using * rs by simp
      ultimately have "snd r < fst (last rs)" "fst (last rs) < snd (last rs)"
        by (auto simp: ranges_ok_append)
      then show ?thesis by simp
    qed simp
    also have "\<dots> < fst s" using * \<open>rs \<noteq> []\<close> by simp
    also have "\<dots> \<le> fst t" using * t by (force simp: ranges_ok_Cons)
    finally show ?thesis .
  qed
  then show "ranges_ok (rs @ s # ss)" using * by (simp add: ranges_ok_append)
qed

lemma ranges_ok_imp_gap:
  "ranges_ok (rs @ ss) \<Longrightarrow> r \<in> set rs \<Longrightarrow> s \<in> set ss \<Longrightarrow> snd r < fst s"
  by (simp add: ranges_ok_append)

lemma ranges_ok_last_less:
  assumes "ranges_ok rs" "rs \<noteq> [] \<Longrightarrow> snd (last rs) < i" "r \<in> set rs"
  shows "snd r < i"
proof -
  have "ranges_ok (rs @ [(i, Suc i)])" using assms by (simp add: ranges_ok_append_hd)
  then show ?thesis using assms(3) by (simp add: ranges_ok_append)
qed

lemma ranges_ok_nth_gap:
  assumes "ranges_ok rs" "i < j" "j < length rs"
  shows "snd (rs ! i) < fst (rs ! j)"
  using assms by (simp add: ranges_ok_def sorted_wrt_iff_nth_less)

lemma ranges_ok_nth_mono:
  assumes "ranges_ok rs" "i \<le> j" "j < length rs"
  shows "snd (rs ! i) \<le> snd (rs ! j)" "fst (rs ! i) \<le> fst (rs ! j)"
proof -
  have "i = j \<or> i < j" using assms(2) by arith
  then have "snd (rs ! i) \<le> snd (rs ! j) \<and> fst (rs ! i) \<le> fst (rs ! j)"
  proof
    assume "i < j"
    have "fst (rs ! i) < snd (rs ! i)" "fst (rs ! j) < snd (rs ! j)"
      using assms by (auto intro!: ranges_ok_nonempty[OF assms(1)])
    then show ?thesis using ranges_ok_nth_gap[OF assms(1) \<open>i < j\<close> assms(3)] by simp
  qed simp
  then show "snd (rs ! i) \<le> snd (rs ! j)" "fst (rs ! i) \<le> fst (rs ! j)" by auto
qed

lemma sorted_wrt_indexes: "ranges_ok rs \<Longrightarrow> sorted_wrt (<) (indexes rs)"
proof (induction rs)
  case (Cons r rs)
  have "x < y" if "x < snd r" "y \<in> iset rs" for x y
  proof -
    from that(2) obtain s where "s \<in> set rs" "fst s \<le> y" by (auto simp: iset_def)
    then show ?thesis using Cons.prems that(1) by (force simp: ranges_ok_Cons)
  qed
  then show ?case using Cons by (auto simp: sorted_wrt_append ranges_ok_Cons)
qed simp

lemma length_indexes: "ranges_ok rs \<Longrightarrow> length (indexes rs) = ranges_size rs"
  by (induction rs) (auto simp: ranges_ok_Cons range_size_def)

lemma card_iset: "ranges_ok rs \<Longrightarrow> card (iset rs) = ranges_size rs"
proof -
  assume ok: "ranges_ok rs"
  have "distinct (indexes rs)"
    using sorted_wrt_indexes[OF ok] by (simp add: strict_sorted_iff)
  then have "card (set (indexes rs)) = length (indexes rs)" by (rule distinct_card)
  then show ?thesis by (simp add: length_indexes ok)
qed

lemma indexes_eq_sorted_list: "ranges_ok rs \<Longrightarrow> indexes rs = sorted_list_of_set (iset rs)"
  by (metis finite_iset set_indexes sorted_wrt_indexes strict_sorted_equal
      strict_sorted_list_of_set set_sorted_list_of_set)

section \<open>The canonical form\<close>

text \<open>A well-formed range list is determined by its set of indexes.\<close>

lemma iset_Cons_least:
  assumes "ranges_ok (r # rs)"
  shows "fst r \<in> iset (r # rs)" "\<And>x. x \<in> iset (r # rs) \<Longrightarrow> fst r \<le> x"
    "snd r \<notin> iset (r # rs)" "\<And>x. fst r \<le> x \<Longrightarrow> x < snd r \<Longrightarrow> x \<in> iset (r # rs)"
proof -
  have gap: "fst r < snd r" "\<forall>s\<in>set rs. snd r < fst s"
    using assms by (auto simp: ranges_ok_Cons)
  show "fst r \<in> iset (r # rs)" using gap by simp
  show "\<And>x. x \<in> iset (r # rs) \<Longrightarrow> fst r \<le> x" using gap by (force simp: iset_def)
  show "snd r \<notin> iset (r # rs)" using gap by (force simp: iset_def)
  show "\<And>x. fst r \<le> x \<Longrightarrow> x < snd r \<Longrightarrow> x \<in> iset (r # rs)" by simp
qed

lemma ranges_ok_unique:
  assumes "ranges_ok rs" "ranges_ok ss" "iset rs = iset ss"
  shows "rs = ss"
  using assms
proof (induction rs arbitrary: ss)
  case Nil
  then show ?case by (cases ss) (auto simp: ranges_ok_Cons)
next
  case (Cons r rs)
  note ok = Cons.prems(1)
  obtain s ss' where ss: "ss = s # ss'"
    using Cons.prems by (cases ss) (auto simp: ranges_ok_Cons)
  have ok': "ranges_ok (s # ss')" using Cons.prems(2) ss by simp
  have eq: "iset (r # rs) = iset (s # ss')" using Cons.prems(3) ss by simp
  note r = iset_Cons_least[OF ok] and s = iset_Cons_least[OF ok']
  have f: "fst r = fst s"
    using r(1,2) s(1,2) by (intro le_antisym) (simp_all only: eq)
  have "snd r \<notin> iset (s # ss')" "snd s \<notin> iset (r # rs)" using r(3) s(3) unfolding eq by blast+
  moreover have "fst s \<le> snd r" "fst r \<le> snd s" using ok ok' f by (simp_all add: ranges_ok_Cons)
  ultimately have "\<not> snd r < snd s" "\<not> snd s < snd r" using s(4) r(4) by blast+
  then have "r = s" using f by (simp add: prod_eq_iff)
  moreover have "iset rs = iset ss'"
  proof -
    have "iset rs = iset (r # rs) - {fst r..<snd r}"
      using ok by (auto simp: ranges_ok_Cons iset_def)
    moreover have "iset ss' = iset (s # ss') - {fst s..<snd s}"
      using ok' by (auto simp: ranges_ok_Cons iset_def)
    ultimately show ?thesis using eq \<open>r = s\<close> by simp
  qed
  then have "rs = ss'" using Cons.IH ok ok' by (simp add: ranges_ok_Cons)
  ultimately show ?case using ss by simp
qed

section \<open>Numbering the indexes outside a set\<close>

definition unshift_of :: "nat set \<Rightarrow> nat \<Rightarrow> nat" where
  "unshift_of S x = card ({..<x} - S)"

definition shift_of :: "nat set \<Rightarrow> nat \<Rightarrow> nat" where
  "shift_of S i = i + card {s \<in> S. unshift_of S s \<le> i}"

lemma unshift_of_0 [simp]: "unshift_of S 0 = 0"
  by (simp add: unshift_of_def)

lemma unshift_of_Suc: "unshift_of S (Suc x) = (if x \<in> S then unshift_of S x else Suc (unshift_of S x))"
proof -
  have "{..<Suc x} - S = (if x \<in> S then {..<x} - S else insert x ({..<x} - S))"
    by (auto simp: less_Suc_eq)
  then show ?thesis by (simp add: unshift_of_def)
qed

lemma unshift_of_mono: "x \<le> y \<Longrightarrow> unshift_of S x \<le> unshift_of S y"
  unfolding unshift_of_def by (rule card_mono) auto

lemma unshift_of_le: "unshift_of S x \<le> x"
  unfolding unshift_of_def using card_mono[of "{..<x}" "{..<x} - S"] by auto

lemma unshift_of_strict: "x < y \<Longrightarrow> x \<notin> S \<Longrightarrow> unshift_of S x < unshift_of S y"
  using unshift_of_mono[of "Suc x" y S] by (simp add: unshift_of_Suc)

lemma unshift_of_less_iff:
  assumes "x \<notin> S" "y \<notin> S"
  shows "unshift_of S x < unshift_of S y \<longleftrightarrow> x < y"
proof
  assume "unshift_of S x < unshift_of S y"
  then show "x < y" using unshift_of_mono[of y x S] by (meson not_less)
qed (use assms in \<open>simp add: unshift_of_strict\<close>)

lemma unshift_of_inj:
  assumes "x \<notin> S" "y \<notin> S" "unshift_of S x = unshift_of S y"
  shows "x = y"
  using assms unshift_of_strict[of x y S] unshift_of_strict[of y x S]
  by (cases x y rule: linorder_cases) auto

lemma unshift_of_le_iff:
  "x \<notin> S \<Longrightarrow> y \<notin> S \<Longrightarrow> unshift_of S x \<le> unshift_of S y \<longleftrightarrow> x \<le> y"
  using unshift_of_less_iff[of y S x] by (cases "y < x") auto

lemma unshift_of_card: "unshift_of S x + card (S \<inter> {..<x}) = x"
proof -
  have "card ({..<x} - S) + card (S \<inter> {..<x}) = card (({..<x} - S) \<union> (S \<inter> {..<x}))"
    by (rule card_Un_disjoint[symmetric]) auto
  also have "({..<x} - S) \<union> (S \<inter> {..<x}) = {..<x}" by auto
  finally show ?thesis by (simp add: unshift_of_def)
qed

lemma unshift_of_eq_diff: "unshift_of S x = x - card (S \<inter> {..<x})"
  using unshift_of_card[of S x] by simp

lemma unshift_of_surj:
  assumes "finite S"
  shows "\<exists>x. x \<notin> S \<and> unshift_of S x = i"
proof -
  let ?P = "\<lambda>x. i < unshift_of S x"
  have "\<exists>x. ?P x"
  proof
    have "card (S \<inter> {..<Suc i + card S}) \<le> card S" by (rule card_mono) (use assms in auto)
    then show "?P (Suc i + card S)" using unshift_of_card[of S "Suc i + card S"] by simp
  qed
  then obtain x where x: "?P x" "\<forall>y<x. \<not> ?P y" using exists_least_iff[of ?P] by blast
  then obtain y where y: "x = Suc y" by (cases x) auto
  have "\<not> ?P y" using x(2) y by simp
  then have "y \<notin> S \<and> unshift_of S y = i" using x(1) y by (auto simp: unshift_of_Suc split: if_splits)
  then show ?thesis by blast
qed

lemma shift_of_unshift_of:
  assumes "x \<notin> S"
  shows "shift_of S (unshift_of S x) = x"
proof -
  have "{s \<in> S. unshift_of S s \<le> unshift_of S x} = S \<inter> {..<x}"
  proof (intro equalityI subsetI)
    fix s assume "s \<in> {s \<in> S. unshift_of S s \<le> unshift_of S x}"
    then have s: "s \<in> S" "unshift_of S s \<le> unshift_of S x" by auto
    have "\<not> x < s" using unshift_of_strict[of x s S] assms s(2) by auto
    moreover have "s \<noteq> x" using s(1) assms by auto
    ultimately show "s \<in> S \<inter> {..<x}" using s(1) by simp
  next
    fix s assume "s \<in> S \<inter> {..<x}"
    then show "s \<in> {s \<in> S. unshift_of S s \<le> unshift_of S x}"
      using unshift_of_mono[of s x S] by simp
  qed
  then show ?thesis using unshift_of_card[of S x] by (simp add: shift_of_def)
qed

lemma shift_of_props:
  assumes "finite S"
  shows "shift_of S i \<notin> S \<and> unshift_of S (shift_of S i) = i"
proof -
  obtain x where x: "x \<notin> S" "unshift_of S x = i" using unshift_of_surj[OF assms] by blast
  have "shift_of S i = x" using shift_of_unshift_of[OF x(1)] x(2) by simp
  then show ?thesis using x by auto
qed

lemma shift_of_notin: "finite S \<Longrightarrow> shift_of S i \<notin> S"
  by (simp add: shift_of_props)

lemma unshift_of_shift_of: "finite S \<Longrightarrow> unshift_of S (shift_of S i) = i"
  by (simp add: shift_of_props)

lemma shift_of_eqI: "x \<notin> S \<Longrightarrow> unshift_of S x = i \<Longrightarrow> shift_of S i = x"
  using shift_of_unshift_of by blast

lemma shift_of_less_iff: "finite S \<Longrightarrow> shift_of S i < shift_of S j \<longleftrightarrow> i < j"
  using unshift_of_less_iff[of "shift_of S i" S "shift_of S j"]
  by (simp add: shift_of_notin unshift_of_shift_of)

lemma shift_of_inj: "finite S \<Longrightarrow> shift_of S i = shift_of S j \<longleftrightarrow> i = j"
  by (metis unshift_of_shift_of)

end
