(* ===== verification/ChunkedRangeVector.thy ===== *)
theory ChunkedRangeVector
  imports IndexRanges
begin

text \<open>
  \<open>ChunkedRangeVector\<close> (include/index_set.hpp, ObjectStore/src/index_set.cpp): a vector of
  ranges kept in chunks of at most \<open>max_size\<close> ranges, each chunk caching the begin of its
  first range, the end of its last range and the number of indexes in it, and the iterators
  over it. An iterator is the pair of the chunk's position and the range's offset in the
  chunk; \<open>end()\<close> is one past the last chunk with offset 0.
  Every primitive is related to the flat list of ranges \<open>ranges cv\<close> it stands for.
\<close>

section \<open>Chunks and iterators\<close>

record chunk =
  chunk_data :: "index_range list"
  chunk_begin :: nat
  chunk_end :: nat
  chunk_count :: nat

type_synonym range_vector = "chunk list"
type_synonym iter = "nat \<times> nat"

text \<open>The release value: 4096 bytes of \<open>std::pair<size_t, size_t>\<close>, 16 bytes each.\<close>

definition max_size :: nat where
  "max_size = 4096 div 16"

definition v_end :: "range_vector \<Rightarrow> iter" where
  "v_end cv = (length cv, 0)"

definition v_begin :: "range_vector \<Rightarrow> iter" where
  "v_begin cv = (if cv = [] then v_end cv else (0, 0))"

text \<open>\<open>it == end()\<close>: the inner pointer is null exactly where the outer position is the end.\<close>

definition at_end :: "range_vector \<Rightarrow> iter \<Rightarrow> bool" where
  "at_end cv it \<longleftrightarrow> length cv \<le> fst it"

definition deref :: "range_vector \<Rightarrow> iter \<Rightarrow> index_range" where
  "deref cv it = chunk_data (cv ! fst it) ! snd it"

definition next_chunk :: "iter \<Rightarrow> iter" where
  "next_chunk it = (Suc (fst it), 0)"

definition it_next :: "range_vector \<Rightarrow> iter \<Rightarrow> iter" where
  "it_next cv it =
     (if length (chunk_data (cv ! fst it)) \<le> Suc (snd it) then next_chunk it
      else (fst it, Suc (snd it)))"

definition it_prev :: "range_vector \<Rightarrow> iter \<Rightarrow> iter" where
  "it_prev cv it =
     (if snd it = 0 then (fst it - 1, length (chunk_data (cv ! (fst it - 1))) - 1)
      else (fst it, snd it - 1))"

text \<open>
  \<open>MutableChunkedRangeVectorIterator::set, adjust, shift\<close>: replace or move the range the
  iterator points to and keep the cached fields of its chunk up to date. A \<open>ptrdiff_t\<close> is an
  \<open>int\<close>, added to a \<open>size_t\<close> by \<open>plus_diff\<close>.
\<close>

definition plus_diff :: "nat \<Rightarrow> int \<Rightarrow> nat" where
  "plus_diff n d = nat (int n + d)"

definition it_set :: "range_vector \<Rightarrow> iter \<Rightarrow> nat \<Rightarrow> nat \<Rightarrow> range_vector" where
  "it_set cv it front back =
     (let c = cv ! fst it; r = chunk_data c ! snd it
      in cv[fst it := c\<lparr>
           chunk_count := chunk_count c - (snd r - fst r) + (back - front),
           chunk_begin := (if snd it = 0 then front else chunk_begin c),
           chunk_end := (if Suc (snd it) = length (chunk_data c) then back else chunk_end c),
           chunk_data := (chunk_data c)[snd it := (front, back)]\<rparr>])"

definition it_adjust :: "range_vector \<Rightarrow> iter \<Rightarrow> int \<Rightarrow> int \<Rightarrow> range_vector" where
  "it_adjust cv it front back =
     (let c = cv ! fst it; r = chunk_data c ! snd it
      in cv[fst it := c\<lparr>
           chunk_begin := (if snd it = 0 then plus_diff (chunk_begin c) front else chunk_begin c),
           chunk_end := (if Suc (snd it) = length (chunk_data c)
                         then plus_diff (chunk_end c) back else chunk_end c),
           chunk_count := plus_diff (chunk_count c) (- front + back),
           chunk_data := (chunk_data c)[snd it := (plus_diff (fst r) front, plus_diff (snd r) back)]\<rparr>])"

definition it_shift :: "range_vector \<Rightarrow> iter \<Rightarrow> int \<Rightarrow> range_vector" where
  "it_shift cv it distance =
     (let c = cv ! fst it; r = chunk_data c ! snd it
      in cv[fst it := c\<lparr>
           chunk_begin := (if snd it = 0 then plus_diff (chunk_begin c) distance else chunk_begin c),
           chunk_end := (if Suc (snd it) = length (chunk_data c)
                         then plus_diff (chunk_end c) distance else chunk_end c),
           chunk_data := (chunk_data c)[snd it :=
             (plus_diff (fst r) distance, plus_diff (snd r) distance)]\<rparr>])"

section \<open>Operations of the vector\<close>

definition push_back :: "range_vector \<Rightarrow> index_range \<Rightarrow> range_vector option" where
  "push_back cv v =
     (if cv \<noteq> [] \<and> length (chunk_data (last cv)) < max_size then
        do {
          realm_assert (chunk_end (last cv) \<le> fst v);
          Some (butlast cv @ [(last cv)\<lparr>
            chunk_data := chunk_data (last cv) @ [v],
            chunk_count := chunk_count (last cv) + (snd v - fst v),
            chunk_end := snd v\<rparr>])
        }
      else Some (cv @ [\<lparr>chunk_data = [v], chunk_begin = fst v, chunk_end = snd v,
                        chunk_count = snd v - fst v\<rparr>]))"

definition ensure_space :: "range_vector \<Rightarrow> iter \<Rightarrow> range_vector \<times> iter" where
  "ensure_space cv pos =
     (let c = cv ! fst pos; d = chunk_data c in
      if length d + 1 \<le> max_size then (cv, pos)
      else
        let to_move = max_size div 2;
            moved = drop (length d - to_move) d;
            kept = take (length d - to_move) d;
            moved_count = sum_list (map (\<lambda>r. snd r - fst r) moved);
            prev = c\<lparr>chunk_data := kept, chunk_end := snd (last kept),
                     chunk_count := chunk_count c - moved_count\<rparr>;
            new = \<lparr>chunk_data = moved, chunk_begin = fst (hd moved),
                   chunk_end = snd (last moved), chunk_count = moved_count\<rparr>
        in (take (fst pos) cv @ prev # new # drop (Suc (fst pos)) cv,
            if to_move \<le> snd pos then (Suc (fst pos), snd pos - to_move) else pos))"

definition v_insert :: "range_vector \<Rightarrow> iter \<Rightarrow> index_range \<Rightarrow> (range_vector \<times> iter) option" where
  "v_insert cv pos v =
     (if at_end cv pos then
        do { cv' \<leftarrow> push_back cv v; Some (cv', it_prev cv' (v_end cv')) }
      else
        let (cv', p) = ensure_space cv pos;
            c = cv' ! fst p
        in Some (cv'[fst p := c\<lparr>
             chunk_data := take (snd p) (chunk_data c) @ v # drop (snd p) (chunk_data c),
             chunk_count := chunk_count c + (snd v - fst v),
             chunk_begin := min (chunk_begin c) (fst v),
             chunk_end := max (chunk_end c) (snd v)\<rparr>], p))"

definition v_erase :: "range_vector \<Rightarrow> iter \<Rightarrow> range_vector \<times> iter" where
  "v_erase cv pos =
     (let c = cv ! fst pos;
          r = chunk_data c ! snd pos;
          d = take (snd pos) (chunk_data c) @ drop (Suc (snd pos)) (chunk_data c)
      in if d = [] then (take (fst pos) cv @ drop (Suc (fst pos)) cv, (fst pos, 0))
         else (cv[fst pos := c\<lparr>
                 chunk_count := chunk_count c - (snd r - fst r),
                 chunk_data := d,
                 chunk_begin := fst (hd d),
                 chunk_end := snd (last d)\<rparr>],
               if snd pos < length d then pos else (Suc (fst pos), 0)))"

text \<open>\<open>IndexSet::find\<close>, from a given iterator.\<close>

definition v_find_from :: "range_vector \<Rightarrow> nat \<Rightarrow> iter \<Rightarrow> iter" where
  "v_find_from cv index begin =
     (let k = find_if_from (fst begin) (\<lambda>c. index < chunk_end c) cv in
      if length cv \<le> k then v_end cv
      else if index < chunk_begin (cv ! k) then (k, 0)
      else (k, lower_bound_from (if k = fst begin then snd begin else 0)
                 (\<lambda>r. snd r \<le> index) (chunk_data (cv ! k))))"

definition v_find :: "range_vector \<Rightarrow> nat \<Rightarrow> iter" where
  "v_find cv index = v_find_from cv index (v_begin cv)"

text \<open>
  The body of \<open>ChunkedRangeVector::verify\<close>, which the debug build runs after every
  mutation: the ranges first, with \<open>prev_end\<close> starting at \<open>size_t(-1)\<close>, then the chunks.
\<close>

fun verify_ranges :: "nat option \<Rightarrow> index_range list \<Rightarrow> bool" where
  "verify_ranges prev_end [] = True"
| "verify_ranges prev_end (r # rs) =
     (fst r < snd r \<and> (case prev_end of None \<Rightarrow> True | Some e \<Rightarrow> e < fst r) \<and>
      verify_ranges (Some (snd r)) rs)"

definition verify_chunk :: "chunk \<Rightarrow> bool" where
  "verify_chunk c \<longleftrightarrow>
     chunk_data c \<noteq> [] \<and>
     fst (hd (chunk_data c)) = chunk_begin c \<and>
     snd (last (chunk_data c)) = chunk_end c \<and>
     chunk_count c \<le> chunk_end c - chunk_begin c \<and>
     sum_list (map (\<lambda>r. snd r - fst r) (chunk_data c)) = chunk_count c"

definition ranges :: "range_vector \<Rightarrow> index_range list" where
  "ranges cv = concat (map chunk_data cv)"

definition verify :: "range_vector \<Rightarrow> bool" where
  "verify cv \<longleftrightarrow> verify_ranges None (ranges cv) \<and> list_all verify_chunk cv"

section \<open>Invariants\<close>

definition chunk_ok :: "chunk \<Rightarrow> bool" where
  "chunk_ok c \<longleftrightarrow> chunk_data c \<noteq> [] \<and> length (chunk_data c) \<le> max_size \<and>
     chunk_begin c = fst (hd (chunk_data c)) \<and> chunk_end c = snd (last (chunk_data c))"

definition count_ok :: "chunk \<Rightarrow> bool" where
  "count_ok c \<longleftrightarrow> chunk_count c = ranges_size (chunk_data c)"

text \<open>\<open>meta_ok\<close> is what holds between the steps of a loop, \<open>wf\<close> what holds between calls.\<close>

definition meta_ok :: "range_vector \<Rightarrow> bool" where
  "meta_ok cv \<longleftrightarrow> (\<forall>c\<in>set cv. chunk_ok c \<and> count_ok c)"

definition wf :: "range_vector \<Rightarrow> bool" where
  "wf cv \<longleftrightarrow> meta_ok cv \<and> ranges_ok (ranges cv)"

definition layout :: "range_vector \<Rightarrow> nat list" where
  "layout cv = map (length \<circ> chunk_data) cv"

definition rpos :: "range_vector \<Rightarrow> iter \<Rightarrow> nat" where
  "rpos cv it = flat_pos (map chunk_data cv) (fst it) (snd it)"

definition valid :: "range_vector \<Rightarrow> iter \<Rightarrow> bool" where
  "valid cv it \<longleftrightarrow> fst it < length cv \<and> snd it < length (chunk_data (cv ! fst it))"

definition valid_or_end :: "range_vector \<Rightarrow> iter \<Rightarrow> bool" where
  "valid_or_end cv it \<longleftrightarrow> valid cv it \<or> it = v_end cv"

lemma max_size_pos: "0 < max_size" "2 * (max_size div 2) = max_size" "0 < max_size div 2"
  by (simp_all add: max_size_def)

lemma meta_ok_Nil [simp]: "meta_ok []" and meta_ok_Cons: "meta_ok (c # cv) \<longleftrightarrow> chunk_ok c \<and> count_ok c \<and> meta_ok cv"
  and meta_ok_append: "meta_ok (cv @ cv') \<longleftrightarrow> meta_ok cv \<and> meta_ok cv'"
  by (auto simp: meta_ok_def)

lemma meta_ok_nth: "meta_ok cv \<Longrightarrow> k < length cv \<Longrightarrow> chunk_ok (cv ! k) \<and> count_ok (cv ! k)"
  by (simp add: meta_ok_def)

lemma meta_ok_update: "meta_ok cv \<Longrightarrow> chunk_ok c \<Longrightarrow> count_ok c \<Longrightarrow> meta_ok (cv[k := c])"
  unfolding meta_ok_def using set_update_subset_insert[of cv k c] by blast

lemma ranges_Nil [simp]: "ranges [] = []"
  and ranges_Cons [simp]: "ranges (c # cv) = chunk_data c @ ranges cv"
  and ranges_append [simp]: "ranges (cv @ cv') = ranges cv @ ranges cv'"
  by (simp_all add: ranges_def)

lemma wf_Nil [simp]: "wf []"
  by (simp add: wf_def)

lemma ranges_eq_Nil_iff: "meta_ok cv \<Longrightarrow> ranges cv = [] \<longleftrightarrow> cv = []"
  by (cases cv) (auto simp: meta_ok_Cons chunk_ok_def)

lemma ranges_split:
  "k < length cv \<Longrightarrow> ranges cv = ranges (take k cv) @ chunk_data (cv ! k) @ ranges (drop (Suc k) cv)"
  by (simp add: ranges_def concat_split[of k "map chunk_data cv"] take_map drop_map)

lemma ranges_update:
  "k < length cv \<Longrightarrow>
     ranges (cv[k := c]) = ranges (take k cv) @ chunk_data c @ ranges (drop (Suc k) cv)"
  by (simp add: upd_conv_take_nth_drop)

lemma rpos_def': "rpos cv it = length (ranges (take (fst it) cv)) + snd it"
  by (simp add: rpos_def flat_pos_def ranges_def take_map)

lemma rpos_layout: "rpos cv it = sum_list (take (fst it) (layout cv)) + snd it"
  by (simp add: rpos_def' layout_def ranges_def length_concat comp_def take_map)

lemma layout_length: "layout cv = layout cv' \<Longrightarrow> length cv = length cv'"
  unfolding layout_def by (metis length_map)

lemma layout_nth: "k < length cv \<Longrightarrow> layout cv ! k = length (chunk_data (cv ! k))"
  by (simp add: layout_def)

lemma valid_layout:
  assumes "layout cv = layout cv'"
  shows "valid cv it = valid cv' it" "rpos cv it = rpos cv' it" "v_end cv = v_end cv'"
    "valid_or_end cv it = valid_or_end cv' it"
proof -
  note len = layout_length[OF assms]
  show *: "valid cv it = valid cv' it"
    unfolding valid_def using layout_nth[of "fst it" cv] layout_nth[of "fst it" cv'] len assms by auto
  show "rpos cv it = rpos cv' it" by (simp add: rpos_layout assms)
  show **: "v_end cv = v_end cv'" by (simp add: v_end_def len)
  show "valid_or_end cv it = valid_or_end cv' it" by (simp add: valid_or_end_def * **)
qed

section \<open>Iterators as positions in the flat list\<close>

lemma valid_imp_or_end: "valid cv it \<Longrightarrow> valid_or_end cv it"
  by (simp add: valid_or_end_def)

lemma valid_or_end_v_end [simp]: "valid_or_end cv (v_end cv)"
  by (simp add: valid_or_end_def)

lemma rpos_less: "valid cv it \<Longrightarrow> rpos cv it < length (ranges cv)"
  unfolding valid_def rpos_def ranges_def by (intro flat_pos_less) auto

lemma rpos_v_end [simp]: "rpos cv (v_end cv) = length (ranges cv)"
  by (simp add: rpos_def' v_end_def)

lemma rpos_le: "valid_or_end cv it \<Longrightarrow> rpos cv it \<le> length (ranges cv)"
  by (auto simp: valid_or_end_def dest: rpos_less)

lemma at_end_iff:
  assumes "valid_or_end cv it"
  shows "at_end cv it \<longleftrightarrow> it = v_end cv" "at_end cv it \<longleftrightarrow> rpos cv it = length (ranges cv)"
    "\<not> at_end cv it \<longleftrightarrow> valid cv it"
  using assms rpos_less[of cv it]
  by (auto simp: valid_or_end_def at_end_def v_end_def valid_def) (metis rpos_v_end v_end_def nat_less_le)+

lemma at_end_v_end [simp]: "at_end cv (v_end cv)"
  by (simp add: at_end_def v_end_def)

lemma deref_ranges: "valid cv it \<Longrightarrow> deref cv it = ranges cv ! rpos cv it"
  unfolding valid_def deref_def rpos_def ranges_def by (simp add: concat_nth_flat_pos)

lemma deref_in_ranges: "valid cv it \<Longrightarrow> deref cv it \<in> set (ranges cv)"
  by (simp add: deref_ranges rpos_less)

lemma v_begin_props:
  assumes "meta_ok cv"
  shows "valid_or_end cv (v_begin cv)" "rpos cv (v_begin cv) = 0"
proof -
  show "valid_or_end cv (v_begin cv)"
    using assms by (cases cv) (auto simp: v_begin_def valid_or_end_def valid_def meta_ok_Cons chunk_ok_def)
  show "rpos cv (v_begin cv) = 0"
    by (cases cv) (auto simp: v_begin_def rpos_def' v_end_def)
qed

lemma valid_start: "meta_ok cv \<Longrightarrow> k < length cv \<Longrightarrow> valid cv (k, 0)"
  using meta_ok_nth[of cv k] by (simp add: valid_def chunk_ok_def)

lemma valid_or_end_start: "meta_ok cv \<Longrightarrow> k \<le> length cv \<Longrightarrow> valid_or_end cv (k, 0)"
  using valid_start[of cv k] by (cases "k < length cv") (auto simp: valid_or_end_def v_end_def)

lemma rpos_next_chunk:
  "k < length cv \<Longrightarrow> rpos cv (Suc k, 0) = rpos cv (k, length (chunk_data (cv ! k)))"
  by (simp add: rpos_def' take_Suc_conv_app_nth)

lemma it_next_props:
  assumes "meta_ok cv" "valid cv it"
  shows "valid_or_end cv (it_next cv it)" "rpos cv (it_next cv it) = Suc (rpos cv it)"
proof -
  obtain k i where it: "it = (k, i)" by force
  have k: "k < length cv" and i: "i < length (chunk_data (cv ! k))"
    using assms(2) it by (auto simp: valid_def)
  show "valid_or_end cv (it_next cv it)"
  proof (cases "length (chunk_data (cv ! k)) \<le> Suc i")
    case True
    then show ?thesis using it k valid_or_end_start[OF assms(1), of "Suc k"]
      by (simp add: it_next_def next_chunk_def)
  next
    case False
    then show ?thesis using it k by (simp add: it_next_def valid_or_end_def valid_def)
  qed
  show "rpos cv (it_next cv it) = Suc (rpos cv it)"
  proof (cases "length (chunk_data (cv ! k)) \<le> Suc i")
    case True
    then have "Suc i = length (chunk_data (cv ! k))" using i by simp
    then show ?thesis using it k rpos_next_chunk[OF k] by (simp add: it_next_def next_chunk_def rpos_def')
  next
    case False
    then show ?thesis using it by (simp add: it_next_def rpos_def')
  qed
qed

lemma it_prev_props:
  assumes "meta_ok cv" "valid_or_end cv it" "0 < rpos cv it"
  shows "valid cv (it_prev cv it)" "Suc (rpos cv (it_prev cv it)) = rpos cv it"
proof -
  obtain k i where it: "it = (k, i)" by force
  have kl: "k \<le> length cv" using assms(2) it by (auto simp: valid_or_end_def valid_def v_end_def)
  have "valid cv (it_prev cv it) \<and> Suc (rpos cv (it_prev cv it)) = rpos cv it"
  proof (cases i)
    case 0
    have "k \<noteq> 0"
    proof
      assume "k = 0"
      then show False using assms(3) it 0 by (simp add: rpos_def')
    qed
    then obtain k' where k: "k = Suc k'" by (cases k) auto
    have k': "k' < length cv" using kl k by simp
    have "chunk_data (cv ! k') \<noteq> []" using meta_ok_nth[OF assms(1) k'] by (simp add: chunk_ok_def)
    then show ?thesis using it 0 k k' rpos_next_chunk[OF k'] by (simp add: it_prev_def valid_def rpos_def')
  next
    case (Suc j)
    then have "valid cv it" using assms(2) it by (auto simp: valid_or_end_def v_end_def)
    then show ?thesis using it Suc by (auto simp: it_prev_def valid_def rpos_def')
  qed
  then show "valid cv (it_prev cv it)" "Suc (rpos cv (it_prev cv it)) = rpos cv it" by auto
qed

lemma rpos_inj:
  assumes "meta_ok cv" "valid_or_end cv it" "valid_or_end cv it'" "rpos cv it = rpos cv it'"
  shows "it = it'"
proof -
  have *: "False" if "valid cv a" "valid_or_end cv b" "rpos cv a = rpos cv b" "fst a < fst b" for a b
  proof -
    have "rpos cv a < rpos cv (Suc (fst a), 0)"
      using that(1) rpos_next_chunk[of "fst a" cv] by (simp add: valid_def rpos_def')
    also have "\<dots> \<le> rpos cv b"
    proof -
      have "take (fst b) cv = take (Suc (fst a)) cv @ take (fst b - Suc (fst a)) (drop (Suc (fst a)) cv)"
        using that(4) by (metis Suc_leI le_add_diff_inverse take_add)
      then have "length (ranges (take (Suc (fst a)) cv)) \<le> length (ranges (take (fst b) cv))"
        by (metis length_append le_add1 ranges_append)
      then show ?thesis by (simp add: rpos_def')
    qed
    finally show False using that(3) by simp
  qed
  have f: "fst it = fst it'"
  proof (rule ccontr)
    assume "fst it \<noteq> fst it'"
    then consider "fst it < fst it'" | "fst it' < fst it" by linarith
    then show False
    proof cases
      case 1
      then have "valid cv it" using assms(2,3) by (auto simp: valid_or_end_def v_end_def valid_def)
      then show False using * assms(3,4) 1 by blast
    next
      case 2
      then have "valid cv it'" using assms(2,3) by (auto simp: valid_or_end_def v_end_def valid_def)
      then show False using *[of it' it] assms(2,4) 2 by simp
    qed
  qed
  then have "snd it = snd it'" using assms(4) by (simp add: rpos_def')
  with f show ?thesis by (simp add: prod_eq_iff)
qed

section \<open>The primitives on the flat list\<close>

lemma ranges_size_update:
  "i < length d \<Longrightarrow>
     ranges_size (d[i := v]) + range_size (d ! i) = ranges_size d + range_size v"
proof -
  assume i: "i < length d"
  have "ranges_size d = ranges_size (take i d) + range_size (d ! i) + ranges_size (drop (Suc i) d)"
    by (subst id_take_nth_drop[OF i]) simp
  then show ?thesis using i by (simp add: upd_conv_take_nth_drop)
qed

lemma range_size_le: "r \<in> set d \<Longrightarrow> range_size r \<le> ranges_size d"
  by (induction d) auto

lemma hd_list_update: "d \<noteq> [] \<Longrightarrow> hd (d[i := v]) = (if i = 0 then v else hd d)"
  by (cases d) (auto split: nat.splits)

lemma last_nth: "Suc i = length d \<Longrightarrow> last d = d ! i"
  by (metis diff_Suc_1 last_conv_nth list.size(3) nat.distinct(1))

lemma layout_update:
  assumes "length (chunk_data c) = length (chunk_data (cv ! k))"
  shows "layout (cv[k := c]) = layout cv"
proof (cases "k < length cv")
  case True
  then show ?thesis using assms by (metis layout_def layout_nth list_update_id map_update comp_apply)
next
  case False
  then show ?thesis by (simp add: list_update_beyond)
qed

lemma it_set_layout [simp]: "layout (it_set cv it f b) = layout cv"
  by (simp add: it_set_def Let_def layout_update)

lemma it_adjust_layout [simp]: "layout (it_adjust cv it f b) = layout cv"
  by (simp add: it_adjust_def Let_def layout_update)

lemma it_shift_layout [simp]: "layout (it_shift cv it d) = layout cv"
  by (simp add: it_shift_def Let_def layout_update)

lemma it_set_props:
  assumes "meta_ok cv" "valid cv it" "fst (deref cv it) \<le> snd (deref cv it)" "f \<le> b"
  shows "meta_ok (it_set cv it f b)" "ranges (it_set cv it f b) = (ranges cv)[rpos cv it := (f, b)]"
proof -
  obtain k i where it: "it = (k, i)" by force
  define c where "c = cv ! k"
  have k: "k < length cv" and i: "i < length (chunk_data c)"
    using assms(2) it by (auto simp: valid_def c_def)
  have c: "chunk_ok c" "count_ok c" using meta_ok_nth[OF assms(1) k] by (auto simp: c_def)
  define c' where "c' = c\<lparr>
           chunk_count := chunk_count c - (snd (chunk_data c ! i) - fst (chunk_data c ! i)) + (b - f),
           chunk_begin := (if i = 0 then f else chunk_begin c),
           chunk_end := (if Suc i = length (chunk_data c) then b else chunk_end c),
           chunk_data := (chunk_data c)[i := (f, b)]\<rparr>"
  have eq: "it_set cv it f b = cv[k := c']"
    by (simp add: it_set_def it c'_def c_def Let_def)
  have "chunk_ok c'"
    using c(1) i by (auto simp: chunk_ok_def c'_def hd_list_update last_list_update)
  moreover have "count_ok c'"
    using c(2) ranges_size_update[OF i, of "(f, b)"] range_size_le[OF nth_mem[OF i]]
    by (simp add: count_ok_def c'_def range_size_def)
  ultimately show "meta_ok (it_set cv it f b)" by (simp add: eq meta_ok_update assms(1))
  show "ranges (it_set cv it f b) = (ranges cv)[rpos cv it := (f, b)]"
    using concat_update_nth[of k "map chunk_data cv" i "(f, b)"] k i it
    by (simp add: eq[unfolded it] ranges_def rpos_def c'_def c_def map_update)
qed

lemma plus_diff_count:
  assumes "0 \<le> int f + a" "0 \<le> int s + b" "f \<le> s" "s - f \<le> n" "plus_diff f a \<le> plus_diff s b"
  shows "plus_diff n (- a + b) = n - (s - f) + (plus_diff s b - plus_diff f a)"
  using assms unfolding plus_diff_def by linarith

lemma it_adjust_eq_set:
  assumes "meta_ok cv" "valid cv it" "0 \<le> int (fst (deref cv it)) + front"
    "0 \<le> int (snd (deref cv it)) + back"
    "plus_diff (fst (deref cv it)) front \<le> plus_diff (snd (deref cv it)) back"
    "fst (deref cv it) \<le> snd (deref cv it)"
  shows "it_adjust cv it front back =
    it_set cv it (plus_diff (fst (deref cv it)) front) (plus_diff (snd (deref cv it)) back)"
proof -
  obtain k i where it: "it = (k, i)" by force
  define c where "c = cv ! k"
  have k: "k < length cv" and i: "i < length (chunk_data c)"
    using assms(2) it by (auto simp: valid_def c_def)
  have c: "chunk_ok c" "count_ok c" using meta_ok_nth[OF assms(1) k] by (auto simp: c_def)
  define r where "r = chunk_data c ! i"
  have r: "deref cv it = r" by (simp add: deref_def it c_def r_def)
  have 0: "i = 0 \<Longrightarrow> chunk_begin c = fst r"
    using c(1) i by (simp add: chunk_ok_def r_def hd_conv_nth)
  have 1: "Suc i = length (chunk_data c) \<Longrightarrow> chunk_end c = snd r"
    using c(1) i by (simp add: chunk_ok_def r_def last_nth)
  have "range_size r \<le> chunk_count c"
    using c(2) range_size_le[OF nth_mem[OF i]] by (simp add: count_ok_def r_def)
  then have 2: "plus_diff (chunk_count c) (- front + back) =
     chunk_count c - (snd r - fst r) + (plus_diff (snd r) back - plus_diff (fst r) front)"
    using assms(3-6) r by (intro plus_diff_count) (auto simp: range_size_def)
  show ?thesis
    unfolding it_adjust_def it_set_def Let_def it fst_conv snd_conv c_def[symmetric]
      r_def[symmetric] r[unfolded it]
    by (rule arg_cong[where f = "\<lambda>x. cv[k := x]"], rule chunk.equality) (use 0 1 2 in simp_all)
qed

lemma it_shift_eq_set:
  assumes "meta_ok cv" "valid cv it" "0 \<le> int (fst (deref cv it)) + d"
    "fst (deref cv it) \<le> snd (deref cv it)"
  shows "it_shift cv it d =
    it_set cv it (plus_diff (fst (deref cv it)) d) (plus_diff (snd (deref cv it)) d)"
proof -
  obtain k i where it: "it = (k, i)" by force
  define c where "c = cv ! k"
  have k: "k < length cv" and i: "i < length (chunk_data c)"
    using assms(2) it by (auto simp: valid_def c_def)
  have c: "chunk_ok c" "count_ok c" using meta_ok_nth[OF assms(1) k] by (auto simp: c_def)
  define r where "r = chunk_data c ! i"
  have r: "deref cv it = r" by (simp add: deref_def it c_def r_def)
  have 0: "i = 0 \<Longrightarrow> chunk_begin c = fst r"
    using c(1) i by (simp add: chunk_ok_def r_def hd_conv_nth)
  have 1: "Suc i = length (chunk_data c) \<Longrightarrow> chunk_end c = snd r"
    using c(1) i by (simp add: chunk_ok_def r_def last_nth)
  have "range_size r \<le> chunk_count c"
    using c(2) range_size_le[OF nth_mem[OF i]] by (simp add: count_ok_def r_def)
  then have 2: "chunk_count c - (snd r - fst r) + (plus_diff (snd r) d - plus_diff (fst r) d) = chunk_count c"
    using assms(3,4) r plus_diff_count[of "fst r" d "snd r" d "chunk_count c"]
    by (simp add: range_size_def plus_diff_def)
  show ?thesis
    unfolding it_shift_def it_set_def Let_def it fst_conv snd_conv c_def[symmetric]
      r_def[symmetric] r[unfolded it]
    by (rule arg_cong[where f = "\<lambda>x. cv[k := x]"], rule chunk.equality) (use 0 1 2 in simp_all)
qed

lemma plus_diff_0 [simp]: "plus_diff n 0 = n"
  and plus_diff_of_nat [simp]: "plus_diff n (int k) = n + k"
  and plus_diff_1 [simp]: "plus_diff n 1 = Suc n"
  and plus_diff_minus_1 [simp]: "plus_diff n (- 1) = n - 1"
  by (simp_all add: plus_diff_def nat_diff_distrib')

lemma v_erase_props:
  assumes "meta_ok cv" "valid cv it" "v_erase cv it = (cv', it')"
  shows "meta_ok cv'" "ranges cv' = take (rpos cv it) (ranges cv) @ drop (Suc (rpos cv it)) (ranges cv)"
    "valid_or_end cv' it'" "rpos cv' it' = rpos cv it"
proof -
  obtain k i where it: "it = (k, i)" by force
  define c where "c = cv ! k"
  define d where "d = take i (chunk_data c) @ drop (Suc i) (chunk_data c)"
  have k: "k < length cv" and i: "i < length (chunk_data c)"
    using assms(2) it by (auto simp: valid_def c_def)
  have c: "chunk_ok c" "count_ok c" using meta_ok_nth[OF assms(1) k] by (auto simp: c_def)
  have flat: "take (rpos cv it) (ranges cv) @ drop (Suc (rpos cv it)) (ranges cv)
      = ranges (take k cv) @ d @ ranges (drop (Suc k) cv)"
    using i it by (simp add: ranges_split[OF k] rpos_def' d_def c_def)
  have split: "meta_ok (take k cv)" "meta_ok (drop (Suc k) cv)"
    using assms(1) unfolding meta_ok_def by (meson in_set_takeD in_set_dropD)+
  have "meta_ok cv' \<and> ranges cv' = ranges (take k cv) @ d @ ranges (drop (Suc k) cv) \<and>
    valid_or_end cv' it' \<and> rpos cv' it' = rpos cv it"
  proof (cases "d = []")
    case True
    then have cv': "cv' = take k cv @ drop (Suc k) cv" and it': "it' = (k, 0)"
      using assms(3) by (auto simp: v_erase_def it Let_def d_def c_def)
    have "i = 0" using True i by (auto simp: d_def)
    moreover have "meta_ok cv'" using split by (simp add: cv' meta_ok_append)
    moreover have "valid_or_end cv' it'"
      using valid_or_end_start[OF \<open>meta_ok cv'\<close>, of k] k by (simp add: it' cv')
    ultimately show ?thesis using True k by (simp add: cv' it' it rpos_def')
  next
    case False
    define c' where "c' = c\<lparr>
                 chunk_count := chunk_count c - (snd (chunk_data c ! i) - fst (chunk_data c ! i)),
                 chunk_data := d, chunk_begin := fst (hd d), chunk_end := snd (last d)\<rparr>"
    have cv': "cv' = cv[k := c']" and it': "it' = (if i < length d then it else (Suc k, 0))"
      using assms(3) False unfolding d_def c'_def
      by (auto simp: v_erase_def it Let_def c_def)
    have "ranges_size (chunk_data c) = ranges_size d + range_size (chunk_data c ! i)"
      unfolding d_def by (subst id_take_nth_drop[OF i]) simp
    then have "count_ok c'" using c(2) by (simp add: count_ok_def c'_def range_size_def)
    moreover have "chunk_ok c'" using c(1) False i by (auto simp: chunk_ok_def c'_def d_def)
    ultimately have "meta_ok cv'" by (simp add: cv' meta_ok_update assms(1))
    moreover have "ranges cv' = ranges (take k cv) @ d @ ranges (drop (Suc k) cv)"
      by (simp add: cv' ranges_update[OF k] c'_def)
    moreover have "valid_or_end cv' it' \<and> rpos cv' it' = rpos cv it"
    proof (cases "i < length d")
      case True
      then show ?thesis using k by (simp add: it' cv' it valid_or_end_def valid_def c'_def rpos_def')
    next
      case False
      then have "length d = i" using i by (simp add: d_def)
      then have "rpos cv' (Suc k, 0) = rpos cv it"
        using k rpos_next_chunk[of k cv'] by (simp add: cv' it c'_def rpos_def')
      then show ?thesis using False k valid_or_end_start[OF \<open>meta_ok cv'\<close>, of "Suc k"]
        by (simp add: it' cv')
    qed
    ultimately show ?thesis by simp
  qed
  then show "meta_ok cv'" "ranges cv' = take (rpos cv it) (ranges cv) @ drop (Suc (rpos cv it)) (ranges cv)"
    "valid_or_end cv' it'" "rpos cv' it' = rpos cv it"
    using flat by auto
qed

lemma chunk_okD:
  assumes "chunk_ok c"
  shows "chunk_data c \<noteq> []" "length (chunk_data c) \<le> max_size"
    "chunk_begin c = fst (hd (chunk_data c))" "chunk_end c = snd (last (chunk_data c))"
  using assms by (auto simp: chunk_ok_def)

lemma push_back_props:
  assumes "meta_ok cv" "ranges_ok (ranges cv @ [v])"
  shows "returns (push_back cv v) (\<lambda>cv'. meta_ok cv' \<and> ranges cv' = ranges cv @ [v] \<and> cv' \<noteq> [])"
proof (cases "cv \<noteq> [] \<and> length (chunk_data (last cv)) < max_size")
  case True
  define c where "c = last cv"
  have cv: "cv = butlast cv @ [c]" using True by (simp add: c_def)
  have c: "chunk_ok c" "count_ok c" and b: "meta_ok (butlast cv)"
    using assms(1) cv by (metis meta_ok_Cons meta_ok_append)+
  have "last (chunk_data c) \<in> set (ranges cv)"
    using chunk_okD(1)[OF c(1)] by (subst cv) simp
  then have "chunk_end c < fst v"
    using assms(2) chunk_okD(4)[OF c(1)] by (auto simp: ranges_ok_append)
  moreover have "ranges cv = ranges (butlast cv) @ chunk_data c" by (subst cv) simp
  ultimately show ?thesis
    using True c b by (auto simp: push_back_def c_def[symmetric] meta_ok_append meta_ok_Cons
        chunk_ok_def count_ok_def range_size_def)
next
  case False
  then have "push_back cv v = Some (cv @ [\<lparr>chunk_data = [v], chunk_begin = fst v, chunk_end = snd v,
                        chunk_count = snd v - fst v\<rparr>])"
    by (simp only: push_back_def if_False)
  then show ?thesis using assms(1) max_size_pos(1)
    by (simp add: meta_ok_append meta_ok_Cons chunk_ok_def count_ok_def range_size_def)
qed

lemma ensure_space_props:
  assumes "meta_ok cv" "valid cv it" "ensure_space cv it = (cv', it')"
  shows "meta_ok cv'" "ranges cv' = ranges cv" "valid cv' it'" "rpos cv' it' = rpos cv it"
    "length (chunk_data (cv' ! fst it')) < max_size"
proof -
  obtain k i where it: "it = (k, i)" by force
  define c where "c = cv ! k"
  have k: "k < length cv" and i: "i < length (chunk_data c)"
    using assms(2) it by (auto simp: valid_def c_def)
  have c: "chunk_ok c" "count_ok c" using meta_ok_nth[OF assms(1) k] by (auto simp: c_def)
  have "meta_ok cv' \<and> ranges cv' = ranges cv \<and> valid cv' it' \<and> rpos cv' it' = rpos cv it \<and>
    length (chunk_data (cv' ! fst it')) < max_size"
  proof (cases "length (chunk_data c) + 1 \<le> max_size")
    case True
    then have "cv' = cv \<and> it' = it" using assms(3) by (simp add: ensure_space_def it c_def)
    then show ?thesis using True assms by (simp add: it c_def)
  next
    case False
    define h where "h = max_size div 2"
    have h: "0 < h" "h + h = max_size" "h < max_size" using max_size_pos by (simp_all add: h_def)
    have len: "length (chunk_data c) = h + h" using False chunk_okD(2)[OF c(1)] h by simp
    define kept where "kept = take h (chunk_data c)"
    define moved where "moved = drop h (chunk_data c)"
    have d: "chunk_data c = kept @ moved" by (simp add: kept_def moved_def)
    have lk: "length kept = h" and lm: "length moved = h" using len by (auto simp: kept_def moved_def)
    have ne: "kept \<noteq> []" "moved \<noteq> []" using h lk lm by auto
    define prev where "prev = c\<lparr>chunk_data := kept, chunk_end := snd (last kept),
                     chunk_count := chunk_count c - sum_list (map (\<lambda>r. snd r - fst r) moved)\<rparr>"
    define new where "new = \<lparr>chunk_data = moved, chunk_begin = fst (hd moved),
                   chunk_end = snd (last moved), chunk_count = sum_list (map (\<lambda>r. snd r - fst r) moved)\<rparr>"
    have cv': "cv' = take k cv @ prev # new # drop (Suc k) cv"
      and it': "it' = (if h \<le> i then (Suc k, i - h) else (k, i))"
      using assms(3) False len
      by (auto simp: ensure_space_def it c_def[symmetric] Let_def prev_def new_def kept_def moved_def
          h_def[symmetric] split: if_splits)
    have size: "sum_list (map (\<lambda>r. snd r - fst r) moved) = ranges_size moved"
      by (simp add: ranges_size_def range_size_def[abs_def])
    have "chunk_ok prev" "chunk_ok new" "count_ok prev" "count_ok new"
      using c ne h lk lm d by (auto simp: chunk_ok_def count_ok_def prev_def new_def size)
    moreover have "meta_ok (take k cv)" "meta_ok (drop (Suc k) cv)"
      using assms(1) unfolding meta_ok_def by (meson in_set_takeD in_set_dropD)+
    ultimately have "meta_ok cv'" by (simp add: cv' meta_ok_append meta_ok_Cons)
    moreover have "ranges cv' = ranges cv"
      by (simp add: cv' ranges_split[OF k] c_def[symmetric] d prev_def new_def)
    moreover have nth: "cv' ! k = prev" "cv' ! Suc k = new" and lcv: "Suc k < length cv'"
      using k by (simp_all add: cv' nth_append)
    moreover have "valid cv' it' \<and> rpos cv' it' = rpos cv it"
    proof (cases "h \<le> i")
      case True
      have "rpos cv' (Suc k, i - h) = length (ranges (take k cv)) + h + (i - h)"
        using k lk by (simp add: rpos_def' cv' prev_def)
      then show ?thesis
        using True i len lm lcv nth(2) by (simp add: it' it valid_def new_def rpos_def')
    next
      case False
      then show ?thesis using i len lk k lcv nth(1)
        by (simp add: it' it valid_def prev_def rpos_def' cv')
    qed
    ultimately show ?thesis using h lk lm by (auto simp: it' prev_def new_def)
  qed
  then show "meta_ok cv'" "ranges cv' = ranges cv" "valid cv' it'" "rpos cv' it' = rpos cv it"
    "length (chunk_data (cv' ! fst it')) < max_size" by auto
qed

lemma v_insert_props:
  assumes "meta_ok cv" "valid_or_end cv it"
    and ok: "ranges_ok (take (rpos cv it) (ranges cv) @ v # drop (rpos cv it) (ranges cv))"
  shows "returns (v_insert cv it v) (\<lambda>(cv', it'). meta_ok cv' \<and> valid cv' it' \<and>
    ranges cv' = take (rpos cv it) (ranges cv) @ v # drop (rpos cv it) (ranges cv) \<and>
    rpos cv' it' = rpos cv it)"
proof (cases "at_end cv it")
  case True
  then have p: "rpos cv it = length (ranges cv)" using at_end_iff[OF assms(2)] by simp
  have "returns (push_back cv v) (\<lambda>cv'. meta_ok cv' \<and> ranges cv' = ranges cv @ [v] \<and> cv' \<noteq> [])"
    by (rule push_back_props) (use assms(1) ok p in auto)
  then show ?thesis
    unfolding v_insert_def using True
  proof (simp, elim returns_mono)
    fix cv' assume *: "meta_ok cv' \<and> ranges cv' = ranges cv @ [v] \<and> cv' \<noteq> []"
    then have "0 < rpos cv' (v_end cv')" by simp
    with it_prev_props[of cv' "v_end cv'"] *
    show "meta_ok cv' \<and> valid cv' (it_prev cv' (v_end cv')) \<and>
      ranges cv' = take (rpos cv it) (ranges cv) @ v # drop (rpos cv it) (ranges cv) \<and>
      rpos cv' (it_prev cv' (v_end cv')) = rpos cv it"
      using p by simp
  qed
next
  case False
  then have v: "valid cv it" using at_end_iff[OF assms(2)] by simp
  obtain cv1 it1 where e: "ensure_space cv it = (cv1, it1)" by (cases "ensure_space cv it")
  note es = ensure_space_props[OF assms(1) v e]
  obtain k i where it1: "it1 = (k, i)" by force
  define c where "c = cv1 ! k"
  have k: "k < length cv1" and i: "i < length (chunk_data c)" and l: "length (chunk_data c) < max_size"
    using es(3,5) it1 by (auto simp: valid_def c_def)
  have c: "chunk_ok c" "count_ok c" using meta_ok_nth[OF es(1) k] by (auto simp: c_def)
  define d where "d = take i (chunk_data c) @ v # drop i (chunk_data c)"
  define c' where "c' = c\<lparr>chunk_data := d, chunk_count := chunk_count c + (snd v - fst v),
             chunk_begin := min (chunk_begin c) (fst v), chunk_end := max (chunk_end c) (snd v)\<rparr>"
  have eq: "v_insert cv it v = Some (cv1[k := c'], (k, i))"
    using False e by (simp add: v_insert_def it1 Let_def c'_def d_def c_def)
  have flat: "take (rpos cv it) (ranges cv) @ v # drop (rpos cv it) (ranges cv)
      = ranges (take k cv1) @ d @ ranges (drop (Suc k) cv1)"
    unfolding es(4)[symmetric] es(2)[symmetric] using i
    by (simp add: it1 ranges_split[OF k] rpos_def' d_def c_def)
  have "ranges_ok d" using ok unfolding flat by (simp add: ranges_ok_append)
  have "fst v < snd v" using \<open>ranges_ok d\<close> by (simp add: d_def ranges_ok_append ranges_ok_Cons)
  have before: "\<forall>r\<in>set (take i (chunk_data c)). fst r < fst v"
    using \<open>ranges_ok d\<close> by (fastforce simp: d_def ranges_ok_append dest: ranges_ok_nonempty)
  have after: "\<forall>r\<in>set (drop i (chunk_data c)). snd v < fst r \<and> fst r < snd r"
    using \<open>ranges_ok d\<close> by (auto simp: d_def ranges_ok_append ranges_ok_Cons dest: ranges_ok_nonempty)
  have last: "last (chunk_data c) \<in> set (drop i (chunk_data c))" using i
    by (metis last_drop last_in_set drop_eq_Nil not_less)
  have "min (chunk_begin c) (fst v) = fst (hd d)"
  proof (cases "i = 0")
    case True
    have "hd (chunk_data c) \<in> set (drop i (chunk_data c))" using True c(1) by (simp add: chunk_ok_def)
    then have "fst v < fst (hd (chunk_data c))" using after \<open>fst v < snd v\<close> by fastforce
    then show ?thesis using True c(1) by (simp add: d_def chunk_ok_def)
  next
    case False
    then have "hd (chunk_data c) \<in> set (take i (chunk_data c))" "hd d = hd (chunk_data c)"
      using c(1) by (auto simp: chunk_ok_def d_def hd_append hd_in_set[of "take i (chunk_data c)", simplified])
    then show ?thesis using before c(1) by (auto simp: chunk_ok_def)
  qed
  moreover have "max (chunk_end c) (snd v) = snd (last d)"
  proof -
    have "last d = last (chunk_data c)" using i by (simp add: d_def)
    then show ?thesis using last after c(1) by (auto simp: chunk_ok_def max_def)
  qed
  ultimately have "chunk_ok c'" using l i by (auto simp: chunk_ok_def c'_def d_def)
  moreover have "ranges_size (chunk_data c) = ranges_size (take i (chunk_data c)) + ranges_size (drop i (chunk_data c))"
    by (metis append_take_drop_id ranges_size_simps(3))
  then have "count_ok c'" using c(2) by (simp add: count_ok_def c'_def d_def range_size_def)
  ultimately have "meta_ok (cv1[k := c'])" by (simp add: meta_ok_update es(1))
  moreover have "valid (cv1[k := c']) (k, i)" using k i by (simp add: valid_def c'_def d_def)
  moreover have "rpos (cv1[k := c']) (k, i) = rpos cv it" using es(4) by (simp add: it1 rpos_def')
  ultimately show ?thesis using k flat by (simp add: eq ranges_update c'_def)
qed

section \<open>Finding an index\<close>

text \<open>The position of the first range that ends after the index.\<close>

definition find_pos :: "nat \<Rightarrow> index_range list \<Rightarrow> nat" where
  "find_pos index rs = length (takeWhile (\<lambda>r. snd r \<le> index) rs)"

lemma find_pos_le: "find_pos index rs \<le> length rs"
  by (simp add: find_pos_def length_takeWhile_le)

lemma find_pos_before: "i < find_pos index rs \<Longrightarrow> snd (rs ! i) \<le> index"
  unfolding find_pos_def by (rule length_takeWhile_less_nth)

lemma find_pos_before_set: "r \<in> set (take (find_pos index rs) rs) \<Longrightarrow> snd r \<le> index"
  by (auto simp: find_pos_def takeWhile_eq_take[symmetric] dest: set_takeWhileD)

lemma find_pos_at: "find_pos index rs < length rs \<Longrightarrow> index < snd (rs ! find_pos index rs)"
  unfolding find_pos_def using nth_length_takeWhile[of "\<lambda>r. snd r \<le> index" rs] by simp

lemma find_pos_append:
  "(\<forall>r\<in>set rs. snd r \<le> index) \<Longrightarrow> find_pos index (rs @ ss) = length rs + find_pos index ss"
  by (induction rs) (auto simp: find_pos_def)

lemma find_pos_append_less:
  "find_pos index rs < length rs \<Longrightarrow> find_pos index (rs @ ss) = find_pos index rs"
  by (induction rs) (auto simp: find_pos_def split: if_splits)

lemma find_pos_all: "(\<forall>r\<in>set rs. snd r \<le> index) \<Longrightarrow> find_pos index rs = length rs"
  using find_pos_append[of rs index "[]"] by (simp add: find_pos_def)

lemma find_pos_lessI: "r \<in> set rs \<Longrightarrow> index < snd r \<Longrightarrow> find_pos index rs < length rs"
  by (induction rs) (auto simp: find_pos_def)

lemma find_pos_eqI:
  "k \<le> length rs \<Longrightarrow> (\<And>i. i < k \<Longrightarrow> snd (rs ! i) \<le> index) \<Longrightarrow>
     (k < length rs \<Longrightarrow> index < snd (rs ! k)) \<Longrightarrow> find_pos index rs = k"
  unfolding find_pos_def by (rule length_takeWhile_eqI) (auto simp: not_le)

lemma find_pos_mem:
  assumes "ranges_ok rs"
  shows "index \<in> iset rs \<longleftrightarrow> find_pos index rs < length rs \<and> fst (rs ! find_pos index rs) \<le> index"
proof
  assume "index \<in> iset rs"
  then obtain j where j: "j < length rs" "fst (rs ! j) \<le> index" "index < snd (rs ! j)"
    by (auto simp: iset_def in_set_conv_nth)
  have "find_pos index rs = j"
  proof (rule find_pos_eqI)
    show "snd (rs ! i) \<le> index" if "i < j" for i
      using ranges_ok_nth_gap[OF assms that j(1)] j(2) by simp
  qed (use j in auto)
  then show "find_pos index rs < length rs \<and> fst (rs ! find_pos index rs) \<le> index" using j by simp
next
  assume "find_pos index rs < length rs \<and> fst (rs ! find_pos index rs) \<le> index"
  then show "index \<in> iset rs"
    using find_pos_at[of index rs] by (auto simp: iset_def intro!: bexI[OF _ nth_mem])
qed

lemma chunk_snd_le_end:
  assumes "chunk_ok c" "ranges_ok (chunk_data c)" "r \<in> set (chunk_data c)"
  shows "snd r \<le> chunk_end c"
proof -
  obtain i where i: "i < length (chunk_data c)" "r = chunk_data c ! i"
    using assms(3) by (auto simp: in_set_conv_nth)
  then have "snd r \<le> snd (chunk_data c ! (length (chunk_data c) - 1))"
    using ranges_ok_nth_mono(1)[OF assms(2), of i "length (chunk_data c) - 1"] by simp
  then show ?thesis using assms(1) by (simp add: chunk_ok_def last_conv_nth)
qed

lemma chunk_fst_ge_begin:
  assumes "chunk_ok c" "ranges_ok (chunk_data c)" "r \<in> set (chunk_data c)"
  shows "chunk_begin c \<le> fst r"
proof -
  obtain i where i: "i < length (chunk_data c)" "r = chunk_data c ! i"
    using assms(3) by (auto simp: in_set_conv_nth)
  then have "fst (chunk_data c ! 0) \<le> fst r"
    using ranges_ok_nth_mono(2)[OF assms(2), of 0 i] by simp
  then show ?thesis using assms(1) by (simp add: chunk_ok_def hd_conv_nth)
qed

lemma ranges_ok_chunk:
  "ranges_ok (ranges cv) \<Longrightarrow> c \<in> set cv \<Longrightarrow> ranges_ok (chunk_data c)"
  by (induction cv) (auto simp: ranges_ok_append)

lemma set_ranges_take:
  "r \<in> set (ranges (take k cv)) \<longleftrightarrow> (\<exists>j<min k (length cv). r \<in> set (chunk_data (cv ! j)))"
  by (fastforce simp: ranges_def in_set_conv_nth)

lemma v_find_from_props:
  assumes "meta_ok cv" "ranges_ok (ranges cv)" "valid_or_end cv it"
    and before: "\<And>i. i < rpos cv it \<Longrightarrow> snd (ranges cv ! i) \<le> index"
  shows "valid_or_end cv (v_find_from cv index it)"
    and "rpos cv (v_find_from cv index it) = find_pos index (ranges cv)"
proof -
  define k0 where "k0 = fst it"
  define k where "k = find_if_from k0 (\<lambda>c. index < chunk_end c) cv"
  have k0: "k0 \<le> length cv" using assms(3) by (auto simp: k0_def valid_or_end_def valid_def v_end_def)
  have k_eq: "k = k0 + length (takeWhile (\<lambda>c. chunk_end c \<le> index) (drop k0 cv))"
    by (simp add: k_def find_if_from_def not_less)
  have skipped: "chunk_end (cv ! j) \<le> index" if "k0 \<le> j" "j < k" for j
  proof -
    have *: "j - k0 < length (takeWhile (\<lambda>c. chunk_end c \<le> index) (drop k0 cv))" using that k_eq by simp
    show ?thesis using length_takeWhile_less_nth[OF *] k0 that by simp
  qed
  have kl: "k \<le> length cv"
    using length_takeWhile_le[of "\<lambda>c. chunk_end c \<le> index" "drop k0 cv"] k0 k_eq by simp
  have before': "snd r \<le> index" if "r \<in> set (take (rpos cv it) (ranges cv))" for r
    using that before by (auto simp: in_set_conv_nth)
  have A: "snd r \<le> index" if r: "r \<in> set (ranges (take k cv))" for r
  proof -
    obtain j where j: "j < k" "j < length cv" "r \<in> set (chunk_data (cv ! j))"
      using r set_ranges_take[of r k cv] by auto
    show ?thesis
    proof (cases "j < k0")
      case True
      have "r \<in> set (ranges (take k0 cv))" using True j set_ranges_take[of r k0 cv] by auto
      moreover have "ranges cv = ranges (take k0 cv) @ ranges (drop k0 cv)"
        by (metis append_take_drop_id ranges_append)
      ultimately have "r \<in> set (take (rpos cv it) (ranges cv))"
        by (simp add: rpos_def' k0_def)
      then show ?thesis by (rule before')
    next
      case False
      then have "chunk_end (cv ! j) \<le> index" using skipped j(1) by simp
      moreover have "snd r \<le> chunk_end (cv ! j)"
        using chunk_snd_le_end meta_ok_nth[OF assms(1) j(2)] ranges_ok_chunk[OF assms(2)] j by auto
      ultimately show ?thesis by simp
    qed
  qed
  have "valid_or_end cv (v_find_from cv index it) \<and>
    rpos cv (v_find_from cv index it) = find_pos index (ranges cv)"
  proof (cases "k = length cv")
    case True
    then have "v_find_from cv index it = v_end cv"
      by (simp add: v_find_from_def k_def[symmetric] k0_def[symmetric])
    moreover have "find_pos index (ranges cv) = length (ranges cv)"
      using A True by (intro find_pos_all) auto
    ultimately show ?thesis by simp
  next
    case False
    define c where "c = cv ! k"
    have k: "k < length cv" using False kl by simp
    have c: "chunk_ok c" "ranges_ok (chunk_data c)"
      using meta_ok_nth[OF assms(1) k] ranges_ok_chunk[OF assms(2), of c] k by (auto simp: c_def)
    have "index < chunk_end c"
      using nth_length_takeWhile[of "\<lambda>c. chunk_end c \<le> index" "drop k0 cv"] k k_eq k0
      by (simp add: c_def not_le)
    then have less: "find_pos index (chunk_data c) < length (chunk_data c)"
      using c(1) by (intro find_pos_lessI[of "last (chunk_data c)"]) (auto simp: chunk_ok_def)
    have "find_pos index (ranges cv) = length (ranges (take k cv)) + find_pos index (chunk_data c)"
      using A less by (simp add: ranges_split[OF k] c_def find_pos_append find_pos_append_less)
    then have pos: "find_pos index (ranges cv) = rpos cv (k, find_pos index (chunk_data c))"
      by (simp add: rpos_def')
    have "v_find_from cv index it = (k, find_pos index (chunk_data c))"
    proof (cases "index < chunk_begin c")
      case True
      have "chunk_data c \<noteq> []" "chunk_begin c = fst (chunk_data c ! 0)"
        using c(1) by (auto simp: chunk_ok_def hd_conv_nth)
      then have "index < snd (chunk_data c ! 0)"
        using True ranges_ok_nonempty[OF c(2), of "chunk_data c ! 0"] by simp
      then have "find_pos index (chunk_data c) = 0" by (intro find_pos_eqI) auto
      then show ?thesis using True k
        by (simp add: v_find_from_def k_def[symmetric] k0_def[symmetric] c_def)
    next
      case ge: False
      define ib where "ib = (if k = k0 then snd it else 0)"
      have "ib \<le> length (chunk_data c) \<and> (\<forall>i<ib. snd (chunk_data c ! i) \<le> index)"
      proof (cases "k = k0")
        case True
        then have v: "valid cv it" using assms(3) k by (auto simp: valid_or_end_def v_end_def k0_def)
        have "snd (chunk_data c ! i) \<le> index" if "i < snd it" for i
        proof -
          have vi: "valid cv (k, i)" using v that True by (auto simp: valid_def k0_def)
          have "rpos cv (k, i) < rpos cv it" using that True by (simp add: rpos_def' k0_def)
          then show ?thesis using before[of "rpos cv (k, i)"] deref_ranges[OF vi]
            by (simp add: deref_def c_def)
        qed
        then show ?thesis using v True by (auto simp: ib_def valid_def k0_def c_def)
      qed (simp add: ib_def)
      then have "lower_bound_from ib (\<lambda>r. snd r \<le> index) (chunk_data c) = find_pos index (chunk_data c)"
        unfolding lower_bound_from_def find_pos_def by (intro length_takeWhile_drop) auto
      then show ?thesis using ge k
        by (simp add: v_find_from_def k_def[symmetric] k0_def[symmetric] c_def[symmetric] ib_def[symmetric])
    qed
    then show ?thesis using pos less k by (auto simp: valid_or_end_def valid_def c_def)
  qed
  then show "valid_or_end cv (v_find_from cv index it)"
    "rpos cv (v_find_from cv index it) = find_pos index (ranges cv)" by auto
qed

lemma v_find_props:
  assumes "wf cv"
  shows "valid_or_end cv (v_find cv index)" "rpos cv (v_find cv index) = find_pos index (ranges cv)"
  using v_find_from_props[of cv "v_begin cv" index] assms v_begin_props[of cv]
  by (auto simp: v_find_def wf_def)

section \<open>The debug check\<close>

lemma verify_ranges_iff:
  "verify_ranges e rs \<longleftrightarrow> ranges_ok rs \<and> (rs \<noteq> [] \<longrightarrow> (\<forall>x. e = Some x \<longrightarrow> x < fst (hd rs)))"
proof (induction e rs rule: verify_ranges.induct)
  case (2 e r rs)
  then show ?case
    using ranges_ok_append_hd[of "[r]" "hd rs" "tl rs"]
    by (cases rs) (auto simp: ranges_ok_Cons split: option.splits)
qed simp

lemma ranges_size_le_span:
  "ranges_ok rs \<Longrightarrow> rs \<noteq> [] \<Longrightarrow> ranges_size rs \<le> snd (last rs) - fst (hd rs)"
proof (induction rs)
  case (Cons r rs)
  show ?case
  proof (cases rs)
    case Nil
    then show ?thesis by (simp add: range_size_def)
  next
    case (Cons s ss)
    have "fst r < snd r" "snd r < fst s" "ranges_ok rs"
      using Cons.prems(1) Cons by (auto simp: ranges_ok_Cons)
    moreover have "ranges_size rs \<le> snd (last rs) - fst s"
      using Cons.IH[OF \<open>ranges_ok rs\<close>] Cons by simp
    moreover have "fst s < snd (last rs)"
      using ranges_ok_nth_mono(1)[OF \<open>ranges_ok rs\<close>, of 0 "length rs - 1"]
        ranges_ok_nonempty[OF \<open>ranges_ok rs\<close>, of s] Cons by (simp add: last_conv_nth del: last.simps)
    ultimately show ?thesis using Cons by (simp add: range_size_def)
  qed
qed simp

text \<open>
  Every vector the operations keep well formed passes the debug check; \<open>wf\<close> adds only that no
  chunk is larger than \<open>max_size\<close>.
\<close>

lemma wf_iff_verify:
  "wf cv \<longleftrightarrow> verify cv \<and> (\<forall>c\<in>set cv. length (chunk_data c) \<le> max_size)"
proof -
  have sz: "sum_list (map (\<lambda>r. snd r - fst r) d) = ranges_size d" for d
    by (simp add: ranges_size_def range_size_def[abs_def])
  have "verify_chunk c \<and> length (chunk_data c) \<le> max_size \<longleftrightarrow> chunk_ok c \<and> count_ok c"
    if "ranges_ok (ranges cv)" "c \<in> set cv" for c
    using ranges_size_le_span[OF ranges_ok_chunk[OF that]]
    by (auto simp: verify_chunk_def chunk_ok_def count_ok_def sz)
  then show ?thesis
    by (auto simp: wf_def verify_def verify_ranges_iff meta_ok_def list_all_iff)
qed

end
