(* ===== verification/IndexSet.thy ===== *)
theory IndexSet
  imports ChunkedRangeVector
begin

text \<open>
  \<open>IndexSet\<close> (include/index_set.hpp, ObjectStore/src/index_set.cpp): the operations that work
  on the chunks in place. An operation that can reach a \<open>REALM_ASSERT\<close> returns in the option
  monad; the theorems show that from a well-formed set none of them aborts, that the result
  is well formed, and which set of indexes it stands for.
\<close>

type_synonym index_set = range_vector

text \<open>\<open>static const size_t npos = -1\<close>.\<close>

definition npos :: nat where
  "npos = 2 ^ 64 - 1"

section \<open>Queries\<close>

definition empty :: "index_set \<Rightarrow> bool" where
  "empty s \<longleftrightarrow> s = []"

definition contains :: "index_set \<Rightarrow> nat \<Rightarrow> bool" where
  "contains s index =
     (let it = v_find s index in \<not> at_end s it \<and> fst (deref s it) \<le> index)"

text \<open>
  \<open>as_indexes()\<close>: an \<open>IndexIterator\<close> is a range iterator with an offset into its range;
  it visits \<open>indexes (ranges s)\<close> in order (\<open>index_iter_visits\<close> below), and the loops over
  \<open>as_indexes()\<close> are recursions over that list.
\<close>

definition index_iter_deref :: "index_set \<Rightarrow> iter \<times> nat \<Rightarrow> nat" where
  "index_iter_deref s ii = fst (deref s (fst ii)) + snd ii"

definition index_iter_next :: "index_set \<Rightarrow> iter \<times> nat \<Rightarrow> iter \<times> nat" where
  "index_iter_next s ii =
     (if fst (deref s (fst ii)) + Suc (snd ii) = snd (deref s (fst ii))
      then (it_next s (fst ii), 0) else (fst ii, Suc (snd ii)))"

definition as_indexes :: "index_set \<Rightarrow> nat list" where
  "as_indexes s = indexes (ranges s)"

text \<open>\<open>count\<close>: the loops of its three phases, each returning the iterator and the sum.\<close>

function count_rest_of_chunk :: "index_set \<Rightarrow> nat \<Rightarrow> iter \<Rightarrow> nat \<Rightarrow> iter \<times> nat" where
  "count_rest_of_chunk s end_index it ret =
     (if \<not> at_end s it \<and> snd (deref s it) < end_index \<and> snd it \<noteq> 0
      then count_rest_of_chunk s end_index (it_next s it) (ret + (snd (deref s it) - fst (deref s it)))
      else (it, ret))"
  by pat_completeness auto
termination
  by (relation "measures [\<lambda>(s, e, it, ret). length s - fst it,
                          \<lambda>(s, e, it, ret). length (chunk_data (s ! fst it)) - snd it]")
    (auto simp: at_end_def it_next_def next_chunk_def)

function count_chunks :: "index_set \<Rightarrow> nat \<Rightarrow> iter \<Rightarrow> nat \<Rightarrow> iter \<times> nat" where
  "count_chunks s end_index it ret =
     (if \<not> at_end s it \<and> chunk_end (s ! fst it) \<le> end_index
      then count_chunks s end_index (next_chunk it) (ret + chunk_count (s ! fst it))
      else (it, ret))"
  by pat_completeness auto
termination
  by (relation "measure (\<lambda>(s, e, it, ret). length s - fst it)") (auto simp: at_end_def next_chunk_def)

function count_ranges :: "index_set \<Rightarrow> nat \<Rightarrow> iter \<Rightarrow> nat \<Rightarrow> iter \<times> nat" where
  "count_ranges s end_index it ret =
     (if \<not> at_end s it \<and> snd (deref s it) \<le> end_index
      then count_ranges s end_index (it_next s it) (ret + (snd (deref s it) - fst (deref s it)))
      else (it, ret))"
  by pat_completeness auto
termination
  by (relation "measures [\<lambda>(s, e, it, ret). length s - fst it,
                          \<lambda>(s, e, it, ret). length (chunk_data (s ! fst it)) - snd it]")
    (auto simp: at_end_def it_next_def next_chunk_def)

declare count_rest_of_chunk.simps [simp del] count_chunks.simps [simp del] count_ranges.simps [simp del]

definition count_complete :: "index_set \<Rightarrow> nat \<Rightarrow> iter \<Rightarrow> nat \<Rightarrow> nat" where
  "count_complete s end_index it ret =
     (let (it, ret) = count_chunks s end_index it ret;
          (it, ret) = count_ranges s end_index it ret
      in if \<not> at_end s it \<and> fst (deref s it) < end_index
         then ret + (end_index - fst (deref s it)) else ret)"

definition index_count :: "index_set \<Rightarrow> nat \<Rightarrow> nat \<Rightarrow> nat" where
  "index_count s start_index end_index =
     (let it = v_find s start_index; r = deref s it in
      if at_end s it \<or> end_index \<le> fst r then 0
      else if end_index \<le> snd r then min (snd r) end_index - max (fst r) start_index
      else if fst r < start_index \<or> snd it \<noteq> 0 then
        let (it, ret) = count_rest_of_chunk s end_index (it_next s it) (snd r - max (fst r) start_index);
            ret = (if \<not> at_end s it \<and> fst (deref s it) < end_index \<and> snd it \<noteq> 0
                   then ret + (end_index - fst (deref s it)) else ret)
        in if at_end s it \<or> end_index \<le> snd (deref s it) then ret
           else count_complete s end_index it ret
      else count_complete s end_index it 0)"

text \<open>\<open>shift\<close>: the loop over the ranges with its \<open>break\<close>.\<close>

fun shift_ranges :: "index_range list \<Rightarrow> nat \<Rightarrow> nat" where
  "shift_ranges [] index = index"
| "shift_ranges (r # rs) index =
     (if index < fst r then index else shift_ranges rs (index + (snd r - fst r)))"

definition shift :: "index_set \<Rightarrow> nat \<Rightarrow> nat" where
  "shift s index = shift_ranges (ranges s) index"

definition unshift :: "index_set \<Rightarrow> nat \<Rightarrow> nat" where
  "unshift s index = index - index_count s 0 index"

section \<open>Adding\<close>

definition do_add :: "index_set \<Rightarrow> iter \<Rightarrow> nat \<Rightarrow> (index_set \<times> iter) option" where
  "do_add s it index =
     (let more_before = (it \<noteq> v_begin s); is_valid = (\<not> at_end s it); prev = it_prev s it in
      do {
        realm_assert (\<not> more_before \<or> snd (deref s prev) \<le> index);
        if is_valid \<and> fst (deref s it) \<le> index \<and> index < snd (deref s it) then Some (s, it)
        else if more_before \<and> snd (deref s prev) = index then
          let s1 = it_adjust s prev 0 1 in
          if is_valid \<and> snd (deref s1 prev) = fst (deref s1 it) then
            let r = deref s1 it;
                s2 = it_adjust s1 prev 0 (int (snd r - fst r));
                (s3, it3) = v_erase s2 it
            in Some (s3, it_prev s3 it3)
          else Some (s1, prev)
        else if is_valid \<and> fst (deref s it) = index + 1 then Some (it_adjust s it (- 1) 0, it)
        else v_insert s it (index, index + 1)
      })"

definition add :: "index_set \<Rightarrow> nat \<Rightarrow> index_set option" where
  "add s index = map_option fst (do_add s (v_find s index) index)"

fun add_each :: "index_set \<Rightarrow> iter \<Rightarrow> nat list \<Rightarrow> index_set option" where
  "add_each s it [] = Some s"
| "add_each s it (index # rest) =
     do { (s', it') \<leftarrow> do_add s (v_find_from s index it) index; add_each s' it' rest }"

definition add_set :: "index_set \<Rightarrow> index_set \<Rightarrow> index_set option" where
  "add_set s other = add_each s (v_begin s) (as_indexes other)"

text \<open>The constructor from an initializer list.\<close>

fun of_list :: "index_set \<Rightarrow> nat list \<Rightarrow> index_set option" where
  "of_list s [] = Some s"
| "of_list s (v # vs) = do { s' \<leftarrow> add s v; of_list s' vs }"

function skip_chunks_adding :: "index_set \<Rightarrow> iter \<Rightarrow> nat \<Rightarrow> iter \<times> nat" where
  "skip_chunks_adding s it index =
     (if \<not> at_end s it \<and> chunk_end (s ! fst it) \<le> index
      then skip_chunks_adding s (next_chunk it) (index + chunk_count (s ! fst it))
      else (it, index))"
  by pat_completeness auto
termination
  by (relation "measure (\<lambda>(s, it, i). length s - fst it)") (auto simp: at_end_def next_chunk_def)

function skip_ranges_adding :: "index_set \<Rightarrow> iter \<Rightarrow> nat \<Rightarrow> iter \<times> nat" where
  "skip_ranges_adding s it index =
     (if \<not> at_end s it \<and> fst (deref s it) \<le> index
      then skip_ranges_adding s (it_next s it) (index + (snd (deref s it) - fst (deref s it)))
      else (it, index))"
  by pat_completeness auto
termination
  by (relation "measures [\<lambda>(s, it, i). length s - fst it,
                          \<lambda>(s, it, i). length (chunk_data (s ! fst it)) - snd it]")
    (auto simp: at_end_def it_next_def next_chunk_def)

declare skip_chunks_adding.simps [simp del] skip_ranges_adding.simps [simp del]

definition add_shifted :: "index_set \<Rightarrow> nat \<Rightarrow> (index_set \<times> nat) option" where
  "add_shifted s index =
     (let (it, index) = skip_chunks_adding s (v_begin s) index;
          (it, index) = skip_ranges_adding s it index
      in do { (s', _) \<leftarrow> do_add s it index; Some (s', index) })"

definition set_len :: "nat \<Rightarrow> index_set option" where
  "set_len len = (if len \<noteq> 0 then push_back [] (0, len) else Some [])"

section \<open>Inserting positions\<close>

function shift_all :: "index_set \<Rightarrow> iter \<Rightarrow> int \<Rightarrow> index_set" where
  "shift_all s it distance =
     (if at_end s it then s
      else let s' = it_shift s it distance in shift_all s' (it_next s' it) distance)"
  by pat_completeness auto
termination
proof (relation "measures [\<lambda>(s, it, d). length s - fst it,
                          \<lambda>(s, it, d). length (chunk_data (s ! fst it)) - snd it]")
  fix s :: index_set and it :: iter and distance :: int and s'
  assume *: "\<not> at_end s it" "s' = it_shift s it distance"
  have len: "length s' = length s" using * layout_length[of s' s] by simp
  moreover have "length (chunk_data (s' ! fst it)) = length (chunk_data (s ! fst it))"
    using * layout_nth[of "fst it" s'] layout_nth[of "fst it" s] len by (simp add: at_end_def)
  ultimately show "((s', it_next s' it, distance), s, it, distance)
      \<in> measures [\<lambda>(s, it, d). length s - fst it, \<lambda>(s, it, d). length (chunk_data (s ! fst it)) - snd it]"
    using * by (auto simp: at_end_def it_next_def next_chunk_def)
qed simp

declare shift_all.simps [simp del]

fun add_run :: "index_set \<Rightarrow> iter \<Rightarrow> nat \<Rightarrow> nat \<Rightarrow> index_set option" where
  "add_run s pos index 0 = Some s"
| "add_run s pos index (Suc n) =
     do { (s', p) \<leftarrow> do_add s pos index; add_run s' (it_next s' p) (Suc index) n }"

definition insert_at :: "index_set \<Rightarrow> nat \<Rightarrow> nat \<Rightarrow> index_set option" where
  "insert_at s index count =
     do {
       realm_assert (0 < count);
       let pos = v_find s index;
       if at_end s pos then add_run s pos index count
       else if fst (deref s pos) \<le> index then
         let s1 = it_adjust s pos 0 (int count) in Some (shift_all s1 (it_next s1 pos) (int count))
       else
         let s1 = it_shift s pos (int count)
         in add_run (shift_all s1 (it_next s1 pos) (int count)) pos index count
     }"

definition shift_for_insert_at :: "index_set \<Rightarrow> nat \<Rightarrow> nat \<Rightarrow> index_set option" where
  "shift_for_insert_at s index count =
     do {
       realm_assert (0 < count);
       let it = v_find s index;
       if at_end s it then Some s
       else
         let s1 = shift_all s it (int count) in
         if fst (deref s1 it) < index + count then
           let old_second = snd (deref s1 it);
               s2 = it_set s1 it (fst (deref s1 it) - count) index
           in map_option fst (v_insert s2 (it_next s2 it) (index + count, old_second))
         else Some s1
     }"

section \<open>Erasing positions\<close>

definition do_erase :: "index_set \<Rightarrow> iter \<Rightarrow> nat \<Rightarrow> index_set" where
  "do_erase s it index =
     (let r = deref s it;
          (s1, it1) =
            (if fst r \<le> index then
               if fst r + 1 = snd r then v_erase s it
               else let s1 = it_adjust s it 0 (- 1) in (s1, it_next s1 it)
             else if it \<noteq> v_begin s \<and> snd (deref s (it_prev s it)) + 1 = fst r then
               v_erase (it_adjust s (it_prev s it) 0 (int (snd r - fst r))) it
             else (s, it))
      in shift_all s1 it1 (- 1))"

definition erase_at :: "index_set \<Rightarrow> nat \<Rightarrow> index_set" where
  "erase_at s index =
     (let it = v_find s index in if at_end s it then s else do_erase s it index)"

function unshift_chunks :: "index_set \<Rightarrow> nat \<Rightarrow> iter \<Rightarrow> nat \<Rightarrow> iter \<times> nat" where
  "unshift_chunks s index it shifted =
     (if \<not> at_end s it \<and> chunk_end (s ! fst it) \<le> index
      then unshift_chunks s index (next_chunk it) (shifted - chunk_count (s ! fst it))
      else (it, shifted))"
  by pat_completeness auto
termination
  by (relation "measure (\<lambda>(s, i, it, sh). length s - fst it)") (auto simp: at_end_def next_chunk_def)

function unshift_ranges :: "index_set \<Rightarrow> nat \<Rightarrow> iter \<Rightarrow> nat \<Rightarrow> iter \<times> nat" where
  "unshift_ranges s index it shifted =
     (if \<not> at_end s it \<and> snd (deref s it) \<le> index
      then unshift_ranges s index (it_next s it) (shifted - (snd (deref s it) - fst (deref s it)))
      else (it, shifted))"
  by pat_completeness auto
termination
  by (relation "measures [\<lambda>(s, i, it, sh). length s - fst it,
                          \<lambda>(s, i, it, sh). length (chunk_data (s ! fst it)) - snd it]")
    (auto simp: at_end_def it_next_def next_chunk_def)

declare unshift_chunks.simps [simp del] unshift_ranges.simps [simp del]

definition erase_or_unshift :: "index_set \<Rightarrow> nat \<Rightarrow> index_set \<times> nat" where
  "erase_or_unshift s index =
     (let (it, shifted) = unshift_chunks s index (v_begin s) index;
          (it, shifted) = unshift_ranges s index it shifted
      in if at_end s it then (s, shifted)
         else (do_erase s it index, if fst (deref s it) \<le> index then npos else shifted))"

section \<open>Removing without shifting\<close>

text \<open>
  The loop of \<open>do_remove\<close> has no bound that holds of arbitrary data, so it is a partial
  function; \<open>do_remove_props\<close> shows that it ends on well-formed sets.
\<close>

partial_function (option) do_remove_loop ::
    "index_set \<Rightarrow> iter \<Rightarrow> nat \<Rightarrow> nat \<Rightarrow> (index_set \<times> iter) option" where
  "do_remove_loop s it begin end_i =
     (if at_end s it \<or> end_i \<le> fst (deref s it) then Some (s, it)
      else
        let r = deref s it; b = max (fst r) begin in
        Option.bind
          (if fst r < b \<and> end_i < snd r then
             let s1 = it_set s it (fst r) b in
             map_option (\<lambda>(s2, it2). (s2, it_prev s2 it2)) (v_insert s1 (it_next s1 it) (end_i, snd r))
           else if b = fst r \<and> snd r \<le> end_i then Some (v_erase s it)
           else if b = fst r then Some (it_set s it end_i (snd r), it)
           else Some (it_set s it (fst r) b, it))
          (\<lambda>(s', it'). do_remove_loop s' (v_find_from s' b it') b end_i))"

definition do_remove :: "index_set \<Rightarrow> iter \<Rightarrow> nat \<Rightarrow> nat \<Rightarrow> (index_set \<times> iter) option" where
  "do_remove s it begin end_i = do_remove_loop s (v_find_from s begin it) begin end_i"

definition remove :: "index_set \<Rightarrow> nat \<Rightarrow> nat \<Rightarrow> index_set option" where
  "remove s index count = map_option fst (do_remove s (v_find s index) index (index + count))"

fun remove_ranges :: "index_set \<Rightarrow> iter \<Rightarrow> index_range list \<Rightarrow> index_set option" where
  "remove_ranges s it [] = Some s"
| "remove_ranges s it (r # rs) =
     do {
       (s', it') \<leftarrow> do_remove s it (fst r) (snd r);
       if at_end s' it' then Some s' else remove_ranges s' it' rs
     }"

definition remove_set :: "index_set \<Rightarrow> index_set \<Rightarrow> index_set option" where
  "remove_set s values = remove_ranges s (v_begin s) (ranges values)"

end
