(* ===== verification/IndexSetCorrect.thy ===== *)
theory IndexSetCorrect
  imports IndexSet
begin

text \<open>
  Correctness of \<open>IndexSet\<close>: each operation keeps the set well formed and acts on the set of
  indexes as the header promises. A proof looks at the flat list of ranges, cut at the
  position of the iterator: \<open>cut_at s it xs ys\<close> says the ranges before the iterator are \<open>xs\<close>
  and those from it on are \<open>ys\<close>.
\<close>

section \<open>Cutting the ranges at an iterator\<close>

definition cut_at :: "index_set \<Rightarrow> iter \<Rightarrow> index_range list \<Rightarrow> index_range list \<Rightarrow> bool" where
  "cut_at s it xs ys \<longleftrightarrow>
     meta_ok s \<and> valid_or_end s it \<and> ranges s = xs @ ys \<and> rpos s it = length xs"

definition iset_of :: "index_set \<Rightarrow> nat set" where
  "iset_of s = iset (ranges s)"

lemma finite_iset_of [simp]: "finite (iset_of s)"
  by (simp add: iset_of_def)

lemma cutD:
  assumes "cut_at s it xs ys"
  shows "meta_ok s" "valid_or_end s it" "ranges s = xs @ ys" "rpos s it = length xs"
  using assms by (auto simp: cut_at_def)

lemma cut_at_end: "cut_at s it xs ys \<Longrightarrow> at_end s it \<longleftrightarrow> ys = []"
  using at_end_iff(2)[of s it] by (auto simp: cut_at_def)

lemma cut_valid: "cut_at s it xs (r # ys) \<Longrightarrow> valid s it"
  using cut_at_end[of s it xs "r # ys"] at_end_iff(3)[of s it] by (auto simp: cut_at_def)

lemma cut_deref: "cut_at s it xs (r # ys) \<Longrightarrow> deref s it = r"
  using cut_valid deref_ranges[of s it] by (fastforce simp: cut_at_def)

lemma cut_begin: "meta_ok s \<Longrightarrow> cut_at s (v_begin s) [] (ranges s)"
  by (simp add: cut_at_def v_begin_props)

lemma cut_eq_begin: "cut_at s it xs ys \<Longrightarrow> it = v_begin s \<longleftrightarrow> xs = []"
  using rpos_inj[of s it "v_begin s"] v_begin_props[of s] by (auto simp: cut_at_def)

lemma cut_next: "cut_at s it xs (r # ys) \<Longrightarrow> cut_at s (it_next s it) (xs @ [r]) ys"
  using cut_valid[of s it xs r ys] it_next_props[of s it] by (auto simp: cut_at_def)

lemma cut_prev: "cut_at s it (xs @ [r]) ys \<Longrightarrow> cut_at s (it_prev s it) xs (r # ys)"
  using it_prev_props[of s it] by (auto simp: cut_at_def valid_imp_or_end)

lemma cut_prev': "cut_at s it xs ys \<Longrightarrow> xs \<noteq> [] \<Longrightarrow> cut_at s (it_prev s it) (butlast xs) (last xs # ys)"
  using cut_prev[of s it "butlast xs" "last xs" ys] by simp

lemma cut_exists: "meta_ok s \<Longrightarrow> valid_or_end s it \<Longrightarrow>
    cut_at s it (take (rpos s it) (ranges s)) (drop (rpos s it) (ranges s))"
  using rpos_le[of s it] by (simp add: cut_at_def)

lemma cut_unique: "cut_at s it xs ys \<Longrightarrow> cut_at s it' xs ys \<Longrightarrow> it = it'"
  by (rule rpos_inj[of s]) (auto simp: cut_at_def)

lemma cut_layout:
  "cut_at s it xs ys \<Longrightarrow> layout s' = layout s \<Longrightarrow> meta_ok s' \<Longrightarrow> ranges s' = xs' @ ys' \<Longrightarrow>
     length xs' = length xs \<Longrightarrow> cut_at s' it xs' ys'"
  using valid_layout[of s' s] by (simp add: cut_at_def)

lemma cut_set:
  assumes "cut_at s it xs (r # ys)" "fst r \<le> snd r" "f \<le> b"
  shows "cut_at (it_set s it f b) it xs ((f, b) # ys)"
  using assms it_set_props[of s it f b] cut_valid[OF assms(1)] cut_deref[OF assms(1)] cutD[OF assms(1)]
  by (intro cut_layout[OF assms(1)]) simp_all

lemma cut_adjust:
  assumes "cut_at s it xs (r # ys)" "fst r \<le> snd r" "0 \<le> int (fst r) + a" "0 \<le> int (snd r) + b"
    "plus_diff (fst r) a \<le> plus_diff (snd r) b"
  shows "cut_at (it_adjust s it a b) it xs ((plus_diff (fst r) a, plus_diff (snd r) b) # ys)"
  using cut_set[OF assms(1,2,5)] it_adjust_eq_set[of s it a b] assms cutD[OF assms(1)]
    cut_valid[OF assms(1)] cut_deref[OF assms(1)] by simp

lemma cut_shift:
  assumes "cut_at s it xs (r # ys)" "fst r \<le> snd r" "0 \<le> int (fst r) + d"
  shows "cut_at (it_shift s it d) it xs ((plus_diff (fst r) d, plus_diff (snd r) d) # ys)"
  using cut_set[OF assms(1,2), of "plus_diff (fst r) d" "plus_diff (snd r) d"]
    it_shift_eq_set[of s it d] assms cutD[OF assms(1)] cut_valid[OF assms(1)] cut_deref[OF assms(1)]
  by (simp add: plus_diff_def)

lemma cut_erase:
  assumes "cut_at s it xs (r # ys)"
  shows "case v_erase s it of (s', it') \<Rightarrow> cut_at s' it' xs ys"
proof -
  obtain s' it' where Pair: "v_erase s it = (s', it')" by (cases "v_erase s it")
  show ?thesis
    using v_erase_props[OF cutD(1)[OF assms] cut_valid[OF assms] Pair] cutD[OF assms]
    by (simp add: Pair cut_at_def)
qed

lemma cut_insert:
  assumes "cut_at s it xs ys" "ranges_ok (xs @ v # ys)"
  shows "returns (v_insert s it v) (\<lambda>(s', it'). cut_at s' it' xs (v # ys))"
  using v_insert_props[of s it v] assms
  by (auto simp: cut_at_def valid_imp_or_end elim!: returns_mono)

lemma cut_other:
  \<comment> \<open>a change at one iterator, seen from another iterator of the same vector\<close>
  assumes "cut_at s it xs ys" "cut_at s' it' xs' ys'" "layout s' = layout s"
    and "xs' @ ys' = zs @ ws" "length zs = length xs"
  shows "cut_at s' it zs ws"
  using assms cut_layout[OF assms(1,3)] by (auto simp: cut_at_def)

lemma shift_all_cut:
  assumes "cut_at s it xs ys" "\<And>r. r \<in> set ys \<Longrightarrow> fst r \<le> snd r \<and> 0 \<le> int (fst r) + d"
  shows "cut_at (shift_all s it d) it xs (map (\<lambda>r. (plus_diff (fst r) d, plus_diff (snd r) d)) ys) \<and>
    layout (shift_all s it d) = layout s"
  using assms
proof (induction ys arbitrary: s it xs)
  case Nil
  then show ?case by (simp add: shift_all.simps[of s] cut_at_end)
next
  case (Cons r ys)
  let ?s = "it_shift s it d" and ?r = "(plus_diff (fst r) d, plus_diff (snd r) d)"
  have c: "cut_at ?s it xs (?r # ys)" using Cons.prems by (intro cut_shift) auto
  have IH: "cut_at (shift_all ?s (it_next ?s it) d) (it_next ?s it) (xs @ [?r])
      (map (\<lambda>r. (plus_diff (fst r) d, plus_diff (snd r) d)) ys) \<and>
      layout (shift_all ?s (it_next ?s it) d) = layout ?s"
    by (rule Cons.IH[OF cut_next[OF c]]) (use Cons.prems(2) in auto)
  have eq: "shift_all s it d = shift_all ?s (it_next ?s it) d"
    using cut_at_end[OF Cons.prems(1)] by (simp add: shift_all.simps[of s it] Let_def)
  show ?case
    unfolding eq using IH cut_layout[OF c, of "shift_all ?s (it_next ?s it) d" xs] by (auto simp: cut_at_def)
qed

lemma wf_cut: "cut_at s it xs ys \<Longrightarrow> wf s \<longleftrightarrow> ranges_ok (xs @ ys)"
  by (auto simp: cut_at_def wf_def)

lemma iset_of_cut: "cut_at s it xs ys \<Longrightarrow> iset_of s = iset xs \<union> iset ys"
  by (simp add: cut_at_def iset_of_def)

lemma cut_find:
  assumes "wf s"
  shows "cut_at s (v_find s index) (take (find_pos index (ranges s)) (ranges s))
    (drop (find_pos index (ranges s)) (ranges s))"
  using cut_exists[of s "v_find s index"] v_find_props[OF assms, of index] assms by (simp add: wf_def)

text \<open>\<open>found index xs ys\<close>: the cut is where \<open>find(index)\<close> points.\<close>

definition found :: "nat \<Rightarrow> index_range list \<Rightarrow> index_range list \<Rightarrow> bool" where
  "found index xs ys \<longleftrightarrow> (\<forall>r\<in>set xs. snd r \<le> index) \<and> (ys \<noteq> [] \<longrightarrow> index < snd (hd ys))"

lemma found_find: "found index (take (find_pos index rs) rs) (drop (find_pos index rs) rs)"
  using find_pos_at[of index rs] find_pos_before_set[of _ index rs]
  by (auto simp: found_def hd_drop_conv_nth)

lemma find_cut:
  assumes "wf s"
  obtains xs ys where "cut_at s (v_find s index) xs ys" "found index xs ys" "ranges_ok (xs @ ys)"
  using cut_find[OF assms, of index] found_find[of index "ranges s"] assms that by (auto simp: wf_def)

lemma find_from_cut:
  assumes "cut_at s it xs ys" "ranges_ok (xs @ ys)" "\<forall>r\<in>set xs. snd r \<le> index"
  obtains xs' ys' where "cut_at s (v_find_from s index it) xs' ys'" "found index xs' ys'" "ranges_ok (xs' @ ys')"
proof -
  have before: "snd (ranges s ! i) \<le> index" if "i < rpos s it" for i
    using that assms(3) cutD[OF assms(1)] by (simp add: nth_append)
  note p = v_find_from_props[of s it index, OF _ _ _ before]
  have "cut_at s (v_find_from s index it) (take (find_pos index (ranges s)) (ranges s))
    (drop (find_pos index (ranges s)) (ranges s))"
    using cut_exists[of s "v_find_from s index it"] p cutD[OF assms(1)] assms(2) by auto
  then show ?thesis
    by (rule that) (use found_find assms(2) cutD(3)[OF assms(1)] in \<open>auto simp del: take_append drop_append\<close>)
qed

lemma ranges_ok_fst_le: "ranges_ok rs \<Longrightarrow> r \<in> set rs \<Longrightarrow> fst r \<le> snd r"
  by (simp add: ranges_ok_def less_imp_le)

lemma found_mem:
  assumes "found index xs ys" "ranges_ok (xs @ ys)"
  shows "index \<in> iset xs \<union> iset ys \<longleftrightarrow> ys \<noteq> [] \<and> fst (hd ys) \<le> index"
proof (cases ys)
  case Nil
  then show ?thesis using assms by (fastforce simp: found_def iset_def)
next
  case (Cons r ys')
  have "index \<notin> iset xs" using assms by (fastforce simp: found_def iset_def)
  moreover have "index \<notin> iset ys'"
    using assms Cons by (force simp: found_def iset_def ranges_ok_append ranges_ok_Cons)
  ultimately show ?thesis using assms Cons by (auto simp: found_def)
qed

section \<open>Adding one index\<close>

definition added :: "nat \<Rightarrow> index_set \<Rightarrow> index_range list \<Rightarrow> index_set \<times> iter \<Rightarrow> bool" where
  "added index s ys = (\<lambda>(s', it'). \<exists>xs' r' ys'. cut_at s' it' xs' (r' # ys') \<and>
     ranges_ok (xs' @ r' # ys') \<and> iset_of s' = insert index (iset_of s) \<and>
     fst r' \<le> index \<and> index < snd r' \<and>
     (ys = [] \<or> index + 1 < fst (hd ys) \<longrightarrow> snd r' = index + 1 \<and> ys' = ys))"

lemma addedI:
  assumes "cut_at s' it' xs' (r' # ys')" "ranges_ok (xs' @ r' # ys')"
    "iset xs' \<union> iset (r' # ys') = insert index (iset_of s)" "fst r' \<le> index" "index < snd r'"
    "ys = [] \<or> index + 1 < fst (hd ys) \<Longrightarrow> snd r' = index + 1 \<and> ys' = ys"
  shows "added index s ys (s', it')"
  using assms iset_of_cut[OF assms(1)] unfolding added_def by blast

lemma do_add_before:
  \<comment> \<open>the cases that do not touch the range before the iterator\<close>
  assumes c: "cut_at s it xs ys" and ok: "ranges_ok (xs @ ys)" and f: "found index xs ys"
    and nadj: "xs \<noteq> [] \<Longrightarrow> snd (last xs) < index"
  shows "returns (do_add s it index) (added index s ys)"
proof -
  have prev: "it \<noteq> v_begin s \<Longrightarrow> xs \<noteq> [] \<and> deref s (it_prev s it) = last xs"
    using cut_eq_begin[OF c] cut_deref[OF cut_prev'[OF c]] by auto
  have ins: "returns (v_insert s it (index, index + 1)) (added index s ys)"
    if "ys \<noteq> [] \<Longrightarrow> index + 1 < fst (hd ys)"
  proof -
    have ok': "ranges_ok (xs @ (index, index + 1) # ys)"
    proof -
      have "ranges_ok ((index, index + 1) # ys)"
        using ok that by (cases ys) (auto simp: ranges_ok_Cons ranges_ok_append)
      then show ?thesis using ok nadj by (simp add: ranges_ok_append_hd) (simp add: ranges_ok_append)
    qed
    show ?thesis
      by (rule returns_mono[OF cut_insert[OF c ok']]) (auto intro!: addedI ok'[simplified] simp: iset_of_cut[OF c])
  qed
  show ?thesis
  proof (cases ys)
    case Nil
    then have "at_end s it" using cut_at_end[OF c] by simp
    then show ?thesis using prev nadj ins Nil by (auto simp: do_add_def Let_def)
  next
    case (Cons r ys')
    have v: "\<not> at_end s it" "deref s it = r" using c Cons cut_at_end[OF c] cut_deref[of s it xs r ys'] by auto
    have r: "index < snd r" "fst r < snd r" using f ok Cons by (auto simp: found_def ranges_ok_append ranges_ok_Cons)
    have eq: "do_add s it index =
        (if fst r \<le> index then Some (s, it)
         else if fst r = index + 1 then Some (it_adjust s it (- 1) 0, it)
         else v_insert s it (index, index + 1))"
      using prev nadj v r(1) by (auto simp: do_add_def Let_def realm_assert_def)
    have xs_gap: "\<And>x. x \<in> set xs \<Longrightarrow> snd x < index"
      using ranges_ok_last_less[of xs index, OF _ nadj] ok by (simp add: ranges_ok_append)
    consider "fst r \<le> index" | "fst r = index + 1" | "index + 1 < fst r" by linarith
    then show ?thesis
    proof cases
      case 1
      have "insert index (iset_of s) = iset_of s" using 1 r by (auto simp: iset_of_cut[OF c] Cons)
      then show ?thesis using 1 r c ok Cons by (auto simp: eq iset_of_cut[OF c] intro!: addedI)
    next
      case 2
      have c': "cut_at (it_adjust s it (- 1) 0) it xs ((index, snd r) # ys')"
        using cut_adjust[of s it xs r ys' "- 1" 0] c Cons 2 r by simp
      have "ranges_ok (xs @ (index, snd r) # ys')"
        using ok Cons 2 r xs_gap by (auto simp: ranges_ok_append ranges_ok_Cons)
      then show ?thesis using 2 r Cons
        by (auto simp: eq iset_of_cut[OF c] intro!: addedI[OF c'])
    next
      case 3
      then show ?thesis using ins Cons by (simp add: eq)
    qed
  qed
qed

lemma do_add_cut:
  assumes c: "cut_at s it xs ys" and ok: "ranges_ok (xs @ ys)" and f: "found index xs ys"
  shows "returns (do_add s it index) (added index s ys)"
proof (cases "xs \<noteq> [] \<and> snd (last xs) = index")
  case False
  have "xs \<noteq> [] \<Longrightarrow> snd (last xs) \<le> index" using f by (simp add: found_def)
  then show ?thesis using False by (intro do_add_before[OF c ok f]) auto
next
  case True
  then obtain zs q where xs: "xs = zs @ [q]" and q: "snd q = index" by (metis append_butlast_last_id last_snoc)
  let ?p = "it_prev s it"
  have cp: "cut_at s ?p zs (q # ys)" using c xs by (simp add: cut_prev)
  have m: "it \<noteq> v_begin s" "deref s ?p = q" using cut_eq_begin[OF c] xs cut_deref[OF cp] by auto
  have fq: "fst q < snd q" using ranges_ok_nonempty[OF ok, of q] xs by simp
  define s1 where "s1 = it_adjust s ?p 0 1"
  have c1: "cut_at s1 ?p zs ((fst q, index + 1) # ys)"
    using cut_adjust[OF cp, of 0 1] fq q by (simp add: s1_def plus_diff_def nat_add_distrib)
  show ?thesis
  proof (cases ys)
    case Nil
    have "do_add s it index = Some (s1, ?p)"
      using m q cut_at_end[OF c] Nil by (simp add: do_add_def Let_def realm_assert_def s1_def)
    moreover have "added index s ys (s1, ?p)"
    proof (rule addedI[OF c1])
      show "ranges_ok (zs @ (fst q, index + 1) # ys)"
        using ok xs q fq Nil by (auto simp: ranges_ok_append)
    qed (use fq q Nil xs in \<open>auto simp: iset_of_cut[OF c]\<close>)
    ultimately show ?thesis by simp
  next
    case (Cons r ys')
    have v: "\<not> at_end s it" "deref s it = r" using c Cons cut_at_end[OF c] cut_deref[of s it xs r ys'] by auto
    have r: "index < fst r" "fst r < snd r" using ok q xs Cons by (auto simp: ranges_ok_append ranges_ok_Cons)
    have ci: "cut_at s1 it (zs @ [(fst q, index + 1)]) (r # ys')"
      using cut_other[OF c c1] xs Cons by (simp add: s1_def)
    have d1: "deref s1 ?p = (fst q, index + 1)" "deref s1 it = r" using cut_deref[OF c1] cut_deref[OF ci] by auto
    have eq: "do_add s it index =
        (if index + 1 = fst r then
           let s2 = it_adjust s1 ?p 0 (int (snd r - fst r)); (s3, it3) = v_erase s2 it in Some (s3, it_prev s3 it3)
         else Some (s1, ?p))"
      using m q v r d1 by (simp add: do_add_def Let_def realm_assert_def s1_def)
    show ?thesis
    proof (cases "index + 1 = fst r")
      case True
      define s2 where "s2 = it_adjust s1 ?p 0 (int (snd r - fst r))"
      have "plus_diff (index + 1) (int (snd r - fst r)) = snd r" using r True by (simp add: plus_diff_def)
      then have c2: "cut_at s2 ?p zs ((fst q, snd r) # ys)"
        using cut_adjust[OF c1, of 0 "int (snd r - fst r)"] fq q r True by (simp add: s2_def del: of_nat_diff)
      have ci2: "cut_at s2 it (zs @ [(fst q, snd r)]) (r # ys')"
        using cut_other[OF ci c2] Cons by (simp add: s2_def)
      obtain s3 it3 where e: "v_erase s2 it = (s3, it3)" by (cases "v_erase s2 it")
      have c3: "cut_at s3 (it_prev s3 it3) zs ((fst q, snd r) # ys')"
        using cut_erase[OF ci2] e by (simp add: cut_prev)
      have "added index s ys (s3, it_prev s3 it3)"
      proof (rule addedI[OF c3])
        show "ranges_ok (zs @ (fst q, snd r) # ys')"
          using ok xs q fq r Cons by (auto simp: ranges_ok_append ranges_ok_Cons)
      qed (use fq q r xs True Cons in \<open>auto simp: iset_of_cut[OF c]\<close>)
      then show ?thesis using True by (simp add: eq s2_def[symmetric] e)
    next
      case False
      have "added index s ys (s1, ?p)"
      proof (rule addedI[OF c1])
        show "ranges_ok (zs @ (fst q, index + 1) # ys)"
          using ok xs q fq r Cons False by (auto simp: ranges_ok_append ranges_ok_Cons)
      qed (use fq q r xs Cons in \<open>auto simp: iset_of_cut[OF c]\<close>)
      then show ?thesis using False by (simp add: eq)
    qed
  qed
qed

lemma added_props:
  assumes "added index s ys (s', it')"
  shows "wf s'" "iset_of s' = insert index (iset_of s)" "meta_ok s'" "valid s' it'"
proof -
  obtain xs r ys' where "cut_at s' it' xs (r # ys')" "ranges_ok (xs @ r # ys')"
      "iset_of s' = insert index (iset_of s)"
    using assms unfolding added_def by auto
  then show "wf s'" "iset_of s' = insert index (iset_of s)" "meta_ok s'" "valid s' it'"
    using wf_cut cut_valid cutD(1) by simp_all
qed

lemma add_props:
  assumes "wf s"
  shows "returns (add s index) (\<lambda>s'. wf s' \<and> iset_of s' = insert index (iset_of s))"
proof -
  obtain xs ys where c: "cut_at s (v_find s index) xs ys" "found index xs ys" "ranges_ok (xs @ ys)"
    by (rule find_cut[OF assms])
  show ?thesis
    unfolding add_def returns_map_option
    by (rule returns_mono[OF do_add_cut[OF c(1,3,2)]]) (auto dest: added_props)
qed

lemma add_each_props:
  assumes "cut_at s it xs ys" "ranges_ok (xs @ ys)" "sorted is" "\<forall>r\<in>set xs. \<forall>i\<in>set is. snd r \<le> i"
  shows "returns (add_each s it is) (\<lambda>s'. wf s' \<and> iset_of s' = set is \<union> iset_of s)"
  using assms
proof (induction "is" arbitrary: s it xs ys)
  case Nil
  then show ?case using wf_cut by auto
next
  case (Cons i "is")
  obtain xs' ys' where c: "cut_at s (v_find_from s i it) xs' ys'" "found i xs' ys'" "ranges_ok (xs' @ ys')"
    by (rule find_from_cut[OF Cons.prems(1,2), of i]) (use Cons.prems(4) in auto)
  have "returns (add_each s' it' is) (\<lambda>s'. wf s' \<and> iset_of s' = set (i # is) \<union> iset_of s)"
    if a: "added i s ys' (s', it')" for s' it'
  proof -
    obtain zs r ws where z: "cut_at s' it' zs (r # ws)" "ranges_ok (zs @ r # ws)" "fst r \<le> i"
        "iset_of s' = insert i (iset_of s)"
      using a unfolding added_def by auto
    have "snd q \<le> j" if "q \<in> set zs" "j \<in> set is" for q j
      using that z(2,3) Cons.prems(3) by (fastforce simp: ranges_ok_append)
    then show ?thesis
      by (intro returns_mono[OF Cons.IH[OF z(1,2)]]) (use Cons.prems(3) z(4) in auto)
  qed
  then show ?case by (auto intro!: returns_mono[OF do_add_cut[OF c(1,3,2)]])
qed

lemma set_as_indexes: "set (as_indexes s) = iset_of s"
  by (simp add: as_indexes_def iset_of_def set_indexes)

lemma add_set_props:
  assumes "wf s" "wf other"
  shows "returns (add_set s other) (\<lambda>s'. wf s' \<and> iset_of s' = iset_of s \<union> iset_of other)"
proof -
  have "sorted (as_indexes other)"
    using sorted_wrt_indexes[of "ranges other"] assms
    by (auto simp: as_indexes_def wf_def strict_sorted_iff)
  then show ?thesis
    unfolding add_set_def
    by (intro returns_mono[OF add_each_props[OF cut_begin]])
      (use assms in \<open>auto simp: wf_def set_as_indexes\<close>)
qed

lemma of_list_props:
  "wf s \<Longrightarrow> returns (of_list s vs) (\<lambda>s'. wf s' \<and> iset_of s' = iset_of s \<union> set vs)"
proof (induction vs arbitrary: s)
  case (Cons v vs)
  have "returns (of_list s' vs) (\<lambda>t. wf t \<and> iset_of t = iset_of s \<union> set (v # vs))"
    if "wf s' \<and> iset_of s' = insert v (iset_of s)" for s'
    by (rule returns_mono[OF Cons.IH]) (use that in auto)
  then show ?case by (auto intro: returns_mono[OF add_props[OF Cons.prems]])
qed simp

end
