(* ===== verification/IndexSetQueries.thy ===== *)
theory IndexSetQueries
  imports IndexSetCorrect
begin

text \<open>
  The queries of \<open>IndexSet\<close>: membership, the index iterator, \<open>count\<close>, \<open>shift\<close> and \<open>unshift\<close>,
  and \<open>add_shifted\<close>, which searches the way \<open>shift\<close> does but skips whole chunks.
\<close>

section \<open>Walking over whole chunks\<close>

lemma cut_next_chunk:
  assumes c: "cut_at s it xs ys" and ok: "ranges_ok (xs @ ys)" and "snd it = 0" "\<not> at_end s it"
  obtains ys' where "ys = chunk_data (s ! fst it) @ ys'"
    "cut_at s (next_chunk it) (xs @ chunk_data (s ! fst it)) ys'"
    "chunk_count (s ! fst it) = ranges_size (chunk_data (s ! fst it))"
    "\<forall>r\<in>set (chunk_data (s ! fst it)). snd r \<le> chunk_end (s ! fst it)"
    "snd (next_chunk it) = 0" "chunk_data (s ! fst it) \<noteq> []"
proof -
  obtain k where it: "it = (k, 0)" using assms(3) by (cases it) auto
  have k: "k < length s" using assms(4) it by (simp add: at_end_def)
  let ?d = "chunk_data (s ! k)"
  have m: "meta_ok s" and r: "ranges s = xs @ ys" and p: "rpos s it = length xs" using cutD[OF c] by auto
  have ck: "chunk_ok (s ! k)" "count_ok (s ! k)" using meta_ok_nth[OF m k] by auto
  have okd: "ranges_ok ?d" using ranges_ok_chunk[of s "s ! k"] r ok k by simp
  have xs: "ranges (take k s) = xs" and ys: "?d @ ranges (drop (Suc k) s) = ys"
    using r p ranges_split[OF k] it by (simp_all add: rpos_def')
  have "rpos s (Suc k, 0) = length xs + length ?d"
    using k xs by (simp add: rpos_def' take_Suc_conv_app_nth)
  then have "cut_at s (next_chunk it) (xs @ ?d) (ranges (drop (Suc k) s))"
    using valid_or_end_start[OF m, of "Suc k"] k r ys it m by (simp add: cut_at_def next_chunk_def)
  then show ?thesis
    using that[of "ranges (drop (Suc k) s)"] ys it ck chunk_snd_le_end[OF ck(1) okd]
    by (simp add: next_chunk_def count_ok_def chunk_ok_def)
qed

section \<open>Membership and iteration\<close>

lemma contains_iff: "wf s \<Longrightarrow> contains s index \<longleftrightarrow> index \<in> iset_of s"
proof -
  assume "wf s"
  then obtain xs ys where c: "cut_at s (v_find s index) xs ys" "found index xs ys" "ranges_ok (xs @ ys)"
    by (rule find_cut)
  show ?thesis
    using found_mem[OF c(2,3)] cut_at_end[OF c(1)] cut_deref[of s _ xs "hd ys" "tl ys"] c(1)
    by (cases ys) (auto simp: contains_def Let_def iset_of_cut[OF c(1)])
qed

lemma empty_iff: "wf s \<Longrightarrow> empty s \<longleftrightarrow> iset_of s = {}"
  using ranges_eq_Nil_iff[of s]
  by (cases "ranges s") (auto simp: wf_def empty_def iset_of_def ranges_ok_Cons)

text \<open>The position of an index iterator in the list of indexes.\<close>

definition index_iter_pos :: "index_set \<Rightarrow> iter \<times> nat \<Rightarrow> nat" where
  "index_iter_pos s ii = ranges_size (take (rpos s (fst ii)) (ranges s)) + snd ii"

lemma index_iter_visits:
  assumes "wf s" "valid s (fst ii)" "fst (deref s (fst ii)) + snd ii < snd (deref s (fst ii))"
  shows "index_iter_pos s ii < length (as_indexes s)"
    and "index_iter_deref s ii = as_indexes s ! index_iter_pos s ii"
    and "index_iter_pos s (index_iter_next s ii) = Suc (index_iter_pos s ii)"
proof -
  obtain it k where ii: "ii = (it, k)" by (cases ii)
  obtain xs ys where "cut_at s it xs ys" "\<not> at_end s it"
    using cut_exists[of s it] assms(1,2) at_end_iff(3)[of s it] valid_imp_or_end[of s it] ii
    by (auto simp: wf_def)
  then obtain r ys where c: "cut_at s it xs (r # ys)" using cut_at_end by (cases ys) auto
  have d: "deref s it = r" "ranges s = xs @ r # ys" "rpos s it = length xs"
    using cut_deref[OF c] cutD[OF c] by auto
  have k: "fst r + k < snd r" "k < snd r - fst r" using assms(3) ii d by auto
  have ok: "ranges_ok xs" using assms(1) d by (simp add: wf_def ranges_ok_append)
  have n: "rpos s (it_next s it) = Suc (length xs)" using cutD(4)[OF cut_next[OF c]] by simp
  have l: "length (indexes xs) = ranges_size xs" using ok by (simp add: length_indexes)
  show "index_iter_pos s ii < length (as_indexes s)"
    using k l by (simp add: index_iter_pos_def ii d as_indexes_def)
  show "index_iter_deref s ii = as_indexes s ! index_iter_pos s ii"
    using k l by (simp add: index_iter_pos_def index_iter_deref_def ii d as_indexes_def nth_append)
  show "index_iter_pos s (index_iter_next s ii) = Suc (index_iter_pos s ii)"
    using k by (auto simp: index_iter_pos_def index_iter_next_def ii d n range_size_def)
qed

section \<open>Counting\<close>

lemma card_iset_append:
  assumes "ranges_ok (xs @ ys)"
  shows "card (iset (xs @ ys) \<inter> T) = card (iset xs \<inter> T) + card (iset ys \<inter> T)"
proof -
  have "iset xs \<inter> iset ys = {}"
    using assms by (fastforce simp: iset_def ranges_ok_append)
  then have "card ((iset xs \<inter> T) \<union> (iset ys \<inter> T)) = card (iset xs \<inter> T) + card (iset ys \<inter> T)"
    by (intro card_Un_disjoint) auto
  then show ?thesis by (simp add: Int_Un_distrib2)
qed

lemma card_iset_inside:
  assumes "ranges_ok xs" "\<forall>r\<in>set xs. a \<le> fst r \<and> snd r \<le> b"
  shows "card (iset xs \<inter> {a..<b}) = ranges_size xs"
proof -
  have "iset xs \<subseteq> {a..<b}" using assms(2) by (fastforce simp: iset_def)
  then show ?thesis using card_iset[OF assms(1)] by (simp add: Int_absorb2)
qed

lemma iset_outside: "(\<forall>r\<in>set xs. snd r \<le> a \<or> b \<le> fst r) \<Longrightarrow> iset xs \<inter> {a..<b} = {}"
  by (fastforce simp: iset_def)

lemma count_rest_of_chunk_props:
  assumes "cut_at s it xs ys" "count_rest_of_chunk s b it ret = (it', ret')"
  shows "\<exists>zs ys'. ys = zs @ ys' \<and> cut_at s it' (xs @ zs) ys' \<and> ret' = ret + ranges_size zs \<and>
    (\<forall>r\<in>set zs. snd r < b) \<and> (ys' = [] \<or> b \<le> snd (hd ys') \<or> snd it' = 0)"
  using assms
proof (induction ys arbitrary: it xs ret)
  case Nil
  then show ?case using cut_at_end[OF Nil(1)] by (simp add: count_rest_of_chunk.simps[of s])
next
  case (Cons r ys)
  note d = cut_at_end[OF Cons.prems(1)] cut_deref[OF Cons.prems(1)]
  show ?case
  proof (cases "snd r < b \<and> snd it \<noteq> 0")
    case True
    then have "count_rest_of_chunk s b (it_next s it) (ret + (snd r - fst r)) = (it', ret')"
      using d Cons.prems(2) by (simp add: count_rest_of_chunk.simps[of s _ it])
    from Cons.IH[OF cut_next[OF Cons.prems(1)] this] obtain zs ys' where z:
      "ys = zs @ ys'" "cut_at s it' (xs @ r # zs) ys'" "ret' = ret + (snd r - fst r) + ranges_size zs"
      "\<forall>r\<in>set zs. snd r < b" "ys' = [] \<or> b \<le> snd (hd ys') \<or> snd it' = 0" by auto
    show ?thesis
      by (rule exI[of _ "r # zs"], rule exI[of _ ys']) (use True z in \<open>auto simp: range_size_def\<close>)
  next
    case False
    then have "it' = it" "ret' = ret" using d Cons.prems(2) by (auto simp: count_rest_of_chunk.simps[of s _ it])
    then show ?thesis using Cons.prems(1) False by (intro exI[of _ "[]"] exI[of _ "r # ys"]) auto
  qed
qed

lemma count_chunks_props:
  assumes "cut_at s it xs ys" "ranges_ok (xs @ ys)" "ys = [] \<or> snd it = 0" "count_chunks s b it ret = (it', ret')"
  shows "\<exists>zs ys'. ys = zs @ ys' \<and> cut_at s it' (xs @ zs) ys' \<and> ret' = ret + ranges_size zs \<and>
    (\<forall>r\<in>set zs. snd r \<le> b)"
  using assms
proof (induction "length ys" arbitrary: it xs ys ret rule: less_induct)
  case less
  note c = less.prems(1)
  show ?case
  proof (cases "\<not> at_end s it \<and> chunk_end (s ! fst it) \<le> b")
    case True
    let ?d = "chunk_data (s ! fst it)"
    have "snd it = 0" using less.prems(3) True cut_at_end[OF c] by auto
    then obtain ys1 where y: "ys = ?d @ ys1" "cut_at s (next_chunk it) (xs @ ?d) ys1"
      "chunk_count (s ! fst it) = ranges_size ?d" "\<forall>r\<in>set ?d. snd r \<le> chunk_end (s ! fst it)"
      "snd (next_chunk it) = 0" "?d \<noteq> []"
      using cut_next_chunk[OF c less.prems(2)] True by blast
    have e: "count_chunks s b (next_chunk it) (ret + ranges_size ?d) = (it', ret')"
      using less.prems(4) True y(3) by (simp add: count_chunks.simps[of s _ it])
    then obtain zs ys' where "ys1 = zs @ ys'" "cut_at s it' ((xs @ ?d) @ zs) ys'"
        "ret' = ret + ranges_size ?d + ranges_size zs" "\<forall>r\<in>set zs. snd r \<le> b"
      using less.hyps[OF _ y(2) _ _ e] y(1,5,6) less.prems(2) by auto
    then show ?thesis using y True by (intro exI[of _ "?d @ zs"] exI[of _ ys']) auto
  next
    case False
    then have "it' = it" "ret' = ret" using less.prems(4) by (auto simp: count_chunks.simps[of s _ it])
    then show ?thesis using c by (intro exI[of _ "[]"] exI[of _ ys]) auto
  qed
qed

lemma count_ranges_props:
  assumes "cut_at s it xs ys" "count_ranges s b it ret = (it', ret')"
  shows "\<exists>zs ys'. ys = zs @ ys' \<and> cut_at s it' (xs @ zs) ys' \<and> ret' = ret + ranges_size zs \<and>
    (\<forall>r\<in>set zs. snd r \<le> b) \<and> (ys' = [] \<or> b < snd (hd ys'))"
  using assms
proof (induction ys arbitrary: it xs ret)
  case Nil
  then show ?case using cut_at_end[OF Nil(1)] by (simp add: count_ranges.simps[of s])
next
  case (Cons r ys)
  note d = cut_at_end[OF Cons.prems(1)] cut_deref[OF Cons.prems(1)]
  show ?case
  proof (cases "snd r \<le> b")
    case True
    then have "count_ranges s b (it_next s it) (ret + (snd r - fst r)) = (it', ret')"
      using d Cons.prems(2) by (simp add: count_ranges.simps[of s _ it])
    from Cons.IH[OF cut_next[OF Cons.prems(1)] this] obtain zs ys' where z:
      "ys = zs @ ys'" "cut_at s it' (xs @ r # zs) ys'" "ret' = ret + (snd r - fst r) + ranges_size zs"
      "\<forall>r\<in>set zs. snd r \<le> b" "ys' = [] \<or> b < snd (hd ys')" by auto
    show ?thesis
      by (rule exI[of _ "r # zs"], rule exI[of _ ys']) (use True z in \<open>auto simp: range_size_def\<close>)
  next
    case False
    then have "it' = it" "ret' = ret" using d Cons.prems(2) by (auto simp: count_ranges.simps[of s _ it])
    then show ?thesis using Cons.prems(1) False by (intro exI[of _ "[]"] exI[of _ "r # ys"]) auto
  qed
qed

lemma card_prefix:
  \<comment> \<open>the sum of the sizes of the complete ranges and of the part of the next one\<close>
  assumes "ranges_ok (zs @ ys)" "\<forall>r\<in>set zs. snd r \<le> b" "ys = [] \<or> b \<le> snd (hd ys)"
  shows "card (iset (zs @ ys) \<inter> {..<b}) =
    ranges_size zs + (if ys \<noteq> [] \<and> fst (hd ys) < b then b - fst (hd ys) else 0)"
proof -
  have "card (iset zs \<inter> {..<b}) = ranges_size zs"
    using card_iset_inside[of zs 0 b] assms by (simp add: ranges_ok_append atLeast0LessThan)
  moreover have "card (iset ys \<inter> {..<b}) = (if ys \<noteq> [] \<and> fst (hd ys) < b then b - fst (hd ys) else 0)"
  proof (cases ys)
    case (Cons r rs)
    have ok: "ranges_ok (r # rs)" "b \<le> snd r" using assms Cons by (auto simp: ranges_ok_append)
    have "iset rs \<inter> {..<b} = {}" using ok iset_outside[of rs 0 b] by (force simp: ranges_ok_Cons atLeast0LessThan)
    then have "iset ys \<inter> {..<b} = {fst r..<b}" using ok Cons by auto
    then show ?thesis using Cons by auto
  qed simp
  ultimately show ?thesis by (simp only: card_iset_append[OF assms(1)])
qed

lemma count_complete_props:
  assumes c: "cut_at s it xs ys" and ok: "ranges_ok (xs @ ys)" and "ys = [] \<or> snd it = 0"
  shows "count_complete s b it ret = ret + card (iset ys \<inter> {..<b})"
proof -
  obtain it1 r1 where e1: "count_chunks s b it ret = (it1, r1)" by (cases "count_chunks s b it ret")
  obtain zs ys1 where z: "ys = zs @ ys1" "cut_at s it1 (xs @ zs) ys1" "r1 = ret + ranges_size zs"
      "\<forall>r\<in>set zs. snd r \<le> b"
    using count_chunks_props[OF assms e1] by blast
  obtain it2 r2 where e2: "count_ranges s b it1 r1 = (it2, r2)" by (cases "count_ranges s b it1 r1")
  obtain ws ys2 where w: "ys1 = ws @ ys2" "cut_at s it2 ((xs @ zs) @ ws) ys2" "r2 = r1 + ranges_size ws"
      "\<forall>r\<in>set ws. snd r \<le> b" "ys2 = [] \<or> b < snd (hd ys2)"
    using count_ranges_props[OF z(2) e2] by blast
  have ok': "ranges_ok ((zs @ ws) @ ys2)" using ok z w by (simp add: ranges_ok_append)
  have "\<forall>r\<in>set (zs @ ws). snd r \<le> b" "ys2 = [] \<or> b \<le> snd (hd ys2)" using z(4) w(4,5) by auto
  note card_prefix[OF ok' this]
  then have "card (iset ys \<inter> {..<b}) = ranges_size (zs @ ws) +
      (if ys2 \<noteq> [] \<and> fst (hd ys2) < b then b - fst (hd ys2) else 0)"
    using z(1) w(1) by simp
  moreover have "ys2 \<noteq> [] \<Longrightarrow> deref s it2 = hd ys2"
    using w(2) cut_deref[of s it2 _ "hd ys2" "tl ys2"] by simp
  moreover have "count_complete s b it ret =
      (if \<not> at_end s it2 \<and> fst (deref s it2) < b then r2 + (b - fst (deref s it2)) else r2)"
    by (simp add: count_complete_def e1 e2)
  ultimately show ?thesis
    using z(3) w(3) cut_at_end[OF w(2)] by simp
qed

text \<open>
  The counted interval must not end in the first range of a chunk that \<open>count\<close> enters from
  the middle of an earlier one: there the partial last range is left out
  (\<open>index_count_misses\<close>).
\<close>

definition count_ends_inside :: "index_set \<Rightarrow> nat \<Rightarrow> nat \<Rightarrow> bool" where
  "count_ends_inside s a b \<longleftrightarrow>
     (let it = v_find s a; jt = v_find s (b - 1) in
      snd jt \<noteq> 0 \<or> it = jt \<or> b - 1 \<notin> iset_of s \<or> (snd it = 0 \<and> a \<le> fst (deref s it)))"

lemma index_count_general:
  assumes "wf s" "a \<le> b" "count_ends_inside s a b"
  shows "index_count s a b = card (iset_of s \<inter> {a..<b})"
proof -
  let ?it = "v_find s a"
  obtain xs ys where c: "cut_at s ?it xs ys" "found a xs ys" "ranges_ok (xs @ ys)"
    by (rule find_cut[OF assms(1)])
  have "iset xs \<inter> {a..<b} = {}" using c(2) by (intro iset_outside) (auto simp: found_def)
  then have S: "iset_of s \<inter> {a..<b} = iset ys \<inter> {a..<b}" by (auto simp: iset_of_cut[OF c(1)])
  show ?thesis
  proof (cases ys)
    case Nil
    then show ?thesis using cut_at_end[OF c(1)] S by (simp add: index_count_def Let_def)
  next
    case (Cons r rs)
    have c1: "cut_at s ?it xs (r # rs)" using c(1) Cons by simp
    have d: "\<not> at_end s ?it" "deref s ?it = r" using cut_at_end[OF c1] cut_deref[OF c1] by auto
    have ok: "ranges_ok (r # rs)" "a < snd r" using c(2,3) Cons by (auto simp: ranges_ok_append found_def)
    have ok_rs: "ranges_ok rs" "fst r < snd r" "\<And>q. q \<in> set rs \<Longrightarrow> snd r < fst q"
      using ok by (auto simp: ranges_ok_Cons)
    have above: "iset rs \<inter> {a..<b} = iset rs \<inter> {..<b}" using ok_rs(3) ok(2) by (fastforce simp: iset_def)
    have r1: "card ({fst r..<snd r} \<inter> {a..<b}) = min (snd r) b - max (fst r) a" by simp
    have split: "card (iset ys \<inter> {a..<b}) = min (snd r) b - max (fst r) a + card (iset rs \<inter> {..<b})"
      using card_iset_append[of "[r]" rs "{a..<b}"] ok(1) Cons above by simp
    consider "b \<le> fst r" | "fst r < b" "b \<le> snd r" | "snd r < b" by linarith
    then show ?thesis
    proof cases
      case 1
      then have "iset ys \<inter> {a..<b} = {}"
        using ok_rs Cons by (intro iset_outside) force
      then show ?thesis using 1 d S by (simp add: index_count_def Let_def)
    next
      case 2
      have "iset rs \<inter> {..<b} = {}" using ok_rs(3) 2 iset_outside[of rs 0 b] by (force simp: atLeast0LessThan)
      then show ?thesis using 2 d S split by (simp add: index_count_def Let_def)
    next
      case 3
      show ?thesis
      proof (cases "fst r < a \<or> snd ?it \<noteq> 0")
        case False
        then have "index_count s a b = count_complete s b ?it 0"
          using 3 d ok_rs(2) by (simp add: index_count_def Let_def)
        moreover have "iset ys \<inter> {..<b} = iset ys \<inter> {a..<b}"
          using False Cons ok_rs by (fastforce simp: iset_def)
        ultimately show ?thesis using count_complete_props[OF c(1,3), of b 0] False S by fastforce
      next
        case True
        define base where "base = snd r - max (fst r) a"
        obtain it' ret' where e: "count_rest_of_chunk s b (it_next s ?it) base = (it', ret')"
          by (cases "count_rest_of_chunk s b (it_next s ?it) base")
        obtain zs ys' where z: "rs = zs @ ys'" "cut_at s it' ((xs @ [r]) @ zs) ys'"
            "ret' = base + ranges_size zs" "\<forall>q\<in>set zs. snd q < b"
            "ys' = [] \<or> b \<le> snd (hd ys') \<or> snd it' = 0"
          using count_rest_of_chunk_props[OF cut_next[OF c1] e] by blast
        define ret1 where "ret1 = (if \<not> at_end s it' \<and> fst (deref s it') < b \<and> snd it' \<noteq> 0
          then ret' + (b - fst (deref s it')) else ret')"
        have eq: "index_count s a b =
            (if at_end s it' \<or> b \<le> snd (deref s it') then ret1 else count_complete s b it' ret1)"
          using 3 d True e ok_rs(2) by (simp add: index_count_def Let_def ret1_def base_def)
        have d': "at_end s it' \<longleftrightarrow> ys' = []" "ys' \<noteq> [] \<Longrightarrow> deref s it' = hd ys'"
          using cut_at_end[OF z(2)] cut_deref[of s it' _ "hd ys'" "tl ys'"] z(2) by auto
        have okz: "ranges_ok (zs @ ys')" "ranges_ok (((xs @ [r]) @ zs) @ ys')"
          using ok_rs(1) c(3) z(1) Cons by simp_all
        have goal: "card (iset_of s \<inter> {a..<b}) = base + card (iset rs \<inter> {..<b})"
          using S split 3 by (simp add: base_def)
        show ?thesis
        proof (cases "ys' = [] \<or> b \<le> snd (hd ys')")
          case inside: True
          have card: "card (iset rs \<inter> {..<b}) =
              ranges_size zs + (if ys' \<noteq> [] \<and> fst (hd ys') < b then b - fst (hd ys') else 0)"
            using card_prefix[OF okz(1), of b] z inside by fastforce
          have "snd it' \<noteq> 0" if hit: "ys' \<noteq> []" "fst (hd ys') < b"
          proof -
            have "b - 1 < snd (hd ys')" using inside hit by auto
            moreover have "\<forall>q\<in>set ((xs @ [r]) @ zs). snd q \<le> b - 1"
              using c(2) ok 3 z(4) by (auto simp: found_def)
            ultimately have "find_pos (b - 1) (ranges s) = length ((xs @ [r]) @ zs)"
              using cutD(3)[OF z(2)] hit(1) by (simp add: find_pos_append find_pos_def) (cases ys'; simp)
            then have jt: "v_find s (b - 1) = it'"
              using v_find_props[OF assms(1), of "b - 1"] cutD[OF z(2)] by (intro rpos_inj[of s]) auto
            have "it' \<noteq> ?it" using cutD(4)[OF z(2)] cutD(4)[OF c1] by auto
            moreover have "b - 1 \<in> iset_of s"
              using hit inside iset_of_cut[OF z(2)] by (cases ys') auto
            ultimately show ?thesis using assms(3) True d(2) jt by (auto simp: count_ends_inside_def Let_def)
          qed
          then have "ret1 = base + card (iset rs \<inter> {..<b})"
            using card z(3) d' by (auto simp: ret1_def)
          then show ?thesis using eq d' inside goal by auto
        next
          case beyond: False
          then have z0: "snd it' = 0" using z(5) by simp
          have "index_count s a b = ret' + card (iset ys' \<inter> {..<b})"
            using eq d' beyond count_complete_props[OF z(2) okz(2), of b ret'] z0 by (simp add: ret1_def)
          moreover have "card (iset zs \<inter> {..<b}) = ranges_size zs"
            using card_iset_inside[of zs 0 b] okz(1) z(4)
            by (simp add: ranges_ok_append atLeast0LessThan less_imp_le)
          then have "card (iset rs \<inter> {..<b}) = ranges_size zs + card (iset ys' \<inter> {..<b})"
            using card_iset_append[OF okz(1)] z(1) by simp
          ultimately show ?thesis using goal z(3) by simp
        qed
      qed
    qed
  qed
qed

text \<open>The rest of a chunk ends in it or before the next one.\<close>

lemma count_rest_of_chunk_stays:
  assumes "count_rest_of_chunk s b it ret = (it', ret')" "fst it = k \<and> snd it \<noteq> 0 \<or> it = (Suc k, 0)"
  shows "fst it' = k \<and> snd it' \<noteq> 0 \<or> it' = (Suc k, 0)"
  using assms
proof (induction s b it ret rule: count_rest_of_chunk.induct)
  case (1 s b it ret)
  show ?case
  proof (cases "\<not> at_end s it \<and> snd (deref s it) < b \<and> snd it \<noteq> 0")
    case True
    then have "fst (it_next s it) = k \<and> snd (it_next s it) \<noteq> 0 \<or> it_next s it = (Suc k, 0)"
      using 1(3) by (auto simp: it_next_def next_chunk_def)
    then show ?thesis using 1 True by (simp add: count_rest_of_chunk.simps[of s b it])
  next
    case False
    then show ?thesis using 1(2,3) by (simp add: count_rest_of_chunk.simps[of s b it] split: if_splits)
  qed
qed

lemma append_longer:
  assumes "xs @ ys = us @ vs" "length xs < length us"
  shows "\<exists>r us'. us = xs @ r # us' \<and> ys = r # us' @ vs"
proof -
  obtain zs where "us = xs @ zs" "ys = zs @ vs" using assms by (auto simp: append_eq_append_conv2)
  then show ?thesis using assms(2) by (cases zs) auto
qed

lemma rpos_before:
  assumes "meta_ok s" "valid_or_end s it" "valid_or_end s (Suc (fst it), 0)"
  shows "rpos s it < rpos s (Suc (fst it), 0)"
proof -
  have "fst it < length s" using assms(3) by (auto simp: valid_or_end_def valid_def v_end_def)
  then have "valid s it" using assms(2) by (auto simp: valid_or_end_def v_end_def)
  then show ?thesis using rpos_next_chunk[of "fst it" s] by (simp add: valid_def rpos_def')
qed

text \<open>
  When the interval begins in the middle of a chunk and ends in the first range of the next one, the indexes of
  that range are left out.
\<close>

lemma index_count_misses:
  assumes s: "wf s" and last: "b - 1 \<in> iset_of s" "v_find s (b - 1) = (Suc (fst (v_find s a)), 0)"
    and inner: "snd (v_find s a) \<noteq> 0 \<or> fst (deref s (v_find s a)) < a"
  shows "index_count s a b = card (iset_of s \<inter> {a..<fst (deref s (v_find s (b - 1)))})"
    "fst (deref s (v_find s (b - 1))) < b" "a \<le> b - 1"
proof -
  let ?it = "v_find s a" and ?jt = "v_find s (b - 1)"
  obtain xs ys where c: "cut_at s ?it xs ys" "found a xs ys" "ranges_ok (xs @ ys)"
    by (rule find_cut[OF s])
  obtain us vs where j: "cut_at s ?jt us vs" "found (b - 1) us vs" "ranges_ok (us @ vs)"
    by (rule find_cut[OF s])
  have before: "rpos s jt < length us" if "cut_at s jt ps qs" "fst jt = fst ?it" for jt ps qs
    using rpos_before[of s jt] cutD[OF that(1)] cutD[OF j(1)] that(2) last(2) by simp
  have "b - 1 \<notin> iset us" using j(2) by (auto simp: found_def iset_def)
  then have in_vs: "b - 1 \<in> iset vs" using last(1) by (auto simp: iset_of_cut[OF j(1)])
  then obtain q ws where vs: "vs = q # ws" by (cases vs) auto
  have q: "deref s ?jt = q" using j(1) cut_deref[of s ?jt us q ws] vs by simp
  have above: "\<forall>p\<in>set ws. snd q < fst p" "b - 1 < snd q"
    using j(2,3) vs by (auto simp: ranges_ok_append ranges_ok_Cons found_def)
  then have q_in: "fst q \<le> b - 1" using in_vs vs by (fastforce simp: iset_def)
  have us: "\<forall>p\<in>set us. snd p \<le> b - 1 \<and> snd p < fst q"
    using j(2,3) vs by (auto simp: ranges_ok_append found_def)
  have same: "xs @ ys = us @ vs" using cutD(3)[OF c(1)] cutD(3)[OF j(1)] by simp
  have "length xs < length us" using before[OF c(1) refl] cutD(4)[OF c(1)] by simp
  then obtain r us' where u: "us = xs @ r # us'" and ys: "ys = r # us' @ vs"
    using append_longer[OF same] by blast
  have c1: "cut_at s ?it xs (r # us' @ vs)" using c(1) ys by simp
  have d: "\<not> at_end s ?it" "deref s ?it = r" using cut_at_end[OF c1] cut_deref[OF c1] by auto
  have r: "fst r < snd r" "a < snd r" "snd r \<le> b - 1" "snd r < fst q"
    using c(2,3) ys us u by (auto simp: ranges_ok_append ranges_ok_Cons found_def)
  then have b: "snd r < b" "a \<le> b - 1" by auto
  define base where "base = snd r - max (fst r) a"
  obtain it' ret' where e: "count_rest_of_chunk s b (it_next s ?it) base = (it', ret')"
    by (cases "count_rest_of_chunk s b (it_next s ?it) base")
  obtain zs ys' where z: "us' @ vs = zs @ ys'" "cut_at s it' ((xs @ [r]) @ zs) ys'"
      "ret' = base + ranges_size zs" "\<forall>q\<in>set zs. snd q < b"
      "ys' = [] \<or> b \<le> snd (hd ys') \<or> snd it' = 0"
    using count_rest_of_chunk_props[OF cut_next[OF c1] e] by blast
  have "it' = ?jt"
  proof (rule ccontr)
    assume no: "it' \<noteq> ?jt"
    have "fst (it_next s ?it) = fst ?it \<and> snd (it_next s ?it) \<noteq> 0 \<or> it_next s ?it = (Suc (fst ?it), 0)"
      by (simp add: it_next_def next_chunk_def)
    from count_rest_of_chunk_stays[OF e this] no last(2) have it': "fst it' = fst ?it" "snd it' \<noteq> 0" by auto
    have "length ((xs @ [r]) @ zs) < length us"
      using before[OF z(2) it'(1)] cutD(4)[OF z(2)] by simp
    then obtain p ps where "us' = zs @ p # ps" "ys' = p # ps @ vs"
      using append_longer[of zs ys' us' vs] z(1) u by auto
    then have "b \<le> snd p" "p \<in> set us" using z(5) it'(2) u by auto
    then show False using us r by auto
  qed
  then have "length ((xs @ [r]) @ zs) = length us" using cutD(4)[OF z(2)] cutD(4)[OF j(1)] by simp
  then have zs: "zs = us'" "ys' = q # ws" using z(1) u vs by auto
  have hd: "\<not> at_end s it'" "deref s it' = q" "snd it' = 0"
    using cut_at_end[OF z(2)] \<open>it' = ?jt\<close> q zs last(2) by auto
  have "\<not> b \<le> fst r" "\<not> b \<le> snd r" "b \<le> snd q" "fst r < a \<or> snd ?it \<noteq> 0"
    using r(1) b(1) above(2) inner d(2) by auto
  then have "index_count s a b = ret'"
    using d hd e[unfolded base_def] by (simp add: index_count_def Let_def)
  moreover have "card (iset_of s \<inter> {a..<fst q}) = ret'"
  proof -
    have "ranges_ok us" using j(3) by (simp add: ranges_ok_append)
    then have ok: "ranges_ok (us @ vs)" "ranges_ok (xs @ r # us')" using j(3) u by simp_all
    then have rest: "ranges_ok (r # us')" by (simp add: ranges_ok_append)
    have "iset xs \<inter> {a..<fst q} = {}" "iset vs \<inter> {a..<fst q} = {}"
      using c(2) above(1) vs j(3) by (intro iset_outside; fastforce simp: found_def ranges_ok_append ranges_ok_Cons)+
    then have "card (iset_of s \<inter> {a..<fst q}) = card (iset [r] \<inter> {a..<fst q}) + card (iset us' \<inter> {a..<fst q})"
      using card_iset_append[OF ok(1), of "{a..<fst q}"] card_iset_append[OF ok(2), of "{a..<fst q}"]
        card_iset_append[of "[r]" us' "{a..<fst q}"] rest u
      by (simp add: iset_of_def cutD(3)[OF j(1)] del: iset_append)
    moreover have "min (snd r) (fst q) = snd r" using r(4) by simp
    then have "card (iset [r] \<inter> {a..<fst q}) = snd r - max (fst r) a" by simp
    moreover have "ranges_ok us'" "\<forall>p\<in>set us'. snd r < fst p" using rest by (auto simp: ranges_ok_Cons)
    then have "card (iset us' \<inter> {a..<fst q}) = ranges_size us'"
      using us u r(2) by (intro card_iset_inside) (auto intro: less_imp_le order_less_trans)
    ultimately show ?thesis using z(3) zs by (simp add: base_def)
  qed
  ultimately show "index_count s a b = card (iset_of s \<inter> {a..<fst (deref s ?jt)})" using q by simp
  show "fst (deref s ?jt) < b" "a \<le> b - 1" using q q_in b by auto
qed

lemma v_find_0: "wf s \<Longrightarrow> snd (v_find s 0) = 0"
proof (cases s)
  case (Cons c s')
  assume "wf s"
  then have c: "chunk_ok c" "ranges_ok (chunk_data c)" using Cons by (auto simp: wf_def meta_ok_Cons ranges_ok_append)
  then have *: "fst (hd (chunk_data c)) < snd (hd (chunk_data c))" "0 < snd (last (chunk_data c))"
    using ranges_ok_nonempty[OF c(2) hd_in_set] ranges_ok_nonempty[OF c(2) last_in_set] c(1)
    by (auto simp: chunk_ok_def)
  then have "v_find s 0 = (0, if 0 < chunk_begin c then 0 else lower_bound_from 0 (\<lambda>r. snd r \<le> 0) (chunk_data c))"
    using Cons c(1) by (simp add: v_find_def v_find_from_def v_begin_def find_if_from_def chunk_ok_def Let_def)
  then show ?thesis using * c by (cases "chunk_data c") (auto simp: lower_bound_from_def chunk_ok_def)
qed (simp add: v_find_def v_find_from_def v_end_def find_if_from_def)

lemma index_count_from_0:
  assumes "wf s"
  shows "index_count s 0 b = card (iset_of s \<inter> {..<b})"
  using index_count_general[OF assms, of 0 b] v_find_0[OF assms]
  by (simp add: count_ends_inside_def Let_def atLeast0LessThan)

section \<open>Shifting\<close>

lemma unshift_eq: "wf s \<Longrightarrow> unshift s index = unshift_of (iset_of s) index"
  by (simp add: unshift_def index_count_from_0 unshift_of_eq_diff)

text \<open>
  \<open>adding i xs ys n\<close>: a search that started at \<open>i\<close> and adds the size of every range it passes
  has passed \<open>xs\<close> and stands at \<open>n\<close>.
\<close>

definition adding :: "nat \<Rightarrow> index_range list \<Rightarrow> nat \<Rightarrow> bool" where
  "adding i xs n \<longleftrightarrow> n = i + ranges_size xs \<and> (\<forall>r\<in>set xs. snd r \<le> n)"

lemma adding_Nil [simp]: "adding i [] n \<longleftrightarrow> n = i"
  by (auto simp: adding_def)

lemma adding_snoc:
  "adding i xs n \<Longrightarrow> fst r \<le> n \<Longrightarrow> adding i (xs @ [r]) (n + (snd r - fst r))"
  by (auto simp: adding_def range_size_def)

lemma adding_shift_of:
  assumes "adding i xs n" "ranges_ok (xs @ ys)" "ys = [] \<or> n < fst (hd ys)"
  shows "shift_of (iset (xs @ ys)) i = n" "found n xs ys" "n \<notin> iset (xs @ ys)"
proof -
  have n: "n = i + ranges_size xs" "\<forall>r\<in>set xs. snd r \<le> n" using assms(1) by (auto simp: adding_def)
  have gap: "n < fst r" if "r \<in> set ys" for r
    using that assms(2,3) by (cases ys) (auto simp: ranges_ok_append ranges_ok_Cons)
  have ys: "iset ys \<inter> {..<n} = {}" "n \<notin> iset ys" using gap by (fastforce simp: iset_def)+
  have xs: "card (iset xs \<inter> {..<n}) = ranges_size xs" "n \<notin> iset xs"
    using card_iset_inside[of xs 0 n] assms(2) n(2)
    by (simp add: ranges_ok_append atLeast0LessThan) (use n(2) in \<open>force simp: iset_def\<close>)
  show "n \<notin> iset (xs @ ys)" using xs ys by simp
  then show "shift_of (iset (xs @ ys)) i = n"
    using card_iset_append[OF assms(2), of "{..<n}"] xs(1) ys(1) n(1)
    by (intro shift_of_eqI) (simp_all add: unshift_of_eq_diff)
  show "found n xs ys" using n(2) gap assms(2) by (cases ys) (force simp: found_def ranges_ok_append ranges_ok_Cons)+
qed

lemma shift_ranges_eq:
  assumes "adding i xs n" "ranges_ok (xs @ ys)"
  shows "shift_ranges ys n = shift_of (iset (xs @ ys)) i"
  using assms
proof (induction ys arbitrary: xs n)
  case Nil
  then show ?case using adding_shift_of(1)[of i xs n "[]"] by simp
next
  case (Cons r ys)
  show ?case
  proof (cases "n < fst r")
    case True
    then show ?thesis using adding_shift_of(1)[OF Cons.prems] by simp
  next
    case False
    then show ?thesis using Cons.IH[OF adding_snoc[OF Cons.prems(1)]] Cons.prems(2) by simp
  qed
qed

lemma shift_eq: "wf s \<Longrightarrow> shift s index = shift_of (iset_of s) index"
  using shift_ranges_eq[of index "[]" index "ranges s"] by (simp add: shift_def iset_of_def wf_def)

lemma skip_chunks_adding_props:
  assumes "cut_at s it xs ys" "ranges_ok (xs @ ys)" "ys = [] \<or> snd it = 0" "adding i xs n"
    "skip_chunks_adding s it n = (it', n')"
  shows "\<exists>xs' ys'. cut_at s it' xs' ys' \<and> adding i xs' n'"
  using assms
proof (induction "length ys" arbitrary: it xs ys n rule: less_induct)
  case less
  note c = less.prems(1)
  show ?case
  proof (cases "\<not> at_end s it \<and> chunk_end (s ! fst it) \<le> n")
    case True
    let ?d = "chunk_data (s ! fst it)"
    have "snd it = 0" using less.prems(3) True cut_at_end[OF c] by auto
    then obtain ys1 where y: "ys = ?d @ ys1" "cut_at s (next_chunk it) (xs @ ?d) ys1"
      "chunk_count (s ! fst it) = ranges_size ?d" "\<forall>r\<in>set ?d. snd r \<le> chunk_end (s ! fst it)"
      "snd (next_chunk it) = 0" "?d \<noteq> []"
      using cut_next_chunk[OF c less.prems(2)] True by blast
    have e: "skip_chunks_adding s (next_chunk it) (n + ranges_size ?d) = (it', n')"
      using less.prems(5) True y(3) by (simp add: skip_chunks_adding.simps[of s it])
    have a: "adding i (xs @ ?d) (n + ranges_size ?d)"
      using less.prems(4) y(4) True by (fastforce simp: adding_def)
    show ?thesis using less.hyps[OF _ y(2) _ _ a e] y(1,5,6) less.prems(2) by simp
  next
    case False
    then have "it' = it" "n' = n" using less.prems(5) by (auto simp: skip_chunks_adding.simps[of s it])
    then show ?thesis using c less.prems(4) by auto
  qed
qed

lemma skip_ranges_adding_props:
  assumes "cut_at s it xs ys" "adding i xs n" "skip_ranges_adding s it n = (it', n')"
  shows "\<exists>xs' ys'. cut_at s it' xs' ys' \<and> adding i xs' n' \<and> (ys' = [] \<or> n' < fst (hd ys'))"
  using assms
proof (induction ys arbitrary: it xs n)
  case Nil
  then show ?case using cut_at_end[OF Nil(1)] by (auto simp: skip_ranges_adding.simps[of s])
next
  case (Cons r ys)
  note d = cut_at_end[OF Cons.prems(1)] cut_deref[OF Cons.prems(1)]
  show ?case
  proof (cases "fst r \<le> n")
    case True
    then have "skip_ranges_adding s (it_next s it) (n + (snd r - fst r)) = (it', n')"
      using d Cons.prems(3) by (simp add: skip_ranges_adding.simps[of s it])
    then show ?thesis using Cons.IH[OF cut_next[OF Cons.prems(1)] adding_snoc[OF Cons.prems(2) True]] by blast
  next
    case False
    then have "it' = it" "n' = n" using d Cons.prems(3) by (auto simp: skip_ranges_adding.simps[of s it])
    then show ?thesis using Cons.prems(1,2) False by (intro exI[of _ xs] exI[of _ "r # ys"]) simp
  qed
qed

lemma add_shifted_props:
  assumes "wf s"
  shows "returns (add_shifted s index) (\<lambda>(s', index').
    wf s' \<and> index' = shift_of (iset_of s) index \<and> iset_of s' = insert index' (iset_of s))"
proof -
  have c0: "cut_at s (v_begin s) [] (ranges s)" using assms by (simp add: wf_def cut_begin)
  obtain it1 n1 where e1: "skip_chunks_adding s (v_begin s) index = (it1, n1)"
    by (cases "skip_chunks_adding s (v_begin s) index")
  have b: "ranges s = [] \<or> snd (v_begin s) = 0" by (simp add: v_begin_def v_end_def)
  obtain xs1 ys1 where c1: "cut_at s it1 xs1 ys1" "adding index xs1 n1"
    using skip_chunks_adding_props[OF c0 _ b _ e1, of index] assms by (auto simp: wf_def)
  obtain it2 n2 where e2: "skip_ranges_adding s it1 n1 = (it2, n2)" by (cases "skip_ranges_adding s it1 n1")
  obtain xs ys where c: "cut_at s it2 xs ys" "adding index xs n2" "ys = [] \<or> n2 < fst (hd ys)"
    using skip_ranges_adding_props[OF c1 e2] by blast
  have ok: "ranges_ok (xs @ ys)" using assms wf_cut[OF c(1)] by simp
  have S: "iset_of s = iset (xs @ ys)" using iset_of_cut[OF c(1)] by simp
  note a = adding_shift_of[OF c(2) ok c(3)]
  have "returns (do_add s it2 n2) (\<lambda>x. wf (fst x) \<and> iset_of (fst x) = insert n2 (iset_of s))"
    by (rule returns_mono[OF do_add_cut[OF c(1) ok a(2)]]) (auto dest: added_props)
  then show ?thesis using a(1) S by (simp add: add_shifted_def e1 e2 split_beta)
qed

lemma set_len_props: "returns (set_len len) (\<lambda>s. wf s \<and> iset_of s = {..<len})"
  by (auto simp: set_len_def push_back_def wf_def meta_ok_def chunk_ok_def count_ok_def max_size_def
      iset_of_def range_size_def)

end
