(* ===== verification/IndexSetUpdates.thy ===== *)
theory IndexSetUpdates
  imports IndexSetQueries
begin

text \<open>
  The operations of \<open>IndexSet\<close> that follow insertions into and deletions from the collection
  the indexes refer to: \<open>insert_at\<close>, \<open>shift_for_insert_at\<close>, \<open>erase_at\<close>, \<open>erase_or_unshift\<close>, and
  \<open>remove\<close>. \<open>open_gap\<close> and \<open>close_gap\<close> say what they do to the set.
\<close>

definition open_gap :: "nat \<Rightarrow> nat \<Rightarrow> nat set \<Rightarrow> nat set" where
  "open_gap index count S = (\<lambda>x. if x < index then x else x + count) ` S"

definition close_gap :: "nat \<Rightarrow> nat set \<Rightarrow> nat set" where
  "close_gap index S = (\<lambda>x. if x < index then x else x - 1) ` (S - {index})"

lemma mem_open_gap: "x \<in> open_gap index count S \<longleftrightarrow>
    (if x < index then x \<in> S else index + count \<le> x \<and> x - count \<in> S)"
proof -
  have "x - count \<in> S \<Longrightarrow> index + count \<le> x \<Longrightarrow> x \<in> open_gap index count S"
    unfolding open_gap_def by (rule image_eqI[of _ _ "x - count"]) auto
  then show ?thesis unfolding open_gap_def by (auto split: if_splits)
qed

lemma mem_close_gap: "x \<in> close_gap index S \<longleftrightarrow> (if x < index then x \<in> S else Suc x \<in> S)"
proof
  assume "x \<in> close_gap index S"
  then obtain y where "y \<in> S - {index}" "x = (if y < index then y else y - 1)"
    unfolding close_gap_def by (rule imageE)
  then show "if x < index then x \<in> S else Suc x \<in> S" by (cases y) (auto split: if_splits)
next
  assume "if x < index then x \<in> S else Suc x \<in> S"
  then show "x \<in> close_gap index S"
    unfolding close_gap_def by (intro image_eqI[of _ _ "if x < index then x else Suc x"]) (auto split: if_splits)
qed

lemma open_gap_Un [simp]: "open_gap i c (S \<union> T) = open_gap i c S \<union> open_gap i c T"
  by (auto simp: open_gap_def)

lemma close_gap_Un [simp]: "close_gap i (S \<union> T) = close_gap i S \<union> close_gap i T"
  by (auto simp: close_gap_def)

lemma close_open_gap: "close_gap i (open_gap i 1 S) = S"
  by (rule set_eqI) (auto simp: mem_close_gap mem_open_gap)

lemma mem_iset: "x \<in> iset rs \<longleftrightarrow> (\<exists>r\<in>set rs. fst r \<le> x \<and> x < snd r)"
  by (auto simp: iset_def)

lemma open_gap_range:
  assumes "a \<le> index" "index < b"
  shows "open_gap index c {a..<b} \<union> {index..<index + c} = {a..<b + c}"
  using assms by (intro set_eqI) (simp add: mem_open_gap, linarith)

section \<open>Moving a list of ranges\<close>

definition up_range :: "nat \<Rightarrow> index_range \<Rightarrow> index_range" where
  "up_range c r = (fst r + c, snd r + c)"

definition down_range :: "index_range \<Rightarrow> index_range" where
  "down_range r = (fst r - 1, snd r - 1)"

lemma up_range_simps [simp]: "fst (up_range c r) = fst r + c" "snd (up_range c r) = snd r + c"
  by (simp_all add: up_range_def)

lemma down_range_simps [simp]: "fst (down_range r) = fst r - 1" "snd (down_range r) = snd r - 1"
  by (simp_all add: down_range_def)

lemma plus_diff_simps [simp]: "plus_diff n (int c) = n + c" "plus_diff n (- 1) = n - 1" "plus_diff n 0 = n"
  by (auto simp: plus_diff_def)

lemma ranges_ok_up [simp]: "ranges_ok (map (up_range c) rs) = ranges_ok rs"
  by (induction rs) (auto simp: ranges_ok_Cons)

lemma ranges_ok_down: "ranges_ok rs \<Longrightarrow> \<forall>r\<in>set rs. 0 < fst r \<Longrightarrow> ranges_ok (map down_range rs)"
  by (induction rs) (auto simp: ranges_ok_Cons intro: diff_less_mono)

lemma iset_up: "\<forall>r\<in>set rs. index \<le> fst r \<Longrightarrow> iset (map (up_range c) rs) = open_gap index c (iset rs)"
  by (rule set_eqI) (force simp: mem_open_gap mem_iset)

lemma iset_down: "\<forall>r\<in>set rs. index < fst r \<Longrightarrow> iset (map down_range rs) = close_gap index (iset rs)"
  by (rule set_eqI) (force simp: mem_close_gap mem_iset)

lemma iset_below: "\<forall>r\<in>set rs. snd r \<le> index \<Longrightarrow> x \<in> iset rs \<Longrightarrow> x < index"
  by (auto simp: mem_iset)

lemma open_gap_below: "\<forall>r\<in>set rs. snd r \<le> index \<Longrightarrow> open_gap index c (iset rs) = iset rs"
  by (rule set_eqI) (use iset_below[of rs index] in \<open>force simp: mem_open_gap\<close>)

lemma close_gap_below: "\<forall>r\<in>set rs. snd r \<le> index \<Longrightarrow> close_gap index (iset rs) = iset rs"
  by (rule set_eqI) (use iset_below[of rs index] in \<open>force simp: mem_close_gap\<close>)

lemma shift_all_up:
  assumes "cut_at s it xs ys" "ranges_ok ys"
  shows "cut_at (shift_all s it (int c)) it xs (map (up_range c) ys)"
    "layout (shift_all s it (int c)) = layout s"
  using shift_all_cut[OF assms(1), of "int c"] ranges_ok_fst_le[OF assms(2)]
  by (auto simp: up_range_def[abs_def])

lemma shift_all_down:
  assumes "cut_at s it xs ys" "ranges_ok ys" "\<forall>r\<in>set ys. 0 < fst r"
  shows "cut_at (shift_all s it (- 1)) it xs (map down_range ys)"
  using shift_all_cut[OF assms(1), of "- 1"] ranges_ok_fst_le[OF assms(2)] assms(3)
  by (auto simp: down_range_def[abs_def] Suc_le_eq)

section \<open>Insertions\<close>

lemma add_run_props:
  assumes "cut_at s it xs ys" "ranges_ok (xs @ ys)" "found index xs ys" "ys = [] \<or> index + n < fst (hd ys)"
  shows "returns (add_run s it index n) (\<lambda>s'. wf s' \<and> iset_of s' = iset_of s \<union> {index..<index + n})"
  using assms
proof (induction n arbitrary: s it xs index)
  case 0
  then show ?case using wf_cut by auto
next
  case (Suc n)
  have "returns (add_run s' (it_next s' it') (Suc index) n)
      (\<lambda>t. wf t \<and> iset_of t = iset_of s \<union> {index..<index + Suc n})"
    if a: "added index s ys (s', it')" for s' it'
  proof -
    have near: "ys = [] \<or> index + 1 < fst (hd ys)" using Suc.prems(4) by auto
    then obtain xs' r where c: "cut_at s' it' xs' (r # ys)" "ranges_ok (xs' @ r # ys)" "snd r = index + 1"
        "iset_of s' = insert index (iset_of s)" "fst r \<le> index"
      using a unfolding added_def by auto
    have fst_hd: "ys \<noteq> [] \<Longrightarrow> fst (hd ys) < snd (hd ys)"
      using ranges_ok_nonempty[OF c(2), of "hd ys"] by simp
    have "snd q < fst r" if "q \<in> set xs'" for q
      using that c(2) by (simp add: ranges_ok_append)
    then have "\<forall>q\<in>set (xs' @ [r]). snd q \<le> Suc index"
      using c(3,5) by fastforce
    then have f: "found (Suc index) (xs' @ [r]) ys"
      using near fst_hd by (auto simp: found_def)
    have "returns (add_run s' (it_next s' it') (Suc index) n)
        (\<lambda>t. wf t \<and> iset_of t = iset_of s' \<union> {Suc index..<Suc index + n})"
      by (rule Suc.IH[OF cut_next[OF c(1)] _ f]) (use c(2) Suc.prems(4) in simp_all)
    moreover have "{index..<index + Suc n} = insert index {Suc index..<Suc index + n}" by auto
    ultimately show ?thesis using c(4) by simp
  qed
  then show ?case by (auto intro!: returns_mono[OF do_add_cut[OF Suc.prems(1,2,3)]])
qed

lemma insert_at_props:
  assumes "wf s" "0 < count"
  shows "returns (insert_at s index count) (\<lambda>s'. wf s' \<and>
    iset_of s' = open_gap index count (iset_of s) \<union> {index..<index + count})"
proof -
  let ?it = "v_find s index"
  obtain xs ys where c: "cut_at s ?it xs ys" "found index xs ys" "ranges_ok (xs @ ys)"
    by (rule find_cut[OF assms(1)])
  have below: "\<forall>r\<in>set xs. snd r \<le> index" using c(2) by (simp add: found_def)
  note gap_xs = open_gap_below[OF below, of count]
  show ?thesis
  proof (cases ys)
    case Nil
    then show ?thesis
      using add_run_props[OF c(1,3,2), of count] cut_at_end[OF c(1)] assms gap_xs
      by (simp add: insert_at_def Let_def iset_of_cut[OF c(1)])
  next
    case (Cons r rs)
    have c1: "cut_at s ?it xs (r # rs)" using c(1) Cons by simp
    have d: "\<not> at_end s ?it" "deref s ?it = r" using cut_at_end[OF c1] cut_deref[OF c1] by auto
    have r: "index < snd r" "fst r < snd r" using c(2,3) Cons by (auto simp: found_def ranges_ok_append ranges_ok_Cons)
    have above: "\<forall>q\<in>set rs. snd r < fst q" "ranges_ok rs" "\<forall>p\<in>set xs. snd p < fst r" "ranges_ok xs"
      using c(3) Cons by (auto simp: ranges_ok_append ranges_ok_Cons)
    have up_rs: "iset (map (up_range count) rs) = open_gap index count (iset rs)"
      using above r by (intro iset_up) auto
    show ?thesis
    proof (cases "fst r \<le> index")
      case True
      define s1 where "s1 = it_adjust s ?it 0 (int count)"
      have c2: "cut_at s1 ?it xs ((fst r, snd r + count) # rs)"
        using cut_adjust[OF c1, of 0 "int count"] r by (simp add: s1_def)
      define s2 where "s2 = shift_all s1 (it_next s1 ?it) (int count)"
      have c3: "cut_at s2 (it_next s1 ?it) (xs @ [(fst r, snd r + count)]) (map (up_range count) rs)"
        using shift_all_up[OF cut_next[OF c2] above(2), of count] by (simp_all add: s2_def)
      have "ranges_ok ((xs @ [(fst r, snd r + count)]) @ map (up_range count) rs)"
        using above r by (fastforce simp: ranges_ok_append ranges_ok_Cons)
      then have "wf s2" using wf_cut[OF c3] by simp
      moreover have "iset_of s2 = open_gap index count (iset_of s) \<union> {index..<index + count}"
        using open_gap_range[OF True r(1), of count] up_rs gap_xs
        by (simp add: iset_of_cut[OF c3] iset_of_cut[OF c1] Un_ac)
      ultimately show ?thesis
        using assms d True by (simp add: insert_at_def Let_def s1_def[symmetric] s2_def[symmetric])
    next
      case False
      define s1 where "s1 = it_shift s ?it (int count)"
      have c2: "cut_at s1 ?it xs (up_range count r # rs)"
        using cut_shift[OF c1, of "int count"] r by (simp add: s1_def up_range_def)
      define s2 where "s2 = shift_all s1 (it_next s1 ?it) (int count)"
      have s2: "cut_at s2 (it_next s1 ?it) (xs @ [up_range count r]) (map (up_range count) rs)"
          "layout s2 = layout s1"
        using shift_all_up[OF cut_next[OF c2] above(2), of count] by (simp_all add: s2_def)
      have c3: "cut_at s2 ?it xs (map (up_range count) ys)"
        using cut_other[OF c2 s2(1,2)] Cons by simp
      have above_ys: "\<forall>q\<in>set ys. index \<le> fst q" using Cons False above(1) r by auto
      have "iset_of s2 = open_gap index count (iset_of s)"
        using iset_up[of ys index count] above_ys gap_xs
        by (simp add: iset_of_cut[OF c3] iset_of_cut[OF c(1)])
      moreover have "returns (add_run s2 ?it index count)
          (\<lambda>s'. wf s' \<and> iset_of s' = iset_of s2 \<union> {index..<index + count})"
      proof (rule add_run_props[OF c3])
        show "ranges_ok (xs @ map (up_range count) ys)"
          using c(3) by (fastforce simp: ranges_ok_append)
      qed (use False Cons below r in \<open>auto simp: found_def\<close>)
      ultimately show ?thesis
        using assms d False by (simp add: insert_at_def Let_def s1_def[symmetric] s2_def[symmetric])
    qed
  qed
qed

lemma shift_for_insert_at_props:
  assumes "wf s" "0 < count"
  shows "returns (shift_for_insert_at s index count) (\<lambda>s'. wf s' \<and>
    iset_of s' = open_gap index count (iset_of s))"
proof -
  let ?it = "v_find s index"
  obtain xs ys where c: "cut_at s ?it xs ys" "found index xs ys" "ranges_ok (xs @ ys)"
    by (rule find_cut[OF assms(1)])
  have below: "\<forall>r\<in>set xs. snd r \<le> index" using c(2) by (simp add: found_def)
  note gap_xs = open_gap_below[OF below, of count]
  show ?thesis
  proof (cases ys)
    case Nil
    then show ?thesis
      using cut_at_end[OF c(1)] assms gap_xs
      by (simp add: shift_for_insert_at_def Let_def iset_of_cut[OF c(1)])
  next
    case (Cons r rs)
    have r: "index < snd r" "fst r < snd r" using c(2,3) Cons by (auto simp: found_def ranges_ok_append ranges_ok_Cons)
    have above: "\<forall>q\<in>set rs. snd r < fst q" "ranges_ok rs" "\<forall>p\<in>set xs. snd p < fst r" "ranges_ok xs"
      using c(3) Cons by (auto simp: ranges_ok_append ranges_ok_Cons)
    have xs_rs: "snd p < fst q" if "p \<in> set xs" "q \<in> set rs" for p q
      using that c(3) Cons by (auto simp: ranges_ok_append)
    have up_rs: "iset (map (up_range count) rs) = open_gap index count (iset rs)"
      using above r by (intro iset_up) auto
    define s1 where "s1 = shift_all s ?it (int count)"
    have c1: "cut_at s1 ?it xs (up_range count r # map (up_range count) rs)"
      using shift_all_up(1)[OF c(1), of count] c(3) Cons by (simp add: s1_def ranges_ok_append)
    have d: "\<not> at_end s ?it" "deref s1 ?it = up_range count r"
      using cut_at_end[OF c(1)] Cons cut_deref[OF c1] by auto
    show ?thesis
    proof (cases "fst r < index")
      case False
      have cut_ys: "cut_at s1 ?it xs (map (up_range count) ys)" using c1 Cons by simp
      have above_ys: "\<forall>q\<in>set ys. index \<le> fst q" using Cons False above(1) r by auto
      have "ranges_ok (xs @ map (up_range count) ys)"
        using c(3) Cons above xs_rs by (fastforce simp: ranges_ok_append ranges_ok_Cons)
      then have "wf s1" using wf_cut[OF c1] Cons by simp
      moreover have "iset_of s1 = open_gap index count (iset_of s)"
        using iset_up[of ys index count] above_ys gap_xs cut_ys
        by (simp add: iset_of_cut[OF cut_ys] iset_of_cut[OF c(1)])
      ultimately show ?thesis
        using assms d False by (simp add: shift_for_insert_at_def Let_def s1_def[symmetric])
    next
      case True
      define s2 where "s2 = it_set s1 ?it (fst r) index"
      have c2: "cut_at s2 ?it xs ((fst r, index) # map (up_range count) rs)"
        using cut_set[OF c1, of "fst r" index] r True by (simp add: s2_def)
      have ok: "ranges_ok ((xs @ [(fst r, index)]) @ (index + count, snd r + count) # map (up_range count) rs)"
        using above r True assms(2) xs_rs by (fastforce simp: ranges_ok_append ranges_ok_Cons)
      have S: "{fst r..<index} \<union> {index + count..<snd r + count} = open_gap index count {fst r..<snd r}"
        using True r(1) by (intro set_eqI) (simp add: mem_open_gap, linarith)
      have "returns (v_insert s2 (it_next s2 ?it) (index + count, snd r + count))
          (\<lambda>x. wf (fst x) \<and> iset_of (fst x) = open_gap index count (iset_of s))"
        by (rule returns_mono[OF cut_insert[OF cut_next[OF c2] ok]])
          (use ok S up_rs gap_xs Cons in \<open>auto simp: wf_cut iset_of_cut iset_of_cut[OF c(1)]\<close>)
      then show ?thesis
        using assms d True by (simp add: shift_for_insert_at_def Let_def s1_def[symmetric] s2_def[symmetric])
    qed
  qed
qed

section \<open>Deletions\<close>

lemma do_erase_props:
  assumes c1: "cut_at s it xs (r # rs)" and c2: "found index xs (r # rs)" and c3: "ranges_ok (xs @ r # rs)"
  shows "wf (do_erase s it index)" "iset_of (do_erase s it index) = close_gap index (iset_of s)"
proof -
  have below: "\<forall>r\<in>set xs. snd r \<le> index" using c2 by (simp add: found_def)
  note gap_xs = close_gap_below[OF below]
  have r: "index < snd r" "fst r < snd r" using c2 c3 by (auto simp: found_def ranges_ok_append ranges_ok_Cons)
  have above: "\<forall>q\<in>set rs. snd r < fst q" "ranges_ok rs" "\<forall>p\<in>set xs. snd p < fst r" "ranges_ok xs"
    using c3 by (auto simp: ranges_ok_append ranges_ok_Cons)
  have xs_rs: "snd p < fst q" if "p \<in> set xs" "q \<in> set rs" for p q
    using that c3 by (auto simp: ranges_ok_append)
  have pos: "\<forall>q\<in>set rs. 0 < fst q" using above(1) r by auto
  have down: "iset (map down_range rs) = close_gap index (iset rs)" "ranges_ok (map down_range rs)"
    using above r pos by (auto intro!: iset_down ranges_ok_down)
  have rs_down: "snd r - 1 < fst q - 1" if "q \<in> set rs" for q using that above(1) r by fastforce
  have S: "iset_of s = iset xs \<union> {fst r..<snd r} \<union> iset rs" using iset_of_cut[OF c1] by auto
  have fin: "wf t \<and> iset_of t = close_gap index (iset_of s)"
    if "cut_at t it' zs (map down_range rs)" "ranges_ok zs" "iset zs = iset xs \<union> close_gap index {fst r..<snd r}"
      "\<And>p q. p \<in> set zs \<Longrightarrow> q \<in> set rs \<Longrightarrow> snd p < fst q - 1" for t it' zs
    using that down gap_xs S
    by (auto simp: wf_cut[OF that(1)] iset_of_cut[OF that(1)] ranges_ok_append)
  note d = cut_deref[OF c1]
  have "wf (do_erase s it index) \<and> iset_of (do_erase s it index) = close_gap index (iset_of s)"
  proof (cases "fst r \<le> index")
    case in_r: True
    have xs_gap: "snd p < fst q - 1" if "p \<in> set xs" "q \<in> set rs" for p q
      using that above(1,3) r by fastforce
    show ?thesis
    proof (cases "fst r + 1 = snd r")
      case True
      obtain s1 it1 where e: "v_erase s it = (s1, it1)" by (cases "v_erase s it")
      have c: "cut_at s1 it1 xs rs" using cut_erase[OF c1] e by simp
      have "close_gap index {fst r..<snd r} = {}"
        using True in_r r by (auto simp: mem_close_gap split: if_splits)
      then show ?thesis
        using fin[OF shift_all_down[OF c above(2) pos] above(4)] xs_gap in_r True
        by (simp add: do_erase_def d e)
    next
      case False
      define s1 where "s1 = it_adjust s it 0 (- 1)"
      have "cut_at s1 it xs ((fst r, snd r - 1) # rs)"
        using cut_adjust[OF c1, of 0 "- 1"] r False by (simp add: s1_def)
      note c = cut_next[OF this]
      have "{fst r..<snd r - 1} = close_gap index {fst r..<snd r}"
        using in_r r by (intro set_eqI) (simp add: mem_close_gap, linarith)
      moreover have "ranges_ok (xs @ [(fst r, snd r - 1)])"
        using above r False by (auto simp: ranges_ok_append)
      moreover have "snd p < fst q - 1" if "p \<in> set (xs @ [(fst r, snd r - 1)])" "q \<in> set rs" for p q
        using that xs_gap[of p q] rs_down[of q] by auto
      moreover have "do_erase s it index = shift_all s1 (it_next s1 it) (- 1)"
        using in_r False d by (simp add: do_erase_def s1_def[symmetric] Let_def)
      ultimately show ?thesis
        using fin[OF shift_all_down[OF c above(2) pos]] by simp
    qed
  next
    case above_index: False
    have gap_r: "close_gap index {fst r..<snd r} = {fst r - 1..<snd r - 1}"
      using above_index by (intro set_eqI) (simp add: mem_close_gap, linarith)
    show ?thesis
    proof (cases "xs \<noteq> [] \<and> snd (last xs) + 1 = fst r")
      case True
      then obtain zs q where xs: "xs = zs @ [q]" and q: "snd q + 1 = fst r"
        by (metis append_butlast_last_id last_snoc)
      let ?p = "it_prev s it"
      have cp: "cut_at s ?p zs (q # r # rs)" using c1 xs by (simp add: cut_prev)
      have m: "it \<noteq> v_begin s" "deref s ?p = q" using cut_eq_begin[OF c1] xs cut_deref[OF cp] by auto
      define s1 where "s1 = it_adjust s ?p 0 (int (snd r - fst r))"
      have fq: "fst q < snd q" "ranges_ok zs" "\<forall>p\<in>set zs. snd p < fst q" using above(4) xs by (auto simp: ranges_ok_append)
      have e: "snd q + (snd r - fst r) = snd r - 1" using q r by simp
      have "cut_at s1 ?p zs ((fst q, snd r - 1) # r # rs)"
        using cut_adjust[OF cp, of 0 "int (snd r - fst r)"] fq e by (simp add: s1_def del: of_nat_diff)
      then have ci: "cut_at s1 it (zs @ [(fst q, snd r - 1)]) (r # rs)"
        using cut_other[OF c1] xs by (simp add: s1_def)
      obtain s2 it2 where e2: "v_erase s1 it = (s2, it2)" by (cases "v_erase s1 it")
      have c: "cut_at s2 it2 (zs @ [(fst q, snd r - 1)]) rs" using cut_erase[OF ci] e2 by simp
      have zs_gap: "snd p < fst t - 1" if "p \<in> set zs" "t \<in> set rs" for p t
        using that fq(1,3) q above(1) r by fastforce
      have "{fst q..<snd r - 1} = {fst q..<snd q} \<union> {fst r - 1..<snd r - 1}" using q r fq(1) by auto
      then have "iset (zs @ [(fst q, snd r - 1)]) = iset xs \<union> close_gap index {fst r..<snd r}"
        using gap_r xs by (simp add: Un_ac)
      moreover have "ranges_ok (zs @ [(fst q, snd r - 1)])" using fq q r by (auto simp: ranges_ok_append)
      moreover have "snd p < fst t - 1" if "p \<in> set (zs @ [(fst q, snd r - 1)])" "t \<in> set rs" for p t
        using that zs_gap[of p t] rs_down[of t] by auto
      moreover have "do_erase s it index = shift_all s2 it2 (- 1)"
        using d m q above_index e2 by (simp add: do_erase_def Let_def s1_def)
      ultimately show ?thesis
        using fin[OF shift_all_down[OF c above(2) pos]] by simp
    next
      case False
      have pre: "it \<noteq> v_begin s \<Longrightarrow> snd (deref s (it_prev s it)) + 1 \<noteq> fst r"
        using False cut_eq_begin[OF c1] cut_deref[OF cut_prev'[OF c1]] by auto
      then have eq: "do_erase s it index = shift_all s it (- 1)"
        using d above_index by (auto simp: do_erase_def Let_def)
      have "snd p < fst r - 1" if "p \<in> set xs" for p
      proof -
        have "snd (last xs) < fst r" "snd (last xs) + 1 \<noteq> fst r" if "xs \<noteq> []"
          using that False above(3) by auto
        then have "xs \<noteq> [] \<Longrightarrow> snd (last xs) < fst r - 1" by linarith
        then show ?thesis using ranges_ok_last_less[OF above(4) _ that] by blast
      qed
      then have "ranges_ok (xs @ map down_range (r # rs))"
        using above(4) c3 rs_down down(2) r pos above_index
        by (auto simp: ranges_ok_append ranges_ok_Cons) fastforce
      moreover have c: "cut_at (shift_all s it (- 1)) it xs (map down_range (r # rs))"
        using shift_all_down[OF c1] c3 pos above_index by (auto simp: ranges_ok_append)
      ultimately show ?thesis
        using gap_r down(1) gap_xs by (simp add: eq wf_cut[OF c] iset_of_cut[OF c] S Un_assoc)
    qed
  qed
  then show "wf (do_erase s it index)" "iset_of (do_erase s it index) = close_gap index (iset_of s)" by auto
qed

lemma erase_at_props:
  assumes "wf s"
  shows "wf (erase_at s index)" "iset_of (erase_at s index) = close_gap index (iset_of s)"
proof -
  obtain xs ys where c: "cut_at s (v_find s index) xs ys" "found index xs ys" "ranges_ok (xs @ ys)"
    by (rule find_cut[OF assms])
  have "wf (erase_at s index) \<and> iset_of (erase_at s index) = close_gap index (iset_of s)"
  proof (cases ys)
    case Nil
    then have "iset_of s = close_gap index (iset_of s)"
      using c(2) close_gap_below[of xs index] by (simp add: iset_of_cut[OF c(1)] found_def)
    then show ?thesis using cut_at_end[OF c(1)] Nil assms by (simp add: erase_at_def Let_def)
  next
    case (Cons r rs)
    then show ?thesis
      using do_erase_props[of s "v_find s index" xs r rs index] c cut_at_end[OF c(1)]
      by (simp add: erase_at_def Let_def)
  qed
  then show "wf (erase_at s index)" "iset_of (erase_at s index) = close_gap index (iset_of s)" by auto
qed

lemma unshift_chunks_props:
  assumes "cut_at s it xs ys" "ranges_ok (xs @ ys)" "ys = [] \<or> snd it = 0" "\<forall>r\<in>set xs. snd r \<le> i"
    "unshift_chunks s i it (i - ranges_size xs) = (it', n')"
  shows "\<exists>xs' ys'. cut_at s it' xs' ys' \<and> n' = i - ranges_size xs' \<and> (\<forall>r\<in>set xs'. snd r \<le> i)"
  using assms
proof (induction "length ys" arbitrary: it xs ys rule: less_induct)
  case less
  note c = less.prems(1)
  show ?case
  proof (cases "\<not> at_end s it \<and> chunk_end (s ! fst it) \<le> i")
    case True
    let ?d = "chunk_data (s ! fst it)"
    have "snd it = 0" using less.prems(3) True cut_at_end[OF c] by auto
    then obtain ys1 where y: "ys = ?d @ ys1" "cut_at s (next_chunk it) (xs @ ?d) ys1"
      "chunk_count (s ! fst it) = ranges_size ?d" "\<forall>r\<in>set ?d. snd r \<le> chunk_end (s ! fst it)"
      "snd (next_chunk it) = 0" "?d \<noteq> []"
      using cut_next_chunk[OF c less.prems(2)] True by blast
    have e: "unshift_chunks s i (next_chunk it) (i - ranges_size (xs @ ?d)) = (it', n')"
      using less.prems(5) True y(3) by (simp add: unshift_chunks.simps[of s i it])
    have "\<forall>r\<in>set (xs @ ?d). snd r \<le> i" using less.prems(4) y(4) True by fastforce
    then show ?thesis using less.hyps[OF _ y(2) _ _ _ e] y(1,5,6) less.prems(2) by simp
  next
    case False
    then have "it' = it" "n' = i - ranges_size xs"
      using less.prems(5) by (auto simp: unshift_chunks.simps[of s i it])
    then show ?thesis using c less.prems(4) by auto
  qed
qed

lemma unshift_ranges_props:
  assumes "cut_at s it xs ys" "\<forall>r\<in>set xs. snd r \<le> i" "unshift_ranges s i it (i - ranges_size xs) = (it', n')"
  shows "\<exists>xs' ys'. cut_at s it' xs' ys' \<and> n' = i - ranges_size xs' \<and> found i xs' ys'"
  using assms
proof (induction ys arbitrary: it xs)
  case Nil
  then show ?case using cut_at_end[OF Nil(1)] by (auto simp: unshift_ranges.simps[of s] found_def)
next
  case (Cons r ys)
  note d = cut_at_end[OF Cons.prems(1)] cut_deref[OF Cons.prems(1)]
  show ?case
  proof (cases "snd r \<le> i")
    case True
    then have "unshift_ranges s i (it_next s it) (i - ranges_size (xs @ [r])) = (it', n')"
      using d Cons.prems(3) by (simp add: unshift_ranges.simps[of s i it] range_size_def)
    then show ?thesis using Cons.IH[OF cut_next[OF Cons.prems(1)]] Cons.prems(2) True by simp
  next
    case False
    then have "it' = it" "n' = i - ranges_size xs"
      using d Cons.prems(3) by (auto simp: unshift_ranges.simps[of s i it])
    then show ?thesis using Cons.prems(1,2) False
      by (intro exI[of _ xs] exI[of _ "r # ys"]) (simp add: found_def)
  qed
qed

lemma found_find_pos: "found i xs ys \<Longrightarrow> find_pos i (xs @ ys) = length xs"
  using find_pos_all[of xs i] by (cases ys) (auto simp: found_def find_pos_append find_pos_def)

lemma find_from_eq:
  assumes "cut_at s it xs ys" "ranges_ok (xs @ ys)" "cut_at s it' xs' ys'" "found i xs' ys'"
    "\<forall>r\<in>set xs. snd r \<le> i"
  shows "v_find_from s i it = it'"
proof -
  obtain xs2 ys2 where c: "cut_at s (v_find_from s i it) xs2 ys2" "found i xs2 ys2"
    using find_from_cut[OF assms(1,2,5)] by blast
  have eq: "xs2 @ ys2 = xs' @ ys'" using cutD(3)[OF c(1)] cutD(3)[OF assms(3)] by simp
  then have "length xs2 = length xs'"
    using found_find_pos[OF c(2)] found_find_pos[OF assms(4)] by simp
  then show ?thesis using eq c(1) cut_unique[OF _ assms(3)] by simp
qed

lemma find_eq:
  assumes "cut_at s it xs ys" "ranges_ok (xs @ ys)" "found i xs ys"
  shows "v_find s i = it"
  unfolding v_find_def using cutD[OF assms(1)] assms(2)
  by (intro find_from_eq[OF cut_begin _ assms(1,3)]) simp_all

lemma erase_or_unshift_props:
  assumes "wf s"
  shows "erase_or_unshift s index =
    (erase_at s index, if index \<in> iset_of s then npos else unshift_of (iset_of s) index)"
proof -
  have c0: "cut_at s (v_begin s) [] (ranges s)" using assms by (simp add: wf_def cut_begin)
  have b: "ranges s = [] \<or> snd (v_begin s) = 0" by (simp add: v_begin_def v_end_def)
  obtain it1 n1 where e1: "unshift_chunks s index (v_begin s) index = (it1, n1)"
    by (cases "unshift_chunks s index (v_begin s) index")
  obtain xs1 ys1 where c1: "cut_at s it1 xs1 ys1" "n1 = index - ranges_size xs1" "\<forall>r\<in>set xs1. snd r \<le> index"
    using unshift_chunks_props[OF c0 _ b, of index it1 n1] e1 assms by (auto simp: wf_def)
  obtain it2 n2 where e2: "unshift_ranges s index it1 n1 = (it2, n2)" by (cases "unshift_ranges s index it1 n1")
  obtain xs ys where c: "cut_at s it2 xs ys" "n2 = index - ranges_size xs" "found index xs ys"
    using unshift_ranges_props[OF c1(1,3)] e2 c1(2) by blast
  have ok: "ranges_ok (xs @ ys)" using assms wf_cut[OF c(1)] by simp
  have S: "iset_of s = iset (xs @ ys)" using iset_of_cut[OF c(1)] by simp
  note mem = found_mem[OF c(3) ok]
  have n2: "n2 = unshift_of (iset_of s) index" if "index \<notin> iset_of s"
  proof -
    have "ys = [] \<or> index < fst (hd ys)" using that mem S by auto
    then have "card (iset (xs @ ys) \<inter> {..<index}) = ranges_size xs"
      using card_prefix[OF ok, of index] c(3) by (auto simp: found_def)
    then show ?thesis using c(2) S by (simp add: unshift_of_eq_diff)
  qed
  have it2: "v_find s index = it2" by (rule find_eq[OF c(1) ok c(3)])
  have "at_end s it2 \<longleftrightarrow> ys = []" "ys \<noteq> [] \<Longrightarrow> deref s it2 = hd ys"
    using cut_at_end[OF c(1)] cut_deref[of s it2 xs "hd ys" "tl ys"] c(1) by auto
  then have eq: "erase_or_unshift s index = (erase_at s index, if ys \<noteq> [] \<and> fst (hd ys) \<le> index then npos else n2)"
    by (simp add: erase_or_unshift_def e1 e2 erase_at_def it2 Let_def)
  have "index \<in> iset_of s \<longleftrightarrow> ys \<noteq> [] \<and> fst (hd ys) \<le> index" using mem S by simp
  then show ?thesis using n2 unfolding eq by simp
qed

section \<open>Removing without shifting\<close>

definition removed :: "nat \<Rightarrow> nat \<Rightarrow> index_set \<Rightarrow> index_set \<times> iter \<Rightarrow> bool" where
  "removed b e s = (\<lambda>(s', it'). \<exists>xs ys. cut_at s' it' xs ys \<and> ranges_ok (xs @ ys) \<and>
     (\<forall>r\<in>set xs. snd r \<le> e) \<and> iset_of s' = iset_of s - {b..<e})"

lemma do_remove_loop_done:
  assumes c: "cut_at s it xs ys" and ok: "ranges_ok (xs @ ys)" and "found b xs ys" "b < e"
    and e: "ys = [] \<or> e \<le> fst (hd ys)"
  shows "returns (do_remove_loop s it b e) (removed b e s)"
proof -
  have "do_remove_loop s it b e = Some (s, it)"
    using e cut_at_end[OF c] cut_deref[of s it xs "hd ys" "tl ys"] c
    by (cases ys) (auto simp: do_remove_loop.simps[of s it])
  have xs: "\<forall>p\<in>set xs. snd p \<le> b" using assms(3) by (simp add: found_def)
  then have "x \<notin> iset xs" if "b \<le> x" for x using that by (auto simp: mem_iset)
  moreover have "x \<notin> iset ys" if "x < e" for x
    using that e ok by (cases ys) (fastforce simp: mem_iset ranges_ok_append ranges_ok_Cons)+
  ultimately have "iset_of s = iset_of s - {b..<e}" by (auto simp: iset_of_cut[OF c])
  moreover have "\<forall>p\<in>set xs. snd p \<le> e" using xs assms(4) by auto
  ultimately show ?thesis using c ok \<open>do_remove_loop s it b e = Some (s, it)\<close> unfolding removed_def by auto
qed

lemma do_remove_loop_props:
  assumes "cut_at s it xs ys" "ranges_ok (xs @ ys)" "found b xs ys" "b < e"
  shows "returns (do_remove_loop s it b e) (removed b e s)"
  using assms
proof (induction "length ys" arbitrary: s it xs ys b rule: less_induct)
  case less
  note c = less.prems(1) and ok = less.prems(2)
  show ?case
  proof (cases "ys = [] \<or> e \<le> fst (hd ys)")
    case True
    then show ?thesis by (rule do_remove_loop_done[OF less.prems])
  next
    case False
    then obtain r rs where ys: "ys = r # rs" and re: "fst r < e" by (cases ys) auto
    have c1: "cut_at s it xs (r # rs)" using c ys by simp
    have d: "\<not> at_end s it" "deref s it = r" using cut_at_end[OF c1] cut_deref[OF c1] by auto
    have r: "b < snd r" "fst r < snd r" using less.prems(3) ok ys by (auto simp: found_def ranges_ok_append ranges_ok_Cons)
    have above: "\<forall>q\<in>set rs. snd r < fst q" "ranges_ok rs" "\<forall>p\<in>set xs. snd p < fst r" "ranges_ok xs"
      using ok ys by (auto simp: ranges_ok_append ranges_ok_Cons)
    have xs_rs: "snd p < fst q" if "p \<in> set xs" "q \<in> set rs" for p q
      using that ok ys by (auto simp: ranges_ok_append)
    have rs_ne: "rs \<noteq> [] \<Longrightarrow> snd r < fst (hd rs) \<and> fst (hd rs) < snd (hd rs)"
      using above(1) ranges_ok_nonempty[OF above(2), of "hd rs"] by simp
    have S: "iset_of s = iset xs \<union> {fst r..<snd r} \<union> iset rs" using iset_of_cut[OF c1] by auto
    define b' where "b' = max (fst r) b"
    have b': "b' < snd r" "b' < e" "b \<le> b'" "fst r \<le> b'" using r re less.prems(4) by (auto simp: b'_def)
    have xs_b: "\<forall>p\<in>set xs. snd p \<le> b" "\<forall>p\<in>set xs. snd p \<le> b'"
      using less.prems(3) b'(3) by (auto simp: found_def intro: le_trans)
    define body where "body =
          (if fst r < b' \<and> e < snd r then
             let s1 = it_set s it (fst r) b' in
             map_option (\<lambda>(s2, it2). (s2, it_prev s2 it2)) (v_insert s1 (it_next s1 it) (e, snd r))
           else if b' = fst r \<and> snd r \<le> e then Some (v_erase s it)
           else if b' = fst r then Some (it_set s it e (snd r), it)
           else Some (it_set s it (fst r) b', it))"
    have step: "do_remove_loop s it b e = Option.bind body
          (\<lambda>(s', it'). do_remove_loop s' (v_find_from s' b' it') b' e)"
      using d re by (subst do_remove_loop.simps) (simp add: Let_def b'_def body_def)
    have S': "iset_of s' - {b'..<e} = iset_of s - {b..<e}"
      if "iset_of s' = iset xs \<union> ({fst r..<snd r} - {b'..<e}) \<union> iset rs" for s'
    proof -
      have "x \<notin> iset xs" if "b \<le> x" for x using that xs_b(1) by (auto simp: mem_iset)
      moreover have "x \<notin> iset rs" if "x \<le> snd r" for x using that above(1) by (fastforce simp: mem_iset)
      ultimately show ?thesis using b' unfolding that S by (auto simp: b'_def)
    qed
    have go: "returns (do_remove_loop s' (v_find_from s' b' it') b' e) (removed b e s)"
      if 1: "cut_at s' it' zs ws" "ranges_ok (zs @ ws)" "\<forall>p\<in>set zs. snd p \<le> b'"
        and 2: "cut_at s' it2 zs2 ws2" "found b' zs2 ws2"
        and 3: "iset_of s' = iset xs \<union> ({fst r..<snd r} - {b'..<e}) \<union> iset rs"
        and 4: "length ws2 < length ys \<or> e \<le> fst (hd ws2)" for s' it' zs ws it2 zs2 ws2
    proof -
      have ok2: "ranges_ok (zs2 @ ws2)" using 1(2) cutD(3)[OF 1(1)] cutD(3)[OF 2(1)] by simp
      have "returns (do_remove_loop s' it2 b' e) (removed b' e s')"
        using 4 less.hyps[OF _ 2(1) ok2 2(2) b'(2)] do_remove_loop_done[OF 2(1) ok2 2(2) b'(2)] by blast
      then show ?thesis
        using find_from_eq[OF 1(1,2) 2 1(3)] S'[OF 3] by (auto simp: removed_def elim!: returns_mono)
    qed
    consider "fst r < b'" "e < snd r" | "b' = fst r" "snd r \<le> e" | "b' = fst r" "e < snd r"
      | "fst r < b'" "snd r \<le> e" using b'(4) by linarith
    then have "returns body (\<lambda>(s', it'). returns (do_remove_loop s' (v_find_from s' b' it') b' e) (removed b e s))"
    proof cases
      case 1
      define s1 where "s1 = it_set s it (fst r) b'"
      have c2: "cut_at s1 it xs ((fst r, b') # rs)" using cut_set[OF c1, of "fst r" b'] r 1 by (simp add: s1_def)
      have ok2: "ranges_ok ((xs @ [(fst r, b')]) @ (e, snd r) # rs)"
        using above 1 b' xs_rs by (fastforce simp: ranges_ok_append ranges_ok_Cons)
      have "returns (do_remove_loop t (v_find_from t b' (it_prev t it2)) b' e) (removed b e s)"
        if t: "cut_at t it2 (xs @ [(fst r, b')]) ((e, snd r) # rs)" for t it2
      proof (rule go[OF cut_prev[OF t] _ xs_b(2) t])
        show "ranges_ok (xs @ (fst r, b') # (e, snd r) # rs)" using ok2 by simp
        show "found b' (xs @ [(fst r, b')]) ((e, snd r) # rs)" using xs_b(2) b' by (auto simp: found_def)
        show "iset_of t = iset xs \<union> ({fst r..<snd r} - {b'..<e}) \<union> iset rs"
          using b' 1 by (auto simp: iset_of_cut[OF t])
      qed simp
      then show ?thesis
        using 1 by (auto simp: body_def Let_def s1_def[symmetric] intro!: returns_mono[OF cut_insert[OF cut_next[OF c2] ok2]])
    next
      case 2
      obtain t it2 where e: "v_erase s it = (t, it2)" by (cases "v_erase s it")
      have t: "cut_at t it2 xs rs" using cut_erase[OF c1] e by simp
      have "ranges_ok (xs @ rs)" using above xs_rs by (simp add: ranges_ok_append)
      moreover have "found b' xs rs" using xs_b(2) rs_ne 2 b' by (auto simp: found_def)
      moreover have "iset_of t = iset xs \<union> ({fst r..<snd r} - {b'..<e}) \<union> iset rs"
        using 2 by (auto simp: iset_of_cut[OF t])
      ultimately show ?thesis using go[OF t _ xs_b(2) t] 2 ys by (simp add: body_def e)
    next
      case 3
      have t: "cut_at (it_set s it e (snd r)) it xs ((e, snd r) # rs)" using cut_set[OF c1, of e "snd r"] r 3 by simp
      have "ranges_ok (xs @ (e, snd r) # rs)"
        using above 3 b' xs_rs by (fastforce simp: ranges_ok_append ranges_ok_Cons)
      moreover have "found b' xs ((e, snd r) # rs)" using xs_b(2) b' by (auto simp: found_def)
      moreover have "iset_of (it_set s it e (snd r)) = iset xs \<union> ({fst r..<snd r} - {b'..<e}) \<union> iset rs"
        using 3 b' by (auto simp: iset_of_cut[OF t])
      ultimately show ?thesis using go[OF t _ xs_b(2) t] 3 by (simp add: body_def)
    next
      case 4
      have t: "cut_at (it_set s it (fst r) b') it xs ((fst r, b') # rs)" using cut_set[OF c1, of "fst r" b'] r 4 by simp
      have "ranges_ok (xs @ (fst r, b') # rs)"
        using above 4 b' xs_rs by (fastforce simp: ranges_ok_append ranges_ok_Cons)
      moreover have "found b' (xs @ [(fst r, b')]) rs" using xs_b(2) rs_ne b' by (auto simp: found_def)
      moreover have "iset_of (it_set s it (fst r) b') = iset xs \<union> ({fst r..<snd r} - {b'..<e}) \<union> iset rs"
        using 4 b' by (auto simp: iset_of_cut[OF t])
      ultimately show ?thesis using go[OF t _ xs_b(2) cut_next[OF t]] 4 ys by (simp add: body_def)
    qed
    then show ?thesis by (simp add: step case_prod_unfold)
  qed
qed

lemma remove_props:
  assumes "wf s" "0 < count"
  shows "returns (remove s index count) (\<lambda>s'. wf s' \<and> iset_of s' = iset_of s - {index..<index + count})"
proof -
  obtain xs ys where c: "cut_at s (v_find s index) xs ys" "found index xs ys" "ranges_ok (xs @ ys)"
    by (rule find_cut[OF assms(1)])
  have "v_find_from s index (v_find s index) = v_find s index"
    by (rule find_from_eq[OF c(1,3,1,2)]) (use c(2) in \<open>simp add: found_def\<close>)
  then have "returns (do_remove s (v_find s index) index (index + count)) (removed index (index + count) s)"
    using do_remove_loop_props[OF c(1,3,2)] assms(2) by (simp add: do_remove_def)
  then show ?thesis unfolding remove_def by (auto simp: removed_def wf_cut elim!: returns_mono)
qed

lemma remove_ranges_props:
  assumes "cut_at s it xs ys" "ranges_ok (xs @ ys)" "ranges_ok vs" "\<forall>r\<in>set xs. \<forall>v\<in>set vs. snd r \<le> fst v"
  shows "returns (remove_ranges s it vs) (\<lambda>s'. wf s' \<and> iset_of s' = iset_of s - iset vs)"
  using assms
proof (induction vs arbitrary: s it xs ys)
  case Nil
  then show ?case using wf_cut by auto
next
  case (Cons v vs)
  have v: "fst v < snd v" "\<forall>w\<in>set vs. snd v < fst w" "ranges_ok vs" using Cons.prems(3) by (auto simp: ranges_ok_Cons)
  obtain xs' ys' where f: "cut_at s (v_find_from s (fst v) it) xs' ys'" "found (fst v) xs' ys'" "ranges_ok (xs' @ ys')"
    by (rule find_from_cut[OF Cons.prems(1,2), of "fst v"]) (use Cons.prems(4) in auto)
  have m: "returns (do_remove s it (fst v) (snd v)) (removed (fst v) (snd v) s)"
    using do_remove_loop_props[OF f(1,3,2) v(1)] by (simp add: do_remove_def)
  have "returns (if at_end s' it' then Some s' else remove_ranges s' it' vs)
      (\<lambda>t. wf t \<and> iset_of t = iset_of s - iset (v # vs))"
    if "removed (fst v) (snd v) s (s', it')" for s' it'
  proof -
    obtain zs ws where z: "cut_at s' it' zs ws" "ranges_ok (zs @ ws)" "\<forall>r\<in>set zs. snd r \<le> snd v"
        "iset_of s' = iset_of s - {fst v..<snd v}" using \<open>removed (fst v) (snd v) s (s', it')\<close> by (auto simp: removed_def)
    have below: "\<forall>r\<in>set zs. \<forall>w\<in>set vs. snd r \<le> fst w" using z(3) v(2) by fastforce
    show ?thesis
    proof (cases "at_end s' it'")
      case True
      then have "ws = []" using cut_at_end[OF z(1)] by simp
      then have "iset_of s' \<inter> iset vs = {}"
        using below z(3) v(2) by (fastforce simp: iset_of_cut[OF z(1)] mem_iset)
      then show ?thesis using True z(4) wf_cut[OF z(1)] z(2) by auto
    next
      case False
      then show ?thesis using Cons.IH[OF z(1,2) v(3) below] z(4) by (auto elim!: returns_mono)
    qed
  qed
  then show ?case by (auto intro!: returns_mono[OF m])
qed

lemma remove_set_props:
  assumes "wf s" "wf values"
  shows "returns (remove_set s values) (\<lambda>s'. wf s' \<and> iset_of s' = iset_of s - iset_of values)"
  unfolding remove_set_def
  using remove_ranges_props[OF cut_begin, of s "ranges values"] assms
  by (simp add: wf_def iset_of_def)

end
