(* ===== verification/ChangeTracking.thy ===== *)
theory ChangeTracking
  imports IndexRanges
begin

text \<open>
  What a change set promises, apart from how it is stored: \<open>applies D I xs ys\<close> says that
  removing the indexes \<open>D\<close> from the old collection \<open>xs\<close> and then inserting at the indexes \<open>I\<close>
  gives the new collection \<open>ys\<close>. A move \<open>(f, t)\<close> reports that the row deleted at \<open>f\<close> is the
  row inserted at \<open>t\<close>. Change sets compose, and each single operation of the change builder
  is a composition with a small change.
\<close>

section \<open>Removing a set of positions from a list\<close>

lemma nths_snoc: "nths (xs @ [x]) S = nths xs S @ (if length xs \<in> S then [x] else [])"
  by (simp add: nths_append)

lemma length_nths_Compl: "length (nths xs (- A)) = unshift_of A (length xs)"
proof -
  have "{i. i < length xs \<and> i \<in> - A} = {..<length xs} - A" by auto
  then show ?thesis by (simp add: length_nths unshift_of_def)
qed

lemma nths_Compl_nth:
  assumes "finite A" "k < length (nths xs (- A))"
  shows "nths xs (- A) ! k = xs ! shift_of A k" "shift_of A k < length xs"
proof -
  have "nths xs (- A) ! k = xs ! shift_of A k \<and> shift_of A k < length xs"
    using assms(2)
  proof (induction xs rule: rev_induct)
    case (snoc x xs)
    show ?case
    proof (cases "k < length (nths xs (- A))")
      case True
      then show ?thesis using snoc.IH by (simp add: nths_snoc nth_append)
    next
      case False
      then have n: "length xs \<notin> A" "k = unshift_of A (length xs)"
        using snoc.prems by (auto simp: nths_snoc length_nths_Compl split: if_splits)
      then have "shift_of A k = length xs" using shift_of_unshift_of by simp
      then show ?thesis using n by (simp add: nths_snoc length_nths_Compl nth_append)
    qed
  qed simp
  then show "nths xs (- A) ! k = xs ! shift_of A k" "shift_of A k < length xs" by auto
qed

lemma nths_nths_Compl:
  assumes "finite A"
  shows "nths (nths xs (- A)) (- B) = nths xs (- (A \<union> shift_of A ` B))"
proof (induction xs rule: rev_induct)
  case (snoc x xs)
  show ?case
  proof (cases "length xs \<in> A")
    case True
    then show ?thesis using snoc by (simp add: nths_snoc)
  next
    case False
    have "unshift_of A (length xs) \<in> B \<longleftrightarrow> length xs \<in> shift_of A ` B"
      using shift_of_unshift_of[of "length xs" A] unshift_of_shift_of[OF assms] False assms
      by (metis image_iff)
    then show ?thesis using snoc False by (simp add: nths_snoc length_nths_Compl)
  qed
qed simp

lemma Un_shift_unshift:
  "A \<union> shift_of A ` unshift_of A ` (B - A) = A \<union> B"
proof -
  have "shift_of A ` unshift_of A ` (B - A) = B - A"
    by (force simp: image_image shift_of_unshift_of)
  then show ?thesis by auto
qed

lemma unshift_of_bound: "x < n \<Longrightarrow> x \<notin> A \<Longrightarrow> unshift_of A x < unshift_of A n"
  by (rule unshift_of_strict)

section \<open>Change sets\<close>

definition applies :: "nat set \<Rightarrow> nat set \<Rightarrow> 'a list \<Rightarrow> 'a list \<Rightarrow> bool" where
  "applies D I xs ys \<longleftrightarrow>
     D \<subseteq> {..<length xs} \<and> I \<subseteq> {..<length ys} \<and> nths xs (- D) = nths ys (- I)"

text \<open>The index in the old collection of a row of the new one.\<close>

definition back_to :: "nat set \<Rightarrow> nat set \<Rightarrow> nat \<Rightarrow> nat" where
  "back_to D I x = shift_of D (unshift_of I x)"

lemma appliesD:
  assumes "applies D I xs ys"
  shows "finite D" "finite I" "D \<subseteq> {..<length xs}" "I \<subseteq> {..<length ys}" "nths xs (- D) = nths ys (- I)"
  using assms by (auto simp: applies_def finite_subset)

lemma applies_lengths:
  assumes "applies D I xs ys"
  shows "length xs + card I = length ys + card D"
proof -
  have "card ({..<length xs} - D) = card ({..<length ys} - I)"
    using appliesD(5)[OF assms] by (metis length_nths_Compl unshift_of_def)
  then show ?thesis
    using appliesD[OF assms] card_mono[of "{..<length xs}" D] card_mono[of "{..<length ys}" I]
    by (simp add: card_Diff_subset)
qed

lemma applies_nth:
  assumes "applies D I xs ys" "x < length ys" "x \<notin> I"
  shows "back_to D I x < length xs" "back_to D I x \<notin> D" "xs ! back_to D I x = ys ! x"
    "back_to I D (back_to D I x) = x"
proof -
  note a = appliesD[OF assms(1)]
  have k: "unshift_of I x < length (nths ys (- I))" using assms(2,3) by (simp add: length_nths_Compl unshift_of_bound)
  have "nths ys (- I) ! unshift_of I x = ys ! x"
    using nths_Compl_nth(1)[OF a(2) k] shift_of_unshift_of[of x I] a(2) assms(3) by simp
  then show "xs ! back_to D I x = ys ! x" "back_to D I x < length xs"
    using nths_Compl_nth[OF a(1), of "unshift_of I x" xs] k a(5) by (simp_all add: back_to_def)
  show "back_to D I x \<notin> D" using shift_of_notin[OF a(1)] by (simp add: back_to_def)
  show "back_to I D (back_to D I x) = x"
    using unshift_of_shift_of[OF a(1)] shift_of_unshift_of[of x I] a(2) assms(3) by (simp add: back_to_def)
qed

lemma applies_sym: "applies D I xs ys \<Longrightarrow> applies I D ys xs"
  by (auto simp: applies_def)

theorem applies_compose:
  assumes 1: "applies D I xs ys" and 2: "applies E J ys zs"
  shows "applies (D \<union> back_to D I ` (E - I)) (J \<union> back_to J E ` (I - E)) xs zs"
proof -
  note a = appliesD[OF 1] and b = appliesD[OF 2]
  have "nths xs (- (D \<union> back_to D I ` (E - I))) = nths (nths xs (- D)) (- (unshift_of I ` (E - I)))"
    using nths_nths_Compl[OF a(1), of xs "unshift_of I ` (E - I)"] by (simp add: back_to_def image_image)
  also have "\<dots> = nths ys (- (I \<union> E))"
    using nths_nths_Compl[OF a(2), of ys "unshift_of I ` (E - I)"] a(5) Un_shift_unshift by simp
  also have "\<dots> = nths (nths ys (- E)) (- (unshift_of E ` (I - E)))"
    using nths_nths_Compl[OF b(1), of ys "unshift_of E ` (I - E)"] Un_shift_unshift by (simp add: Un_commute)
  also have "\<dots> = nths zs (- (J \<union> back_to J E ` (I - E)))"
    using nths_nths_Compl[OF b(2), of zs "unshift_of E ` (I - E)"] b(5) by (simp add: back_to_def image_image)
  finally have eq: "nths xs (- (D \<union> back_to D I ` (E - I))) = nths zs (- (J \<union> back_to J E ` (I - E)))" .
  have "back_to D I ` (E - I) \<subseteq> {..<length xs}"
    using applies_nth(1)[OF 1] b(3) by auto
  moreover have "back_to J E ` (I - E) \<subseteq> {..<length zs}"
    using applies_nth(1)[OF applies_sym[OF 2]] a(4) by auto
  ultimately show ?thesis using eq a(3) b(4) by (auto simp: applies_def)
qed

text \<open>Inserting a block of rows, and deleting and moving a row.\<close>

definition insert_rows :: "nat \<Rightarrow> 'a list \<Rightarrow> 'a list \<Rightarrow> 'a list" where
  "insert_rows i new ys = take i ys @ new @ drop i ys"

definition remove_row :: "nat \<Rightarrow> 'a list \<Rightarrow> 'a list" where
  "remove_row i ys = take i ys @ drop (Suc i) ys"

definition move_row :: "nat \<Rightarrow> nat \<Rightarrow> 'a list \<Rightarrow> 'a list" where
  "move_row f t ys = insert_rows t [ys ! f] (remove_row f ys)"

lemma nths_ge: "(\<forall>i\<in>S. length xs \<le> i) \<Longrightarrow> nths xs S = []"
  by (induction xs rule: rev_induct) (fastforce simp: nths_snoc)+

lemma nths_lt: "(\<forall>i<length xs. i \<in> S) \<Longrightarrow> nths xs S = xs"
  by (induction xs rule: rev_induct) (auto simp: nths_snoc)

lemma applies_insert_rows:
  "i \<le> length ys \<Longrightarrow> applies {} {i..<i + length new} ys (insert_rows i new ys)"
proof -
  assume i: "i \<le> length ys"
  have "nths (take i ys @ new @ drop i ys) (- {i..<i + length new}) = take i ys @ [] @ drop i ys"
    unfolding nths_append using i
    by (intro arg_cong2[where f = append]) (auto intro!: nths_lt nths_ge simp: min_def split: if_splits)
  then show ?thesis using i by (auto simp: applies_def insert_rows_def nths_all)
qed

lemma applies_remove_row: "i < length ys \<Longrightarrow> applies {i} {} ys (remove_row i ys)"
proof -
  assume i: "i < length ys"
  then have ys: "ys = take i ys @ [ys ! i] @ drop (Suc i) ys" by (simp add: id_take_nth_drop)
  have "nths (take i ys @ [ys ! i] @ drop (Suc i) ys) (- {i}) = take i ys @ [] @ drop (Suc i) ys"
    unfolding nths_append using i
    by (intro arg_cong2[where f = append]) (auto intro!: nths_lt nths_ge simp: min_def)
  then show ?thesis using i ys by (simp add: applies_def remove_row_def nths_all)
qed

lemma length_remove_row [simp]: "i < length ys \<Longrightarrow> length (remove_row i ys) = length ys - 1"
  by (simp add: remove_row_def)

lemma length_insert_rows [simp]: "length (insert_rows i new ys) = length new + length ys"
  by (simp add: insert_rows_def)

lemma length_move_row [simp]: "f < length ys \<Longrightarrow> length (move_row f t ys) = length ys"
  by (simp add: move_row_def)

lemma back_to_empty [simp]: "back_to D {} x = shift_of D x" "back_to {} I x = unshift_of I x"
  using shift_of_unshift_of[of "unshift_of I x" "{}"] by (simp_all add: back_to_def unshift_of_def)

lemma applies_move_row:
  assumes "f < length ys" "t < length ys"
  shows "applies {f} {t} ys (move_row f t ys)"
  using applies_compose[OF applies_remove_row[OF assms(1)] applies_insert_rows[of t _ "[ys ! f]"]] assms
  by (simp add: move_row_def)

lemma nth_insert_rows:
  "i \<le> length ys \<Longrightarrow> j < length new \<Longrightarrow> insert_rows i new ys ! (i + j) = new ! j"
  by (simp add: insert_rows_def nth_append)

lemma move_row_nth: "f < length ys \<Longrightarrow> t < length ys \<Longrightarrow> move_row f t ys ! t = ys ! f"
  using nth_insert_rows[of t "remove_row f ys" 0 "[ys ! f]"] by (simp add: move_row_def)

text \<open>Taking a reported move back: the row stayed where it was among the others.\<close>

lemma nths_insert_index:
  assumes "finite D" "f \<in> D" "f < length xs"
  shows "nths xs (- (D - {f})) = insert_rows (unshift_of D f) [xs ! f] (nths xs (- D))"
  using assms(3)
proof (induction xs rule: rev_induct)
  case (snoc x xs)
  have le: "unshift_of D f \<le> length (nths xs (- D))" if "f \<le> length xs"
    using that by (simp add: length_nths_Compl unshift_of_mono)
  show ?case
  proof (cases "f = length xs")
    case True
    have "nths xs (- (D - {f})) = nths xs (- D)"
      unfolding nths_def using True by (intro arg_cong[where f = "map fst"] filter_cong) (auto simp: set_zip)
    then show ?thesis using True assms(2)
      by (simp add: nths_snoc insert_rows_def length_nths_Compl)
  next
    case False
    then have "f < length xs" using snoc.prems by simp
    then show ?thesis using snoc.IH le False
      by (simp add: nths_snoc insert_rows_def nth_append)
  qed
qed simp

lemma applies_unmove:
  assumes "applies D I xs ys" "f \<in> D" "t \<in> I" "xs ! f = ys ! t" "unshift_of D f = unshift_of I t"
  shows "applies (D - {f}) (I - {t}) xs ys"
proof -
  note a = appliesD[OF assms(1)]
  have "f < length xs" "t < length ys" using a(3,4) assms(2,3) by auto
  then show ?thesis
    using nths_insert_index[OF a(1) assms(2)] nths_insert_index[OF a(2) assms(3)] a(3,4,5) assms(4,5)
    by (auto simp: applies_def)
qed

end
