(* ===== verification/IndexSetInterface.thy ===== *)
theory IndexSetInterface
  imports Prelude ChangeTracking
begin

text \<open>
  The interface of \<open>IndexSet\<close> that the change builder relies on: the sets of indexes of two
  versions of a collection, with the operations that follow inserted, deleted and moved rows.
  The lemmas of the locale say what one step of the change builder does to the pair of
  deletions and insertions; the interpretation is in \<open>IndexSetBuilder\<close>.
\<close>

locale index_set_ops =
  fixes inv :: "'s \<Rightarrow> bool"
    and abs :: "'s \<Rightarrow> nat set"
    and room :: "'s \<Rightarrow> 's \<Rightarrow> bool"
    and npos :: nat
    and insert_at :: "'s \<Rightarrow> nat \<Rightarrow> nat \<Rightarrow> 's option"
    and erase_at :: "'s \<Rightarrow> nat \<Rightarrow> 's"
    and erase_or_unshift :: "'s \<Rightarrow> nat \<Rightarrow> 's \<times> nat"
    and add_shifted :: "'s \<Rightarrow> nat \<Rightarrow> ('s \<times> nat) option"
    and add_shifted_by :: "'s \<Rightarrow> 's \<Rightarrow> 's \<Rightarrow> 's option"
    and insert_at_set :: "'s \<Rightarrow> 's \<Rightarrow> 's"
    and erase_at_set :: "'s \<Rightarrow> 's \<Rightarrow> 's"
    and remove :: "'s \<Rightarrow> nat \<Rightarrow> nat \<Rightarrow> 's option"
  assumes abs_finite: "finite (abs s)"
    and insert_at_law: "inv s \<Longrightarrow> 0 < c \<Longrightarrow> returns (insert_at s i c) (\<lambda>s'. inv s' \<and>
          abs s' = {i..<i + c} \<union> shift_of {i..<i + c} ` abs s)"
    and erase_at_law: "inv s \<Longrightarrow> inv (erase_at s i) \<and> abs (erase_at s i) = unshift_of {i} ` (abs s - {i})"
    and erase_or_unshift_law: "inv s \<Longrightarrow> erase_or_unshift s i =
          (erase_at s i, if i \<in> abs s then npos else unshift_of (abs s) i)"
    and add_shifted_law: "inv s \<Longrightarrow> returns (add_shifted s u) (\<lambda>(s', x). inv s' \<and>
          x = shift_of (abs s) u \<and> abs s' = insert x (abs s))"
    and add_shifted_by_law: "inv s \<Longrightarrow> inv b \<Longrightarrow> inv v \<Longrightarrow> room s v \<Longrightarrow>
          returns (add_shifted_by s b v) (\<lambda>s'. inv s' \<and>
            abs s' = abs s \<union> (\<lambda>x. shift_of (abs s) (unshift_of (abs b) x)) ` (abs v - abs b))"
    and insert_at_set_law: "inv s \<Longrightarrow> inv p \<Longrightarrow>
          inv (insert_at_set s p) \<and> abs (insert_at_set s p) = abs p \<union> shift_of (abs p) ` abs s"
    and erase_at_set_law: "inv s \<Longrightarrow> inv p \<Longrightarrow>
          inv (erase_at_set s p) \<and> abs (erase_at_set s p) = unshift_of (abs p) ` (abs s - abs p)"
    and remove_law: "inv s \<Longrightarrow> 0 < c \<Longrightarrow>
          returns (remove s i c) (\<lambda>s'. inv s' \<and> abs s' = abs s - {i..<i + c})"
begin

text \<open>Rows inserted: the deletions stay, the insertions open up.\<close>

lemma insert_step:
  assumes "inv I" "applies (abs D) (abs I) xs ys" "i \<le> length ys" "new \<noteq> []"
  shows "returns (insert_at I i (length new)) (\<lambda>I'. inv I' \<and> applies (abs D) (abs I') xs (insert_rows i new ys) \<and>
    abs I' = {i..<i + length new} \<union> shift_of {i..<i + length new} ` abs I)"
proof -
  have "applies (abs D) ({i..<i + length new} \<union> shift_of {i..<i + length new} ` abs I) xs (insert_rows i new ys)"
    using applies_compose[OF assms(2) applies_insert_rows[OF assms(3), of new]] by simp
  then show ?thesis
    using returns_mono[OF insert_at_law[OF assms(1), of "length new" i]] assms(4) by auto
qed

text \<open>A row deleted: if it was inserted before, only the insertions change.\<close>

lemma erase_step_inserted:
  assumes "inv I" "applies (abs D) (abs I) xs ys" "i < length ys" "i \<in> abs I"
  shows "inv (erase_at I i)" "applies (abs D) (abs (erase_at I i)) xs (remove_row i ys)"
  using applies_compose[OF assms(2) applies_remove_row[OF assms(3)]] erase_at_law[OF assms(1), of i] assms(4)
  by (simp_all add: insert_absorb)

lemma erase_step_old:
  assumes "inv D" "inv I" "applies (abs D) (abs I) xs ys" "i < length ys" "i \<notin> abs I"
  shows "inv (erase_at I i)"
    "returns (add_shifted D (unshift_of (abs I) i)) (\<lambda>(D', f). inv D' \<and> f = back_to (abs D) (abs I) i \<and>
      abs D' = insert f (abs D) \<and> applies (abs D') (abs (erase_at I i)) xs (remove_row i ys))"
proof -
  show "inv (erase_at I i)" using erase_at_law[OF assms(2)] by simp
  have "{i} - abs I = {i}" using assms(5) by auto
  then have "applies (insert (back_to (abs D) (abs I) i) (abs D)) (abs (erase_at I i)) xs (remove_row i ys)"
    using applies_compose[OF assms(3) applies_remove_row[OF assms(4)]] erase_at_law[OF assms(2), of i] assms(5)
    by simp
  then show "returns (add_shifted D (unshift_of (abs I) i)) (\<lambda>(D', f). inv D' \<and> f = back_to (abs D) (abs I) i \<and>
      abs D' = insert f (abs D) \<and> applies (abs D') (abs (erase_at I i)) xs (remove_row i ys))"
    by (intro returns_mono[OF add_shifted_law[OF assms(1)]]) (auto simp: back_to_def)
qed

text \<open>Another change set applied on top.\<close>

lemma merge_step:
  assumes "inv D" "inv I" "inv E" "inv J" "applies (abs D) (abs I) xs ys" "applies (abs E) (abs J) ys zs" "room D E"
  shows "returns (add_shifted_by D I E) (\<lambda>D'. inv D' \<and> inv (insert_at_set (erase_at_set I E) J) \<and>
    applies (abs D') (abs (insert_at_set (erase_at_set I E) J)) xs zs \<and>
    abs D' = abs D \<union> back_to (abs D) (abs I) ` (abs E - abs I) \<and>
    abs (insert_at_set (erase_at_set I E) J) = abs J \<union> back_to (abs J) (abs E) ` (abs I - abs E))"
proof -
  have "inv (insert_at_set (erase_at_set I E) J)"
    "abs (insert_at_set (erase_at_set I E) J) = abs J \<union> back_to (abs J) (abs E) ` (abs I - abs E)"
    using erase_at_set_law[OF assms(2,3)] insert_at_set_law[OF _ assms(4), of "erase_at_set I E"]
    by (simp_all add: back_to_def image_image)
  then show ?thesis
    using applies_compose[OF assms(5,6)]
    by (intro returns_mono[OF add_shifted_by_law[OF assms(1,2,3,7)]]) (simp add: back_to_def)
qed

lemma unmove_step:
  assumes "inv D" "inv I" "applies (abs D) (abs I) xs ys" "f \<in> abs D" "t \<in> abs I" "xs ! f = ys ! t"
    "unshift_of (abs D) f = unshift_of (abs I) t"
  shows "returns (remove D f 1) (\<lambda>D'. returns (remove I t 1) (\<lambda>I'. inv D' \<and> inv I' \<and>
    abs D' = abs D - {f} \<and> abs I' = abs I - {t} \<and> applies (abs D') (abs I') xs ys))"
proof -
  have "applies (abs D - {f}) (abs I - {t}) xs ys" by (rule applies_unmove[OF assms(3-7)])
  then show ?thesis
    using remove_law[OF assms(2), of 1 t]
    by (intro returns_mono[OF remove_law[OF assms(1), of 1 f]]) (auto elim!: returns_mono)
qed

end

end
