(* ===== verification/IndexSetBuilder.thy ===== *)
theory IndexSetBuilder
  imports IndexSetUpdates IndexSetInterface
begin

text \<open>
  \<open>ChunkedRangeVectorBuilder\<close> (ObjectStore/src/index_set.cpp), which rebuilds a set from
  indexes and ranges pushed in ascending order, and the operations of \<open>IndexSet\<close> that merge
  two whole sets through it. The read-only iterators of these operations only walk forward
  over their sets, so they are recursions over \<open>ranges\<close> and \<open>as_indexes\<close>.
\<close>

section \<open>The builder\<close>

record builder =
  b_data :: "chunk list"
  b_outer :: nat

definition empty_chunk :: chunk where
  "empty_chunk = \<lparr>chunk_data = [], chunk_begin = 0, chunk_end = 0, chunk_count = 0\<rparr>"

definition new_builder :: "index_set \<Rightarrow> builder" where
  "new_builder expected =
     \<lparr>b_data = replicate (sum_list (map (length \<circ> chunk_data) expected) div max_size + 1) empty_chunk,
      b_outer = 0\<rparr>"

definition push_range :: "builder \<Rightarrow> index_range \<Rightarrow> builder" where
  "push_range b r =
     (let k = b_outer b; c = b_data b ! k; d = chunk_data c in
      if d = [] then
        b\<lparr>b_data := (b_data b)[k := c\<lparr>chunk_data := [r], chunk_count := snd r - fst r, chunk_begin := fst r\<rparr>]\<rparr>
      else if fst r = snd (last d) then
        b\<lparr>b_data := (b_data b)[k := c\<lparr>chunk_data := butlast d @ [(fst (last d), snd r)],
                                     chunk_count := chunk_count c + (snd r - fst r)\<rparr>]\<rparr>
      else if length d < max_size then
        b\<lparr>b_data := (b_data b)[k := c\<lparr>chunk_data := d @ [r],
                                     chunk_count := chunk_count c + (snd r - fst r)\<rparr>]\<rparr>
      else
        let data = (b_data b)[k := c\<lparr>chunk_end := snd (last d)\<rparr>]; k = Suc k in
        if length data \<le> k then
          \<lparr>b_data = data @ [\<lparr>chunk_data = [r], chunk_begin = fst r, chunk_end = 0, chunk_count = 1\<rparr>],
           b_outer = k\<rparr>
        else
          let c = data ! k in
          \<lparr>b_data = data[k := c\<lparr>chunk_data := chunk_data c @ [r], chunk_begin := fst r,
                                 chunk_count := snd r - fst r\<rparr>],
           b_outer = k\<rparr>)"

definition push_index :: "builder \<Rightarrow> nat \<Rightarrow> builder" where
  "push_index b index = push_range b (index, index + 1)"

definition finalize_builder :: "builder \<Rightarrow> index_set" where
  "finalize_builder b =
     (if b_data b = [] then []
      else let data = take (b_outer b + 1) (b_data b) in
        if chunk_data (last data) = [] then butlast data
        else butlast data @ [(last data)\<lparr>chunk_end := snd (last (chunk_data (last data)))\<rparr>])"

section \<open>What the builder builds\<close>

definition append_range :: "index_range list \<Rightarrow> index_range \<Rightarrow> index_range list" where
  "append_range rs r =
     (if rs \<noteq> [] \<and> fst r = snd (last rs) then butlast rs @ [(fst (last rs), snd r)] else rs @ [r])"

definition builder_ok :: "builder \<Rightarrow> bool" where
  "builder_ok b \<longleftrightarrow> (\<exists>fs c es. b_data b = fs @ c # es \<and> b_outer b = length fs \<and>
     (\<forall>f\<in>set fs. chunk_ok f \<and> length (chunk_data f) = max_size) \<and>
     length (chunk_data c) \<le> max_size \<and> (chunk_data c \<noteq> [] \<longrightarrow> chunk_begin c = fst (hd (chunk_data c))) \<and>
     (chunk_data c = [] \<longrightarrow> fs = []) \<and> (\<forall>e\<in>set es. e = empty_chunk))"

definition builder_counts :: "builder \<Rightarrow> bool" where
  "builder_counts b \<longleftrightarrow> (\<forall>c\<in>set (b_data b). count_ok c)"

definition built :: "builder \<Rightarrow> index_range list" where
  "built b = ranges (b_data b)"

lemma ranges_empty_chunks: "\<forall>e\<in>set es. e = empty_chunk \<Longrightarrow> ranges es = []"
  by (induction es) (auto simp: empty_chunk_def)

lemma ranges_size_butlast_last:
  "d \<noteq> [] \<Longrightarrow> ranges_size d = ranges_size (butlast d) + range_size (last d)"
  by (metis append_butlast_last_id ranges_size_simps(1,2,3) add_0_right)

lemma new_builder_props:
  "builder_ok (new_builder s)" "builder_counts (new_builder s)" "built (new_builder s) = []"
  "length (b_data (new_builder s)) = length (ranges s) div max_size + 1"
proof -
  have len: "sum_list (map (length \<circ> chunk_data) s) = length (ranges s)"
    by (simp add: ranges_def length_concat comp_def)
  have data: "b_data (new_builder s) = [] @ empty_chunk # replicate (length (ranges s) div max_size) empty_chunk"
    by (simp add: new_builder_def len)
  then show "built (new_builder s) = []" "length (b_data (new_builder s)) = length (ranges s) div max_size + 1"
    using ranges_empty_chunks[of "b_data (new_builder s)"] by (simp_all add: built_def)
  show "builder_ok (new_builder s)"
    unfolding builder_ok_def data by (rule exI[of _ "[]"]) (simp add: empty_chunk_def new_builder_def)
  show "builder_counts (new_builder s)"
    by (simp add: builder_counts_def data count_ok_def empty_chunk_def)
qed

lemma push_range_props:
  assumes "builder_ok b" "\<forall>q\<in>set (built b). fst q < snd q" "fst r < snd r"
  shows "builder_ok (push_range b r)" "built (push_range b r) = append_range (built b) r"
    "length (b_data b) \<le> length (b_data (push_range b r))"
    "builder_counts b \<Longrightarrow> range_size r = 1 \<or> length (b_data (push_range b r)) = length (b_data b)
      \<Longrightarrow> builder_counts (push_range b r)"
    "length (b_data b) < length (b_data (push_range b r)) \<Longrightarrow>
       max_size * length (b_data b) < length (built (push_range b r))"
proof -
  obtain fs c es where b: "b_data b = fs @ c # es" "b_outer b = length fs"
      "\<forall>f\<in>set fs. chunk_ok f \<and> length (chunk_data f) = max_size" "length (chunk_data c) \<le> max_size"
      "chunk_data c \<noteq> [] \<longrightarrow> chunk_begin c = fst (hd (chunk_data c))" "chunk_data c = [] \<longrightarrow> fs = []"
      "\<forall>e\<in>set es. e = empty_chunk"
    using assms(1) unfolding builder_ok_def by blast
  let ?d = "chunk_data c"
  have rs: "built b = ranges fs @ ?d" using ranges_empty_chunks[OF b(7)] by (simp add: built_def b(1))
  have size: "range_size (fst q, snd r) = range_size q + (snd r - fst r)" if "fst q < snd q" "fst r = snd q" for q
    using that assms(3) by (simp add: range_size_def)
  have len_fs: "length (ranges fs) = max_size * length fs"
    using b(3) by (induction fs) auto
  have "builder_ok (push_range b r) \<and> built (push_range b r) = append_range (built b) r \<and>
    length (b_data b) \<le> length (b_data (push_range b r)) \<and>
    (builder_counts b \<longrightarrow> range_size r = 1 \<or> length (b_data (push_range b r)) = length (b_data b)
      \<longrightarrow> builder_counts (push_range b r)) \<and>
    (length (b_data b) < length (b_data (push_range b r)) \<longrightarrow>
       max_size * length (b_data b) < length (built (push_range b r)))" (is "?P (push_range b r)")
  proof -
    consider "?d = []" | "?d \<noteq> []" "fst r = snd (last ?d)" | "?d \<noteq> []" "fst r \<noteq> snd (last ?d)" "length ?d < max_size"
      | "?d \<noteq> []" "fst r \<noteq> snd (last ?d)" "length ?d = max_size" "es = []"
      | e es' where "?d \<noteq> []" "fst r \<noteq> snd (last ?d)" "length ?d = max_size" "es = e # es'"
      using b(4) by (cases es) (auto simp: le_less)
    then show ?thesis
    proof cases
      case 1
      define c' where "c' = c\<lparr>chunk_data := [r], chunk_count := snd r - fst r, chunk_begin := fst r\<rparr>"
      have eq: "push_range b r = b\<lparr>b_data := fs @ c' # es\<rparr>" using 1 b by (simp add: push_range_def Let_def c'_def)
      have "builder_ok (push_range b r)"
        unfolding builder_ok_def eq using 1 b
        by (intro exI[of _ fs] exI[of _ c'] exI[of _ es]) (simp add: c'_def max_size_def)
      then show ?thesis
        using 1 b rs ranges_empty_chunks[OF b(7)]
        by (auto simp: eq built_def append_range_def builder_counts_def count_ok_def c'_def range_size_def)
    next
      case 2
      define c' where "c' = c\<lparr>chunk_data := butlast ?d @ [(fst (last ?d), snd r)],
        chunk_count := chunk_count c + (snd r - fst r)\<rparr>"
      have eq: "push_range b r = b\<lparr>b_data := fs @ c' # es\<rparr>" using 2 b by (simp add: push_range_def Let_def c'_def)
      have hd: "fst (hd (butlast ?d @ [(fst (last ?d), snd r)])) = fst (hd ?d)"
        using 2(1) by (cases ?d rule: rev_cases) (auto simp: hd_append)
      have "builder_ok (push_range b r)"
        unfolding builder_ok_def eq using 2 b hd
        by (intro exI[of _ fs] exI[of _ c'] exI[of _ es]) (simp add: c'_def)
      moreover have "built (push_range b r) = append_range (built b) r"
        using 2 rs ranges_empty_chunks[OF b(7)] by (simp add: eq built_def append_range_def c'_def butlast_append)
      moreover have "fst (last ?d) < snd (last ?d)" using assms(2) rs 2(1) by simp
      then have "count_ok c \<Longrightarrow> count_ok c'"
        using size[of "last ?d"] 2 ranges_size_butlast_last[OF 2(1)] by (simp add: count_ok_def c'_def)
      ultimately show ?thesis using b(1) by (auto simp: eq builder_counts_def)
    next
      case 3
      define c' where "c' = c\<lparr>chunk_data := ?d @ [r], chunk_count := chunk_count c + (snd r - fst r)\<rparr>"
      have eq: "push_range b r = b\<lparr>b_data := fs @ c' # es\<rparr>" using 3 b by (simp add: push_range_def Let_def c'_def)
      have "builder_ok (push_range b r)"
        unfolding builder_ok_def eq using 3 b
        by (intro exI[of _ fs] exI[of _ c'] exI[of _ es]) (simp add: c'_def)
      then show ?thesis
        using 3 b rs ranges_empty_chunks[OF b(7)]
        by (auto simp: eq built_def append_range_def builder_counts_def count_ok_def c'_def range_size_def)
    next
      case 4
      define c' where "c' = c\<lparr>chunk_end := snd (last ?d)\<rparr>"
      define n where "n = \<lparr>chunk_data = [r], chunk_begin = fst r, chunk_end = 0, chunk_count = 1\<rparr>"
      have eq: "push_range b r = \<lparr>b_data = (fs @ [c']) @ [n], b_outer = Suc (length fs)\<rparr>"
        using 4 b by (simp add: push_range_def Let_def c'_def n_def)
      have "builder_ok (push_range b r)"
        unfolding builder_ok_def eq using 4 b
        by (intro exI[of _ "fs @ [c']"] exI[of _ n] exI[of _ "[]"]) (simp add: c'_def n_def chunk_ok_def max_size_def)
      then show ?thesis
        using 4 b(1) rs len_fs
        by (auto simp: eq built_def append_range_def builder_counts_def count_ok_def c'_def n_def)
    next
      case 5
      define c' where "c' = c\<lparr>chunk_end := snd (last ?d)\<rparr>"
      define n where "n = e\<lparr>chunk_data := chunk_data e @ [r], chunk_begin := fst r, chunk_count := snd r - fst r\<rparr>"
      have e: "e = empty_chunk" using b(7) 5(4) by simp
      have eq: "push_range b r = \<lparr>b_data = (fs @ [c']) @ n # es', b_outer = Suc (length fs)\<rparr>"
        using 5 b by (simp add: push_range_def Let_def c'_def n_def nth_append list_update_append)
      have "builder_ok (push_range b r)"
        unfolding builder_ok_def eq using 5 b
        by (intro exI[of _ "fs @ [c']"] exI[of _ n] exI[of _ es'])
          (simp add: c'_def n_def chunk_ok_def max_size_def e empty_chunk_def)
      then show ?thesis
        using 5 b(1) rs ranges_empty_chunks[OF b(7)]
        by (auto simp: eq built_def append_range_def builder_counts_def count_ok_def c'_def n_def e
            empty_chunk_def range_size_def)
    qed
  qed
  then show "builder_ok (push_range b r)" "built (push_range b r) = append_range (built b) r"
    "length (b_data b) \<le> length (b_data (push_range b r))"
    "builder_counts b \<Longrightarrow> range_size r = 1 \<or> length (b_data (push_range b r)) = length (b_data b)
      \<Longrightarrow> builder_counts (push_range b r)"
    "length (b_data b) < length (b_data (push_range b r)) \<Longrightarrow>
       max_size * length (b_data b) < length (built (push_range b r))"
    by blast+
qed

lemma finalize_builder_props:
  assumes "builder_ok b"
  shows "ranges (finalize_builder b) = built b" "\<forall>c\<in>set (finalize_builder b). chunk_ok c"
    "builder_counts b \<Longrightarrow> meta_ok (finalize_builder b)"
proof -
  obtain fs c es where b: "b_data b = fs @ c # es" "b_outer b = length fs"
      "\<forall>f\<in>set fs. chunk_ok f \<and> length (chunk_data f) = max_size" "length (chunk_data c) \<le> max_size"
      "chunk_data c \<noteq> [] \<longrightarrow> chunk_begin c = fst (hd (chunk_data c))" "chunk_data c = [] \<longrightarrow> fs = []"
      "\<forall>e\<in>set es. e = empty_chunk"
    using assms unfolding builder_ok_def by blast
  have eq: "finalize_builder b = (if chunk_data c = [] then fs else fs @ [c\<lparr>chunk_end := snd (last (chunk_data c))\<rparr>])"
    by (simp add: finalize_builder_def b(1,2))
  show "ranges (finalize_builder b) = built b"
    using ranges_empty_chunks[OF b(7)] by (simp add: eq built_def b(1))
  show ok: "\<forall>c\<in>set (finalize_builder b). chunk_ok c"
    using b(3,4,5) by (auto simp: eq chunk_ok_def)
  show "builder_counts b \<Longrightarrow> meta_ok (finalize_builder b)"
    using ok b(1) by (auto simp: meta_ok_def builder_counts_def eq count_ok_def split: if_splits)
qed

text \<open>
  A sequence of pushes in ascending order. The chunk that is added when the allocated ones are
  full gets the count 1 whatever the pushed range is, so the counts are right when only single
  indexes are pushed, or when the ranges fit into the allocated chunks.
\<close>

definition ascending :: "index_range list \<Rightarrow> bool" where
  "ascending ps \<longleftrightarrow> sorted_wrt (\<lambda>p q. snd p \<le> fst q) ps \<and> (\<forall>p\<in>set ps. fst p < snd p)"

lemma ascending_Nil [simp]: "ascending []"
  by (simp add: ascending_def)

lemma ascending_append:
  "ascending (ps @ qs) \<longleftrightarrow> ascending ps \<and> ascending qs \<and> (\<forall>p\<in>set ps. \<forall>q\<in>set qs. snd p \<le> fst q)"
  by (auto simp: ascending_def sorted_wrt_append)

lemma ascending_Cons:
  "ascending (p # ps) \<longleftrightarrow> fst p < snd p \<and> (\<forall>q\<in>set ps. snd p \<le> fst q) \<and> ascending ps"
  by (auto simp: ascending_def)

lemma ranges_ok_ascending: "ranges_ok rs \<Longrightarrow> ascending rs"
  by (induction rs) (auto simp: ranges_ok_Cons ascending_Cons less_imp_le)

definition one :: "nat \<Rightarrow> index_range" where
  "one i = (i, i + 1)"

lemma one_simps [simp]: "fst (one i) = i" "snd (one i) = Suc i" "range_size (one i) = 1"
  by (simp_all add: one_def range_size_def)

lemma ascending_ones: "sorted_wrt (<) is \<Longrightarrow> ascending (map one is)"
  by (induction "is") (auto simp: ascending_Cons Suc_le_eq)

lemma iset_ones [simp]: "iset (map one is) = set is"
  by (induction "is") auto

lemma append_range_props:
  assumes "ranges_ok rs" "\<forall>q\<in>set rs. snd q \<le> fst r" "fst r < snd r"
  shows "ranges_ok (append_range rs r)" "iset (append_range rs r) = iset rs \<union> {fst r..<snd r}"
    "length rs \<le> length (append_range rs r)" "\<forall>q\<in>set (append_range rs r). snd q \<le> snd r"
proof -
  have "ranges_ok (append_range rs r) \<and> iset (append_range rs r) = iset rs \<union> {fst r..<snd r} \<and>
    length rs \<le> length (append_range rs r) \<and> (\<forall>q\<in>set (append_range rs r). snd q \<le> snd r)"
  proof (cases "rs \<noteq> [] \<and> fst r = snd (last rs)")
    case True
    then obtain zs q where rs: "rs = zs @ [q]" and q: "snd q = fst r" by (metis append_butlast_last_id last_snoc)
    have z: "ranges_ok zs" "fst q < snd q" "\<forall>p\<in>set zs. snd p < fst q" using assms(1) rs by (auto simp: ranges_ok_append)
    have "\<forall>p\<in>set zs. snd p \<le> snd r" using z assms(3) q by fastforce
    then show ?thesis using z rs q assms(3) by (auto simp: append_range_def ranges_ok_append)
  next
    case False
    then have "rs \<noteq> [] \<Longrightarrow> snd (last rs) < fst r" using assms(2) by (simp add: le_neq_implies_less)
    then have "ranges_ok (rs @ [r])" using assms(1,3) by (simp add: ranges_ok_append_hd)
    moreover have "\<forall>q\<in>set rs. snd q \<le> snd r" using assms(2,3) by fastforce
    ultimately show ?thesis using False by (auto simp: append_range_def)
  qed
  then show "ranges_ok (append_range rs r)" "iset (append_range rs r) = iset rs \<union> {fst r..<snd r}"
    "length rs \<le> length (append_range rs r)" "\<forall>q\<in>set (append_range rs r). snd q \<le> snd r" by blast+
qed

definition all_pushed :: "builder \<Rightarrow> index_range list \<Rightarrow> builder" where
  "all_pushed b ps = foldl push_range b ps"

lemma all_pushed_append: "all_pushed b (ps @ qs) = all_pushed (all_pushed b ps) qs"
  by (simp add: all_pushed_def)

lemma push_index_pushed: "push_index b i = all_pushed b [one i]"
  by (simp add: all_pushed_def push_index_def one_def)

lemma all_pushed_props:
  assumes "builder_ok b" "ranges_ok (built b)" "ascending ps" "\<forall>q\<in>set (built b). \<forall>p\<in>set ps. snd q \<le> fst p"
  shows "builder_ok (all_pushed b ps) \<and> ranges_ok (built (all_pushed b ps)) \<and>
    iset (built (all_pushed b ps)) = iset (built b) \<union> iset ps \<and>
    length (b_data b) \<le> length (b_data (all_pushed b ps)) \<and>
    length (built b) \<le> length (built (all_pushed b ps)) \<and>
    (builder_counts b \<longrightarrow> (\<forall>p\<in>set ps. range_size p = 1) \<or>
       length (built (all_pushed b ps)) \<le> max_size * length (b_data b) \<longrightarrow>
     builder_counts (all_pushed b ps))"
  using assms
proof (induction ps arbitrary: b)
  case (Cons p ps)
  have p: "fst p < snd p" "\<forall>q\<in>set ps. snd p \<le> fst q" "ascending ps" using Cons.prems(3) by (auto simp: ascending_Cons)
  have ne: "\<forall>q\<in>set (built b). fst q < snd q" using Cons.prems(2) by (simp add: ranges_ok_def)
  note push = push_range_props[OF Cons.prems(1) ne p(1)]
  have "\<forall>q\<in>set (built b). snd q \<le> fst p" using Cons.prems(4) by simp
  note app = append_range_props[OF Cons.prems(2) this p(1)]
  let ?b = "push_range b p"
  have "\<forall>q\<in>set (built ?b). \<forall>t\<in>set ps. snd q \<le> fst t" using app(4) p(2) push(2) by fastforce
  note IH = Cons.IH[OF push(1) _ p(3) this]
  have ok: "ranges_ok (built ?b)" using app(1) push(2) by simp
  have eq: "all_pushed b (p # ps) = all_pushed ?b ps" by (simp add: all_pushed_def)
  have counts: "builder_counts (all_pushed b (p # ps))" if c: "builder_counts b"
    and h: "(\<forall>q\<in>set (p # ps). range_size q = 1) \<or>
      length (built (all_pushed b (p # ps))) \<le> max_size * length (b_data b)"
  proof -
    have same: "length (b_data ?b) = length (b_data b)"
      if "length (built (all_pushed b (p # ps))) \<le> max_size * length (b_data b)"
      using push(3,5) IH[OF ok] that eq by (metis le_neq_implies_less le_trans not_le)
    have "range_size p = 1 \<or> length (b_data ?b) = length (b_data b)" using h same by auto
    then have "builder_counts ?b" using push(4)[OF c] by blast
    moreover have "(\<forall>q\<in>set ps. range_size q = 1) \<or> length (built (all_pushed ?b ps)) \<le> max_size * length (b_data ?b)"
      using h same eq by auto
    ultimately show ?thesis using IH[OF ok] eq by simp
  qed
  show ?case using IH[OF ok] push(2,3) app(2,3) eq counts by auto
qed (simp add: all_pushed_def)

lemma build_props:
  assumes "ascending ps"
  shows "ranges_ok (ranges (finalize_builder (all_pushed (new_builder s) ps)))"
    "iset_of (finalize_builder (all_pushed (new_builder s) ps)) = iset ps"
    "\<forall>c\<in>set (finalize_builder (all_pushed (new_builder s) ps)). chunk_ok c"
    "(\<forall>p\<in>set ps. range_size p = 1) \<or>
       length (ranges (finalize_builder (all_pushed (new_builder s) ps)))
         \<le> max_size * (length (ranges s) div max_size + 1) \<Longrightarrow>
     wf (finalize_builder (all_pushed (new_builder s) ps))"
  using all_pushed_props[OF new_builder_props(1)[of s], of ps] assms new_builder_props[of s]
    finalize_builder_props[of "all_pushed (new_builder s) ps"]
  by (simp_all add: iset_of_def wf_def)

lemma build_indexes:
  assumes "sorted_wrt (<) is"
  shows "wf (finalize_builder (all_pushed (new_builder s) (map one is)))"
    "iset_of (finalize_builder (all_pushed (new_builder s) (map one is))) = set is"
  using build_props[OF ascending_ones[OF assms], of s] by simp_all

section \<open>Merging whole sets\<close>

fun insert_merge :: "builder \<Rightarrow> nat \<Rightarrow> nat list \<Rightarrow> nat list \<Rightarrow> builder" where
  "insert_merge b sh (x # xs) (y # ys) =
     (if x + sh < y then insert_merge (push_index b (x + sh)) sh xs (y # ys)
      else insert_merge (push_index b y) (Suc sh) (x # xs) ys)"
| "insert_merge b sh xs [] = foldl (\<lambda>b x. push_index b (x + sh)) b xs"
| "insert_merge b sh [] ys = foldl push_index b ys"

definition insert_at_set :: "index_set \<Rightarrow> index_set \<Rightarrow> index_set" where
  "insert_at_set s positions =
     (if empty positions then s else if empty s then positions
      else finalize_builder (insert_merge (new_builder s) 0 (as_indexes s) (as_indexes positions)))"

fun shift_merge :: "builder \<Rightarrow> nat \<Rightarrow> nat list \<Rightarrow> nat list \<Rightarrow> builder" where
  "shift_merge b sh (x # xs) (y # ys) =
     (if x + sh < y then shift_merge (push_index b (x + sh)) sh xs (y # ys)
      else shift_merge b (Suc sh) (x # xs) ys)"
| "shift_merge b sh xs ys = foldl (\<lambda>b x. push_index b (x + sh)) b xs"

definition shift_for_insert_at_set :: "index_set \<Rightarrow> index_set \<Rightarrow> index_set" where
  "shift_for_insert_at_set s values =
     (if empty s \<or> empty values then s
      else if chunk_end (last s) \<le> chunk_begin (hd values) then s
      else finalize_builder (shift_merge (new_builder s) 0 (as_indexes s) (as_indexes values)))"

fun erase_merge :: "builder \<Rightarrow> nat \<Rightarrow> nat list \<Rightarrow> nat list \<Rightarrow> builder" where
  "erase_merge b sh (x # xs) (y # ys) =
     (if x < y then erase_merge (push_index b (x - sh)) sh xs (y # ys)
      else if x = y then erase_merge b (Suc sh) xs ys
      else erase_merge b (Suc sh) (x # xs) ys)"
| "erase_merge b sh xs ys = foldl (\<lambda>b x. push_index b (x - sh)) b xs"

definition erase_at_set :: "index_set \<Rightarrow> index_set \<Rightarrow> index_set" where
  "erase_at_set s positions =
     (if empty s \<or> empty positions then s
      else finalize_builder (erase_merge (new_builder s) 0 (as_indexes s) (as_indexes positions)))"

text \<open>The indexes each merge pushes, in order.\<close>

fun inserted_list :: "nat \<Rightarrow> nat list \<Rightarrow> nat list \<Rightarrow> nat list" where
  "inserted_list sh (x # xs) (y # ys) =
     (if x + sh < y then (x + sh) # inserted_list sh xs (y # ys) else y # inserted_list (Suc sh) (x # xs) ys)"
| "inserted_list sh xs [] = map (\<lambda>x. x + sh) xs"
| "inserted_list sh [] ys = ys"

fun shifted_list :: "nat \<Rightarrow> nat list \<Rightarrow> nat list \<Rightarrow> nat list" where
  "shifted_list sh (x # xs) (y # ys) =
     (if x + sh < y then (x + sh) # shifted_list sh xs (y # ys) else shifted_list (Suc sh) (x # xs) ys)"
| "shifted_list sh [] ys = []"
| "shifted_list sh xs [] = map (\<lambda>x. x + sh) xs"

fun erased_list :: "nat \<Rightarrow> nat list \<Rightarrow> nat list \<Rightarrow> nat list" where
  "erased_list sh (x # xs) (y # ys) =
     (if x < y then (x - sh) # erased_list sh xs (y # ys)
      else if x = y then erased_list (Suc sh) xs ys else erased_list (Suc sh) (x # xs) ys)"
| "erased_list sh [] ys = []"
| "erased_list sh xs [] = map (\<lambda>x. x - sh) xs"

lemma shifted_list_Nil [simp]: "shifted_list sh xs [] = map (\<lambda>x. x + sh) xs"
  by (cases xs) simp_all

lemma erased_list_Nil [simp]: "erased_list sh xs [] = map (\<lambda>x. x - sh) xs"
  by (cases xs) simp_all

lemma all_pushed_Cons: "all_pushed b (p # ps) = all_pushed (push_range b p) ps"
  by (simp add: all_pushed_def)

lemma all_pushed_Nil [simp]: "all_pushed b [] = b"
  by (simp add: all_pushed_def)

lemma all_pushed_one: "all_pushed b (one i # ps) = all_pushed (push_index b i) ps"
  by (simp add: all_pushed_Cons push_index_def one_def)

lemma foldl_push_index: "foldl (\<lambda>b x. push_index b (f x)) b xs = all_pushed b (map (one \<circ> f) xs)"
  by (induction xs arbitrary: b) (simp_all add: all_pushed_one)

lemma merge_pushes:
  "insert_merge b sh xs ys = all_pushed b (map one (inserted_list sh xs ys))"
  "shift_merge b sh xs ys = all_pushed b (map one (shifted_list sh xs ys))"
  "erase_merge b sh xs ys = all_pushed b (map one (erased_list sh xs ys))"
proof -
  show "insert_merge b sh xs ys = all_pushed b (map one (inserted_list sh xs ys))"
    by (induction b sh xs ys rule: insert_merge.induct)
      (use foldl_push_index[of "\<lambda>x. x"] in \<open>simp_all add: foldl_push_index all_pushed_one comp_def\<close>)
  show "shift_merge b sh xs ys = all_pushed b (map one (shifted_list sh xs ys))"
    by (induction b sh xs ys rule: shift_merge.induct) (simp_all add: foldl_push_index all_pushed_one)
  show "erase_merge b sh xs ys = all_pushed b (map one (erased_list sh xs ys))"
    by (induction b sh xs ys rule: erase_merge.induct) (simp_all add: foldl_push_index all_pushed_one)
qed

lemma shift_of_passed:
  \<comment> \<open>\<open>x\<close> lands at \<open>x + card D\<close> when exactly the positions in \<open>D\<close> are before it\<close>
  assumes "finite D" "\<forall>d\<in>D. d < x + card D" "\<forall>y\<in>E. x + card D < y"
  shows "shift_of (D \<union> E) x = x + card D"
proof (rule shift_of_eqI)
  show "x + card D \<notin> D \<union> E" using assms(2,3) by auto
  have "(D \<union> E) \<inter> {..<x + card D} = D" using assms(2,3) by (auto simp: less_le_not_le)
  then show "unshift_of (D \<union> E) (x + card D) = x" by (simp add: unshift_of_eq_diff)
qed

lemma unshift_of_passed:
  assumes "\<forall>d\<in>D. d < x" "\<forall>y\<in>E. x < y"
  shows "unshift_of (D \<union> E) x = x - card D"
proof -
  have "(D \<union> E) \<inter> {..<x} = D" using assms by (auto simp: less_le_not_le)
  then show ?thesis by (simp add: unshift_of_eq_diff)
qed

lemma inserted_list_above:
  "\<forall>x\<in>set xs. a < x + sh \<Longrightarrow> \<forall>y\<in>set ys. a < y \<Longrightarrow> z \<in> set (inserted_list sh xs ys) \<Longrightarrow> a < z"
  by (induction sh xs ys rule: inserted_list.induct) (auto split: if_splits simp: less_SucI)

lemma shifted_list_above:
  "\<forall>x\<in>set xs. a < x + sh \<Longrightarrow> z \<in> set (shifted_list sh xs ys) \<Longrightarrow> a < z"
  by (induction sh xs ys rule: shifted_list.induct) (auto split: if_splits simp: less_SucI)

text \<open>The positions \<open>D\<close> have been passed; \<open>ys\<close> are those to come.\<close>

definition passed :: "nat set \<Rightarrow> nat list \<Rightarrow> nat list \<Rightarrow> bool" where
  "passed D xs ys \<longleftrightarrow> finite D \<and> (\<forall>d\<in>D. \<forall>x\<in>set xs. d < x + card D) \<and> (\<forall>d\<in>D. \<forall>y\<in>set ys. d < y)"

lemma passed_Cons1: "passed D (x # xs) ys \<Longrightarrow> passed D xs ys"
  by (simp add: passed_def)

lemma passed_Cons2:
  assumes "passed D xs (y # ys)" "sorted_wrt (<) (y # ys)" "\<forall>x\<in>set xs. y \<le> x + card D"
  shows "passed (insert y D) xs ys" "card (insert y D) = Suc (card D)"
proof -
  have "y \<notin> D" using assms(1) by (auto simp: passed_def)
  then show c: "card (insert y D) = Suc (card D)" using assms(1) by (simp add: passed_def)
  show "passed (insert y D) xs ys" unfolding passed_def c
    using assms by (auto simp: passed_def less_Suc_eq_le intro: less_imp_le)
qed

lemma passed_lands:
  "passed D (x # xs) ys \<Longrightarrow> \<forall>y\<in>set ys. x + card D < y \<Longrightarrow> shift_of (D \<union> set ys) x = x + card D"
  by (intro shift_of_passed) (auto simp: passed_def)

lemma inserted_list_props:
  assumes "sorted_wrt (<) xs" "sorted_wrt (<) ys" "sh = card D" "passed D xs ys"
  shows "set (inserted_list sh xs ys) = set ys \<union> shift_of (D \<union> set ys) ` set xs \<and>
    sorted_wrt (<) (inserted_list sh xs ys)"
  using assms
proof (induction sh xs ys arbitrary: D rule: inserted_list.induct)
  case (1 sh x xs y ys)
  show ?case
  proof (cases "x + sh < y")
    case True
    have IH: "set (inserted_list sh xs (y # ys)) = set (y # ys) \<union> shift_of (D \<union> set (y # ys)) ` set xs \<and>
      sorted_wrt (<) (inserted_list sh xs (y # ys))"
      using "1.prems" passed_Cons1 by (intro "1.IH"(1)[OF True]) simp_all
    have "shift_of (D \<union> set (y # ys)) x = x + sh"
      using "1.prems" True passed_lands[of D x xs "y # ys"] by fastforce
    moreover have "\<forall>z\<in>set (inserted_list sh xs (y # ys)). x + sh < z"
      using inserted_list_above[of xs "x + sh" sh "y # ys"] "1.prems"(1,2) True by fastforce
    ultimately show ?thesis using IH True by simp
  next
    case False
    note p = passed_Cons2[OF "1.prems"(4,2)]
    have le: "\<forall>z\<in>set (x # xs). y \<le> z + card D" using "1.prems"(1,3) False by fastforce
    have IH: "set (inserted_list (Suc sh) (x # xs) ys) =
        set ys \<union> shift_of (insert y D \<union> set ys) ` set (x # xs) \<and>
      sorted_wrt (<) (inserted_list (Suc sh) (x # xs) ys)"
      using "1.prems" p[OF le] by (intro "1.IH"(2)[OF False]) simp_all
    have "\<forall>z\<in>set (inserted_list (Suc sh) (x # xs) ys). y < z"
      using inserted_list_above[of "x # xs" y "Suc sh" ys] "1.prems"(2,3) le by (auto simp: less_Suc_eq_le)
    then show ?thesis using IH False by (simp add: insert_commute)
  qed
next
  case (2 sh xs)
  have "shift_of D x = x + sh" if "x \<in> set xs" for x
    using shift_of_passed[of D x "{}"] that 2 by (auto simp: passed_def)
  then show ?case using 2(1) by (auto simp: sorted_wrt_map)
next
  case (3 sh v va)
  then show ?case by simp
qed

lemma shifted_list_props:
  assumes "sorted_wrt (<) xs" "sorted_wrt (<) ys" "sh = card D" "passed D xs ys"
  shows "set (shifted_list sh xs ys) = shift_of (D \<union> set ys) ` set xs \<and> sorted_wrt (<) (shifted_list sh xs ys)"
  using assms
proof (induction sh xs ys arbitrary: D rule: shifted_list.induct)
  case (1 sh x xs y ys)
  show ?case
  proof (cases "x + sh < y")
    case True
    have IH: "set (shifted_list sh xs (y # ys)) = shift_of (D \<union> set (y # ys)) ` set xs \<and>
      sorted_wrt (<) (shifted_list sh xs (y # ys))"
      using "1.prems" passed_Cons1 by (intro "1.IH"(1)[OF True]) simp_all
    have "shift_of (D \<union> set (y # ys)) x = x + sh"
      using "1.prems" True passed_lands[of D x xs "y # ys"] by fastforce
    moreover have "\<forall>z\<in>set (shifted_list sh xs (y # ys)). x + sh < z"
      using shifted_list_above[of xs "x + sh" sh _ "y # ys"] "1.prems"(1) by fastforce
    ultimately show ?thesis using IH True by simp
  next
    case False
    note p = passed_Cons2[OF "1.prems"(4,2)]
    have le: "\<forall>z\<in>set (x # xs). y \<le> z + card D" using "1.prems"(1,3) False by fastforce
    have IH: "set (shifted_list (Suc sh) (x # xs) ys) = shift_of (insert y D \<union> set ys) ` set (x # xs) \<and>
      sorted_wrt (<) (shifted_list (Suc sh) (x # xs) ys)"
      using "1.prems" p[OF le] by (intro "1.IH"(2)[OF False]) simp_all
    then show ?thesis using False by simp
  qed
next
  case (2 sh ys)
  then show ?case by simp
next
  case (3 sh x xs)
  have *: "shift_of D z = z + sh" if "z \<in> set (x # xs)" for z
    using shift_of_passed[of D z "{}"] that 3 by (auto simp: passed_def)
  then show ?case using 3(1) by (auto simp: sorted_wrt_map)
qed

lemma erased_list_props:
  assumes "sorted_wrt (<) xs" "sorted_wrt (<) ys" "sh = card D" "finite D"
    "\<forall>d\<in>D. (\<forall>x\<in>set xs. d < x) \<and> (\<forall>y\<in>set ys. d < y)"
  shows "erased_list sh xs ys = map (unshift_of (D \<union> set ys)) (filter (\<lambda>x. x \<notin> set ys) xs)"
  using assms
proof (induction sh xs ys arbitrary: D rule: erased_list.induct)
  case (1 sh x xs y ys)
  consider "x < y" | "x = y" | "y < x" by linarith
  then show ?case
  proof cases
    case 1
    have "unshift_of (D \<union> set (y # ys)) x = x - sh"
      using "1.prems" 1 by (subst unshift_of_passed) auto
    moreover have "x \<notin> set (y # ys)" using "1.prems"(2) 1 by auto
    moreover have "erased_list sh xs (y # ys) =
        map (unshift_of (D \<union> set (y # ys))) (filter (\<lambda>x. x \<notin> set (y # ys)) xs)"
      using "1.prems" by (intro "1.IH"(1)[OF 1]) auto
    ultimately show ?thesis using 1 by simp
  next
    case 2
    have y: "card (insert y D) = Suc (card D)" using "1.prems" by (subst card_insert_disjoint) auto
    have "erased_list (Suc sh) xs ys =
        map (unshift_of (insert y D \<union> set ys)) (filter (\<lambda>x. x \<notin> set ys) xs)"
      using "1.prems" 2 y by (intro "1.IH"(2)) auto
    moreover have "filter (\<lambda>z. z \<notin> set (y # ys)) (x # xs) = filter (\<lambda>z. z \<notin> set ys) xs"
      using "1.prems"(1) 2 by (auto intro!: filter_cong)
    ultimately show ?thesis using 2 by simp
  next
    case 3
    have y: "card (insert y D) = Suc (card D)" using "1.prems" by (subst card_insert_disjoint) auto
    have "erased_list (Suc sh) (x # xs) ys =
        map (unshift_of (insert y D \<union> set ys)) (filter (\<lambda>x. x \<notin> set ys) (x # xs))"
      using "1.prems" 3 y by (intro "1.IH"(3)) auto
    moreover have "filter (\<lambda>z. z \<notin> set (y # ys)) (x # xs) = filter (\<lambda>z. z \<notin> set ys) (x # xs)"
      using "1.prems"(1) 3 by (auto intro!: filter_cong)
    ultimately show ?thesis using 3 by simp
  qed
next
  case (2 sh ys)
  then show ?case by simp
next
  case (3 sh x xs)
  have *: "unshift_of D z = z - sh" if "z \<in> set (x # xs)" for z
    using unshift_of_passed[of D z "{}"] that 3 by auto
  then show ?case by simp
qed

lemma sorted_as_indexes: "wf s \<Longrightarrow> sorted_wrt (<) (as_indexes s)"
  by (simp add: as_indexes_def wf_def sorted_wrt_indexes)

lemma shift_of_empty [simp]: "shift_of {} x = x"
  using shift_of_passed[of "{}" x "{}"] by simp

lemma insert_at_set_props:
  assumes "wf s" "wf positions"
  shows "wf (insert_at_set s positions)"
    "iset_of (insert_at_set s positions) = iset_of positions \<union> shift_of (iset_of positions) ` iset_of s"
proof -
  note l = inserted_list_props[OF sorted_as_indexes[OF assms(1)] sorted_as_indexes[OF assms(2)], of 0 "{}"]
  have "wf (insert_at_set s positions) \<and>
    iset_of (insert_at_set s positions) = iset_of positions \<union> shift_of (iset_of positions) ` iset_of s"
    using assms l build_indexes[of "inserted_list 0 (as_indexes s) (as_indexes positions)" s]
      empty_iff[OF assms(1)] empty_iff[OF assms(2)]
    by (auto simp: insert_at_set_def merge_pushes(1) set_as_indexes passed_def)
  then show "wf (insert_at_set s positions)"
    "iset_of (insert_at_set s positions) = iset_of positions \<union> shift_of (iset_of positions) ` iset_of s" by auto
qed

lemma shift_of_below: "finite S \<Longrightarrow> \<forall>y\<in>S. x < y \<Longrightarrow> shift_of S x = x"
  using shift_of_passed[of "{}" x S] by simp

lemma last_chunk_end:
  assumes "wf s" "s \<noteq> []" "x \<in> iset_of s"
  shows "x < chunk_end (last s)" "chunk_begin (hd s) \<le> x"
proof -
  obtain r where r: "r \<in> set (ranges s)" "fst r \<le> x" "x < snd r" using assms(3) by (auto simp: iset_of_def mem_iset)
  have ok: "ranges_ok (ranges s)" and m: "meta_ok s" using assms(1) by (auto simp: wf_def)
  have ne: "ranges s \<noteq> []" using ranges_eq_Nil_iff[OF m] assms(2) by simp
  have lc: "chunk_ok (last s)" and hc: "chunk_ok (hd s)" using m assms(2) by (auto simp: meta_ok_def)
  have "ranges s = ranges (butlast s) @ chunk_data (last s)"
    using assms(2) by (metis append_butlast_last_id append_self_conv ranges_Cons ranges_Nil ranges_append)
  then have l: "snd (last (ranges s)) = chunk_end (last s)" using lc by (simp add: chunk_ok_def)
  have h: "fst (hd (ranges s)) = chunk_begin (hd s)" using hc assms(2) by (cases s) (auto simp: chunk_ok_def)
  obtain i where i: "i < length (ranges s)" "r = ranges s ! i" using r(1) by (auto simp: in_set_conv_nth)
  have "snd r \<le> snd (last (ranges s))"
    using ranges_ok_nth_mono(1)[OF ok, of i "length (ranges s) - 1"] i ne by (simp add: last_conv_nth)
  then show "x < chunk_end (last s)" using r(3) l by simp
  have "fst (hd (ranges s)) \<le> fst r" using ranges_ok_nth_mono(2)[OF ok, of 0 i] i ne by (simp add: hd_conv_nth)
  then show "chunk_begin (hd s) \<le> x" using r(2) h by simp
qed

lemma shift_for_insert_at_set_props:
  assumes "wf s" "wf values"
  shows "wf (shift_for_insert_at_set s values)"
    "iset_of (shift_for_insert_at_set s values) = shift_of (iset_of values) ` iset_of s"
proof -
  note l = shifted_list_props[OF sorted_as_indexes[OF assms(1)] sorted_as_indexes[OF assms(2)], of 0 "{}"]
  have far: "shift_of (iset_of values) ` iset_of s = iset_of s"
    if "s \<noteq> []" "values \<noteq> []" "chunk_end (last s) \<le> chunk_begin (hd values)"
  proof -
    have "shift_of (iset_of values) x = x" if x: "x \<in> iset_of s" for x
    proof (rule shift_of_below)
      show "\<forall>y\<in>iset_of values. x < y"
        using last_chunk_end(1)[OF assms(1) \<open>s \<noteq> []\<close> x] last_chunk_end(2)[OF assms(2) \<open>values \<noteq> []\<close>]
          \<open>chunk_end (last s) \<le> chunk_begin (hd values)\<close> by fastforce
    qed simp
    then show ?thesis by simp
  qed
  have "wf (shift_for_insert_at_set s values) \<and>
    iset_of (shift_for_insert_at_set s values) = shift_of (iset_of values) ` iset_of s"
    using assms l build_indexes[of "shifted_list 0 (as_indexes s) (as_indexes values)" s]
      empty_iff[OF assms(1)] empty_iff[OF assms(2)] far
    by (auto simp: shift_for_insert_at_set_def merge_pushes(2) set_as_indexes passed_def empty_def)
  then show "wf (shift_for_insert_at_set s values)"
    "iset_of (shift_for_insert_at_set s values) = shift_of (iset_of values) ` iset_of s" by auto
qed

lemma erase_at_set_props:
  assumes "wf s" "wf positions"
  shows "wf (erase_at_set s positions)"
    "iset_of (erase_at_set s positions) = unshift_of (iset_of positions) ` (iset_of s - iset_of positions)"
proof -
  let ?U = "unshift_of (iset_of positions)"
  let ?l = "erased_list 0 (as_indexes s) (as_indexes positions)"
  have l: "?l = map ?U (filter (\<lambda>x. x \<notin> iset_of positions) (as_indexes s))"
    using erased_list_props[OF sorted_as_indexes[OF assms(1)] sorted_as_indexes[OF assms(2)], of 0 "{}"]
    by (simp add: set_as_indexes)
  have "sorted_wrt (<) (filter (\<lambda>x. x \<notin> iset_of positions) (as_indexes s))"
    using sorted_as_indexes[OF assms(1)] by (rule sorted_wrt_filter)
  then have s: "sorted_wrt (<) ?l" unfolding l sorted_wrt_map
    by (rule sorted_wrt_mono_rel[rotated]) (simp add: unshift_of_strict)
  have st: "set ?l = ?U ` (iset_of s - iset_of positions)" unfolding l by (auto simp: set_as_indexes)
  have "wf (erase_at_set s positions) \<and> iset_of (erase_at_set s positions) = ?U ` (iset_of s - iset_of positions)"
    using assms build_indexes[OF s, of s] st empty_iff[OF assms(1)] empty_iff[OF assms(2)]
    by (auto simp: erase_at_set_def merge_pushes(3) unshift_of_eq_diff)
  then show "wf (erase_at_set s positions)" "iset_of (erase_at_set s positions) = ?U ` (iset_of s - iset_of positions)"
    by auto
qed

section \<open>Adding shifted values\<close>

fun skip_shifted_by :: "nat \<Rightarrow> index_range list \<Rightarrow> nat \<Rightarrow> nat \<Rightarrow> index_range list \<times> nat \<times> nat" where
  "skip_shifted_by index [] new_shift skip_until = ([], new_shift, skip_until)"
| "skip_shifted_by index (r # rs) new_shift skip_until =
     (if fst r \<le> index then skip_shifted_by index rs (new_shift + (snd r - fst r)) (snd r)
      else (r # rs, new_shift, skip_until))"

fun push_old :: "nat \<Rightarrow> builder \<Rightarrow> index_range list \<Rightarrow> nat \<Rightarrow> builder \<times> index_range list \<times> nat" where
  "push_old i b [] old_shift = (b, [], old_shift)"
| "push_old i b (r # rs) old_shift =
     (if fst r \<le> i + old_shift
      then push_old i (foldl push_index b [fst r..<snd r]) rs (old_shift + (snd r - fst r))
      else (b, r # rs, old_shift))"

fun add_shifted_values ::
    "builder \<Rightarrow> index_range list \<Rightarrow> index_range list \<Rightarrow> nat \<Rightarrow> nat \<Rightarrow> nat \<Rightarrow> nat list \<Rightarrow> builder option" where
  "add_shifted_values b shift_it old_it skip_until old_shift new_shift [] = Some (foldl push_range b old_it)"
| "add_shifted_values b shift_it old_it skip_until old_shift new_shift (index # values) =
     (let (shift_it, new_shift, skip_until) = skip_shifted_by index shift_it new_shift skip_until in
      if index < skip_until then add_shifted_values b shift_it old_it skip_until old_shift new_shift values
      else
        let (b, old_it, old_shift) = push_old (index - new_shift) b old_it old_shift in
        do {
          realm_assert (new_shift \<le> index);
          add_shifted_values (push_index b (index - new_shift + old_shift)) shift_it old_it
            skip_until old_shift new_shift values
        })"

definition add_shifted_by :: "index_set \<Rightarrow> index_set \<Rightarrow> index_set \<Rightarrow> index_set option" where
  "add_shifted_by s shifted_by values =
     (if empty values then Some s
      else map_option finalize_builder
        (add_shifted_values (new_builder s) (ranges shifted_by) (ranges s) 0 0 0 (as_indexes values)))"

lemma skip_shifted_by_props:
  assumes "skip_shifted_by index bs nsh skip = (bs', nsh', skip')" "ranges_ok (pb @ bs)"
    "nsh = ranges_size pb" "skip = (if pb = [] then 0 else snd (last pb))" "\<forall>r\<in>set pb. fst r \<le> index"
  shows "\<exists>pb'. pb @ bs = pb' @ bs' \<and> nsh' = ranges_size pb' \<and>
    skip' = (if pb' = [] then 0 else snd (last pb')) \<and> (\<forall>r\<in>set pb'. fst r \<le> index) \<and>
    (\<forall>r\<in>set bs'. index < fst r)"
  using assms
proof (induction index bs nsh skip arbitrary: pb rule: skip_shifted_by.induct)
  case (2 index r rs nsh skip)
  show ?case
  proof (cases "fst r \<le> index")
    case True
    have "skip_shifted_by index rs (nsh + (snd r - fst r)) (snd r) = (bs', nsh', skip')"
      using True "2.prems"(1) by simp
    then have "\<exists>pb'. (pb @ [r]) @ rs = pb' @ bs' \<and> nsh' = ranges_size pb' \<and>
      skip' = (if pb' = [] then 0 else snd (last pb')) \<and> (\<forall>r\<in>set pb'. fst r \<le> index) \<and>
      (\<forall>r\<in>set bs'. index < fst r)"
      by (rule "2.IH"[OF True]) (use True "2.prems"(2-5) in \<open>simp_all add: range_size_def\<close>)
    then show ?thesis by simp
  next
    case False
    then have "\<forall>q\<in>set (r # rs). index < fst q" using "2.prems"(2) by (fastforce simp: ranges_ok_append ranges_ok_Cons)
    then show ?thesis using False "2.prems" by (intro exI[of _ pb]) auto
  qed
qed auto

lemma skipped_unshift:
  assumes ok: "ranges_ok (pb @ bs)" and "\<forall>r\<in>set pb. fst r \<le> index" and bs: "\<forall>r\<in>set bs. index < fst r"
    and skip: "skip = (if pb = [] then 0 else snd (last pb))"
  shows "index < skip \<longleftrightarrow> index \<in> iset (pb @ bs)"
    "skip \<le> index \<Longrightarrow> unshift_of (iset (pb @ bs)) index = index - ranges_size pb"
    "skip \<le> index \<Longrightarrow> ranges_size pb \<le> index"
proof -
  have nbs: "index \<notin> iset bs" using bs by (fastforce simp: mem_iset)
  have mem: "index < skip \<longleftrightarrow> index \<in> iset pb"
  proof (cases pb rule: rev_cases)
    case (snoc zs q)
    have "snd p < fst q" if "p \<in> set zs" for p using that ok snoc by (auto simp: ranges_ok_append)
    then have "index \<notin> iset zs" using assms(2) snoc by (fastforce simp: mem_iset)
    then show ?thesis using assms(2) skip snoc by auto
  qed (simp add: skip)
  then show "index < skip \<longleftrightarrow> index \<in> iset (pb @ bs)" using nbs by simp
  assume "skip \<le> index"
  then have "index \<notin> iset pb" using mem by simp
  then have le: "\<forall>r\<in>set pb. snd r \<le> index" using assms(2) by (force simp: mem_iset)
  have "bs = [] \<or> index \<le> fst (hd bs)" using bs by (cases bs) auto
  then have c: "card (iset (pb @ bs) \<inter> {..<index}) = ranges_size pb"
    using card_prefix[OF ok le] bs ranges_ok_nonempty[OF ok, of "hd bs"] by (cases bs) auto
  then show "unshift_of (iset (pb @ bs)) index = index - ranges_size pb" by (simp add: unshift_of_eq_diff)
  show "ranges_size pb \<le> index" using unshift_of_card[of "iset (pb @ bs)" index] c by simp
qed

lemma push_old_props:
  assumes "push_old i b ss osh = (b', ss', osh')"
  shows "\<exists>ts. ss = ts @ ss' \<and> b' = all_pushed b (map one (indexes ts)) \<and> osh' = osh + ranges_size ts \<and>
    (\<forall>r\<in>set ts. snd r \<le> i + osh') \<and> (ss' = [] \<or> i + osh' < fst (hd ss'))"
  using assms
proof (induction i b ss osh rule: push_old.induct)
  case (2 i b r rs osh)
  show ?case
  proof (cases "fst r \<le> i + osh")
    case True
    obtain ts where "rs = ts @ ss'" "b' = all_pushed (foldl push_index b [fst r..<snd r]) (map one (indexes ts))"
      "osh' = osh + (snd r - fst r) + ranges_size ts" "\<forall>r\<in>set ts. snd r \<le> i + osh'"
      "ss' = [] \<or> i + osh' < fst (hd ss')"
      using "2.IH"[OF True] "2.prems" True by auto
    then show ?thesis using True foldl_push_index[of "\<lambda>x. x" b]
      by (intro exI[of _ "r # ts"]) (auto simp: range_size_def all_pushed_append comp_def)
  next
    case False
    then show ?thesis using "2.prems" by (intro exI[of _ "[]"]) auto
  qed
qed auto

text \<open>The values that are not shifted out, at the positions they had before the shift.\<close>

definition unshifted_values :: "nat set \<Rightarrow> nat set \<Rightarrow> nat set \<Rightarrow> nat set" where
  "unshifted_values S B V = (\<lambda>v. shift_of S (unshift_of B v)) ` (V - B)"

lemma unshifted_values_insert:
  "v \<notin> B \<Longrightarrow> unshifted_values S B (insert v V) =
     insert (shift_of S (unshift_of B v)) (unshifted_values S B V)"
  by (auto simp: unshifted_values_def)

definition pushes_for :: "builder \<Rightarrow> nat set \<Rightarrow> builder \<Rightarrow> bool" where
  "pushes_for b T b' \<longleftrightarrow> (\<exists>ps. b' = all_pushed b ps \<and> ascending ps \<and> iset ps = T)"

lemma ascending_fst_mem: "ascending ps \<Longrightarrow> p \<in> set ps \<Longrightarrow> fst p \<in> iset ps"
  by (force simp: ascending_def mem_iset)

lemma pushes_for_before:
  assumes "pushes_for (all_pushed b qs) T b'" "ascending qs" "\<And>q t. q \<in> set qs \<Longrightarrow> t \<in> T \<Longrightarrow> snd q \<le> t"
  shows "pushes_for b (iset qs \<union> T) b'"
proof -
  obtain ps where ps: "b' = all_pushed (all_pushed b qs) ps" "ascending ps" "iset ps = T"
    using assms(1) by (auto simp: pushes_for_def)
  have "snd q \<le> fst p" if "q \<in> set qs" "p \<in> set ps" for q p
    using assms(3)[of q "fst p"] ascending_fst_mem[OF ps(2)] that ps(3) by simp
  then show ?thesis unfolding pushes_for_def using ps assms(2)
    by (intro exI[of _ "qs @ ps"]) (auto simp: all_pushed_append ascending_append)
qed

lemma add_shifted_values_props:
  assumes "sorted_wrt (<) vs" "ranges_ok (pb @ bs)" "ranges_ok (done @ ss)"
    "nsh = ranges_size pb" "skip = (if pb = [] then 0 else snd (last pb))" "\<forall>v\<in>set vs. \<forall>r\<in>set pb. fst r \<le> v"
    "osh = ranges_size done"
    "\<forall>v\<in>set vs - iset (pb @ bs). \<forall>r\<in>set done. snd r \<le> unshift_of (iset (pb @ bs)) v + osh"
  shows "returns (add_shifted_values b bs ss skip osh nsh vs)
    (pushes_for b (iset ss \<union> unshifted_values (iset (done @ ss)) (iset (pb @ bs)) (set vs)))"
  using assms
proof (induction vs arbitrary: b pb bs "done" ss nsh skip osh)
  case Nil
  then have "ascending ss" by (simp add: ranges_ok_append ranges_ok_ascending)
  then show ?case by (auto simp: pushes_for_def unshifted_values_def all_pushed_def)
next
  case (Cons v vs)
  let ?B = "iset (pb @ bs)" and ?S = "iset (done @ ss)"
  obtain bs' nsh' skip' where e: "skip_shifted_by v bs nsh skip = (bs', nsh', skip')"
    by (cases "skip_shifted_by v bs nsh skip")
  obtain pb' where pb': "pb @ bs = pb' @ bs'" "nsh' = ranges_size pb'" "skip' = (if pb' = [] then 0 else snd (last pb'))"
      "\<forall>r\<in>set pb'. fst r \<le> v" "\<forall>r\<in>set bs'. v < fst r"
    using skip_shifted_by_props[OF e Cons.prems(2,4,5)] Cons.prems(6) by auto
  have ok': "ranges_ok (pb' @ bs')" using Cons.prems(2) pb'(1) by simp
  note u = skipped_unshift[OF ok' pb'(4,5,3)]
  have pb_vs: "\<forall>w\<in>set vs. \<forall>r\<in>set pb'. fst r \<le> w" using pb'(4) Cons.prems(1) by fastforce
  have vs: "sorted_wrt (<) vs" "\<forall>w\<in>set vs. v < w" using Cons.prems(1) by auto
  show ?case
  proof (cases "v < skip'")
    case True
    then have "v \<in> ?B" using u(1) pb'(1) by simp
    then have "unshifted_values ?S ?B (set (v # vs)) = unshifted_values ?S ?B (set vs)"
      by (auto simp: unshifted_values_def)
    moreover have "returns (add_shifted_values b bs' ss skip' osh nsh' vs)
        (pushes_for b (iset ss \<union> unshifted_values ?S (iset (pb' @ bs')) (set vs)))"
      by (rule Cons.IH[OF vs(1) ok' Cons.prems(3) pb'(2,3) pb_vs Cons.prems(7)])
        (use Cons.prems(8) pb'(1) in auto)
    ultimately show ?thesis using True e pb'(1) by simp
  next
    case False
    then have v: "v \<notin> ?B" "unshift_of ?B v = v - nsh'" "nsh' \<le> v" using u pb'(1,2) by simp_all
    obtain b1 ss' osh' where e2: "push_old (v - nsh') b ss osh = (b1, ss', osh')"
      by (cases "push_old (v - nsh') b ss osh")
    obtain ts where ts: "ss = ts @ ss'" "b1 = all_pushed b (map one (indexes ts))" "osh' = osh + ranges_size ts"
        "\<forall>r\<in>set ts. snd r \<le> v - nsh' + osh'" "ss' = [] \<or> v - nsh' + osh' < fst (hd ss')"
      using push_old_props[OF e2] by blast
    let ?x = "v - nsh' + osh'"
    have S: "?S = iset (done @ ts) \<union> iset ss'" and ok_s: "ranges_ok ((done @ ts) @ ss')" "ranges_ok ts"
      using ts(1) Cons.prems(3) by (auto simp: ranges_ok_append)
    have "\<forall>r\<in>set done. snd r \<le> v - nsh' + osh" using bspec[OF Cons.prems(8), of v] v(1,2) by simp
    then have below: "\<forall>r\<in>set (done @ ts). snd r \<le> ?x" using ts(3,4) by fastforce
    have above: "?x < y" if "y \<in> iset ss'" for y
      using that ts(5) ok_s(1) by (cases ss') (fastforce simp: mem_iset ranges_ok_append ranges_ok_Cons)+
    have c: "card (iset (done @ ts)) = osh'"
      using card_iset[of "done @ ts"] ok_s(1) Cons.prems(7) ts(3) by (simp add: ranges_ok_append)
    have x: "shift_of ?S (unshift_of ?B v) = ?x"
      using shift_of_passed[of "iset (done @ ts)" "v - nsh'" "iset ss'"] iset_below[OF below] above c S v(2) by simp
    have mono: "unshift_of ?B v < unshift_of ?B w" if "w \<in> set vs" for w
      using unshift_of_strict[of v w ?B] v(1) vs(2) that by simp
    let ?T = "iset ss' \<union> unshifted_values ?S ?B (set vs)"
    have T: "?x < y" if y: "y \<in> ?T" for y
    proof (cases "y \<in> iset ss'")
      case False
      then have "y \<in> unshifted_values ?S ?B (set vs)" using y by blast
      then obtain w where "w \<in> set vs" "y = shift_of ?S (unshift_of ?B w)"
        unfolding unshifted_values_def by blast
      then show ?thesis using mono[of w] shift_of_less_iff[of ?S] x by (metis finite_iset)
    qed (use above in simp)
    have IH: "returns (add_shifted_values (push_index b1 ?x) bs' ss' skip' osh' nsh' vs)
        (pushes_for (push_index b1 ?x) (iset ss' \<union> unshifted_values (iset ((done @ ts) @ ss')) (iset (pb' @ bs')) (set vs)))"
    proof (rule Cons.IH[OF vs(1) ok' ok_s(1) pb'(2,3) pb_vs])
      show "osh' = ranges_size (done @ ts)" using Cons.prems(7) ts(3) by simp
      show "\<forall>w\<in>set vs - iset (pb' @ bs'). \<forall>r\<in>set (done @ ts). snd r \<le> unshift_of (iset (pb' @ bs')) w + osh'"
        using below mono pb'(1) v(2) by fastforce
    qed
    let ?qs = "map one (indexes ts) @ [one ?x]"
    have step: "pushes_for b (iset ?qs \<union> ?T) b'" if "pushes_for (push_index b1 ?x) ?T b'" for b'
    proof (rule pushes_for_before)
      show "pushes_for (all_pushed b ?qs) ?T b'"
        using that ts(2) by (simp add: all_pushed_append push_index_pushed)
      show "ascending ?qs"
        using ascending_ones[OF sorted_wrt_indexes[OF ok_s(2)]] iset_below[of ts ?x] ts(4)
        by (auto simp: ascending_append ascending_Cons Suc_le_eq)
      show "snd q \<le> t" if "q \<in> set ?qs" "t \<in> ?T" for q t
        using that T[OF that(2)] iset_below[of ts ?x] ts(4) by fastforce
    qed
    have "iset ?qs \<union> ?T = iset ss \<union> unshifted_values ?S ?B (set (v # vs))"
      unfolding list.set(2) unshifted_values_insert[OF v(1)] x using ts(1) by auto
    then show ?thesis
      using returns_mono[OF IH step] False e e2 v(3) S pb'(1) ts(1) by simp
  qed
qed

lemma add_shifted_by_props:
  assumes "wf s" "wf shifted_by" "wf values"
  shows "returns (add_shifted_by s shifted_by values) (\<lambda>s'.
    iset_of s' = iset_of s \<union> unshifted_values (iset_of s) (iset_of shifted_by) (iset_of values) \<and>
    ranges_ok (ranges s') \<and>
    (length (ranges s') \<le> max_size * (length (ranges s) div max_size + 1) \<longrightarrow> wf s'))"
proof (cases "values = []")
  case True
  then show ?thesis using assms(1) by (simp add: add_shifted_by_def empty_def unshifted_values_def iset_of_def wf_def)
next
  case False
  have "returns (add_shifted_values (new_builder s) (ranges shifted_by) (ranges s) 0 0 0 (as_indexes values))
    (pushes_for (new_builder s) (iset (ranges s) \<union>
      unshifted_values (iset ([] @ ranges s)) (iset ([] @ ranges shifted_by)) (set (as_indexes values))))"
    by (rule add_shifted_values_props) (use assms sorted_as_indexes in \<open>auto simp: wf_def\<close>)
  then show ?thesis
    using False build_props[of _ s]
    by (auto simp: add_shifted_by_def empty_def pushes_for_def set_as_indexes iset_of_def elim!: returns_mono)
qed

section \<open>Room in the builder\<close>

text \<open>
  The number of ranges is determined by the set, one for each index whose predecessor is not
  in it; so adding values needs at most one range more for each.
\<close>

definition starts :: "nat set \<Rightarrow> nat set" where
  "starts S = {x \<in> S. x = 0 \<or> x - 1 \<notin> S}"

lemma starts_ranges: "ranges_ok rs \<Longrightarrow> starts (iset rs) = fst ` set rs"
proof
  assume ok: "ranges_ok rs"
  have iff: "x \<in> iset rs \<longleftrightarrow> (\<exists>r\<in>set rs. fst r \<le> x \<and> x < snd r)" for x by (rule mem_iset)
  have disj: "r = q" if "r \<in> set rs" "q \<in> set rs" "fst q \<le> snd r" "fst r \<le> snd q" for r q
  proof -
    obtain i j where "i < length rs" "r = rs ! i" "j < length rs" "q = rs ! j"
      using \<open>r \<in> set rs\<close> \<open>q \<in> set rs\<close> by (auto simp: in_set_conv_nth)
    then show ?thesis
      using ranges_ok_nth_gap[OF ok, of i j] ranges_ok_nth_gap[OF ok, of j i] that(3,4)
      by (cases i j rule: linorder_cases) auto
  qed
  show "starts (iset rs) \<subseteq> fst ` set rs"
  proof
    fix x assume x: "x \<in> starts (iset rs)"
    then obtain r where r: "r \<in> set rs" "fst r \<le> x" "x < snd r" by (auto simp: starts_def iff)
    have "fst r = x"
    proof (rule ccontr)
      assume "fst r \<noteq> x"
      then have "x - 1 \<in> iset rs" "x \<noteq> 0" using r by (auto simp: iff intro!: bexI[of _ r])
      then show False using x by (auto simp: starts_def)
    qed
    then show "x \<in> fst ` set rs" using r(1) by auto
  qed
  show "fst ` set rs \<subseteq> starts (iset rs)"
  proof
    fix x assume "x \<in> fst ` set rs"
    then obtain r where r: "r \<in> set rs" "x = fst r" by auto
    have "fst r < snd r" using ok r by (simp add: ranges_ok_nonempty)
    then have "x \<in> iset rs" using r by (auto simp: iff)
    moreover have "x - 1 \<notin> iset rs" if "x \<noteq> 0"
    proof
      assume "x - 1 \<in> iset rs"
      then obtain q where q: "q \<in> set rs" "fst q \<le> x - 1" "x - 1 < snd q" by (auto simp: iff)
      then have "q = r" using disj[of q r] r that \<open>fst r < snd r\<close> by auto
      then show False using q(2) r(2) that by simp
    qed
    ultimately show "x \<in> starts (iset rs)" by (auto simp: starts_def)
  qed
qed

lemma length_ranges_starts:
  assumes "ranges_ok rs"
  shows "length rs = card (starts (iset rs))"
proof -
  have "distinct (map fst rs)"
    using assms by (induction rs) (force simp: ranges_ok_Cons)+
  then have "card (set (map fst rs)) = length (map fst rs)" by (rule distinct_card)
  then show ?thesis by (simp add: starts_ranges[OF assms])
qed

lemma starts_Un: "finite S \<Longrightarrow> finite T \<Longrightarrow> card (starts (S \<union> T)) \<le> card (starts S) + card T"
proof -
  assume f: "finite S" "finite T"
  have "starts (S \<union> T) \<subseteq> starts S \<union> T" by (auto simp: starts_def)
  then have "card (starts (S \<union> T)) \<le> card (starts S \<union> T)" using f by (intro card_mono) (auto simp: starts_def)
  also have "\<dots> \<le> card (starts S) + card T" by (rule card_Un_le)
  finally show ?thesis .
qed

text \<open>\<open>add_shifted_by\<close> has room when the ranges of the result fit into the chunks it allocates.\<close>

definition add_room :: "index_set \<Rightarrow> index_set \<Rightarrow> bool" where
  "add_room s values \<longleftrightarrow>
     length (ranges s) + card (iset_of values) \<le> max_size * (length (ranges s) div max_size + 1)"

lemma add_shifted_by_room:
  assumes "wf s" "wf shifted_by" "wf values" "add_room s values"
  shows "returns (add_shifted_by s shifted_by values) (\<lambda>s'. wf s' \<and>
    iset_of s' = iset_of s \<union> unshifted_values (iset_of s) (iset_of shifted_by) (iset_of values))"
proof (rule returns_mono[OF add_shifted_by_props[OF assms(1-3)]])
  let ?V = "unshifted_values (iset_of s) (iset_of shifted_by) (iset_of values)"
  fix s' assume s': "iset_of s' = iset_of s \<union> ?V \<and> ranges_ok (ranges s') \<and>
    (length (ranges s') \<le> max_size * (length (ranges s) div max_size + 1) \<longrightarrow> wf s')"
  have "card ?V \<le> card (iset_of values - iset_of shifted_by)"
    unfolding unshifted_values_def by (intro card_image_le) simp
  also have "\<dots> \<le> card (iset_of values)" by (intro card_mono) auto
  finally have V: "finite ?V" "card ?V \<le> card (iset_of values)" by (simp_all add: unshifted_values_def)
  have "length (ranges s') = card (starts (iset_of s \<union> ?V))"
    using length_ranges_starts[of "ranges s'"] s' by (simp add: iset_of_def)
  also have "\<dots> \<le> card (starts (iset_of s)) + card ?V" using V(1) by (intro starts_Un) simp_all
  also have "card (starts (iset_of s)) = length (ranges s)"
    using length_ranges_starts[of "ranges s"] assms(1) by (simp add: iset_of_def wf_def)
  finally have "length (ranges s') \<le> max_size * (length (ranges s) div max_size + 1)"
    using V(2) assms(4) by (simp add: add_room_def)
  then show "wf s' \<and> iset_of s' = iset_of s \<union> ?V" using s' by blast
qed

section \<open>The interface of the change builder\<close>

lemma shift_of_block: "shift_of {i..<i + c} x = (if x < i then x else x + c)"
proof (rule shift_of_eqI)
  have "{i..<i + c} \<inter> {..<x + c} = {i..<i + c}" if "i \<le> x" using that by auto
  moreover have "{i..<i + c} \<inter> {..<x} = {}" if "x < i" using that by auto
  ultimately show "unshift_of {i..<i + c} (if x < i then x else x + c) = x" by (simp add: unshift_of_eq_diff)
qed auto

lemma unshift_of_single: "unshift_of {i} x = (if x \<le> i then x else x - 1)"
proof -
  have "{i} \<inter> {..<x} = (if x \<le> i then {} else {i})" by auto
  then show ?thesis by (simp add: unshift_of_eq_diff)
qed

lemma open_gap_shift: "open_gap i c S = shift_of {i..<i + c} ` S"
  by (simp add: open_gap_def shift_of_block)

lemma close_gap_unshift: "close_gap i S = unshift_of {i} ` (S - {i})"
  unfolding close_gap_def by (intro image_cong refl) (auto simp: unshift_of_single)

interpretation change_sets: index_set_ops wf iset_of add_room npos insert_at erase_at erase_or_unshift
  add_shifted add_shifted_by insert_at_set erase_at_set remove
proof unfold_locales
  show "wf s \<Longrightarrow> 0 < c \<Longrightarrow> returns (insert_at s i c) (\<lambda>s'. wf s' \<and>
    iset_of s' = {i..<i + c} \<union> shift_of {i..<i + c} ` iset_of s)" for s i c
    using insert_at_props[of s c i] by (simp add: open_gap_shift Un_commute)
  show "wf s \<Longrightarrow> wf (erase_at s i) \<and> iset_of (erase_at s i) = unshift_of {i} ` (iset_of s - {i})" for s i
    using erase_at_props[of s i] by (simp add: close_gap_unshift)
  show "wf s \<Longrightarrow> returns (add_shifted s u) (\<lambda>(s', x). wf s' \<and> x = shift_of (iset_of s) u \<and>
    iset_of s' = insert x (iset_of s))" for s u
    using add_shifted_props[of s u] .
  show "wf s \<Longrightarrow> wf b \<Longrightarrow> wf v \<Longrightarrow> add_room s v \<Longrightarrow> returns (add_shifted_by s b v) (\<lambda>s'. wf s' \<and>
    iset_of s' = iset_of s \<union> (\<lambda>x. shift_of (iset_of s) (unshift_of (iset_of b) x)) ` (iset_of v - iset_of b))" for s b v
    using add_shifted_by_room[of s b v] by (simp add: unshifted_values_def)
qed (simp_all add: erase_or_unshift_props insert_at_set_props erase_at_set_props remove_props)

end
