(* ===== verification/IndexSetProperties.thy ===== *)
theory IndexSetProperties
  imports IndexSetBuilder
begin

text \<open>
  The properties of \<open>IndexSet\<close>, stated for its users: from a well-formed set no operation
  aborts, the result is well formed again, and as a set of indexes it is the one named.
\<close>

section \<open>A set to try the properties on\<close>

definition one_chunk :: "index_range list \<Rightarrow> index_set" where
  "one_chunk rs = [\<lparr>chunk_data = rs, chunk_begin = fst (hd rs), chunk_end = snd (last rs),
                    chunk_count = ranges_size rs\<rparr>]"

lemma wf_one_chunk: "rs \<noteq> [] \<Longrightarrow> length rs \<le> max_size \<Longrightarrow> ranges_ok rs \<Longrightarrow> wf (one_chunk rs)"
  by (simp add: wf_def one_chunk_def meta_ok_def chunk_ok_def count_ok_def)

lemma iset_of_one_chunk [simp]: "iset_of (one_chunk rs) = iset rs"
  by (simp add: iset_of_def one_chunk_def)

lemma wf_two_ranges:
  "a < b \<Longrightarrow> b < c \<Longrightarrow> c < d \<Longrightarrow> wf (one_chunk [(a, b), (c, d)])"
  by (rule wf_one_chunk) (auto simp: ranges_ok_Cons max_size_def)

section \<open>Invariant and queries\<close>

text \<open>The invariant of the chunked ranges is what \<open>ChunkedRangeVector::verify\<close> checks in a debug
  build, plus the size limit of a chunk; and it determines the list of ranges from the set of indexes.\<close>

theorem invariant_is_verify:
  "(wf s \<longleftrightarrow> verify s \<and> (\<forall>c\<in>set s. length (chunk_data c) \<le> max_size)) \<and>
   (wf s \<and> wf t \<longrightarrow> iset_of s = iset_of t \<longrightarrow> ranges s = ranges t)"
  using wf_iff_verify[of s] ranges_ok_unique[of "ranges s" "ranges t"]
  by (auto simp: wf_def iset_of_def)

theorem invariant_is_verify_witness:
  "verify (one_chunk [(0, 3), (5, 6)]) \<and> (iset_of (one_chunk [(0, 3), (5, 6)]) = {0, 1, 2, 5})"
proof -
  have "iset [(0, 3), (5, 6)] = {0, 1, 2, 5 :: nat}" by (auto simp: iset_def)
  then show ?thesis
    using invariant_is_verify[of "one_chunk [(0, 3), (5, 6)]" "[]"] wf_two_ranges[of 0 3 5 6] by simp
qed

text \<open>The queries: membership, emptiness, the number of indexes below a bound, and the two
  coordinate changes \<open>unshift\<close> (how many indexes outside the set are below a position) and
  \<open>shift\<close> (the position of the n-th index outside the set), which are inverse to each other.\<close>

theorem queries_correct:
  assumes "wf s"
  shows "contains s i = (i \<in> iset_of s) \<and> empty s = (iset_of s = {}) \<and>
    index_count s 0 i = card (iset_of s \<inter> {..<i}) \<and>
    unshift s i = card ({..<i} - iset_of s) \<and>
    shift s i \<notin> iset_of s \<and> unshift s (shift s i) = i \<and> (i \<notin> iset_of s \<longrightarrow> shift s (unshift s i) = i)"
  using assms
  by (simp add: contains_iff empty_iff index_count_from_0 unshift_eq shift_eq shift_of_notin
      unshift_of_shift_of shift_of_unshift_of) (simp add: unshift_of_def)

theorem queries_correct_witness:
  "contains (one_chunk [(0, 3), (5, 6)]) 5 \<and> \<not> contains (one_chunk [(0, 3), (5, 6)]) 4 \<and>
   unshift (one_chunk [(0, 3), (5, 6)]) (shift (one_chunk [(0, 3), (5, 6)]) 2) = 2"
  using queries_correct[OF wf_two_ranges[of 0 3 5 6], of 5] queries_correct[OF wf_two_ranges[of 0 3 5 6], of 4]
    queries_correct[OF wf_two_ranges[of 0 3 5 6], of 2] by (simp add: iset_def)

text \<open>\<open>count\<close> of an interval is the number of indexes of the set in it, provided the interval
  does not end in the first range of a chunk that is entered from the middle of an earlier one.\<close>

theorem count_correct:
  assumes "wf s" "a \<le> b" "count_ends_inside s a b"
  shows "index_count s a b = card (iset_of s \<inter> {a..<b})"
  by (rule index_count_general[OF assms])

theorem count_correct_witness: "index_count (one_chunk [(0, 3), (5, 6)]) 1 6 = card {1, 2, 5 :: nat}"
proof -
  have "count_ends_inside (one_chunk [(0, 3), (5, 6)]) 1 6"
    by (simp add: count_ends_inside_def v_find_def v_find_from_def v_begin_def one_chunk_def find_if_from_def
        lower_bound_from_def deref_def ranges_size_def range_size_def Let_def)
  moreover have "iset_of (one_chunk [(0, 3), (5, 6)]) \<inter> {1..<6} = {1, 2, 5}"
    by (auto simp: iset_def)
  ultimately show ?thesis using count_correct[OF wf_two_ranges[of 0 3 5 6], of 1 6] by simp
qed

text \<open>C20. In that case \<open>count\<close> reports too little: when the interval begins after the first index of a chunk and its last
  index is in the first range of the next chunk, \<open>count\<close> returns the number of indexes before that range.\<close>

theorem count_undercounts:
  assumes "wf s" "b - 1 \<in> iset_of s" "v_find s (b - 1) = (Suc (fst (v_find s a)), 0)"
    and "snd (v_find s a) \<noteq> 0 \<or> fst (deref s (v_find s a)) < a"
  shows "index_count s a b = card (iset_of s \<inter> {a..<fst (deref s (v_find s (b - 1)))}) \<and>
    index_count s a b < card (iset_of s \<inter> {a..<b})"
proof -
  note m = index_count_misses[OF assms]
  have "b - 1 \<in> iset_of s \<inter> {a..<b}" "b - 1 \<notin> iset_of s \<inter> {a..<fst (deref s (v_find s (b - 1)))}"
    using assms(2) m(2,3) by auto
  moreover have "iset_of s \<inter> {a..<fst (deref s (v_find s (b - 1)))} \<subseteq> iset_of s \<inter> {a..<b}"
    using m(2) by auto
  ultimately have "iset_of s \<inter> {a..<fst (deref s (v_find s (b - 1)))} \<subset> iset_of s \<inter> {a..<b}" by blast
  then show ?thesis using m(1) by (simp add: psubset_card_mono)
qed

definition two_chunks :: index_set where
  "two_chunks = [\<lparr>chunk_data = [(0, 2)], chunk_begin = 0, chunk_end = 2, chunk_count = 2\<rparr>,
                 \<lparr>chunk_data = [(5, 10)], chunk_begin = 5, chunk_end = 10, chunk_count = 5\<rparr>]"

theorem count_undercounts_witness:
  "index_count two_chunks 1 7 = 1 \<and> card (iset_of two_chunks \<inter> {1..<7}) = 3"
proof -
  have find: "v_find two_chunks 1 = (0, 0)" "v_find two_chunks 6 = (1, 0)" "deref two_chunks (0, 0) = (0, 2)"
      "deref two_chunks (1, 0) = (5, 10)"
    by (simp_all add: v_find_def v_find_from_def v_begin_def two_chunks_def find_if_from_def lower_bound_from_def deref_def)
  have set: "iset_of two_chunks \<inter> {1..<7} = {1, 5, 6}" "iset_of two_chunks \<inter> {1..<5} = {1}" "6 \<in> iset_of two_chunks"
    by (auto simp: iset_of_def two_chunks_def iset_def)
  moreover have "wf two_chunks"
    by (simp add: wf_def two_chunks_def meta_ok_def chunk_ok_def count_ok_def ranges_size_def range_size_def
        ranges_ok_Cons max_size_def)
  ultimately show ?thesis using count_undercounts[of two_chunks 7 1] find by simp
qed

section \<open>Updates\<close>

text \<open>Adding: one index, the indexes of a list, and all indexes of another set.\<close>

theorem add_correct:
  assumes "wf s" "wf t"
  shows "returns (add s i) (\<lambda>s'. wf s' \<and> iset_of s' = insert i (iset_of s)) \<and>
    returns (of_list s is) (\<lambda>s'. wf s' \<and> iset_of s' = iset_of s \<union> set is) \<and>
    returns (add_set s t) (\<lambda>s'. wf s' \<and> iset_of s' = iset_of s \<union> iset_of t)"
  using add_props[OF assms(1)] of_list_props[OF assms(1)] add_set_props[OF assms] by simp

theorem add_correct_witness:
  "returns (add (one_chunk [(0, 3), (5, 6)]) 4) (\<lambda>s'. iset_of s' = {0, 1, 2, 4, 5})"
proof -
  have "insert 4 (iset [(0, 3), (5, 6)]) = {0, 1, 2, 4, 5 :: nat}" by (auto simp: iset_def)
  then show ?thesis
    using conjunct1[OF add_correct[OF wf_two_ranges[of 0 3 5 6] wf_two_ranges[of 0 3 5 6], of 4 "[]"]]
    by (auto elim!: returns_mono)
qed

text \<open>\<open>insert_at\<close> makes room for \<open>count\<close> new positions and adds them; \<open>shift_for_insert_at\<close>
  only makes the room, splitting the range that contains the insertion point.\<close>

theorem insert_at_correct:
  assumes "wf s" "0 < count"
  shows "returns (insert_at s i count) (\<lambda>s'. wf s' \<and>
      iset_of s' = (\<lambda>x. if x < i then x else x + count) ` iset_of s \<union> {i..<i + count}) \<and>
    returns (shift_for_insert_at s i count) (\<lambda>s'. wf s' \<and>
      iset_of s' = (\<lambda>x. if x < i then x else x + count) ` iset_of s)"
  using insert_at_props[OF assms] shift_for_insert_at_props[OF assms] by (simp add: open_gap_def)

theorem insert_at_correct_witness:
  "returns (shift_for_insert_at (one_chunk [(0, 3), (5, 6)]) 1 2) (\<lambda>s'. iset_of s' = {0, 3, 4, 7})"
proof -
  have "(\<lambda>x. if x < 1 then x else x + 2) ` iset [(0, 3), (5, 6)] = {0, 3, 4, 7 :: nat}"
    by (simp add: iset_def atLeastLessThan_nat_numeral lessThan_Suc numeral_eq_Suc atLeast0LessThan) auto
  then show ?thesis
    using conjunct2[OF insert_at_correct[OF wf_two_ranges[of 0 3 5 6], of 2 1]] by (auto elim!: returns_mono)
qed

text \<open>C18. \<open>erase_at\<close> removes a position and closes the gap; \<open>erase_or_unshift\<close> does the same and says
  whether the position was in the set, and if not, its number among the positions outside it.\<close>

theorem erase_at_correct:
  assumes "wf s"
  shows "wf (erase_at s i) \<and> iset_of (erase_at s i) = (\<lambda>x. if x < i then x else x - 1) ` (iset_of s - {i}) \<and>
    erase_or_unshift s i = (erase_at s i, if i \<in> iset_of s then npos else card ({..<i} - iset_of s))"
  using erase_at_props[OF assms, of i] erase_or_unshift_props[OF assms, of i]
  by (simp add: close_gap_def unshift_of_def)

theorem erase_at_correct_witness: "snd (erase_or_unshift (one_chunk [(0, 3), (5, 6)]) 4) = 1"
proof -
  have "{..<4} - iset [(0, 3), (5, 6)] = {3 :: nat}" by (auto simp: iset_def)
  moreover have "4 \<notin> iset [(0, 3), (5, 6)]" by (simp add: iset_def)
  ultimately show ?thesis using erase_at_correct[OF wf_two_ranges[of 0 3 5 6], of 4] by simp
qed

text \<open>C19. \<open>remove\<close> takes indexes out without moving the others; the loop ends on every well-formed set.\<close>

theorem remove_correct:
  assumes "wf s" "wf t" "0 < count"
  shows "returns (remove s i count) (\<lambda>s'. wf s' \<and> iset_of s' = iset_of s - {i..<i + count}) \<and>
    returns (remove_set s t) (\<lambda>s'. wf s' \<and> iset_of s' = iset_of s - iset_of t)"
  using remove_props[OF assms(1,3)] remove_set_props[OF assms(1,2)] by simp

theorem remove_correct_witness:
  "returns (remove (one_chunk [(0, 3), (5, 6)]) 1 1) (\<lambda>s'. iset_of s' = {0, 2, 5})"
proof -
  have "iset [(0, 3), (5, 6)] - {1..<1 + 1} = {0, 2, 5 :: nat}" by (auto simp: iset_def)
  then show ?thesis
    using conjunct1[OF remove_correct[OF wf_two_ranges[of 0 3 5 6] wf_two_ranges[of 0 3 5 6], of 1 1]]
    by (auto elim!: returns_mono)
qed

text \<open>\<open>add_shifted\<close> adds the position that has the given number outside the set, and returns it.\<close>

theorem add_shifted_correct:
  assumes "wf s"
  shows "returns (add_shifted s n) (\<lambda>(s', x). wf s' \<and> x \<notin> iset_of s \<and> card ({..<x} - iset_of s) = n \<and>
    x = shift s n \<and> iset_of s' = insert x (iset_of s))"
  using assms shift_of_notin[of "iset_of s" n] unshift_of_shift_of[of "iset_of s" n]
  by (intro returns_mono[OF add_shifted_props[OF assms]]) (auto simp: shift_eq unshift_of_def)

theorem add_shifted_correct_witness:
  "returns (add_shifted (one_chunk [(0, 3), (5, 6)]) 1) (\<lambda>(s', x). x \<notin> {0, 1, 2, 5} \<and> x \<in> iset_of s')"
proof -
  have "iset [(0, 3), (5, 6)] = {0, 1, 2, 5 :: nat}" by (auto simp: iset_def)
  then show ?thesis using add_shifted_correct[OF wf_two_ranges[of 0 3 5 6], of 1] by (auto elim!: returns_mono)
qed

section \<open>Merging whole sets\<close>

text \<open>The operations that follow a whole set of insertions or deletions at once: through the
  builder they give the same set as the positions moved one by one.\<close>

theorem set_operations_correct:
  assumes "wf s" "wf t"
  shows "wf (insert_at_set s t) \<and> iset_of (insert_at_set s t) = iset_of t \<union> shift t ` iset_of s \<and>
    wf (shift_for_insert_at_set s t) \<and> iset_of (shift_for_insert_at_set s t) = shift t ` iset_of s \<and>
    wf (erase_at_set s t) \<and> iset_of (erase_at_set s t) = unshift t ` (iset_of s - iset_of t)"
  using assms insert_at_set_props[OF assms] shift_for_insert_at_set_props[OF assms] erase_at_set_props[OF assms]
  by (simp add: shift_eq unshift_eq cong: image_cong)

theorem set_operations_correct_witness:
  "wf (erase_at_set (one_chunk [(0, 3), (5, 6)]) (one_chunk [(1, 2), (4, 8)])) \<and>
   iset_of (insert_at_set (one_chunk [(0, 3), (5, 6)]) (one_chunk [(1, 2), (4, 8)])) =
     iset [(1, 2), (4, 8)] \<union> shift (one_chunk [(1, 2), (4, 8)]) ` iset [(0, 3), (5, 6)]"
  using set_operations_correct[OF wf_two_ranges[of 0 3 5 6] wf_two_ranges[of 1 2 4 8]] by simp

text \<open>\<open>add_shifted_by\<close> adds those of the values that are not in \<open>shifted_by\<close>, each at the
  position it had before the shift. The set it builds is always the right one; it is well formed
  when the ranges fit into the chunks the builder allocates.\<close>

theorem add_shifted_by_correct:
  assumes "wf s" "wf b" "wf v"
  shows "returns (add_shifted_by s b v) (\<lambda>s'.
    iset_of s' = iset_of s \<union> (\<lambda>x. shift s (unshift b x)) ` (iset_of v - iset_of b) \<and>
    (length (ranges s) + card (iset_of v) \<le> max_size * (length (ranges s) div max_size + 1) \<longrightarrow> wf s'))"
proof -
  have "returns (add_shifted_by s b v) (\<lambda>s'. add_room s v \<longrightarrow> wf s')"
    using add_shifted_by_room[OF assms] returns_mono[OF add_shifted_by_props[OF assms]]
    by (cases "add_room s v") (auto elim!: returns_mono)
  then show ?thesis
    using add_shifted_by_props[OF assms] assms
    by (auto simp: add_room_def unshifted_values_def shift_eq unshift_eq returns_iff cong: image_cong)
qed

theorem add_shifted_by_correct_witness:
  "returns (add_shifted_by (one_chunk [(0, 3), (5, 6)]) (one_chunk [(1, 2), (4, 5)]) (one_chunk [(0, 1), (2, 3)])) wf"
proof -
  have "card (iset [(0, 1), (2, 3)]) = 2" by (simp add: card_iset ranges_ok_Cons range_size_def)
  moreover have "length (ranges (one_chunk [(0, 3), (5, 6)])) = 2" by (simp add: one_chunk_def)
  ultimately show ?thesis
    using add_shifted_by_correct[OF wf_two_ranges[of 0 3 5 6] wf_two_ranges[of 1 2 4 5] wf_two_ranges[of 0 1 2 3]]
    by (auto simp: max_size_def elim!: returns_mono)
qed

text \<open>The builder's branch for a full last chunk sets the count of the new chunk to 1 whatever the
  pushed range is: with 256 ranges pushed, a range of ten indexes more leaves a chunk that says
  it holds one, and the set is not well formed.\<close>

definition full_builder :: builder where
  "full_builder = \<lparr>b_data = [\<lparr>chunk_data = map (\<lambda>i. (2 * i, 2 * i + 1)) [0..<max_size], chunk_begin = 0,
     chunk_end = 0, chunk_count = max_size\<rparr>], b_outer = 0\<rparr>"

theorem builder_loses_count:
  "chunk_count (last (finalize_builder (push_range full_builder (1000, 1010)))) = 1 \<and>
   chunk_data (last (finalize_builder (push_range full_builder (1000, 1010)))) = [(1000, 1010)] \<and>
   \<not> wf (finalize_builder (push_range full_builder (1000, 1010)))"
proof -
  let ?d = "map (\<lambda>i. (2 * i, 2 * i + 1)) [0..<max_size] :: index_range list"
  have d: "?d \<noteq> []" "length ?d = max_size" by (simp_all add: max_size_def)
  have l: "snd (last ?d) = 511" by (simp add: max_size_def last_map)
  obtain c where f: "finalize_builder (push_range full_builder (1000, 1010)) =
      [c, \<lparr>chunk_data = [(1000, 1010)], chunk_begin = 1000, chunk_end = 1010, chunk_count = 1\<rparr>]"
    using d l by (simp add: push_range_def full_builder_def Let_def finalize_builder_def del: map_eq_conv)
  then show ?thesis by (auto simp: wf_def meta_ok_def count_ok_def range_size_def)
qed

end
