(* ===== verification/CollectionChange.thy ===== *)
theory CollectionChange
  imports IndexSetBuilder "HOL-Library.AList"
begin

text \<open>
  \<open>CollectionChangeSet\<close> (include/collection_notifications.hpp) and \<open>CollectionChangeBuilder\<close>
  (impl/collection_change_builder.hpp/.cpp): the data and every operation but \<open>calculate\<close>.
  The hash map of columns is an association list; each column is treated on its own, so the
  iteration order of the hash map, which the model fixes, does not matter.
\<close>

section \<open>Data\<close>

record move =
  move_from :: nat
  move_to :: nat

record change_set =
  deletions :: index_set
  insertions :: index_set
  modifications :: index_set
  modifications_new :: index_set
  moves :: "move list"
  columns :: "(int \<times> index_set) list"

record change_builder = change_set +
  track_columns :: bool

definition cs_empty :: "'a change_set_scheme \<Rightarrow> bool" where
  "cs_empty c \<longleftrightarrow> empty (deletions c) \<and> empty (insertions c) \<and> empty (modifications c) \<and>
     empty (modifications_new c) \<and> moves c = []"

definition empty_builder :: change_builder where
  "empty_builder = \<lparr>deletions = [], insertions = [], modifications = [], modifications_new = [],
     moves = [], columns = [], track_columns = True\<rparr>"

text \<open>The constructor adds the endpoints of the moves to the deletions and insertions.\<close>

fun add_move_endpoints :: "index_set \<Rightarrow> index_set \<Rightarrow> move list \<Rightarrow> (index_set \<times> index_set) option" where
  "add_move_endpoints dels ins [] = Some (dels, ins)"
| "add_move_endpoints dels ins (m # ms) =
     do { dels \<leftarrow> add dels (move_from m); ins \<leftarrow> add ins (move_to m); add_move_endpoints dels ins ms }"

definition make_builder :: "index_set \<Rightarrow> index_set \<Rightarrow> index_set \<Rightarrow> move list \<Rightarrow> change_builder option" where
  "make_builder dels ins mods ms =
     do {
       (dels, ins) \<leftarrow> add_move_endpoints dels ins ms;
       Some (empty_builder\<lparr>deletions := dels, insertions := ins, modifications := mods, moves := ms\<rparr>)
     }"

section \<open>Columns\<close>

text \<open>\<open>columns[k]\<close> creates an empty set for a new key.\<close>

definition column_at :: "(int \<times> index_set) list \<Rightarrow> int \<Rightarrow> index_set" where
  "column_at cols k = (case map_of cols k of None \<Rightarrow> [] | Some s \<Rightarrow> s)"

fun each_column :: "(index_set \<Rightarrow> index_set option) \<Rightarrow> (int \<times> index_set) list \<Rightarrow> (int \<times> index_set) list option" where
  "each_column f [] = Some []"
| "each_column f ((k, s) # cols) = do { s' \<leftarrow> f s; cols' \<leftarrow> each_column f cols; Some ((k, s') # cols') }"

definition for_each_col :: "(index_set \<Rightarrow> index_set option) \<Rightarrow> change_builder \<Rightarrow> change_builder option" where
  "for_each_col f c =
     do {
       m \<leftarrow> f (modifications c);
       cols \<leftarrow> if track_columns c then each_column f (columns c) else Some (columns c);
       Some (c\<lparr>modifications := m, columns := cols\<rparr>)
     }"

section \<open>Single changes\<close>

definition cb_modify :: "change_builder \<Rightarrow> nat \<Rightarrow> int option \<Rightarrow> change_builder option" where
  \<comment> \<open>the column \<open>npos\<close> is \<open>None\<close>\<close>
  "cb_modify c ndx col =
     do {
       m \<leftarrow> add (modifications c) ndx;
       let c = c\<lparr>modifications := m\<rparr>;
       case col of
         None \<Rightarrow> Some c
       | Some k \<Rightarrow>
           if \<not> track_columns c then Some c
           else do {
             s \<leftarrow> add (column_at (columns c) k) ndx;
             Some (c\<lparr>columns := AList.update k s (columns c)\<rparr>)
           }
     }"

definition cb_insert :: "change_builder \<Rightarrow> nat \<Rightarrow> nat \<Rightarrow> bool \<Rightarrow> change_builder option" where
  "cb_insert c index count track_moves =
     do {
       realm_assert (count \<noteq> 0);
       c \<leftarrow> for_each_col (\<lambda>col. shift_for_insert_at col index count) c;
       if \<not> track_moves then Some c
       else do {
         ins \<leftarrow> insert_at (insertions c) index count;
         Some (c\<lparr>insertions := ins,
                 moves := map (\<lambda>m. if index \<le> move_to m then m\<lparr>move_to := move_to m + count\<rparr> else m) (moves c)\<rparr>)
       }
     }"

fun erase_moves :: "nat \<Rightarrow> move list \<Rightarrow> move list" where
  "erase_moves index [] = []"
| "erase_moves index (m # ms) =
     (if move_to m = index then erase_moves index ms
      else if index < move_to m then m\<lparr>move_to := move_to m - 1\<rparr> # erase_moves index ms
      else m # erase_moves index ms)"

definition cb_erase :: "change_builder \<Rightarrow> nat \<Rightarrow> change_builder option" where
  "cb_erase c index =
     do {
       c \<leftarrow> for_each_col (\<lambda>col. Some (erase_at col index)) c;
       let (ins, unshifted) = erase_or_unshift (insertions c) index;
       dels \<leftarrow> if unshifted \<noteq> npos then map_option fst (add_shifted (deletions c) unshifted)
               else Some (deletions c);
       Some (c\<lparr>insertions := ins, deletions := dels, moves := erase_moves index (moves c)\<rparr>)
     }"

definition cb_clear :: "change_builder \<Rightarrow> nat \<Rightarrow> change_builder option" where
  "cb_clear c old_size =
     do {
       let old_size = foldl (\<lambda>n r. n + (snd r - fst r)) old_size (ranges (deletions c));
       let old_size = foldl (\<lambda>n r. n - (snd r - fst r)) old_size (ranges (insertions c));
       dels \<leftarrow> set_len old_size;
       Some (c\<lparr>modifications := [], insertions := [], moves := [], columns := [], deletions := dels\<rparr>)
     }"

fun move_existing :: "nat \<Rightarrow> nat \<Rightarrow> bool \<Rightarrow> index_set \<Rightarrow> move list \<Rightarrow> (bool \<times> index_set \<times> move list) option" where
  "move_existing from to updated ins [] = Some (updated, ins, [])"
| "move_existing from to updated ins (m # ms) =
     (if move_to m \<noteq> from then do {
        let m = (if to \<le> move_to m \<and> move_to m < from then m\<lparr>move_to := move_to m + 1\<rparr>
                 else if move_to m \<le> to \<and> from < move_to m then m\<lparr>move_to := move_to m - 1\<rparr>
                 else m);
        (updated, ins, ms) \<leftarrow> move_existing from to updated ins ms;
        Some (updated, ins, m # ms)
      }
      else do {
        realm_assert (\<not> updated);
        ins \<leftarrow> insert_at (erase_at ins from) to 1;
        (updated, ins, ms) \<leftarrow> move_existing from to True ins ms;
        Some (updated, ins, m\<lparr>move_to := to\<rparr> # ms)
      })"

definition cb_move :: "change_builder \<Rightarrow> nat \<Rightarrow> nat \<Rightarrow> change_builder option" where
  "cb_move c from to =
     do {
       realm_assert (from \<noteq> to);
       (updated, ins, ms) \<leftarrow> move_existing from to False (insertions c) (moves c);
       let c = c\<lparr>insertions := ins, moves := ms\<rparr>;
       c \<leftarrow> if updated then Some c
            else do {
              let (ins, shifted_from) = erase_or_unshift (insertions c) from;
              ins \<leftarrow> insert_at ins to 1;
              let c = c\<lparr>insertions := ins\<rparr>;
              if shifted_from \<noteq> npos then do {
                (dels, shifted_from) \<leftarrow> add_shifted (deletions c) shifted_from;
                Some (c\<lparr>deletions := dels,
                        moves := moves c @ [\<lparr>move_from = shifted_from, move_to = to\<rparr>]\<rparr>)
              }
              else Some c
            };
       for_each_col (\<lambda>col.
         let modified = contains col from; col = erase_at col from
         in if modified then insert_at col to 1 else shift_for_insert_at col to 1) c
     }"

section \<open>Merging\<close>

fun clean_stale :: "index_set \<Rightarrow> index_set \<Rightarrow> move list \<Rightarrow> (index_set \<times> index_set \<times> move list) option" where
  "clean_stale dels ins [] = Some (dels, ins, [])"
| "clean_stale dels ins (m # ms) =
     (if move_from m - index_count dels 0 (move_from m) \<noteq> move_to m - index_count ins 0 (move_to m)
      then do { (dels, ins, ms) \<leftarrow> clean_stale dels ins ms; Some (dels, ins, m # ms) }
      else do {
        dels \<leftarrow> remove dels (move_from m) 1;
        ins \<leftarrow> remove ins (move_to m) 1;
        clean_stale dels ins ms
      })"

definition clean_up_stale_moves :: "change_builder \<Rightarrow> change_builder option" where
  "clean_up_stale_moves c =
     do {
       (dels, ins, ms) \<leftarrow> clean_stale (deletions c) (insertions c) (moves c);
       Some (c\<lparr>deletions := dels, insertions := ins, moves := ms\<rparr>)
     }"

text \<open>
  \<open>for_each_col\<close> of \<open>merge\<close>: a function of the sets of both change sets, for the modifications
  and for every column of either.
\<close>

type_synonym col_fun = "index_set \<Rightarrow> index_set \<Rightarrow> (index_set \<times> index_set) option"

fun merge_columns :: "col_fun \<Rightarrow> int list \<Rightarrow> change_builder \<Rightarrow> change_builder \<Rightarrow> (change_builder \<times> change_builder) option" where
  "merge_columns f [] c d = Some (c, d)"
| "merge_columns f (k # ks) c d =
     do {
       (s, t) \<leftarrow> f (column_at (columns c) k) (column_at (columns d) k);
       merge_columns f ks (c\<lparr>columns := AList.update k s (columns c)\<rparr>) (d\<lparr>columns := AList.update k t (columns d)\<rparr>)
     }"

definition merge_each_col :: "int list \<Rightarrow> col_fun \<Rightarrow> change_builder \<Rightarrow> change_builder \<Rightarrow> (change_builder \<times> change_builder) option" where
  "merge_each_col keys f c d =
     do {
       (m, n) \<leftarrow> f (modifications c) (modifications d);
       let c = c\<lparr>modifications := m\<rparr>;
       let d = d\<lparr>modifications := n\<rparr>;
       if track_columns c then merge_columns f keys c d else Some (c, d)
     }"

definition col_keys :: "change_builder \<Rightarrow> change_builder \<Rightarrow> int list" where
  "col_keys c d = (if track_columns c then remdups (map fst (columns c) @ map fst (columns d)) else [])"

definition mark_moved :: "move \<Rightarrow> col_fun" where
  "mark_moved m col other =
     (if contains col (move_from m) then do { other \<leftarrow> add other (move_to m); Some (col, other) }
      else Some (col, other))"

text \<open>
  The update of the old moves: \<open>c\<close> and \<open>d\<close> are the two change sets as the predicate of
  \<open>remove_if\<close> modifies them, one old move after the other.
\<close>

fun update_moves :: "int list \<Rightarrow> move list \<Rightarrow> change_builder \<Rightarrow> change_builder \<Rightarrow> (move list \<times> change_builder \<times> change_builder) option" where
  "update_moves keys [] c d = Some ([], c, d)"
| "update_moves keys (old # olds) c d =
     (let p = find_if_from 0 (\<lambda>m. move_to old = move_from m) (moves d) in
      if p < length (moves d) then do {
        let it = moves d ! p;
        (c, d) \<leftarrow> merge_each_col keys (mark_moved it) c d;
        let d = d\<lparr>moves := butlast ((moves d)[p := last (moves d)])\<rparr>;
        (kept, c, d) \<leftarrow> update_moves keys olds c d;
        Some (old\<lparr>move_to := move_to it\<rparr> # kept, c, d)
      }
      else if contains (deletions d) (move_to old) then update_moves keys olds c d
      else do {
        let old = old\<lparr>move_to := shift (insertions d) (unshift (deletions d) (move_to old))\<rparr>;
        (kept, c, d) \<leftarrow> update_moves keys olds c d;
        Some (old # kept, c, d)
      })"

fun mark_all_moved :: "int list \<Rightarrow> move list \<Rightarrow> change_builder \<Rightarrow> change_builder \<Rightarrow> (change_builder \<times> change_builder) option" where
  "mark_all_moved keys [] c d = Some (c, d)"
| "mark_all_moved keys (m # ms) c d =
     do { (c, d) \<leftarrow> merge_each_col keys (mark_moved m) c d; mark_all_moved keys ms c d }"

text \<open>The steps of \<open>merge\<close>, in the order of its comments.\<close>

definition merge_old_moves :: "int list \<Rightarrow> change_builder \<Rightarrow> change_builder \<Rightarrow> (change_builder \<times> change_builder) option" where
  "merge_old_moves keys c d =
     (if moves d \<noteq> [] \<or> \<not> empty (deletions d) \<or> \<not> empty (insertions d) then do {
        (kept, c, d) \<leftarrow> update_moves keys (moves c) c d;
        Some (c\<lparr>moves := kept\<rparr>, d)
      }
      else Some (c, d))"

definition drop_moves_of_inserted :: "change_builder \<Rightarrow> change_builder \<Rightarrow> change_builder" where
  "drop_moves_of_inserted c d =
     (if \<not> empty (insertions c) \<and> moves d \<noteq> []
      then d\<lparr>moves := filter (\<lambda>m. \<not> contains (insertions c) (move_from m)) (moves d)\<rparr> else d)"

definition keep_moved_modified :: "int list \<Rightarrow> change_builder \<Rightarrow> change_builder \<Rightarrow> (change_builder \<times> change_builder) option" where
  "keep_moved_modified keys c d =
     (if \<not> empty (modifications c) \<and> moves d \<noteq> [] then mark_all_moved keys (moves d) c d else Some (c, d))"

definition unshift_new_moves :: "change_builder \<Rightarrow> change_builder \<Rightarrow> change_builder" where
  "unshift_new_moves c d =
     (if \<not> empty (deletions c) \<or> \<not> empty (insertions c)
      then d\<lparr>moves := map (\<lambda>m. m\<lparr>move_from := shift (deletions c) (unshift (insertions c) (move_from m))\<rparr>)
                         (moves d)\<rparr> else d)"

definition merge_rows :: "index_set \<Rightarrow> index_set \<Rightarrow> col_fun" where
  "merge_rows dels ins col other =
     do { col \<leftarrow> add_set (shift_for_insert_at_set (erase_at_set col dels) ins) other; Some (col, other) }"

definition cb_merge :: "change_builder \<Rightarrow> change_builder \<Rightarrow> change_builder option" where
  "cb_merge c d =
     (if cs_empty d then Some c
      else if cs_empty c then Some d
      else do {
        let keys = col_keys c d;
        (c, d) \<leftarrow> merge_old_moves keys c d;
        let d = drop_moves_of_inserted c d;
        (c, d) \<leftarrow> keep_moved_modified keys c d;
        let d = unshift_new_moves c d;
        let c = c\<lparr>moves := moves c @ moves d\<rparr>;
        dels \<leftarrow> add_shifted_by (deletions c) (insertions c) (deletions d);
        let ins = insert_at_set (erase_at_set (insertions c) (deletions d)) (insertions d);
        c \<leftarrow> clean_up_stale_moves (c\<lparr>deletions := dels, insertions := ins\<rparr>);
        (c, d) \<leftarrow> merge_each_col keys (merge_rows (deletions d) (insertions d)) c d;
        Some c
      })"

section \<open>The final change set\<close>

definition cb_finalize :: "change_builder \<Rightarrow> change_set option" where
  "cb_finalize c =
     do {
       let in_old = shift_for_insert_at_set (erase_at_set (modifications c) (insertions c)) (deletions c);
       mods \<leftarrow> remove_set (modifications c) (insertions c);
       Some \<lparr>deletions = deletions c, insertions = insertions c, modifications = in_old,
             modifications_new = mods, moves = moves c, columns = columns c\<rparr>
     }"

end
