(* ===== verification/CollectionChangeCorrect.thy ===== *)
theory CollectionChangeCorrect
  imports CollectionChange "HOL-Library.Multiset"
begin

text \<open>
  Correctness of the change builder: after every operation the change set describes the
  changes from the collection it started from to the current one.
\<close>

section \<open>What a change set describes\<close>

definition tracked :: "'a change_set_scheme \<Rightarrow> int option \<Rightarrow> nat set" where
  \<comment> \<open>the modified rows: all of them, and those of a column\<close>
  "tracked c j = (case j of None \<Rightarrow> iset_of (modifications c) | Some k \<Rightarrow> iset_of (column_at (columns c) k))"

definition sets_ok :: "change_builder \<Rightarrow> bool" where
  "sets_ok c \<longleftrightarrow> wf (deletions c) \<and> wf (insertions c) \<and> wf (modifications c) \<and>
     (\<forall>(k, s)\<in>set (columns c). wf s) \<and> distinct (map fst (columns c)) \<and> track_columns c \<and>
     (\<forall>j. tracked c j \<subseteq> tracked c None)"

definition moves_ok :: "nat set \<Rightarrow> nat set \<Rightarrow> move list \<Rightarrow> 'a list \<Rightarrow> 'a list \<Rightarrow> bool" where
  "moves_ok D I ms xs ys \<longleftrightarrow>
     (\<forall>m\<in>set ms. move_from m \<in> D \<and> move_to m \<in> I \<and> xs ! move_from m = ys ! move_to m) \<and>
     distinct (map move_from ms) \<and> distinct (map move_to ms)"

definition describes :: "change_builder \<Rightarrow> 'a list \<Rightarrow> 'a list \<Rightarrow> bool" where
  "describes c xs ys \<longleftrightarrow> sets_ok c \<and>
     applies (iset_of (deletions c)) (iset_of (insertions c)) xs ys \<and>
     moves_ok (iset_of (deletions c)) (iset_of (insertions c)) (moves c) xs ys"

lemma tracked_update [simp]:
  "tracked (c\<lparr>deletions := x\<rparr>) j = tracked c j" "tracked (c\<lparr>insertions := x\<rparr>) j = tracked c j"
  "tracked (c\<lparr>moves := ms\<rparr>) j = tracked c j"
  by (simp_all add: tracked_def split: option.splits)

lemma sets_ok_update [simp]:
  "sets_ok (c\<lparr>moves := ms\<rparr>) = sets_ok c"
  "sets_ok c \<Longrightarrow> sets_ok (c\<lparr>deletions := x\<rparr>) = wf x" "sets_ok c \<Longrightarrow> sets_ok (c\<lparr>insertions := x\<rparr>) = wf x"
  by (auto simp: sets_ok_def)

lemma iset_of_Nil [simp]: "iset_of [] = {}"
  by (simp add: iset_of_def)

lemma describes_empty: "describes empty_builder xs xs"
  by (auto simp: describes_def sets_ok_def tracked_def empty_builder_def column_at_def applies_def moves_ok_def
      split: option.splits)

section \<open>Columns\<close>

lemma column_at_update: "column_at (AList.update k s cols) j = (if j = k then s else column_at cols j)"
  by (simp add: column_at_def update_conv')

lemma wf_column_at: "(\<forall>(k, s)\<in>set cols. wf s) \<Longrightarrow> wf (column_at cols k)"
  by (auto simp: column_at_def split: option.splits dest: map_of_SomeD)

lemma column_at_notin: "k \<notin> fst ` set cols \<Longrightarrow> column_at cols k = []"
  by (simp add: column_at_def split: option.splits) (metis map_of_eq_None_iff option.distinct(1))

lemma wf_update: "(\<forall>(k, s)\<in>set cols. wf s) \<Longrightarrow> wf t \<Longrightarrow> (\<forall>(k, s)\<in>set (AList.update k t cols). wf s)"
  by (induction cols) auto

lemma each_column_props:
  assumes f: "\<And>s. wf s \<Longrightarrow> returns (f s) (\<lambda>s'. wf s' \<and> iset_of s' = g (iset_of s))" and "g {} = {}"
    and "\<forall>(k, s)\<in>set cols. wf s"
  shows "returns (each_column f cols) (\<lambda>cols'. (\<forall>(k, s)\<in>set cols'. wf s) \<and> map fst cols' = map fst cols \<and>
    (\<forall>k. iset_of (column_at cols' k) = g (iset_of (column_at cols k))))"
  using assms(3)
proof (induction cols)
  case Nil
  then show ?case using assms(2) by (simp add: column_at_def)
next
  case (Cons p cols)
  obtain k s where p: "p = (k, s)" by (cases p)
  have "returns (f s) (\<lambda>s'. wf s' \<and> iset_of s' = g (iset_of s))" using f Cons.prems p by simp
  moreover have "returns (each_column f cols) (\<lambda>cols'. (\<forall>(k, s)\<in>set cols'. wf s) \<and>
      map fst cols' = map fst cols \<and> (\<forall>k. iset_of (column_at cols' k) = g (iset_of (column_at cols k))))"
    using Cons by simp
  ultimately show ?case
    unfolding p by (auto simp: returns_iff column_at_def split: if_splits)
qed

text \<open>The rest of the change set, which the operations on the columns do not touch.\<close>

definition same_rest :: "change_builder \<Rightarrow> change_builder \<Rightarrow> bool" where
  "same_rest c c' \<longleftrightarrow> deletions c' = deletions c \<and> insertions c' = insertions c \<and> moves c' = moves c"

lemma for_each_col_props:
  assumes f: "\<And>s. wf s \<Longrightarrow> returns (f s) (\<lambda>s'. wf s' \<and> iset_of s' = g (iset_of s))" and "g {} = {}"
    and mono: "\<And>A B. A \<subseteq> B \<Longrightarrow> g A \<subseteq> g B" and ok: "sets_ok c"
  shows "returns (for_each_col f c) (\<lambda>c'. sets_ok c' \<and> same_rest c c' \<and> (\<forall>j. tracked c' j = g (tracked c j)))"
proof -
  have c: "wf (modifications c)" "\<forall>(k, s)\<in>set (columns c). wf s" "track_columns c" using ok by (auto simp: sets_ok_def)
  obtain m where m: "f (modifications c) = Some m" "wf m" "iset_of m = g (iset_of (modifications c))"
    using f[OF c(1)] by (auto simp: returns_iff)
  obtain cols where cols: "each_column f (columns c) = Some cols" "\<forall>(k, s)\<in>set cols. wf s"
      "map fst cols = map fst (columns c)" "\<forall>k. iset_of (column_at cols k) = g (iset_of (column_at (columns c) k))"
    using each_column_props[of f g, OF f assms(2) c(2)] by (auto simp: returns_iff)
  have "tracked (c\<lparr>modifications := m, columns := cols\<rparr>) j = g (tracked c j)" for j
    using m(3) cols(4) by (simp add: tracked_def split: option.splits)
  then show ?thesis
    using m cols c ok mono by (auto simp: for_each_col_def sets_ok_def same_rest_def)
qed

lemma describes_same_rest:
  "describes c xs ys \<Longrightarrow> sets_ok c' \<Longrightarrow> same_rest c c' \<Longrightarrow> describes c' xs ys"
  by (simp add: describes_def same_rest_def)

section \<open>Moves under a later change\<close>

definition carry_moves :: "nat set \<Rightarrow> nat set \<Rightarrow> move list \<Rightarrow> move list" where
  "carry_moves E J ms = map (\<lambda>m. m\<lparr>move_to := back_to J E (move_to m)\<rparr>) (filter (\<lambda>m. move_to m \<notin> E) ms)"

lemma back_to_inj:
  "finite J \<Longrightarrow> x \<notin> E \<Longrightarrow> y \<notin> E \<Longrightarrow> back_to J E x = back_to J E y \<longleftrightarrow> x = y"
  by (auto simp: back_to_def shift_of_inj unshift_of_inj)

lemma carry_moves_ok:
  assumes ms: "moves_ok D I ms xs ys" and 1: "applies D I xs ys" and 2: "applies E J ys zs"
    and D': "D \<subseteq> D'" and I': "I' = J \<union> back_to J E ` (I - E)"
  shows "moves_ok D' I' (carry_moves E J ms) xs zs"
proof -
  note b = appliesD[OF 2]
  have el: "move_from m \<in> D' \<and> back_to J E (move_to m) \<in> I' \<and> xs ! move_from m = zs ! back_to J E (move_to m)"
    if m: "m \<in> set ms" "move_to m \<notin> E" for m
  proof -
    have m': "move_from m \<in> D" "move_to m \<in> I" "xs ! move_from m = ys ! move_to m"
      using ms m by (auto simp: moves_ok_def)
    have "move_to m < length ys" using appliesD(4)[OF 1] m'(2) by auto
    then show ?thesis using applies_nth(3)[OF applies_sym[OF 2] _ m(2)] m' m(2) D' I' by auto
  qed
  let ?f = "filter (\<lambda>m. move_to m \<notin> E) ms"
  have "distinct (map move_from ?f)" "distinct (map move_to ?f)"
    using ms by (auto simp: moves_ok_def distinct_map_filter)
  moreover have "inj_on (back_to J E) (set (map move_to ?f))"
    using b(2) by (auto simp: inj_on_def back_to_inj)
  moreover have "map move_from (carry_moves E J ms) = map move_from ?f"
    "map move_to (carry_moves E J ms) = map (back_to J E) (map move_to ?f)"
    by (simp_all add: carry_moves_def)
  ultimately have "distinct (map move_from (carry_moves E J ms))" "distinct (map move_to (carry_moves E J ms))"
    by (simp_all only: distinct_map[of "back_to J E"])
  then show ?thesis using el by (auto simp: moves_ok_def carry_moves_def)
qed

section \<open>Single changes\<close>

lemma back_to_block: "back_to {i..<i + c} {} x = (if x < i then x else x + c)"
  by (simp add: shift_of_block)

lemma back_to_removed: "back_to {} {i} x = (if x \<le> i then x else x - 1)"
  by (simp add: unshift_of_single)

lemma back_to_moved:
  "x \<noteq> f \<Longrightarrow> back_to {t} {f} x = (if t \<le> x \<and> x < f then x + 1 else if x \<le> t \<and> f < x then x - 1 else x)"
  using shift_of_block[of t 1 "unshift_of {f} x"] by (auto simp: back_to_def unshift_of_single)

lemma carry_insert:
  "carry_moves {} {i..<i + c} ms = map (\<lambda>m. if i \<le> move_to m then m\<lparr>move_to := move_to m + c\<rparr> else m) ms"
  by (auto simp: carry_moves_def shift_of_block)

lemma carry_erase: "carry_moves {i} {} ms = erase_moves i ms"
  by (induction ms) (auto simp: carry_moves_def unshift_of_single)

lemma insert_props:
  assumes d: "describes c xs ys" and i: "i \<le> length ys" and new: "new \<noteq> []"
  shows "returns (cb_insert c i (length new) True) (\<lambda>c'. describes c' xs (insert_rows i new ys) \<and>
    (\<forall>j. tracked c' j = open_gap i (length new) (tracked c j)))"
proof -
  let ?n = "length new"
  have ok: "sets_ok c" and a: "applies (iset_of (deletions c)) (iset_of (insertions c)) xs ys"
    and m: "moves_ok (iset_of (deletions c)) (iset_of (insertions c)) (moves c) xs ys"
    using d by (auto simp: describes_def)
  have "wf (insertions c)" using ok by (simp add: sets_ok_def)
  then obtain ins where ins: "insert_at (insertions c) i ?n = Some ins" "wf ins"
      "applies (iset_of (deletions c)) (iset_of ins) xs (insert_rows i new ys)"
      "iset_of ins = {i..<i + ?n} \<union> shift_of {i..<i + ?n} ` iset_of (insertions c)"
    using change_sets.insert_step[OF _ a i new] by (auto simp: returns_iff)
  have mv: "moves_ok (iset_of (deletions c)) (iset_of ins) (carry_moves {} {i..<i + ?n} (moves c)) xs (insert_rows i new ys)"
    by (rule carry_moves_ok[OF m a applies_insert_rows[OF i]]) (use ins(4) in auto)
  have "returns (for_each_col (\<lambda>col. shift_for_insert_at col i ?n) c)
    (\<lambda>c'. sets_ok c' \<and> same_rest c c' \<and> (\<forall>j. tracked c' j = open_gap i ?n (tracked c j)))"
    using new by (intro for_each_col_props[OF _ _ _ ok] shift_for_insert_at_props) (auto simp: open_gap_def)
  then show ?thesis
    unfolding returns_iff using ins mv carry_insert[of i ?n "moves c"] new
    by (auto simp: cb_insert_def realm_assert_def describes_def same_rest_def)
qed

lemma erase_props:
  assumes d: "describes c xs ys" and i: "i < length ys" and small: "length ys \<le> npos"
  shows "returns (cb_erase c i) (\<lambda>c'. describes c' xs (remove_row i ys) \<and>
    (\<forall>j. tracked c' j = close_gap i (tracked c j)))"
proof -
  have ok: "sets_ok c" and a: "applies (iset_of (deletions c)) (iset_of (insertions c)) xs ys"
    and m: "moves_ok (iset_of (deletions c)) (iset_of (insertions c)) (moves c) xs ys"
    using d by (auto simp: describes_def)
  have w: "wf (insertions c)" "wf (deletions c)" using ok by (auto simp: sets_ok_def)
  let ?ins = "erase_at (insertions c) i" and ?D = "iset_of (deletions c)" and ?I = "iset_of (insertions c)"
  have ins: "wf ?ins" "iset_of ?ins = unshift_of {i} ` (?I - {i})"
    using change_sets.erase_at_law[OF w(1)] by auto
  have mv: "moves_ok D' (iset_of ?ins) (erase_moves i (moves c)) xs (remove_row i ys)" if "?D \<subseteq> D'" for D'
    using carry_moves_ok[OF m a applies_remove_row[OF i] that, of "iset_of ?ins"] ins(2)
    by (simp add: carry_erase)
  obtain c1 where c1: "for_each_col (\<lambda>col. Some (erase_at col i)) c = Some c1" "sets_ok c1" "same_rest c c1"
      "\<forall>j. tracked c1 j = close_gap i (tracked c j)"
    using for_each_col_props[of "\<lambda>col. Some (erase_at col i)" "close_gap i", OF _ _ _ ok] erase_at_props
    by (auto simp: returns_iff close_gap_def)
  show ?thesis
  proof (cases "i \<in> ?I")
    case True
    have "erase_or_unshift (insertions c) i = (?ins, npos)"
      using change_sets.erase_or_unshift_law[OF w(1), of i] True by simp
    moreover have "applies ?D (iset_of ?ins) xs (remove_row i ys)"
      using change_sets.erase_step_inserted(2)[OF w(1) a i True] .
    ultimately show ?thesis
      using c1 mv[of ?D] ins(1) w(2)
      by (simp add: cb_erase_def describes_def same_rest_def)
  next
    case False
    have "unshift_of ?I i \<le> i" by (rule unshift_of_le)
    then have n: "unshift_of ?I i \<noteq> npos" using i small by simp
    have e: "erase_or_unshift (insertions c) i = (?ins, unshift_of ?I i)"
      using change_sets.erase_or_unshift_law[OF w(1), of i] False by simp
    obtain dels f where dels: "add_shifted (deletions c) (unshift_of ?I i) = Some (dels, f)" "wf dels"
        "iset_of dels = insert f ?D" "applies (iset_of dels) (iset_of ?ins) xs (remove_row i ys)"
      using change_sets.erase_step_old(2)[OF w(2,1) a i False] by (auto simp: returns_iff)
    have "moves_ok (iset_of dels) (iset_of ?ins) (erase_moves i (moves c)) xs (remove_row i ys)"
      using mv[of "iset_of dels"] dels(3) by auto
    then show ?thesis
      using c1 ins(1) e n dels
      by (simp add: cb_erase_def describes_def same_rest_def)
  qed
qed

lemma foldl_add_sizes: "foldl (\<lambda>n r. n + (snd r - fst r)) n rs = n + ranges_size rs"
  by (induction rs arbitrary: n) (simp_all add: range_size_def)

lemma foldl_sub_sizes: "foldl (\<lambda>n r. n - (snd r - fst r)) n rs = n - ranges_size (rs :: index_range list)"
  by (induction rs arbitrary: n) (simp_all add: range_size_def)

lemma clear_props:
  assumes d: "describes c xs ys"
  shows "returns (cb_clear c (length ys)) (\<lambda>c'. describes c' xs [] \<and> iset_of (deletions c') = {..<length xs} \<and>
    (\<forall>j. tracked c' j = {}))"
proof -
  have ok: "sets_ok c" and a: "applies (iset_of (deletions c)) (iset_of (insertions c)) xs ys"
    using d by (auto simp: describes_def)
  have "card (iset_of (deletions c)) = ranges_size (ranges (deletions c))"
    "card (iset_of (insertions c)) = ranges_size (ranges (insertions c))"
    using ok by (auto simp: sets_ok_def iset_of_def wf_def card_iset)
  then have n: "length ys + ranges_size (ranges (deletions c)) - ranges_size (ranges (insertions c)) = length xs"
    using applies_lengths[OF a] by simp
  have none: "nths xs (- {..<length xs}) = []" by (rule nths_ge) auto
  show ?thesis
    unfolding cb_clear_def foldl_add_sizes foldl_sub_sizes Let_def n returns_bind
    by (rule returns_mono[OF set_len_props])
      (use ok none in \<open>auto simp: describes_def sets_ok_def tracked_def column_at_def applies_def moves_ok_def
        split: option.splits\<close>)
qed

lemma modify_props:
  assumes d: "describes c xs ys"
  shows "returns (cb_modify c ndx col) (\<lambda>c'. describes c' xs ys \<and>
    (\<forall>j. tracked c' j = (if j = None \<or> j = col then insert ndx (tracked c j) else tracked c j)))"
proof -
  have ok: "sets_ok c" using d by (simp add: describes_def)
  then obtain m where m: "add (modifications c) ndx = Some m" "wf m" "iset_of m = insert ndx (iset_of (modifications c))"
    using add_props[of "modifications c" ndx] by (auto simp: returns_iff sets_ok_def)
  show ?thesis
  proof (cases col)
    case None
    then show ?thesis using m ok d
      by (auto simp: cb_modify_def describes_def sets_ok_def tracked_def split: option.splits) 
  next
    case (Some k)
    have "wf (column_at (columns c) k)" using ok by (intro wf_column_at) (simp add: sets_ok_def)
    then obtain s where s: "add (column_at (columns c) k) ndx = Some s" "wf s"
        "iset_of s = insert ndx (iset_of (column_at (columns c) k))"
      using add_props[of "column_at (columns c) k" ndx] by (auto simp: returns_iff)
    have t: "tracked (c\<lparr>modifications := m, columns := AList.update k s (columns c)\<rparr>) j =
        (if j = None \<or> j = col then insert ndx (tracked c j) else tracked c j)" for j
      using m(3) s(3) Some by (auto simp: tracked_def column_at_update split: option.splits)
    have "tracked c j \<subseteq> tracked c None" for j using ok by (simp add: sets_ok_def)
    then have "sets_ok (c\<lparr>modifications := m, columns := AList.update k s (columns c)\<rparr>)"
      using ok m(2) s(2) t wf_update[of "columns c" s k] by (auto simp: sets_ok_def distinct_update)
    then show ?thesis using m s Some ok d t
      by (simp add: cb_modify_def describes_def sets_ok_def)
  qed
qed

lemma move_existing_props:
  assumes "wf ins" "distinct (map move_to ms)" "from \<noteq> to" "updated \<longrightarrow> from \<notin> move_to ` set ms"
  shows "returns (move_existing from to updated ins ms) (\<lambda>(u, ins', ms').
    u = (updated \<or> from \<in> move_to ` set ms) \<and>
    ms' = map (\<lambda>m. if move_to m = from then m\<lparr>move_to := to\<rparr>
                   else m\<lparr>move_to := back_to {to} {from} (move_to m)\<rparr>) ms \<and>
    wf ins' \<and> iset_of ins' = (if from \<in> move_to ` set ms
      then {to} \<union> back_to {to} {from} ` (iset_of ins - {from}) else iset_of ins))"
  using assms
proof (induction "from" to updated ins ms rule: move_existing.induct)
  case (2 "from" to updated ins m ms)
  show ?case
  proof (cases "move_to m = from")
    case True
    then have n: "from \<notin> move_to ` set ms" "\<not> updated" using "2.prems"(2,4) by auto
    have e: "wf (erase_at ins from)" "iset_of (erase_at ins from) = unshift_of {from} ` (iset_of ins - {from})"
      using change_sets.erase_at_law[OF "2.prems"(1), of "from"] by auto
    obtain ins' where i: "insert_at (erase_at ins from) to 1 = Some ins'" "wf ins'"
        "iset_of ins' = {to} \<union> back_to {to} {from} ` (iset_of ins - {from})"
      using change_sets.insert_at_law[OF e(1), of 1 to] e(2) by (auto simp: returns_iff back_to_def image_image)
    have "returns (move_existing from to True ins' ms) (\<lambda>(u, ins'', ms'). u \<and>
      ms' = map (\<lambda>m. if move_to m = from then m\<lparr>move_to := to\<rparr>
                     else m\<lparr>move_to := back_to {to} {from} (move_to m)\<rparr>) ms \<and>
      wf ins'' \<and> iset_of ins'' = iset_of ins')"
      using "2.IH"(2)[of "()" ins'] True n i(1,2) "2.prems"(2,3) by (simp add: case_prod_unfold realm_assert_def)
    then show ?thesis
      using True n i by (auto simp: returns_iff realm_assert_def case_prod_unfold)
  next
    case False
    have "(if to \<le> move_to m \<and> move_to m < from then m\<lparr>move_to := move_to m + 1\<rparr>
           else if move_to m \<le> to \<and> from < move_to m then m\<lparr>move_to := move_to m - 1\<rparr> else m) =
        m\<lparr>move_to := back_to {to} {from} (move_to m)\<rparr>"
      using back_to_moved[OF False, of to] by simp
    note mEq = this
    have "returns (move_existing from to updated ins ms) (\<lambda>(u, ins', ms').
      u = (updated \<or> from \<in> move_to ` set ms) \<and>
      ms' = map (\<lambda>m. if move_to m = from then m\<lparr>move_to := to\<rparr>
                     else m\<lparr>move_to := back_to {to} {from} (move_to m)\<rparr>) ms \<and>
      wf ins' \<and> iset_of ins' = (if from \<in> move_to ` set ms
        then {to} \<union> back_to {to} {from} ` (iset_of ins - {from}) else iset_of ins))"
      by (rule "2.IH"(1)[OF False refl]) (use "2.prems" in auto)
    then obtain u ins' ms' where r: "move_existing from to updated ins ms = Some (u, ins', ms')"
        "u = (updated \<or> from \<in> move_to ` set ms)"
        "ms' = map (\<lambda>m. if move_to m = from then m\<lparr>move_to := to\<rparr>
                     else m\<lparr>move_to := back_to {to} {from} (move_to m)\<rparr>) ms"
        "wf ins'" "iset_of ins' = (if from \<in> move_to ` set ms
          then {to} \<union> back_to {to} {from} ` (iset_of ins - {from}) else iset_of ins)"
      by (auto simp: returns_iff)
    then show ?thesis using False mEq by (simp add: case_prod_unfold)
  qed
qed simp

lemma move_step_col:
  assumes "wf s"
  shows "returns (let modified = contains s f; s' = erase_at s f
      in if modified then insert_at s' t 1 else shift_for_insert_at s' t 1)
    (\<lambda>s'. wf s' \<and> iset_of s' = (if f \<in> iset_of s then {t} else {}) \<union> back_to {t} {f} ` (iset_of s - {f}))"
proof -
  have e: "wf (erase_at s f)" "iset_of (erase_at s f) = unshift_of {f} ` (iset_of s - {f})"
    using change_sets.erase_at_law[OF assms, of f] by auto
  have "open_gap t 1 (unshift_of {f} ` (iset_of s - {f})) = back_to {t} {f} ` (iset_of s - {f})"
    using open_gap_shift[of t 1] by (simp add: image_image back_to_def)
  then show ?thesis
    using change_sets.insert_at_law[OF e(1), of 1 t] shift_for_insert_at_props[OF e(1), of 1 t] e(2) contains_iff[OF assms]
    by (auto simp: Let_def back_to_def image_image elim!: returns_mono)
qed

lemma move_props:
  assumes d: "describes c xs ys" and ft: "f < length ys" "t < length ys" "f \<noteq> t" and small: "length ys \<le> npos"
  shows "returns (cb_move c f t) (\<lambda>c'. describes c' xs (move_row f t ys) \<and>
    (\<forall>j. tracked c' j = (if f \<in> tracked c j then {t} else {}) \<union> back_to {t} {f} ` (tracked c j - {f})) \<and>
    moves c' = map (\<lambda>m. m\<lparr>move_to := (if move_to m = f then t else back_to {t} {f} (move_to m))\<rparr>) (moves c) @
      (if f \<in> iset_of (insertions c) then []
       else [\<lparr>move_from = back_to (iset_of (deletions c)) (iset_of (insertions c)) f, move_to = t\<rparr>]))"
proof -
  let ?D = "iset_of (deletions c)" and ?I = "iset_of (insertions c)" and ?zs = "move_row f t ys"
  let ?I' = "{t} \<union> back_to {t} {f} ` (?I - {f})"
  have ok: "sets_ok c" and a: "applies ?D ?I xs ys" and m: "moves_ok ?D ?I (moves c) xs ys"
    using d by (auto simp: describes_def)
  have w: "wf (insertions c)" "wf (deletions c)" using ok by (auto simp: sets_ok_def)
  note step = applies_move_row[OF ft(1,2)]
  note comp = applies_compose[OF a step]
  let ?g = "\<lambda>m. if move_to m = f then m\<lparr>move_to := t\<rparr> else m\<lparr>move_to := back_to {t} {f} (move_to m)\<rparr>"
  obtain ins where ex: "move_existing f t False (insertions c) (moves c) =
        Some (f \<in> move_to ` set (moves c), ins, map ?g (moves c))" "wf ins"
      "iset_of ins = (if f \<in> move_to ` set (moves c) then ?I' else ?I)"
    using move_existing_props[OF w(1) _ ft(3), of "moves c" False] m by (auto simp: returns_iff moves_ok_def)
  have carried: "moves_ok D' ?I' (carry_moves {f} {t} (moves c)) xs ?zs" if "?D \<subseteq> D'" for D'
    by (rule carry_moves_ok[OF m a step that refl])
  have g: "map ?g (moves c) = map (\<lambda>m. m\<lparr>move_to := (if move_to m = f then t else back_to {t} {f} (move_to m))\<rparr>) (moves c)"
    by simp
  have unmoved: "map ?g (moves c) = carry_moves {f} {t} (moves c)" if "f \<notin> move_to ` set (moves c)"
  proof -
    have "filter (\<lambda>m. move_to m \<notin> {f}) (moves c) = moves c" using that by (auto simp: filter_id_conv)
    then show ?thesis using that by (auto simp: carry_moves_def)
  qed
  have fin: "returns (for_each_col (\<lambda>col. let modified = contains col f; col = erase_at col f
      in if modified then insert_at col t 1 else shift_for_insert_at col t 1) c1)
      (\<lambda>c'. describes c' xs ?zs \<and>
        (\<forall>j. tracked c' j = (if f \<in> tracked c j then {t} else {}) \<union> back_to {t} {f} ` (tracked c j - {f})) \<and>
        moves c' = moves c1)"
    if c1: "describes c1 xs ?zs" "\<forall>j. tracked c1 j = tracked c j" for c1
  proof -
    let ?G = "\<lambda>A. (if f \<in> A then {t} else {}) \<union> back_to {t} {f} ` (A - {f})"
    have ok1: "sets_ok c1" using c1(1) by (simp add: describes_def)
    show ?thesis
    proof (rule returns_mono[OF for_each_col_props[where g = ?G, OF _ _ _ ok1]])
      show "returns (let modified = contains s f; s' = erase_at s f
          in if modified then insert_at s' t 1 else shift_for_insert_at s' t 1)
        (\<lambda>s'. wf s' \<and> iset_of s' = ?G (iset_of s))" if "wf s" for s
        by (rule move_step_col[OF that])
    qed (use describes_same_rest[OF c1(1)] c1(2) in \<open>auto simp: same_rest_def\<close>)
  qed
  show ?thesis
  proof (cases "f \<in> move_to ` set (moves c)")
    case True
    then obtain old where old: "old \<in> set (moves c)" "move_to old = f" by auto
    have oldp: "move_from old \<in> ?D" "f \<in> ?I" "xs ! move_from old = ys ! f" using m old by (auto simp: moves_ok_def)
    have mv: "moves_ok ?D ?I' (map ?g (moves c)) xs ?zs"
    proof -
      have el: "move_from n \<in> ?D \<and> move_to (?g n) \<in> ?I' \<and> xs ! move_from n = ?zs ! move_to (?g n)"
        if n: "n \<in> set (moves c)" for n
      proof (cases "move_to n = f")
        case True
        then have "n = old" using n old m by (auto simp: moves_ok_def distinct_map inj_on_def)
        then show ?thesis using oldp old move_row_nth[OF ft(1,2)] by simp
      next
        case False
        then have "n\<lparr>move_to := back_to {t} {f} (move_to n)\<rparr> \<in> set (carry_moves {f} {t} (moves c))"
          using n by (auto simp: carry_moves_def)
        moreover have "\<forall>m\<in>set (carry_moves {f} {t} (moves c)).
            move_from m \<in> ?D \<and> move_to m \<in> ?I' \<and> xs ! move_from m = ?zs ! move_to m"
          using carried[of ?D] unfolding moves_ok_def by blast
        ultimately have "move_from n \<in> ?D \<and> back_to {t} {f} (move_to n) \<in> ?I' \<and>
            xs ! move_from n = ?zs ! back_to {t} {f} (move_to n)" by fastforce
        then show ?thesis using False by simp
      qed
      have "inj_on (\<lambda>x. if x = f then t else back_to {t} {f} x) (move_to ` set (moves c))"
      proof -
        have "back_to {t} {f} x \<noteq> t" for x using shift_of_notin[of "{t}"] by (auto simp: back_to_def)
        then show ?thesis by (auto simp: inj_on_def back_to_inj) metis+
      qed
      moreover have "map move_to (map ?g (moves c)) = map (\<lambda>x. if x = f then t else back_to {t} {f} x) (map move_to (moves c))"
        by simp
      moreover have "map move_from (map ?g (moves c)) = map move_from (moves c)" by simp
      ultimately show ?thesis using el m
        by (simp only: moves_ok_def distinct_map[of "\<lambda>x. if x = f then t else back_to {t} {f} x"]) auto
    qed
    have "describes (c\<lparr>insertions := ins, moves := map ?g (moves c)\<rparr>) xs ?zs"
      using mv comp ex oldp(2) ok True by (simp add: describes_def insert_absorb)
    note * = fin[OF this]
    have "cb_move c f t = for_each_col (\<lambda>col. let modified = contains col f; col = erase_at col f
        in if modified then insert_at col t 1 else shift_for_insert_at col t 1) (c\<lparr>insertions := ins, moves := map ?g (moves c)\<rparr>)"
      using ex True ft(3) by (simp add: cb_move_def realm_assert_def)
    then show ?thesis using * oldp(2) g by simp
  next
    case False
    note um = unmoved[OF False]
    have ins_I: "iset_of ins = ?I" using ex False by simp
    have e: "wf (erase_at ins f)" "iset_of (erase_at ins f) = unshift_of {f} ` (?I - {f})"
      using change_sets.erase_at_law[OF ex(2), of f] ins_I by auto
    obtain ins2 where i2: "insert_at (erase_at ins f) t 1 = Some ins2" "wf ins2" "iset_of ins2 = ?I'"
      using change_sets.insert_at_law[OF e(1), of 1 t] e(2) by (auto simp: returns_iff back_to_def image_image)
    show ?thesis
    proof (cases "f \<in> ?I")
      case True
      then have u: "erase_or_unshift ins f = (erase_at ins f, npos)"
        using change_sets.erase_or_unshift_law[OF ex(2), of f] ins_I by simp
      have "describes (c\<lparr>moves := carry_moves {f} {t} (moves c), insertions := ins2\<rparr>) xs ?zs"
        using carried[of ?D] comp i2 ok True by (simp add: describes_def insert_absorb)
      note * = fin[OF this]
      have "cb_move c f t = for_each_col (\<lambda>col. let modified = contains col f; col = erase_at col f
        in if modified then insert_at col t 1 else shift_for_insert_at col t 1) (c\<lparr>moves := carry_moves {f} {t} (moves c), insertions := ins2\<rparr>)"
        using ex False ft(3) u i2 um by (simp add: cb_move_def realm_assert_def)
      then show ?thesis using * True um[symmetric] g by simp
    next
      case notin: False
      have "unshift_of ?I f \<le> f" by (rule unshift_of_le)
      then have n: "unshift_of ?I f \<noteq> npos" using ft(1) small by simp
      have u: "erase_or_unshift ins f = (erase_at ins f, unshift_of ?I f)"
        using change_sets.erase_or_unshift_law[OF ex(2), of f] ins_I notin by simp
      let ?x = "back_to ?D ?I f"
      obtain dels where dels: "add_shifted (deletions c) (unshift_of ?I f) = Some (dels, ?x)" "wf dels"
          "iset_of dels = insert ?x ?D"
        using change_sets.add_shifted_law[OF w(2), of "unshift_of ?I f"] by (auto simp: returns_iff back_to_def)
      have x: "?x \<notin> ?D" "xs ! ?x = ys ! f" using applies_nth[OF a ft(1) notin] by auto
      have "{f} - ?I = {f}" using notin by auto
      then have ap: "applies (iset_of dels) ?I' xs ?zs" using comp dels(3) by simp
      have "t \<notin> move_to ` set (carry_moves {f} {t} (moves c))"
      proof -
        have "back_to {t} {f} y \<noteq> t" for y using shift_of_notin[of "{t}"] by (auto simp: back_to_def)
        moreover have "move_to ` set (carry_moves {f} {t} (moves c)) \<subseteq> range (back_to {t} {f})"
          by (auto simp: carry_moves_def)
        ultimately show ?thesis by (metis (no_types, lifting) imageE subsetD)
      qed
      moreover have "?x \<notin> move_from ` set (carry_moves {f} {t} (moves c))"
        using m x(1) by (auto simp: carry_moves_def moves_ok_def)
      ultimately have "moves_ok (iset_of dels) ?I' (carry_moves {f} {t} (moves c) @ [\<lparr>move_from = ?x, move_to = t\<rparr>]) xs ?zs"
        using carried[of "iset_of dels"] dels(3) x(2) move_row_nth[OF ft(1,2)] by (auto simp: moves_ok_def)
      then have "describes (c\<lparr>insertions := ins2, deletions := dels,
          moves := carry_moves {f} {t} (moves c) @ [\<lparr>move_from = ?x, move_to = t\<rparr>]\<rparr>) xs ?zs"
        using ap i2 dels ok by (simp add: describes_def)
      note * = fin[OF this]
      have "cb_move c f t = for_each_col (\<lambda>col. let modified = contains col f; col = erase_at col f
        in if modified then insert_at col t 1 else shift_for_insert_at col t 1) (c\<lparr>insertions := ins2, deletions := dels,
          moves := carry_moves {f} {t} (moves c) @ [\<lparr>move_from = ?x, move_to = t\<rparr>]\<rparr>)"
        using ex False ft(3) u i2 um n dels by (simp add: cb_move_def realm_assert_def)
      then show ?thesis using * notin um[symmetric] g by simp
    qed
  qed
qed

end
