(* ===== verification/CollectionChangeMerge.thy ===== *)
theory CollectionChangeMerge
  imports CollectionChangeCorrect
begin

text \<open>
  \<open>CollectionChangeBuilder::merge\<close>: when one change set leads from \<open>xs\<close> to \<open>ys\<close> and a later
  one from \<open>ys\<close> to \<open>zs\<close>, the merged one leads from \<open>xs\<close> to \<open>zs\<close>; and \<open>finalize\<close>.
\<close>

section \<open>The columns of two change sets\<close>

definition covers :: "int list \<Rightarrow> change_builder \<Rightarrow> change_builder \<Rightarrow> bool" where
  "covers keys c d \<longleftrightarrow> distinct keys \<and> fst ` set (columns c) \<subseteq> set keys \<and> fst ` set (columns d) \<subseteq> set keys"

definition col_law :: "col_fun \<Rightarrow> (nat set \<Rightarrow> nat set \<Rightarrow> nat set) \<Rightarrow> (nat set \<Rightarrow> nat set \<Rightarrow> nat set) \<Rightarrow> bool" where
  "col_law f g h \<longleftrightarrow> (\<forall>s t. wf s \<longrightarrow> wf t \<longrightarrow> returns (f s t) (\<lambda>(s', t'). wf s' \<and> wf t' \<and>
     iset_of s' = g (iset_of s) (iset_of t) \<and> iset_of t' = h (iset_of s) (iset_of t))) \<and>
   g {} {} = {} \<and> h {} {} = {} \<and>
   (\<forall>A A' B B'. A \<subseteq> A' \<longrightarrow> B \<subseteq> B' \<longrightarrow> g A B \<subseteq> g A' B' \<and> h A B \<subseteq> h A' B')"

lemma col_lawD:
  assumes "col_law f g h" "wf s" "wf t"
  obtains s' t' where "f s t = Some (s', t')" "wf s'" "wf t'"
    "iset_of s' = g (iset_of s) (iset_of t)" "iset_of t' = h (iset_of s) (iset_of t)"
proof -
  have "returns (f s t) (\<lambda>(s', t'). wf s' \<and> wf t' \<and>
     iset_of s' = g (iset_of s) (iset_of t) \<and> iset_of t' = h (iset_of s) (iset_of t))"
    using assms by (simp add: col_law_def)
  then obtain p where "f s t = Some p" "case p of (s', t') \<Rightarrow> wf s' \<and> wf t' \<and>
     iset_of s' = g (iset_of s) (iset_of t) \<and> iset_of t' = h (iset_of s) (iset_of t)"
    unfolding returns_iff by blast
  then show thesis using that[of "fst p" "snd p"] by (simp add: case_prod_unfold)
qed

definition cols_ok :: "(int \<times> index_set) list \<Rightarrow> bool" where
  "cols_ok cols \<longleftrightarrow> (\<forall>(k, s)\<in>set cols. wf s) \<and> distinct (map fst cols)"

lemma cols_ok_update: "cols_ok cols \<Longrightarrow> wf s \<Longrightarrow> cols_ok (AList.update k s cols)"
  using wf_update[of cols s k] by (simp add: cols_ok_def distinct_update)

lemma fst_set_update: "fst ` set (AList.update k s cols) = insert k (fst ` set cols)"
  by (simp add: dom_update)

lemma merge_columns_props:
  assumes f: "col_law f g h" and "cols_ok (columns c)" "cols_ok (columns d)" "distinct keys"
  shows "\<exists>cc dc. merge_columns f keys c d = Some (c\<lparr>columns := cc\<rparr>, d\<lparr>columns := dc\<rparr>) \<and> cols_ok cc \<and> cols_ok dc \<and>
    fst ` set cc = fst ` set (columns c) \<union> set keys \<and> fst ` set dc = fst ` set (columns d) \<union> set keys \<and>
    (\<forall>k. iset_of (column_at cc k) = (if k \<in> set keys
        then g (iset_of (column_at (columns c) k)) (iset_of (column_at (columns d) k)) else iset_of (column_at (columns c) k)) \<and>
      iset_of (column_at dc k) = (if k \<in> set keys
        then h (iset_of (column_at (columns c) k)) (iset_of (column_at (columns d) k)) else iset_of (column_at (columns d) k)))"
  using assms(2-4)
proof (induction keys arbitrary: c d)
  case (Cons k ks)
  have "wf (column_at (columns c) k)" "wf (column_at (columns d) k)"
    using Cons.prems by (auto simp: cols_ok_def intro: wf_column_at)
  then obtain s t where st: "f (column_at (columns c) k) (column_at (columns d) k) = Some (s, t)" "wf s" "wf t"
    "iset_of s = g (iset_of (column_at (columns c) k)) (iset_of (column_at (columns d) k))"
    "iset_of t = h (iset_of (column_at (columns c) k)) (iset_of (column_at (columns d) k))"
    by (rule col_lawD[OF f])
  let ?c = "c\<lparr>columns := AList.update k s (columns c)\<rparr>" and ?d = "d\<lparr>columns := AList.update k t (columns d)\<rparr>"
  have prem: "cols_ok (columns ?c)" "cols_ok (columns ?d)" "distinct ks" "k \<notin> set ks"
    using Cons.prems st cols_ok_update by auto
  from Cons.IH[OF prem(1,2,3)] obtain cc dc where r: "merge_columns f ks ?c ?d = Some (?c\<lparr>columns := cc\<rparr>, ?d\<lparr>columns := dc\<rparr>)"
    "cols_ok cc" "cols_ok dc"
    "fst ` set cc = fst ` set (columns ?c) \<union> set ks" "fst ` set dc = fst ` set (columns ?d) \<union> set ks"
    "\<forall>j. iset_of (column_at cc j) = (if j \<in> set ks
        then g (iset_of (column_at (columns ?c) j)) (iset_of (column_at (columns ?d) j)) else iset_of (column_at (columns ?c) j)) \<and>
      iset_of (column_at dc j) = (if j \<in> set ks
        then h (iset_of (column_at (columns ?c) j)) (iset_of (column_at (columns ?d) j)) else iset_of (column_at (columns ?d) j))"
    by (elim exE conjE) (rule that; assumption)
  let ?g = "\<lambda>j. g (iset_of (column_at (columns c) j)) (iset_of (column_at (columns d) j))"
  let ?h = "\<lambda>j. h (iset_of (column_at (columns c) j)) (iset_of (column_at (columns d) j))"
  have "iset_of (column_at cc j) = (if j \<in> set (k # ks) then ?g j else iset_of (column_at (columns c) j)) \<and>
    iset_of (column_at dc j) = (if j \<in> set (k # ks) then ?h j else iset_of (column_at (columns d) j))" for j
  proof -
    have "columns ?c = AList.update k s (columns c)" "columns ?d = AList.update k t (columns d)" by simp_all
    note r6 = spec[OF r(6), of j, unfolded this column_at_update]
    show ?thesis
    proof (cases "j = k")
      case True
      then show ?thesis using r6 st(4,5) prem(4) by (simp only: if_True if_False simp_thms list.set insert_iff)
    next
      case False
      then show ?thesis using r6 by (simp only: if_False simp_thms list.set insert_iff)
    qed
  qed
  moreover have "fst ` set cc = fst ` set (columns c) \<union> set (k # ks)" "fst ` set dc = fst ` set (columns d) \<union> set (k # ks)"
    using r(4,5) by (simp_all add: fst_set_update)
  moreover have "merge_columns f (k # ks) c d = Some (c\<lparr>columns := cc\<rparr>, d\<lparr>columns := dc\<rparr>)"
    using r(1) st(1) by simp
  ultimately show ?case using r(2,3) by blast
next
  case Nil
  show ?case by (rule exI[of _ "columns c"], rule exI[of _ "columns d"]) (use Nil in simp)
qed

lemma column_at_outside: "fst ` set cols \<subseteq> K \<Longrightarrow> k \<notin> K \<Longrightarrow> column_at cols k = []"
  by (rule column_at_notin) auto

lemma merge_each_col_props:
  assumes f: "col_law f g h" and c: "sets_ok c" and d: "sets_ok d" and cov: "covers keys c d"
  shows "returns (merge_each_col keys f c d) (\<lambda>(c', d'). sets_ok c' \<and> sets_ok d' \<and> same_rest c c' \<and> same_rest d d' \<and>
    covers keys c' d' \<and>
    (\<forall>j. tracked c' j = g (tracked c j) (tracked d j) \<and> tracked d' j = h (tracked c j) (tracked d j)))"
proof -
  have w: "wf (modifications c)" "wf (modifications d)" "cols_ok (columns c)" "cols_ok (columns d)"
    using c d by (auto simp: sets_ok_def cols_ok_def)
  obtain m n where mn: "f (modifications c) (modifications d) = Some (m, n)" "wf m" "wf n"
    "iset_of m = g (iset_of (modifications c)) (iset_of (modifications d))"
    "iset_of n = h (iset_of (modifications c)) (iset_of (modifications d))"
    by (rule col_lawD[OF f w(1,2)])
  let ?c = "c\<lparr>modifications := m\<rparr>" and ?d = "d\<lparr>modifications := n\<rparr>"
  have prem: "cols_ok (columns ?c)" "cols_ok (columns ?d)" "distinct keys" using w cov by (auto simp: covers_def)
  from merge_columns_props[OF f prem] obtain cc dc where
    r: "merge_columns f keys ?c ?d = Some (?c\<lparr>columns := cc\<rparr>, ?d\<lparr>columns := dc\<rparr>)" "cols_ok cc" "cols_ok dc"
    "fst ` set cc = fst ` set (columns ?c) \<union> set keys" "fst ` set dc = fst ` set (columns ?d) \<union> set keys"
    "\<forall>k. iset_of (column_at cc k) = (if k \<in> set keys
        then g (iset_of (column_at (columns ?c) k)) (iset_of (column_at (columns ?d) k)) else iset_of (column_at (columns ?c) k)) \<and>
      iset_of (column_at dc k) = (if k \<in> set keys
        then h (iset_of (column_at (columns ?c) k)) (iset_of (column_at (columns ?d) k)) else iset_of (column_at (columns ?d) k))"
    by (elim exE conjE) (rule that; assumption)
  have none: "g {} {} = {}" "h {} {} = {}" using f by (auto simp: col_law_def)
  have cols: "iset_of (column_at cc k) = g (iset_of (column_at (columns c) k)) (iset_of (column_at (columns d) k))"
    "iset_of (column_at dc k) = h (iset_of (column_at (columns c) k)) (iset_of (column_at (columns d) k))" for k
    using spec[OF r(6), of k] none cov column_at_outside[of "columns c" "set keys" k] column_at_outside[of "columns d" "set keys" k]
    by (cases "k \<in> set keys"; simp add: covers_def)+
  let ?c' = "?c\<lparr>columns := cc\<rparr>" and ?d' = "?d\<lparr>columns := dc\<rparr>"
  have t: "tracked ?c' j = g (tracked c j) (tracked d j)" "tracked ?d' j = h (tracked c j) (tracked d j)" for j
    using cols mn(4,5) by (simp_all add: tracked_def split: option.splits)
  have sub: "tracked c j \<subseteq> tracked c None" "tracked d j \<subseteq> tracked d None" for j using c d by (auto simp: sets_ok_def)
  have "g (tracked c j) (tracked d j) \<subseteq> g (tracked c None) (tracked d None) \<and>
      h (tracked c j) (tracked d j) \<subseteq> h (tracked c None) (tracked d None)" for j
    using f sub[of j] by (simp add: col_law_def)
  then have "sets_ok ?c'" "sets_ok ?d'"
    using c d mn(2,3) r(2,3) t by (simp_all add: sets_ok_def cols_ok_def)
  moreover have "covers keys ?c' ?d'" using cov r(4,5) by (auto simp: covers_def)
  ultimately show ?thesis
    using t mn(1) r(1) c by (simp add: merge_each_col_def same_rest_def sets_ok_def)
qed

lemma covers_col_keys: "sets_ok c \<Longrightarrow> covers (col_keys c d) c d"
  by (auto simp: covers_def col_keys_def sets_ok_def)

lemma mark_moved_law:
  "col_law (mark_moved m) (\<lambda>A B. A) (\<lambda>A B. B \<union> (if move_from m \<in> A then {move_to m} else {}))"
  unfolding col_law_def
proof (intro conjI allI impI)
  fix s t assume w: "wf s" "wf t"
  show "returns (mark_moved m s t) (\<lambda>(s', t'). wf s' \<and> wf t' \<and> iset_of s' = iset_of s \<and>
      iset_of t' = iset_of t \<union> (if move_from m \<in> iset_of s then {move_to m} else {}))"
    using w returns_mono[OF add_props[OF w(2), of "move_to m"]] contains_iff[OF w(1)]
    by (auto simp: mark_moved_def elim!: returns_mono)
qed auto

lemma merge_rows_law:
  assumes "wf E" "wf J"
  shows "col_law (merge_rows E J)
    (\<lambda>A B. back_to (iset_of J) (iset_of E) ` (A - iset_of E) \<union> B) (\<lambda>A B. B)"
  unfolding col_law_def
proof (intro conjI allI impI)
  fix s t assume w: "wf s" "wf t"
  have e: "wf (shift_for_insert_at_set (erase_at_set s E) J)"
    "iset_of (shift_for_insert_at_set (erase_at_set s E) J) = back_to (iset_of J) (iset_of E) ` (iset_of s - iset_of E)"
    using shift_for_insert_at_set_props[OF erase_at_set_props(1)[OF w(1) assms(1)] assms(2)]
      erase_at_set_props(2)[OF w(1) assms(1)] by (simp_all add: back_to_def image_image)
  show "returns (merge_rows E J s t)
      (\<lambda>(s', t'). wf s' \<and> wf t' \<and>
        iset_of s' = back_to (iset_of J) (iset_of E) ` (iset_of s - iset_of E) \<union> iset_of t \<and> iset_of t' = iset_of t)"
    using returns_mono[OF add_set_props[OF e(1) w(2)]] e(2) w(2) by (auto simp: merge_rows_def elim!: returns_mono)
qed auto

section \<open>The moves of the first change set\<close>

text \<open>Where a row that the first change set moved to \<open>t\<close> is after the second, if it still is there.\<close>

definition next_pos :: "move list \<Rightarrow> nat set \<Rightarrow> nat set \<Rightarrow> nat \<Rightarrow> nat option" where
  "next_pos ms E J t = (case map_of (map (\<lambda>m. (move_from m, move_to m)) ms) t of
     Some x \<Rightarrow> Some x | None \<Rightarrow> if t \<in> E then None else Some (back_to J E t))"

definition next_move :: "move list \<Rightarrow> nat set \<Rightarrow> nat set \<Rightarrow> move \<Rightarrow> move option" where
  "next_move ms E J m = map_option (\<lambda>t. m\<lparr>move_to := t\<rparr>) (next_pos ms E J (move_to m))"

lemma map_of_moves:
  "distinct (map move_from ms) \<Longrightarrow>
     map_of (map (\<lambda>m. (move_from m, move_to m)) ms) t = Some x \<longleftrightarrow> (\<exists>m\<in>set ms. move_from m = t \<and> move_to m = x)"
  by (subst map_of_eq_Some_iff) (auto simp: comp_def)

lemma map_of_moves_None:
  "map_of (map (\<lambda>m. (move_from m, move_to m)) ms) t = None \<longleftrightarrow> t \<notin> move_from ` set ms"
  by (simp add: map_of_eq_None_iff image_image)

lemma next_pos_Some:
  assumes "distinct (map move_from ms)"
  shows "next_pos ms E J t = Some x \<longleftrightarrow>
    (\<exists>m\<in>set ms. move_from m = t \<and> move_to m = x) \<or> (t \<notin> move_from ` set ms \<and> t \<notin> E \<and> x = back_to J E t)"
proof (cases "map_of (map (\<lambda>m. (move_from m, move_to m)) ms) t")
  case None
  then have "t \<notin> move_from ` set ms" using map_of_moves_None by blast
  then show ?thesis using None by (auto simp: next_pos_def)
next
  case (Some y)
  then have "t \<in> move_from ` set ms" using map_of_moves_None[of ms t] by auto
  then show ?thesis using Some map_of_moves[OF assms, of t x] by (simp add: next_pos_def)
qed

lemma option_ext: "(\<And>x. a = Some x \<longleftrightarrow> b = Some x) \<Longrightarrow> a = b"
  by (cases a; cases b) auto

lemma map_filter_cong:
  "(\<And>x. x \<in> set xs \<Longrightarrow> f x = g x) \<Longrightarrow> List.map_filter f xs = List.map_filter g xs"
  by (induction xs) (simp_all add: List.map_filter_simps split: option.splits)

lemma swap_out_last:
  assumes "p < length xs"
  shows "mset (butlast (xs[p := last xs])) = mset xs - {#xs ! p#}"
proof -
  obtain zs z where xs: "xs = zs @ [z]" using assms by (cases xs rule: rev_cases) auto
  show ?thesis
  proof (cases "p = length zs")
    case False
    then have p: "p < length zs" using assms xs by simp
    have "mset (zs[p := z]) = add_mset z (mset zs - {#zs ! p#})" using p by (rule mset_update)
    then show ?thesis using xs p by (simp add: list_update_append butlast_append nth_append)
  qed (simp add: xs list_update_append butlast_append nth_append)
qed

lemma find_if_props:
  "find_if_from 0 P xs < length xs \<longleftrightarrow> (\<exists>x\<in>set xs. P x)"
  "find_if_from 0 P xs < length xs \<Longrightarrow> P (xs ! find_if_from 0 P xs)"
proof -
  show "find_if_from 0 P xs < length xs \<longleftrightarrow> (\<exists>x\<in>set xs. P x)"
    by (induction xs) (auto simp: find_if_from_def)
  show "find_if_from 0 P xs < length xs \<Longrightarrow> P (xs ! find_if_from 0 P xs)"
    using nth_length_takeWhile[of "\<lambda>x. \<not> P x" xs] by (simp add: find_if_from_def)
qed

definition marked_by :: "move list \<Rightarrow> nat set \<Rightarrow> nat set \<Rightarrow> nat set" where
  "marked_by ms T A = move_to ` {m \<in> set ms. move_from m \<in> T \<and> move_from m \<in> A}"

lemma mark_moved_props:
  assumes "sets_ok c" "sets_ok d" "covers keys c d"
  shows "returns (merge_each_col keys (mark_moved m) c d) (\<lambda>(c', d'). sets_ok c' \<and> sets_ok d' \<and>
    same_rest c c' \<and> same_rest d d' \<and> covers keys c' d' \<and>
    (\<forall>j. tracked c' j = tracked c j \<and>
      tracked d' j = tracked d j \<union> (if move_from m \<in> tracked c j then {move_to m} else {})))"
  using merge_each_col_props[OF mark_moved_law assms] by simp

definition updated_from :: "int list \<Rightarrow> nat set \<Rightarrow> move list \<Rightarrow> change_builder \<Rightarrow> change_builder \<Rightarrow>
    change_builder \<Rightarrow> change_builder \<Rightarrow> bool" where
  "updated_from keys T ms c d c' d' \<longleftrightarrow> sets_ok c' \<and> sets_ok d' \<and> covers keys c' d' \<and> same_rest c c' \<and>
     deletions d' = deletions d \<and> insertions d' = insertions d \<and>
     (\<forall>j. tracked c' j = tracked c j \<and> tracked d' j = tracked d j \<union> marked_by ms T (tracked c j))"

lemma update_moves_props:
  assumes "sets_ok c" "sets_ok d" "covers keys c d" "distinct (map move_from (moves d))" "distinct (map move_to olds)"
  shows "returns (update_moves keys olds c d) (\<lambda>(kept, c', d').
    updated_from keys (move_to ` set olds) (moves d) c d c' d' \<and>
    mset (moves d') = filter_mset (\<lambda>m. move_from m \<notin> move_to ` set olds) (mset (moves d)) \<and>
    kept = List.map_filter (next_move (moves d) (iset_of (deletions d)) (iset_of (insertions d))) olds)"
  using assms
proof (induction olds arbitrary: c d)
  case Nil
  then show ?case by (auto simp: updated_from_def marked_by_def same_rest_def List.map_filter_simps)
next
  case (Cons old olds)
  let ?E = "iset_of (deletions d)" and ?J = "iset_of (insertions d)" and ?t = "move_to old"
  let ?ms = "moves d"
  note dist = Cons.prems(4)
  have new: "?t \<notin> move_to ` set olds" using Cons.prems(5) by auto
  have w: "wf (deletions d)" "wf (insertions d)" using Cons.prems(2) by (auto simp: sets_ok_def)
  define p where "p = find_if_from 0 (\<lambda>m. ?t = move_from m) ?ms"
  show ?case
  proof (cases "p < length ?ms")
    case True
    define it where "it = ?ms ! p"
    have it: "it \<in> set ?ms" "move_from it = ?t" using True find_if_props(2)[of "\<lambda>m. ?t = move_from m" ?ms] by (auto simp: it_def p_def)
    obtain c1 d1 where m: "merge_each_col keys (mark_moved it) c d = Some (c1, d1)" "sets_ok c1" "sets_ok d1"
        "same_rest c c1" "same_rest d d1" "covers keys c1 d1"
        "\<forall>j. tracked c1 j = tracked c j \<and> tracked d1 j = tracked d j \<union> (if move_from it \<in> tracked c j then {move_to it} else {})"
      using mark_moved_props[OF Cons.prems(1,2,3), of it] by (auto simp: returns_iff)
    have d1: "moves d1 = ?ms" "deletions d1 = deletions d" "insertions d1 = insertions d" using m(5) by (auto simp: same_rest_def)
    define d2 where "d2 = d1\<lparr>moves := butlast (?ms[p := last ?ms])\<rparr>"
    have mset2: "mset (moves d2) = mset ?ms - {#it#}" using swap_out_last[OF True] by (simp add: d2_def it_def)
    have m_eq: "mset ?ms = add_mset it (mset (moves d2))" using mset2 it(1) by simp
    then have dist2: "distinct (map move_from (moves d2))" "it \<notin> set (moves d2)" "?t \<notin> move_from ` set (moves d2)"
      and set2: "set ?ms = insert it (set (moves d2))"
    proof -
      have "mset (map move_from ?ms) = mset (map move_from (it # moves d2))" using m_eq by simp
      then have "distinct (map move_from (it # moves d2))" using dist by (metis mset_eq_imp_distinct_iff)
      then show *: "distinct (map move_from (moves d2))" "?t \<notin> move_from ` set (moves d2)"
        using it(2) by auto
      show "it \<notin> set (moves d2)" using *(2) it(2) by (metis image_eqI)
      show "set ?ms = insert it (set (moves d2))" using m_eq by (metis set_mset_add_mset_insert set_mset_mset)
    qed
    have "sets_ok d2" "covers keys c1 d2" using m(3,6) by (simp_all add: d2_def covers_def)
    then have "returns (update_moves keys olds c1 d2) (\<lambda>(kept, c', d').
        updated_from keys (move_to ` set olds) (moves d2) c1 d2 c' d' \<and>
        mset (moves d') = filter_mset (\<lambda>m. move_from m \<notin> move_to ` set olds) (mset (moves d2)) \<and>
        kept = List.map_filter (next_move (moves d2) (iset_of (deletions d2)) (iset_of (insertions d2))) olds)"
      by (rule Cons.IH[OF m(2) _ _ dist2(1)]) (use Cons.prems(5) in simp)
    then obtain kept c' d' where u: "update_moves keys olds c1 d2 = Some (kept, c', d')"
        "updated_from keys (move_to ` set olds) (moves d2) c1 d2 c' d'"
        "mset (moves d') = filter_mset (\<lambda>m. move_from m \<notin> move_to ` set olds) (mset (moves d2))"
        "kept = List.map_filter (next_move (moves d2) ?E ?J) olds"
      using d1(2,3) by (auto simp: returns_iff d2_def)
    have eq: "next_move (moves d2) ?E ?J x = next_move ?ms ?E ?J x" if x: "x \<in> set olds" for x
    proof -
      have ne: "move_to x \<noteq> ?t" using new x by (metis imageI)
      have "map_of (map (\<lambda>m. (move_from m, move_to m)) (moves d2)) (move_to x) =
          map_of (map (\<lambda>m. (move_from m, move_to m)) ?ms) (move_to x)"
        by (rule option_ext) (use ne set2 it(2) in \<open>auto simp: map_of_moves[OF dist] map_of_moves[OF dist2(1)]\<close>)
      then show ?thesis by (simp add: next_move_def next_pos_def)
    qed
    have "map_of (map (\<lambda>m. (move_from m, move_to m)) ?ms) ?t = Some (move_to it)"
      using map_of_moves[OF dist] it by blast
    then have "next_move ?ms ?E ?J old = Some (old\<lparr>move_to := move_to it\<rparr>)"
      by (simp add: next_move_def next_pos_def)
    then have kept: "old\<lparr>move_to := move_to it\<rparr> # kept = List.map_filter (next_move ?ms ?E ?J) (old # olds)"
      using u(4) map_filter_cong[of olds, OF eq] by (simp add: List.map_filter_simps)
    have n2: "\<And>m. m \<in> set (moves d2) \<Longrightarrow> move_from m \<noteq> ?t" using dist2(3) by (metis imageI)
    have ms': "mset (moves d') = filter_mset (\<lambda>m. move_from m \<notin> move_to ` set (old # olds)) (mset ?ms)"
      unfolding u(3) m_eq using it(2) n2 by (auto intro!: filter_mset_cong)
    have mk: "marked_by ?ms (move_to ` set (old # olds)) A =
        (if move_from it \<in> A then {move_to it} else {}) \<union> marked_by (moves d2) (move_to ` set olds) A" for A
      using set2 it(2) n2 new by (auto simp: marked_by_def)
    have "updated_from keys (move_to ` set (old # olds)) ?ms c d c' d'"
      unfolding updated_from_def mk using u(2) m(4,7) d1
      by (auto simp: updated_from_def same_rest_def d2_def)
    then show ?thesis
      using True m(1) u(1) kept ms' d1(1) by (simp add: p_def[symmetric] it_def[symmetric] d2_def Let_def)
  next
    case False
    then have notin: "?t \<notin> move_from ` set ?ms" using find_if_props(1)[of "\<lambda>m. ?t = move_from m" ?ms] by (auto simp: p_def)
    have n2: "\<And>m. m \<in> set ?ms \<Longrightarrow> move_from m \<noteq> ?t" using notin by (metis imageI)
    have mk: "marked_by ?ms (move_to ` set (old # olds)) A = marked_by ?ms (move_to ` set olds) A" for A
      using n2 by (auto simp: marked_by_def)
    have ms_eq: "filter_mset (\<lambda>m. move_from m \<notin> move_to ` set (old # olds)) (mset ?ms) =
        filter_mset (\<lambda>m. move_from m \<notin> move_to ` set olds) (mset ?ms)"
      using n2 by (auto intro!: filter_mset_cong)
    obtain kept c' d' where u: "update_moves keys olds c d = Some (kept, c', d')"
        "updated_from keys (move_to ` set olds) ?ms c d c' d'"
        "mset (moves d') = filter_mset (\<lambda>m. move_from m \<notin> move_to ` set olds) (mset ?ms)"
        "kept = List.map_filter (next_move ?ms ?E ?J) olds"
      using Cons.IH[OF Cons.prems(1-4)] Cons.prems(5) by (auto simp: returns_iff)
    have u2: "updated_from keys (move_to ` set (old # olds)) ?ms c d c' d'"
      using u(2) unfolding updated_from_def mk .
    have "map_of (map (\<lambda>m. (move_from m, move_to m)) ?ms) ?t = None" using notin map_of_moves_None by blast
    then have nm: "next_move ?ms ?E ?J old = (if ?t \<in> ?E then None else Some (old\<lparr>move_to := back_to ?J ?E ?t\<rparr>))"
      by (simp add: next_move_def next_pos_def)
    show ?thesis
      using False u(1,3,4) u2 ms_eq nm contains_iff[OF w(1)] shift_eq[OF w(2)] unshift_eq[OF w(1)]
      by (simp add: p_def[symmetric] Let_def List.map_filter_simps back_to_def del: image_insert list.set)
  qed
qed

lemma mark_all_moved_props:
  assumes "sets_ok c" "sets_ok d" "covers keys c d"
  shows "returns (mark_all_moved keys ms c d) (\<lambda>(c', d'). sets_ok c' \<and> sets_ok d' \<and> covers keys c' d' \<and>
    same_rest c c' \<and> same_rest d d' \<and>
    (\<forall>j. tracked c' j = tracked c j \<and> tracked d' j = tracked d j \<union> marked_by ms UNIV (tracked c j)))"
  using assms
proof (induction ms arbitrary: c d)
  case (Cons m ms)
  obtain c1 d1 where m: "merge_each_col keys (mark_moved m) c d = Some (c1, d1)" "sets_ok c1" "sets_ok d1"
      "same_rest c c1" "same_rest d d1" "covers keys c1 d1"
      "\<forall>j. tracked c1 j = tracked c j \<and> tracked d1 j = tracked d j \<union> (if move_from m \<in> tracked c j then {move_to m} else {})"
    using mark_moved_props[OF Cons.prems, of m] by (auto simp: returns_iff)
  obtain c2 d2 where u: "mark_all_moved keys ms c1 d1 = Some (c2, d2)" "sets_ok c2" "sets_ok d2" "covers keys c2 d2"
      "same_rest c1 c2" "same_rest d1 d2"
      "\<forall>j. tracked c2 j = tracked c1 j \<and> tracked d2 j = tracked d1 j \<union> marked_by ms UNIV (tracked c1 j)"
    using Cons.IH[OF m(2,3,6)] by (auto simp: returns_iff)
  have mk: "marked_by (m # ms) UNIV A = (if move_from m \<in> A then {move_to m} else {}) \<union> marked_by ms UNIV A" for A
    by (auto simp: marked_by_def)
  show ?case unfolding mk using m u by (auto simp: same_rest_def)
qed (simp add: same_rest_def marked_by_def)

section \<open>The merged moves\<close>

lemma next_pos_inj:
  assumes "finite J" "distinct (map move_from ms)" "distinct (map move_to ms)" "\<forall>m\<in>set ms. move_to m \<in> J"
    "next_pos ms E J t = Some x" "next_pos ms E J u = Some x"
  shows "t = u"
proof -
  have no: "back_to J E y \<notin> J" for y using shift_of_notin[OF assms(1)] by (simp add: back_to_def)
  have inj: "m = n" if "m \<in> set ms" "n \<in> set ms" "move_to m = move_to n" for m n
    using that assms(3) by (simp add: distinct_map inj_on_def)
  show ?thesis
    using assms(5,6) unfolding next_pos_Some[OF assms(2)]
    using no inj assms(4) back_to_inj[OF assms(1), of t E u] by (elim disjE conjE bexE) metis+
qed

lemma map_filter_next_move:
  "m \<in> set (List.map_filter (next_move ms E J) olds) \<longleftrightarrow>
     (\<exists>k\<in>set olds. \<exists>x. next_pos ms E J (move_to k) = Some x \<and> m = k\<lparr>move_to := x\<rparr>)"
  by (induction olds) (auto simp: List.map_filter_simps next_move_def split: option.splits)

lemma distinct_next_moves:
  assumes "distinct (map move_from olds)" "distinct (map move_to olds)" "finite J"
    "distinct (map move_from ms)" "distinct (map move_to ms)" "\<forall>m\<in>set ms. move_to m \<in> J"
  shows "distinct (map move_from (List.map_filter (next_move ms E J) olds))"
    "distinct (map move_to (List.map_filter (next_move ms E J) olds))"
proof -
  let ?K = "List.map_filter (next_move ms E J)"
  note inj = next_pos_inj[OF assms(3-6)]
  have "distinct (map move_from (?K olds)) \<and> distinct (map move_to (?K olds))"
    using assms(1,2)
  proof (induction olds)
    case (Cons k olds)
    have a: "move_from m \<noteq> move_from k" if mk: "m \<in> set (?K olds)" for m
    proof -
      obtain k' where "k' \<in> set olds" "move_from m = move_from k'" using mk unfolding map_filter_next_move by auto
      then show ?thesis using Cons.prems(1) by (metis distinct.simps(2) image_eqI list.set_map list.simps(9))
    qed
    have b: "move_to m \<noteq> x" if "m \<in> set (?K olds)" "next_pos ms E J (move_to k) = Some x" for m x
    proof
      assume "move_to m = x"
      with that obtain k' where "k' \<in> set olds" "next_pos ms E J (move_to k') = Some x"
        unfolding map_filter_next_move by auto
      then have "move_to k' = move_to k" using inj that(2) by blast
      then show False using \<open>k' \<in> set olds\<close> Cons.prems(2) by (metis distinct.simps(2) image_eqI list.set_map list.simps(9))
    qed
    have IH: "distinct (map move_from (?K olds)) \<and> distinct (map move_to (?K olds))" using Cons by simp
    show ?case
    proof (cases "next_pos ms E J (move_to k)")
      case None
      then have "next_move ms E J k = None" by (simp add: next_move_def)
      then show ?thesis using IH by (simp add: List.map_filter_simps)
    next
      case (Some x)
      then have "next_move ms E J k = Some (k\<lparr>move_to := x\<rparr>)" by (simp add: next_move_def)
      then show ?thesis using IH a b[OF _ Some] by (fastforce simp: List.map_filter_simps)
    qed
  qed (simp add: List.map_filter_simps)
  then show "distinct (map move_from (?K olds))" "distinct (map move_to (?K olds))" by auto
qed

lemma distinct_map_submset:
  assumes "mset xs \<subseteq># mset ys" "distinct (map f ys)"
  shows "distinct (map f xs)"
proof -
  obtain zs where "mset zs = mset ys - mset xs" using ex_mset by blast
  then have "mset (map f ys) = mset (map f (xs @ zs))" using assms(1) by (simp flip: image_mset_union)
  then have "distinct (map f (xs @ zs))" using assms(2) by (metis mset_eq_imp_distinct_iff)
  then show ?thesis by simp
qed

lemma merged_moves_ok:
  assumes 1: "applies D I xs ys" and 2: "applies E J ys zs"
    and c: "moves_ok D I olds xs ys" and d: "moves_ok E J ms ys zs"
    and ms': "mset ms' = filter_mset (\<lambda>m. move_from m \<notin> move_to ` set olds) (mset ms)"
  shows "moves_ok (D \<union> back_to D I ` (E - I)) (J \<union> back_to J E ` (I - E))
    (List.map_filter (next_move ms E J) olds @
     map (\<lambda>m. m\<lparr>move_from := back_to D I (move_from m)\<rparr>) (filter (\<lambda>m. move_from m \<notin> I) ms')) xs zs"
proof -
  let ?K = "List.map_filter (next_move ms E J) olds" and ?F = "filter (\<lambda>m. move_from m \<notin> I) ms'"
  let ?N = "map (\<lambda>m. m\<lparr>move_from := back_to D I (move_from m)\<rparr>) ?F"
  note a = appliesD[OF 1] and b = appliesD[OF 2]
  have cm: "\<forall>m\<in>set olds. move_from m \<in> D \<and> move_to m \<in> I \<and> xs ! move_from m = ys ! move_to m"
    "distinct (map move_from olds)" "distinct (map move_to olds)" using c by (auto simp: moves_ok_def)
  have dm: "\<forall>m\<in>set ms. move_from m \<in> E \<and> move_to m \<in> J \<and> ys ! move_from m = zs ! move_to m"
    "distinct (map move_from ms)" "distinct (map move_to ms)" using d by (auto simp: moves_ok_def)
  have set': "set ms' = {m \<in> set ms. move_from m \<notin> move_to ` set olds}"
    by (metis ms' set_mset_filter set_mset_mset)
  have "mset ms' \<subseteq># mset ms" by (simp add: ms')
  then have dist': "distinct (map move_from ms')" "distinct (map move_to ms')"
    using dm(2,3) distinct_map_submset by blast+
  have J: "\<forall>m\<in>set ms. move_to m \<in> J" using dm(1) by auto
  note K = distinct_next_moves[OF cm(2,3) b(2) dm(2,3) J, of E]
  have el_K: "move_from m \<in> D \<and> move_to m \<in> J \<union> back_to J E ` (I - E) \<and> xs ! move_from m = zs ! move_to m"
    if m: "m \<in> set ?K" for m
  proof -
    obtain k x where k: "k \<in> set olds" "next_pos ms E J (move_to k) = Some x" "m = k\<lparr>move_to := x\<rparr>"
      using m unfolding map_filter_next_move by blast
    have kd: "move_from k \<in> D" "move_to k \<in> I" "xs ! move_from k = ys ! move_to k" using cm(1) k(1) by auto
    have "move_to k < length ys" using kd(2) a(4) by auto
    then have far: "zs ! back_to J E (move_to k) = ys ! move_to k" if "move_to k \<notin> E"
      using applies_nth(3)[OF applies_sym[OF 2] _ that] by simp
    from k(2) show ?thesis unfolding next_pos_Some[OF dm(2)]
      using kd k(3) dm(1) far by (elim disjE conjE bexE) auto
  qed
  have N: "move_from n \<in> E \<and> move_to n \<in> J \<and> ys ! move_from n = zs ! move_to n \<and> move_from n \<notin> I \<and>
      move_from n \<notin> move_to ` set olds \<and> n \<in> set ms" if "n \<in> set ?F" for n
    using that dm(1) set' by auto
  have el_N: "back_to D I (move_from n) \<in> back_to D I ` (E - I) \<and> back_to D I (move_from n) \<notin> D \<and>
      xs ! back_to D I (move_from n) = zs ! move_to n" if "n \<in> set ?F" for n
    using N[OF that] applies_nth(2,3)[OF 1, of "move_from n"] b(3) by auto
  have "distinct (map move_from ?F)" "distinct (map move_to ?F)"
    using dist' by (simp_all add: distinct_map_filter)
  moreover have "inj_on (back_to D I) (set (map move_from ?F))"
    using a(1) back_to_inj by (auto simp: inj_on_def)
  moreover have "map move_from ?N = map (back_to D I) (map move_from ?F)" "map move_to ?N = map move_to ?F" by simp_all
  ultimately have distN: "distinct (map move_from ?N)" "distinct (map move_to ?N)"
    by (simp_all only: distinct_map[of "back_to D I"])
  have froms: "move_from m \<noteq> move_from n" if "m \<in> set ?K" "n \<in> set ?N" for m n
    using el_K[OF that(1)] that(2) el_N by auto
  have tos: "move_to m \<noteq> move_to n" if m: "m \<in> set ?K" and n: "n \<in> set ?N" for m n
  proof
    assume eq: "move_to m = move_to n"
    obtain n' where n': "n' \<in> set ?F" "move_to n' = move_to n" using n by auto
    obtain k x where k: "k \<in> set olds" "next_pos ms E J (move_to k) = Some x" "m = k\<lparr>move_to := x\<rparr>"
      using m unfolding map_filter_next_move by blast
    from k(2) show False unfolding next_pos_Some[OF dm(2)]
    proof (elim disjE conjE bexE)
      fix q assume q: "q \<in> set ms" "move_from q = move_to k" "move_to q = x"
      then have "q = n'" using eq n' N[OF n'(1)] k(3) dm(3) by (auto simp: distinct_map inj_on_def)
      then show False using q(2) N[OF n'(1)] k(1) by (metis imageI)
    next
      assume "x = back_to J E (move_to k)"
      then have "x \<notin> J" using shift_of_notin[OF b(2)] by (simp add: back_to_def)
      then show False using eq n' N[OF n'(1)] k(3) by simp
    qed
  qed
  have disj: "set (map move_from ?K) \<inter> set (map move_from ?N) = {}" "set (map move_to ?K) \<inter> set (map move_to ?N) = {}"
    unfolding set_map[of _ ?K] set_map[of _ ?N] using froms tos by blast+
  have "distinct (map move_from (?K @ ?N))"
    unfolding map_append distinct_append by (intro conjI K(1) distN(1) disj(1))
  moreover have "distinct (map move_to (?K @ ?N))"
    unfolding map_append distinct_append by (intro conjI K(2) distN(2) disj(2))
  moreover have "\<forall>m\<in>set (?K @ ?N). move_from m \<in> D \<union> back_to D I ` (E - I) \<and>
      move_to m \<in> J \<union> back_to J E ` (I - E) \<and> xs ! move_from m = zs ! move_to m"
  proof
    fix m assume "m \<in> set (?K @ ?N)"
    then consider "m \<in> set ?K" | n where "n \<in> set ?F" "m = n\<lparr>move_from := back_to D I (move_from n)\<rparr>"
      unfolding set_append Un_iff set_map by blast
    then show "move_from m \<in> D \<union> back_to D I ` (E - I) \<and>
      move_to m \<in> J \<union> back_to J E ` (I - E) \<and> xs ! move_from m = zs ! move_to m"
    proof cases
      case 1
      then show ?thesis using el_K by blast
    next
      case (2 n)
      then show ?thesis using el_N[OF 2(1)] N[OF 2(1)] by simp
    qed
  qed
  ultimately show ?thesis unfolding moves_ok_def by blast
qed

section \<open>Stale moves\<close>

lemma clean_stale_props:
  assumes "wf dels" "wf ins" "applies (iset_of dels) (iset_of ins) xs ys"
    "moves_ok (iset_of dels) (iset_of ins) ms xs ys"
  shows "returns (clean_stale dels ins ms) (\<lambda>(dels', ins', ms'). wf dels' \<and> wf ins' \<and>
    applies (iset_of dels') (iset_of ins') xs ys \<and> moves_ok (iset_of dels') (iset_of ins') ms' xs ys \<and>
    (\<exists>gone \<subseteq> set ms. iset_of dels' = iset_of dels - move_from ` gone \<and> iset_of ins' = iset_of ins - move_to ` gone \<and>
      set ms' = set ms - gone))"
  using assms
proof (induction dels ins ms rule: clean_stale.induct)
  case (2 dels ins m ms)
  have mo: "\<forall>n\<in>set (m # ms). move_from n \<in> iset_of dels \<and> move_to n \<in> iset_of ins \<and> xs ! move_from n = ys ! move_to n"
    "distinct (map move_from (m # ms))" "distinct (map move_to (m # ms))" using "2.prems"(4) by (auto simp: moves_ok_def)
  have new: "move_from n \<noteq> move_from m" "move_to n \<noteq> move_to m" "n \<noteq> m" if "n \<in> set ms" for n
    using mo(2,3) that by (auto dest: image_eqI)
  have cnt: "move_from m - index_count dels 0 (move_from m) = unshift_of (iset_of dels) (move_from m)"
    "move_to m - index_count ins 0 (move_to m) = unshift_of (iset_of ins) (move_to m)"
    using "2.prems"(1,2) by (simp_all add: index_count_from_0 unshift_of_eq_diff)
  show ?case
  proof (cases "unshift_of (iset_of dels) (move_from m) = unshift_of (iset_of ins) (move_to m)")
    case False
    have "moves_ok (iset_of dels) (iset_of ins) ms xs ys" using "2.prems"(4) by (auto simp: moves_ok_def)
    then obtain dels' ins' ms' gone where r: "clean_stale dels ins ms = Some (dels', ins', ms')" "wf dels'" "wf ins'"
        "applies (iset_of dels') (iset_of ins') xs ys" "moves_ok (iset_of dels') (iset_of ins') ms' xs ys"
        "gone \<subseteq> set ms" "iset_of dels' = iset_of dels - move_from ` gone" "iset_of ins' = iset_of ins - move_to ` gone"
        "set ms' = set ms - gone"
      using "2.IH"(1) "2.prems"(1-3) False cnt by (auto simp: returns_iff)
    have "move_from m \<notin> move_from ` gone" "move_to m \<notin> move_to ` gone" "m \<notin> gone"
      using new r(6) by (metis imageE subsetD)+
    moreover have "move_from m \<notin> move_from ` set ms'" "move_to m \<notin> move_to ` set ms'" using new r(9) by (metis DiffD1 imageE)+
    ultimately have "moves_ok (iset_of dels') (iset_of ins') (m # ms') xs ys" "set (m # ms') = set (m # ms) - gone"
      using r(5,7,8,9) mo(1) by (auto simp: moves_ok_def)
    then show ?thesis
      using r False cnt by (auto simp: returns_iff intro!: exI[of _ gone])
  next
    case True
    have "move_from m \<in> iset_of dels" "move_to m \<in> iset_of ins" "xs ! move_from m = ys ! move_to m" using mo(1) by auto
    from change_sets.unmove_step[OF "2.prems"(1,2,3) this True]
    obtain d1 i1 where s: "remove dels (move_from m) 1 = Some d1" "remove ins (move_to m) 1 = Some i1" "wf d1" "wf i1"
        "iset_of d1 = iset_of dels - {move_from m}" "iset_of i1 = iset_of ins - {move_to m}"
        "applies (iset_of d1) (iset_of i1) xs ys"
      by (auto simp: returns_iff)
    have "moves_ok (iset_of d1) (iset_of i1) ms xs ys"
      using mo new s(5,6) by (auto simp: moves_ok_def)
    then obtain dels' ins' ms' gone where r: "clean_stale d1 i1 ms = Some (dels', ins', ms')" "wf dels'" "wf ins'"
        "applies (iset_of dels') (iset_of ins') xs ys" "moves_ok (iset_of dels') (iset_of ins') ms' xs ys"
        "gone \<subseteq> set ms" "iset_of dels' = iset_of d1 - move_from ` gone" "iset_of ins' = iset_of i1 - move_to ` gone"
        "set ms' = set ms - gone"
      using "2.IH"(2)[OF _ s(1,2) s(3,4,7)] True cnt by (auto simp: returns_iff)
    have "set ms' = set (m # ms) - insert m gone" using r(9) new by auto
    then show ?thesis
      using r s(1,2,5,6) True cnt by (auto simp: returns_iff intro!: exI[of _ "insert m gone"])
  qed
qed auto

section \<open>Merging\<close>

lemma back_to_id [simp]: "back_to {} {} x = x"
  using shift_of_unshift_of[of x "{}"] by (simp add: back_to_def)

lemma unshift_of_empty [simp]: "unshift_of {} x = x"
  by (simp add: unshift_of_def)

lemma move_from_same [simp]: "m\<lparr>move_from := move_from m\<rparr> = m"
  by simp

lemma applies_nothing: "applies {} {} xs ys \<longleftrightarrow> xs = ys"
  by (auto simp: applies_def nths_all)

text \<open>The rows marked modified by a merge: the moved rows that were marked before.\<close>

definition moved_marks :: "change_builder \<Rightarrow> change_builder \<Rightarrow> nat set \<Rightarrow> nat set" where
  "moved_marks c d A = marked_by (moves d) (move_to ` set (moves c) \<union> - iset_of (insertions c)) A"

text \<open>
  The moves that a merge starts from: the old ones, whose rows may have moved on, and the new ones of rows that were
  not inserted.
\<close>

definition candidate_moves :: "change_builder \<Rightarrow> change_builder \<Rightarrow> move set" where
  "candidate_moves c d =
     {m\<lparr>move_to := x\<rparr> |m x. m \<in> set (moves c) \<and> next_pos (moves d) (iset_of (deletions d)) (iset_of (insertions d)) (move_to m) = Some x} \<union>
     {m\<lparr>move_from := back_to (iset_of (deletions c)) (iset_of (insertions c)) (move_from m)\<rparr> |m.
        m \<in> set (moves d) \<and> move_from m \<notin> iset_of (insertions c)}"

text \<open>All of them are kept whose rows have not come back to their old place among the other rows.\<close>

definition keeps_moves :: "move set \<Rightarrow> change_builder \<Rightarrow> bool" where
  "keeps_moves ms r \<longleftrightarrow> set (moves r) \<subseteq> ms \<and>
     (\<forall>m\<in>ms - set (moves r). move_from m \<notin> iset_of (deletions r) \<and> move_to m \<notin> iset_of (insertions r))"

lemma candidate_moves_list:
  assumes "moves_ok D I (moves c) xs ys" "mset ms' = filter_mset (\<lambda>m. move_from m \<notin> move_to ` set (moves c)) (mset (moves d))"
    and "D = iset_of (deletions c)" "I = iset_of (insertions c)"
  shows "set (List.map_filter (next_move (moves d) (iset_of (deletions d)) (iset_of (insertions d))) (moves c) @
      map (\<lambda>m. m\<lparr>move_from := back_to D I (move_from m)\<rparr>) (filter (\<lambda>m. move_from m \<notin> I) ms')) = candidate_moves c d"
proof -
  have "set ms' = {m \<in> set (moves d). move_from m \<notin> move_to ` set (moves c)}"
    by (metis assms(2) set_mset_filter set_mset_mset)
  moreover have "move_to m \<in> I" if "m \<in> set (moves c)" for m using assms(1) that by (auto simp: moves_ok_def)
  ultimately have "set (filter (\<lambda>m. move_from m \<notin> I) ms') = {m \<in> set (moves d). move_from m \<notin> I}" by fastforce
  then have "set (map (\<lambda>m. m\<lparr>move_from := back_to D I (move_from m)\<rparr>) (filter (\<lambda>m. move_from m \<notin> I) ms')) =
      {m\<lparr>move_from := back_to D I (move_from m)\<rparr> |m. m \<in> set (moves d) \<and> move_from m \<notin> I}"
    by (auto simp del: set_filter)
  moreover have "set (List.map_filter (next_move ms E J) olds) =
      {m\<lparr>move_to := x\<rparr> |m x. m \<in> set olds \<and> next_pos ms E J (move_to m) = Some x}" for ms E J olds
    by (intro set_eqI, unfold map_filter_next_move mem_Collect_eq) blast
  ultimately show ?thesis unfolding set_append candidate_moves_def assms(3,4) by simp
qed

lemma step_old_moves:
  assumes c: "describes c xs ys" and d: "describes d ys zs"
  shows "\<exists>c1 d1. merge_old_moves (col_keys c d) c d = Some (c1, d1) \<and> sets_ok c1 \<and> sets_ok d1 \<and> covers (col_keys c d) c1 d1 \<and>
    deletions c1 = deletions c \<and> insertions c1 = insertions c \<and> deletions d1 = deletions d \<and> insertions d1 = insertions d \<and>
    moves c1 = List.map_filter (next_move (moves d) (iset_of (deletions d)) (iset_of (insertions d))) (moves c) \<and>
    mset (moves d1) = filter_mset (\<lambda>m. move_from m \<notin> move_to ` set (moves c)) (mset (moves d)) \<and>
    (\<forall>j. tracked c1 j = tracked c j \<and>
      tracked d1 j = tracked d j \<union> marked_by (moves d) (move_to ` set (moves c)) (tracked c j))"
proof (cases "moves d \<noteq> [] \<or> \<not> empty (deletions d) \<or> \<not> empty (insertions d)")
  case True
  have "sets_ok c" "sets_ok d" "distinct (map move_from (moves d))" "distinct (map move_to (moves c))"
    using c d by (auto simp: describes_def moves_ok_def)
  from update_moves_props[OF this(1,2) covers_col_keys[OF this(1)] this(3,4)]
  obtain kept c' d' where "update_moves (col_keys c d) (moves c) c d = Some (kept, c', d')"
      "updated_from (col_keys c d) (move_to ` set (moves c)) (moves d) c d c' d'"
      "mset (moves d') = filter_mset (\<lambda>m. move_from m \<notin> move_to ` set (moves c)) (mset (moves d))"
      "kept = List.map_filter (next_move (moves d) (iset_of (deletions d)) (iset_of (insertions d))) (moves c)"
    by (auto simp: returns_iff)
  then show ?thesis using True
    by (intro exI[of _ "c'\<lparr>moves := kept\<rparr>"] exI[of _ d']) (simp add: merge_old_moves_def updated_from_def same_rest_def covers_def)
next
  case False
  then have e: "moves d = []" "deletions d = []" "insertions d = []" by (auto simp: empty_def)
  have "next_move [] {} {} m = Some m" for m by (simp add: next_move_def next_pos_def)
  then have "List.map_filter (next_move [] {} {}) ms = ms" for ms
    by (induction ms) (simp_all add: List.map_filter_simps)
  then show ?thesis using False e c d covers_col_keys[of c d]
    by (auto simp: merge_old_moves_def describes_def marked_by_def)
qed

theorem merge_props:
  assumes c: "describes c xs ys" and d: "describes d ys zs" and room: "add_room (deletions c) (deletions d)"
  shows "returns (cb_merge c d) (\<lambda>r. describes r xs zs \<and> (\<forall>j. tracked r j =
    back_to (iset_of (insertions d)) (iset_of (deletions d)) ` (tracked c j - iset_of (deletions d)) \<union>
    tracked d j \<union> moved_marks c d (tracked c j)) \<and> keeps_moves (candidate_moves c d) r)"
proof -
  let ?D = "iset_of (deletions c)" and ?I = "iset_of (insertions c)"
  let ?E = "iset_of (deletions d)" and ?J = "iset_of (insertions d)"
  have okc: "sets_ok c" and ac: "applies ?D ?I xs ys" and mc: "moves_ok ?D ?I (moves c) xs ys"
    using c by (auto simp: describes_def)
  have okd: "sets_ok d" and ad: "applies ?E ?J ys zs" and md: "moves_ok ?E ?J (moves d) ys zs"
    using d by (auto simp: describes_def)
  have w: "wf (deletions c)" "wf (insertions c)" "wf (deletions d)" "wf (insertions d)"
    using okc okd by (auto simp: sets_ok_def)
  have mv2: "distinct (map move_from (moves d))" "moves c = [] \<or> insertions c \<noteq> []"
    using mc md by (auto simp: moves_ok_def iset_of_def)
  have none: "tracked x j = {}" if "sets_ok x" "cs_empty x" for x j
    using that by (auto simp: sets_ok_def cs_empty_def empty_def tracked_def)
  consider "cs_empty d" | "\<not> cs_empty d" "cs_empty c" | "\<not> cs_empty d" "\<not> cs_empty c" by blast
  then show ?thesis
  proof cases
    case 1
    then have "deletions d = []" "insertions d = []" "moves d = []" by (auto simp: cs_empty_def empty_def)
    moreover from this have "candidate_moves c d = set (moves c)"
      by (auto simp: candidate_moves_def next_pos_def)
    ultimately show ?thesis using 1 c ad none[OF okd 1]
      by (simp add: cb_merge_def applies_nothing moved_marks_def marked_by_def keeps_moves_def)
  next
    case 2
    then have "deletions c = []" "insertions c = []" by (auto simp: cs_empty_def empty_def)
    moreover from this have "candidate_moves c d = set (moves d)"
      using mv2(2) by (auto simp: candidate_moves_def)
    ultimately show ?thesis using 2 d ac none[OF okc 2(2)]
      by (simp add: cb_merge_def applies_nothing moved_marks_def marked_by_def keeps_moves_def)
  next
    case 3
    let ?keys = "col_keys c d"
    obtain c1 d1 where s1: "merge_old_moves ?keys c d = Some (c1, d1)" and ok1: "sets_ok c1" "sets_ok d1" "covers ?keys c1 d1"
      and same1: "deletions c1 = deletions c" "insertions c1 = insertions c" "deletions d1 = deletions d" "insertions d1 = insertions d"
      and mv1: "moves c1 = List.map_filter (next_move (moves d) ?E ?J) (moves c)"
        "mset (moves d1) = filter_mset (\<lambda>m. move_from m \<notin> move_to ` set (moves c)) (mset (moves d))"
      and t1: "\<forall>j. tracked c1 j = tracked c j \<and>
        tracked d1 j = tracked d j \<union> marked_by (moves d) (move_to ` set (moves c)) (tracked c j)"
      using step_old_moves[OF c d] by (elim exE conjE) (rule that; assumption)
    define d2 where "d2 = drop_moves_of_inserted c1 d1"
    have d2: "sets_ok d2" "covers ?keys c1 d2" "deletions d2 = deletions d" "insertions d2 = insertions d"
        "moves d2 = filter (\<lambda>m. move_from m \<notin> ?I) (moves d1)" "\<forall>j. tracked d2 j = tracked d1 j"
      using ok1 same1 contains_iff[OF w(2)] by (auto simp: d2_def drop_moves_of_inserted_def covers_def empty_def)
    have "\<exists>c3 d3. keep_moved_modified ?keys c1 d2 = Some (c3, d3) \<and> sets_ok c3 \<and> sets_ok d3 \<and> covers ?keys c3 d3 \<and>
        same_rest c1 c3 \<and> same_rest d2 d3 \<and>
        (\<forall>j. tracked c3 j = tracked c j \<and> tracked d3 j = tracked d1 j \<union> marked_by (moves d2) UNIV (tracked c j))"
    proof (cases "\<not> empty (modifications c1) \<and> moves d2 \<noteq> []")
      case True
      then show ?thesis using mark_all_moved_props[OF ok1(1) d2(1,2), of "moves d2"] t1 d2(6)
        by (auto simp: returns_iff keep_moved_modified_def)
    next
      case False
      have "marked_by (moves d2) UNIV (tracked c j) = {}" for j
      proof (cases "moves d2 = []")
        case False
        then have "tracked c1 None = {}" using \<open>\<not> (\<not> empty (modifications c1) \<and> moves d2 \<noteq> [])\<close> by (simp add: tracked_def empty_def)
        then have "tracked c1 j = {}" using ok1(1) unfolding sets_ok_def by blast
        then show ?thesis using t1 by (simp add: marked_by_def)
      qed (simp add: marked_by_def)
      then show ?thesis using False ok1 d2 t1 by (auto simp: same_rest_def keep_moved_modified_def)
    qed
    then obtain c3 d3 where s3: "keep_moved_modified ?keys c1 d2 = Some (c3, d3)" and ok3: "sets_ok c3" "sets_ok d3" "covers ?keys c3 d3"
      and same3: "same_rest c1 c3" "same_rest d2 d3"
      and t3: "\<forall>j. tracked c3 j = tracked c j \<and> tracked d3 j = tracked d1 j \<union> marked_by (moves d2) UNIV (tracked c j)"
      by (elim exE conjE) (rule that; assumption)
    define d4 where "d4 = unshift_new_moves c3 d3"
    have c3: "deletions c3 = deletions c" "insertions c3 = insertions c" "moves c3 = moves c1"
      using same3(1) same1 by (auto simp: same_rest_def)
    have d4: "sets_ok d4" "covers ?keys c3 d4" "deletions d4 = deletions d" "insertions d4 = insertions d"
        "moves d4 = map (\<lambda>m. m\<lparr>move_from := back_to ?D ?I (move_from m)\<rparr>) (moves d2)"
        "\<forall>j. tracked d4 j = tracked d3 j"
      using ok3 same3(2) d2(3,4) shift_eq[OF w(1)] unshift_eq[OF w(2)] c3
      by (auto simp: d4_def unshift_new_moves_def same_rest_def covers_def empty_def back_to_def map_idI)
    define c5 where "c5 = c3\<lparr>moves := moves c3 @ moves d4\<rparr>"
    from change_sets.merge_step[OF w ac ad room]
    obtain dels where dels: "add_shifted_by (deletions c) (insertions c) (deletions d) = Some dels" "wf dels"
        "wf (insert_at_set (erase_at_set (insertions c) (deletions d)) (insertions d))"
        "applies (iset_of dels) (iset_of (insert_at_set (erase_at_set (insertions c) (deletions d)) (insertions d))) xs zs"
        "iset_of dels = ?D \<union> back_to ?D ?I ` (?E - ?I)"
        "iset_of (insert_at_set (erase_at_set (insertions c) (deletions d)) (insertions d)) = ?J \<union> back_to ?J ?E ` (?I - ?E)"
      by (auto simp: returns_iff)
    define ins where "ins = insert_at_set (erase_at_set (insertions c) (deletions d)) (insertions d)"
    have mv: "moves_ok (iset_of dels) (iset_of ins) (moves c5) xs zs"
      using merged_moves_ok[OF ac ad mc md mv1(2)] dels(5,6) c3(3) mv1(1) d4(5) d2(5) by (simp add: c5_def ins_def)
    have cand: "set (moves c5) = candidate_moves c d"
      using candidate_moves_list[OF mc mv1(2) refl refl] c3(3) mv1(1) d4(5) d2(5) by (simp add: c5_def)
    obtain dels' ins' ms' gone where cl: "clean_stale dels ins (moves c5) = Some (dels', ins', ms')" "wf dels'" "wf ins'"
        "applies (iset_of dels') (iset_of ins') xs zs" "moves_ok (iset_of dels') (iset_of ins') ms' xs zs"
      and gone: "gone \<subseteq> set (moves c5)" "iset_of dels' = iset_of dels - move_from ` gone" "iset_of ins' = iset_of ins - move_to ` gone"
        "set ms' = set (moves c5) - gone"
      using clean_stale_props[OF dels(2) _ _ mv] dels(3,4) by (auto simp: returns_iff ins_def)
    define c7 where "c7 = c5\<lparr>deletions := dels', insertions := ins', moves := ms'\<rparr>"
    have c7: "sets_ok c7" "covers ?keys c7 d4" "\<forall>j. tracked c7 j = tracked c j"
      using ok3(1) d4(2) cl(2,3) t3 by (simp_all add: c7_def c5_def covers_def)
    have s7: "clean_up_stale_moves (c5\<lparr>deletions := dels, insertions := ins\<rparr>) = Some c7"
      by (simp add: clean_up_stale_moves_def c7_def cl(1))
    from merge_each_col_props[OF merge_rows_law[OF w(3,4)] c7(1) d4(1) c7(2)]
    obtain c8 d8 where s8: "merge_each_col ?keys (merge_rows (deletions d) (insertions d)) c7 d4 = Some (c8, d8)" "sets_ok c8" "same_rest c7 c8"
        "\<forall>j. tracked c8 j = back_to ?J ?E ` (tracked c7 j - ?E) \<union> tracked d4 j"
      by (auto simp: returns_iff)
    have "describes c8 xs zs"
      using s8(2,3) cl by (simp add: describes_def same_rest_def c7_def)
    moreover have "tracked c8 j = back_to ?J ?E ` (tracked c j - ?E) \<union> tracked d j \<union> moved_marks c d (tracked c j)" for j
    proof -
      have "set (moves d1) = {m \<in> set (moves d). move_from m \<notin> move_to ` set (moves c)}"
        by (metis mv1(2) set_mset_filter set_mset_mset)
      then have "marked_by (moves d) (move_to ` set (moves c)) A \<union> marked_by (moves d2) UNIV A = moved_marks c d A" for A
        unfolding d2(5) by (auto simp: marked_by_def moved_marks_def)
      then show ?thesis using s8(4) c7(3) d4(6) t3 t1 by (simp add: Un_assoc)
    qed
    moreover have "cb_merge c d = Some c8"
      using 3 by (simp add: cb_merge_def Let_def s1 d2_def[symmetric] s3 d4_def[symmetric] c5_def[symmetric] c3(1,2)
          d4(3,4) dels(1) ins_def[symmetric] s7 s8(1))
    moreover have "keeps_moves (candidate_moves c d) c8"
      using s8(3) gone unfolding cand by (auto simp: keeps_moves_def same_rest_def c7_def)
    ultimately show ?thesis by simp
  qed
qed

section \<open>The final change set\<close>

theorem finalize_props:
  assumes c: "describes c xs ys" and m: "tracked c None \<subseteq> {..<length ys}"
  shows "returns (cb_finalize c) (\<lambda>f. deletions f = deletions c \<and> insertions f = insertions c \<and> moves f = moves c \<and>
    columns f = columns c \<and> wf (modifications f) \<and> wf (modifications_new f) \<and>
    iset_of (modifications_new f) = tracked c None - iset_of (insertions c) \<and>
    iset_of (modifications f) = back_to (iset_of (deletions c)) (iset_of (insertions c)) ` iset_of (modifications_new f) \<and>
    card (iset_of (modifications f)) = card (iset_of (modifications_new f)) \<and>
    iset_of (modifications f) \<subseteq> {..<length xs} - iset_of (deletions c) \<and>
    (\<forall>x\<in>iset_of (modifications_new f). xs ! back_to (iset_of (deletions c)) (iset_of (insertions c)) x = ys ! x))"
proof -
  let ?D = "iset_of (deletions c)" and ?I = "iset_of (insertions c)" and ?M = "iset_of (modifications c)"
  have ok: "sets_ok c" and a: "applies ?D ?I xs ys" using c by (auto simp: describes_def)
  have w: "wf (deletions c)" "wf (insertions c)" "wf (modifications c)" using ok by (auto simp: sets_ok_def)
  have M: "?M \<subseteq> {..<length ys}" using m by (simp add: tracked_def)
  define old where "old = shift_for_insert_at_set (erase_at_set (modifications c) (insertions c)) (deletions c)"
  have old: "wf old" "iset_of old = back_to ?D ?I ` (?M - ?I)"
    using shift_for_insert_at_set_props[OF erase_at_set_props(1)[OF w(3,2)] w(1)] erase_at_set_props(2)[OF w(3,2)]
    by (simp_all add: old_def back_to_def image_image)
  have "inj_on (back_to ?D ?I) (?M - ?I)" using appliesD(1)[OF a] by (auto simp: inj_on_def back_to_inj)
  then have "card (iset_of old) = card (?M - ?I)" using old(2) by (simp add: card_image)
  moreover have "iset_of old \<subseteq> {..<length xs} - ?D" using old(2) applies_nth(1,2)[OF a] M by auto
  moreover have "\<forall>x\<in>?M - ?I. xs ! back_to ?D ?I x = ys ! x" using applies_nth(3)[OF a] M by auto
  ultimately show ?thesis
    unfolding cb_finalize_def Let_def old_def[symmetric]
    using old by (auto simp: tracked_def intro!: returns_mono[OF remove_set_props[OF w(3,2)]])
qed

end
