(* ===== verification/CollectionChangeProperties.thy ===== *)
theory CollectionChangeProperties
  imports CollectionChangeMerge
begin

text \<open>
  The properties of the change builder. \<open>describes c xs ys\<close>: the sets of \<open>c\<close> are well formed,
  removing the deletions from \<open>xs\<close> and inserting at the insertions gives \<open>ys\<close>, and every move
  names a deleted and an inserted row that are the same row. \<open>tracked c j\<close> is the set of rows
  marked modified (\<open>None\<close>) or modified in column \<open>j\<close>.
\<close>

lemma tracked_empty [simp]: "tracked empty_builder j = {}"
  by (simp add: tracked_def empty_builder_def column_at_def split: option.splits)

text \<open>C3. Merging: if \<open>c\<close> leads from \<open>xs\<close> to \<open>ys\<close> and \<open>d\<close> from \<open>ys\<close> to \<open>zs\<close>, the merged change set leads
  from \<open>xs\<close> to \<open>zs\<close>. Its modified rows are those of \<open>c\<close> that still exist, at their new positions,
  those of \<open>d\<close>, and the rows that \<open>d\<close> moved while they were marked in \<open>c\<close>. Its moves are among the moves of \<open>c\<close>, which go on
  to where \<open>d\<close> has the row, and the moves of \<open>d\<close> of rows that \<open>c\<close> did not insert; those of them that are dropped name rows
  that are neither deleted nor inserted any more. The ranges of the old deletions and the number of new ones must be small enough that no new chunk of ranges
  is begun (at most 256 together when there are fewer than 256 ranges): the builder of index sets miscounts otherwise
  (\<open>builder_loses_count\<close>).\<close>

theorem merge_correct:
  assumes "describes c xs ys" "describes d ys zs"
    and "length (ranges (deletions c)) + card (iset_of (deletions d))
      \<le> max_size * (length (ranges (deletions c)) div max_size + 1)"
  shows "returns (cb_merge c d) (\<lambda>r. describes r xs zs \<and> (\<forall>j. tracked r j =
    (\<lambda>x. shift (insertions d) (unshift (deletions d) x)) ` (tracked c j - iset_of (deletions d)) \<union> tracked d j \<union>
    {move_to m | m. m \<in> set (moves d) \<and> move_from m \<in> tracked c j \<and>
      (move_from m \<in> move_to ` set (moves c) \<or> move_from m \<notin> iset_of (insertions c))}) \<and>
    keeps_moves
      ({m\<lparr>move_to := move_to n\<rparr> |m n. m \<in> set (moves c) \<and> n \<in> set (moves d) \<and> move_from n = move_to m} \<union>
       {m\<lparr>move_to := shift (insertions d) (unshift (deletions d) (move_to m))\<rparr> |m.
          m \<in> set (moves c) \<and> move_to m \<notin> iset_of (deletions d)} \<union>
       {m\<lparr>move_from := shift (deletions c) (unshift (insertions c) (move_from m))\<rparr> |m.
          m \<in> set (moves d) \<and> move_from m \<notin> iset_of (insertions c)}) r)"
proof -
  have w: "wf (deletions c)" "wf (insertions c)" "wf (deletions d)" "wf (insertions d)"
    using assms(1,2) by (auto simp: describes_def sets_ok_def)
  then have place: "back_to (iset_of (insertions d)) (iset_of (deletions d)) =
      (\<lambda>x. shift (insertions d) (unshift (deletions d) x))"
    and origin: "back_to (iset_of (deletions c)) (iset_of (insertions c)) =
      (\<lambda>x. shift (deletions c) (unshift (insertions c) x))"
    by (simp_all add: back_to_def shift_eq unshift_eq fun_eq_iff)
  moreover have "moved_marks c d A = {move_to m | m. m \<in> set (moves d) \<and> move_from m \<in> A \<and>
      (move_from m \<in> move_to ` set (moves c) \<or> move_from m \<notin> iset_of (insertions c))}" for A
    by (auto simp: moved_marks_def marked_by_def)
  moreover have md: "distinct (map move_from (moves d))" "\<forall>m\<in>set (moves d). move_from m \<in> iset_of (deletions d)"
    using assms(2) by (auto simp: describes_def moves_ok_def)
  have "{m\<lparr>move_to := x\<rparr> |m x. m \<in> set (moves c) \<and>
        next_pos (moves d) (iset_of (deletions d)) (iset_of (insertions d)) (move_to m) = Some x} =
      {m\<lparr>move_to := move_to n\<rparr> |m n. m \<in> set (moves c) \<and> n \<in> set (moves d) \<and> move_from n = move_to m} \<union>
      {m\<lparr>move_to := shift (insertions d) (unshift (deletions d) (move_to m))\<rparr> |m.
         m \<in> set (moves c) \<and> move_to m \<notin> iset_of (deletions d)}" (is "?A = ?B")
  proof (intro set_eqI iffI)
    fix y assume "y \<in> ?A"
    then show "y \<in> ?B" unfolding next_pos_Some[OF md(1)] place by blast
  next
    fix y assume "y \<in> ?B"
    then show "y \<in> ?A" unfolding next_pos_Some[OF md(1)] place using md(2) by fastforce
  qed
  then have "candidate_moves c d =
      {m\<lparr>move_to := move_to n\<rparr> |m n. m \<in> set (moves c) \<and> n \<in> set (moves d) \<and> move_from n = move_to m} \<union>
      {m\<lparr>move_to := shift (insertions d) (unshift (deletions d) (move_to m))\<rparr> |m.
         m \<in> set (moves c) \<and> move_to m \<notin> iset_of (deletions d)} \<union>
      {m\<lparr>move_from := shift (deletions c) (unshift (insertions c) (move_from m))\<rparr> |m.
         m \<in> set (moves d) \<and> move_from m \<notin> iset_of (insertions c)}"
    unfolding candidate_moves_def origin by (rule arg_cong)
  ultimately show ?thesis using merge_props[OF assms(1,2)] assms(3) by (simp add: add_room_def)
qed

text \<open>C17. \<open>finalize\<close> reports the modified rows that were not inserted, once as positions in the new
  collection and once as positions in the old one; they correspond one to one.\<close>

theorem finalize_correct:
  assumes "describes c xs ys" "tracked c None \<subseteq> {..<length ys}"
  shows "returns (cb_finalize c) (\<lambda>f. deletions f = deletions c \<and> insertions f = insertions c \<and> moves f = moves c \<and>
    iset_of (modifications_new f) = tracked c None - iset_of (insertions c) \<and>
    iset_of (modifications f) = (\<lambda>x. shift (deletions c) (unshift (insertions c) x)) ` iset_of (modifications_new f) \<and>
    card (iset_of (modifications f)) = card (iset_of (modifications_new f)) \<and>
    iset_of (modifications f) \<subseteq> {..<length xs} - iset_of (deletions c) \<and>
    (\<forall>x\<in>iset_of (modifications_new f). xs ! shift (deletions c) (unshift (insertions c) x) = ys ! x))"
proof -
  have "wf (deletions c)" "wf (insertions c)" using assms(1) by (auto simp: describes_def sets_ok_def)
  then have "back_to (iset_of (deletions c)) (iset_of (insertions c)) =
      (\<lambda>x. shift (deletions c) (unshift (insertions c) x))"
    by (simp add: back_to_def shift_eq unshift_eq fun_eq_iff)
  then show ?thesis using finalize_props[OF assms] by (auto elim!: returns_mono)
qed

text \<open>Inserting rows: the change set leads to the collection with the rows inserted, and the marks
  of the modified rows move with them.\<close>

theorem insert_correct:
  assumes "describes c xs ys" "i \<le> length ys" "new \<noteq> []"
  shows "returns (cb_insert c i (length new) True) (\<lambda>c'. describes c' xs (take i ys @ new @ drop i ys) \<and>
    (\<forall>j. tracked c' j = (\<lambda>x. if x < i then x else x + length new) ` tracked c j))"
  using insert_props[OF assms] by (simp add: insert_rows_def open_gap_def)

theorem insert_correct_witness:
  "returns (cb_insert empty_builder 1 2 True) (\<lambda>c'. describes c' [10, 20] [10, 7, 8, 20 :: int])"
  using insert_correct[OF describes_empty, of 1 "[10, 20 :: int]" "[7, 8]"]
  by (auto simp: numeral_2_eq_2 elim!: returns_mono)

text \<open>C16. Erasing a row: it is reported as a deletion of the old collection, or, when it had been
  inserted, not at all; a move that ended there disappears.\<close>

theorem erase_correct:
  assumes "describes c xs ys" "i < length ys" "length ys \<le> npos"
  shows "returns (cb_erase c i) (\<lambda>c'. describes c' xs (take i ys @ drop (Suc i) ys) \<and>
    (\<forall>j. tracked c' j = (\<lambda>x. if x < i then x else x - 1) ` (tracked c j - {i})))"
  using erase_props[OF assms] by (simp add: remove_row_def close_gap_def)

theorem erase_correct_witness:
  "returns (cb_erase empty_builder 1) (\<lambda>c'. describes c' [10, 20, 30] [10, 30 :: int])"
  using erase_correct[OF describes_empty, of 1 "[10, 20, 30 :: int]"] by (auto simp: npos_def elim!: returns_mono)

text \<open>C15. Moving a row: a row that was moved before keeps one move with the new destination, a row of
  the old collection gets a move from its old position, an inserted row none, and the destinations of the other moves follow their rows.
  In each case the change set leads to the collection with the row moved, and the marks follow the rows.\<close>

theorem move_correct:
  assumes "describes c xs ys" "f < length ys" "t < length ys" "f \<noteq> t" "length ys \<le> npos"
  defines "follow \<equiv> \<lambda>x. if t \<le> x \<and> x < f then x + 1 else if x \<le> t \<and> f < x then x - 1 else x"
  shows "returns (cb_move c f t) (\<lambda>c'.
    describes c' xs (let zs = take f ys @ drop (Suc f) ys in take t zs @ ys ! f # drop t zs) \<and>
    (\<forall>j. tracked c' j = (if f \<in> tracked c j then {t} else {}) \<union> follow ` (tracked c j - {f})) \<and>
    moves c' = map (\<lambda>m. m\<lparr>move_to := (if move_to m = f then t else follow (move_to m))\<rparr>) (moves c) @
      (if f \<in> iset_of (insertions c) then []
       else [\<lparr>move_from = shift (deletions c) (unshift (insertions c) f), move_to = t\<rparr>]))"
proof -
  have follow: "back_to {t} {f} x = follow x" if "x \<noteq> f" for x
    using back_to_moved[OF that, of t] by (simp add: follow_def)
  then have marks: "back_to {t} {f} ` (A - {f}) = follow ` (A - {f})" for A
    by (intro image_cong[OF refl]) auto
  have destinations: "map (\<lambda>m. m\<lparr>move_to := (if move_to m = f then t else back_to {t} {f} (move_to m))\<rparr>) ms =
      map (\<lambda>m. m\<lparr>move_to := (if move_to m = f then t else follow (move_to m))\<rparr>) ms" for ms
    using follow by simp
  have "wf (deletions c)" "wf (insertions c)" using assms(1) by (auto simp: describes_def sets_ok_def)
  then have origin: "back_to (iset_of (deletions c)) (iset_of (insertions c)) f = shift (deletions c) (unshift (insertions c) f)"
    by (simp add: back_to_def shift_eq unshift_eq)
  show ?thesis
    using move_props[OF assms(1-5)] unfolding marks destinations origin move_row_def insert_rows_def remove_row_def Let_def append_Cons append_Nil .
qed

theorem move_correct_witness:
  "returns (cb_move empty_builder 0 2) (\<lambda>c'. describes c' [10, 20, 30] [20, 30, 10 :: int] \<and>
    moves c' = [\<lparr>move_from = shift [] (unshift [] 0), move_to = 2\<rparr>])"
  using move_correct[OF describes_empty, of 0 "[10, 20, 30 :: int]" 2]
  by (auto simp: npos_def empty_builder_def elim!: returns_mono)

theorem merge_correct_witness:
  "\<exists>c d. cb_insert empty_builder 1 2 True = Some c \<and> cb_erase empty_builder 0 = Some d \<and>
    returns (cb_merge c d) (\<lambda>r. describes r [10, 20] [7, 8, 20 :: int])"
proof -
  obtain c where c: "cb_insert empty_builder 1 2 True = Some c" "describes c [10, 20] [10, 7, 8, 20 :: int]"
      "deletions c = []"
  proof -
    obtain c where c: "cb_insert empty_builder 1 2 True = Some c" "describes c [10, 20] [10, 7, 8, 20 :: int]"
      using insert_props[OF describes_empty, of 1 "[10, 20 :: int]" "[7, 8]"]
      by (auto simp: returns_iff insert_rows_def numeral_2_eq_2)
    moreover have "deletions c = []"
      using c(1) by (auto simp: cb_insert_def realm_assert_def for_each_col_def empty_builder_def
          split: Option.bind_splits)
    ultimately show thesis using that by blast
  qed
  obtain d where d: "cb_erase empty_builder 0 = Some d" "describes d [10, 7, 8, 20] [7, 8, 20 :: int]"
    using erase_props[OF describes_empty, of 0 "[10, 7, 8, 20 :: int]"] by (auto simp: returns_iff remove_row_def npos_def)
  have "iset_of (deletions d) \<subseteq> {..<4}" using d(2) by (auto simp: describes_def applies_def)
  then have "card (iset_of (deletions d)) \<le> card {..<4 :: nat}" by (intro card_mono) auto
  then have "length (ranges (deletions c)) + card (iset_of (deletions d))
      \<le> max_size * (length (ranges (deletions c)) div max_size + 1)"
    using c(3) by (simp add: max_size_def)
  from merge_correct[OF c(2) d(2) this] show ?thesis using c(1) d(1) by (auto elim!: returns_mono)
qed

theorem finalize_correct_witness:
  "\<exists>c. cb_modify empty_builder 1 None = Some c \<and>
    returns (cb_finalize c) (\<lambda>f. iset_of (modifications_new f) = {1} - iset_of (insertions c))"
proof -
  obtain c where c: "cb_modify empty_builder 1 None = Some c" "describes c [10, 20 :: int] [10, 20]"
      "tracked c None = {1}"
    using modify_props[OF describes_empty, of 1 None "[10, 20 :: int]"] by (auto simp: returns_iff)
  have "returns (cb_finalize c) (\<lambda>f. iset_of (modifications_new f) = {1} - iset_of (insertions c))"
    using finalize_correct[OF c(2)] c(3) by (auto elim!: returns_mono)
  then show ?thesis using c(1) by blast
qed

text \<open>Clearing the collection and marking a row modified. After \<open>clear\<close> with the current size all
  rows of the old collection are deletions and nothing else is left.\<close>

theorem clear_and_modify_correct:
  assumes "describes c xs ys"
  shows "returns (cb_clear c (length ys)) (\<lambda>c'. describes c' xs [] \<and> iset_of (deletions c') = {..<length xs} \<and>
      (\<forall>j. tracked c' j = {})) \<and>
    returns (cb_modify c i col) (\<lambda>c'. describes c' xs ys \<and>
      (\<forall>j. tracked c' j = (if j = None \<or> j = col then insert i (tracked c j) else tracked c j)))"
  using clear_props[OF assms] modify_props[OF assms] by blast

theorem clear_and_modify_correct_witness:
  "returns (cb_clear empty_builder 2) (\<lambda>c'. iset_of (deletions c') = {0, 1}) \<and>
   returns (cb_modify empty_builder 1 (Some 7)) (\<lambda>c'. tracked c' (Some 7) = {1})"
proof -
  note c = clear_and_modify_correct[OF describes_empty, of "[10, 20 :: int]" 1 "Some 7"]
  have "returns (cb_clear empty_builder 2) (\<lambda>c'. iset_of (deletions c') = {0, 1})"
    using conjunct1[OF c] by (auto simp: numeral_2_eq_2 elim!: returns_mono)
  moreover have "returns (cb_modify empty_builder 1 (Some 7)) (\<lambda>c'. tracked c' (Some 7) = {1})"
    by (rule returns_mono[OF conjunct2[OF c]]) simp
  ultimately show ?thesis by blast
qed

end
