(* ===== verification/CollectionDiff.thy ===== *)
theory CollectionDiff
  imports CollectionChange "HOL-Library.Product_Lexorder"
begin

text \<open>
  \<open>CollectionChangeBuilder::calculate\<close> (impl/collection_change_builder.cpp): the change set that leads
  from one sequence of rows to another, by pairing the rows of the same key and then aligning the
  two sequences of paired rows with the longest common blocks. \<open>verify\<close> and \<open>verify_changeset\<close> are
  empty without \<open>REALM_DEBUG\<close>.
\<close>

section \<open>Rows\<close>

record row_info =
  ri_key :: int
  prev_tv_index :: nat
  ri_tv_index :: nat

record lcs_row =
  row_key :: int
  row_tv_index :: nat

record lcs_match =
  match_i :: nat
  match_j :: nat
  match_size :: nat
  match_modified :: nat

text \<open>
  \<open>std::sort\<close> by key alone leaves the order of rows of the same key open; it is a parameter. The
  other comparisons determine the order, as no two rows compare equal.
\<close>

type_synonym key_sort = "row_info list \<Rightarrow> row_info list"

section \<open>Longest common blocks\<close>

text \<open>The length of the block ending at \<open>b[j]\<close>: one more than the block ending at \<open>b[j - 1]\<close>.\<close>

definition block_length :: "(nat \<times> nat) list \<Rightarrow> nat \<Rightarrow> nat" where
  "block_length prev j = (case find (\<lambda>(k, len). k + 1 = j) prev of Some (_, len) \<Rightarrow> len + 1 | None \<Rightarrow> 1)"

text \<open>The loop over the occurrences of the key in \<open>b\<close>.\<close>

fun each_b_match :: "lcs_row list \<Rightarrow> int \<Rightarrow> nat \<Rightarrow> nat \<Rightarrow> (nat \<Rightarrow> 's \<Rightarrow> 's option) \<Rightarrow> 's \<Rightarrow> 's option" where
  "each_b_match [] ai begin2 end2 f s = Some s"
| "each_b_match (r # rs) ai begin2 end2 f s =
     (if row_key r \<noteq> ai then Some s
      else if row_tv_index r < begin2 then each_b_match rs ai begin2 end2 f s
      else if row_tv_index r \<ge> end2 then Some s
      else do { s \<leftarrow> f (row_tv_index r) s; each_b_match rs ai begin2 end2 f s })"

definition for_each_b_match :: "lcs_row list \<Rightarrow> int \<Rightarrow> nat \<Rightarrow> nat \<Rightarrow> (nat \<Rightarrow> 's \<Rightarrow> 's option) \<Rightarrow> 's \<Rightarrow> 's option" where
  "for_each_b_match b ai begin2 end2 f s =
     (let it = lower_bound_from 0 (\<lambda>r. row_key r < ai) b in
      do { realm_assert (it < length b \<and> row_key (b ! it) = ai); each_b_match (drop it b) ai begin2 end2 f s })"

text \<open>\<open>x - size + 1\<close> in \<open>size_t\<close>.\<close>

definition back_from :: "nat \<Rightarrow> nat \<Rightarrow> nat" where
  "back_from x n = (x + 1 + 2 ^ 64 - n) mod 2 ^ 64"

definition update_best :: "index_set \<Rightarrow> nat \<Rightarrow> nat \<Rightarrow> nat \<Rightarrow> lcs_match \<Rightarrow> lcs_match" where
  "update_best mods i j len best =
     (if len > match_size best
      then \<lparr>match_i = back_from i len, match_j = back_from j len, match_size = len, match_modified = npos\<rparr>
      else if len = match_size best then
        let best = (if match_modified best = npos
                    then best\<lparr>match_modified := index_count mods (back_from (match_j best) len) (match_j best + 1)\<rparr>
                    else best);
            count = index_count mods (back_from j len) (j + 1)
        in if count < match_modified best
           then \<lparr>match_i = back_from i len, match_j = back_from j len, match_size = len, match_modified = count\<rparr>
           else best
      else best)"

definition try_match :: "index_set \<Rightarrow> nat \<Rightarrow> nat \<Rightarrow> nat \<Rightarrow> nat \<Rightarrow> (nat \<times> nat) list \<Rightarrow> nat \<Rightarrow> nat \<Rightarrow>
    (nat \<times> nat) list \<times> lcs_match \<Rightarrow> ((nat \<times> nat) list \<times> lcs_match) option" where
  "try_match mods begin1 end1 begin2 end2 prev i j s =
     (let (cur, best) = s;
          len = block_length prev j;
          cur = cur @ [(j, len)];
          best = update_best mods i j len best
      in do {
        realm_assert (match_i best \<ge> begin1 \<and> match_i best + match_size best \<le> end1);
        realm_assert (match_j best \<ge> begin2 \<and> match_j best + match_size best \<le> end2);
        Some (cur, best)
      })"

text \<open>The rows \<open>a[i], ..., a[end1 - 1]\<close>, with the blocks ending at the previous row.\<close>

fun scan_rows :: "index_set \<Rightarrow> lcs_row list \<Rightarrow> lcs_row list \<Rightarrow> nat \<Rightarrow> nat \<Rightarrow> nat \<Rightarrow> nat \<Rightarrow> nat list \<Rightarrow>
    (nat \<times> nat) list \<Rightarrow> lcs_match \<Rightarrow> lcs_match option" where
  "scan_rows mods a b begin1 end1 begin2 end2 [] prev best = Some best"
| "scan_rows mods a b begin1 end1 begin2 end2 (i # is) prev best =
     do {
       (cur, best) \<leftarrow> for_each_b_match b (row_key (a ! i)) begin2 end2
         (try_match mods begin1 end1 begin2 end2 prev i) ([], best);
       scan_rows mods a b begin1 end1 begin2 end2 is cur best
     }"

definition find_longest_match :: "index_set \<Rightarrow> lcs_row list \<Rightarrow> lcs_row list \<Rightarrow> nat \<Rightarrow> nat \<Rightarrow> nat \<Rightarrow> nat \<Rightarrow> lcs_match option" where
  "find_longest_match mods a b begin1 end1 begin2 end2 =
     scan_rows mods a b begin1 end1 begin2 end2 [begin1..<end1] []
       \<lparr>match_i = begin1, match_j = begin2, match_size = 0, match_modified = 0\<rparr>"

text \<open>The block found lies in the range searched, as asserted; so the recursion below ends.\<close>

lemma each_b_match_inv:
  assumes "\<And>j s t. P s \<Longrightarrow> f j s = Some t \<Longrightarrow> P t" "P s" "each_b_match rs ai b e f s = Some t"
  shows "P t"
  using assms(2,3)
proof (induction rs arbitrary: s)
  case (Cons r rs)
  then show ?case using assms(1) by (auto split: if_splits Option.bind_splits)
qed simp

lemma for_each_b_match_inv:
  assumes "\<And>j s t. P s \<Longrightarrow> f j s = Some t \<Longrightarrow> P t" "P s" "for_each_b_match b ai begin2 end2 f s = Some t"
  shows "P t"
proof (rule each_b_match_inv[where P = P and f = f, OF assms(1,2)])
  show "each_b_match (drop (lower_bound_from 0 (\<lambda>r. row_key r < ai) b) b) ai begin2 end2 f s = Some t"
    using assms(3) by (simp add: for_each_b_match_def realm_assert_def Let_def split: if_splits)
qed

definition in_range :: "nat \<Rightarrow> nat \<Rightarrow> lcs_match \<Rightarrow> bool" where
  "in_range begin1 end1 m \<longleftrightarrow> match_size m = 0 \<or> begin1 \<le> match_i m \<and> match_i m + match_size m \<le> end1"

lemma scan_rows_in_range:
  assumes "in_range begin1 end1 best" "scan_rows mods a b begin1 end1 begin2 end2 is prev best = Some m"
  shows "in_range begin1 end1 m"
  using assms
proof (induction "is" arbitrary: prev best)
  case (Cons i "is")
  let ?f = "try_match mods begin1 end1 begin2 end2 prev i"
  obtain cur best' where s: "for_each_b_match b (row_key (a ! i)) begin2 end2 ?f ([], best) = Some (cur, best')"
      "scan_rows mods a b begin1 end1 begin2 end2 is cur best' = Some m"
    using Cons.prems(2) by (auto split: Option.bind_splits)
  have step: "in_range begin1 end1 (snd t)" if "?f j s = Some t" for j s t
    using that by (auto simp: try_match_def realm_assert_def in_range_def Let_def split: prod.splits if_splits)
  have "in_range begin1 end1 (snd (cur, best'))"
    by (rule for_each_b_match_inv[where P = "\<lambda>s. in_range begin1 end1 (snd s)", OF step _ s(1)]) (simp_all add: Cons.prems(1))
  then show ?case using Cons.IH s(2) by simp
qed simp

lemma find_longest_match_in_range:
  "find_longest_match mods a b begin1 end1 begin2 end2 = Some m \<Longrightarrow> match_size m \<noteq> 0 \<Longrightarrow>
     begin1 \<le> match_i m \<and> match_i m + match_size m \<le> end1"
  using scan_rows_in_range[of begin1 end1 "\<lparr>match_i = begin1, match_j = begin2, match_size = 0, match_modified = 0\<rparr>"]
  by (fastforce simp: find_longest_match_def in_range_def)

function find_longest_matches :: "index_set \<Rightarrow> lcs_row list \<Rightarrow> lcs_row list \<Rightarrow> nat \<Rightarrow> nat \<Rightarrow> nat \<Rightarrow> nat \<Rightarrow> lcs_match list option" where
  "find_longest_matches mods a b begin1 end1 begin2 end2 =
     (case find_longest_match mods a b begin1 end1 begin2 end2 of
        None \<Rightarrow> None
      | Some m \<Rightarrow>
          if match_size m = 0 then Some []
          else do {
            before \<leftarrow> if match_i m > begin1 \<and> match_j m > begin2
              then find_longest_matches mods a b begin1 (match_i m) begin2 (match_j m) else Some [];
            after \<leftarrow> if match_i m + match_size m < end2 \<and> match_j m + match_size m < end2
              then find_longest_matches mods a b (match_i m + match_size m) end1 (match_j m + match_size m) end2 else Some [];
            Some (before @ [m] @ after)
          })"
  by pat_completeness auto
termination
  by (relation "measure (\<lambda>(mods, a, b, begin1, end1, begin2, end2). end1 - begin1)")
    (auto dest: find_longest_match_in_range)

declare find_longest_matches.simps [simp del]

text \<open>The constructor of \<open>LongestCommonSubsequenceCalculator\<close>: \<open>m_longest_matches\<close>.\<close>

definition longest_matches :: "index_set \<Rightarrow> lcs_row list \<Rightarrow> lcs_row list \<Rightarrow> nat \<Rightarrow> lcs_match list option" where
  "longest_matches mods a b start_index =
     do {
       ms \<leftarrow> find_longest_matches mods a b start_index (length a) start_index (length b);
       Some (ms @ [\<lparr>match_i = length a, match_j = length b, match_size = 0, match_modified = 0\<rparr>])
     }"

section \<open>Moved rows\<close>

fun add_indexes :: "index_set \<Rightarrow> nat list \<Rightarrow> index_set option" where
  "add_indexes s [] = Some s"
| "add_indexes s (i # is) = do { s \<leftarrow> add s i; add_indexes s is }"

fun align_rows :: "lcs_row list \<Rightarrow> row_info list \<Rightarrow> nat \<Rightarrow> nat \<Rightarrow> lcs_match list \<Rightarrow> change_builder \<Rightarrow> change_builder option" where
  "align_rows a rows i j [] c = Some c"
| "align_rows a rows i j (m # ms) c =
     do {
       dels \<leftarrow> add_indexes (deletions c) (map (\<lambda>k. row_tv_index (a ! k)) [i..<match_i m]);
       ins \<leftarrow> add_indexes (insertions c) (map (\<lambda>k. ri_tv_index (rows ! k)) [j..<match_j m]);
       align_rows a rows (max i (match_i m) + match_size m) (max j (match_j m) + match_size m) ms
         (c\<lparr>deletions := dels, insertions := ins\<rparr>)
     }"

definition first_difference :: "lcs_row list \<Rightarrow> row_info list \<Rightarrow> nat option" where
  "first_difference a rows = find (\<lambda>i. row_key (a ! i) \<noteq> ri_key (rows ! i)) [0..<length a]"

definition calculate_moves_sorted :: "row_info list \<Rightarrow> change_builder \<Rightarrow> change_builder option" where
  "calculate_moves_sorted rows c =
     (let a = sort_key (\<lambda>r. (row_tv_index r, row_key r))
                (map (\<lambda>r. \<lparr>row_key = ri_key r, row_tv_index = prev_tv_index r\<rparr>) rows)
      in case first_difference a rows of
           None \<Rightarrow> Some c
         | Some first \<Rightarrow>
             let b = sort_key (\<lambda>r. (row_key r, row_tv_index r))
                       (map (\<lambda>i. \<lparr>row_key = ri_key (rows ! i), row_tv_index = i\<rparr>) [0..<length rows])
             in do {
               ms \<leftarrow> longest_matches (modifications c) a b first;
               align_rows a rows first first ms c
             })"

section \<open>The whole calculation\<close>

definition build_row_info :: "key_sort \<Rightarrow> int list \<Rightarrow> row_info list" where
  "build_row_info srt rows =
     srt (map (\<lambda>i. \<lparr>ri_key = rows ! i, prev_tv_index = npos, ri_tv_index = i\<rparr>) [0..<length rows])"

text \<open>The pairing loop and the two loops for the rest; \<open>new_rows\<close> with the indexes found in the old rows.\<close>

fun pair_rows :: "row_info list \<Rightarrow> row_info list \<Rightarrow> change_builder \<Rightarrow> (row_info list \<times> change_builder) option" where
  "pair_rows [] [] c = Some ([], c)"
| "pair_rows (old # olds) [] c =
     do { dels \<leftarrow> add (deletions c) (ri_tv_index old); pair_rows olds [] (c\<lparr>deletions := dels\<rparr>) }"
| "pair_rows [] (new # news) c =
     do {
       ins \<leftarrow> add (insertions c) (ri_tv_index new);
       (news, c) \<leftarrow> pair_rows [] news (c\<lparr>insertions := ins\<rparr>);
       Some (new # news, c)
     }"
| "pair_rows (old # olds) (new # news) c =
     (if ri_key old = ri_key new then do {
        (news, c) \<leftarrow> pair_rows olds news c;
        Some (new\<lparr>prev_tv_index := ri_tv_index old\<rparr> # news, c)
      }
      else if ri_key old < ri_key new then do {
        dels \<leftarrow> add (deletions c) (ri_tv_index old);
        pair_rows olds (new # news) (c\<lparr>deletions := dels\<rparr>)
      }
      else do {
        ins \<leftarrow> add (insertions c) (ri_tv_index new);
        (news, c) \<leftarrow> pair_rows (old # olds) news (c\<lparr>insertions := ins\<rparr>);
        Some (new # news, c)
      })"

definition calculate_rows :: "row_info list \<Rightarrow> row_info list \<Rightarrow> (int \<Rightarrow> bool) \<Rightarrow> bool \<Rightarrow> change_builder \<Rightarrow> change_builder option" where
  "calculate_rows old_rows new_rows key_did_change in_table_order c =
     do {
       (new_rows, c) \<leftarrow> pair_rows old_rows new_rows c;
       let new_rows = sort_key ri_tv_index (filter (\<lambda>r. prev_tv_index r \<noteq> npos) new_rows);
       mods \<leftarrow> add_indexes (modifications c) (map ri_tv_index (filter (\<lambda>r. key_did_change (ri_key r)) new_rows));
       let c = c\<lparr>modifications := mods\<rparr>;
       if \<not> in_table_order then calculate_moves_sorted new_rows c else Some c
     }"

definition cb_calculate :: "key_sort \<Rightarrow> int list \<Rightarrow> int list \<Rightarrow> (int \<Rightarrow> bool) \<Rightarrow> bool \<Rightarrow> change_builder option" where
  "cb_calculate srt prev_rows next_rows key_did_change in_table_order =
     calculate_rows (build_row_info srt prev_rows) (build_row_info srt next_rows) key_did_change in_table_order empty_builder"

text \<open>The version for row indexes, which are converted to \<open>int64_t\<close>.\<close>

definition to_int64 :: "nat \<Rightarrow> int" where
  "to_int64 n = (int n + 2 ^ 63) mod 2 ^ 64 - 2 ^ 63"

definition cb_calculate_rows :: "key_sort \<Rightarrow> nat list \<Rightarrow> nat list \<Rightarrow> (int \<Rightarrow> bool) \<Rightarrow> change_builder option" where
  "cb_calculate_rows srt prev_rows next_rows key_did_change =
     calculate_rows (build_row_info srt (map to_int64 prev_rows)) (build_row_info srt (map to_int64 next_rows))
       key_did_change False empty_builder"

end
