(* ===== verification/CollectionDiffCorrect.thy ===== *)
theory CollectionDiffCorrect
  imports CollectionDiff CollectionChangeCorrect "HOL-Library.Multiset"
begin

text \<open>
  \<open>calculate\<close> is correct: the change set it computes leads from the old to the new rows. The proof
  follows the code: pairing the rows leaves two sequences of the same keys; the blocks found are
  equal parts of the two, in order; deleting and inserting what lies between them aligns the
  two.
\<close>

definition sorts :: "key_sort \<Rightarrow> bool" where
  "sorts srt \<longleftrightarrow> (\<forall>xs. mset (srt xs) = mset xs \<and> sorted (map ri_key (srt xs)))"

section \<open>Blocks\<close>

text \<open>Disjoint blocks (start, length) in order between two positions.\<close>

fun chain :: "nat \<Rightarrow> nat \<Rightarrow> (nat \<times> nat) list \<Rightarrow> bool" where
  "chain i e [] \<longleftrightarrow> i \<le> e"
| "chain i e ((s, l) # bs) \<longleftrightarrow> i \<le> s \<and> chain (s + l) e bs"

fun kept :: "(nat \<times> nat) list \<Rightarrow> nat set" where
  "kept [] = {}" | "kept ((s, l) # bs) = {s..<s + l} \<union> kept bs"

fun gaps :: "nat \<Rightarrow> (nat \<times> nat) list \<Rightarrow> nat list" where
  "gaps i [] = []" | "gaps i ((s, l) # bs) = [i..<s] @ gaps (s + l) bs"

definition blocks_of :: "'a list \<Rightarrow> (nat \<times> nat) list \<Rightarrow> 'a list" where
  "blocks_of xs bs = concat (map (\<lambda>(s, l). take l (drop s xs)) bs)"

lemma chain_append: "chain i m bs \<Longrightarrow> chain m e cs \<Longrightarrow> chain i e (bs @ cs)"
proof (induction bs arbitrary: i)
  case Nil
  then show ?case by (cases cs) auto
next
  case (Cons b bs)
  then show ?case by (cases b) auto
qed

lemma chain_bounds: "chain i e bs \<Longrightarrow> i \<le> e" "chain i e bs \<Longrightarrow> k \<in> kept bs \<Longrightarrow> i \<le> k \<and> k < e"
  by (induction i e bs rule: chain.induct) (auto dest: order_trans[OF le_add1])

lemma gaps_kept:
  "chain i n bs \<Longrightarrow> set (gaps i (bs @ [(n, 0)])) = {i..<n} - kept bs"
proof (induction bs arbitrary: i)
  case (Cons b bs)
  obtain s l where b: "b = (s, l)" by (cases b)
  have c: "i \<le> s" "chain (s + l) n bs" "s + l \<le> n" using Cons.prems chain_bounds(1)[of "s + l" n bs] by (auto simp: b)
  have "kept bs \<inter> {..<s + l} = {}" using chain_bounds(2)[OF c(2)] by (simp add: disjoint_iff) (meson not_le)
  then show ?case using Cons.IH[OF c(2)] c(1,3) by (auto simp: b)
qed simp

lemma nths_same: "(\<And>k. k < length xs \<Longrightarrow> k \<in> S \<longleftrightarrow> k \<in> T) \<Longrightarrow> nths xs S = nths xs T"
  by (auto simp: nths_def intro!: arg_cong[of _ _ "map fst"] filter_cong dest!: set_zip_rightD)

lemma nths_none: "(\<And>k. k < length xs \<Longrightarrow> k \<notin> S) \<Longrightarrow> nths xs S = []"
  using nths_same[of xs S "{}"] by (simp add: nths_empty)

lemma nths_kept:
  assumes "chain i (length xs) bs"
  shows "nths (drop i xs) {k. i + k \<in> kept bs} = blocks_of xs bs"
  using assms
proof (induction bs arbitrary: i)
  case Nil
  then show ?case by (simp add: blocks_of_def nths_empty)
next
  case (Cons b bs)
  obtain s l where b: "b = (s, l)" by (cases b)
  have c: "i \<le> s" "chain (s + l) (length xs) bs" "s + l \<le> length xs"
    using Cons.prems chain_bounds(1)[of "s + l" "length xs" bs] by (auto simp: b)
  have later: "k \<in> kept bs \<Longrightarrow> s + l \<le> k" for k using chain_bounds(2)[OF c(2)] by blast
  let ?gap = "take (s - i) (drop i xs)" and ?block = "take l (drop s xs)" and ?rest = "drop (s + l) xs"
  have d: "drop i xs = ?gap @ ?block @ ?rest"
    using c by (metis append_take_drop_id drop_drop le_add_diff_inverse2 add.commute)
  have len: "length ?gap = s - i" "length ?block = l" using c by auto
  have "nths ?gap {k. i + k \<in> kept (b # bs)} = []"
  proof -
    have "{k. i + k \<in> kept (b # bs)} \<inter> {..<s - i} = {}" using later by (force simp: b)
    then show ?thesis by (intro nths_none) (auto simp: len)
  qed
  moreover have "nths ?block {k. k + (s - i) \<in> {k. i + k \<in> kept (b # bs)}} = ?block"
    by (rule nths_all) (use c in \<open>auto simp: b\<close>)
  moreover have "{k. k + l \<in> {k. k + (s - i) \<in> {k. i + k \<in> kept (b # bs)}}} = {k. s + l + k \<in> kept bs}"
    using c(1) later by (auto simp: b ac_simps)
  ultimately have "nths (drop i xs) {k. i + k \<in> kept (b # bs)} = ?block @ nths ?rest {k. s + l + k \<in> kept bs}"
    by (subst d) (simp add: nths_append len del: length_take length_drop)
  then show ?case using Cons.IH[OF c(2)] by (simp add: b blocks_of_def)
qed

text \<open>Two sequences with a common beginning and the same blocks, without what lies between the blocks.\<close>

lemma applies_blocks:
  assumes "take f xs = take f ys" "f \<le> length xs" "f \<le> length ys" "chain f (length xs) bs" "chain f (length ys) cs"
    "blocks_of xs bs = blocks_of ys cs"
  shows "applies ({f..<length xs} - kept bs) ({f..<length ys} - kept cs) xs ys"
proof -
  have "nths zs (- ({f..<length zs} - kept ds)) = take f zs @ blocks_of zs ds"
    if "f \<le> length zs" "chain f (length zs) ds" for zs :: "'a list" and ds
  proof -
    let ?S = "- ({f..<length zs} - kept ds)"
    have "nths zs ?S = nths (take f zs) ?S @ nths (drop f zs) {k. k + f \<in> ?S}"
      using nths_append[of "take f zs" "drop f zs" ?S] that(1) by simp
    moreover have "nths (take f zs) ?S = take f zs" using that(1) by (intro nths_all) auto
    moreover have "nths (drop f zs) {k. k + f \<in> ?S} = nths (drop f zs) {k. f + k \<in> kept ds}"
      using chain_bounds(2)[OF that(2)] by (intro nths_same) (auto simp: add.commute)
    ultimately show ?thesis using nths_kept[OF that(2)] by simp
  qed
  then show ?thesis using assms by (auto simp: applies_def)
qed

section \<open>The search for blocks\<close>

text \<open>\<open>ys\<close> are the keys of the new rows, \<open>b\<close> the same rows sorted by key.\<close>

definition lcs_input :: "lcs_row list \<Rightarrow> lcs_row list \<Rightarrow> int list \<Rightarrow> bool" where
  "lcs_input a b ys \<longleftrightarrow> (\<forall>r\<in>set b. row_tv_index r < length ys \<and> row_key r = ys ! row_tv_index r) \<and>
     sorted (map row_key b) \<and> (\<forall>i<length a. row_key (a ! i) \<in> row_key ` set b) \<and> length a < 2 ^ 64 \<and> length ys < 2 ^ 64"

lemma lower_bound_key:
  assumes "sorted (map row_key b)" "k \<in> row_key ` set b"
  shows "lower_bound_from 0 (\<lambda>r. row_key r < k) b < length b" "row_key (b ! lower_bound_from 0 (\<lambda>r. row_key r < k) b) = k"
proof -
  let ?t = "takeWhile (\<lambda>r. row_key r < k) b"
  obtain n where n: "n < length b" "row_key (b ! n) = k" using assms(2) by (auto simp: in_set_conv_nth)
  have "length ?t \<le> n"
  proof (rule ccontr)
    assume "\<not> length ?t \<le> n"
    then have "row_key (b ! n) < k" using length_takeWhile_less_nth[of n "\<lambda>r. row_key r < k" b] by simp
    then show False using n by simp
  qed
  then have t: "length ?t < length b" "row_key (b ! length ?t) \<le> row_key (b ! n)"
    using n sorted_nth_mono[OF assms(1), of "length ?t" n] by auto
  then show "lower_bound_from 0 (\<lambda>r. row_key r < k) b < length b" "row_key (b ! lower_bound_from 0 (\<lambda>r. row_key r < k) b) = k"
    using nth_length_takeWhile[of "\<lambda>r. row_key r < k" b] n(2) by (simp_all add: lower_bound_from_def)
qed

lemma each_b_match_returns:
  assumes "\<And>r s. r \<in> set rs \<Longrightarrow> row_key r = k \<Longrightarrow> begin2 \<le> row_tv_index r \<Longrightarrow> row_tv_index r < end2 \<Longrightarrow> P s \<Longrightarrow>
      returns (f (row_tv_index r) s) P" and "P s"
  shows "returns (each_b_match rs k begin2 end2 f s) P"
  using assms
proof (induction rs arbitrary: s)
  case (Cons r rs)
  have IH: "returns (each_b_match rs k begin2 end2 f s) P" if "P s" for s
    using that Cons.prems(1) by (intro Cons.IH) auto
  show ?case
  proof (cases "row_key r = k \<and> begin2 \<le> row_tv_index r \<and> row_tv_index r < end2")
    case True
    then have "returns (f (row_tv_index r) s) P" using Cons.prems by auto
    then have "returns (f (row_tv_index r) s) (\<lambda>s. returns (each_b_match rs k begin2 end2 f s) P)"
      by (rule returns_mono) (rule IH)
    then show ?thesis using True by auto
  next
    case False
    then show ?thesis using IH[OF Cons.prems(2)] Cons.prems(2) by auto
  qed
qed simp

lemma for_each_b_match_returns:
  assumes "lcs_input a b ys" "i < length a"
    and "\<And>j s. ys ! j = row_key (a ! i) \<Longrightarrow> begin2 \<le> j \<Longrightarrow> j < end2 \<Longrightarrow> P s \<Longrightarrow> returns (f j s) P" and "P s"
  shows "returns (for_each_b_match b (row_key (a ! i)) begin2 end2 f s) P"
proof -
  let ?k = "row_key (a ! i)" and ?it = "lower_bound_from 0 (\<lambda>r. row_key r < row_key (a ! i)) b"
  have "returns (each_b_match (drop ?it b) ?k begin2 end2 f s) P"
  proof (rule each_b_match_returns)
    fix r s
    assume r: "r \<in> set (drop ?it b)" "row_key r = ?k" "begin2 \<le> row_tv_index r" "row_tv_index r < end2" "P s"
    then have "ys ! row_tv_index r = ?k" using assms(1) by (auto simp: lcs_input_def dest!: in_set_dropD)
    then show "returns (f (row_tv_index r) s) P" using assms(3) r by blast
  qed (rule assms(4))
  moreover have "?it < length b" "row_key (b ! ?it) = ?k"
    using lower_bound_key[of b ?k] assms(1,2) unfolding lcs_input_def by blast+
  ultimately show ?thesis by (simp add: for_each_b_match_def Let_def)
qed

text \<open>A block of the given length that ends before \<open>a[e]\<close> and with \<open>b[j]\<close>, within the range searched.\<close>

definition ends_block :: "lcs_row list \<Rightarrow> int list \<Rightarrow> nat \<Rightarrow> nat \<Rightarrow> nat \<Rightarrow> nat \<Rightarrow> nat \<times> nat \<Rightarrow> bool" where
  "ends_block a ys begin1 begin2 end2 e p \<longleftrightarrow> (case p of (j, l) \<Rightarrow>
     0 < l \<and> begin1 + l \<le> e \<and> begin2 + l \<le> j + 1 \<and> j < end2 \<and> (\<forall>k<l. row_key (a ! (e - 1 - k)) = ys ! (j - k)))"

definition good_match :: "lcs_row list \<Rightarrow> int list \<Rightarrow> nat \<Rightarrow> nat \<Rightarrow> nat \<Rightarrow> nat \<Rightarrow> lcs_match \<Rightarrow> bool" where
  "good_match a ys begin1 end1 begin2 end2 m \<longleftrightarrow>
     begin1 \<le> match_i m \<and> match_i m + match_size m \<le> end1 \<and> begin2 \<le> match_j m \<and> match_j m + match_size m \<le> end2 \<and>
     (\<forall>k<match_size m. row_key (a ! (match_i m + k)) = ys ! (match_j m + k))"

lemma find_SomeD: "find P xs = Some x \<Longrightarrow> x \<in> set xs \<and> P x"
  by (induction xs) (auto split: if_splits)

lemma ends_block_extend:
  assumes "\<forall>p\<in>set prev. ends_block a ys begin1 begin2 end2 i p" "begin1 \<le> i" "begin2 \<le> j" "j < end2" "row_key (a ! i) = ys ! j"
  shows "ends_block a ys begin1 begin2 end2 (i + 1) (j, block_length prev j)"
proof (cases "find (\<lambda>(k, len). k + 1 = j) prev")
  case None
  then show ?thesis using assms by (simp add: ends_block_def block_length_def)
next
  case (Some p)
  obtain k len where p: "p = (k, len)" by (cases p)
  then have k: "(k, len) \<in> set prev" "k + 1 = j" using find_SomeD[OF Some] by auto
  then have e: "ends_block a ys begin1 begin2 end2 i (k, len)" using assms(1) by blast
  have "row_key (a ! (i - n)) = ys ! (j - n)" if "n < len + 1" for n
  proof (cases n)
    case 0
    then show ?thesis using assms(5) by simp
  next
    case (Suc m)
    then have "row_key (a ! (i - 1 - m)) = ys ! (k - m)" using e that by (simp add: ends_block_def)
    then show ?thesis using Suc k(2) by (simp flip: k(2))
  qed
  then show ?thesis using e k Some p assms(4) by (simp add: ends_block_def block_length_def)
qed

lemma back_from_eq: "0 < n \<Longrightarrow> n \<le> x + 1 \<Longrightarrow> x + 1 \<le> 2 ^ 64 \<Longrightarrow> back_from x n = x + 1 - n"
proof -
  assume n: "0 < n" "n \<le> x + 1" "x + 1 \<le> 2 ^ 64"
  have "x + 1 + 2 ^ 64 - n = (x + 1 - n) + 2 ^ 64" "x + 1 - n < 2 ^ 64" using n by linarith+
  then show ?thesis unfolding back_from_def by (simp only: mod_add_self2 mod_less)
qed

lemma good_match_of_block:
  assumes "ends_block a ys begin1 begin2 end2 (i + 1) (j, l)" "i < end1" "i < 2 ^ 64" "end2 \<le> 2 ^ 64"
  shows "good_match a ys begin1 end1 begin2 end2
    \<lparr>match_i = back_from i l, match_j = back_from j l, match_size = l, match_modified = n\<rparr>"
proof -
  note e = assms(1)[unfolded ends_block_def prod.case]
  have "i + 1 \<le> 2 ^ 64" "j + 1 \<le> 2 ^ 64" "l \<le> i + 1" "l \<le> j + 1" using e assms(2-4) by linarith+
  then have b: "back_from i l = i + 1 - l" "back_from j l = j + 1 - l" using e by (simp_all only: back_from_eq)
  have "row_key (a ! (i + 1 - l + k)) = ys ! (j + 1 - l + k)" if "k < l" for k
  proof -
    have "row_key (a ! (i - (l - 1 - k))) = ys ! (j - (l - 1 - k))" using e that by (auto dest!: spec[of _ "l - 1 - k"])
    moreover have "i - (l - 1 - k) = i + 1 - l + k" "j - (l - 1 - k) = j + 1 - l + k" using e that by linarith+
    ultimately show ?thesis by (simp only:)
  qed
  then show ?thesis using e assms(2) by (auto simp: good_match_def b)
qed

definition best_ok :: "lcs_row list \<Rightarrow> int list \<Rightarrow> nat \<Rightarrow> nat \<Rightarrow> nat \<Rightarrow> nat \<Rightarrow> lcs_match \<Rightarrow> bool" where
  "best_ok a ys begin1 end1 begin2 end2 m \<longleftrightarrow> match_size m = 0 \<or> good_match a ys begin1 end1 begin2 end2 m"

lemma good_match_modified: "good_match a ys b1 e1 b2 e2 (m\<lparr>match_modified := n\<rparr>) = good_match a ys b1 e1 b2 e2 m"
  by (simp add: good_match_def)

lemma update_best_good:
  assumes "best_ok a ys begin1 end1 begin2 end2 best" "ends_block a ys begin1 begin2 end2 (i + 1) (j, l)" "i < end1"
    "i < 2 ^ 64" "end2 \<le> 2 ^ 64"
  shows "good_match a ys begin1 end1 begin2 end2 (update_best mods i j l best)"
proof -
  have new: "good_match a ys begin1 end1 begin2 end2
      \<lparr>match_i = back_from i l, match_j = back_from j l, match_size = l, match_modified = n\<rparr>" for n
    by (rule good_match_of_block[OF assms(2-5)])
  have "0 < l" using assms(2) by (simp add: ends_block_def)
  then have old: "good_match a ys begin1 end1 begin2 end2 best" if "l \<le> match_size best"
    using assms(1) that by (auto simp: best_ok_def)
  show ?thesis
    unfolding update_best_def Let_def using new old by (simp only: good_match_modified split: if_split) auto
qed

lemma try_match_returns:
  assumes "\<forall>p\<in>set prev. ends_block a ys begin1 begin2 end2 i p" "begin1 \<le> i" "i < end1" "i < 2 ^ 64" "end2 \<le> 2 ^ 64"
    and "ys ! j = row_key (a ! i)" "begin2 \<le> j" "j < end2"
    and "best_ok a ys begin1 end1 begin2 end2 best" "\<forall>p\<in>set cur. ends_block a ys begin1 begin2 end2 (i + 1) p"
  shows "returns (try_match mods begin1 end1 begin2 end2 prev i j (cur, best)) (\<lambda>(cur, best).
    best_ok a ys begin1 end1 begin2 end2 best \<and> (\<forall>p\<in>set cur. ends_block a ys begin1 begin2 end2 (i + 1) p))"
proof -
  have e: "ends_block a ys begin1 begin2 end2 (i + 1) (j, block_length prev j)"
    using assms by (intro ends_block_extend) auto
  have "good_match a ys begin1 end1 begin2 end2 (update_best mods i j (block_length prev j) best)"
    by (rule update_best_good[OF assms(9) e assms(3-5)])
  then show ?thesis using assms(10) e by (auto simp: try_match_def Let_def good_match_def best_ok_def)
qed

lemma scan_rows_returns:
  assumes "lcs_input a b ys" "end1 \<le> length a" "end2 \<le> length ys" "begin1 \<le> i" "i \<le> end1"
    and "\<forall>p\<in>set prev. ends_block a ys begin1 begin2 end2 i p" "best_ok a ys begin1 end1 begin2 end2 best"
  shows "returns (scan_rows mods a b begin1 end1 begin2 end2 [i..<end1] prev best) (best_ok a ys begin1 end1 begin2 end2)"
  using assms(4-)
proof (induction "end1 - i" arbitrary: i prev best)
  case 0
  then show ?case by simp
next
  case (Suc n)
  let ?P = "\<lambda>(cur, best). best_ok a ys begin1 end1 begin2 end2 best \<and> (\<forall>p\<in>set cur. ends_block a ys begin1 begin2 end2 (i + 1) p)"
  have i: "i < end1" "i < length a" using Suc.hyps(2) assms(2) by auto
  have len: "length a < 2 ^ 64" "length ys < 2 ^ 64" using assms(1) by (auto simp: lcs_input_def)
  have "returns (for_each_b_match b (row_key (a ! i)) begin2 end2 (try_match mods begin1 end1 begin2 end2 prev i) ([], best)) ?P"
  proof (rule for_each_b_match_returns[OF assms(1) i(2)])
    fix j and s :: "(nat \<times> nat) list \<times> lcs_match"
    assume j: "ys ! j = row_key (a ! i)" "begin2 \<le> j" "j < end2" "?P s"
    obtain cur bst where s: "s = (cur, bst)" by (cases s)
    have "i < 2 ^ 64" "end2 \<le> 2 ^ 64" using i(2) len assms(3) by linarith+
    then show "returns (try_match mods begin1 end1 begin2 end2 prev i j s) ?P"
      using j(4) unfolding s by (intro try_match_returns[OF Suc.prems(3,1) i(1) _ _ j(1-3)]) auto
  qed (use Suc.prems(4) in simp)
  then have "returns (for_each_b_match b (row_key (a ! i)) begin2 end2 (try_match mods begin1 end1 begin2 end2 prev i) ([], best))
      (\<lambda>(cur, best). returns (scan_rows mods a b begin1 end1 begin2 end2 [Suc i..<end1] cur best) (best_ok a ys begin1 end1 begin2 end2))"
  proof (rule returns_mono)
    fix s
    assume "?P s"
    then show "case s of (cur, best) \<Rightarrow> returns (scan_rows mods a b begin1 end1 begin2 end2 [Suc i..<end1] cur best)
        (best_ok a ys begin1 end1 begin2 end2)"
      using Suc.hyps(2) Suc.prems(1) by (auto intro!: Suc.hyps(1))
  qed
  then show ?case using i(1) by (simp add: upt_conv_Cons case_prod_unfold)
qed

lemma find_longest_match_returns:
  assumes "lcs_input a b ys" "begin1 \<le> end1" "end1 \<le> length a" "end2 \<le> length ys"
  shows "returns (find_longest_match mods a b begin1 end1 begin2 end2) (best_ok a ys begin1 end1 begin2 end2)"
  unfolding find_longest_match_def
  using assms by (intro scan_rows_returns) (auto simp: best_ok_def)

abbreviation blocks1 :: "lcs_match list \<Rightarrow> (nat \<times> nat) list" where
  "blocks1 ms \<equiv> map (\<lambda>m. (match_i m, match_size m)) ms"

abbreviation blocks2 :: "lcs_match list \<Rightarrow> (nat \<times> nat) list" where
  "blocks2 ms \<equiv> map (\<lambda>m. (match_j m, match_size m)) ms"

definition same_keys :: "lcs_row list \<Rightarrow> int list \<Rightarrow> lcs_match \<Rightarrow> bool" where
  "same_keys a ys m \<longleftrightarrow> (\<forall>k<match_size m. row_key (a ! (match_i m + k)) = ys ! (match_j m + k))"

lemma find_longest_matches_returns:
  assumes "lcs_input a b ys" "begin1 \<le> end1" "end1 \<le> length a" "begin2 \<le> end2" "end2 \<le> length ys"
  shows "returns (find_longest_matches mods a b begin1 end1 begin2 end2) (\<lambda>ms.
    chain begin1 end1 (blocks1 ms) \<and> chain begin2 end2 (blocks2 ms) \<and> (\<forall>m\<in>set ms. same_keys a ys m))"
  using assms(2-)
proof (induction "end1 - begin1" arbitrary: begin1 end1 begin2 end2 rule: less_induct)
  case less
  let ?P = "\<lambda>b1 e1 b2 e2 ms. chain b1 e1 (blocks1 ms) \<and> chain b2 e2 (blocks2 ms) \<and> (\<forall>m\<in>set ms. same_keys a ys m)"
  obtain m where m: "find_longest_match mods a b begin1 end1 begin2 end2 = Some m" "best_ok a ys begin1 end1 begin2 end2 m"
    using find_longest_match_returns[OF assms(1) less.prems(1,2,4), of mods begin2] by (auto elim: returnsE)
  show ?case
  proof (cases "match_size m = 0")
    case True
    then show ?thesis using m(1) less.prems by (simp add: find_longest_matches.simps[of mods a b begin1 end1 begin2 end2])
  next
    case False
    then have g: "begin1 \<le> match_i m" "match_i m + match_size m \<le> end1" "begin2 \<le> match_j m" "match_j m + match_size m \<le> end2"
        "same_keys a ys m" using m(2) by (auto simp: best_ok_def good_match_def same_keys_def)
    obtain before where before: "(if match_i m > begin1 \<and> match_j m > begin2
          then find_longest_matches mods a b begin1 (match_i m) begin2 (match_j m) else Some []) = Some before"
        "?P begin1 (match_i m) begin2 (match_j m) before"
    proof (cases "match_i m > begin1 \<and> match_j m > begin2")
      case True
      have "returns (find_longest_matches mods a b begin1 (match_i m) begin2 (match_j m)) (?P begin1 (match_i m) begin2 (match_j m))"
        using g False less.prems by (intro less.hyps) auto
      then show thesis using that True by (auto elim: returnsE)
    qed (use that g in auto)
    let ?i = "match_i m + match_size m" and ?j = "match_j m + match_size m"
    obtain after where after: "(if ?i < end2 \<and> ?j < end2 then find_longest_matches mods a b ?i end1 ?j end2 else Some []) = Some after"
        "?P ?i end1 ?j end2 after"
    proof (cases "?i < end2 \<and> ?j < end2")
      case True
      have "returns (find_longest_matches mods a b ?i end1 ?j end2) (?P ?i end1 ?j end2)"
        using g False less.prems by (intro less.hyps) auto
      then show thesis using that True by (auto elim: returnsE)
    qed (use that g in auto)
    have "?P begin1 end1 begin2 end2 (before @ [m] @ after)"
      using before(2) after(2) g(5) chain_append[of begin1 "match_i m" "blocks1 before" end1 "blocks1 ([m] @ after)"]
        chain_append[of begin2 "match_j m" "blocks2 before" end2 "blocks2 ([m] @ after)"] by auto
    then show ?thesis
      using m(1) False before(1) after(1) by (simp add: find_longest_matches.simps[of mods a b begin1 end1 begin2 end2])
  qed
qed

end
