(* ===== verification/CollectionDiffAlign.thy ===== *)
theory CollectionDiffAlign
  imports CollectionDiffCorrect
begin

text \<open>
  The pairing of the rows and the alignment of the paired rows: together with the blocks of
  \<open>CollectionDiffCorrect\<close> they give the correctness of \<open>calculate\<close>.
\<close>

section \<open>Lists of positions\<close>

lemma nths_filter_upt: "nths xs S = map ((!) xs) (filter (\<lambda>i. i \<in> S) [0..<length xs])"
proof (induction xs rule: rev_induct)
  case (snoc x xs)
  have "map ((!) (xs @ [x])) (filter (\<lambda>i. i \<in> S) [0..<length xs]) = map ((!) xs) (filter (\<lambda>i. i \<in> S) [0..<length xs])"
    by (rule map_cong[OF refl]) (auto simp: nth_append)
  then show ?case using snoc by (simp add: nths_snoc)
qed simp

lemma length_filter_upt: "length (filter P [0..<n]) \<le> n"
  using length_filter_le[of P "[0..<n]"] by simp

lemma filter_upt_unique:
  assumes "sorted ts" "distinct ts" "set ts = {..<n} - D"
  shows "ts = filter (\<lambda>i. i \<in> - D) [0..<n]"
proof (rule sorted_distinct_set_unique[OF assms(1,2)])
  show "sorted (filter (\<lambda>i. i \<in> - D) [0..<n])" by (rule sorted_wrt_filter) simp
  show "set ts = set (filter (\<lambda>i. i \<in> - D) [0..<n])" using assms(3) by auto
qed simp

text \<open>Positions taken out of a sequence from which positions have been taken out.\<close>

lemma nths_upt_Compl: "nths [0..<n] (- D) = filter (\<lambda>i. i \<in> - D) [0..<n]"
proof -
  have "map ((!) [0..<n]) (filter (\<lambda>i. i \<in> - D) [0..<n]) = map (\<lambda>i. i) (filter (\<lambda>i. i \<in> - D) [0..<n])"
    by (rule map_cong[OF refl]) auto
  then show ?thesis by (simp add: nths_filter_upt)
qed

lemma filter_upt_nth:
  assumes "finite D" "k < length (filter (\<lambda>i. i \<in> - D) [0..<n])"
  shows "filter (\<lambda>i. i \<in> - D) [0..<n] ! k = shift_of D k" "shift_of D k < n"
  using nths_Compl_nth[of D k "[0..<n]"] assms unfolding nths_upt_Compl by simp_all

lemma applies_within:
  assumes "finite D" "finite I" "D \<subseteq> {..<length xs}" "I \<subseteq> {..<length ys}"
    and "applies U V (nths xs (- D)) (nths ys (- I))"
  shows "applies (D \<union> shift_of D ` U) (I \<union> shift_of I ` V) xs ys"
proof -
  note a = appliesD[OF assms(5)]
  have "shift_of D ` U \<subseteq> {..<length xs}" "shift_of I ` V \<subseteq> {..<length ys}"
    using a(3,4) nths_Compl_nth(2)[OF assms(1), of _ xs] nths_Compl_nth(2)[OF assms(2), of _ ys] by auto
  then show ?thesis
    using assms(3,4) a(5) nths_nths_Compl[OF assms(1), of xs U] nths_nths_Compl[OF assms(2), of ys V]
    by (simp add: applies_def)
qed

section \<open>Pairing\<close>

lemma add_indexes_props:
  "wf s \<Longrightarrow> returns (add_indexes s is) (\<lambda>s'. wf s' \<and> iset_of s' = iset_of s \<union> set is)"
proof (induction "is" arbitrary: s)
  case (Cons i "is")
  have "returns (add s i) (\<lambda>s'. returns (add_indexes s' is) (\<lambda>s''. wf s'' \<and> iset_of s'' = iset_of s \<union> set (i # is)))"
    by (rule returns_mono[OF add_props[OF Cons.prems]], rule returns_mono[OF Cons.IH]) auto
  then show ?case by simp
qed simp

definition paired :: "row_info list \<Rightarrow> row_info list" where
  "paired rows = filter (\<lambda>r. prev_tv_index r \<noteq> npos) rows"

definition pairing :: "row_info list \<Rightarrow> row_info list \<Rightarrow> change_builder \<Rightarrow> row_info list \<times> change_builder \<Rightarrow> bool" where
  "pairing olds news c res \<longleftrightarrow> (case res of (rows, c') \<Rightarrow> \<exists>dl il.
     c' = c\<lparr>deletions := deletions c', insertions := insertions c'\<rparr> \<and> wf (deletions c') \<and> wf (insertions c') \<and>
     iset_of (deletions c') = iset_of (deletions c) \<union> set dl \<and> iset_of (insertions c') = iset_of (insertions c) \<union> set il \<and>
     mset (map ri_tv_index olds) = mset (dl @ map prev_tv_index (paired rows)) \<and>
     mset (map ri_tv_index news) = mset (il @ map ri_tv_index (paired rows)) \<and>
     (\<forall>r\<in>set (paired rows). (\<exists>x\<in>set olds. ri_tv_index x = prev_tv_index r \<and> ri_key x = ri_key r) \<and>
        (\<exists>x\<in>set news. ri_tv_index x = ri_tv_index r \<and> ri_key x = ri_key r)))"

lemma pairing_delete:
  assumes "pairing olds news (c\<lparr>deletions := dels\<rparr>) (rows, c')" "iset_of dels = insert (ri_tv_index x) (iset_of (deletions c))"
  shows "pairing (x # olds) news c (rows, c')"
  using assms(1) unfolding pairing_def prod.case
proof (elim exE, goal_cases)
  case (1 dl il)
  show ?case by (rule exI[of _ "ri_tv_index x # dl"], rule exI[of _ il]) (use 1 assms(2) in auto)
qed

lemma pairing_insert:
  assumes "pairing olds news (c\<lparr>insertions := ins\<rparr>) (rows, c')" "iset_of ins = insert (ri_tv_index x) (iset_of (insertions c))"
    "prev_tv_index x = npos"
  shows "pairing olds (x # news) c (x # rows, c')"
  using assms(1) unfolding pairing_def prod.case
proof (elim exE, goal_cases)
  case (1 dl il)
  show ?case by (rule exI[of _ dl], rule exI[of _ "ri_tv_index x # il"]) (use 1 assms(2,3) in \<open>auto simp: paired_def\<close>)
qed

lemma pairing_match:
  assumes "pairing olds news c (rows, c')" "ri_key x = ri_key y" "ri_tv_index x \<noteq> npos"
  shows "pairing (x # olds) (y # news) c (y\<lparr>prev_tv_index := ri_tv_index x\<rparr> # rows, c')"
  using assms(1) unfolding pairing_def prod.case
proof (elim exE, goal_cases)
  case (1 dl il)
  show ?case by (rule exI[of _ dl], rule exI[of _ il]) (use 1 assms(2,3) in \<open>auto simp: paired_def\<close>)
qed

lemma pair_rows_props:
  assumes "wf (deletions c)" "wf (insertions c)" "\<forall>r\<in>set news. prev_tv_index r = npos" "\<forall>r\<in>set olds. ri_tv_index r \<noteq> npos"
  shows "returns (pair_rows olds news c) (pairing olds news c)"
  using assms
proof (induction olds news c rule: pair_rows.induct)
  case (1 c)
  then show ?case by (auto simp: pairing_def paired_def)
next
  case (2 old olds c)
  obtain dels where d: "add (deletions c) (ri_tv_index old) = Some dels" "wf dels"
      "iset_of dels = insert (ri_tv_index old) (iset_of (deletions c))" using add_props[OF "2.prems"(1), of "ri_tv_index old"] by (auto elim: returnsE)
  then show ?case using "2.IH"[OF d(1)] "2.prems" by (auto elim!: returns_mono intro: pairing_delete)
next
  case (3 new news c)
  obtain ins where d: "add (insertions c) (ri_tv_index new) = Some ins" "wf ins"
      "iset_of ins = insert (ri_tv_index new) (iset_of (insertions c))" using add_props[OF "3.prems"(2), of "ri_tv_index new"] by (auto elim: returnsE)
  then show ?case using "3.IH"[OF d(1)] "3.prems" by (auto elim!: returns_mono intro: pairing_insert)
next
  case (4 old olds new news c)
  consider "ri_key old = ri_key new" | "ri_key old < ri_key new" | "ri_key old > ri_key new" by linarith
  then show ?case
  proof cases
    case 1
    then show ?thesis using "4.IH"(1) "4.prems" by (auto elim!: returns_mono intro: pairing_match)
  next
    case 2
    obtain dels where d: "add (deletions c) (ri_tv_index old) = Some dels" "wf dels"
        "iset_of dels = insert (ri_tv_index old) (iset_of (deletions c))" using add_props[OF "4.prems"(1), of "ri_tv_index old"] by (auto elim: returnsE)
    then show ?thesis using "4.IH"(2)[OF _ _ d(1)] "4.prems" 2 by (auto elim!: returns_mono intro: pairing_delete)
  next
    case 3
    obtain ins where d: "add (insertions c) (ri_tv_index new) = Some ins" "wf ins"
        "iset_of ins = insert (ri_tv_index new) (iset_of (insertions c))" using add_props[OF "4.prems"(2), of "ri_tv_index new"] by (auto elim: returnsE)
    then show ?thesis using "4.IH"(3)[OF _ _ d(1)] "4.prems" 3 by (auto elim!: returns_mono intro: pairing_insert)
  qed
qed

text \<open>All rows of two sequences, with their indexes.\<close>

lemma build_row_info_props:
  assumes "sorts srt"
  shows "mset (map ri_tv_index (build_row_info srt xs)) = mset [0..<length xs]"
    "r \<in> set (build_row_info srt xs) \<Longrightarrow> prev_tv_index r = npos \<and> ri_tv_index r < length xs \<and> ri_key r = xs ! ri_tv_index r"
proof -
  let ?l = "map (\<lambda>i. \<lparr>ri_key = xs ! i, prev_tv_index = npos, ri_tv_index = i\<rparr>) [0..<length xs]"
  have m: "mset (build_row_info srt xs) = mset ?l" using assms by (simp add: build_row_info_def sorts_def)
  then have "mset (map ri_tv_index (build_row_info srt xs)) = mset (map ri_tv_index ?l)"
    unfolding mset_map by simp
  then show "mset (map ri_tv_index (build_row_info srt xs)) = mset [0..<length xs]" by (simp add: comp_def)
  show "prev_tv_index r = npos \<and> ri_tv_index r < length xs \<and> ri_key r = xs ! ri_tv_index r"
    if "r \<in> set (build_row_info srt xs)" using that mset_eq_setD[OF m] by auto
qed

lemma mset_upt_split:
  assumes "mset [0..<n] = mset (dl @ ts)"
  shows "distinct ts" "set ts = {..<n} - set dl" "set dl \<subseteq> {..<n}"
proof -
  have "distinct (dl @ ts)" using mset_eq_imp_distinct_iff[OF assms] by simp
  moreover have "set (dl @ ts) = {..<n}" using mset_eq_setD[OF assms] by auto
  ultimately show "distinct ts" "set ts = {..<n} - set dl" "set dl \<subseteq> {..<n}" by auto
qed

lemma pairing_rows:
  assumes "sorts srt" "pairing (build_row_info srt xs) (build_row_info srt ys) c (rows, c')"
  obtains dl il where "c' = c\<lparr>deletions := deletions c', insertions := insertions c'\<rparr>" "wf (deletions c')" "wf (insertions c')"
    "iset_of (deletions c') = iset_of (deletions c) \<union> set dl" "iset_of (insertions c') = iset_of (insertions c) \<union> set il"
    "distinct (map prev_tv_index (paired rows))" "prev_tv_index ` set (paired rows) = {..<length xs} - set dl" "set dl \<subseteq> {..<length xs}"
    "distinct (map ri_tv_index (paired rows))" "ri_tv_index ` set (paired rows) = {..<length ys} - set il" "set il \<subseteq> {..<length ys}"
    "\<forall>r\<in>set (paired rows). ri_key r = xs ! prev_tv_index r \<and> ri_key r = ys ! ri_tv_index r"
proof -
  obtain dl il where p: "c' = c\<lparr>deletions := deletions c', insertions := insertions c'\<rparr>" "wf (deletions c')" "wf (insertions c')"
      "iset_of (deletions c') = iset_of (deletions c) \<union> set dl" "iset_of (insertions c') = iset_of (insertions c) \<union> set il"
      "mset (map ri_tv_index (build_row_info srt xs)) = mset (dl @ map prev_tv_index (paired rows))"
      "mset (map ri_tv_index (build_row_info srt ys)) = mset (il @ map ri_tv_index (paired rows))"
      "\<forall>r\<in>set (paired rows). (\<exists>x\<in>set (build_row_info srt xs). ri_tv_index x = prev_tv_index r \<and> ri_key x = ri_key r) \<and>
        (\<exists>x\<in>set (build_row_info srt ys). ri_tv_index x = ri_tv_index r \<and> ri_key x = ri_key r)"
    using assms(2) unfolding pairing_def prod.case by (elim exE conjE)
  note d = mset_upt_split[OF p(6)[unfolded build_row_info_props(1)[OF assms(1)]]]
  note i = mset_upt_split[OF p(7)[unfolded build_row_info_props(1)[OF assms(1)]]]
  have k: "\<forall>r\<in>set (paired rows). ri_key r = xs ! prev_tv_index r \<and> ri_key r = ys ! ri_tv_index r"
    using p(8) build_row_info_props(2)[OF assms(1)] by metis
  show thesis by (rule that[OF p(1-5) d(1) _ d(3) i(1) _ i(3) k]) (use d(2) i(2) in simp_all)
qed

section \<open>Alignment\<close>

lemma align_rows_props:
  assumes "chain i n (blocks1 ms)" "chain j n' (blocks2 ms)" "wf (deletions c)" "wf (insertions c)"
  shows "returns (align_rows a rows i j ms c) (\<lambda>c'. c' = c\<lparr>deletions := deletions c', insertions := insertions c'\<rparr> \<and>
    wf (deletions c') \<and> wf (insertions c') \<and>
    iset_of (deletions c') = iset_of (deletions c) \<union> (\<lambda>k. row_tv_index (a ! k)) ` set (gaps i (blocks1 ms)) \<and>
    iset_of (insertions c') = iset_of (insertions c) \<union> (\<lambda>k. ri_tv_index (rows ! k)) ` set (gaps j (blocks2 ms)))"
  using assms
proof (induction ms arbitrary: i j c)
  case (Cons m ms)
  have c: "i \<le> match_i m" "chain (match_i m + match_size m) n (blocks1 ms)"
    "j \<le> match_j m" "chain (match_j m + match_size m) n' (blocks2 ms)" using Cons.prems(1,2) by auto
  obtain dels where d: "add_indexes (deletions c) (map (\<lambda>k. row_tv_index (a ! k)) [i..<match_i m]) = Some dels" "wf dels"
      "iset_of dels = iset_of (deletions c) \<union> (\<lambda>k. row_tv_index (a ! k)) ` {i..<match_i m}"
    using add_indexes_props[OF Cons.prems(3), of "map (\<lambda>k. row_tv_index (a ! k)) [i..<match_i m]"] by (auto elim: returnsE)
  obtain ins where n: "add_indexes (insertions c) (map (\<lambda>k. ri_tv_index (rows ! k)) [j..<match_j m]) = Some ins" "wf ins"
      "iset_of ins = iset_of (insertions c) \<union> (\<lambda>k. ri_tv_index (rows ! k)) ` {j..<match_j m}"
    using add_indexes_props[OF Cons.prems(4), of "map (\<lambda>k. ri_tv_index (rows ! k)) [j..<match_j m]"] by (auto elim: returnsE)
  have m: "max i (match_i m) = match_i m" "max j (match_j m) = match_j m" using c(1,3) by auto
  let ?c = "c\<lparr>deletions := dels, insertions := ins\<rparr>"
  have "wf (deletions ?c)" "wf (insertions ?c)" using d(2) n(2) by simp_all
  from Cons.IH[OF c(2,4) this]
  have "returns (align_rows a rows (match_i m + match_size m) (match_j m + match_size m) ms ?c)
    (\<lambda>c'. c' = c\<lparr>deletions := deletions c', insertions := insertions c'\<rparr> \<and>
      wf (deletions c') \<and> wf (insertions c') \<and>
      iset_of (deletions c') = iset_of (deletions c) \<union> (\<lambda>k. row_tv_index (a ! k)) ` set (gaps i (blocks1 (m # ms))) \<and>
      iset_of (insertions c') = iset_of (insertions c) \<union> (\<lambda>k. ri_tv_index (rows ! k)) ` set (gaps j (blocks2 (m # ms))))"
    by (rule returns_mono) (use d(3) n(3) in auto)
  then show ?case using d(1) n(1) by (simp add: m)
qed simp

lemma same_blocks:
  assumes "chain f (length a) (blocks1 ms)" "chain g (length ys) (blocks2 ms)" "\<forall>m\<in>set ms. same_keys a ys m"
  shows "blocks_of (map row_key a) (blocks1 ms) = blocks_of ys (blocks2 ms)"
  using assms
proof (induction ms arbitrary: f g)
  case (Cons m ms)
  have c: "chain (match_i m + match_size m) (length a) (blocks1 ms)" "chain (match_j m + match_size m) (length ys) (blocks2 ms)"
    using Cons.prems(1,2) by auto
  then have l: "match_i m + match_size m \<le> length a" "match_j m + match_size m \<le> length ys"
    using chain_bounds(1)[OF c(1)] chain_bounds(1)[OF c(2)] by auto
  have "take (match_size m) (drop (match_i m) (map row_key a)) = take (match_size m) (drop (match_j m) ys)"
    using l Cons.prems(3) by (intro nth_equalityI) (auto simp: same_keys_def)
  then show ?case using Cons.IH[OF c] Cons.prems(3) by (simp add: blocks_of_def)
qed (simp add: blocks_of_def)

text \<open>The two sequences of the paired rows.\<close>

lemma sorted_key_tuple: "sorted (map (\<lambda>r. (f r, g r)) xs) \<Longrightarrow> sorted (map f xs)" for f :: "'a \<Rightarrow> 'b :: linorder"
  by (auto simp: sorted_iff_nth_mono less_eq_prod_def dest: order_less_imp_le)

lemma nths_sort_key:
  assumes "sorted (map tv rs)" "distinct (map tv rs)" "set (map tv rs) = {..<length xs} - D" "\<forall>r\<in>set rs. key r = xs ! tv r"
  shows "map key rs = nths xs (- D)" "map tv rs = filter (\<lambda>i. i \<in> - D) [0..<length xs]"
proof -
  show t: "map tv rs = filter (\<lambda>i. i \<in> - D) [0..<length xs]" by (rule filter_upt_unique[OF assms(1-3)])
  have "map key rs = map ((!) xs) (map tv rs)" using assms(4) by simp
  then show "map key rs = nths xs (- D)" unfolding t by (simp only: nths_filter_upt)
qed

lemma calculate_moves_sorted_props:
  assumes "wf (deletions c)" "wf (insertions c)" "iset_of (deletions c) = set dl" "iset_of (insertions c) = set il"
    and "set dl \<subseteq> {..<length xs}" "set il \<subseteq> {..<length ys}" "length xs < 2 ^ 64" "length ys < 2 ^ 64"
    and "distinct (map prev_tv_index rows)" "prev_tv_index ` set rows = {..<length xs} - set dl"
    and "sorted (map ri_tv_index rows)" "distinct (map ri_tv_index rows)" "ri_tv_index ` set rows = {..<length ys} - set il"
    and "\<forall>r\<in>set rows. ri_key r = xs ! prev_tv_index r \<and> ri_key r = ys ! ri_tv_index r"
  shows "returns (calculate_moves_sorted rows c) (\<lambda>c'. c' = c\<lparr>deletions := deletions c', insertions := insertions c'\<rparr> \<and>
    wf (deletions c') \<and> wf (insertions c') \<and> iset_of (insertions c) \<subseteq> iset_of (insertions c') \<and>
    applies (iset_of (deletions c')) (iset_of (insertions c')) xs ys)"
proof -
  let ?l = "map (\<lambda>r. \<lparr>row_key = ri_key r, row_tv_index = prev_tv_index r\<rparr>) rows"
  let ?a = "sort_key (\<lambda>r. (row_tv_index r, row_key r)) ?l"
  let ?A = "map row_key ?a" and ?R = "map ri_key rows"
  have sa: "set ?a = set ?l" "mset ?a = mset ?l" by simp_all
  have "sorted (map row_tv_index ?a)" by (rule sorted_key_tuple[of _ row_key]) (rule sorted_sort_key)
  moreover have "distinct (map row_tv_index ?a)"
  proof -
    have "mset (map row_tv_index ?a) = mset (map prev_tv_index rows)" by (simp add: image_mset.compositionality comp_def)
    then show ?thesis using assms(9) mset_eq_imp_distinct_iff by blast
  qed
  moreover have "set (map row_tv_index ?a) = {..<length xs} - set dl" using assms(10) by (simp add: image_image)
  moreover have "\<forall>r\<in>set ?a. row_key r = xs ! row_tv_index r" using assms(14) by auto
  ultimately have A: "?A = nths xs (- set dl)" "map row_tv_index ?a = filter (\<lambda>i. i \<in> - set dl) [0..<length xs]"
    using nths_sort_key[of row_tv_index ?a xs "set dl" row_key] by blast+
  have R: "?R = nths ys (- set il)" "map ri_tv_index rows = filter (\<lambda>i. i \<in> - set il) [0..<length ys]"
  proof -
    have "\<forall>r\<in>set rows. ri_key r = ys ! ri_tv_index r" "set (map ri_tv_index rows) = {..<length ys} - set il"
      using assms(13,14) by auto
    from nths_sort_key[OF assms(11,12) this(2,1)]
    show "?R = nths ys (- set il)" "map ri_tv_index rows = filter (\<lambda>i. i \<in> - set il) [0..<length ys]" by blast+
  qed
  have len: "length ?a = length rows" by simp
  have tvA: "row_tv_index (?a ! k) = shift_of (set dl) k" if "k < length ?a" for k
  proof -
    have "k < length (filter (\<lambda>i. i \<in> - set dl) [0..<length xs])" using that A(2) by (metis length_map)
    then have "map row_tv_index ?a ! k = shift_of (set dl) k" unfolding A(2) by (intro filter_upt_nth(1)) auto
    then show ?thesis using nth_map[OF that, of row_tv_index] by (simp only:)
  qed
  have tvR: "ri_tv_index (rows ! k) = shift_of (set il) k" if "k < length rows" for k
  proof -
    have "k < length (filter (\<lambda>i. i \<in> - set il) [0..<length ys])" using that R(2) by (metis length_map)
    then have "map ri_tv_index rows ! k = shift_of (set il) k" unfolding R(2) by (intro filter_upt_nth(1)) auto
    then show ?thesis using nth_map[OF that, of ri_tv_index] by (simp only:)
  qed
  show ?thesis
  proof (cases "first_difference ?a rows")
    case None
    then have "?A = ?R" by (intro nth_equalityI) (auto simp: first_difference_def find_None_iff)
    then have "applies (set dl) (set il) xs ys" using A(1) R(1) assms(5,6) by (simp add: applies_def)
    then show ?thesis using None assms(1-4) by (simp add: calculate_moves_sorted_def)
  next
    case (Some f)
    then have "f \<in> set [0..<length ?a]" and less: "\<forall>i<f. row_key (?a ! i) = ri_key (rows ! i)"
      by (auto simp: first_difference_def find_Some_iff)
    then have f: "f < length ?a" "f < length rows" by auto
    have take: "take f ?A = take f ?R" using f less by (intro nth_equalityI) auto
    let ?bl = "map (\<lambda>i. \<lparr>row_key = ri_key (rows ! i), row_tv_index = i\<rparr>) [0..<length rows]"
    let ?b = "sort_key (\<lambda>r. (row_key r, row_tv_index r)) ?bl"
    have "lcs_input ?a ?b ?R"
      unfolding lcs_input_def
    proof (intro conjI ballI allI impI)
      show "sorted (map row_key ?b)" by (rule sorted_key_tuple[of _ row_tv_index]) (rule sorted_sort_key)
      show "row_key (?a ! i) \<in> row_key ` set ?b" if "i < length ?a" for i
      proof -
        have "?a ! i \<in> set ?l" using nth_mem[OF that] sa(1) by simp
        then obtain r where r: "r \<in> set rows" "row_key (?a ! i) = ri_key r" by auto
        then obtain k where "k < length rows" "rows ! k = r" by (auto simp: in_set_conv_nth)
        then show ?thesis using r(2) by (auto simp: image_image)
      qed
      have l: "length ?A \<le> length xs" "length ?R \<le> length ys" unfolding A(1) R(1) by (simp_all only: nths_filter_upt length_map length_filter_upt)
      show "length ?a < 2 ^ 64" using l(1) assms(7) unfolding length_map by linarith
      show "length ?R < 2 ^ 64" using l(2) assms(8) by linarith
    qed auto
    from find_longest_matches_returns[OF this, of f "length ?a" f "length ?R" "modifications c"] f
    obtain ms where ms: "find_longest_matches (modifications c) ?a ?b f (length ?a) f (length rows) = Some ms"
        "chain f (length ?a) (blocks1 ms)" "chain f (length rows) (blocks2 ms)" "\<forall>m\<in>set ms. same_keys ?a ?R m"
      by (auto elim: returnsE)
    let ?ms = "ms @ [\<lparr>match_i = length ?a, match_j = length rows, match_size = 0, match_modified = 0\<rparr>]"
    let ?U = "{f..<length ?a} - kept (blocks1 ms)" and ?V = "{f..<length rows} - kept (blocks2 ms)"
    have ends: "chain f (length ?a) (blocks1 ?ms)" "chain f (length rows) (blocks2 ?ms)"
      "set (gaps f (blocks1 ?ms)) = ?U" "set (gaps f (blocks2 ?ms)) = ?V"
      using chain_append[OF ms(2), of "length ?a" "[(length ?a, 0)]"] chain_append[OF ms(3), of "length rows" "[(length rows, 0)]"]
        gaps_kept[OF ms(2)] gaps_kept[OF ms(3)] by simp_all
    have "blocks_of ?A (blocks1 ms) = blocks_of ?R (blocks2 ms)"
      using same_blocks[OF ms(2) _ ms(4)] ms(3) by simp
    then have "applies ?U ?V ?A ?R"
      using applies_blocks[of f ?A ?R "blocks1 ms" "blocks2 ms"] take f ms(2,3) by simp
    from applies_within[OF _ _ assms(5,6), of ?U ?V] this
    have ap: "applies (set dl \<union> shift_of (set dl) ` ?U) (set il \<union> shift_of (set il) ` ?V) xs ys"
      unfolding A(1) R(1) by simp
    have "(\<lambda>k. row_tv_index (?a ! k)) ` ?U = shift_of (set dl) ` ?U" "(\<lambda>k. ri_tv_index (rows ! k)) ` ?V = shift_of (set il) ` ?V"
      using tvA tvR by (auto intro!: image_cong)
    then have "returns (align_rows ?a rows f f ?ms c) (\<lambda>c'. c' = c\<lparr>deletions := deletions c', insertions := insertions c'\<rparr> \<and>
        wf (deletions c') \<and> wf (insertions c') \<and> iset_of (insertions c) \<subseteq> iset_of (insertions c') \<and>
        applies (iset_of (deletions c')) (iset_of (insertions c')) xs ys)"
      using align_rows_props[OF ends(1,2) assms(1,2), of ?a rows] ap unfolding ends(3,4) assms(3,4)
      by (auto elim!: returns_mono)
    then show ?thesis using Some ms(1) by (simp add: calculate_moves_sorted_def longest_matches_def)
  qed
qed

end
