(* ===== verification/Exceptions.thy ===== *)
theory Exceptions
  imports Prelude
begin

text \<open>
  Computations that can throw: \<open>None\<close> is still a computation that does not return (a failed
  assertion, undefined behaviour, a loop that does not end), \<open>Some (Inl e)\<close> an exception
  and \<open>Some (Inr x)\<close> a result.
\<close>

datatype exn = BadTransactLog | BufferSizeOverflow | UnsupportedSchemaChange | IncorrectThread | InvalidTransaction

type_synonym 'a action = "(exn + 'a) option"

definition ok :: "'a \<Rightarrow> 'a action" where
  "ok x = Some (Inr x)"

definition throw :: "exn \<Rightarrow> 'a action" where
  "throw e = Some (Inl e)"

definition andthen :: "'a action \<Rightarrow> ('a \<Rightarrow> 'b action) \<Rightarrow> 'b action" where
  "andthen m f = Option.bind m (\<lambda>r. case r of Inl e \<Rightarrow> Some (Inl e) | Inr x \<Rightarrow> f x)"

text \<open>A computation without exceptions, which may abort.\<close>

definition lift :: "'a option \<Rightarrow> 'a action" where
  "lift m = map_option Inr m"

lemma andthen_simps [simp]:
  "andthen None f = None" "andthen (Some (Inl e)) f = Some (Inl e)" "andthen (Some (Inr x)) f = f x"
  "andthen (ok x) f = f x" "andthen (throw e) f = throw e" "andthen (lift None) f = None" "andthen (lift (Some x)) f = f x"
  by (simp_all add: andthen_def ok_def throw_def lift_def)

lemma andthen_assoc: "andthen (andthen m f) g = andthen m (\<lambda>x. andthen (f x) g)"
  by (auto simp: andthen_def split: Option.bind_splits sum.splits)

lemma lift_simps [simp]: "lift (Some x) = ok x" "lift None = None"
  by (simp_all add: lift_def ok_def)

lemma ok_eq [simp]: "ok x = ok y \<longleftrightarrow> x = y" "ok x \<noteq> throw e" "throw e \<noteq> ok x" "ok x \<noteq> None" "throw e \<noteq> None"
  by (simp_all add: ok_def throw_def)

text \<open>\<open>yields m Q\<close>: the computation returns normally, and its result satisfies \<open>Q\<close>.\<close>

definition yields :: "'a action \<Rightarrow> ('a \<Rightarrow> bool) \<Rightarrow> bool" where
  "yields m Q = (case m of Some (Inr x) \<Rightarrow> Q x | _ \<Rightarrow> False)"

lemma yields_simps [simp]: "yields (ok x) Q = Q x" "\<not> yields (throw e) Q" "\<not> yields None Q"
  by (simp_all add: yields_def ok_def throw_def)

lemma yields_andthen [simp]: "yields (andthen m f) Q = yields m (\<lambda>x. yields (f x) Q)"
  by (auto simp: yields_def andthen_def split: option.splits sum.splits)

lemma yields_lift [simp]: "yields (lift m) Q = returns m Q"
  by (cases m) simp_all

lemma yields_mono: "yields m P \<Longrightarrow> (\<And>x. P x \<Longrightarrow> Q x) \<Longrightarrow> yields m Q"
  by (auto simp: yields_def split: option.splits sum.splits)

lemma yields_iff: "yields m Q \<longleftrightarrow> (\<exists>x. m = ok x \<and> Q x)"
  by (auto simp: yields_def ok_def split: option.splits sum.splits)

end
