(* ===== verification/SafeIntOps.thy ===== *)
theory SafeIntOps
  imports Prelude
begin

unbundle bit_operations_syntax

text \<open>
  realm/util/safe_int_ops.hpp and the type computations of realm/util/type_traits.hpp it uses:
  comparisons, additions, subtractions, multiplications, shifts and casts of integers of any two
  types, with overflow detection. The templates are functions of the types, which are data here:
  signedness and number of value bits. An operation returns in the option monad; \<open>None\<close>
  stands for a signed overflow or a shift out of range (both undefined in C++), a failed
  assertion, and a template that does not compile.
\<close>

section \<open>Integer types of C++ (LP64)\<close>

record int_type =
  is_signed :: bool
  digits :: nat

definition bool_t :: int_type where "bool_t = \<lparr>is_signed = False, digits = 1\<rparr>"
definition int_t :: int_type where "int_t = \<lparr>is_signed = True, digits = 31\<rparr>"
definition unsigned_t :: "nat \<Rightarrow> int_type" where "unsigned_t n = \<lparr>is_signed = False, digits = n\<rparr>"
definition signed_t :: "nat \<Rightarrow> int_type" where "signed_t n = \<lparr>is_signed = True, digits = n\<rparr>"

text \<open>\<open>bool\<close>, the character types, \<open>short\<close>, \<open>int\<close>, \<open>long\<close> and their unsigned counterparts.\<close>

definition c_type :: "int_type \<Rightarrow> bool" where
  "c_type t \<longleftrightarrow> (if is_signed t then digits t \<in> {7, 15, 31, 63} else digits t \<in> {1, 8, 16, 32, 64})"

text \<open>\<open>std::numeric_limits\<close>.\<close>

definition max_of :: "int_type \<Rightarrow> int" where
  "max_of t = 2 ^ digits t - 1"

definition min_of :: "int_type \<Rightarrow> int" where
  "min_of t = (if is_signed t then - (2 ^ digits t) else 0)"

definition fits :: "int_type \<Rightarrow> int \<Rightarrow> bool" where
  "fits t v \<longleftrightarrow> min_of t \<le> v \<and> v \<le> max_of t"

text \<open>The conversion \<open>T(v)\<close>: modulo for unsigned types, two's complement for signed ones.\<close>

definition conv :: "int_type \<Rightarrow> int \<Rightarrow> int" where
  "conv t v =
     (if t = bool_t then (if v = 0 then 0 else 1)
      else if is_signed t then (v + 2 ^ digits t) mod 2 ^ (digits t + 1) - 2 ^ digits t
      else v mod 2 ^ digits t)"

text \<open>
  Integral promotion and the usual arithmetic conversions. A result outside the range of the
  common type wraps around when it is unsigned and is undefined when it is signed.
\<close>

definition promote :: "int_type \<Rightarrow> int_type" where
  "promote t = (if digits t < 31 then int_t else t)"

definition arith_type :: "int_type \<Rightarrow> int_type \<Rightarrow> int_type" where
  "arith_type a b =
     (let a = promote a; b = promote b in if digits b \<le> digits a then a else b)"

definition in_type :: "int_type \<Rightarrow> int \<Rightarrow> int option" where
  "in_type t v = (if is_signed t then (if fits t v then Some v else None) else Some (v mod 2 ^ digits t))"

definition c_arith :: "(int \<Rightarrow> int \<Rightarrow> int) \<Rightarrow> int_type \<Rightarrow> int_type \<Rightarrow> int \<Rightarrow> int \<Rightarrow> int option" where
  "c_arith f a b x y = (let t = arith_type a b in in_type t (f (conv t x) (conv t y)))"

section \<open>Type computations\<close>

definition choose_widest_int :: "int_type \<Rightarrow> int_type \<Rightarrow> int_type" where
  "choose_widest_int a b = (if digits a \<ge> digits b then a else b)"

definition least_unsigned :: "nat \<Rightarrow> int_type option" where
  "least_unsigned bits =
     find (\<lambda>t. digits t \<ge> bits) [unsigned_t 8, unsigned_t 16, unsigned_t 32, unsigned_t 64, unsigned_t 64]"

definition fastest_unsigned :: "nat \<Rightarrow> int_type option" where
  "fastest_unsigned bits = map_option (choose_widest_int (unsigned_t 32)) (least_unsigned bits)"

section \<open>Helpers\<close>

definition is_negative :: "int_type \<Rightarrow> int \<Rightarrow> bool" where
  "is_negative t v = (if is_signed t then v < 0 else False)"

definition cast_to_unsigned :: "int_type \<Rightarrow> int \<Rightarrow> int" where
  "cast_to_unsigned t v = (if t = bool_t then conv (unsigned_t 32) v AND 1 else conv t v)"

definition from_twos_compl :: "int_type \<Rightarrow> int_type \<Rightarrow> int \<Rightarrow> int option" where
  "from_twos_compl to from v =
     do {
       realm_assert (\<not> is_signed from);
       let sign_bit = (2 :: int) ^ (digits from - 1);
       if \<not> is_signed to \<or> v AND sign_bit = 0 then Some (conv to v)
       else do {
         d \<leftarrow> c_arith (-) from from (conv from (- 1)) v;
         n \<leftarrow> c_arith (-) int_t to (- 1) (conv to d);
         Some (conv to n)
       }
     }"

section \<open>The operations for each combination of signedness\<close>

text \<open>\<open>SafeIntBinopsImpl<L, R, false, false>\<close>. A result pairs the overflow flag with the new \<open>lval\<close>.\<close>

definition common_uu :: "int_type \<Rightarrow> int_type \<Rightarrow> int_type option" where
  "common_uu l r = fastest_unsigned (if digits l \<ge> digits r then digits l else digits r)"

definition equal_uu :: "int_type \<Rightarrow> int_type \<Rightarrow> int \<Rightarrow> int \<Rightarrow> bool option" where
  "equal_uu lt rt l r = do { cu \<leftarrow> common_uu lt rt; Some (conv cu l = conv cu r) }"

definition less_uu :: "int_type \<Rightarrow> int_type \<Rightarrow> int \<Rightarrow> int \<Rightarrow> bool option" where
  "less_uu lt rt l r = do { cu \<leftarrow> common_uu lt rt; Some (conv cu l < conv cu r) }"

definition add_uu :: "int_type \<Rightarrow> int_type \<Rightarrow> int \<Rightarrow> int \<Rightarrow> (bool \<times> int) option" where
  "add_uu lt rt lval rval =
     do {
       cu \<leftarrow> common_uu lt rt;
       sum \<leftarrow> c_arith (+) lt rt lval rval;
       let lval_2 = cast_to_unsigned lt sum;
       if conv cu lval_2 < conv cu rval then Some (True, lval) else Some (False, lval_2)
     }"

definition sub_uu :: "int_type \<Rightarrow> int_type \<Rightarrow> int \<Rightarrow> int \<Rightarrow> (bool \<times> int) option" where
  "sub_uu lt rt lval rval =
     do {
       cu \<leftarrow> common_uu lt rt;
       lval_2 \<leftarrow> c_arith (-) cu cu (conv cu lval) (conv cu rval);
       if lval_2 > conv cu lval then Some (True, lval) else Some (False, cast_to_unsigned lt lval_2)
     }"

text \<open>\<open>SafeIntBinopsImpl<L, R, false, true>\<close>.\<close>

definition common_us :: "int_type \<Rightarrow> int_type \<Rightarrow> int_type option" where
  "common_us l r = fastest_unsigned (if digits l \<ge> digits r + 1 then digits l else digits r + 1)"

definition equal_us :: "int_type \<Rightarrow> int_type \<Rightarrow> int \<Rightarrow> int \<Rightarrow> bool option" where
  "equal_us lt rt l r =
     Some (if digits lt > digits rt then r \<ge> 0 \<and> l = cast_to_unsigned lt r else conv rt l = r)"

definition less_us :: "int_type \<Rightarrow> int_type \<Rightarrow> int \<Rightarrow> int \<Rightarrow> bool option" where
  "less_us lt rt l r =
     Some (if digits lt > digits rt then r \<ge> 0 \<and> l < cast_to_unsigned lt r else conv rt l < r)"

definition add_us :: "int_type \<Rightarrow> int_type \<Rightarrow> int \<Rightarrow> int \<Rightarrow> (bool \<times> int) option" where
  "add_us lt rt lval rval =
     do {
       cu \<leftarrow> common_us lt rt;
       lval_2 \<leftarrow> c_arith (+) lt cu lval (conv cu rval);
       let overflow = (if digits lt < digits cu then lval_2 > conv cu (max_of lt)
                       else (lval_2 < conv cu lval) = (rval \<ge> 0));
       if overflow then Some (True, lval) else Some (False, cast_to_unsigned lt lval_2)
     }"

definition sub_us :: "int_type \<Rightarrow> int_type \<Rightarrow> int \<Rightarrow> int \<Rightarrow> (bool \<times> int) option" where
  "sub_us lt rt lval rval =
     do {
       cu \<leftarrow> common_us lt rt;
       lval_2 \<leftarrow> c_arith (-) lt cu lval (conv cu rval);
       let overflow = (if digits lt < digits cu then lval_2 > conv cu (max_of lt)
                       else (lval_2 > conv cu lval) = (rval \<ge> 0));
       if overflow then Some (True, lval) else Some (False, cast_to_unsigned lt lval_2)
     }"

text \<open>\<open>SafeIntBinopsImpl<L, R, true, false>\<close>.\<close>

definition common_su :: "int_type \<Rightarrow> int_type \<Rightarrow> int_type option" where
  "common_su l r = fastest_unsigned (if digits l + 1 \<ge> digits r then digits l + 1 else digits r)"

definition equal_su :: "int_type \<Rightarrow> int_type \<Rightarrow> int \<Rightarrow> int \<Rightarrow> bool option" where
  "equal_su lt rt l r =
     Some (if digits lt < digits rt then l \<ge> 0 \<and> cast_to_unsigned rt l = r else l = conv lt r)"

definition less_su :: "int_type \<Rightarrow> int_type \<Rightarrow> int \<Rightarrow> int \<Rightarrow> bool option" where
  "less_su lt rt l r =
     Some (if digits lt < digits rt then l < 0 \<or> cast_to_unsigned rt l < r else l < conv lt r)"

definition add_su :: "int_type \<Rightarrow> int_type \<Rightarrow> int \<Rightarrow> int \<Rightarrow> (bool \<times> int) option" where
  "add_su lt rt lval rval =
     do {
       cu \<leftarrow> common_su lt rt;
       max_add \<leftarrow> c_arith (-) cu cu (conv cu (max_of lt)) (conv cu lval);
       if conv cu rval > max_add then Some (True, lval)
       else do {
         s \<leftarrow> c_arith (+) cu rt (conv cu lval) rval;
         lval \<leftarrow> from_twos_compl lt (arith_type cu rt) s;
         Some (False, lval)
       }
     }"

definition sub_su :: "int_type \<Rightarrow> int_type \<Rightarrow> int \<Rightarrow> int \<Rightarrow> (bool \<times> int) option" where
  "sub_su lt rt lval rval =
     do {
       cu \<leftarrow> common_su lt rt;
       max_sub \<leftarrow> c_arith (-) cu cu (conv cu lval) (conv cu (min_of lt));
       if conv cu rval > max_sub then Some (True, lval)
       else do {
         s \<leftarrow> c_arith (-) cu rt (conv cu lval) rval;
         lval \<leftarrow> from_twos_compl lt (arith_type cu rt) s;
         Some (False, lval)
       }
     }"

text \<open>\<open>SafeIntBinopsImpl<L, R, true, true>\<close>.\<close>

definition add_ss :: "int_type \<Rightarrow> int_type \<Rightarrow> int \<Rightarrow> int \<Rightarrow> (bool \<times> int) option" where
  "add_ss lt rt lval rval =
     do {
       overflow \<leftarrow> (if rval < 0 then do { b \<leftarrow> c_arith (-) lt rt (min_of lt) rval; Some (lval < b) }
                   else do { b \<leftarrow> c_arith (-) lt rt (max_of lt) rval; Some (lval > b) });
       if overflow then Some (True, lval)
       else do { s \<leftarrow> c_arith (+) lt rt lval rval; Some (False, conv lt s) }
     }"

definition sub_ss :: "int_type \<Rightarrow> int_type \<Rightarrow> int \<Rightarrow> int \<Rightarrow> (bool \<times> int) option" where
  "sub_ss lt rt lval rval =
     do {
       overflow \<leftarrow> (if rval < 0 then do { b \<leftarrow> c_arith (+) lt rt (max_of lt) rval; Some (lval > b) }
                   else do { b \<leftarrow> c_arith (+) lt rt (min_of lt) rval; Some (lval < b) });
       if overflow then Some (True, lval)
       else do { s \<leftarrow> c_arith (-) lt rt lval rval; Some (False, conv lt s) }
     }"

section \<open>The operations of the header\<close>

definition int_equal_to :: "int_type \<Rightarrow> int_type \<Rightarrow> int \<Rightarrow> int \<Rightarrow> bool option" where
  "int_equal_to lt rt l r =
     (if is_signed lt then if is_signed rt then Some (l = r) else equal_su lt rt l r
      else if is_signed rt then equal_us lt rt l r else equal_uu lt rt l r)"

definition int_not_equal_to :: "int_type \<Rightarrow> int_type \<Rightarrow> int \<Rightarrow> int \<Rightarrow> bool option" where
  "int_not_equal_to lt rt l r = map_option Not (int_equal_to lt rt l r)"

definition int_less_than :: "int_type \<Rightarrow> int_type \<Rightarrow> int \<Rightarrow> int \<Rightarrow> bool option" where
  "int_less_than lt rt l r =
     (if is_signed lt then if is_signed rt then Some (l < r) else less_su lt rt l r
      else if is_signed rt then less_us lt rt l r else less_uu lt rt l r)"

definition int_less_than_or_equal :: "int_type \<Rightarrow> int_type \<Rightarrow> int \<Rightarrow> int \<Rightarrow> bool option" where
  "int_less_than_or_equal lt rt l r = map_option Not (int_less_than rt lt r l)"

definition int_greater_than :: "int_type \<Rightarrow> int_type \<Rightarrow> int \<Rightarrow> int \<Rightarrow> bool option" where
  "int_greater_than lt rt l r = int_less_than rt lt r l"

definition int_greater_than_or_equal :: "int_type \<Rightarrow> int_type \<Rightarrow> int \<Rightarrow> int \<Rightarrow> bool option" where
  "int_greater_than_or_equal lt rt l r = map_option Not (int_less_than lt rt l r)"

definition int_add_with_overflow_detect :: "int_type \<Rightarrow> int_type \<Rightarrow> int \<Rightarrow> int \<Rightarrow> (bool \<times> int) option" where
  "int_add_with_overflow_detect lt rt lval rval =
     (if is_signed lt then if is_signed rt then add_ss lt rt lval rval else add_su lt rt lval rval
      else if is_signed rt then add_us lt rt lval rval else add_uu lt rt lval rval)"

definition int_subtract_with_overflow_detect :: "int_type \<Rightarrow> int_type \<Rightarrow> int \<Rightarrow> int \<Rightarrow> (bool \<times> int) option" where
  "int_subtract_with_overflow_detect lt rt lval rval =
     (if is_signed lt then if is_signed rt then sub_ss lt rt lval rval else sub_su lt rt lval rval
      else if is_signed rt then sub_us lt rt lval rval else sub_uu lt rt lval rval)"

definition int_multiply_with_overflow_detect :: "int_type \<Rightarrow> int_type \<Rightarrow> int \<Rightarrow> int \<Rightarrow> (bool \<times> int) option" where
  "int_multiply_with_overflow_detect lt rt lval rval =
     do {
       b \<leftarrow> int_greater_than_or_equal lt int_t lval 0;
       realm_assert b;
       b \<leftarrow> int_greater_than rt int_t rval 0;
       realm_assert b;
       q \<leftarrow> c_arith (div) lt rt (max_of lt) rval;
       overflow \<leftarrow> int_less_than (arith_type lt rt) lt q lval;
       if overflow then Some (True, lval)
       else do { p \<leftarrow> c_arith (*) lt rt lval rval; Some (False, conv lt p) }
     }"

text \<open>A shift by the width of the promoted type or more is undefined.\<close>

definition shift_ok :: "int_type \<Rightarrow> nat \<Rightarrow> bool" where
  "shift_ok t i \<longleftrightarrow> i < digits (promote t) + (if is_signed (promote t) then 1 else 0)"

definition int_shift_left_with_overflow_detect :: "int_type \<Rightarrow> int \<Rightarrow> nat \<Rightarrow> (bool \<times> int) option" where
  "int_shift_left_with_overflow_detect t lval i =
     do {
       b \<leftarrow> int_greater_than_or_equal t int_t lval 0;
       realm_assert b;
       realm_assert (shift_ok t i);
       if drop_bit i (max_of t) < lval then Some (True, lval)
       else do { v \<leftarrow> in_type (promote t) (push_bit i lval); Some (False, conv t v) }
     }"

definition int_cast_has_overflow :: "int_type \<Rightarrow> int_type \<Rightarrow> int \<Rightarrow> bool option" where
  "int_cast_has_overflow to from v =
     do {
       below \<leftarrow> int_less_than from to v (min_of to);
       if below then Some True else int_less_than to from (max_of to) v
     }"

definition int_cast_with_overflow_detect :: "int_type \<Rightarrow> int_type \<Rightarrow> int \<Rightarrow> int \<Rightarrow> (bool \<times> int) option" where
  "int_cast_with_overflow_detect to from v out =
     do {
       overflow \<leftarrow> int_cast_has_overflow to from v;
       if \<not> overflow then Some (False, conv to v) else Some (True, out)
     }"

end
