(* ===== verification/SafeIntOpsCorrect.thy ===== *)
theory SafeIntOpsCorrect
  imports SafeIntOps
begin

text \<open>
  Correctness of the overflow-detecting integer operations: for all types of C++ and all values
  of those types they do what the mathematical operation says, and nothing undefined happens.
\<close>

section \<open>Types and conversions\<close>

lemma unsigned_t_sel [simp]: "is_signed (unsigned_t n) = False" "digits (unsigned_t n) = n"
  by (simp_all add: unsigned_t_def)

lemma int_t_sel [simp]: "is_signed int_t" "digits int_t = 31"
  by (simp_all add: int_t_def)

lemma eq_unsigned_t: "t = unsigned_t n \<longleftrightarrow> \<not> is_signed t \<and> digits t = n"
  by (cases t) (simp add: unsigned_t_def)

lemma eq_bool_t: "t = bool_t \<longleftrightarrow> \<not> is_signed t \<and> digits t = 1"
  by (cases t) (simp add: bool_t_def)

lemma fits_unsigned: "\<not> is_signed t \<Longrightarrow> fits t v \<longleftrightarrow> 0 \<le> v \<and> v < 2 ^ digits t"
  by (auto simp: fits_def min_of_def max_of_def)

lemma fits_signed: "is_signed t \<Longrightarrow> fits t v \<longleftrightarrow> - (2 ^ digits t) \<le> v \<and> v < 2 ^ digits t"
  by (auto simp: fits_def min_of_def max_of_def)

lemma conv_fits:
  assumes "fits t v"
  shows "conv t v = v"
proof (cases "is_signed t")
  case True
  have "(v + 2 ^ digits t) mod 2 ^ (digits t + 1) = v + 2 ^ digits t"
    using assms True by (intro mod_pos_pos_trivial) (auto simp: fits_signed)
  then show ?thesis using True by (simp add: conv_def eq_bool_t)
next
  case False
  then show ?thesis
    using assms by (auto simp: conv_def eq_bool_t fits_unsigned)
qed

lemma conv_unsigned: "\<not> is_signed t \<Longrightarrow> digits t \<noteq> 1 \<Longrightarrow> conv t v = v mod 2 ^ digits t"
  by (simp add: conv_def eq_bool_t)

lemma cast_to_unsigned_mod: "\<not> is_signed t \<Longrightarrow> cast_to_unsigned t v = v mod 2 ^ digits t"
  by (auto simp: cast_to_unsigned_def eq_bool_t conv_unsigned conv_def bool_t_def unsigned_t_def
      and_one_eq mod_mod_cancel)

lemma wrap_add: "0 \<le> a \<Longrightarrow> a < m \<Longrightarrow> 0 \<le> b \<Longrightarrow> b < m \<Longrightarrow> (a + b) mod m = (if a + b < m then a + b else a + b - m)"
  for m :: int
  using mod_pos_pos_trivial[of "a + b - m" m] by (simp add: mod_add_self2[of "a + b - m", symmetric])

lemma wrap_sub: "0 \<le> a \<Longrightarrow> a < m \<Longrightarrow> 0 \<le> b \<Longrightarrow> b < m \<Longrightarrow> (a - b) mod m = (if b \<le> a then a - b else a - b + m)"
  for m :: int
  using mod_pos_pos_trivial[of "a - b + m" m] by simp

lemma wrap_neg: "- m \<le> v \<Longrightarrow> v < m \<Longrightarrow> v mod m = (if 0 \<le> v then v else v + m)"
  for m :: int
  using mod_pos_pos_trivial[of "v + m" m] by simp

text \<open>The common unsigned type of two types has 32 or 64 bits and holds both.\<close>

lemma fastest_unsigned_props:
  assumes "bits \<le> 64"
  obtains n where "fastest_unsigned bits = Some (unsigned_t n)" "n = 32 \<or> n = 64" "bits \<le> n"
  using assms
  by (cases "bits \<le> 8"; cases "bits \<le> 16"; cases "bits \<le> 32")
    (auto simp: fastest_unsigned_def least_unsigned_def choose_widest_int_def)

lemma c_type_digits: "c_type t \<Longrightarrow> digits t \<le> 64" "c_type t \<Longrightarrow> is_signed t \<Longrightarrow> digits t \<le> 63"
  "c_type t \<Longrightarrow> digits t < 31 \<Longrightarrow> digits t \<le> 16" "c_type t \<Longrightarrow> 31 \<le> digits t \<Longrightarrow> \<not> is_signed t \<Longrightarrow> 32 \<le> digits t"
  by (auto simp: c_type_def split: if_splits)

lemma power_le: "a \<le> b \<Longrightarrow> (2 :: int) ^ a \<le> 2 ^ b"
  by simp

lemma fits_widen:
  "\<not> is_signed t \<Longrightarrow> \<not> is_signed u \<Longrightarrow> digits t \<le> digits u \<Longrightarrow> fits t v \<Longrightarrow> fits u v"
  by (auto simp: fits_unsigned intro: order_less_le_trans power_increasing)

lemma fits_widen_signed:
  assumes "is_signed t" "is_signed u" "digits t \<le> digits u" "fits t v"
  shows "fits u v"
  using assms power_le[OF assms(3)] unfolding fits_signed[OF assms(1)] fits_signed[OF assms(2)] by linarith

lemma common_uu_props:
  assumes "c_type lt" "c_type rt"
  obtains n where "common_uu lt rt = Some (unsigned_t n)" "n = 32 \<or> n = 64" "digits lt \<le> n" "digits rt \<le> n"
proof -
  have "(if digits lt \<ge> digits rt then digits lt else digits rt) \<le> 64" using assms c_type_digits[of lt] c_type_digits[of rt] by auto
  then obtain n where n: "fastest_unsigned (if digits lt \<ge> digits rt then digits lt else digits rt) = Some (unsigned_t n)" "n = 32 \<or> n = 64" "(if digits lt \<ge> digits rt then digits lt else digits rt) \<le> n"
    by (rule fastest_unsigned_props)
  then show thesis by (intro that[of n]) (auto simp: common_uu_def split: if_splits)
qed

lemma common_us_props:
  assumes "c_type lt" "c_type rt" "is_signed rt"
  obtains n where "common_us lt rt = Some (unsigned_t n)" "n = 32 \<or> n = 64" "digits lt \<le> n" "digits rt < n"
proof -
  have "(if digits lt \<ge> digits rt + 1 then digits lt else digits rt + 1) \<le> 64" using assms c_type_digits[of lt] c_type_digits[of rt] by auto
  then obtain n where n: "fastest_unsigned (if digits lt \<ge> digits rt + 1 then digits lt else digits rt + 1) = Some (unsigned_t n)" "n = 32 \<or> n = 64" "(if digits lt \<ge> digits rt + 1 then digits lt else digits rt + 1) \<le> n"
    by (rule fastest_unsigned_props)
  then show thesis by (intro that[of n]) (auto simp: common_us_def split: if_splits)
qed

lemma common_su_props:
  assumes "c_type lt" "c_type rt" "is_signed lt"
  obtains n where "common_su lt rt = Some (unsigned_t n)" "n = 32 \<or> n = 64" "digits lt < n" "digits rt \<le> n"
proof -
  have "(if digits lt + 1 \<ge> digits rt then digits lt + 1 else digits rt) \<le> 64" using assms c_type_digits[of lt] c_type_digits[of rt] by auto
  then obtain n where n: "fastest_unsigned (if digits lt + 1 \<ge> digits rt then digits lt + 1 else digits rt) = Some (unsigned_t n)" "n = 32 \<or> n = 64" "(if digits lt + 1 \<ge> digits rt then digits lt + 1 else digits rt) \<le> n"
    by (rule fastest_unsigned_props)
  then show thesis by (intro that[of n]) (auto simp: common_su_def split: if_splits)
qed

lemma arith_type_unsigned:
  assumes "n = 32 \<or> n = 64" "digits t \<le> n" "is_signed t \<longrightarrow> digits t < n"
  shows "arith_type t (unsigned_t n) = unsigned_t n" "arith_type (unsigned_t n) t = unsigned_t n"
proof -
  have "promote t = int_t \<or> promote t = t" by (simp add: promote_def)
  moreover have "promote (unsigned_t n) = unsigned_t n" using assms(1) by (auto simp: promote_def)
  ultimately show "arith_type t (unsigned_t n) = unsigned_t n" "arith_type (unsigned_t n) t = unsigned_t n"
    using assms by (auto simp: arith_type_def Let_def eq_unsigned_t)
qed

text \<open>Arithmetic of two values of unsigned types is right modulo the first one.\<close>

lemma c_arith_uu:
  assumes "c_type lt" "c_type rt" "\<not> is_signed lt" "\<not> is_signed rt" "fits lt l" "fits rt r"
  obtains s where "c_arith (+) lt rt l r = Some s" "s mod 2 ^ digits lt = (l + r) mod 2 ^ digits lt"
proof -
  let ?t = "arith_type lt rt"
  consider "digits lt < 31" "digits rt < 31" | "31 \<le> digits lt \<or> 31 \<le> digits rt" by linarith
  then show thesis
  proof cases
    case 1
    then have t: "?t = int_t" by (simp add: arith_type_def promote_def)
    have "l < 2 ^ 16" "r < 2 ^ 16" "0 \<le> l" "0 \<le> r"
      using assms 1 c_type_digits(3)[of lt] c_type_digits(3)[of rt] power_le[of "digits lt" 16]
        power_le[of "digits rt" 16] by (auto simp: fits_unsigned)
    then have "fits int_t l" "fits int_t r" "fits int_t (l + r)" by (simp_all add: fits_signed)
    then show ?thesis using that[of "l + r"] t by (simp add: c_arith_def in_type_def conv_fits)
  next
    case 2
    then have t: "?t = lt \<and> digits rt \<le> digits lt \<or> ?t = rt \<and> digits lt \<le> digits rt"
      using assms c_type_digits(4)[of lt] c_type_digits(4)[of rt] by (auto simp: arith_type_def promote_def Let_def)
    then have u: "\<not> is_signed ?t" "digits lt \<le> digits ?t" "digits rt \<le> digits ?t" using assms by auto
    then have "fits ?t l" "fits ?t r" using assms fits_widen[of lt ?t l] fits_widen[of rt ?t r] by simp_all
    then have "c_arith (+) lt rt l r = Some ((l + r) mod 2 ^ digits ?t)"
      using u by (simp add: c_arith_def in_type_def conv_fits Let_def)
    moreover have "(l + r) mod 2 ^ digits ?t mod 2 ^ digits lt = (l + r) mod 2 ^ digits lt"
      using u by (simp add: mod_mod_cancel le_imp_power_dvd)
    ultimately show ?thesis using that by blast
  qed
qed

text \<open>What the overflow-detecting operations promise: the flag, and the result or the old value.\<close>

definition checked :: "int_type \<Rightarrow> int \<Rightarrow> int \<Rightarrow> bool \<times> int" where
  "checked t old v = (if fits t v then (False, v) else (True, old))"

section \<open>Addition and subtraction\<close>

lemma add_uu_correct:
  assumes "c_type lt" "c_type rt" "\<not> is_signed lt" "\<not> is_signed rt" "fits lt l" "fits rt r"
  shows "add_uu lt rt l r = Some (checked lt l (l + r))"
proof -
  obtain s where s: "c_arith (+) lt rt l r = Some s" "s mod 2 ^ digits lt = (l + r) mod 2 ^ digits lt"
    using c_arith_uu[OF assms] .
  obtain n where n: "common_uu lt rt = Some (unsigned_t n)" "n = 32 \<or> n = 64" "digits lt \<le> n" "digits rt \<le> n"
    using common_uu_props[OF assms(1,2)] .
  let ?v = "(l + r) mod 2 ^ digits lt"
  have l: "0 \<le> l" "l < 2 ^ digits lt" and r: "0 \<le> r" "r < 2 ^ digits rt" using assms by (auto simp: fits_unsigned)
  have v: "0 \<le> ?v" "?v < 2 ^ digits lt" by simp_all
  have "conv (unsigned_t n) ?v = ?v" "conv (unsigned_t n) r = r"
    using fits_widen[of lt "unsigned_t n" ?v] fits_widen[of rt "unsigned_t n" r] assms v n
    by (simp_all add: conv_fits fits_unsigned)
  moreover have "?v < r \<longleftrightarrow> \<not> l + r < 2 ^ digits lt"
  proof (cases "r < 2 ^ digits lt")
    case True
    then show ?thesis using wrap_add[OF l r(1) True] l r by auto
  next
    case False
    then show ?thesis using v l r by linarith
  qed
  moreover have "?v = l + r" if "l + r < 2 ^ digits lt" using that l r by simp
  ultimately show ?thesis
    using n(1) s assms l r by (auto simp: add_uu_def checked_def cast_to_unsigned_mod fits_unsigned Let_def)
qed

lemma c_arith_cu:
  assumes "n = 32 \<or> n = 64" "digits t \<le> n" "is_signed t \<longrightarrow> digits t < n"
  shows "c_arith f t (unsigned_t n) x y = Some (f (x mod 2 ^ n) (y mod 2 ^ n) mod 2 ^ n)"
    "c_arith f (unsigned_t n) t x y = Some (f (x mod 2 ^ n) (y mod 2 ^ n) mod 2 ^ n)"
  using assms(1) by (auto simp: c_arith_def arith_type_unsigned[OF assms] in_type_def conv_unsigned)

lemma conv_cu: "n = 32 \<or> n = 64 \<Longrightarrow> conv (unsigned_t n) v = v mod 2 ^ n"
  by (auto simp: conv_unsigned)

lemma half_power: "a < n \<Longrightarrow> 2 * 2 ^ a \<le> (2 :: int) ^ n"
  using power_le[of "Suc a" n] by simp

lemma max_mod: "a \<le> n \<Longrightarrow> (2 ^ a - 1) mod 2 ^ n = (2 :: int) ^ a - 1"
proof (rule mod_pos_pos_trivial)
  assume "a \<le> n"
  then show "(2 :: int) ^ a - 1 < 2 ^ n" using power_le[of a n] by linarith
qed simp

lemma sub_uu_correct:
  assumes "c_type lt" "c_type rt" "\<not> is_signed lt" "\<not> is_signed rt" "fits lt l" "fits rt r"
  shows "sub_uu lt rt l r = Some (checked lt l (l - r))"
proof -
  obtain n where n: "common_uu lt rt = Some (unsigned_t n)" "n = 32 \<or> n = 64" "digits lt \<le> n" "digits rt \<le> n"
    using common_uu_props[OF assms(1,2)] .
  have l: "0 \<le> l" "l < 2 ^ digits lt" "l < 2 ^ n" and r: "0 \<le> r" "r < 2 ^ n"
    using fits_widen[of lt "unsigned_t n" l] fits_widen[of rt "unsigned_t n" r] assms n by (simp_all add: fits_unsigned)
  then show ?thesis
    using n wrap_sub[OF l(1,3) r] assms(3)
    by (auto simp: sub_uu_def checked_def c_arith_cu conv_cu cast_to_unsigned_mod fits_unsigned)
qed

lemma us_bounds:
  assumes "c_type lt" "c_type rt" "\<not> is_signed lt" "is_signed rt" "fits lt l" "fits rt r"
  obtains n where "common_us lt rt = Some (unsigned_t n)" "n = 32 \<or> n = 64" "digits lt \<le> n" "digits rt < n"
    "0 \<le> l" "l < 2 ^ digits lt" "l < 2 ^ n" "- (2 ^ digits rt) \<le> r" "r < 2 ^ digits rt" "2 * 2 ^ digits rt \<le> (2 :: int) ^ n"
proof -
  obtain n where n: "common_us lt rt = Some (unsigned_t n)" "n = 32 \<or> n = 64" "digits lt \<le> n" "digits rt < n"
    using common_us_props[OF assms(1,2,4)] .
  then show thesis
    using that[OF n] fits_widen[of lt "unsigned_t n" l] assms half_power[of "digits rt" n]
    by (simp add: fits_unsigned fits_signed)
qed

lemma add_us_correct:
  assumes "c_type lt" "c_type rt" "\<not> is_signed lt" "is_signed rt" "fits lt l" "fits rt r"
  shows "add_us lt rt l r = Some (checked lt l (l + r))"
proof -
  obtain n where n: "common_us lt rt = Some (unsigned_t n)" "n = 32 \<or> n = 64" "digits lt \<le> n" "digits rt < n"
    and b: "0 \<le> l" "l < 2 ^ digits lt" "l < 2 ^ n" "- (2 ^ digits rt) \<le> r" "r < 2 ^ digits rt"
      "2 * 2 ^ digits rt \<le> (2 :: int) ^ n"
    using us_bounds[OF assms] .
  let ?m = "(2 :: int) ^ n" and ?v = "(l + r) mod 2 ^ n"
  have v: "?v = (if l + r < 0 then l + r + ?m else if l + r < ?m then l + r else l + r - ?m)"
    using b wrap_neg[of ?m "l + r"] wrap_add[of l ?m r] by auto
  have "(if digits lt < n then ?v > 2 ^ digits lt - 1 else (?v < l) = (r \<ge> 0)) \<longleftrightarrow> \<not> fits lt (l + r)"
  proof (cases "digits lt < n")
    case True
    then show ?thesis using half_power[OF True] b v assms(3) by (auto simp: fits_unsigned)
  next
    case False
    then show ?thesis using n(3) b v assms(3) by (auto simp: fits_unsigned)
  qed
  moreover have "(2 ^ digits lt - 1) mod ?m = 2 ^ digits lt - 1" by (rule max_mod[OF n(3)])
  ultimately show ?thesis
    using n b assms(3) v
    by (auto simp: add_us_def checked_def c_arith_cu conv_cu cast_to_unsigned_mod fits_unsigned max_of_def mod_simps
        Let_def split: if_splits)
qed

lemma sub_us_correct:
  assumes "c_type lt" "c_type rt" "\<not> is_signed lt" "is_signed rt" "fits lt l" "fits rt r"
  shows "sub_us lt rt l r = Some (checked lt l (l - r))"
proof -
  obtain n where n: "common_us lt rt = Some (unsigned_t n)" "n = 32 \<or> n = 64" "digits lt \<le> n" "digits rt < n"
    and b: "0 \<le> l" "l < 2 ^ digits lt" "l < 2 ^ n" "- (2 ^ digits rt) \<le> r" "r < 2 ^ digits rt"
      "2 * 2 ^ digits rt \<le> (2 :: int) ^ n"
    using us_bounds[OF assms] .
  let ?m = "(2 :: int) ^ n" and ?v = "(l - r) mod 2 ^ n"
  have v: "?v = (if l - r < 0 then l - r + ?m else if l - r < ?m then l - r else l - r - ?m)"
    using b wrap_neg[of ?m "l - r"] wrap_add[of l ?m "- r"] by auto
  have "(if digits lt < n then ?v > 2 ^ digits lt - 1 else (?v > l) = (r \<ge> 0)) \<longleftrightarrow> \<not> fits lt (l - r)"
  proof (cases "digits lt < n")
    case True
    then show ?thesis using half_power[OF True] b v assms(3) by (auto simp: fits_unsigned)
  next
    case False
    then show ?thesis using n(3) b v assms(3) by (auto simp: fits_unsigned)
  qed
  moreover have "(2 ^ digits lt - 1) mod ?m = 2 ^ digits lt - 1" by (rule max_mod[OF n(3)])
  ultimately show ?thesis
    using n b assms(3) v
    by (auto simp: sub_us_def checked_def c_arith_cu conv_cu cast_to_unsigned_mod fits_unsigned max_of_def mod_simps
        Let_def split: if_splits)
qed

lemma and_top_bit:
  fixes v :: int
  assumes "0 \<le> v" "v < 2 ^ Suc k"
  shows "v AND 2 ^ k = 0 \<longleftrightarrow> v < 2 ^ k"
proof (cases "v < 2 ^ k")
  case True
  then show ?thesis using assms by (simp add: and_exp_eq_0_iff_not_bit bit_iff_odd)
next
  case False
  then have "v div 2 ^ k = 1" using assms div_pos_pos_trivial[of "v - 2 ^ k" "2 ^ k"] div_add_self2[of "2 ^ k" "v - 2 ^ k"] by simp
  then show ?thesis using False by (simp add: and_exp_eq_0_iff_not_bit bit_iff_odd)
qed

lemma c_arith_int:
  assumes "c_type t" "is_signed t" "fits t v" "fits t (- 1 - v)"
  shows "c_arith (-) int_t t (- 1) v = Some (- 1 - v)"
proof -
  let ?t = "arith_type int_t t"
  have t: "is_signed ?t" "digits t \<le> digits ?t" using assms(2) by (auto simp: arith_type_def promote_def Let_def)
  moreover have "fits t (- 1)" using assms(2) less_trans[of "- 1 :: int" 0 "2 ^ digits t"] by (simp add: fits_signed)
  ultimately have "fits ?t v \<and> fits ?t (- 1 - v) \<and> fits ?t (- 1)"
    using assms(2-) fits_widen_signed[OF _ t] by blast
  then show ?thesis using t by (simp add: c_arith_def in_type_def conv_fits Let_def)
qed

lemma from_twos_compl_signed:
  assumes "c_type t" "is_signed t" "n = 32 \<or> n = 64" "digits t < n" "fits t x" "v = x mod 2 ^ n"
  shows "from_twos_compl t (unsigned_t n) v = Some x"
proof -
  let ?m = "(2 :: int) ^ n"
  define K where "K = (2 :: int) ^ (n - 1)"
  have m: "?m = 2 * K" using assms(3) by (auto simp: K_def)
  have x: "- K \<le> x" "x < K" and xt: "- (2 ^ digits t) \<le> x" "x < 2 ^ digits t"
    using assms(4,5) power_le[of "digits t" "n - 1"] unfolding K_def fits_signed[OF assms(2)] by linarith+
  have v: "v = (if x < 0 then x + ?m else x)" using wrap_neg[of ?m x] x m assms(6) by simp
  have v2: "0 \<le> v" "v < 2 ^ Suc (n - 1)" using v x m K_def by auto
  have top: "v AND 2 ^ (n - 1) = 0 \<longleftrightarrow> 0 \<le> x" using and_top_bit[OF v2] v x m K_def by auto
  show ?thesis
  proof (cases "0 \<le> x")
    case True
    then show ?thesis
      using top v assms by (simp add: from_twos_compl_def realm_assert_def Let_def conv_fits)
  next
    case False
    have "v mod ?m = v" using assms(6) by simp
    moreover have "(?m - 1 - v) mod ?m = ?m - 1 - v"
      using v x(1) False m by (intro mod_pos_pos_trivial) simp_all
    moreover have "- 1 mod ?m = ?m - 1" by (simp add: zmod_minus1)
    ultimately have "(- 1 mod ?m - v mod ?m) mod ?m = - 1 - x" using v False by simp
    moreover have "fits t (- 1 - x)" "fits t (- 1 - (- 1 - x))" using xt assms(2) by (auto simp: fits_signed)
    ultimately show ?thesis
      using False top assms by (simp add: from_twos_compl_def realm_assert_def Let_def conv_cu c_arith_cu
          conv_fits c_arith_int)
  qed
qed


lemma su_bounds:
  assumes "c_type lt" "c_type rt" "is_signed lt" "\<not> is_signed rt" "fits lt l" "fits rt r"
  obtains n where "common_su lt rt = Some (unsigned_t n)" "n = 32 \<or> n = 64" "digits lt < n" "digits rt \<le> n"
    "- (2 ^ digits lt) \<le> l" "l < 2 ^ digits lt" "0 \<le> r" "r < 2 ^ n" "2 * 2 ^ digits lt \<le> (2 :: int) ^ n"
proof -
  obtain n where n: "common_su lt rt = Some (unsigned_t n)" "n = 32 \<or> n = 64" "digits lt < n" "digits rt \<le> n"
    using common_su_props[OF assms(1,2,3)] .
  then show thesis
    using that[OF n] fits_widen[of rt "unsigned_t n" r] assms half_power[of "digits lt" n]
    by (simp add: fits_unsigned fits_signed)
qed

lemma add_su_correct:
  assumes "c_type lt" "c_type rt" "is_signed lt" "\<not> is_signed rt" "fits lt l" "fits rt r"
  shows "add_su lt rt l r = Some (checked lt l (l + r))"
proof -
  obtain n where n: "common_su lt rt = Some (unsigned_t n)" "n = 32 \<or> n = 64" "digits lt < n" "digits rt \<le> n"
    and b: "- (2 ^ digits lt) \<le> l" "l < 2 ^ digits lt" "0 \<le> r" "r < 2 ^ n" "2 * 2 ^ digits lt \<le> (2 :: int) ^ n"
    using su_bounds[OF assms] .
  have "(max_of lt - l) mod 2 ^ n = max_of lt - l"
    using b by (intro mod_pos_pos_trivial) (simp_all add: max_of_def)
  moreover have "from_twos_compl lt (unsigned_t n) ((l + r) mod 2 ^ n) = Some (l + r)" if "fits lt (l + r)"
    by (rule from_twos_compl_signed[OF assms(1,3) n(2,3) that refl])
  moreover have "r mod 2 ^ n > max_of lt - l \<longleftrightarrow> \<not> fits lt (l + r)"
    using b assms(3) by (auto simp: fits_def min_of_def)
  ultimately show ?thesis
    using n assms by (auto simp: add_su_def checked_def c_arith_cu conv_cu mod_simps arith_type_unsigned)
qed

lemma sub_su_correct:
  assumes "c_type lt" "c_type rt" "is_signed lt" "\<not> is_signed rt" "fits lt l" "fits rt r"
  shows "sub_su lt rt l r = Some (checked lt l (l - r))"
proof -
  obtain n where n: "common_su lt rt = Some (unsigned_t n)" "n = 32 \<or> n = 64" "digits lt < n" "digits rt \<le> n"
    and b: "- (2 ^ digits lt) \<le> l" "l < 2 ^ digits lt" "0 \<le> r" "r < 2 ^ n" "2 * 2 ^ digits lt \<le> (2 :: int) ^ n"
    using su_bounds[OF assms] .
  have "(l - min_of lt) mod 2 ^ n = l - min_of lt"
    using b assms(3) by (intro mod_pos_pos_trivial) (simp_all add: min_of_def)
  moreover have "from_twos_compl lt (unsigned_t n) ((l - r) mod 2 ^ n) = Some (l - r)" if "fits lt (l - r)"
    by (rule from_twos_compl_signed[OF assms(1,3) n(2,3) that refl])
  moreover have "r mod 2 ^ n > l - min_of lt \<longleftrightarrow> \<not> fits lt (l - r)"
    using b assms(3) by (auto simp: fits_def max_of_def)
  ultimately show ?thesis
    using n assms by (auto simp: sub_su_def checked_def c_arith_cu conv_cu mod_simps arith_type_unsigned)
qed

text \<open>Two signed types: everything happens in a type that holds both, without overflow.\<close>

lemma arith_type_ss:
  assumes "is_signed lt" "is_signed rt"
  shows "is_signed (arith_type lt rt)" "digits lt \<le> digits (arith_type lt rt)" "digits rt \<le> digits (arith_type lt rt)"
  using assms by (auto simp: arith_type_def promote_def Let_def)

lemma c_arith_ss:
  assumes "is_signed lt" "is_signed rt" "fits lt l" "fits rt r" "fits (arith_type lt rt) (f l r)"
  shows "c_arith f lt rt l r = Some (f l r)"
proof -
  let ?t = "arith_type lt rt"
  note t = arith_type_ss[OF assms(1,2)]
  then have "fits ?t l" "fits ?t r" using assms fits_widen_signed by blast+
  then show ?thesis using t assms(5) by (simp add: c_arith_def in_type_def conv_fits Let_def)
qed

lemma ss_bounds:
  assumes "is_signed lt" "is_signed rt" "fits lt l" "fits rt r"
  obtains a b m where "is_signed (arith_type lt rt)" "a = (2 :: int) ^ digits lt" "b = (2 :: int) ^ digits rt"
    "m = (2 :: int) ^ digits (arith_type lt rt)" "a \<le> m" "b \<le> m" "- a \<le> l" "l < a" "- b \<le> r" "r < b"
proof -
  note t = arith_type_ss[OF assms(1,2)]
  show thesis
    using that[OF t(1) refl refl refl] power_le[OF t(2)] power_le[OF t(3)] assms by (simp add: fits_signed)
qed

lemma fits_limits: "is_signed t \<Longrightarrow> fits t (min_of t)" "fits t (max_of t)"
  by (auto simp: fits_def min_of_def max_of_def)

lemma add_ss_correct:
  assumes "is_signed lt" "is_signed rt" "fits lt l" "fits rt r"
  shows "add_ss lt rt l r = Some (checked lt l (l + r))"
proof -
  obtain a b m where s: "is_signed (arith_type lt rt)" "a = (2 :: int) ^ digits lt" "b = (2 :: int) ^ digits rt"
    "m = (2 :: int) ^ digits (arith_type lt rt)" and b: "a \<le> m" "b \<le> m" "- a \<le> l" "l < a" "- b \<le> r" "r < b"
    using ss_bounds[OF assms] .
  have "c_arith (-) lt rt (min_of lt) r = Some (- a - r)" if "r < 0"
    using c_arith_ss[OF assms(1,2) fits_limits(1)[OF assms(1)] assms(4), of "(-)"] b s(2-4) that assms(1)
    by (simp add: fits_signed[OF s(1)] min_of_def)
  moreover have "c_arith (-) lt rt (max_of lt) r = Some (a - 1 - r)" if "0 \<le> r"
    using c_arith_ss[OF assms(1,2) fits_limits(2) assms(4), of "(-)"] b s(2-4) that
    by (simp add: fits_signed[OF s(1)] max_of_def)
  moreover have "c_arith (+) lt rt l r = Some (l + r)" if "fits lt (l + r)"
    using c_arith_ss[OF assms, of "(+)"] fits_widen_signed[OF assms(1) s(1) arith_type_ss(2) that] assms by simp
  ultimately show ?thesis
    using b s(2) by (auto simp: add_ss_def checked_def fits_signed[OF assms(1)] conv_fits)
qed

lemma sub_ss_correct:
  assumes "is_signed lt" "is_signed rt" "fits lt l" "fits rt r"
  shows "sub_ss lt rt l r = Some (checked lt l (l - r))"
proof -
  obtain a b m where s: "is_signed (arith_type lt rt)" "a = (2 :: int) ^ digits lt" "b = (2 :: int) ^ digits rt"
    "m = (2 :: int) ^ digits (arith_type lt rt)" and b: "a \<le> m" "b \<le> m" "- a \<le> l" "l < a" "- b \<le> r" "r < b"
    using ss_bounds[OF assms] .
  have "c_arith (+) lt rt (max_of lt) r = Some (a - 1 + r)" if "r < 0"
    using c_arith_ss[OF assms(1,2) fits_limits(2) assms(4), of "(+)"] b s(2-4) that
    by (simp add: fits_signed[OF s(1)] max_of_def)
  moreover have "c_arith (+) lt rt (min_of lt) r = Some (- a + r)" if "0 \<le> r"
    using c_arith_ss[OF assms(1,2) fits_limits(1)[OF assms(1)] assms(4), of "(+)"] b s(2-4) that assms(1)
    by (simp add: fits_signed[OF s(1)] min_of_def)
  moreover have "c_arith (-) lt rt l r = Some (l - r)" if "fits lt (l - r)"
    using c_arith_ss[OF assms, of "(-)"] fits_widen_signed[OF assms(1) s(1) arith_type_ss(2) that] assms by simp
  ultimately show ?thesis
    using b s(2) by (auto simp: sub_ss_def checked_def fits_signed[OF assms(1)] conv_fits)
qed


lemma int_add_correct:
  assumes "c_type lt" "c_type rt" "fits lt l" "fits rt r"
  shows "int_add_with_overflow_detect lt rt l r = Some (checked lt l (l + r))"
  using assms by (simp add: int_add_with_overflow_detect_def add_uu_correct add_us_correct add_su_correct add_ss_correct)

lemma int_subtract_correct:
  assumes "c_type lt" "c_type rt" "fits lt l" "fits rt r"
  shows "int_subtract_with_overflow_detect lt rt l r = Some (checked lt l (l - r))"
  using assms
  by (simp add: int_subtract_with_overflow_detect_def sub_uu_correct sub_us_correct sub_su_correct sub_ss_correct)

section \<open>Comparisons\<close>

lemma conv_cu_fits: "n = 32 \<or> n = 64 \<Longrightarrow> digits t \<le> n \<Longrightarrow> \<not> is_signed t \<Longrightarrow> fits t v \<Longrightarrow> conv (unsigned_t n) v = v"
  using fits_widen[of t "unsigned_t n" v] by (simp add: conv_fits)

lemma uu_correct:
  assumes "c_type lt" "c_type rt" "\<not> is_signed lt" "\<not> is_signed rt" "fits lt l" "fits rt r"
  shows "equal_uu lt rt l r = Some (l = r)" "less_uu lt rt l r = Some (l < r)"
  using common_uu_props[OF assms(1,2)] assms
  by (force simp: equal_uu_def less_uu_def conv_cu_fits)+

text \<open>A signed and an unsigned type: the non-negative values are compared in the wider of them.\<close>

lemma less_widen:
  assumes "\<not> is_signed ut" "is_signed st" "fits ut u" "fits st v"
  shows "digits ut > digits st \<Longrightarrow> 0 \<le> v \<Longrightarrow> cast_to_unsigned ut v = v" "digits ut \<le> digits st \<Longrightarrow> conv st u = u"
proof -
  show "cast_to_unsigned ut v = v" if "digits ut > digits st" "0 \<le> v"
    using that assms power_le[of "digits st" "digits ut"] unfolding cast_to_unsigned_mod[OF assms(1)] fits_signed[OF assms(2)]
    by (intro mod_pos_pos_trivial) linarith+
  show "conv st u = u" if "digits ut \<le> digits st"
  proof (rule conv_fits)
    have "0 \<le> (2 :: int) ^ digits st" by simp
    then show "fits st u"
      using assms(3) power_le[OF that] unfolding fits_unsigned[OF assms(1)] fits_signed[OF assms(2)] by linarith
  qed
qed

lemma us_correct:
  assumes "\<not> is_signed lt" "is_signed rt" "fits lt l" "fits rt r"
  shows "equal_us lt rt l r = Some (l = r)" "less_us lt rt l r = Some (l < r)"
  using less_widen[OF assms] assms by (auto simp: equal_us_def less_us_def fits_unsigned)

lemma su_correct:
  assumes "is_signed lt" "\<not> is_signed rt" "fits lt l" "fits rt r"
  shows "equal_su lt rt l r = Some (l = r)" "less_su lt rt l r = Some (l < r)"
  using less_widen[OF assms(2,1,4,3)] assms by (cases "0 \<le> l"; auto simp: equal_su_def less_su_def fits_unsigned)+

lemma int_equal_to_correct:
  "c_type lt \<Longrightarrow> c_type rt \<Longrightarrow> fits lt l \<Longrightarrow> fits rt r \<Longrightarrow> int_equal_to lt rt l r = Some (l = r)"
  by (simp add: int_equal_to_def uu_correct us_correct su_correct)

lemma int_less_than_correct [simp]:
  "c_type lt \<Longrightarrow> c_type rt \<Longrightarrow> fits lt l \<Longrightarrow> fits rt r \<Longrightarrow> int_less_than lt rt l r = Some (l < r)"
  by (simp add: int_less_than_def uu_correct us_correct su_correct)

lemma c_type_int [simp]: "c_type int_t" "fits int_t 0"
  by (simp_all add: c_type_def fits_signed)

lemma comparisons_correct:
  assumes "c_type lt" "c_type rt" "fits lt l" "fits rt r"
  shows "int_not_equal_to lt rt l r = Some (l \<noteq> r)" "int_less_than_or_equal lt rt l r = Some (l \<le> r)"
    "int_greater_than lt rt l r = Some (l > r)" "int_greater_than_or_equal lt rt l r = Some (l \<ge> r)"
  using assms
  by (auto simp: int_not_equal_to_def int_equal_to_correct int_less_than_or_equal_def int_greater_than_def
      int_greater_than_or_equal_def)

section \<open>Multiplication, shift, cast\<close>

lemma c_type_arith: "c_type a \<Longrightarrow> c_type b \<Longrightarrow> c_type (arith_type a b)"
  by (auto simp: arith_type_def promote_def Let_def c_type_def int_t_def split: if_splits)

text \<open>Non-negative values keep their value in the common type.\<close>

lemma fits_arith:
  assumes "c_type a" "c_type b" "fits a x" "fits b y" "0 \<le> x" "0 \<le> y"
  shows "fits (arith_type a b) x" "fits (arith_type a b) y"
proof -
  have d: "digits a \<le> digits (arith_type a b)" "digits b \<le> digits (arith_type a b)"
    by (auto simp: arith_type_def promote_def Let_def)
  have "x < 2 ^ digits a" "y < 2 ^ digits b" using assms(3,4) by (auto simp: fits_def max_of_def)
  then show "fits (arith_type a b) x" "fits (arith_type a b) y"
    using power_le[OF d(1)] power_le[OF d(2)] assms(5,6) unfolding fits_def min_of_def max_of_def
    by (cases "is_signed (arith_type a b)"; simp; linarith)+
qed

lemma c_arith_nonneg:
  assumes "c_type a" "c_type b" "fits a x" "fits b y" "0 \<le> x" "0 \<le> y" "0 \<le> f x y" "f x y < 2 ^ digits a"
  shows "c_arith f a b x y = Some (f x y)"
proof -
  have "digits a \<le> digits (arith_type a b)" by (auto simp: arith_type_def promote_def Let_def)
  then have b: "f x y < 2 ^ digits (arith_type a b)" using power_le[of "digits a"] assms(8) by (meson less_le_trans)
  have "min_of (arith_type a b) \<le> 0" by (simp add: min_of_def)
  then have "fits (arith_type a b) (f x y)" using b assms(7) by (auto simp: fits_def max_of_def)
  then show ?thesis
    using fits_arith[OF assms(1-6)] b assms(7) by (auto simp: c_arith_def in_type_def conv_fits Let_def)
qed

lemma le_div_iff:
  fixes a b c :: int
  assumes "0 < b"
  shows "a * b \<le> c \<longleftrightarrow> a \<le> c div b"
proof
  assume "a * b \<le> c"
  then show "a \<le> c div b" using zdiv_mono1[of "a * b" c b] assms by simp
next
  assume "a \<le> c div b"
  then have "a * b \<le> c div b * b" using assms by (intro mult_right_mono) auto
  then show "a * b \<le> c" using minus_mod_eq_div_mult[of c b] pos_mod_sign[OF assms, of c] by linarith
qed

lemma multiply_correct:
  assumes "c_type lt" "c_type rt" "fits lt l" "fits rt r" "0 \<le> l" "0 < r"
  shows "int_multiply_with_overflow_detect lt rt l r = Some (checked lt l (l * r))"
proof -
  have m: "fits lt (max_of lt)" "0 \<le> max_of lt" by (auto simp: fits_def min_of_def max_of_def)
  let ?q = "max_of lt div r"
  have q: "0 \<le> ?q" "?q \<le> max_of lt" using m assms(6) zdiv_mono2[of "max_of lt" 1 r]
    by (auto simp: pos_imp_zdiv_nonneg_iff)
  have "min_of lt \<le> 0" by (simp add: min_of_def)
  then have "fits lt ?q" using q by (simp add: fits_def)
  then have "fits (arith_type lt rt) ?q" using fits_arith(1)[OF assms(1,2) _ assms(4) q(1)] assms(6) by simp
  moreover have "c_arith (div) lt rt (max_of lt) r = Some ?q"
    using assms q m by (intro c_arith_nonneg) (auto simp: max_of_def)
  moreover have "?q < l \<longleftrightarrow> \<not> fits lt (l * r)"
  proof -
    have "fits lt (l * r) \<longleftrightarrow> l * r \<le> max_of lt"
      using assms(5,6) by (auto simp: fits_def min_of_def intro: order_trans[of _ 0])
    moreover have "l * r \<le> max_of lt \<longleftrightarrow> l \<le> ?q" by (rule le_div_iff[OF assms(6)])
    ultimately show ?thesis by auto
  qed
  moreover have "c_arith (*) lt rt l r = Some (l * r)" if "fits lt (l * r)"
    using assms that by (intro c_arith_nonneg) (auto simp: fits_def max_of_def)
  ultimately show ?thesis
    using assms comparisons_correct[of lt int_t l 0] comparisons_correct[of rt int_t r 0] c_type_arith[OF assms(1,2)]
    by (auto simp: int_multiply_with_overflow_detect_def checked_def realm_assert_def conv_fits)
qed


lemma shift_left_correct:
  assumes "c_type t" "fits t l" "0 \<le> l" "shift_ok t i"
  shows "int_shift_left_with_overflow_detect t l i = Some (checked t l (l * 2 ^ i))"
proof -
  have "drop_bit i (max_of t) < l \<longleftrightarrow> \<not> l * 2 ^ i \<le> max_of t"
    using le_div_iff[of "2 ^ i" l "max_of t"] by (auto simp: drop_bit_eq_div)
  moreover have f: "fits t (l * 2 ^ i) \<longleftrightarrow> l * 2 ^ i \<le> max_of t"
    using assms(3) by (auto simp: fits_def min_of_def intro: order_trans[of _ 0])
  moreover have "in_type (promote t) (l * 2 ^ i) = Some (l * 2 ^ i)" if "fits t (l * 2 ^ i)"
  proof -
    have "digits t \<le> digits (promote t)" by (simp add: promote_def)
    moreover have "l * 2 ^ i < 2 ^ digits t" using that f by (simp add: max_of_def)
    ultimately have b: "l * 2 ^ i < 2 ^ digits (promote t)" using power_le[of "digits t"] by (meson less_le_trans)
    have "min_of (promote t) \<le> 0" by (simp add: min_of_def)
    then have "fits (promote t) (l * 2 ^ i)" using b assms(3) by (auto simp: fits_def max_of_def intro: order_trans)
    then show ?thesis using b assms(3) by (auto simp: in_type_def)
  qed
  ultimately show ?thesis
    using assms comparisons_correct[of t int_t l 0]
    by (auto simp: int_shift_left_with_overflow_detect_def checked_def realm_assert_def conv_fits push_bit_eq_mult
        mult.commute)
qed

lemma cast_correct:
  assumes "c_type to" "c_type from" "fits from v"
  shows "int_cast_has_overflow to from v = Some (\<not> fits to v)"
    "int_cast_with_overflow_detect to from v out = Some (if fits to v then (False, v) else (True, out))"
proof -
  have "fits to (min_of to)" "fits to (max_of to)" by (auto simp: fits_def min_of_def max_of_def)
  then show "int_cast_has_overflow to from v = Some (\<not> fits to v)"
    using assms by (auto simp: int_cast_has_overflow_def fits_def)
  then show "int_cast_with_overflow_detect to from v out = Some (if fits to v then (False, v) else (True, out))"
    by (simp add: int_cast_with_overflow_detect_def conv_fits)
qed

section \<open>The property\<close>

text \<open>C14. Overflow detection: for any two integer types of C++ and any values of them, the checked
  addition, subtraction, multiplication and shift report an overflow exactly when the mathematical
  result does not fit the type of the first operand, leave the operand alone then and store the
  result otherwise; nothing undefined happens on the way.\<close>

theorem checked_arithmetic_correct:
  assumes "c_type lt" "c_type rt" "fits lt l" "fits rt r"
  shows "int_add_with_overflow_detect lt rt l r = Some (if fits lt (l + r) then (False, l + r) else (True, l)) \<and>
    int_subtract_with_overflow_detect lt rt l r = Some (if fits lt (l - r) then (False, l - r) else (True, l)) \<and>
    (0 \<le> l \<and> 0 < r \<longrightarrow>
      int_multiply_with_overflow_detect lt rt l r = Some (if fits lt (l * r) then (False, l * r) else (True, l))) \<and>
    (0 \<le> l \<and> shift_ok lt i \<longrightarrow>
      int_shift_left_with_overflow_detect lt l i = Some (if fits lt (l * 2 ^ i) then (False, l * 2 ^ i) else (True, l)))"
  using int_add_correct[OF assms] int_subtract_correct[OF assms] multiply_correct[OF assms]
    shift_left_correct[OF assms(1,3), of i] by (simp add: checked_def)

theorem checked_arithmetic_correct_witness:
  "int_add_with_overflow_detect (signed_t 7) (unsigned_t 8) (- 100) 228 = Some (True, - 100) \<and>
   int_subtract_with_overflow_detect (unsigned_t 64) int_t 5 (- 7) = Some (False, 12) \<and>
   int_multiply_with_overflow_detect int_t (unsigned_t 32) 65536 32768 = Some (True, 65536)"
  using checked_arithmetic_correct[of "signed_t 7" "unsigned_t 8" "- 100" 228]
    checked_arithmetic_correct[of "unsigned_t 64" int_t 5 "- 7"]
    checked_arithmetic_correct[of int_t "unsigned_t 32" 65536 32768]
  by (simp add: c_type_def signed_t_def unsigned_t_def int_t_def fits_def min_of_def max_of_def)

text \<open>Comparisons and casts of integers of different types follow the mathematical values; a
  cast is refused exactly when the value does not fit.\<close>

theorem comparisons_and_casts_correct:
  assumes "c_type lt" "c_type rt" "fits lt l" "fits rt r"
  shows "int_equal_to lt rt l r = Some (l = r) \<and> int_not_equal_to lt rt l r = Some (l \<noteq> r) \<and>
    int_less_than lt rt l r = Some (l < r) \<and> int_less_than_or_equal lt rt l r = Some (l \<le> r) \<and>
    int_greater_than lt rt l r = Some (l > r) \<and> int_greater_than_or_equal lt rt l r = Some (l \<ge> r) \<and>
    int_cast_with_overflow_detect lt rt r l = Some (if fits lt r then (False, r) else (True, l))"
  using int_equal_to_correct[OF assms] int_less_than_correct[OF assms] comparisons_correct[OF assms]
    cast_correct[OF assms(1,2,4)] by simp

theorem comparisons_and_casts_correct_witness:
  "int_less_than int_t (unsigned_t 32) (- 1) 0 = Some True \<and>
   int_cast_with_overflow_detect int_t (unsigned_t 32) 2147483648 0 = Some (True, 0)"
  using comparisons_and_casts_correct[of int_t "unsigned_t 32" "- 1" 0]
    comparisons_and_casts_correct[of int_t "unsigned_t 32" 0 2147483648]
  by (simp add: c_type_def unsigned_t_def int_t_def fits_def min_of_def max_of_def)

end
