(* ===== verification/Buffers.thy ===== *)
theory Buffers
  imports Exceptions SafeIntOpsCorrect
begin

text \<open>
  \<open>util::Buffer\<close> and \<open>util::AppendBuffer\<close> (realm/util/buffer.hpp): a memory region that knows
  its size, and one that grows. A cell that was never written is \<open>None\<close>; copying outside
  a region is undefined.
\<close>

type_synonym 'a buffer = "'a option list"

definition size_type :: int_type where
  "size_type = unsigned_t 64"

text \<open>\<open>safe_copy_n(from + begin, n, to + pos)\<close> between two regions.\<close>

definition copy_cells :: "'a buffer \<Rightarrow> nat \<Rightarrow> nat \<Rightarrow> 'a buffer \<Rightarrow> nat \<Rightarrow> 'a buffer option" where
  "copy_cells from begin n to pos =
     (if begin + n \<le> length from \<and> pos + n \<le> length to
      then Some (take pos to @ take n (drop begin from) @ drop (pos + n) to) else None)"

section \<open>Buffer\<close>

definition buffer_new :: "nat \<Rightarrow> 'a buffer" where
  "buffer_new n = replicate n None"

definition set_size :: "nat \<Rightarrow> 'a buffer \<Rightarrow> 'a buffer" where
  "set_size n b = buffer_new n"

definition buffer_resize :: "nat \<Rightarrow> nat \<Rightarrow> nat \<Rightarrow> nat \<Rightarrow> 'a buffer \<Rightarrow> 'a buffer option" where
  "buffer_resize new_size copy_begin copy_end copy_to b =
     copy_cells b copy_begin (copy_end - copy_begin) (buffer_new new_size) copy_to"

text \<open>Growth by half of the capacity, with the multiplication by 3 checked for overflow.\<close>

definition grown_capacity :: "nat \<Rightarrow> nat \<Rightarrow> nat option" where
  "grown_capacity capacity min_capacity =
     do {
       (overflow, c) \<leftarrow> int_multiply_with_overflow_detect size_type int_t (int capacity) 3;
       let new_capacity = nat (if overflow then max_of size_type else c) div 2;
       Some (if new_capacity < min_capacity then min_capacity else new_capacity)
     }"

definition buffer_reserve :: "nat \<Rightarrow> nat \<Rightarrow> 'a buffer \<Rightarrow> 'a buffer option" where
  "buffer_reserve used min_capacity b =
     (if length b \<ge> min_capacity then Some b
      else do {
        n \<leftarrow> grown_capacity (length b) min_capacity;
        buffer_resize n 0 used 0 b
      })"

definition buffer_reserve_extra :: "nat \<Rightarrow> nat \<Rightarrow> 'a buffer \<Rightarrow> 'a buffer action" where
  "buffer_reserve_extra used min_extra_capacity b =
     andthen (lift (int_add_with_overflow_detect size_type size_type (int used) (int min_extra_capacity)))
       (\<lambda>(overflow, min_capacity).
          if overflow then throw BufferSizeOverflow
          else lift (buffer_reserve used (nat min_capacity) b))"

section \<open>AppendBuffer\<close>

record 'a append_buffer =
  region :: "'a buffer"
  used_size :: nat

definition append_buffer_new :: "'a append_buffer" where
  "append_buffer_new = \<lparr>region = [], used_size = 0\<rparr>"

definition ab_append :: "'a list \<Rightarrow> 'a append_buffer \<Rightarrow> 'a append_buffer action" where
  "ab_append xs a =
     andthen (buffer_reserve_extra (used_size a) (length xs) (region a)) (\<lambda>r.
     andthen (lift (copy_cells (map Some xs) 0 (length xs) r (used_size a))) (\<lambda>r.
     ok \<lparr>region = r, used_size = used_size a + length xs\<rparr>))"

definition ab_reserve :: "nat \<Rightarrow> 'a append_buffer \<Rightarrow> 'a append_buffer option" where
  "ab_reserve min_capacity a =
     map_option (\<lambda>r. a\<lparr>region := r\<rparr>) (buffer_reserve (used_size a) min_capacity (region a))"

definition ab_resize :: "nat \<Rightarrow> 'a append_buffer \<Rightarrow> 'a append_buffer option" where
  "ab_resize new_size a = map_option (\<lambda>a. a\<lparr>used_size := new_size\<rparr>) (ab_reserve new_size a)"

definition ab_clear :: "'a append_buffer \<Rightarrow> 'a append_buffer" where
  "ab_clear a = a\<lparr>used_size := 0\<rparr>"

definition ab_release :: "'a append_buffer \<Rightarrow> 'a buffer \<times> 'a append_buffer" where
  "ab_release a = (region a, \<lparr>region = [], used_size = 0\<rparr>)"

section \<open>Correctness\<close>

lemma c_type_size [simp]: "c_type size_type"
  by (simp add: c_type_def size_type_def)

lemma fits_size: "fits size_type (int n) \<longleftrightarrow> n < 2 ^ 64"
  by (auto simp: fits_unsigned size_type_def)

lemma grown_capacity_props:
  assumes "capacity < 2 ^ 64" "m < 2 ^ 64"
  shows "returns (grown_capacity capacity m) (\<lambda>n. m \<le> n \<and> n < 2 ^ 64)"
proof -
  have "int_multiply_with_overflow_detect size_type int_t (int capacity) 3 = Some (checked size_type (int capacity) (int capacity * 3))"
    using assms by (intro multiply_correct) (auto simp: fits_size fits_signed)
  moreover have "nat x div 2 < 2 ^ 64" if "fits size_type x" for x
    using that by (auto simp: fits_unsigned size_type_def)
  moreover have "fits size_type (max_of size_type)" by (simp add: fits_def min_of_def max_of_def)
  ultimately show ?thesis using assms(2) by (simp add: grown_capacity_def checked_def Let_def)
qed

lemma buffer_reserve_props:
  assumes "length b < 2 ^ 64" "u \<le> length b" "u \<le> m" "m < 2 ^ 64"
  shows "returns (buffer_reserve u m b) (\<lambda>b'. m \<le> length b' \<and> length b' < 2 ^ 64 \<and> take u b' = take u b)"
proof (cases "length b \<ge> m")
  case False
  obtain n where "grown_capacity (length b) m = Some n" "m \<le> n" "n < 2 ^ 64"
    using grown_capacity_props[OF assms(1,4)] by (auto simp: returns_iff)
  then show ?thesis
    using False assms by (auto simp: buffer_reserve_def buffer_resize_def copy_cells_def buffer_new_def)
qed (use assms in \<open>simp add: buffer_reserve_def\<close>)

lemma buffer_reserve_extra_props:
  assumes "length b < 2 ^ 64" "u \<le> length b"
  shows "if u + n < 2 ^ 64
    then yields (buffer_reserve_extra u n b) (\<lambda>b'. u + n \<le> length b' \<and> length b' < 2 ^ 64 \<and> take u b' = take u b)
    else n < 2 ^ 64 \<longrightarrow> buffer_reserve_extra u n b = throw BufferSizeOverflow"
proof -
  have "int_add_with_overflow_detect size_type size_type (int u) (int n) =
      Some (checked size_type (int u) (int u + int n))" if "n < 2 ^ 64"
    using assms that by (intro int_add_correct) (auto simp: fits_size)
  then show ?thesis
    using buffer_reserve_props[OF assms, of "u + n"] fits_size[of "u + n"]
    by (auto simp: buffer_reserve_extra_def checked_def nat_add_distrib)
qed

text \<open>\<open>AppendBuffer\<close>: appending keeps what was appended before and adds the new elements at the
  end, whatever the capacity was; a total that does not fit \<open>size_t\<close> throws.\<close>

theorem append_buffer_correct:
  assumes "take (used_size a) (region a) = map Some xs" "used_size a = length xs" "length xs \<le> length (region a)"
    "length (region a) < 2 ^ 64" "length ys < 2 ^ 64"
  shows "if length xs + length ys < 2 ^ 64
    then yields (ab_append ys a) (\<lambda>a'. take (used_size a') (region a') = map Some (xs @ ys) \<and> used_size a' = length (xs @ ys) \<and>
      length (xs @ ys) \<le> length (region a'))
    else ab_append ys a = throw BufferSizeOverflow"
proof (cases "length xs + length ys < 2 ^ 64")
  case True
  then obtain r where r: "buffer_reserve_extra (used_size a) (length ys) (region a) = ok r"
      "length xs + length ys \<le> length r" "take (length xs) r = map Some xs"
    using buffer_reserve_extra_props[of "region a" "used_size a" "length ys"] assms by (auto simp: yields_iff)
  then show ?thesis using True assms by (simp add: ab_append_def copy_cells_def)
next
  case False
  then show ?thesis
    using buffer_reserve_extra_props[of "region a" "used_size a" "length ys"] assms by (simp add: ab_append_def)
qed

theorem append_buffer_correct_witness:
  "yields (ab_append [7, 8 :: int] append_buffer_new) (\<lambda>a. take (used_size a) (region a) = [Some 7, Some 8])"
proof -
  have "yields (ab_append [7, 8 :: int] append_buffer_new) (\<lambda>a'. take (used_size a') (region a') = map Some ([] @ [7, 8]) \<and>
      used_size a' = length ([] @ [7, 8 :: int]) \<and> length ([] @ [7, 8 :: int]) \<le> length (region a'))"
    using append_buffer_correct[of append_buffer_new "[]" "[7, 8 :: int]"] by (simp add: append_buffer_new_def)
  then show ?thesis by (rule yields_mono) (metis append_Nil list.map(1,2))
qed

end
