(* ===== verification/TransactLogCodec.thy ===== *)
theory TransactLogCodec
  imports Buffers "HOL-Library.Word"
begin

text \<open>
  The integer encoding of the transaction log (realm/impl/transact_log.hpp):
  \<open>TransactLogEncoder::encode_int\<close>, \<open>TransactLogParser::read_int\<close>, and the source of
  bytes the parser reads from. Integers of any type are written in groups of seven bits,
  least significant first; the last byte has bit 7 clear and the sign in bit 6.
\<close>

type_synonym byte = "8 word"

definition int64 :: int_type where "int64 = signed_t 63"
definition size_t :: int_type where "size_t = unsigned_t 64"
definition uint32 :: int_type where "uint32 = unsigned_t 32"

section \<open>Encoding\<close>

definition max_enc_bytes_per_int :: nat where "max_enc_bytes_per_int = 10"

text \<open>The loop of \<open>encode_int\<close>: at most \<open>n\<close> bytes; returns them and what is left of the value.\<close>

fun encode_groups :: "nat \<Rightarrow> int \<Rightarrow> byte list \<times> int" where
  "encode_groups 0 v = ([], v)"
| "encode_groups (Suc n) v =
     (if drop_bit 6 v = 0 then ([], v)
      else let (bs, rest) = encode_groups n (drop_bit 7 v)
           in (word_of_int (128 OR (v AND 127)) # bs, rest))"

text \<open>
  The negation of \<open>value + 1\<close> is carried out in the type of the value. The last byte is
  converted to \<open>unsigned char\<close>.
\<close>

definition encode_int :: "int_type \<Rightarrow> int \<Rightarrow> byte list option" where
  "encode_int t value =
     (let negative = is_negative t value;
          value = (if negative then conv t (- (value + 1)) else value);
          num_bits = 1 + digits t;
          max_bytes = (num_bits + 6) div 7
      in do {
        realm_assert (\<not> is_negative t value);
        let (bs, value) = encode_groups max_bytes value;
        Some (bs @ [word_of_int (if negative then 64 OR value else value)])
      })"

section \<open>Reading\<close>

text \<open>
  A parser reads the bytes between \<open>m_input_begin\<close> and \<open>m_input_end\<close> (\<open>input\<close>) and asks its
  \<open>NoCopyInputStream\<close> for the next block when they are used up. A stream is a state with a
  function \<open>next_block\<close>, which returns \<open>None\<close> for \<open>false\<close> (end of input).
\<close>

type_synonym 's next_block = "'s \<Rightarrow> byte list option \<times> 's"

record 's parser =
  input :: "byte list"
  stream :: 's

definition next_input_buffer :: "'s next_block \<Rightarrow> 's parser \<Rightarrow> bool \<times> 's parser" where
  "next_input_buffer nb p =
     (case nb (stream p) of
        (None, s) \<Rightarrow> (False, p\<lparr>stream := s\<rparr>)
      | (Some b, s) \<Rightarrow> (True, p\<lparr>input := b, stream := s\<rparr>))"

text \<open>
  \<open>read_char\<close> yields no byte at the end of the input. Reading from a block that is returned
  empty would be a read past its end (undefined).
\<close>

definition read_char :: "'s next_block \<Rightarrow> 's parser \<Rightarrow> (byte option \<times> 's parser) option" where
  "read_char nb p =
     (let (ok, p) = (if input p = [] then next_input_buffer nb p else (True, p))
      in if \<not> ok then Some (None, p)
         else case input p of [] \<Rightarrow> None | c # cs \<Rightarrow> Some (Some c, p\<lparr>input := cs\<rparr>))"

text \<open>
  The loop of \<open>read_int\<close>, with its index \<open>i\<close> and the value so far. It ends with the last
  byte read and the value, or with the jump to \<open>bad_transact_log\<close>.
\<close>

function read_groups :: "'s next_block \<Rightarrow> int_type \<Rightarrow> nat \<Rightarrow> nat \<Rightarrow> int \<Rightarrow> 's parser \<Rightarrow>
    (exn + (int \<times> int \<times> 's parser)) option" where
  "read_groups nb t max_bytes i value p =
     (if i \<ge> max_bytes then Some (Inr (0, value, p))
      else do {
        (c, p) \<leftarrow> read_char nb p;
        case c of
          None \<Rightarrow> Some (Inl BadTransactLog)
        | Some c \<Rightarrow>
            let part = uint c in
            if 255 < part then Some (Inl BadTransactLog)
            else if part AND 128 = 0 then do {
              (overflow, q) \<leftarrow> int_shift_left_with_overflow_detect t (conv t (part AND 63)) (i * 7);
              if overflow then Some (Inl BadTransactLog)
              else Some (Inr (part, value OR q, p))
            }
            else if i = max_bytes - 1 then Some (Inl BadTransactLog)
            else read_groups nb t max_bytes (Suc i) (value OR conv t (push_bit (i * 7) (conv t (part AND 127)))) p
      })"
  by pat_completeness auto
termination by (relation "measure (\<lambda>(nb, t, m, i, v, p). m - i)") auto

declare read_groups.simps [simp del]

definition read_int :: "'s next_block \<Rightarrow> int_type \<Rightarrow> 's parser \<Rightarrow> (exn + (int \<times> 's parser)) option" where
  "read_int nb t p =
     do {
       r \<leftarrow> read_groups nb t ((digits t + 1 + 6) div 7) 0 0 p;
       case r of
         Inl e \<Rightarrow> Some (Inl e)
       | Inr (part, value, p) \<Rightarrow>
           if part AND 64 \<noteq> 0 then do {
             (overflow, v) \<leftarrow> int_subtract_with_overflow_detect t int_t (conv t (- value)) 1;
             Some (if overflow then Inl BadTransactLog else Inr (v, p))
           }
           else Some (Inr (value, p))
     }"


section \<open>Streams as the bytes they deliver\<close>

text \<open>
  What a parser expects of its stream: \<open>next_block\<close> delivers the contents in non-empty blocks
  and reports the end when nothing is left.
\<close>

locale no_copy_input_stream =
  fixes next_block :: "'s next_block" and stream_ok :: "'s \<Rightarrow> bool" and contents :: "'s \<Rightarrow> byte list"
  assumes at_end: "stream_ok s \<Longrightarrow> next_block s = (None, s') \<Longrightarrow> contents s = [] \<and> stream_ok s' \<and> contents s' = []"
    and next_some: "stream_ok s \<Longrightarrow> next_block s = (Some b, s') \<Longrightarrow> b \<noteq> [] \<and> stream_ok s' \<and> contents s = b @ contents s'"
begin

definition parser_ok :: "'s parser \<Rightarrow> bool" where
  "parser_ok p \<longleftrightarrow> stream_ok (stream p)"

definition unread :: "'s parser \<Rightarrow> byte list" where
  "unread p = input p @ contents (stream p)"

lemma next_input_buffer_cases:
  assumes "parser_ok p" "input p = []"
  shows "if unread p = [] then \<exists>p'. next_input_buffer next_block p = (False, p') \<and> parser_ok p' \<and> unread p' = []
    else \<exists>p'. next_input_buffer next_block p = (True, p') \<and> parser_ok p' \<and> unread p' = unread p \<and> input p' \<noteq> []"
proof (cases "next_block (stream p)")
  case (Pair r s)
  then show ?thesis
    using assms at_end[of "stream p" s] next_some[of "stream p" _ s]
    by (cases r) (auto simp: next_input_buffer_def parser_ok_def unread_def)
qed

lemma read_char_Nil:
  assumes "parser_ok p" "unread p = []"
  shows "\<exists>p'. read_char next_block p = Some (None, p') \<and> parser_ok p' \<and> unread p' = []"
proof -
  have "input p = []" using assms(2) by (simp add: unread_def)
  then show ?thesis using next_input_buffer_cases[OF assms(1)] assms(2) by (auto simp: read_char_def)
qed

lemma read_char_Cons:
  assumes "parser_ok p" "unread p = c # cs"
  shows "\<exists>p'. read_char next_block p = Some (Some c, p') \<and> parser_ok p' \<and> unread p' = cs"
proof (cases "input p")
  case Nil
  then obtain p' where p: "next_input_buffer next_block p = (True, p')" "parser_ok p'" "unread p' = c # cs" "input p' \<noteq> []"
    using next_input_buffer_cases[OF assms(1)] assms(2) by auto
  then obtain ds where "input p' = c # ds" by (cases "input p'") (auto simp: unread_def)
  then show ?thesis using Nil p by (auto simp: read_char_def parser_ok_def unread_def)
next
  case (Cons d ds)
  then show ?thesis using assms by (auto simp: read_char_def parser_ok_def unread_def)
qed

end

section \<open>Reading from a list of bytes\<close>

text \<open>The same loop on the bytes themselves; \<open>read_int_decode\<close> below relates the two.\<close>

fun decode_groups :: "int_type \<Rightarrow> nat \<Rightarrow> nat \<Rightarrow> int \<Rightarrow> byte list \<Rightarrow> (exn + (int \<times> int \<times> byte list)) option" where
  "decode_groups t M i value [] = Some (if i \<ge> M then Inr (0, value, []) else Inl BadTransactLog)"
| "decode_groups t M i value (c # cs) =
     (if i \<ge> M then Some (Inr (0, value, c # cs))
      else if uint c AND 128 = 0 then do {
        (overflow, q) \<leftarrow> int_shift_left_with_overflow_detect t (conv t (uint c AND 63)) (i * 7);
        if overflow then Some (Inl BadTransactLog) else Some (Inr (uint c, value OR q, cs))
      }
      else if i = M - 1 then Some (Inl BadTransactLog)
      else decode_groups t M (Suc i) (value OR conv t (push_bit (i * 7) (conv t (uint c AND 127)))) cs)"

definition decode_int :: "int_type \<Rightarrow> byte list \<Rightarrow> (exn + (int \<times> byte list)) option" where
  "decode_int t bs =
     do {
       r \<leftarrow> decode_groups t ((digits t + 1 + 6) div 7) 0 0 bs;
       case r of
         Inl e \<Rightarrow> Some (Inl e)
       | Inr (part, value, bs) \<Rightarrow>
           if part AND 64 \<noteq> 0 then do {
             (overflow, v) \<leftarrow> int_subtract_with_overflow_detect t int_t (conv t (- value)) 1;
             Some (if overflow then Inl BadTransactLog else Inr (v, bs))
           }
           else Some (Inr (value, bs))
     }"

context no_copy_input_stream begin

definition agree :: "(exn + ('a \<times> 's parser)) option \<Rightarrow> (exn + ('a \<times> byte list)) option \<Rightarrow> bool" where
  "agree x y \<longleftrightarrow> (case y of None \<Rightarrow> x = None | Some (Inl e) \<Rightarrow> x = Some (Inl e)
     | Some (Inr (v, bs)) \<Rightarrow> \<exists>p. x = Some (Inr (v, p)) \<and> parser_ok p \<and> unread p = bs)"

lemma agree_simps [simp]:
  "agree x None = (x = None)" "agree x (Some (Inl e)) = (x = Some (Inl e))"
  "agree x (Some (Inr (v, bs))) = (\<exists>p. x = Some (Inr (v, p)) \<and> parser_ok p \<and> unread p = bs)"
  by (auto simp: agree_def)

lemma read_groups_decode:
  assumes "parser_ok p" "unread p = bs"
  shows "case decode_groups t M i v bs of None \<Rightarrow> read_groups next_block t M i v p = None
    | Some (Inl e) \<Rightarrow> read_groups next_block t M i v p = Some (Inl e)
    | Some (Inr (part, w, rest)) \<Rightarrow>
        \<exists>p'. read_groups next_block t M i v p = Some (Inr (part, w, p')) \<and> parser_ok p' \<and> unread p' = rest"
  using assms
proof (induction t M i v bs arbitrary: p rule: decode_groups.induct)
  case (1 t M i v)
  then show ?case using read_char_Nil[of p] by (auto simp: read_groups.simps[of _ _ _ _ _ p])
next
  case (2 t M i v c cs)
  show ?case
  proof (cases "i \<ge> M")
    case False
    obtain p' where p': "read_char next_block p = Some (Some c, p')" "parser_ok p'" "unread p' = cs"
      using read_char_Cons[OF 2(2,3)] by auto
    have "\<not> 255 < uint c" using uint_lt2p[of c] by simp
    then show ?thesis
      using False p' "2.IH"[OF False _ _ p'(2,3)]
      by (subst (1 2 3) read_groups.simps)
        (auto simp: Let_def split: option.splits prod.splits sum.splits Option.bind_splits if_splits)
  qed (use 2 in \<open>auto simp: read_groups.simps[of _ _ _ _ _ p]\<close>)
qed

lemma read_int_decode:
  assumes "parser_ok p"
  shows "agree (read_int next_block t p) (decode_int t (unread p))"
  using read_groups_decode[OF assms refl, of t "(digits t + 1 + 6) div 7" 0 0]
  by (auto simp: read_int_def decode_int_def split: option.splits prod.splits sum.splits Option.bind_splits)

end

end
