(* ===== verification/TransactLogInts.thy ===== *)
theory TransactLogInts
  imports TransactLogCodec
begin

text \<open>
  Correctness of the integer encoding: length, round trip between any two types, and what
  happens when a negative value is read as an unsigned type.
\<close>

lemma uint_of_int: "0 \<le> v \<Longrightarrow> v < 256 \<Longrightarrow> uint (word_of_int v :: byte) = v"
  by (simp add: uint_word_of_int)

lemma or_low: "0 \<le> v \<Longrightarrow> v < 2 ^ k \<Longrightarrow> v OR push_bit k w = v + w * 2 ^ k" for v w :: int
  using concat_bit_eq[of k v w] by (simp add: concat_bit_def take_bit_int_eq_self push_bit_eq_mult)

lemma or_128: "0 \<le> v \<Longrightarrow> v < 128 \<Longrightarrow> v OR 128 = v + 128" "0 \<le> v \<Longrightarrow> v < 64 \<Longrightarrow> v OR 64 = v + 64" for v :: int
  using or_low[of v 7 1] or_low[of v 6 1] by (simp_all add: push_bit_eq_mult)

lemma and_mask_mod: "v AND 127 = v mod 128" "v AND 63 = v mod 64" for v :: int
  using take_bit_eq_mask[of 7 v] take_bit_eq_mask[of 6 v] by (simp_all add: take_bit_eq_mod mask_eq_exp_minus_1)

lemma and_128_iff: "0 \<le> v \<Longrightarrow> v < 256 \<Longrightarrow> v AND 128 = 0 \<longleftrightarrow> v < 128"
  "0 \<le> v \<Longrightarrow> v < 128 \<Longrightarrow> v AND 64 = 0 \<longleftrightarrow> v < 64" for v :: int
  using and_top_bit[of v 7] and_top_bit[of v 6] by simp_all

section \<open>Encoding\<close>

lemma encode_groups_length: "length (fst (encode_groups n v)) \<le> n"
  by (induction n v rule: encode_groups.induct) (auto split: prod.splits)

lemma encode_groups_rest:
  assumes "0 \<le> v" "v < 2 ^ (7 * n + 6)"
  shows "0 \<le> snd (encode_groups n v) \<and> snd (encode_groups n v) < 64"
  using assms
proof (induction n arbitrary: v)
  case (Suc n)
  have "drop_bit 7 v < 2 ^ (7 * n + 6)"
    using Suc.prems by (auto simp: drop_bit_eq_div power_add intro: div_less)
  then show ?case
    using Suc.IH[of "drop_bit 7 v"] Suc.prems
    by (auto simp: drop_bit_eq_div div_eq_0_iff pos_imp_zdiv_nonneg_iff split: prod.splits)
qed auto

lemma encode_groups_bits:
  assumes "0 \<le> v" "v < 2 ^ (7 * m + 6)" "m \<le> n"
  shows "length (fst (encode_groups n v)) \<le> m"
  using assms
proof (induction n arbitrary: v m)
  case (Suc n)
  show ?case
  proof (cases m)
    case 0
    then have "drop_bit 6 v = 0" using Suc.prems by (simp add: drop_bit_eq_div)
    then show ?thesis by simp
  next
    case (Suc k)
    then have "drop_bit 7 v < 2 ^ (7 * k + 6)" using Suc.prems
      by (auto simp: drop_bit_eq_div power_add intro: div_less)
    then show ?thesis
      using Suc.IH[of "drop_bit 7 v" k] Suc.prems Suc
      by (auto simp: drop_bit_eq_div pos_imp_zdiv_nonneg_iff split: prod.splits)
  qed
qed simp

text \<open>The non-negative number that is encoded: the value, or minus the value minus one.\<close>

definition magnitude :: "int \<Rightarrow> int" where
  "magnitude v = (if v < 0 then - v - 1 else v)"

definition max_bytes :: "int_type \<Rightarrow> nat" where
  "max_bytes t = (digits t + 7) div 7"

lemma max_bytes_bounds: "digits t < 7 * max_bytes t" "7 * (max_bytes t - 1) \<le> digits t" "0 < max_bytes t"
proof -
  have "digits t + 7 = 7 * ((digits t + 7) div 7) + (digits t + 7) mod 7" "(digits t + 7) mod 7 < 7"
    using mult_div_mod_eq[of 7 "digits t + 7"] by simp_all
  then show "digits t < 7 * max_bytes t" "7 * (max_bytes t - 1) \<le> digits t" "0 < max_bytes t"
    by (auto simp: max_bytes_def)
qed

lemma fits_magnitude: "fits t v \<Longrightarrow> 0 \<le> magnitude v \<and> magnitude v < 2 ^ digits t"
  by (auto simp: magnitude_def fits_def min_of_def max_of_def split: if_splits)

lemma encode_int_eq:
  assumes "c_type t" "fits t v"
  shows "encode_int t v = (let (bs, r) = encode_groups (max_bytes t) (magnitude v)
    in Some (bs @ [word_of_int (r + (if v < 0 then 64 else 0))]))"
proof -
  obtain bs r where g: "encode_groups (max_bytes t) (magnitude v) = (bs, r)" by (cases "encode_groups (max_bytes t) (magnitude v)")
  have "magnitude v < 2 ^ (7 * max_bytes t + 6)"
    using fits_magnitude[OF assms(2)] max_bytes_bounds(1)[of t] power_increasing[of "digits t" "7 * max_bytes t + 6" "2 :: int"]
    by (auto intro: order_less_le_trans)
  then have r: "0 \<le> r" "r < 64"
    using encode_groups_rest[of "magnitude v" "max_bytes t"] fits_magnitude[OF assms(2)] g by auto
  have n: "is_negative t v \<longleftrightarrow> v < 0" using assms(2) by (auto simp: is_negative_def fits_def min_of_def)
  have "fits t (- (v + 1))" if "v < 0" using assms(2) that by (auto simp: fits_def min_of_def max_of_def split: if_splits)
  then have m: "(if v < 0 then conv t (- (v + 1)) else v) = magnitude v" by (simp add: conv_fits magnitude_def)
  have "\<not> is_negative t (magnitude v)" using fits_magnitude[OF assms(2)] by (simp add: is_negative_def)
  moreover have "64 OR r = r + 64" using or_128(2)[OF r] by (simp add: or.commute)
  ultimately show ?thesis
    using g m n by (auto simp: encode_int_def max_bytes_def realm_assert_def Let_def add.commute)
qed

lemma encode_int_length:
  assumes "c_type t" "fits t v"
  shows "\<exists>bs. encode_int t v = Some bs \<and> 0 < length bs \<and> length bs \<le> max_bytes t \<and> length bs \<le> max_enc_bytes_per_int"
proof -
  let ?m = "max_bytes t - 1"
  have "digits t \<le> 7 * ?m + 6" using max_bytes_bounds[of t] by linarith
  then have "magnitude v < 2 ^ (7 * ?m + 6)"
    using fits_magnitude[OF assms(2)] power_increasing[of "digits t" "7 * ?m + 6" "2 :: int"]
    by (auto intro: order_less_le_trans)
  then have "length (fst (encode_groups (max_bytes t) (magnitude v))) \<le> ?m"
    using fits_magnitude[OF assms(2)] by (intro encode_groups_bits) auto
  moreover have "max_bytes t \<le> 10" using c_type_digits(1)[OF assms(1)] by (simp add: max_bytes_def)
  ultimately show ?thesis
    using encode_int_eq[OF assms] max_bytes_bounds(3)[of t]
    by (auto simp: max_enc_bytes_per_int_def split: prod.splits)
qed

section \<open>Reading back\<close>

lemma shift_ok_groups:
  assumes "c_type t" "i < max_bytes t"
  shows "shift_ok t (i * 7)"
proof -
  have "i * 7 \<le> digits t" using assms(2) max_bytes_bounds(2)[of t] by linarith
  moreover have "i * 7 \<noteq> digits t" if "\<not> is_signed (promote t)"
  proof
    assume "i * 7 = digits t"
    then have "7 dvd digits t" by (metis dvd_triv_right)
    then show False using that assms(1) by (auto simp: c_type_def promote_def split: if_splits)
  qed
  ultimately show ?thesis by (auto simp: shift_ok_def promote_def)
qed

lemma fits_nonneg: "0 \<le> v \<Longrightarrow> v < 2 ^ digits t \<Longrightarrow> fits t v"
  by (auto simp: fits_def min_of_def max_of_def intro: order_trans[of _ 0])

lemma fits_nonneg_iff: "0 \<le> v \<Longrightarrow> fits t v \<longleftrightarrow> v < 2 ^ digits t"
  using fits_nonneg[of v t] by (auto simp: fits_def max_of_def)

lemma decode_last_group:
  assumes "c_type t" "7 \<le> digits t" "s = 0 \<or> s = 64"
    and "0 \<le> val" "val < 2 ^ (7 * i)" "0 \<le> w" "w < 64" "i < max_bytes t" and c: "uint c = w + s"
  shows "decode_groups t (max_bytes t) i val (c # rest) =
    Some (if val + w * 2 ^ (7 * i) < 2 ^ digits t then Inr (w + s, val + w * 2 ^ (7 * i), rest) else Inl BadTransactLog)"
proof -
  have a: "(w + s) AND 128 = 0" "(w + s) AND 63 = w" using and_128_iff(1)[of "w + s"] assms by (auto simp: and_mask_mod)
  have "w < 2 ^ digits t" using assms power_increasing[OF assms(2), of "2 :: int"] by simp
  then have f: "fits t w" using assms(6) by (rule fits_nonneg[rotated])
  have "(w * 2 ^ (7 * i) < 2 ^ digits t) = (val + w * 2 ^ (7 * i) < 2 ^ digits t)"
  proof
    have i: "7 * i \<le> digits t" using assms(8) max_bytes_bounds(2)[of t] by linarith
    then have d: "(2 :: int) ^ digits t = 2 ^ (digits t - 7 * i) * 2 ^ (7 * i)" by (simp flip: power_add)
    assume "w * 2 ^ (7 * i) < 2 ^ digits t"
    then have "w + 1 \<le> 2 ^ (digits t - 7 * i)" unfolding d by simp
    then have "(w + 1) * 2 ^ (7 * i) \<le> 2 ^ digits t" unfolding d by (intro mult_right_mono) auto
    then show "val + w * 2 ^ (7 * i) < 2 ^ digits t" using assms(5) by (simp add: algebra_simps)
  qed (use assms(4) in simp)
  then have "int_shift_left_with_overflow_detect t w (i * 7) =
      Some (if val + w * 2 ^ (7 * i) < 2 ^ digits t then (False, w * 2 ^ (i * 7)) else (True, w))"
    using shift_left_correct[OF assms(1) f assms(6) shift_ok_groups[OF assms(1,8)]] assms(6)
    by (simp add: checked_def fits_nonneg_iff mult.commute)
  moreover have "val OR (w * 2 ^ (i * 7)) = val + w * 2 ^ (7 * i)"
    using or_low[OF assms(4,5), of w] by (simp add: push_bit_eq_mult mult.commute)
  ultimately show ?thesis using c a f assms(8) by (simp add: conv_fits)
qed

lemma decode_encoded_groups:
  assumes "c_type t" "7 \<le> digits t" "s = 0 \<or> s = 64"
    and "0 \<le> val" "val < 2 ^ (7 * i)" "0 \<le> w" "w < 2 ^ (7 * n + 6)" "i < max_bytes t" "encode_groups n w = (bs, r)"
    and c: "uint c = r + s"
  shows "decode_groups t (max_bytes t) i val (bs @ c # rest) =
    Some (if val + w * 2 ^ (7 * i) < 2 ^ digits t then Inr (r + s, val + w * 2 ^ (7 * i), rest) else Inl BadTransactLog)"
  using assms(4-9)
proof (induction n arbitrary: val i w bs)
  case 0
  then show ?case
    using decode_last_group[OF assms(1-3) "0.prems"(1,2,3) _ "0.prems"(5), of c rest] c by simp
next
  case (Suc n)
  show ?case
  proof (cases "drop_bit 6 w = 0")
    case True
    then have "w < 64" using Suc.prems(3) by (simp add: drop_bit_eq_div div_eq_0_iff)
    then show ?thesis
      using decode_last_group[OF assms(1-3) Suc.prems(1,2,3) _ Suc.prems(5), of c rest] c True Suc.prems(6) by simp
  next
    case False
    then have w: "64 \<le> w" using Suc.prems(3) by (auto simp: drop_bit_eq_div div_eq_0_iff)
    let ?x = "w mod 128"
    have x: "0 \<le> ?x" "?x < 128" by simp_all
    define d :: byte where "d = word_of_int (128 OR (w AND 127))"
    have d: "uint d = 128 + ?x"
      using uint_of_int[of "128 + ?x"] or_128(1)[OF x] x by (simp add: d_def and_mask_mod or.commute[of 128] add.commute)
    obtain bs' where bs: "encode_groups n (w div 128) = (bs', r)" "bs = d # bs'"
      using False Suc.prems(6) by (auto simp: drop_bit_eq_div d_def split: prod.splits)
    have a: "(128 + ?x) AND 128 \<noteq> 0" "(128 + ?x) AND 127 = ?x"
      using and_128_iff(1)[of "128 + ?x"] x by (simp_all add: and_mask_mod)
    show ?thesis
    proof (cases "i = max_bytes t - 1")
      case True
      then have "digits t \<le> 7 * i + 6" using max_bytes_bounds(1)[of t] by linarith
      then have "(2 :: int) ^ digits t \<le> 2 ^ (7 * i) * 64" using power_increasing[of "digits t" "7 * i + 6" "2 :: int"]
        by (simp add: power_add)
      also have "\<dots> \<le> w * 2 ^ (7 * i)" using w by (simp add: mult.commute[of _ 64] mult_right_mono)
      also have "\<dots> \<le> val + w * 2 ^ (7 * i)" using Suc.prems(1) by simp
      finally show ?thesis using True Suc.prems(5) bs d a by simp
    next
      case False
      let ?val = "val + ?x * 2 ^ (7 * i)"
      have i: "Suc i < max_bytes t" using False Suc.prems(5) by simp
      have lt: "?x * 2 ^ (7 * i) + 2 ^ (7 * i) \<le> 2 ^ (7 * Suc i)"
        using x mult_right_mono[of "?x + 1" 128 "2 ^ (7 * i)"] by (simp add: power_add algebra_simps)
      have val: "0 \<le> ?val" "?val < 2 ^ (7 * Suc i)" using lt Suc.prems(1,2) x by auto
      have "7 * Suc i \<le> digits t" using i max_bytes_bounds(2)[of t] by simp
      then have "?x * 2 ^ (7 * i) < 2 ^ digits t"
        using lt power_increasing[of "7 * Suc i" "digits t" "2 :: int"] by (smt (verit) zero_less_power)
      then have "conv t (push_bit (i * 7) ?x) = push_bit (i * 7) ?x"
        using fits_nonneg[of "?x * 2 ^ (7 * i)" t] x by (intro conv_fits) (simp add: push_bit_eq_mult mult.commute)
      moreover have "conv t ?x = ?x"
        using fits_nonneg[of ?x t] x power_increasing[OF assms(2), of "2 :: int"] by (intro conv_fits) (auto intro: order_less_le_trans)
      moreover have "val OR push_bit (i * 7) ?x = ?val" using or_low[OF Suc.prems(1,2), of ?x] by (simp add: mult.commute)
      moreover have "w div 128 < 2 ^ (7 * n + 6)" using Suc.prems(4) by (auto simp: power_add intro: div_less)
      moreover have "?val + w div 128 * 2 ^ (7 * Suc i) = val + w * 2 ^ (7 * i)"
      proof -
        have "?val + w div 128 * 2 ^ (7 * Suc i) = val + (w div 128 * 128 + ?x) * 2 ^ (7 * i)"
          by (simp only: mult_Suc_right power_add distrib_right) simp
        then show ?thesis by (simp only: div_mult_mod_eq)
      qed
      ultimately show ?thesis
        using Suc.IH[OF val, of "w div 128" bs'] Suc.prems(3,5) bs d a i False
        by (simp add: pos_imp_zdiv_nonneg_iff)
    qed
  qed
qed


lemma encode_int_groups:
  assumes "c_type t" "fits t v"
  obtains bs r c where "encode_int t v = Some (bs @ [c])" "encode_groups (max_bytes t) (magnitude v) = (bs, r)"
    "uint c = r + (if v < 0 then 64 else 0)" "0 \<le> r" "r < 64" "magnitude v < 2 ^ (7 * max_bytes t + 6)"
proof -
  obtain bs r where g: "encode_groups (max_bytes t) (magnitude v) = (bs, r)"
    by (cases "encode_groups (max_bytes t) (magnitude v)")
  have m: "magnitude v < 2 ^ (7 * max_bytes t + 6)"
    using fits_magnitude[OF assms(2)] max_bytes_bounds(1)[of t] power_increasing[of "digits t" "7 * max_bytes t + 6" "2 :: int"]
    by (auto intro: order_less_le_trans)
  then have r: "0 \<le> r" "r < 64"
    using encode_groups_rest[of "magnitude v" "max_bytes t"] fits_magnitude[OF assms(2)] g by auto
  show thesis
  proof (rule that)
    show "encode_int t v = Some (bs @ [word_of_int (r + (if v < 0 then 64 else 0))])"
      using encode_int_eq[OF assms] g by (simp del: of_int_add)
    show "uint (word_of_int (r + (if v < 0 then 64 else 0)) :: byte) = r + (if v < 0 then 64 else 0)"
      using r by (intro uint_of_int) auto
  qed (use g m r in auto)
qed

text \<open>What reading an encoded integer of any type as type \<open>t\<close> gives.\<close>

definition read_as :: "int_type \<Rightarrow> int \<Rightarrow> int option" where
  "read_as t v =
     (if is_signed t \<or> 0 \<le> v then if fits t v then Some v else None
      else if v < - 1 \<and> magnitude v < 2 ^ digits t then Some (2 ^ digits t + v) else None)"

lemma decode_encode_int:
  assumes "c_type u" "fits u v" "c_type t" "7 \<le> digits t"
  obtains bs where "encode_int u v = Some bs"
    "decode_int t (bs @ rest) = Some (case read_as t v of None \<Rightarrow> Inl BadTransactLog | Some x \<Rightarrow> Inr (x, rest))"
proof -
  obtain bs r c where e: "encode_int u v = Some (bs @ [c])" "encode_groups (max_bytes u) (magnitude v) = (bs, r)"
      "uint c = r + (if v < 0 then 64 else 0)" "0 \<le> r" "r < 64" "magnitude v < 2 ^ (7 * max_bytes u + 6)"
    using encode_int_groups[OF assms(1,2)] .
  let ?w = "magnitude v"
  have w: "0 \<le> ?w" using fits_magnitude[OF assms(2)] by simp
  have g: "decode_groups t ((digits t + 1 + 6) div 7) 0 0 (bs @ c # rest) =
      Some (if ?w < 2 ^ digits t then Inr (uint c, ?w, rest) else Inl BadTransactLog)"
    using decode_encoded_groups[OF assms(3,4) _ _ _ w e(6) _ e(2), of "if v < 0 then 64 else 0" 0 0 c rest] e(3)
      max_bytes_bounds(3)[of t] by (simp add: max_bytes_def add.commute)
  have s: "uint c AND 64 = 0 \<longleftrightarrow> 0 \<le> v" using and_128_iff(2)[of "uint c"] e(3-5) by auto
  have "decode_int t (bs @ c # rest) = Some (case read_as t v of None \<Rightarrow> Inl BadTransactLog | Some x \<Rightarrow> Inr (x, rest))"
  proof (cases "v < 0 \<and> ?w < 2 ^ digits t")
    case False
    then have r: "read_as t v = (if ?w < 2 ^ digits t then Some ?w else None)"
      using w by (auto simp: read_as_def fits_nonneg_iff magnitude_def fits_signed split: if_splits)
    then show ?thesis unfolding r using g s False by (auto simp: decode_int_def magnitude_def split: if_splits)
  next
    case True
    then have sub: "decode_int t (bs @ c # rest) = do {
        (overflow, x) \<leftarrow> int_subtract_with_overflow_detect t int_t (conv t (- ?w)) 1;
        Some (if overflow then Inl BadTransactLog else Inr (x, rest)) }"
      using g s by (simp add: decode_int_def)
    show ?thesis
    proof (cases "is_signed t")
      case True
      then have "fits t (- ?w)" "fits t (- ?w - 1)" "- ?w - 1 = v"
        using w \<open>v < 0 \<and> ?w < 2 ^ digits t\<close> by (auto simp: fits_signed magnitude_def)
      then show ?thesis
        using sub True int_subtract_correct[OF assms(3) c_type_int(1), of "- ?w" 1]
        by (simp add: conv_fits checked_def read_as_def fits_signed)
    next
      case False
      then have "digits t \<noteq> 1" using assms(4) by simp
      then have "conv t (- ?w) = (- ?w) mod 2 ^ digits t" using False by (simp add: conv_unsigned)
      also have "\<dots> = (if ?w = 0 then 0 else 2 ^ digits t - ?w)"
        using wrap_neg[of "2 ^ digits t" "- ?w"] w True by auto
      finally have m: "conv t (- ?w) = (if ?w = 0 then 0 else 2 ^ digits t - ?w)" .
      then have "fits t (conv t (- ?w))" using w True False by (auto simp: fits_unsigned)
      then show ?thesis
        using sub False True m int_subtract_correct[OF assms(3) c_type_int(1), of "conv t (- ?w)" 1] w
        by (auto simp: checked_def read_as_def fits_unsigned magnitude_def fits_signed)
    qed
  qed
  then show thesis using that e(1) by simp
qed

end
