(* ===== verification/TransactLog.thy ===== *)
theory TransactLog
  imports TransactLogInts
begin

text \<open>
  The transaction log (realm/impl/transact_log.hpp): the instructions, \<open>TransactLogEncoder\<close>,
  which writes them into a growing buffer, and \<open>TransactLogParser\<close>, which reads them and calls an
  instruction handler. \<open>TransactLogEncoder::select_table\<close> and \<open>select_list\<close> are defined in a
  file that is not in the repository; they are parameters.
\<close>

section \<open>Instructions\<close>

datatype instruction =
    instr_InsertGroupLevelTable | instr_EraseGroupLevelTable | instr_RenameGroupLevelTable
  | instr_SelectTable | instr_CreateObject | instr_RemoveObject | instr_Set | instr_SetDefault | instr_ClearTable
  | instr_InsertColumn | instr_EraseColumn | instr_RenameColumn | instr_SetLinkType
  | instr_SelectList | instr_ListInsert | instr_ListSet | instr_ListMove | instr_ListSwap | instr_ListErase
  | instr_ListClear

fun instr_code :: "instruction \<Rightarrow> int" where
  "instr_code instr_InsertGroupLevelTable = 1"
| "instr_code instr_EraseGroupLevelTable = 2"
| "instr_code instr_RenameGroupLevelTable = 3"
| "instr_code instr_SelectTable = 10"
| "instr_code instr_CreateObject = 11"
| "instr_code instr_RemoveObject = 12"
| "instr_code instr_Set = 13"
| "instr_code instr_SetDefault = 14"
| "instr_code instr_ClearTable = 15"
| "instr_code instr_InsertColumn = 20"
| "instr_code instr_EraseColumn = 21"
| "instr_code instr_RenameColumn = 22"
| "instr_code instr_SetLinkType = 23"
| "instr_code instr_SelectList = 30"
| "instr_code instr_ListInsert = 31"
| "instr_code instr_ListSet = 32"
| "instr_code instr_ListMove = 33"
| "instr_code instr_ListSwap = 34"
| "instr_code instr_ListErase = 35"
| "instr_code instr_ListClear = 36"

definition all_instructions :: "instruction list" where
  "all_instructions =
     [instr_InsertGroupLevelTable, instr_EraseGroupLevelTable, instr_RenameGroupLevelTable, instr_SelectTable,
      instr_CreateObject, instr_RemoveObject, instr_Set, instr_SetDefault, instr_ClearTable, instr_InsertColumn,
      instr_EraseColumn, instr_RenameColumn, instr_SetLinkType, instr_SelectList, instr_ListInsert, instr_ListSet,
      instr_ListMove, instr_ListSwap, instr_ListErase, instr_ListClear]"

text \<open>\<open>Instruction(instr_ch)\<close>; a byte that is no instruction falls through the \<open>switch\<close>.\<close>

definition instruction_of :: "byte \<Rightarrow> instruction option" where
  "instruction_of c = find (\<lambda>i. instr_code i = uint c) all_instructions"

text \<open>
  The calls an instruction handler receives. Table keys are \<open>uint32_t\<close>, column and object keys
  \<open>int64_t\<close>, positions and sizes \<open>size_t\<close>.
\<close>

datatype call =
    Select_table int | Select_list int int
  | Insert_group_level_table int | Erase_group_level_table int | Rename_group_level_table int
  | Create_object int | Remove_object int | Modify_object int int | Clear_table int
  | Insert_column int | Erase_column int | Rename_column int | Set_link_type int
  | List_set int | List_insert int | List_move int int | List_swap int int | List_erase int | List_clear int

text \<open>\<open>NullInstructionObserver\<close> accepts every call.\<close>

definition null_observer :: "call \<Rightarrow> unit \<Rightarrow> (bool \<times> unit) action" where
  "null_observer c u = ok (True, u)"

section \<open>The encoder\<close>

text \<open>
  The stream is a \<open>TransactLogBufferStream\<close>. The pointers \<open>m_transact_log_free_begin\<close> and
  \<open>m_transact_log_free_end\<close> are offsets into its buffer (null pointers, as long as the buffer is
  null, are offset 0).
\<close>

record encoder =
  m_buffer :: "byte buffer"
  free_begin :: nat
  free_end :: nat

definition new_encoder :: encoder where
  "new_encoder = \<lparr>m_buffer = [], free_begin = 0, free_end = 0\<rparr>"

definition set_buffer :: "nat \<Rightarrow> nat \<Rightarrow> encoder \<Rightarrow> encoder option" where
  "set_buffer b e enc = do { realm_assert (b \<le> e); Some (enc\<lparr>free_begin := b, free_end := e\<rparr>) }"

definition transact_log_reserve :: "nat \<Rightarrow> encoder \<Rightarrow> encoder action" where
  "transact_log_reserve n e =
     andthen (lift (realm_assert (free_begin e \<le> length (m_buffer e)))) (\<lambda>_.
     andthen (buffer_reserve_extra (free_begin e) n (m_buffer e)) (\<lambda>b.
     ok (e\<lparr>m_buffer := b, free_end := length b\<rparr>)))"

definition transact_log_append :: "byte list \<Rightarrow> encoder \<Rightarrow> encoder action" where
  "transact_log_append bs e =
     andthen (transact_log_reserve (length bs) e) (\<lambda>e.
     andthen (lift (copy_cells (map Some bs) 0 (length bs) (m_buffer e) (free_begin e))) (\<lambda>b.
     ok (e\<lparr>m_buffer := b, free_begin := free_begin e + length bs\<rparr>)))"

text \<open>\<open>size_t(free_end - free_begin)\<close> is huge when the difference is negative.\<close>

definition reserve :: "nat \<Rightarrow> encoder \<Rightarrow> encoder action" where
  "reserve n e = (if free_begin e \<le> free_end e \<and> free_end e - free_begin e < n then transact_log_reserve n e else ok e)"

definition advance :: "nat \<Rightarrow> encoder \<Rightarrow> encoder" where
  "advance ptr e = e\<lparr>free_begin := ptr\<rparr>"

text \<open>The arguments of \<open>append_simple_instr\<close> with their types.\<close>

datatype arg = Instr instruction | Table_key int | Col_key int | Obj_key int | Size int

fun max_size_of :: "arg \<Rightarrow> nat" where
  "max_size_of (Instr i) = 1"
| "max_size_of a = max_enc_bytes_per_int"

definition max_size_list :: "arg list \<Rightarrow> nat" where
  "max_size_list as = sum_list (map max_size_of as)"

fun encode_arg :: "arg \<Rightarrow> byte list option" where
  "encode_arg (Instr i) = encode_int int64 (instr_code i)"
| "encode_arg (Table_key k) = encode_int int64 k"
| "encode_arg (Col_key k) = encode_int int64 k"
| "encode_arg (Obj_key k) = encode_int int64 k"
| "encode_arg (Size n) = encode_int size_t n"

text \<open>Each argument is written at \<open>ptr\<close>; the last step moves the free space behind it.\<close>

fun encode_list :: "nat \<Rightarrow> arg list \<Rightarrow> encoder \<Rightarrow> encoder option" where
  "encode_list ptr [] e = Some (advance ptr e)"
| "encode_list ptr (a # as) e =
     do {
       bs \<leftarrow> encode_arg a;
       b \<leftarrow> copy_cells (map Some bs) 0 (length bs) (m_buffer e) ptr;
       encode_list (ptr + length bs) as (e\<lparr>m_buffer := b\<rparr>)
     }"

definition append_simple_instr :: "arg list \<Rightarrow> encoder \<Rightarrow> encoder action" where
  "append_simple_instr numbers e =
     andthen (reserve (max_size_list numbers) e) (\<lambda>e. lift (encode_list (free_begin e) numbers e))"

definition enc_insert_group_level_table :: "int \<Rightarrow> encoder \<Rightarrow> encoder action" where
  "enc_insert_group_level_table key = append_simple_instr [Instr instr_InsertGroupLevelTable, Table_key key]"

definition enc_erase_group_level_table :: "int \<Rightarrow> encoder \<Rightarrow> encoder action" where
  "enc_erase_group_level_table key = append_simple_instr [Instr instr_EraseGroupLevelTable, Table_key key]"

definition enc_rename_group_level_table :: "int \<Rightarrow> encoder \<Rightarrow> encoder action" where
  "enc_rename_group_level_table key = append_simple_instr [Instr instr_RenameGroupLevelTable, Table_key key]"

definition enc_insert_column :: "int \<Rightarrow> encoder \<Rightarrow> encoder action" where
  "enc_insert_column col = append_simple_instr [Instr instr_InsertColumn, Col_key col]"

definition enc_erase_column :: "int \<Rightarrow> encoder \<Rightarrow> encoder action" where
  "enc_erase_column col = append_simple_instr [Instr instr_EraseColumn, Col_key col]"

definition enc_rename_column :: "int \<Rightarrow> encoder \<Rightarrow> encoder action" where
  "enc_rename_column col = append_simple_instr [Instr instr_RenameColumn, Col_key col]"

definition enc_modify_object :: "int \<Rightarrow> int \<Rightarrow> encoder \<Rightarrow> encoder action" where
  "enc_modify_object col key = append_simple_instr [Instr instr_Set, Col_key col, Obj_key key]"

definition enc_list_set :: "int \<Rightarrow> encoder \<Rightarrow> encoder action" where
  "enc_list_set ndx = append_simple_instr [Instr instr_ListSet, Size ndx]"

definition enc_list_insert :: "int \<Rightarrow> encoder \<Rightarrow> encoder action" where
  "enc_list_insert ndx = append_simple_instr [Instr instr_ListInsert, Size ndx]"

definition enc_create_object :: "int \<Rightarrow> encoder \<Rightarrow> encoder action" where
  "enc_create_object key = append_simple_instr [Instr instr_CreateObject, Obj_key key]"

definition enc_remove_object :: "int \<Rightarrow> encoder \<Rightarrow> encoder action" where
  "enc_remove_object key = append_simple_instr [Instr instr_RemoveObject, Obj_key key]"

definition enc_set_link_type :: "int \<Rightarrow> encoder \<Rightarrow> encoder action" where
  "enc_set_link_type col = append_simple_instr [Instr instr_SetLinkType, Col_key col]"

definition enc_clear_table :: "int \<Rightarrow> encoder \<Rightarrow> encoder action" where
  "enc_clear_table old_size = append_simple_instr [Instr instr_ClearTable, Size old_size]"

definition enc_list_move :: "int \<Rightarrow> int \<Rightarrow> encoder \<Rightarrow> encoder action" where
  "enc_list_move from to e =
     andthen (lift (realm_assert (from \<noteq> to)))
       (\<lambda>_. append_simple_instr [Instr instr_ListMove, Size from, Size to] e)"

definition enc_list_swap :: "int \<Rightarrow> int \<Rightarrow> encoder \<Rightarrow> encoder action" where
  "enc_list_swap a b = append_simple_instr [Instr instr_ListSwap, Size a, Size b]"

definition enc_list_erase :: "int \<Rightarrow> encoder \<Rightarrow> encoder action" where
  "enc_list_erase ndx = append_simple_instr [Instr instr_ListErase, Size ndx]"

definition enc_list_clear :: "int \<Rightarrow> encoder \<Rightarrow> encoder action" where
  "enc_list_clear old_size = append_simple_instr [Instr instr_ListClear, Size old_size]"

text \<open>
  The encoder as an instruction handler; \<open>sel_table\<close> and \<open>sel_list\<close> stand for
  \<open>TransactLogEncoder::select_table\<close> and \<open>select_list\<close>.
\<close>

type_synonym select_table = "int \<Rightarrow> encoder \<Rightarrow> encoder action"
type_synonym select_list = "int \<Rightarrow> int \<Rightarrow> encoder \<Rightarrow> encoder action"

fun encode_call :: "select_table \<Rightarrow> select_list \<Rightarrow> call \<Rightarrow> encoder \<Rightarrow> encoder action" where
  "encode_call st sl (Select_table k) = st k"
| "encode_call st sl (Select_list c k) = sl c k"
| "encode_call st sl (Insert_group_level_table k) = enc_insert_group_level_table k"
| "encode_call st sl (Erase_group_level_table k) = enc_erase_group_level_table k"
| "encode_call st sl (Rename_group_level_table k) = enc_rename_group_level_table k"
| "encode_call st sl (Create_object k) = enc_create_object k"
| "encode_call st sl (Remove_object k) = enc_remove_object k"
| "encode_call st sl (Modify_object c k) = enc_modify_object c k"
| "encode_call st sl (Clear_table n) = enc_clear_table n"
| "encode_call st sl (Insert_column c) = enc_insert_column c"
| "encode_call st sl (Erase_column c) = enc_erase_column c"
| "encode_call st sl (Rename_column c) = enc_rename_column c"
| "encode_call st sl (Set_link_type c) = enc_set_link_type c"
| "encode_call st sl (List_set n) = enc_list_set n"
| "encode_call st sl (List_insert n) = enc_list_insert n"
| "encode_call st sl (List_move a b) = enc_list_move a b"
| "encode_call st sl (List_swap a b) = enc_list_swap a b"
| "encode_call st sl (List_erase n) = enc_list_erase n"
| "encode_call st sl (List_clear n) = enc_list_clear n"

section \<open>The parser\<close>

text \<open>A handler returns whether it accepts the call; it may throw.\<close>

type_synonym 'h handler = "call \<Rightarrow> 'h \<Rightarrow> (bool \<times> 'h) action"

definition deliver :: "'h handler \<Rightarrow> call \<Rightarrow> 's parser \<Rightarrow> 'h \<Rightarrow> ('s parser \<times> 'h) action" where
  "deliver handler c p h =
     andthen (handler c h) (\<lambda>(accepted, h). if accepted then ok (p, h) else throw BadTransactLog)"

definition read1 :: "'s next_block \<Rightarrow> int_type \<Rightarrow> (int \<Rightarrow> call) \<Rightarrow> 's parser \<Rightarrow> (call \<times> 's parser) action" where
  "read1 nb t f p = andthen (read_int nb t p) (\<lambda>(x, p). ok (f x, p))"

definition read2 :: "'s next_block \<Rightarrow> int_type \<Rightarrow> (int \<Rightarrow> int \<Rightarrow> call) \<Rightarrow> 's parser \<Rightarrow> (call \<times> 's parser) action" where
  "read2 nb t f p =
     andthen (read_int nb t p) (\<lambda>(x, p). andthen (read_int nb t p) (\<lambda>(y, p). ok (f x y, p)))"

text \<open>The cases of the \<open>switch\<close> up to the call of the handler.\<close>

fun read_call :: "'s next_block \<Rightarrow> instruction \<Rightarrow> 's parser \<Rightarrow> (call \<times> 's parser) action" where
  "read_call nb instr_Set = read2 nb int64 Modify_object"
| "read_call nb instr_SetDefault = (\<lambda>p. throw BadTransactLog)"
| "read_call nb instr_ListSet = read1 nb size_t List_set"
| "read_call nb instr_CreateObject = read1 nb int64 Create_object"
| "read_call nb instr_RemoveObject = read1 nb int64 Remove_object"
| "read_call nb instr_SelectTable = (\<lambda>p.
     andthen (read_int nb int_t p) (\<lambda>(levels, p).
     andthen (lift (realm_assert (levels = 0))) (\<lambda>_. read1 nb uint32 Select_table p)))"
| "read_call nb instr_ClearTable = read1 nb size_t Clear_table"
| "read_call nb instr_ListInsert = read1 nb size_t List_insert"
| "read_call nb instr_ListMove = read2 nb size_t List_move"
| "read_call nb instr_ListSwap = read2 nb size_t List_swap"
| "read_call nb instr_ListErase = read1 nb size_t List_erase"
| "read_call nb instr_ListClear = read1 nb size_t List_clear"
| "read_call nb instr_SelectList = read2 nb int64 Select_list"
| "read_call nb instr_SetLinkType = read1 nb int64 Set_link_type"
| "read_call nb instr_InsertColumn = read1 nb int64 Insert_column"
| "read_call nb instr_EraseColumn = read1 nb int64 Erase_column"
| "read_call nb instr_RenameColumn = read1 nb int64 Rename_column"
| "read_call nb instr_InsertGroupLevelTable = read1 nb uint32 Insert_group_level_table"
| "read_call nb instr_EraseGroupLevelTable = read1 nb uint32 Erase_group_level_table"
| "read_call nb instr_RenameGroupLevelTable = read1 nb uint32 Rename_group_level_table"

definition read_instr :: "'s next_block \<Rightarrow> 's parser \<Rightarrow> (call \<times> 's parser) action" where
  "read_instr nb p =
     andthen (lift (read_char nb p)) (\<lambda>(c, p).
       case c of
         None \<Rightarrow> throw BadTransactLog
       | Some c \<Rightarrow>
           (case instruction_of c of None \<Rightarrow> throw BadTransactLog | Some i \<Rightarrow> read_call nb i p))"

definition parse_one :: "'s next_block \<Rightarrow> 'h handler \<Rightarrow> 's parser \<Rightarrow> 'h \<Rightarrow> ('s parser \<times> 'h) action" where
  "parse_one nb handler p h = andthen (read_instr nb p) (\<lambda>(call, p). deliver handler call p h)"

definition has_next :: "'s next_block \<Rightarrow> 's parser \<Rightarrow> bool \<times> 's parser" where
  "has_next nb p = (if input p \<noteq> [] then (True, p) else next_input_buffer nb p)"

text \<open>The \<open>while\<close> loop of \<open>parse\<close>; it may not end when the stream never does.\<close>

partial_function (option) parse_loop ::
    "'s next_block \<Rightarrow> 'h handler \<Rightarrow> 's parser \<Rightarrow> 'h \<Rightarrow> (exn + 'h) option" where
  "parse_loop nb handler p h =
     (case has_next nb p of (again, p) \<Rightarrow>
        if \<not> again then Some (Inr h)
        else Option.bind (parse_one nb handler p h)
          (\<lambda>r. case r of Inl e \<Rightarrow> Some (Inl e) | Inr (p, h) \<Rightarrow> parse_loop nb handler p h))"

definition parse :: "'s next_block \<Rightarrow> 'h handler \<Rightarrow> 's \<Rightarrow> 'h \<Rightarrow> 'h action" where
  "parse nb handler s h = parse_loop nb handler \<lparr>input = [], stream = s\<rparr> h"

end
