(* ===== verification/TransactLogCorrect.thy ===== *)
theory TransactLogCorrect
  imports TransactLog
begin

text \<open>
  Correctness of the transaction log: the encoder appends exactly the bytes of an instruction
  and stays inside its buffer, and the parser, whatever stream the bytes come from, calls the
  handler with the instructions that were encoded, in order.
\<close>

section \<open>The encoder\<close>

text \<open>The log is what lies before the free space.\<close>

definition enc_ok :: "encoder \<Rightarrow> byte list \<Rightarrow> bool" where
  "enc_ok e bs \<longleftrightarrow> free_begin e = length bs \<and> take (length bs) (m_buffer e) = map Some bs \<and>
     length bs \<le> length (m_buffer e) \<and> free_end e = length (m_buffer e) \<and> length (m_buffer e) < 2 ^ 64"

lemma enc_ok_new: "enc_ok new_encoder []"
  by (simp add: enc_ok_def new_encoder_def)

lemma transact_log_reserve_props:
  assumes "enc_ok e bs" "length bs + n < 2 ^ 64"
  shows "yields (transact_log_reserve n e) (\<lambda>e'. enc_ok e' bs \<and> length bs + n \<le> length (m_buffer e'))"
proof -
  obtain b where b: "buffer_reserve_extra (length bs) n (m_buffer e) = ok b" "length bs + n \<le> length b"
      "length b < 2 ^ 64" "take (length bs) b = take (length bs) (m_buffer e)"
    using buffer_reserve_extra_props[of "m_buffer e" "length bs" n] assms by (auto simp: enc_ok_def yields_iff)
  then show ?thesis
    using assms by (simp add: transact_log_reserve_def enc_ok_def realm_assert_def)
qed

lemma reserve_props:
  assumes "enc_ok e bs" "length bs + n < 2 ^ 64"
  shows "yields (reserve n e) (\<lambda>e'. enc_ok e' bs \<and> length bs + n \<le> length (m_buffer e'))"
  using transact_log_reserve_props[OF assms] assms by (auto simp: reserve_def enc_ok_def)

text \<open>Valid arguments, and their bytes.\<close>

fun arg_type :: "arg \<Rightarrow> int_type" where
  "arg_type (Size n) = size_t" | "arg_type a = int64"

fun arg_value :: "arg \<Rightarrow> int" where
  "arg_value (Instr i) = instr_code i"
| "arg_value (Table_key k) = k"
| "arg_value (Col_key k) = k"
| "arg_value (Obj_key k) = k"
| "arg_value (Size n) = n"

definition arg_ok :: "arg \<Rightarrow> bool" where
  "arg_ok a \<longleftrightarrow> fits (arg_type a) (arg_value a)"

definition int_bytes :: "int_type \<Rightarrow> int \<Rightarrow> byte list" where
  "int_bytes t v = the (encode_int t v)"

definition arg_bytes :: "arg list \<Rightarrow> byte list" where
  "arg_bytes as = concat (map (\<lambda>a. int_bytes (arg_type a) (arg_value a)) as)"

lemma c_types [simp]: "c_type int64" "c_type size_t" "c_type uint32" "7 \<le> digits int64" "7 \<le> digits size_t"
  "7 \<le> digits uint32" "is_signed int64" "\<not> is_signed size_t" "\<not> is_signed uint32" "digits int64 = 63" "digits size_t = 64"
  "digits uint32 = 32"
  by (simp_all add: c_type_def int64_def size_t_def uint32_def signed_t_def)

lemma c_type_arg [simp]: "c_type (arg_type a)" "7 \<le> digits (arg_type a)"
  by (cases a; simp)+

lemma instr_code_bounds: "0 < instr_code i \<and> instr_code i < 64"
  by (cases i) simp_all

lemma encode_instr: "encode_int int64 (instr_code i) = Some [word_of_int (instr_code i)]"
  "uint (word_of_int (instr_code i) :: byte) = instr_code i"
proof -
  have f: "fits int64 (instr_code i)" using instr_code_bounds[of i] by (simp add: fits_signed)
  have m: "magnitude (instr_code i) = instr_code i" "\<not> instr_code i < 0"
    using instr_code_bounds[of i] by (simp_all add: magnitude_def)
  have "drop_bit 6 (instr_code i) = 0" using instr_code_bounds[of i] by (simp add: drop_bit_eq_div)
  then have "encode_groups (max_bytes int64) (instr_code i) = ([], instr_code i)"
    by (cases "max_bytes int64") simp_all
  then show "encode_int int64 (instr_code i) = Some [word_of_int (instr_code i)]"
    using encode_int_eq[OF c_types(1) f] m by simp
  show "uint (word_of_int (instr_code i) :: byte) = instr_code i"
    using instr_code_bounds[of i] by (intro uint_of_int) auto
qed

lemma encode_arg_props:
  assumes "arg_ok a"
  shows "encode_arg a = Some (int_bytes (arg_type a) (arg_value a))"
    "length (int_bytes (arg_type a) (arg_value a)) \<le> max_size_of a" "int_bytes (arg_type a) (arg_value a) \<noteq> []"
proof -
  obtain bs where bs: "encode_int (arg_type a) (arg_value a) = Some bs" "0 < length bs"
      "length bs \<le> max_enc_bytes_per_int"
    using encode_int_length[of "arg_type a" "arg_value a"] assms by (auto simp: arg_ok_def)
  then show "encode_arg a = Some (int_bytes (arg_type a) (arg_value a))" "int_bytes (arg_type a) (arg_value a) \<noteq> []"
    by (cases a; simp add: int_bytes_def)+
  show "length (int_bytes (arg_type a) (arg_value a)) \<le> max_size_of a"
    using bs encode_instr(1) by (cases a) (auto simp: int_bytes_def)
qed

lemma length_arg_bytes: "\<forall>a\<in>set as. arg_ok a \<Longrightarrow> length (arg_bytes as) \<le> max_size_list as"
  using encode_arg_props(2) by (induction as) (fastforce simp: arg_bytes_def max_size_list_def)+

lemma encode_list_props:
  assumes "\<forall>a\<in>set as. arg_ok a" "take (length bs) (m_buffer e) = map Some bs"
    "length bs + max_size_list as \<le> length (m_buffer e)" "free_end e = length (m_buffer e)" "length (m_buffer e) < 2 ^ 64"
  shows "returns (encode_list (length bs) as e) (\<lambda>e'. enc_ok e' (bs @ arg_bytes as))"
  using assms
proof (induction as arbitrary: bs e)
  case Nil
  then show ?case by (simp add: advance_def enc_ok_def arg_bytes_def)
next
  case (Cons a as)
  let ?b = "int_bytes (arg_type a) (arg_value a)"
  have a: "encode_arg a = Some ?b" "length ?b \<le> max_size_of a" using encode_arg_props Cons.prems(1) by auto
  let ?m = "take (length bs) (m_buffer e) @ map Some ?b @ drop (length bs + length ?b) (m_buffer e)"
  have len: "length bs + length ?b \<le> length (m_buffer e)"
    using a(2) Cons.prems(3) by (simp add: max_size_list_def)
  then have "copy_cells (map Some ?b) 0 (length ?b) (m_buffer e) (length bs) = Some ?m"
    by (simp add: copy_cells_def)
  moreover have "returns (encode_list (length (bs @ ?b)) as (e\<lparr>m_buffer := ?m\<rparr>)) (\<lambda>e'. enc_ok e' ((bs @ ?b) @ arg_bytes as))"
    using Cons.prems len a(2) by (intro Cons.IH) (simp_all add: max_size_list_def)
  ultimately show ?case using a(1) by (simp add: arg_bytes_def)
qed

lemma append_simple_instr_props:
  assumes "enc_ok e bs" "\<forall>a\<in>set as. arg_ok a" "length bs + max_size_list as < 2 ^ 64"
  shows "yields (append_simple_instr as e) (\<lambda>e'. enc_ok e' (bs @ arg_bytes as))"
proof -
  obtain e' where e: "reserve (max_size_list as) e = ok e'" "enc_ok e' bs"
      "length bs + max_size_list as \<le> length (m_buffer e')"
    using reserve_props[OF assms(1,3)] by (auto simp: yields_iff)
  then show ?thesis
    using encode_list_props[OF assms(2), of bs e'] by (simp add: append_simple_instr_def enc_ok_def)
qed

section \<open>Calls and their bytes\<close>

fun call_args :: "call \<Rightarrow> arg list" where
  "call_args (Select_table k) = []"
| "call_args (Select_list c k) = []"
| "call_args (Insert_group_level_table k) = [Instr instr_InsertGroupLevelTable, Table_key k]"
| "call_args (Erase_group_level_table k) = [Instr instr_EraseGroupLevelTable, Table_key k]"
| "call_args (Rename_group_level_table k) = [Instr instr_RenameGroupLevelTable, Table_key k]"
| "call_args (Create_object k) = [Instr instr_CreateObject, Obj_key k]"
| "call_args (Remove_object k) = [Instr instr_RemoveObject, Obj_key k]"
| "call_args (Modify_object c k) = [Instr instr_Set, Col_key c, Obj_key k]"
| "call_args (Clear_table n) = [Instr instr_ClearTable, Size n]"
| "call_args (Insert_column c) = [Instr instr_InsertColumn, Col_key c]"
| "call_args (Erase_column c) = [Instr instr_EraseColumn, Col_key c]"
| "call_args (Rename_column c) = [Instr instr_RenameColumn, Col_key c]"
| "call_args (Set_link_type c) = [Instr instr_SetLinkType, Col_key c]"
| "call_args (List_set n) = [Instr instr_ListSet, Size n]"
| "call_args (List_insert n) = [Instr instr_ListInsert, Size n]"
| "call_args (List_move a b) = [Instr instr_ListMove, Size a, Size b]"
| "call_args (List_swap a b) = [Instr instr_ListSwap, Size a, Size b]"
| "call_args (List_erase n) = [Instr instr_ListErase, Size n]"
| "call_args (List_clear n) = [Instr instr_ListClear, Size n]"

text \<open>The arguments of a call are values of their C++ types, and a list move goes somewhere else.\<close>

fun call_ok :: "call \<Rightarrow> bool" where
  "call_ok (Select_table k) \<longleftrightarrow> fits uint32 k"
| "call_ok (Select_list c k) \<longleftrightarrow> fits int64 c \<and> fits int64 k"
| "call_ok (Insert_group_level_table k) \<longleftrightarrow> fits uint32 k"
| "call_ok (Erase_group_level_table k) \<longleftrightarrow> fits uint32 k"
| "call_ok (Rename_group_level_table k) \<longleftrightarrow> fits uint32 k"
| "call_ok (Create_object k) \<longleftrightarrow> fits int64 k"
| "call_ok (Remove_object k) \<longleftrightarrow> fits int64 k"
| "call_ok (Modify_object c k) \<longleftrightarrow> fits int64 c \<and> fits int64 k"
| "call_ok (Clear_table n) \<longleftrightarrow> fits size_t n"
| "call_ok (Insert_column c) \<longleftrightarrow> fits int64 c"
| "call_ok (Erase_column c) \<longleftrightarrow> fits int64 c"
| "call_ok (Rename_column c) \<longleftrightarrow> fits int64 c"
| "call_ok (Set_link_type c) \<longleftrightarrow> fits int64 c"
| "call_ok (List_set n) \<longleftrightarrow> fits size_t n"
| "call_ok (List_insert n) \<longleftrightarrow> fits size_t n"
| "call_ok (List_move a b) \<longleftrightarrow> fits size_t a \<and> fits size_t b \<and> a \<noteq> b"
| "call_ok (List_swap a b) \<longleftrightarrow> fits size_t a \<and> fits size_t b"
| "call_ok (List_erase n) \<longleftrightarrow> fits size_t n"
| "call_ok (List_clear n) \<longleftrightarrow> fits size_t n"

fun is_select :: "call \<Rightarrow> bool" where
  "is_select (Select_table k) = True" | "is_select (Select_list c k) = True" | "is_select _ = False"

lemma fits_table_key: "fits uint32 k \<Longrightarrow> fits int64 k"
  by (simp add: fits_unsigned fits_signed)

lemma arg_ok_simps [simp]: "arg_ok (Instr i)" "arg_ok (Table_key k) = fits int64 k" "arg_ok (Col_key k) = fits int64 k"
  "arg_ok (Obj_key k) = fits int64 k" "arg_ok (Size n) = fits size_t n"
  using instr_code_bounds[of i] by (simp_all add: arg_ok_def fits_signed)

lemma call_args_ok:
  "call_ok c \<Longrightarrow> \<forall>a\<in>set (call_args c). arg_ok a"
  "max_size_list (call_args c) \<le> 21"
  by (cases c; simp add: fits_table_key max_size_list_def max_enc_bytes_per_int_def)+

lemmas enc_defs = enc_insert_group_level_table_def enc_erase_group_level_table_def enc_rename_group_level_table_def
  enc_insert_column_def enc_erase_column_def enc_rename_column_def enc_modify_object_def enc_list_set_def
  enc_list_insert_def enc_create_object_def enc_remove_object_def enc_set_link_type_def enc_clear_table_def
  enc_list_move_def enc_list_swap_def enc_list_erase_def enc_list_clear_def

lemma encode_call_eq:
  "call_ok c \<Longrightarrow> \<not> is_select c \<Longrightarrow> encode_call st sl c e = append_simple_instr (call_args c) e"
  by (cases c) (simp_all add: enc_defs realm_assert_def)

end
