(* ===== verification/TransactLogParse.thy ===== *)
theory TransactLogParse
  imports TransactLogCorrect
begin

text \<open>
  Parsing what was encoded. Reading from any stream is first related to reading from memory;
  then the bytes of each call are read back as that call.
\<close>

section \<open>Reading from memory\<close>

definition no_block :: "unit next_block" where
  "no_block s = (None, s)"

interpretation in_memory: no_copy_input_stream no_block "\<lambda>_. True" "\<lambda>_. []"
  by unfold_locales (auto simp: no_block_def)

abbreviation bytes :: "byte list \<Rightarrow> unit parser" where
  "bytes bs \<equiv> \<lparr>input = bs, stream = ()\<rparr>"

lemma in_memory_simps [simp]: "in_memory.parser_ok p" "in_memory.unread p = input p"
  by (simp_all add: in_memory.parser_ok_def in_memory.unread_def)

lemma input_eq: "input p = bs \<longleftrightarrow> p = bytes bs"
  by (cases p) simp

lemma read_int_bytes:
  "read_int no_block t (bytes bs) =
     (case decode_int t bs of None \<Rightarrow> None | Some (Inl e) \<Rightarrow> Some (Inl e) | Some (Inr (v, rest)) \<Rightarrow> ok (v, bytes rest))"
  using in_memory.read_int_decode[of "bytes bs" t]
  by (auto simp: in_memory.agree_def input_eq ok_def split: option.splits sum.splits prod.splits)

text \<open>\<open>reads_back c bs\<close>: the parser reads \<open>bs\<close> as the call \<open>c\<close>, whatever follows.\<close>

definition reads_back :: "call \<Rightarrow> byte list \<Rightarrow> bool" where
  "reads_back c bs \<longleftrightarrow> (\<forall>rest. read_instr no_block (bytes (bs @ rest)) = ok (c, bytes rest))"

lemma reads_back_not_Nil: "reads_back c bs \<Longrightarrow> bs \<noteq> []"
  by (auto simp: reads_back_def read_instr_def read_char_def next_input_buffer_def no_block_def dest: spec[of _ "[]"])

text \<open>The calls a handler receives, until it refuses one.\<close>

fun run_calls :: "('h handler) \<Rightarrow> call list \<Rightarrow> 'h \<Rightarrow> 'h action" where
  "run_calls handler [] h = ok h"
| "run_calls handler (c # cs) h =
     andthen (handler c h) (\<lambda>(accepted, h). if accepted then run_calls handler cs h else throw BadTransactLog)"

section \<open>Reading from any stream\<close>

context no_copy_input_stream begin

definition matches :: "('a \<times> 's parser) action \<Rightarrow> ('a \<times> unit parser) action \<Rightarrow> bool" where
  "matches x y \<longleftrightarrow> (case y of None \<Rightarrow> x = None | Some (Inl e) \<Rightarrow> x = Some (Inl e)
     | Some (Inr (v, q)) \<Rightarrow> \<exists>p. x = ok (v, p) \<and> parser_ok p \<and> unread p = input q)"

lemma matches_simps [simp]:
  "matches x None = (x = None)" "matches x (throw e) = (x = throw e)"
  "matches x (ok (v, q)) = (\<exists>p. x = ok (v, p) \<and> parser_ok p \<and> unread p = input q)"
  by (auto simp: matches_def throw_def ok_def)

lemma matches_andthen:
  assumes "matches x y" "\<And>v p q. parser_ok p \<Longrightarrow> unread p = input q \<Longrightarrow> matches (f (v, p)) (g (v, q))"
  shows "matches (andthen x f) (andthen y g)"
proof -
  consider "y = None" | e where "y = throw e" | v q where "y = ok (v, q)"
    by (metis not_None_eq old.prod.exhaust ok_def sum.exhaust throw_def)
  then show ?thesis
  proof cases
    case 3
    then obtain p where "x = ok (v, p)" "parser_ok p" "unread p = input q" using assms(1) by auto
    then show ?thesis using assms(2) 3 by simp
  qed (use assms(1) in auto)
qed

lemma matches_read_int:
  assumes "parser_ok p" "unread p = input q"
  shows "matches (read_int next_block t p) (read_int no_block t q)"
  using read_int_decode[OF assms(1), of t] assms(2) read_int_bytes[of t "input q"]
  by (cases q) (auto simp: agree_def ok_def matches_def split: option.splits sum.splits prod.splits)

lemma matches_read1:
  "parser_ok p \<Longrightarrow> unread p = input q \<Longrightarrow> matches (read1 next_block t f p) (read1 no_block t f q)"
  unfolding read1_def by (rule matches_andthen[OF matches_read_int]) auto

lemma matches_read2:
  "parser_ok p \<Longrightarrow> unread p = input q \<Longrightarrow> matches (read2 next_block t f p) (read2 no_block t f q)"
  unfolding read2_def
  by (rule matches_andthen[OF matches_read_int], assumption, assumption, simp)
    (rule matches_andthen[OF matches_read_int], assumption, assumption, auto)

lemma matches_select_table:
  assumes "parser_ok p" "unread p = input q"
  shows "matches (read_call next_block instr_SelectTable p) (read_call no_block instr_SelectTable q)"
  unfolding read_call.simps
proof (rule matches_andthen[OF matches_read_int[OF assms]], simp)
  fix v :: int and p and q :: "unit parser"
  assume "parser_ok p" "unread p = input q"
  then show "matches (andthen (lift (realm_assert (v = 0))) (\<lambda>_. read1 next_block uint32 Select_table p))
      (andthen (lift (realm_assert (v = 0))) (\<lambda>_. read1 no_block uint32 Select_table q))"
    by (simp add: realm_assert_def matches_read1)
qed

lemma matches_read_call:
  "parser_ok p \<Longrightarrow> unread p = input q \<Longrightarrow> matches (read_call next_block i p) (read_call no_block i q)"
  using matches_select_table by (cases i) (simp_all add: matches_read1 matches_read2 del: read_call.simps(6))

lemma matches_read_instr:
  assumes "parser_ok p" "unread p = input q"
  shows "matches (read_instr next_block p) (read_instr no_block q)"
proof (cases "input q")
  case Nil
  then show ?thesis
    using read_char_Nil[OF assms(1)] in_memory.read_char_Nil[of q] assms(2) by (auto simp: read_instr_def)
next
  case (Cons c cs)
  obtain p' where p': "read_char next_block p = Some (Some c, p')" "parser_ok p'" "unread p' = cs"
    using read_char_Cons[OF assms(1)] assms(2) Cons by auto
  obtain q' where q': "read_char no_block q = Some (Some c, q')" "input q' = cs"
    using in_memory.read_char_Cons[of q] Cons by auto
  show ?thesis
    using p' q' matches_read_call[of p' q'] by (auto simp: read_instr_def split: option.splits)
qed

lemma parse_one_reads_back:
  assumes "reads_back c bs" "parser_ok p" "unread p = bs @ rest"
  shows "\<exists>p'. parse_one next_block handler p h = deliver handler c p' h \<and> parser_ok p' \<and> unread p' = rest"
proof -
  have "read_instr no_block (bytes (bs @ rest)) = ok (c, bytes rest)" using assms(1) by (simp add: reads_back_def)
  then show ?thesis
    using matches_read_instr[OF assms(2), of "bytes (bs @ rest)"] assms(3) by (auto simp: parse_one_def)
qed

lemma parse_loop_reads_back:
  assumes "list_all2 reads_back cs bss" "parser_ok p" "unread p = concat bss"
  shows "parse_loop next_block handler p h = run_calls handler cs h"
  using assms
proof (induction cs bss arbitrary: p h rule: list_all2_induct)
  case Nil
  then have "\<exists>p'. has_next next_block p = (False, p')"
    using next_input_buffer_cases[of p] by (auto simp: has_next_def unread_def)
  then show ?case by (subst parse_loop.simps) (auto simp: ok_def)
next
  case (Cons c cs bs bss)
  have ne: "unread p \<noteq> []" using Cons.prems(2) reads_back_not_Nil[OF Cons.hyps(1)] by simp
  have "\<exists>p'. has_next next_block p = (True, p') \<and> parser_ok p' \<and> unread p' = unread p"
    using next_input_buffer_cases[OF Cons.prems(1)] ne Cons.prems(1) by (cases "input p = []") (auto simp: has_next_def)
  then obtain p' where p': "has_next next_block p = (True, p')" "parser_ok p'" "unread p' = bs @ concat bss"
    using Cons.prems(2) by auto
  then obtain p'' where p'': "parse_one next_block handler p' h = deliver handler c p'' h" "parser_ok p''"
      "unread p'' = concat bss"
    using parse_one_reads_back[OF Cons.hyps(1) p'(2,3), of handler h] by (elim exE conjE)
  show ?case
  proof (cases "handler c h")
    case None
    then show ?thesis using p'(1) p''(1) by (subst parse_loop.simps) (simp add: deliver_def)
  next
    case (Some r)
    show ?thesis
    proof (cases r)
      case (Inl e)
      then show ?thesis using Some p'(1) p''(1) by (subst parse_loop.simps) (simp add: deliver_def)
    next
      case (Inr x)
      obtain a h' where x: "x = (a, h')" by (cases x)
      then show ?thesis
        using Some Inr p'(1) p''(1) Cons.IH[OF p''(2,3), of h']
        by (subst parse_loop.simps, cases a) (simp_all add: deliver_def ok_def throw_def)
    qed
  qed
qed

lemma parse_reads_back:
  assumes "list_all2 reads_back cs bss" "stream_ok s" "contents s = concat bss"
  shows "parse next_block handler s h = run_calls handler cs h"
  using parse_loop_reads_back[OF assms(1), of "\<lparr>input = [], stream = s\<rparr>"] assms(2,3)
  by (simp add: parse_def parser_ok_def unread_def)

end

section \<open>Encoded calls are read back\<close>

lemma read_int_encoded:
  assumes "c_type u" "fits u v" "c_type t" "7 \<le> digits t" "read_as t v = Some x"
  shows "read_int no_block t (bytes (int_bytes u v @ rest)) = ok (x, bytes rest)"
proof -
  obtain bs where "encode_int u v = Some bs" "decode_int t (bs @ rest) = Some (Inr (x, rest))"
    using decode_encode_int[OF assms(1-4), of rest] assms(5) by auto
  then show ?thesis by (simp add: read_int_bytes int_bytes_def)
qed

lemma read_as_fits [simp]: "fits t v \<Longrightarrow> read_as t v = Some v"
  by (auto simp: read_as_def fits_def min_of_def split: if_splits)

lemma instruction_of_code: "uint c = instr_code i \<Longrightarrow> instruction_of c = Some i"
  by (cases i) (simp_all add: instruction_of_def all_instructions_def)

lemma read_instr_code:
  "read_instr no_block (bytes (int_bytes int64 (instr_code i) @ rest)) = read_call no_block i (bytes rest)"
  using instruction_of_code[OF encode_instr(2)] encode_instr(1)[of i]
  by (simp add: int_bytes_def read_instr_def read_char_def)

lemma call_reads_back:
  assumes "call_ok c" "\<not> is_select c"
  shows "reads_back c (arg_bytes (call_args c))"
  using assms
  by (cases c)
    (simp_all add: reads_back_def arg_bytes_def read_instr_code read1_def read2_def read_int_encoded fits_table_key
      del: instr_code.simps)

section \<open>Encoding and parsing a log\<close>

text \<open>
  What is relied on of \<open>select_table\<close> and \<open>select_list\<close>: each appends a short sequence of bytes,
  which the parser reads back as the call.
\<close>

definition appends :: "(encoder \<Rightarrow> encoder action) \<Rightarrow> byte list \<Rightarrow> bool" where
  "appends f bs \<longleftrightarrow> length bs \<le> 32 \<and>
     (\<forall>e log. enc_ok e log \<longrightarrow> length log + 32 < 2 ^ 64 \<longrightarrow> yields (f e) (\<lambda>e'. enc_ok e' (log @ bs)))"

definition selects_ok :: "select_table \<Rightarrow> select_list \<Rightarrow> bool" where
  "selects_ok st sl \<longleftrightarrow>
     (\<forall>k. fits uint32 k \<longrightarrow> (\<exists>bs. appends (st k) bs \<and> reads_back (Select_table k) bs)) \<and>
     (\<forall>c k. fits int64 c \<longrightarrow> fits int64 k \<longrightarrow> (\<exists>bs. appends (sl c k) bs \<and> reads_back (Select_list c k) bs))"

lemma encode_call_appends:
  assumes "selects_ok st sl" "call_ok c"
  shows "\<exists>bs. appends (encode_call st sl c) bs \<and> reads_back c bs"
proof (cases "is_select c")
  case True
  then show ?thesis using assms by (cases c) (auto simp: selects_ok_def)
next
  case False
  have "length (arg_bytes (call_args c)) \<le> 21" "max_size_list (call_args c) \<le> 21"
    using length_arg_bytes[OF call_args_ok(1)[OF assms(2)]] call_args_ok(2)[of c] assms(2) by (auto intro: order_trans)
  then have "appends (encode_call st sl c) (arg_bytes (call_args c))"
    using append_simple_instr_props call_args_ok(1)[OF assms(2)] encode_call_eq[OF assms(2) False]
    by (auto simp: appends_def)
  then show ?thesis using call_reads_back[OF assms(2) False] by blast
qed

text \<open>The calls given to an encoder, one after the other.\<close>

fun encode_calls :: "select_table \<Rightarrow> select_list \<Rightarrow> call list \<Rightarrow> encoder \<Rightarrow> encoder action" where
  "encode_calls st sl [] e = ok e"
| "encode_calls st sl (c # cs) e = andthen (encode_call st sl c e) (encode_calls st sl cs)"

lemma encode_calls_props:
  assumes "selects_ok st sl" "\<forall>c\<in>set cs. call_ok c" "enc_ok e log" "length log + 32 * length cs < 2 ^ 64"
  shows "yields (encode_calls st sl cs e) (\<lambda>e'. \<exists>bss. list_all2 reads_back cs bss \<and> enc_ok e' (log @ concat bss))"
  using assms(2-)
proof (induction cs arbitrary: e log)
  case Nil
  then show ?case by simp
next
  case (Cons c cs)
  obtain bs where bs: "appends (encode_call st sl c) bs" "reads_back c bs"
    using encode_call_appends[OF assms(1)] Cons.prems(1) by auto
  then obtain e' where e': "encode_call st sl c e = ok e'" "enc_ok e' (log @ bs)"
    using Cons.prems(2,3) by (fastforce simp: appends_def yields_iff)
  have "length (log @ bs) + 32 * length cs < 2 ^ 64" using Cons.prems(3) bs(1) by (simp add: appends_def)
  then have "yields (encode_calls st sl cs e') (\<lambda>e''. \<exists>bss. list_all2 reads_back cs bss \<and> enc_ok e'' ((log @ bs) @ concat bss))"
    using Cons.prems(1) e'(2) by (intro Cons.IH) auto
  then have "yields (encode_calls st sl cs e') (\<lambda>e''. \<exists>bss. list_all2 reads_back (c # cs) bss \<and> enc_ok e'' (log @ concat bss))"
  proof (rule yields_mono)
    fix x
    assume "\<exists>bss. list_all2 reads_back cs bss \<and> enc_ok x ((log @ bs) @ concat bss)"
    then obtain bss where "list_all2 reads_back cs bss" "enc_ok x ((log @ bs) @ concat bss)" by blast
    then show "\<exists>bss. list_all2 reads_back (c # cs) bss \<and> enc_ok x (log @ concat bss)"
      using bs(2) by (intro exI[of _ "bs # bss"]) simp
  qed
  then show ?case using e'(1) by simp
qed

end
