(* ===== verification/TransactSelections.thy ===== *)
theory TransactSelections
  imports TransactLogParse
begin

text \<open>
  The selections of a log. Most instructions concern the table, or the list, that a previous
  instruction has selected; \<open>located\<close> pairs every instruction of a log with the selection it is
  for.
\<close>

section \<open>Instructions with their selections\<close>

text \<open>The selected table and list.\<close>

type_synonym selection = "int option \<times> (int \<times> int) option"

fun is_group_op :: "call \<Rightarrow> bool" where
  "is_group_op (Insert_group_level_table k) = True"
| "is_group_op (Erase_group_level_table k) = True"
| "is_group_op (Rename_group_level_table k) = True"
| "is_group_op _ = False"

fun is_list_op :: "call \<Rightarrow> bool" where
  "is_list_op (List_set n) = True"
| "is_list_op (List_insert n) = True"
| "is_list_op (List_move a b) = True"
| "is_list_op (List_swap a b) = True"
| "is_list_op (List_erase n) = True"
| "is_list_op (List_clear n) = True"
| "is_list_op _ = False"

fun select :: "call \<Rightarrow> selection \<Rightarrow> selection" where
  "select (Select_table k) x = (Some k, None)"
| "select (Select_list c k) x = (fst x, Some (c, k))"
| "select c x = (if is_group_op c then (None, None) else x)"

text \<open>The part of the selection an instruction depends on.\<close>

definition place :: "call \<Rightarrow> selection \<Rightarrow> selection" where
  "place c x = (if is_group_op c then (None, None) else if is_list_op c then x else (fst x, None))"

fun located :: "selection \<Rightarrow> call list \<Rightarrow> (selection \<times> call) list" where
  "located x [] = []"
| "located x (c # cs) = (if is_select c then [] else [(place c x, c)]) @ located (select c x) cs"

text \<open>Instructions have what they need selected, and a list is selected in a table.\<close>

definition well_placed :: "call \<Rightarrow> selection \<Rightarrow> bool" where
  "well_placed c x \<longleftrightarrow> (is_list_op c \<longrightarrow> snd x \<noteq> None) \<and> (\<not> is_group_op c \<longrightarrow> fst x \<noteq> None)"

fun well_scoped :: "selection \<Rightarrow> call list \<Rightarrow> bool" where
  "well_scoped x [] = True"
| "well_scoped x (c # cs) \<longleftrightarrow>
     (case c of Select_table k \<Rightarrow> True | Select_list c k \<Rightarrow> fst x \<noteq> None | _ \<Rightarrow> well_placed c x) \<and>
     well_scoped (select c x) cs"

section \<open>Selections that do not matter\<close>

lemma located_no_list:
  assumes "\<forall>(x, c)\<in>set (located (t, None) cs). well_placed c x"
  shows "located (t, l) cs = located (t, None) cs"
  using assms
proof (induction cs)
  case (Cons c cs)
  then show ?case by (cases c) (auto simp: place_def well_placed_def)
qed simp

lemma located_no_table:
  assumes "\<forall>(x, c)\<in>set (located (None, l) cs). well_placed c x"
  shows "located (t, l) cs = located (None, l) cs"
  using assms
proof (induction cs arbitrary: l)
  case (Cons c cs)
  then show ?case by (cases c) (auto simp: place_def well_placed_def)
qed simp

section \<open>Logs in sequence\<close>

lemma located_append: "located x (cs @ ds) = located x cs @ located (fold select cs x) ds"
  by (induction cs arbitrary: x) simp_all

lemma well_scoped_append: "well_scoped x (cs @ ds) \<longleftrightarrow> well_scoped x cs \<and> well_scoped (fold select cs x) ds"
  by (induction cs arbitrary: x) simp_all

lemma located_selects: "\<forall>c\<in>set cs. is_select c \<Longrightarrow> located x cs = []"
  by (induction cs arbitrary: x) simp_all

end
