(* ===== verification/TransactConvenient.thy ===== *)
theory TransactConvenient
  imports TransactSelections
begin

text \<open>
  \<open>TransactLogConvenientEncoder\<close> (realm/impl/transact_log.hpp): writes the changes of tables and
  lists, selecting the table or the list first unless its cache says that it is already selected. Its
  \<open>do_select_table\<close> and \<open>do_select_list\<close> are defined in a file that is not in the repository; they are
  parameters, and so is the key \<open>Table::get_key\<close> of a table. Tables are referred to by
  addresses, as the pointers of the code. The values of fields and the names of columns, which the
  operations take as arguments, never reach the log and are left out.
\<close>

section \<open>The encoder\<close>

record lst =
  lst_table :: nat
  lst_col :: int
  lst_obj :: int

text \<open>\<open>LinkListId\<close>: the keys of the table, the object and the column; by default the null keys.\<close>

type_synonym list_id = "int \<times> int \<times> int"

definition null_list_id :: list_id where
  "null_list_id = (2 ^ 31 - 1, - 1, 2 ^ 63 - 1)"

definition link_list_id :: "(nat \<Rightarrow> int) \<Rightarrow> lst \<Rightarrow> list_id" where
  "link_list_id key_of l = (key_of (lst_table l), lst_obj l, lst_col l)"

record conv_encoder =
  ce_encoder :: encoder
  selected_table :: "nat option"
  selected_list :: list_id

type_synonym do_select_table = "nat \<Rightarrow> conv_encoder \<Rightarrow> conv_encoder action"
type_synonym do_select_list = "lst \<Rightarrow> conv_encoder \<Rightarrow> conv_encoder action"

definition new_conv_encoder :: conv_encoder where
  "new_conv_encoder = \<lparr>ce_encoder = new_encoder, selected_table = None, selected_list = null_list_id\<rparr>"

definition unselect_all :: "conv_encoder \<Rightarrow> conv_encoder" where
  "unselect_all s = s\<lparr>selected_table := None, selected_list := null_list_id\<rparr>"

definition reset_selection_caches :: "conv_encoder \<Rightarrow> conv_encoder" where
  "reset_selection_caches s = unselect_all s"

definition ce_select_table :: "do_select_table \<Rightarrow> nat \<Rightarrow> conv_encoder \<Rightarrow> conv_encoder action" where
  "ce_select_table dst t s =
     andthen (if Some t \<noteq> selected_table s then dst t s else ok s) (\<lambda>s. ok (s\<lparr>selected_list := null_list_id\<rparr>))"

definition ce_select_list :: "(nat \<Rightarrow> int) \<Rightarrow> do_select_list \<Rightarrow> lst \<Rightarrow> conv_encoder \<Rightarrow> conv_encoder action" where
  "ce_select_list key_of dsl l s = (if link_list_id key_of l \<noteq> selected_list s then dsl l s else ok s)"

definition with_encoder :: "(encoder \<Rightarrow> encoder action) \<Rightarrow> conv_encoder \<Rightarrow> conv_encoder action" where
  "with_encoder f s = andthen (f (ce_encoder s)) (\<lambda>e. ok (s\<lparr>ce_encoder := e\<rparr>))"

section \<open>Changes of the group\<close>

definition ce_insert_group_level_table :: "int \<Rightarrow> conv_encoder \<Rightarrow> conv_encoder action" where
  "ce_insert_group_level_table key s = with_encoder (enc_insert_group_level_table key) (unselect_all s)"

definition ce_erase_group_level_table :: "int \<Rightarrow> conv_encoder \<Rightarrow> conv_encoder action" where
  "ce_erase_group_level_table key s = with_encoder (enc_erase_group_level_table key) (unselect_all s)"

definition ce_rename_group_level_table :: "int \<Rightarrow> conv_encoder \<Rightarrow> conv_encoder action" where
  "ce_rename_group_level_table key s = with_encoder (enc_rename_group_level_table key) (unselect_all s)"

section \<open>Changes of a table\<close>

definition ce_insert_column :: "do_select_table \<Rightarrow> nat \<Rightarrow> int \<Rightarrow> conv_encoder \<Rightarrow> conv_encoder action" where
  "ce_insert_column dst t col s = andthen (ce_select_table dst t s) (with_encoder (enc_insert_column col))"

definition ce_erase_column :: "do_select_table \<Rightarrow> nat \<Rightarrow> int \<Rightarrow> conv_encoder \<Rightarrow> conv_encoder action" where
  "ce_erase_column dst t col s = andthen (ce_select_table dst t s) (with_encoder (enc_erase_column col))"

definition ce_rename_column :: "do_select_table \<Rightarrow> nat \<Rightarrow> int \<Rightarrow> conv_encoder \<Rightarrow> conv_encoder action" where
  "ce_rename_column dst t col s = andthen (ce_select_table dst t s) (with_encoder (enc_rename_column col))"

definition ce_do_set :: "do_select_table \<Rightarrow> nat \<Rightarrow> int \<Rightarrow> int \<Rightarrow> instruction \<Rightarrow> conv_encoder \<Rightarrow> conv_encoder action" where
  "ce_do_set dst t col key variant s =
     (if variant \<noteq> instr_SetDefault then andthen (ce_select_table dst t s) (with_encoder (enc_modify_object col key)) else ok s)"

text \<open>
  \<open>set_int\<close>, \<open>set_bool\<close>, \<open>set_float\<close>, \<open>set_double\<close>, \<open>set_string\<close>, \<open>set_binary\<close>, \<open>set_timestamp\<close>,
  \<open>set_link\<close> and \<open>set_null\<close> are the same function of all but the value.
\<close>

definition ce_set_value :: "do_select_table \<Rightarrow> nat \<Rightarrow> int \<Rightarrow> int \<Rightarrow> instruction \<Rightarrow> conv_encoder \<Rightarrow> conv_encoder action" where
  "ce_set_value dst t col key variant = ce_do_set dst t col key variant"

definition ce_add_int :: "do_select_table \<Rightarrow> nat \<Rightarrow> int \<Rightarrow> int \<Rightarrow> conv_encoder \<Rightarrow> conv_encoder action" where
  "ce_add_int dst t col key = ce_do_set dst t col key instr_Set"

definition ce_nullify_link :: "do_select_table \<Rightarrow> nat \<Rightarrow> int \<Rightarrow> int \<Rightarrow> conv_encoder \<Rightarrow> conv_encoder action" where
  "ce_nullify_link dst t col key s = andthen (ce_select_table dst t s) (with_encoder (enc_modify_object col key))"

text \<open>The length of the inserted string, and the number of bytes erased.\<close>

definition ce_insert_substring :: "do_select_table \<Rightarrow> nat \<Rightarrow> int \<Rightarrow> int \<Rightarrow> nat \<Rightarrow> conv_encoder \<Rightarrow> conv_encoder action" where
  "ce_insert_substring dst t col key value_size s = (if value_size > 0 then ce_do_set dst t col key instr_Set s else ok s)"

definition ce_erase_substring :: "do_select_table \<Rightarrow> nat \<Rightarrow> int \<Rightarrow> int \<Rightarrow> nat \<Rightarrow> conv_encoder \<Rightarrow> conv_encoder action" where
  "ce_erase_substring dst t col key n s = (if n > 0 then ce_do_set dst t col key instr_Set s else ok s)"

definition ce_create_object :: "do_select_table \<Rightarrow> nat \<Rightarrow> int \<Rightarrow> conv_encoder \<Rightarrow> conv_encoder action" where
  "ce_create_object dst t key s = andthen (ce_select_table dst t s) (with_encoder (enc_create_object key))"

definition ce_remove_object :: "do_select_table \<Rightarrow> nat \<Rightarrow> int \<Rightarrow> conv_encoder \<Rightarrow> conv_encoder action" where
  "ce_remove_object dst t key s = andthen (ce_select_table dst t s) (with_encoder (enc_remove_object key))"

definition ce_set_link_type :: "do_select_table \<Rightarrow> nat \<Rightarrow> int \<Rightarrow> conv_encoder \<Rightarrow> conv_encoder action" where
  "ce_set_link_type dst t col s = andthen (ce_select_table dst t s) (with_encoder (enc_set_link_type col))"

definition ce_clear_table :: "do_select_table \<Rightarrow> nat \<Rightarrow> int \<Rightarrow> conv_encoder \<Rightarrow> conv_encoder action" where
  "ce_clear_table dst t prior_num_rows s = andthen (ce_select_table dst t s) (with_encoder (enc_clear_table prior_num_rows))"

section \<open>Changes of a list\<close>

type_synonym list_op = "(nat \<Rightarrow> int) \<Rightarrow> do_select_list \<Rightarrow> lst \<Rightarrow> int \<Rightarrow> conv_encoder \<Rightarrow> conv_encoder action"

text \<open>\<open>list_set_int\<close>, \<open>list_set_bool\<close>, \<open>list_set_float\<close>, \<open>list_set_double\<close>, \<open>list_set_string\<close>,
  \<open>list_set_binary\<close>, \<open>list_set_timestamp\<close>; then the same for insertion.\<close>

definition ce_list_set_value :: list_op where
  "ce_list_set_value key_of dsl l ndx s = andthen (ce_select_list key_of dsl l s) (with_encoder (enc_list_set ndx))"

definition ce_list_insert_value :: list_op where
  "ce_list_insert_value key_of dsl l ndx s = andthen (ce_select_list key_of dsl l s) (with_encoder (enc_list_insert ndx))"

definition ce_list_set_null :: list_op where
  "ce_list_set_null key_of dsl l ndx s = andthen (ce_select_list key_of dsl l s) (with_encoder (enc_list_set ndx))"

definition ce_list_insert_null :: list_op where
  "ce_list_insert_null key_of dsl l ndx s = andthen (ce_select_list key_of dsl l s) (with_encoder (enc_list_insert ndx))"

definition ce_list_set_link :: list_op where
  "ce_list_set_link key_of dsl l ndx s = andthen (ce_select_list key_of dsl l s) (with_encoder (enc_list_set ndx))"

definition ce_list_insert_link :: list_op where
  "ce_list_insert_link key_of dsl l ndx s = andthen (ce_select_list key_of dsl l s) (with_encoder (enc_list_insert ndx))"

definition ce_link_list_nullify :: list_op where
  "ce_link_list_nullify key_of dsl l ndx s = andthen (ce_select_list key_of dsl l s) (with_encoder (enc_list_erase ndx))"

definition ce_list_move :: "(nat \<Rightarrow> int) \<Rightarrow> do_select_list \<Rightarrow> lst \<Rightarrow> int \<Rightarrow> int \<Rightarrow> conv_encoder \<Rightarrow> conv_encoder action" where
  "ce_list_move key_of dsl l from to s = andthen (ce_select_list key_of dsl l s) (with_encoder (enc_list_move from to))"

definition ce_list_swap :: "(nat \<Rightarrow> int) \<Rightarrow> do_select_list \<Rightarrow> lst \<Rightarrow> int \<Rightarrow> int \<Rightarrow> conv_encoder \<Rightarrow> conv_encoder action" where
  "ce_list_swap key_of dsl l a b s = andthen (ce_select_list key_of dsl l s) (with_encoder (enc_list_swap a b))"

definition ce_list_erase :: list_op where
  "ce_list_erase key_of dsl l ndx s = andthen (ce_select_list key_of dsl l s) (with_encoder (enc_list_erase ndx))"

section \<open>Changes\<close>

datatype table_change =
    Insert_column_of int | Erase_column_of int | Rename_column_of int | Set_value int int instruction | Add_int int int
  | Nullify_link int int | Insert_substring int int nat | Erase_substring int int nat | Create int | Remove int
  | Set_link_type_of int | Clear int

datatype list_change =
    Set_element int | Insert_element int | Set_null_element int | Insert_null_element int | Set_link_element int
  | Insert_link_element int | Nullify_element int | Move_element int int | Swap_elements int int | Erase_element int

datatype change =
    Insert_table int | Erase_table int | Rename_table int | In_table nat table_change | In_list lst list_change
  | Reset_caches

fun apply_table_change :: "do_select_table \<Rightarrow> nat \<Rightarrow> table_change \<Rightarrow> conv_encoder \<Rightarrow> conv_encoder action" where
  "apply_table_change dst t (Insert_column_of c) = ce_insert_column dst t c"
| "apply_table_change dst t (Erase_column_of c) = ce_erase_column dst t c"
| "apply_table_change dst t (Rename_column_of c) = ce_rename_column dst t c"
| "apply_table_change dst t (Set_value c k v) = ce_set_value dst t c k v"
| "apply_table_change dst t (Add_int c k) = ce_add_int dst t c k"
| "apply_table_change dst t (Nullify_link c k) = ce_nullify_link dst t c k"
| "apply_table_change dst t (Insert_substring c k n) = ce_insert_substring dst t c k n"
| "apply_table_change dst t (Erase_substring c k n) = ce_erase_substring dst t c k n"
| "apply_table_change dst t (Create k) = ce_create_object dst t k"
| "apply_table_change dst t (Remove k) = ce_remove_object dst t k"
| "apply_table_change dst t (Set_link_type_of c) = ce_set_link_type dst t c"
| "apply_table_change dst t (Clear n) = ce_clear_table dst t n"

fun apply_list_change :: "(nat \<Rightarrow> int) \<Rightarrow> do_select_list \<Rightarrow> lst \<Rightarrow> list_change \<Rightarrow> conv_encoder \<Rightarrow> conv_encoder action" where
  "apply_list_change key_of dsl l (Set_element n) = ce_list_set_value key_of dsl l n"
| "apply_list_change key_of dsl l (Insert_element n) = ce_list_insert_value key_of dsl l n"
| "apply_list_change key_of dsl l (Set_null_element n) = ce_list_set_null key_of dsl l n"
| "apply_list_change key_of dsl l (Insert_null_element n) = ce_list_insert_null key_of dsl l n"
| "apply_list_change key_of dsl l (Set_link_element n) = ce_list_set_link key_of dsl l n"
| "apply_list_change key_of dsl l (Insert_link_element n) = ce_list_insert_link key_of dsl l n"
| "apply_list_change key_of dsl l (Nullify_element n) = ce_link_list_nullify key_of dsl l n"
| "apply_list_change key_of dsl l (Move_element a b) = ce_list_move key_of dsl l a b"
| "apply_list_change key_of dsl l (Swap_elements a b) = ce_list_swap key_of dsl l a b"
| "apply_list_change key_of dsl l (Erase_element n) = ce_list_erase key_of dsl l n"

fun apply_change :: "(nat \<Rightarrow> int) \<Rightarrow> do_select_table \<Rightarrow> do_select_list \<Rightarrow> change \<Rightarrow> conv_encoder \<Rightarrow> conv_encoder action" where
  "apply_change key_of dst dsl (Insert_table k) = ce_insert_group_level_table k"
| "apply_change key_of dst dsl (Erase_table k) = ce_erase_group_level_table k"
| "apply_change key_of dst dsl (Rename_table k) = ce_rename_group_level_table k"
| "apply_change key_of dst dsl (In_table t c) = apply_table_change dst t c"
| "apply_change key_of dst dsl (In_list l c) = apply_list_change key_of dsl l c"
| "apply_change key_of dst dsl Reset_caches = (\<lambda>s. ok (reset_selection_caches s))"

fun apply_changes :: "(nat \<Rightarrow> int) \<Rightarrow> do_select_table \<Rightarrow> do_select_list \<Rightarrow> change list \<Rightarrow> conv_encoder \<Rightarrow> conv_encoder action" where
  "apply_changes key_of dst dsl [] s = ok s"
| "apply_changes key_of dst dsl (c # cs) s = andthen (apply_change key_of dst dsl c s) (apply_changes key_of dst dsl cs)"

text \<open>The instruction a change is meant to become, if any.\<close>

fun table_call :: "table_change \<Rightarrow> call option" where
  "table_call (Insert_column_of c) = Some (Insert_column c)"
| "table_call (Erase_column_of c) = Some (Erase_column c)"
| "table_call (Rename_column_of c) = Some (Rename_column c)"
| "table_call (Set_value c k v) = (if v = instr_SetDefault then None else Some (Modify_object c k))"
| "table_call (Add_int c k) = Some (Modify_object c k)"
| "table_call (Nullify_link c k) = Some (Modify_object c k)"
| "table_call (Insert_substring c k n) = (if n = 0 then None else Some (Modify_object c k))"
| "table_call (Erase_substring c k n) = (if n = 0 then None else Some (Modify_object c k))"
| "table_call (Create k) = Some (Create_object k)"
| "table_call (Remove k) = Some (Remove_object k)"
| "table_call (Set_link_type_of c) = Some (Set_link_type c)"
| "table_call (Clear n) = Some (Clear_table n)"

fun list_call :: "list_change \<Rightarrow> call" where
  "list_call (Set_element n) = List_set n"
| "list_call (Insert_element n) = List_insert n"
| "list_call (Set_null_element n) = List_set n"
| "list_call (Insert_null_element n) = List_insert n"
| "list_call (Set_link_element n) = List_set n"
| "list_call (Insert_link_element n) = List_insert n"
| "list_call (Nullify_element n) = List_erase n"
| "list_call (Move_element a b) = List_move a b"
| "list_call (Swap_elements a b) = List_swap a b"
| "list_call (Erase_element n) = List_erase n"

fun intended :: "(nat \<Rightarrow> int) \<Rightarrow> change \<Rightarrow> (selection \<times> call) list" where
  "intended key_of (Insert_table k) = [((None, None), Insert_group_level_table k)]"
| "intended key_of (Erase_table k) = [((None, None), Erase_group_level_table k)]"
| "intended key_of (Rename_table k) = [((None, None), Rename_group_level_table k)]"
| "intended key_of (In_table t c) = (case table_call c of None \<Rightarrow> [] | Some x \<Rightarrow> [((Some (key_of t), None), x)])"
| "intended key_of (In_list l c) = [((Some (key_of (lst_table l)), Some (lst_col l, lst_obj l)), list_call c)]"
| "intended key_of Reset_caches = []"

end
