(* ===== verification/TransactConvenientCorrect.thy ===== *)
theory TransactConvenientCorrect
  imports TransactConvenient
begin

text \<open>
  The log of the convenient encoder says what was changed: every change is an instruction in the
  log, with the table and the list it concerns selected, although selections are left out when the
  cache knows them.
\<close>

section \<open>The contract of the selections\<close>

text \<open>
  \<open>do_select_table\<close> writes the selection of the table and remembers it; \<open>do_select_list\<close> first
  selects the table of the list, if it is not selected already.
\<close>

definition lst_ok :: "(nat \<Rightarrow> int) \<Rightarrow> lst \<Rightarrow> bool" where
  "lst_ok key_of l \<longleftrightarrow> fits uint32 (key_of (lst_table l)) \<and> fits int64 (lst_col l) \<and> fits int64 (lst_obj l) \<and>
     link_list_id key_of l \<noteq> null_list_id"

definition writes :: "conv_encoder action \<Rightarrow> byte list \<Rightarrow> call list \<Rightarrow> (conv_encoder \<Rightarrow> bool) \<Rightarrow> bool" where
  "writes m log cs Q \<longleftrightarrow> yields m (\<lambda>s'. Q s' \<and>
     (\<exists>bss. list_all2 reads_back cs bss \<and> length (concat bss) \<le> 32 * length cs \<and> enc_ok (ce_encoder s') (log @ concat bss)))"

definition list_selection :: "(nat \<Rightarrow> int) \<Rightarrow> lst \<Rightarrow> conv_encoder \<Rightarrow> call list" where
  "list_selection key_of l s =
     (if selected_table s = Some (lst_table l) then [] else [Select_table (key_of (lst_table l))]) @
     [Select_list (lst_col l) (lst_obj l)]"

definition selecting_ok :: "(nat \<Rightarrow> int) \<Rightarrow> do_select_table \<Rightarrow> do_select_list \<Rightarrow> bool" where
  "selecting_ok key_of dst dsl \<longleftrightarrow>
     (\<forall>t s log. fits uint32 (key_of t) \<longrightarrow> enc_ok (ce_encoder s) log \<longrightarrow> length log + 32 < 2 ^ 64 \<longrightarrow>
        writes (dst t s) log [Select_table (key_of t)] (\<lambda>s'. selected_table s' = Some t)) \<and>
     (\<forall>l s log. lst_ok key_of l \<longrightarrow> enc_ok (ce_encoder s) log \<longrightarrow> length log + 64 < 2 ^ 64 \<longrightarrow>
        writes (dsl l s) log (list_selection key_of l s)
          (\<lambda>s'. selected_table s' = Some (lst_table l) \<and> selected_list s' = link_list_id key_of l))"

section \<open>Operations as selections and calls\<close>

lemma apply_table_change_eq:
  "apply_table_change dst t ch s =
     (case table_call ch of None \<Rightarrow> ok s
      | Some c \<Rightarrow> andthen (ce_select_table dst t s) (with_encoder (encode_call st sl c)))"
  by (cases ch)
    (simp_all add: ce_insert_column_def ce_erase_column_def ce_rename_column_def ce_set_value_def ce_add_int_def ce_do_set_def
      ce_nullify_link_def ce_insert_substring_def ce_erase_substring_def ce_create_object_def ce_remove_object_def
      ce_set_link_type_def ce_clear_table_def)

lemma apply_list_change_eq:
  "apply_list_change key_of dsl l ch s =
     andthen (ce_select_list key_of dsl l s) (with_encoder (encode_call st sl (list_call ch)))"
  by (cases ch)
    (simp_all add: ce_list_set_value_def ce_list_insert_value_def ce_list_set_null_def ce_list_insert_null_def
      ce_list_set_link_def ce_list_insert_link_def ce_link_list_nullify_def ce_list_move_def ce_list_swap_def ce_list_erase_def)

lemma table_call_kind: "table_call ch = Some c \<Longrightarrow> \<not> is_select c \<and> \<not> is_group_op c \<and> \<not> is_list_op c"
  by (cases ch) (auto split: if_splits)

lemma list_call_kind: "\<not> is_select (list_call ch) \<and> \<not> is_group_op (list_call ch) \<and> is_list_op (list_call ch)"
  by (cases ch) auto

section \<open>The invariant\<close>

text \<open>
  The log written so far, as calls; the cache agrees with the selection the log ends with.
\<close>

definition cinv :: "(nat \<Rightarrow> int) \<Rightarrow> conv_encoder \<Rightarrow> nat \<Rightarrow> call list \<Rightarrow> (selection \<times> call) list \<Rightarrow> bool" where
  "cinv key_of s n cs E \<longleftrightarrow>
     (\<exists>bss. list_all2 reads_back cs bss \<and> enc_ok (ce_encoder s) (concat bss) \<and> length (concat bss) \<le> 32 * n) \<and>
     well_scoped (None, None) cs \<and> located (None, None) cs = E \<and>
     (\<forall>t. selected_table s = Some t \<longrightarrow> fst (fold select cs (None, None)) = Some (key_of t)) \<and>
     (selected_list s = null_list_id \<or> (\<exists>tk k c. selected_list s = (tk, k, c) \<and>
        fold select cs (None, None) = (Some tk, Some (c, k))))"

lemma cinv_new: "cinv key_of new_conv_encoder 0 [] []"
  by (auto simp: cinv_def new_conv_encoder_def enc_ok_new intro!: exI[of _ "[]"])

lemma cinv_unselect: "cinv key_of s n cs E \<Longrightarrow> cinv key_of (unselect_all s) n cs E"
  by (simp add: cinv_def unselect_all_def)

lemma cinv_log: "cinv key_of s n cs E \<Longrightarrow> \<exists>log bss. enc_ok (ce_encoder s) log \<and> length log \<le> 32 * n \<and>
    list_all2 reads_back cs bss \<and> log = concat bss"
  by (auto simp: cinv_def)

text \<open>Calls written behind the log.\<close>

lemma cinv_writes:
  assumes "cinv key_of s n cs E" "\<And>log. enc_ok (ce_encoder s) log \<Longrightarrow> length log \<le> 32 * n \<Longrightarrow> writes m log ds Q"
    and "well_scoped (fold select cs (None, None)) ds" "located (fold select cs (None, None)) ds = F"
    and "\<And>s'. Q s' \<Longrightarrow> (\<forall>t. selected_table s' = Some t \<longrightarrow> fst (fold select ds (fold select cs (None, None))) = Some (key_of t)) \<and>
      (selected_list s' = null_list_id \<or> (\<exists>tk k c. selected_list s' = (tk, k, c) \<and>
        fold select ds (fold select cs (None, None)) = (Some tk, Some (c, k))))"
  shows "yields m (\<lambda>s'. cinv key_of s' (n + length ds) (cs @ ds) (E @ F) \<and> Q s')"
proof -
  obtain bss where bss: "list_all2 reads_back cs bss" "enc_ok (ce_encoder s) (concat bss)" "length (concat bss) \<le> 32 * n"
    and ws: "well_scoped (None, None) cs" "located (None, None) cs = E"
    using assms(1) by (auto simp: cinv_def)
  from assms(2)[OF bss(2,3)] show ?thesis
    unfolding writes_def
  proof (rule yields_mono)
    fix s'
    assume "Q s' \<and> (\<exists>css. list_all2 reads_back ds css \<and> length (concat css) \<le> 32 * length ds \<and>
      enc_ok (ce_encoder s') (concat bss @ concat css))"
    then obtain css where q: "Q s'" and css: "list_all2 reads_back ds css" "length (concat css) \<le> 32 * length ds"
        "enc_ok (ce_encoder s') (concat bss @ concat css)" by blast
    have "\<exists>bss. list_all2 reads_back (cs @ ds) bss \<and> enc_ok (ce_encoder s') (concat bss) \<and>
        length (concat bss) \<le> 32 * (n + length ds)"
      using bss(1,3) css by (intro exI[of _ "bss @ css"]) (auto intro: list_all2_appendI)
    then show "cinv key_of s' (n + length ds) (cs @ ds) (E @ F) \<and> Q s'"
      using assms(3-4) assms(5)[OF q] ws q unfolding cinv_def well_scoped_append located_append fold_append comp_def by simp
  qed
qed

lemma cinv_mono: "cinv key_of s n cs E \<Longrightarrow> n \<le> m \<Longrightarrow> cinv key_of s m cs E"
  by (fastforce simp: cinv_def)

text \<open>One instruction, with what it needs selected.\<close>

lemma with_encoder_writes:
  assumes "call_ok c" "\<not> is_select c" "enc_ok (ce_encoder s) log" "length log + 32 < 2 ^ 64"
  shows "writes (with_encoder (encode_call st sl c) s) log [c]
    (\<lambda>s'. selected_table s' = selected_table s \<and> selected_list s' = selected_list s)"
proof -
  have b: "length (arg_bytes (call_args c)) \<le> 21" "max_size_list (call_args c) \<le> 21"
    using length_arg_bytes[OF call_args_ok(1)[OF assms(1)]] call_args_ok(2)[of c] assms(1) by (auto intro: order_trans)
  have "yields (encode_call st sl c (ce_encoder s)) (\<lambda>e. enc_ok e (log @ arg_bytes (call_args c)))"
    unfolding encode_call_eq[OF assms(1,2)]
    using b assms(4) by (intro append_simple_instr_props[OF assms(3) call_args_ok(1)[OF assms(1)]]) linarith
  then show ?thesis
    unfolding writes_def with_encoder_def
    using call_reads_back[OF assms(1,2)] b(1)
    by (auto simp: yields_iff intro!: exI[of _ "[arg_bytes (call_args c)]"])
qed

lemma cinv_call:
  assumes "cinv key_of s n cs E" "call_ok c" "\<not> is_select c" "32 * n + 32 < 2 ^ 64"
    and "well_placed c (fold select cs (None, None))" "\<not> is_group_op c \<or> selected_table s = None \<and> selected_list s = null_list_id"
  shows "yields (with_encoder (encode_call st sl c) s)
    (\<lambda>s'. cinv key_of s' (n + 1) (cs @ [c]) (E @ [(place c (fold select cs (None, None)), c)]))"
proof -
  let ?x = "fold select cs (None, None)"
  have same: "select c ?x = ?x" if "\<not> is_group_op c" using that assms(3) by (cases c) auto
  let ?Q = "\<lambda>s'. selected_table s' = selected_table s \<and> selected_list s' = selected_list s"
  have "yields (with_encoder (encode_call st sl c) s)
      (\<lambda>s'. cinv key_of s' (n + length [c]) (cs @ [c]) (E @ [(place c ?x, c)]) \<and> ?Q s')"
  proof (rule cinv_writes[OF assms(1)])
    show "writes (with_encoder (encode_call st sl c) s) log [c] ?Q"
      if "enc_ok (ce_encoder s) log" "length log \<le> 32 * n" for log
      using that(2) assms(4) by (intro with_encoder_writes[OF assms(2,3) that(1)]) linarith
    show "well_scoped ?x [c]" using assms(3,5) by (cases c) auto
    show "located ?x [c] = [(place c ?x, c)]" using assms(3) by simp
    show "(\<forall>t. selected_table s' = Some t \<longrightarrow> fst (fold select [c] ?x) = Some (key_of t)) \<and>
        (selected_list s' = null_list_id \<or> (\<exists>tk k c'. selected_list s' = (tk, k, c') \<and>
          fold select [c] ?x = (Some tk, Some (c', k))))" if "?Q s'" for s'
      using that assms(1,6) same by (auto simp: cinv_def)
  qed
  then show ?thesis by (auto elim!: yields_mono)
qed

text \<open>Selecting a table and a list.\<close>

lemma cinv_select_table:
  assumes "selecting_ok key_of dst dsl" "cinv key_of s n cs E" "fits uint32 (key_of t)" "32 * n + 32 < 2 ^ 64"
  shows "yields (ce_select_table dst t s)
    (\<lambda>s'. \<exists>ds. cinv key_of s' (n + 1) (cs @ ds) E \<and> fst (fold select (cs @ ds) (None, None)) = Some (key_of t))"
proof (cases "selected_table s = Some t")
  case True
  then have "cinv key_of (s\<lparr>selected_list := null_list_id\<rparr>) (n + 1) (cs @ []) E" 
    "fst (fold select (cs @ []) (None, None)) = Some (key_of t)"
    using cinv_mono[OF assms(2), of "n + 1"] by (auto simp: cinv_def)
  then show ?thesis using True by (simp add: ce_select_table_def) (rule exI[of _ "[]"], simp)
next
  case False
  let ?x = "fold select cs (None, None)" and ?c = "Select_table (key_of t)"
  let ?m = "andthen (dst t s) (\<lambda>s. ok (s\<lparr>selected_list := null_list_id\<rparr>))"
  have "yields ?m (\<lambda>s'. cinv key_of s' (n + length [?c]) (cs @ [?c]) (E @ []) \<and>
      (selected_table s' = Some t \<and> selected_list s' = null_list_id))"
  proof (rule cinv_writes[OF assms(2)])
    show "writes ?m log [?c] (\<lambda>s'. selected_table s' = Some t \<and> selected_list s' = null_list_id)"
      if "enc_ok (ce_encoder s) log" "length log \<le> 32 * n" for log
    proof -
      have "length log + 32 < 2 ^ 64" using that(2) assms(4) by linarith
      then have "writes (dst t s) log [?c] (\<lambda>s'. selected_table s' = Some t)"
        using assms(1,3) that(1) unfolding selecting_ok_def by blast
      then show ?thesis unfolding writes_def by (auto elim!: yields_mono)
    qed
  qed (auto simp: place_def)
  then have "yields ?m (\<lambda>s'. \<exists>ds. cinv key_of s' (n + 1) (cs @ ds) E \<and> fst (fold select (cs @ ds) (None, None)) = Some (key_of t))"
  proof (rule yields_mono)
    fix s'
    assume "cinv key_of s' (n + length [?c]) (cs @ [?c]) (E @ []) \<and> (selected_table s' = Some t \<and> selected_list s' = null_list_id)"
    then show "\<exists>ds. cinv key_of s' (n + 1) (cs @ ds) E \<and> fst (fold select (cs @ ds) (None, None)) = Some (key_of t)"
      by (intro exI[of _ "[?c]"]) simp
  qed
  then show ?thesis using False by (simp add: ce_select_table_def eq_commute)
qed

lemma cinv_select_list:
  assumes "selecting_ok key_of dst dsl" "cinv key_of s n cs E" "lst_ok key_of l" "32 * n + 64 < 2 ^ 64"
  shows "yields (ce_select_list key_of dsl l s) (\<lambda>s'. \<exists>ds. cinv key_of s' (n + 2) (cs @ ds) E \<and>
    fold select (cs @ ds) (None, None) = (Some (key_of (lst_table l)), Some (lst_col l, lst_obj l)))"
proof (cases "selected_list s = link_list_id key_of l")
  case True
  then have "fold select cs (None, None) = (Some (key_of (lst_table l)), Some (lst_col l, lst_obj l))"
    using assms(2,3) by (auto simp: cinv_def lst_ok_def link_list_id_def)
  then show ?thesis
    using True cinv_mono[OF assms(2), of "n + 2"] by (auto simp: ce_select_list_def intro!: exI[of _ "[]"])
next
  case False
  let ?x = "fold select cs (None, None)" and ?ds = "list_selection key_of l s"
  let ?Q = "\<lambda>s'. selected_table s' = Some (lst_table l) \<and> selected_list s' = link_list_id key_of l"
  have x: "fst ?x = Some (key_of (lst_table l))" if "selected_table s = Some (lst_table l)"
    using that assms(2) by (simp add: cinv_def)
  have f: "fold select ?ds ?x = (Some (key_of (lst_table l)), Some (lst_col l, lst_obj l))"
    using x by (simp add: list_selection_def)
  have "yields (dsl l s) (\<lambda>s'. cinv key_of s' (n + length ?ds) (cs @ ?ds) (E @ []) \<and> ?Q s')"
  proof (rule cinv_writes[OF assms(2)])
    show "writes (dsl l s) log ?ds ?Q" if "enc_ok (ce_encoder s) log" "length log \<le> 32 * n" for log
    proof -
      have "length log + 64 < 2 ^ 64" using that(2) assms(4) by linarith
      then show ?thesis using assms(1,3) that(1) unfolding selecting_ok_def by blast
    qed
    show "well_scoped ?x ?ds" using x by (auto simp: list_selection_def)
    show "located ?x ?ds = []" by (rule located_selects) (auto simp: list_selection_def)
  qed (use f in \<open>auto simp: link_list_id_def\<close>)
  then have "yields (dsl l s) (\<lambda>s'. \<exists>ds. cinv key_of s' (n + 2) (cs @ ds) E \<and>
      fold select (cs @ ds) (None, None) = (Some (key_of (lst_table l)), Some (lst_col l, lst_obj l)))"
  proof (rule yields_mono)
    fix s'
    assume "cinv key_of s' (n + length ?ds) (cs @ ?ds) (E @ []) \<and> ?Q s'"
    then show "\<exists>ds. cinv key_of s' (n + 2) (cs @ ds) E \<and>
        fold select (cs @ ds) (None, None) = (Some (key_of (lst_table l)), Some (lst_col l, lst_obj l))"
      using f by (intro exI[of _ ?ds]) (auto simp: list_selection_def elim!: cinv_mono)
  qed
  then show ?thesis using False by (simp add: ce_select_list_def eq_commute)
qed

section \<open>Changes\<close>

fun change_ok :: "(nat \<Rightarrow> int) \<Rightarrow> change \<Rightarrow> bool" where
  "change_ok key_of (In_table t c) \<longleftrightarrow>
     fits uint32 (key_of t) \<and> (case table_call c of None \<Rightarrow> True | Some x \<Rightarrow> call_ok x)"
| "change_ok key_of (In_list l c) \<longleftrightarrow> lst_ok key_of l \<and> call_ok (list_call c)"
| "change_ok key_of (Insert_table k) \<longleftrightarrow> fits uint32 k"
| "change_ok key_of (Erase_table k) \<longleftrightarrow> fits uint32 k"
| "change_ok key_of (Rename_table k) \<longleftrightarrow> fits uint32 k"
| "change_ok key_of Reset_caches \<longleftrightarrow> True"

text \<open>Writing a call behind its selection; \<open>st\<close> and \<open>sl\<close> do not matter, as the call is no selection.\<close>

lemma cinv_placed_call:
  assumes "yields m (\<lambda>s'. \<exists>ds. cinv key_of s' k (cs @ ds) E \<and> P (fold select (cs @ ds) (None, None)))"
    and "call_ok c" "\<not> is_select c" "\<not> is_group_op c" "32 * k + 32 < 2 ^ 64"
    and "\<And>x. P x \<Longrightarrow> well_placed c x \<and> place c x = y"
  shows "yields (andthen m (with_encoder (encode_call st sl c)))
    (\<lambda>s'. \<exists>ds. cinv key_of s' (k + 1) (cs @ ds) (E @ [(y, c)]))"
proof -
  obtain s' ds where s': "m = ok s'" "cinv key_of s' k (cs @ ds) E" "P (fold select (cs @ ds) (None, None))"
    using assms(1) unfolding yields_iff by blast
  have "yields (with_encoder (encode_call st sl c) s') (\<lambda>s'. cinv key_of s' (k + 1) ((cs @ ds) @ [c]) (E @ [(y, c)]))"
    using cinv_call[OF s'(2) assms(2,3,5), of st sl] assms(4) assms(6)[OF s'(3)] by simp
  then have "yields (with_encoder (encode_call st sl c) s') (\<lambda>s'. \<exists>ds. cinv key_of s' (k + 1) (cs @ ds) (E @ [(y, c)]))"
    by (rule yields_mono) (intro exI[of _ "ds @ [c]"], simp)
  then show ?thesis using s'(1) by simp
qed

lemma cinv_group_call:
  assumes "cinv key_of s n cs E" "call_ok c" "is_group_op c" "32 * n + 32 < 2 ^ 64"
  shows "yields (with_encoder (encode_call st sl c) (unselect_all s)) (\<lambda>s'. \<exists>ds. cinv key_of s' (n + 1) (cs @ ds) (E @ [((None, None), c)]))"
proof -
  have "\<not> is_select c" "well_placed c (fold select cs (None, None))" "place c (fold select cs (None, None)) = (None, None)"
    using assms(3) by (cases c; simp add: well_placed_def place_def)+
  then show ?thesis
    using cinv_call[OF cinv_unselect[OF assms(1)] assms(2) _ assms(4), of st sl]
    by (auto simp: unselect_all_def elim!: yields_mono)
qed

lemma cinv_change:
  assumes "selecting_ok key_of dst dsl" "cinv key_of s n cs E" "change_ok key_of ch" "32 * n + 96 < 2 ^ 64"
  shows "yields (apply_change key_of dst dsl ch s) (\<lambda>s'. \<exists>ds. cinv key_of s' (n + 3) (cs @ ds) (E @ intended key_of ch))"
proof -
  let ?st = "\<lambda>k e. ok e" and ?sl = "\<lambda>c k e. ok e"
  have widen: "yields m (\<lambda>s'. \<exists>ds. cinv key_of s' (n + 3) (cs @ ds) F)"
    if "yields m (\<lambda>s'. \<exists>ds. cinv key_of s' k (cs @ ds) F)" "k \<le> n + 3" for m k F
    using that(1) by (rule yields_mono) (use cinv_mono that(2) in blast)
  have group: "yields (with_encoder (encode_call ?st ?sl c) (unselect_all s))
      (\<lambda>s'. \<exists>ds. cinv key_of s' (n + 3) (cs @ ds) (E @ [((None, None), c)]))" if "call_ok c" "is_group_op c" for c
    using assms(4) by (intro widen[OF cinv_group_call[OF assms(2) that]]) auto
  show ?thesis
  proof (cases ch)
    case (In_table t c)
    show ?thesis
    proof (cases "table_call c")
      case None
      then show ?thesis
        using In_table cinv_mono[OF assms(2), of "n + 3"] apply_table_change_eq[of dst t c s ?st ?sl]
        by (auto intro!: exI[of _ "[]"])
    next
      case (Some x)
      note k = table_call_kind[OF Some]
      have "yields (andthen (ce_select_table dst t s) (with_encoder (encode_call ?st ?sl x)))
          (\<lambda>s'. \<exists>ds. cinv key_of s' (n + 1 + 1) (cs @ ds) (E @ [((Some (key_of t), None), x)]))"
      proof (rule cinv_placed_call[where P = "\<lambda>x. fst x = Some (key_of t)"])
        show "yields (ce_select_table dst t s) (\<lambda>s'. \<exists>ds. cinv key_of s' (n + 1) (cs @ ds) E \<and>
            fst (fold select (cs @ ds) (None, None)) = Some (key_of t))"
          using assms(3,4) In_table by (intro cinv_select_table[OF assms(1,2)]) auto
      qed (use k assms(3,4) In_table Some in \<open>auto simp: well_placed_def place_def\<close>)
      then show ?thesis
        using widen In_table Some apply_table_change_eq[of dst t c s ?st ?sl] by fastforce
    qed
  next
    case (In_list l c)
    note k = list_call_kind[of c]
    have "yields (andthen (ce_select_list key_of dsl l s) (with_encoder (encode_call ?st ?sl (list_call c))))
        (\<lambda>s'. \<exists>ds. cinv key_of s' (n + 2 + 1) (cs @ ds) (E @ [((Some (key_of (lst_table l)), Some (lst_col l, lst_obj l)), list_call c)]))"
    proof (rule cinv_placed_call[where P = "\<lambda>x. x = (Some (key_of (lst_table l)), Some (lst_col l, lst_obj l))"])
      show "yields (ce_select_list key_of dsl l s) (\<lambda>s'. \<exists>ds. cinv key_of s' (n + 2) (cs @ ds) E \<and>
          fold select (cs @ ds) (None, None) = (Some (key_of (lst_table l)), Some (lst_col l, lst_obj l)))"
        using assms(3,4) In_list by (intro cinv_select_list[OF assms(1,2)]) auto
    qed (use k assms(3,4) In_list in \<open>auto simp: well_placed_def place_def\<close>)
    then show ?thesis
      using In_list widen apply_list_change_eq[of key_of dsl l c s ?st ?sl] by fastforce
  next
    case Reset_caches
    then show ?thesis
      using cinv_mono[OF cinv_unselect[OF assms(2)], of "n + 3"]
      by (auto simp: reset_selection_caches_def intro!: exI[of _ "[]"])
  next
    case (Insert_table k)
    then show ?thesis using group[of "Insert_group_level_table k"] assms(3) by (simp add: ce_insert_group_level_table_def)
  next
    case (Erase_table k)
    then show ?thesis using group[of "Erase_group_level_table k"] assms(3) by (simp add: ce_erase_group_level_table_def)
  next
    case (Rename_table k)
    then show ?thesis using group[of "Rename_group_level_table k"] assms(3) by (simp add: ce_rename_group_level_table_def)
  qed
qed

lemma cinv_changes:
  assumes "selecting_ok key_of dst dsl" "cinv key_of s n cs E" "\<forall>ch\<in>set chs. change_ok key_of ch"
    and "32 * n + 96 * length chs < 2 ^ 64"
  shows "yields (apply_changes key_of dst dsl chs s)
    (\<lambda>s'. \<exists>ds. cinv key_of s' (n + 3 * length chs) ds (E @ concat (map (intended key_of) chs)))"
  using assms(2-)
proof (induction chs arbitrary: s n cs E)
  case Nil
  then show ?case by auto
next
  case (Cons ch chs)
  have "32 * n + 96 < 2 ^ 64" using Cons.prems(3) by simp
  then obtain s' ds where s': "apply_change key_of dst dsl ch s = ok s'" "cinv key_of s' (n + 3) (cs @ ds) (E @ intended key_of ch)"
    using cinv_change[OF assms(1) Cons.prems(1), of ch] Cons.prems(2) unfolding yields_iff by auto
  have "32 * (n + 3) + 96 * length chs < 2 ^ 64" using Cons.prems(3) by simp
  then show ?case using Cons.IH[OF s'(2)] Cons.prems(2) s'(1) by (simp add: add.assoc)
qed

end
