(* ===== verification/TransactReverser.thy ===== *)
theory TransactReverser
  imports TransactLogParse
begin

text \<open>
  \<open>TransactReverser\<close> and \<open>ReversedNoCopyInputStream\<close> (realm/impl/transact_log.hpp): a handler that
  encodes the inverse of every instruction it receives and remembers where each one lies in its
  buffer, and a stream that delivers them last to first. Selections are held back (\<open>pending\<close>) and
  written behind the instructions they are for, so that they come before them in the
  reversed log.
\<close>

section \<open>The reverser\<close>

type_synonym instr_range = "nat \<times> nat"

record reverser =
  rv_encoder :: encoder
  instructions :: "instr_range list"
  current_instr_start :: nat
  pending_ts :: instr_range
  pending_ls :: instr_range

definition new_reverser :: reverser where
  "new_reverser = \<lparr>rv_encoder = new_encoder, instructions = [], current_instr_start = 0,
     pending_ts = (0, 0), pending_ls = (0, 0)\<rparr>"

definition null_key :: int where
  "null_key = - 1"

definition transact_log_size :: "reverser \<Rightarrow> nat" where
  "transact_log_size r = free_begin (rv_encoder r)"

definition get_inst :: "reverser \<Rightarrow> instr_range \<times> reverser" where
  "get_inst r = ((current_instr_start r, transact_log_size r), r\<lparr>current_instr_start := transact_log_size r\<rparr>)"

definition append_range_of :: "instr_range \<Rightarrow> reverser \<Rightarrow> reverser" where
  "append_range_of i r = r\<lparr>instructions := instructions r @ [i]\<rparr>"

definition append_instruction :: "reverser \<Rightarrow> reverser" where
  "append_instruction r = (let (i, r) = get_inst r in append_range_of i r)"

definition sync_list :: "reverser \<Rightarrow> reverser" where
  "sync_list r =
     (if fst (pending_ls r) \<noteq> snd (pending_ls r)
      then (append_range_of (pending_ls r) r)\<lparr>pending_ls := (0, 0)\<rparr> else r)"

definition sync_table :: "reverser \<Rightarrow> reverser" where
  "sync_table r =
     (let r = sync_list r in
      if fst (pending_ts r) \<noteq> snd (pending_ts r)
      then (append_range_of (pending_ts r) r)\<lparr>pending_ts := (0, 0)\<rparr> else r)"

text \<open>An instruction is encoded, and, in most operations, its range is appended.\<close>

definition emit :: "(encoder \<Rightarrow> encoder action) \<Rightarrow> reverser \<Rightarrow> reverser action" where
  "emit enc r = andthen (enc (rv_encoder r)) (\<lambda>e. ok (r\<lparr>rv_encoder := e\<rparr>))"

definition emit_append :: "(encoder \<Rightarrow> encoder action) \<Rightarrow> reverser \<Rightarrow> reverser action" where
  "emit_append enc r = andthen (emit enc r) (\<lambda>r. ok (append_instruction r))"

definition rev_select_table :: "select_table \<Rightarrow> int \<Rightarrow> reverser \<Rightarrow> reverser action" where
  "rev_select_table st key r =
     andthen (emit (st key) (sync_table r)) (\<lambda>r. let (i, r) = get_inst r in ok (r\<lparr>pending_ts := i\<rparr>))"

definition rev_insert_group_level_table :: "int \<Rightarrow> reverser \<Rightarrow> reverser action" where
  "rev_insert_group_level_table key r = emit_append (enc_erase_group_level_table key) (sync_table r)"

definition rev_erase_group_level_table :: "int \<Rightarrow> reverser \<Rightarrow> reverser action" where
  "rev_erase_group_level_table key r = emit_append (enc_insert_group_level_table key) (sync_table r)"

definition rev_rename_group_level_table :: "int \<Rightarrow> reverser \<Rightarrow> reverser action" where
  "rev_rename_group_level_table key r = ok (sync_table r)"

definition rev_create_object :: "int \<Rightarrow> reverser \<Rightarrow> reverser action" where
  "rev_create_object key = emit_append (enc_remove_object key)"

definition rev_remove_object :: "int \<Rightarrow> reverser \<Rightarrow> reverser action" where
  "rev_remove_object key = emit_append (enc_create_object key)"

definition rev_modify_object :: "int \<Rightarrow> int \<Rightarrow> reverser \<Rightarrow> reverser action" where
  "rev_modify_object col key = emit_append (enc_modify_object col key)"

definition rev_list_set :: "int \<Rightarrow> reverser \<Rightarrow> reverser action" where
  "rev_list_set ndx = emit_append (enc_list_set ndx)"

definition rev_list_insert :: "int \<Rightarrow> reverser \<Rightarrow> reverser action" where
  "rev_list_insert ndx = emit_append (enc_list_erase ndx)"

fun rev_clear_table :: "nat \<Rightarrow> reverser \<Rightarrow> reverser action" where
  "rev_clear_table 0 r = ok r"
| "rev_clear_table (Suc old_size) r =
     andthen (emit_append (enc_create_object null_key) r) (rev_clear_table old_size)"

definition rev_set_link_type :: "int \<Rightarrow> reverser \<Rightarrow> reverser action" where
  "rev_set_link_type col = emit (enc_set_link_type col)"

definition rev_insert_column :: "int \<Rightarrow> reverser \<Rightarrow> reverser action" where
  "rev_insert_column col = emit_append (enc_erase_column col)"

definition rev_erase_column :: "int \<Rightarrow> reverser \<Rightarrow> reverser action" where
  "rev_erase_column col = emit_append (enc_insert_column col)"

definition rev_rename_column :: "int \<Rightarrow> reverser \<Rightarrow> reverser action" where
  "rev_rename_column col = emit (enc_rename_column col)"

definition rev_select_list :: "select_list \<Rightarrow> int \<Rightarrow> int \<Rightarrow> reverser \<Rightarrow> reverser action" where
  "rev_select_list sl col key r =
     andthen (emit (sl col key) (sync_list r)) (\<lambda>r. let (i, r) = get_inst r in ok (r\<lparr>pending_ls := i\<rparr>))"

definition rev_list_move :: "int \<Rightarrow> int \<Rightarrow> reverser \<Rightarrow> reverser action" where
  "rev_list_move from to = emit_append (enc_list_move from to)"

definition rev_list_swap :: "int \<Rightarrow> int \<Rightarrow> reverser \<Rightarrow> reverser action" where
  "rev_list_swap a b = emit_append (enc_list_swap a b)"

definition rev_list_erase :: "int \<Rightarrow> reverser \<Rightarrow> reverser action" where
  "rev_list_erase ndx = emit_append (enc_list_insert ndx)"

fun rev_list_clear :: "nat \<Rightarrow> reverser \<Rightarrow> reverser action" where
  "rev_list_clear 0 r = ok r"
| "rev_list_clear (Suc i) r = andthen (emit_append (enc_list_insert (int i)) r) (rev_list_clear i)"

fun reverse_call :: "select_table \<Rightarrow> select_list \<Rightarrow> call \<Rightarrow> reverser \<Rightarrow> reverser action" where
  "reverse_call st sl (Select_table k) = rev_select_table st k"
| "reverse_call st sl (Select_list c k) = rev_select_list sl c k"
| "reverse_call st sl (Insert_group_level_table k) = rev_insert_group_level_table k"
| "reverse_call st sl (Erase_group_level_table k) = rev_erase_group_level_table k"
| "reverse_call st sl (Rename_group_level_table k) = rev_rename_group_level_table k"
| "reverse_call st sl (Create_object k) = rev_create_object k"
| "reverse_call st sl (Remove_object k) = rev_remove_object k"
| "reverse_call st sl (Modify_object c k) = rev_modify_object c k"
| "reverse_call st sl (Clear_table n) = rev_clear_table (nat n)"
| "reverse_call st sl (Insert_column c) = rev_insert_column c"
| "reverse_call st sl (Erase_column c) = rev_erase_column c"
| "reverse_call st sl (Rename_column c) = rev_rename_column c"
| "reverse_call st sl (Set_link_type c) = rev_set_link_type c"
| "reverse_call st sl (List_set n) = rev_list_set n"
| "reverse_call st sl (List_insert n) = rev_list_insert n"
| "reverse_call st sl (List_move a b) = rev_list_move a b"
| "reverse_call st sl (List_swap a b) = rev_list_swap a b"
| "reverse_call st sl (List_erase n) = rev_list_erase n"
| "reverse_call st sl (List_clear n) = rev_list_clear (nat n)"

text \<open>Every operation returns \<open>true\<close>.\<close>

definition reverser_handler :: "select_table \<Rightarrow> select_list \<Rightarrow> reverser handler" where
  "reverser_handler st sl c r = andthen (reverse_call st sl c r) (\<lambda>r. ok (True, r))"

section \<open>The reversed stream\<close>

record reversed_stream =
  instr_order :: "instr_range list"
  buffer_of :: "byte buffer"
  current :: nat

definition new_reversed_stream :: "reverser \<Rightarrow> reversed_stream" where
  "new_reversed_stream r =
     (let r = sync_table r
      in \<lparr>instr_order = instructions r, buffer_of = m_buffer (rv_encoder r), current = length (instructions r)\<rparr>)"

definition range_bytes :: "byte buffer \<Rightarrow> instr_range \<Rightarrow> byte list" where
  "range_bytes b i = map the (take (snd i - fst i) (drop (fst i) b))"

definition reversed_next_block :: "reversed_stream next_block" where
  "reversed_next_block s =
     (if current s \<noteq> 0 then
        let i = instr_order s ! (current s - 1); s = s\<lparr>current := current s - 1\<rparr>
        in (if fst i < snd i then Some (range_bytes (buffer_of s) i) else None, s)
      else (None, s))"

section \<open>What the reversed log says\<close>

text \<open>
  The reverser on calls instead of bytes. A block is a sequence of calls that the reversed stream
  delivers together; \<open>stray\<close> are calls encoded without a range of their own, which join the
  next block.
\<close>

record rev_calls =
  blocks :: "call list list"
  stray :: "call list"
  table_block :: "call list"
  list_block :: "call list"

definition no_rev_calls :: rev_calls where
  "no_rev_calls = \<lparr>blocks = [], stray = [], table_block = [], list_block = []\<rparr>"

definition put_block :: "call \<Rightarrow> rev_calls \<Rightarrow> rev_calls" where
  "put_block c a = a\<lparr>blocks := blocks a @ [stray a @ [c]], stray := []\<rparr>"

definition flush_list :: "rev_calls \<Rightarrow> rev_calls" where
  "flush_list a = (if list_block a \<noteq> [] then a\<lparr>blocks := blocks a @ [list_block a], list_block := []\<rparr> else a)"

definition flush_table :: "rev_calls \<Rightarrow> rev_calls" where
  "flush_table a = (let a = flush_list a in
     if table_block a \<noteq> [] then a\<lparr>blocks := blocks a @ [table_block a], table_block := []\<rparr> else a)"

fun rev_call :: "call \<Rightarrow> rev_calls \<Rightarrow> rev_calls" where
  "rev_call (Select_table k) a = (let a = flush_table a in a\<lparr>table_block := stray a @ [Select_table k], stray := []\<rparr>)"
| "rev_call (Select_list c k) a = (let a = flush_list a in a\<lparr>list_block := stray a @ [Select_list c k], stray := []\<rparr>)"
| "rev_call (Insert_group_level_table k) a = put_block (Erase_group_level_table k) (flush_table a)"
| "rev_call (Erase_group_level_table k) a = put_block (Insert_group_level_table k) (flush_table a)"
| "rev_call (Rename_group_level_table k) a = flush_table a"
| "rev_call (Create_object k) a = put_block (Remove_object k) a"
| "rev_call (Remove_object k) a = put_block (Create_object k) a"
| "rev_call (Modify_object c k) a = put_block (Modify_object c k) a"
| "rev_call (Clear_table n) a = fold put_block (replicate (nat n) (Create_object null_key)) a"
| "rev_call (Insert_column c) a = put_block (Erase_column c) a"
| "rev_call (Erase_column c) a = put_block (Insert_column c) a"
| "rev_call (Rename_column c) a = a\<lparr>stray := stray a @ [Rename_column c]\<rparr>"
| "rev_call (Set_link_type c) a = a\<lparr>stray := stray a @ [Set_link_type c]\<rparr>"
| "rev_call (List_set n) a = put_block (List_set n) a"
| "rev_call (List_insert n) a = put_block (List_erase n) a"
| "rev_call (List_move x y) a = put_block (List_move x y) a"
| "rev_call (List_swap x y) a = put_block (List_swap x y) a"
| "rev_call (List_erase n) a = put_block (List_insert n) a"
| "rev_call (List_clear n) a = fold put_block (map (\<lambda>i. List_insert (int i)) (rev [0..<nat n])) a"

definition reversed_calls :: "call list \<Rightarrow> call list" where
  "reversed_calls cs = concat (rev (blocks (flush_table (fold rev_call cs no_rev_calls))))"

end
