(* ===== verification/TransactReverserCorrect.thy ===== *)
theory TransactReverserCorrect
  imports TransactReverser
begin

text \<open>
  The reversed stream delivers what \<open>reversed_calls\<close> says: the reverser's byte ranges refine the
  blocks of calls.
\<close>

section \<open>Ranges of the log\<close>

definition slice :: "byte list \<Rightarrow> instr_range \<Rightarrow> byte list" where
  "slice log i = take (snd i - fst i) (drop (fst i) log)"

definition holds :: "byte list \<Rightarrow> call list \<Rightarrow> instr_range \<Rightarrow> bool" where
  "holds log cs i \<longleftrightarrow> fst i < snd i \<and> snd i \<le> length log \<and> (\<exists>bss. list_all2 reads_back cs bss \<and> slice log i = concat bss)"

definition pending_holds :: "byte list \<Rightarrow> call list \<Rightarrow> instr_range \<Rightarrow> bool" where
  "pending_holds log cs i \<longleftrightarrow> (if cs = [] then fst i = snd i else holds log cs i)"

definition rel :: "reverser \<Rightarrow> rev_calls \<Rightarrow> byte list \<Rightarrow> bool" where
  "rel r a log \<longleftrightarrow> enc_ok (rv_encoder r) log \<and> current_instr_start r \<le> length log \<and>
     (\<exists>bss. list_all2 reads_back (stray a) bss \<and> drop (current_instr_start r) log = concat bss) \<and>
     list_all2 (holds log) (blocks a) (instructions r) \<and>
     pending_holds log (table_block a) (pending_ts r) \<and> pending_holds log (list_block a) (pending_ls r)"

lemma holds_append: "holds log cs i \<Longrightarrow> holds (log @ x) cs i"
  by (auto simp: holds_def slice_def)

lemma pending_holds_append: "pending_holds log cs i \<Longrightarrow> pending_holds (log @ x) cs i"
  by (simp add: pending_holds_def holds_append split: if_splits)

lemma holds_all_append: "list_all2 (holds log) bs is \<Longrightarrow> list_all2 (holds (log @ x)) bs is"
  by (erule list_all2_mono) (rule holds_append)

lemma pending_holds_empty [simp]: "pending_holds log [] (0, 0)"
  by (simp add: pending_holds_def)

lemma rel_sync_list: "rel r a log \<Longrightarrow> rel (sync_list r) (flush_list a) log"
  by (auto simp: rel_def sync_list_def flush_list_def append_range_of_def pending_holds_def holds_def
      intro!: list_all2_appendI split: if_splits)

lemma rel_sync_table: "rel r a log \<Longrightarrow> rel (sync_table r) (flush_table a) log"
  using rel_sync_list[of r a log] unfolding sync_table_def flush_table_def Let_def
  by (auto simp: rel_def append_range_of_def pending_holds_def holds_def intro!: list_all2_appendI split: if_splits)

section \<open>One operation\<close>

text \<open>Room for \<open>k\<close> more encoded calls.\<close>

definition room :: "byte list \<Rightarrow> nat \<Rightarrow> bool" where
  "room log k \<longleftrightarrow> length log + 32 * k < 2 ^ 64"

definition grows :: "byte list \<Rightarrow> nat \<Rightarrow> byte list \<Rightarrow> bool" where
  "grows log k log' \<longleftrightarrow> length log' \<le> length log + 32 * k"

lemma rel_emit:
  assumes "rel r a log" "appends f bs" "reads_back c bs" "room log 1"
  shows "yields (emit f r) (\<lambda>r'. \<exists>log'. rel r' (a\<lparr>stray := stray a @ [c]\<rparr>) log' \<and> grows log 1 log')"
proof -
  obtain e where e: "f (rv_encoder r) = ok e" "enc_ok e (log @ bs)"
    using assms by (fastforce simp: rel_def appends_def room_def yields_iff)
  obtain bss where bss: "list_all2 reads_back (stray a) bss" "drop (current_instr_start r) log = concat bss"
      "current_instr_start r \<le> length log"
    using assms(1) by (auto simp: rel_def)
  then have "list_all2 reads_back (stray a @ [c]) (bss @ [bs])" "drop (current_instr_start r) (log @ bs) = concat (bss @ [bs])"
    using assms(3) by (auto intro: list_all2_appendI)
  then have "rel (r\<lparr>rv_encoder := e\<rparr>) (a\<lparr>stray := stray a @ [c]\<rparr>) (log @ bs)"
    using assms(1) e(2) unfolding rel_def
    by (auto simp: holds_all_append pending_holds_append simp del: concat_append)
  then show ?thesis using e(1) assms(2) by (auto simp: emit_def grows_def appends_def)
qed

text \<open>The calls encoded since the last range form the next one.\<close>

lemma rel_get_inst:
  assumes "rel r a log" "stray a \<noteq> []"
  shows "holds log (stray a) (current_instr_start r, transact_log_size r)"
    "rel (r\<lparr>current_instr_start := transact_log_size r\<rparr>) (a\<lparr>stray := []\<rparr>) log"
proof -
  obtain bss where bss: "list_all2 reads_back (stray a) bss" "drop (current_instr_start r) log = concat bss"
      "current_instr_start r \<le> length log" and e: "transact_log_size r = length log"
    using assms(1) by (auto simp: rel_def transact_log_size_def enc_ok_def)
  have "concat bss \<noteq> []"
    using bss(1) assms(2) reads_back_not_Nil by (cases "stray a"; cases bss) auto
  then have "current_instr_start r < length log" using bss(2,3) by (metis drop_all le_neq_implies_less order_refl)
  moreover have "slice log (current_instr_start r, transact_log_size r) = concat bss"
    unfolding slice_def e bss(2)[symmetric] by simp
  ultimately show "holds log (stray a) (current_instr_start r, transact_log_size r)" using bss(1) e by (auto simp: holds_def)
  show "rel (r\<lparr>current_instr_start := transact_log_size r\<rparr>) (a\<lparr>stray := []\<rparr>) log" using assms(1) e by (simp add: rel_def)
qed

lemma rel_append_instruction:
  assumes "rel r (a\<lparr>stray := s\<rparr>) log" "s \<noteq> []"
  shows "rel (append_instruction r) (a\<lparr>blocks := blocks a @ [s], stray := []\<rparr>) log"
  using rel_get_inst[OF assms(1)] assms(2)
  by (auto simp: append_instruction_def get_inst_def append_range_of_def rel_def intro!: list_all2_appendI)

lemma rel_emit_append:
  assumes "rel r a log" "appends f bs" "reads_back c bs" "room log 1"
  shows "yields (emit_append f r) (\<lambda>r'. \<exists>log'. rel r' (put_block c a) log' \<and> grows log 1 log')"
proof -
  obtain r' log' where r': "emit f r = ok r'" "rel r' (a\<lparr>stray := stray a @ [c]\<rparr>) log'" "grows log 1 log'"
    using rel_emit[OF assms] by (auto simp: yields_iff)
  have "rel (append_instruction r') (put_block c a) log'"
    using rel_append_instruction[OF r'(2)] by (simp add: put_block_def)
  then show ?thesis using r'(1,3) by (auto simp: emit_append_def)
qed

lemma rel_select_table:
  assumes "rel r a log" "appends (st k) bs" "reads_back (Select_table k) bs" "room log 1"
  shows "yields (rev_select_table st k r) (\<lambda>r'. \<exists>log'. rel r' (rev_call (Select_table k) a) log' \<and> grows log 1 log')"
proof -
  let ?a = "flush_table a"
  obtain r' log' where r': "emit (st k) (sync_table r) = ok r'" "rel r' (?a\<lparr>stray := stray ?a @ [Select_table k]\<rparr>) log'"
      "grows log 1 log'"
    using rel_emit[OF rel_sync_table[OF assms(1)] assms(2-)] by (auto simp: yields_iff)
  let ?i = "(current_instr_start r', transact_log_size r')"
  have "rel (r'\<lparr>current_instr_start := transact_log_size r', pending_ts := ?i\<rparr>) (rev_call (Select_table k) a) log'"
    using rel_get_inst[OF r'(2)] by (auto simp: rel_def pending_holds_def Let_def)
  then show ?thesis using r'(1,3) by (auto simp: rev_select_table_def get_inst_def)
qed

lemma rel_select_list:
  assumes "rel r a log" "appends (sl c k) bs" "reads_back (Select_list c k) bs" "room log 1"
  shows "yields (rev_select_list sl c k r) (\<lambda>r'. \<exists>log'. rel r' (rev_call (Select_list c k) a) log' \<and> grows log 1 log')"
proof -
  let ?a = "flush_list a"
  obtain r' log' where r': "emit (sl c k) (sync_list r) = ok r'" "rel r' (?a\<lparr>stray := stray ?a @ [Select_list c k]\<rparr>) log'"
      "grows log 1 log'"
    using rel_emit[OF rel_sync_list[OF assms(1)] assms(2-)] by (auto simp: yields_iff)
  let ?i = "(current_instr_start r', transact_log_size r')"
  have "rel (r'\<lparr>current_instr_start := transact_log_size r', pending_ls := ?i\<rparr>) (rev_call (Select_list c k) a) log'"
    using rel_get_inst[OF r'(2)] by (auto simp: rel_def pending_holds_def Let_def)
  then show ?thesis using r'(1,3) by (auto simp: rev_select_list_def get_inst_def)
qed

lemma rel_clear_table:
  assumes "appends (enc_create_object null_key) bs" "reads_back (Create_object null_key) bs" "rel r a log" "room log n"
  shows "yields (rev_clear_table n r)
    (\<lambda>r'. \<exists>log'. rel r' (fold put_block (replicate n (Create_object null_key)) a) log' \<and> grows log n log')"
  using assms(3,4)
proof (induction n arbitrary: r a log)
  case 0
  then show ?case by (auto simp: grows_def)
next
  case (Suc n)
  obtain r' log' where r': "emit_append (enc_create_object null_key) r = ok r'"
      "rel r' (put_block (Create_object null_key) a) log'" "grows log 1 log'"
    using rel_emit_append[OF Suc.prems(1) assms(1,2)] Suc.prems(2) by (auto simp: yields_iff room_def)
  have "room log' n" using Suc.prems(2) r'(3) by (simp add: room_def grows_def)
  from Suc.IH[OF r'(2) this] show ?case using r'(1,3) by (auto simp: grows_def elim!: yields_mono)
qed

lemma rel_list_clear:
  assumes "\<And>i. i < n \<Longrightarrow> \<exists>bs. appends (enc_list_insert (int i)) bs \<and> reads_back (List_insert (int i)) bs"
    and "rel r a log" "room log n"
  shows "yields (rev_list_clear n r)
    (\<lambda>r'. \<exists>log'. rel r' (fold put_block (map (\<lambda>i. List_insert (int i)) (rev [0..<n])) a) log' \<and> grows log n log')"
  using assms
proof (induction n arbitrary: r a log)
  case 0
  then show ?case by (auto simp: grows_def)
next
  case (Suc n)
  obtain bs where "appends (enc_list_insert (int n)) bs" "reads_back (List_insert (int n)) bs" using Suc.prems(1) by blast
  then obtain r' log' where r': "emit_append (enc_list_insert (int n)) r = ok r'"
      "rel r' (put_block (List_insert (int n)) a) log'" "grows log 1 log'"
    using rel_emit_append[OF Suc.prems(2)] Suc.prems(3) by (fastforce simp: yields_iff room_def)
  have "room log' n" using Suc.prems(3) r'(3) by (simp add: room_def grows_def)
  from Suc.IH[OF _ r'(2) this] Suc.prems(1) show ?case using r'(1,3) by (auto simp: grows_def elim!: yields_mono)
qed

text \<open>How many calls the inverse of a call consists of, at most.\<close>

fun weight :: "call \<Rightarrow> nat" where
  "weight (Clear_table n) = nat n" | "weight (List_clear n) = nat n" | "weight c = 1"

lemma rel_call:
  assumes "selects_ok st sl" "call_ok c" "rel r a log" "room log (weight c)"
  shows "yields (reverse_call st sl c r) (\<lambda>r'. \<exists>log'. rel r' (rev_call c a) log' \<and> grows log (weight c) log')"
proof -
  note app = encode_call_appends[OF assms(1)]
  have inv: "yields (emit_append (encode_call st sl c') r0) (\<lambda>r'. \<exists>log'. rel r' (put_block c' a0) log' \<and> grows log 1 log')"
    if "call_ok c'" "rel r0 a0 log" "room log 1" for c' r0 a0
    using app[OF that(1)] rel_emit_append[OF that(2) _ _ that(3)] by blast
  have str: "yields (emit (encode_call st sl c') r) (\<lambda>r'. \<exists>log'. rel r' (a\<lparr>stray := stray a @ [c']\<rparr>) log' \<and> grows log 1 log')"
    if "call_ok c'" "room log 1" for c'
    using app[OF that(1)] rel_emit[OF assms(3) _ _ that(2)] by blast
  show ?thesis
  proof (cases c)
    case (Select_table k)
    then show ?thesis using rel_select_table[OF assms(3)] assms(1,2,4) by (auto simp: selects_ok_def)
  next
    case (Select_list c' k)
    then obtain bs where "appends (sl c' k) bs" "reads_back (Select_list c' k) bs"
      using app[OF assms(2)] by auto
    then show ?thesis using rel_select_list[OF assms(3)] assms(4) Select_list by simp
  next
    case (Rename_group_level_table k)
    then show ?thesis using rel_sync_table[OF assms(3)] by (auto simp: rev_rename_group_level_table_def grows_def)
  next
    case (Clear_table n)
    have "\<exists>bs. appends (enc_create_object null_key) bs \<and> reads_back (Create_object null_key) bs"
      using app[of "Create_object null_key"] by (simp add: null_key_def fits_signed)
    then show ?thesis using rel_clear_table[OF _ _ assms(3), of _ "nat n"] assms(4) Clear_table by fastforce
  next
    case (List_clear n)
    have "\<exists>bs. appends (enc_list_insert (int i)) bs \<and> reads_back (List_insert (int i)) bs" if "i < nat n" for i
      using app[of "List_insert (int i)"] that assms(2) List_clear by (auto simp: fits_unsigned)
    then show ?thesis using rel_list_clear[OF _ assms(3), of "nat n"] assms(4) List_clear by simp
  next
    case (Insert_group_level_table k)
    then show ?thesis using inv[OF _ rel_sync_table[OF assms(3)], of "Erase_group_level_table k"] assms(2,4)
      by (simp add: rev_insert_group_level_table_def)
  next
    case (Erase_group_level_table k)
    then show ?thesis using inv[OF _ rel_sync_table[OF assms(3)], of "Insert_group_level_table k"] assms(2,4)
      by (simp add: rev_erase_group_level_table_def)
  next
    case (Create_object k)
    then show ?thesis using inv[OF _ assms(3), of "Remove_object k"] assms(2,4) by (simp add: rev_create_object_def)
  next
    case (Remove_object k)
    then show ?thesis using inv[OF _ assms(3), of "Create_object k"] assms(2,4) by (simp add: rev_remove_object_def)
  next
    case (Modify_object c' k)
    then show ?thesis using inv[OF _ assms(3), of "Modify_object c' k"] assms(2,4) by (simp add: rev_modify_object_def)
  next
    case (Insert_column k)
    then show ?thesis using inv[OF _ assms(3), of "Erase_column k"] assms(2,4) by (simp add: rev_insert_column_def)
  next
    case (Erase_column k)
    then show ?thesis using inv[OF _ assms(3), of "Insert_column k"] assms(2,4) by (simp add: rev_erase_column_def)
  next
    case (Rename_column k)
    then show ?thesis using str[of "Rename_column k"] assms(2,4) by (simp add: rev_rename_column_def)
  next
    case (Set_link_type k)
    then show ?thesis using str[of "Set_link_type k"] assms(2,4) by (simp add: rev_set_link_type_def)
  next
    case (List_set n)
    then show ?thesis using inv[OF _ assms(3), of "List_set n"] assms(2,4) by (simp add: rev_list_set_def)
  next
    case (List_insert n)
    then show ?thesis using inv[OF _ assms(3), of "List_erase n"] assms(2,4) by (simp add: rev_list_insert_def)
  next
    case (List_move x y)
    then show ?thesis using inv[OF _ assms(3), of "List_move x y"] assms(2,4) by (simp add: rev_list_move_def)
  next
    case (List_swap x y)
    then show ?thesis using inv[OF _ assms(3), of "List_swap x y"] assms(2,4) by (simp add: rev_list_swap_def)
  next
    case (List_erase n)
    then show ?thesis using inv[OF _ assms(3), of "List_insert n"] assms(2,4) by (simp add: rev_list_erase_def)
  qed
qed

lemma rel_new: "rel new_reverser no_rev_calls []"
  by (simp add: rel_def new_reverser_def no_rev_calls_def enc_ok_new)

lemma rel_calls:
  assumes "selects_ok st sl" "\<forall>c\<in>set cs. call_ok c" "rel r a log" "room log (sum_list (map weight cs))"
  shows "yields (run_calls (reverser_handler st sl) cs r) (\<lambda>r'. \<exists>log'. rel r' (fold rev_call cs a) log')"
  using assms(2-)
proof (induction cs arbitrary: r a log)
  case (Cons c cs)
  obtain r' log' where r': "reverse_call st sl c r = ok r'" "rel r' (rev_call c a) log'" "grows log (weight c) log'"
    using rel_call[OF assms(1) _ Cons.prems(2), of c] Cons.prems(1,3) by (auto simp: yields_iff room_def)
  have "room log' (sum_list (map weight cs))" using Cons.prems(3) r'(3) by (simp add: room_def grows_def)
  then show ?case using Cons.IH[OF _ r'(2)] Cons.prems(1) r'(1) by (simp add: reverser_handler_def)
qed auto


section \<open>The reversed stream\<close>

definition reversed_ok :: "reversed_stream \<Rightarrow> bool" where
  "reversed_ok s \<longleftrightarrow> current s \<le> length (instr_order s) \<and>
     (\<forall>i\<in>set (instr_order s). fst i < snd i \<and> snd i \<le> length (buffer_of s))"

definition reversed_contents :: "reversed_stream \<Rightarrow> byte list" where
  "reversed_contents s = concat (rev (map (range_bytes (buffer_of s)) (take (current s) (instr_order s))))"

lemma reversed_next_block_cases:
  assumes "reversed_ok s"
  shows "if current s = 0 then reversed_next_block s = (None, s)
    else \<exists>b. reversed_next_block s = (Some b, s\<lparr>current := current s - 1\<rparr>) \<and> b \<noteq> [] \<and>
      reversed_contents s = b @ reversed_contents (s\<lparr>current := current s - 1\<rparr>)"
proof (cases "current s")
  case (Suc k)
  let ?i = "instr_order s ! k"
  have k: "k < length (instr_order s)" using assms Suc by (simp add: reversed_ok_def)
  then have i: "fst ?i < snd ?i" "snd ?i \<le> length (buffer_of s)" using assms by (auto simp: reversed_ok_def)
  have "take (Suc k) (instr_order s) = take k (instr_order s) @ [?i]" using k by (rule take_Suc_conv_app_nth)
  moreover have "range_bytes (buffer_of s) ?i \<noteq> []" using i by (simp add: range_bytes_def)
  ultimately show ?thesis using Suc i by (simp add: reversed_next_block_def reversed_contents_def Let_def)
qed (simp add: reversed_next_block_def)

lemma reversed_ok_next: "reversed_ok s \<Longrightarrow> reversed_ok (s\<lparr>current := current s - 1\<rparr>)"
  by (auto simp: reversed_ok_def)

interpretation reversed: no_copy_input_stream reversed_next_block reversed_ok reversed_contents
proof
  fix s s' b
  assume ok: "reversed_ok s"
  show "reversed_contents s = [] \<and> reversed_ok s' \<and> reversed_contents s' = []"
    if "reversed_next_block s = (None, s')"
    using that reversed_next_block_cases[OF ok] ok by (auto simp: reversed_contents_def split: if_splits)
  show "b \<noteq> [] \<and> reversed_ok s' \<and> reversed_contents s = b @ reversed_contents s'"
    if "reversed_next_block s = (Some b, s')"
    using that reversed_next_block_cases[OF ok] reversed_ok_next[OF ok] by (auto split: if_splits)
qed

lemma range_bytes_slice:
  assumes "take (length log) b = map Some log" "snd i \<le> length log"
  shows "range_bytes b i = slice log i"
proof -
  have "take (snd i - fst i) (drop (fst i) b) = take (snd i - fst i) (drop (fst i) (take (length log) b))"
    using assms(2) by (simp add: drop_take min_def)
  then show ?thesis by (simp add: range_bytes_def slice_def assms(1) drop_map take_map comp_def)
qed

lemma holds_blocks:
  assumes "list_all2 (holds log) bs is"
  shows "\<exists>bss. list_all2 reads_back (concat (rev bs)) bss \<and> concat (rev (map (slice log) is)) = concat bss"
  using assms
proof (induction bs "is" rule: list_all2_induct)
  case (Cons b bs i "is")
  obtain bss where bss: "list_all2 reads_back (concat (rev bs)) bss" "concat (rev (map (slice log) is)) = concat bss"
    using Cons by blast
  obtain bss' where "list_all2 reads_back b bss'" "slice log i = concat bss'" using Cons.hyps(1) by (auto simp: holds_def)
  then show ?case using bss by (intro exI[of _ "bss @ bss'"]) (auto intro: list_all2_appendI)
qed simp

lemma reversed_stream_props:
  assumes "rel r a log"
  shows "reversed_ok (new_reversed_stream r) \<and>
    (\<exists>bss. list_all2 reads_back (concat (rev (blocks (flush_table a)))) bss \<and>
      reversed_contents (new_reversed_stream r) = concat bss)"
proof -
  let ?r = "sync_table r"
  have rel: "rel ?r (flush_table a) log" by (rule rel_sync_table[OF assms])
  then have h: "list_all2 (holds log) (blocks (flush_table a)) (instructions ?r)" and e: "enc_ok (rv_encoder ?r) log"
    by (auto simp: rel_def)
  have i: "fst i < snd i \<and> snd i \<le> length log" if "i \<in> set (instructions ?r)" for i
    using h that by (auto simp: list_all2_conv_all_nth in_set_conv_nth holds_def)
  have s: "new_reversed_stream r =
      \<lparr>instr_order = instructions ?r, buffer_of = m_buffer (rv_encoder ?r), current = length (instructions ?r)\<rparr>"
    by (simp add: new_reversed_stream_def Let_def)
  have "reversed_ok (new_reversed_stream r)" using i e by (force simp: s reversed_ok_def enc_ok_def)
  moreover have m: "map (range_bytes (m_buffer (rv_encoder ?r))) (instructions ?r) = map (slice log) (instructions ?r)"
    using i e by (intro map_cong refl range_bytes_slice) (auto simp: enc_ok_def)
  moreover have "reversed_contents (new_reversed_stream r) = concat (rev (map (slice log) (instructions ?r)))"
    by (simp add: s reversed_contents_def flip: m)
  ultimately show ?thesis using holds_blocks[OF h] by simp
qed

lemma reversed_log:
  assumes "selects_ok st sl" "\<forall>c\<in>set cs. call_ok c" "32 * sum_list (map weight cs) < 2 ^ 64"
  shows "yields (run_calls (reverser_handler st sl) cs new_reverser) (\<lambda>r.
    parse reversed_next_block handler (new_reversed_stream r) h = run_calls handler (reversed_calls cs) h)"
  using rel_calls[OF assms(1,2) rel_new] assms(3)
  by (auto simp: room_def reversed_calls_def elim!: yields_mono dest!: reversed_stream_props
      intro!: reversed.parse_reads_back)

end
