(* ===== verification/TransactReverserContexts.thy ===== *)
theory TransactReverserContexts
  imports TransactReverserCorrect TransactSelections
begin

text \<open>
  The order of a reversed log: what the reverser writes for an instruction stands in the reversed log
  in the opposite order and with the same table and list selected, although the selections
  themselves are written in another order than they were made.
\<close>

section \<open>What is written for an instruction\<close>

text \<open>The instructions that the reverser writes for an instruction, in the order in which they are read back. (Whether they undo it is not
  said here; see \<open>TransactReverserLists\<close>.) \<open>Rename_column\<close> and \<open>Set_link_type\<close> have no range of their own.\<close>

fun inverse_of :: "call \<Rightarrow> call list" where
  "inverse_of (Insert_group_level_table k) = [Erase_group_level_table k]"
| "inverse_of (Erase_group_level_table k) = [Insert_group_level_table k]"
| "inverse_of (Create_object k) = [Remove_object k]"
| "inverse_of (Remove_object k) = [Create_object k]"
| "inverse_of (Modify_object c k) = [Modify_object c k]"
| "inverse_of (Clear_table n) = replicate (nat n) (Create_object null_key)"
| "inverse_of (Insert_column c) = [Erase_column c]"
| "inverse_of (Erase_column c) = [Insert_column c]"
| "inverse_of (List_set n) = [List_set n]"
| "inverse_of (List_insert n) = [List_erase n]"
| "inverse_of (List_move x y) = [List_move x y]"
| "inverse_of (List_swap x y) = [List_swap x y]"
| "inverse_of (List_erase n) = [List_insert n]"
| "inverse_of (List_clear n) = map (\<lambda>i. List_insert (int i)) [0..<nat n]"
| "inverse_of _ = []"

fun has_block :: "call \<Rightarrow> bool" where
  "has_block (Rename_column c) = False" | "has_block (Set_link_type c) = False" | "has_block _ = True"

definition inverse_located :: "(selection \<times> call) list \<Rightarrow> (selection \<times> call) list" where
  "inverse_located xs = concat (map (\<lambda>(x, c). map (Pair x) (inverse_of c)) (rev xs))"

section \<open>The reversed log\<close>

text \<open>
  The blocks so far, read from the end, are the inverses of the instructions so far, with the
  current selection already made; the pending blocks are that selection.
\<close>

definition ann_ok :: "(selection \<times> call) list \<Rightarrow> bool" where
  "ann_ok E \<longleftrightarrow> (\<forall>(x, c)\<in>set E. well_placed c x)"

definition rinv :: "rev_calls \<Rightarrow> selection \<Rightarrow> (selection \<times> call) list \<Rightarrow> bool" where
  "rinv a x E \<longleftrightarrow> stray a = [] \<and>
     table_block a = (case fst x of None \<Rightarrow> [] | Some k \<Rightarrow> [Select_table k]) \<and>
     list_block a = (case snd x of None \<Rightarrow> [] | Some (c, k) \<Rightarrow> [Select_list c k]) \<and>
     (fst x = None \<longrightarrow> snd x = None) \<and>
     located x (concat (rev (blocks a))) = E \<and> ann_ok E"

lemma rinv_new: "rinv no_rev_calls (None, None) []"
  by (simp add: rinv_def no_rev_calls_def ann_ok_def)

text \<open>Writing the pending selections: the blocks then need no selection.\<close>

lemma flush_list_located:
  assumes "rinv a x E"
  shows "located (fst x, l) (concat (rev (blocks (flush_list a)))) = E" "list_block (flush_list a) = []"
    "table_block (flush_list a) = table_block a" "stray (flush_list a) = []"
proof -
  obtain t l0 where x: "x = (t, l0)" by (cases x)
  have "located (t, l) (concat (rev (blocks a))) = E" if "l0 = None"
    using assms that x located_no_list[of t "concat (rev (blocks a))" l] by (auto simp: rinv_def ann_ok_def)
  then show "located (fst x, l) (concat (rev (blocks (flush_list a)))) = E"
    using assms x by (cases l0) (auto simp: rinv_def flush_list_def)
qed (use assms in \<open>auto simp: rinv_def flush_list_def\<close>)

lemma flush_table_located:
  assumes "rinv a x E"
  shows "located (t, None) (concat (rev (blocks (flush_table a)))) = E" "list_block (flush_table a) = []"
    "table_block (flush_table a) = []" "stray (flush_table a) = []"
proof -
  note f = flush_list_located[OF assms]
  show "located (t, None) (concat (rev (blocks (flush_table a)))) = E"
  proof (cases "fst x")
    case None
    then have "located (t, None) (concat (rev (blocks (flush_list a)))) = E"
      using f(1)[of None] located_no_table[of None "concat (rev (blocks (flush_list a)))" t] assms
      by (auto simp: rinv_def ann_ok_def)
    then show ?thesis using None f(3) assms by (simp add: flush_table_def rinv_def Let_def)
  next
    case (Some k)
    then show ?thesis using f(1)[of None] f(3) assms by (simp add: flush_table_def rinv_def Let_def)
  qed
qed (use flush_list_located[OF assms] assms in \<open>auto simp: flush_table_def Let_def\<close>)

lemma put_block_rinv:
  assumes "rinv a x E" "\<not> is_select c" "\<not> is_group_op c" "well_placed c x"
  shows "rinv (put_block c a) x ((place c x, c) # E)"
proof -
  have "select c x = x" using assms(2,3) by (cases c) auto
  moreover have "well_placed c (place c x)" using assms(3,4) by (auto simp: well_placed_def place_def)
  ultimately show ?thesis using assms by (auto simp: rinv_def put_block_def ann_ok_def)
qed

lemma put_blocks_rinv:
  assumes "rinv a x E" "\<forall>c\<in>set cs. \<not> is_select c \<and> \<not> is_group_op c \<and> well_placed c x \<and> place c x = y"
  shows "rinv (fold put_block cs a) x (rev (map (Pair y) cs) @ E)"
  using assms
proof (induction cs arbitrary: a E)
  case (Cons c cs)
  then have "rinv (put_block c a) x ((y, c) # E)" using put_block_rinv[of a x E c] by auto
  from Cons.IH[OF this] Cons.prems(2) show ?case by simp
qed simp

lemma group_rinv:
  assumes "rinv a x E"
  shows "rinv (flush_table a) (None, None) E"
    "is_group_op c \<Longrightarrow> rinv (put_block c (flush_table a)) (None, None) (((None, None), c) # E)"
proof -
  note f = flush_table_located[OF assms]
  show "rinv (flush_table a) (None, None) E" using f assms by (simp add: rinv_def)
  assume g: "is_group_op c"
  then have "select c (None, None) = (None, None)" "\<not> is_select c" by (cases c; simp)+
  then show "rinv (put_block c (flush_table a)) (None, None) (((None, None), c) # E)"
    using f assms g by (auto simp: rinv_def put_block_def ann_ok_def place_def well_placed_def is_list_op.simps
        elim: is_group_op.elims)
qed

lemma rev_call_rinv:
  assumes "rinv a x E" "well_scoped x [c]" "has_block c"
  shows "rinv (rev_call c a) (select c x) (inverse_located (located x [c]) @ E)"
proof -
  have table: "rinv (fold put_block cs a) x (rev (map (Pair (fst x, None)) cs) @ E)"
    if "\<forall>c\<in>set cs. \<not> is_select c \<and> \<not> is_group_op c \<and> \<not> is_list_op c" "fst x \<noteq> None" for cs
    using that by (intro put_blocks_rinv[OF assms(1)]) (auto simp: well_placed_def place_def)
  have list: "rinv (fold put_block cs a) x (rev (map (Pair x) cs) @ E)"
    if "\<forall>c\<in>set cs. is_list_op c" "fst x \<noteq> None" "snd x \<noteq> None" for cs
  proof -
    have "\<not> is_select c \<and> \<not> is_group_op c" if "is_list_op c" for c using that by (cases c) auto
    then show ?thesis using that by (intro put_blocks_rinv[OF assms(1)]) (auto simp: well_placed_def place_def)
  qed
  note ev = inverse_located_def place_def
  show ?thesis
  proof (cases c)
    case (Select_table k)
    then show ?thesis using flush_table_located[OF assms(1)] assms(1)
      by (auto simp: rinv_def ev Let_def)
  next
    case (Select_list cl k)
    then show ?thesis using flush_list_located[OF assms(1)] assms by (auto simp: rinv_def ev Let_def)
  next
    case (Insert_group_level_table k)
    then show ?thesis using group_rinv(2)[OF assms(1), of "Erase_group_level_table k"] by (simp add: ev)
  next
    case (Erase_group_level_table k)
    then show ?thesis using group_rinv(2)[OF assms(1), of "Insert_group_level_table k"] by (simp add: ev)
  next
    case (Rename_group_level_table k)
    then show ?thesis using group_rinv(1)[OF assms(1)] by (simp add: ev)
  next
    case (Create_object k)
    then show ?thesis using table[of "[Remove_object k]"] assms(2) by (simp add: ev well_placed_def)
  next
    case (Remove_object k)
    then show ?thesis using table[of "[Create_object k]"] assms(2) by (simp add: ev well_placed_def)
  next
    case (Modify_object cl k)
    then show ?thesis using table[of "[Modify_object cl k]"] assms(2) by (simp add: ev well_placed_def)
  next
    case (Clear_table n)
    then show ?thesis using table[of "replicate (nat n) (Create_object null_key)"] assms(2)
      by (simp add: ev well_placed_def rev_map[symmetric])
  next
    case (Insert_column k)
    then show ?thesis using table[of "[Erase_column k]"] assms(2) by (simp add: ev well_placed_def)
  next
    case (Erase_column k)
    then show ?thesis using table[of "[Insert_column k]"] assms(2) by (simp add: ev well_placed_def)
  next
    case (List_set n)
    then show ?thesis using list[of "[List_set n]"] assms(2) by (simp add: ev well_placed_def)
  next
    case (List_insert n)
    then show ?thesis using list[of "[List_erase n]"] assms(2) by (simp add: ev well_placed_def)
  next
    case (List_move m n)
    then show ?thesis using list[of "[List_move m n]"] assms(2) by (simp add: ev well_placed_def)
  next
    case (List_swap m n)
    then show ?thesis using list[of "[List_swap m n]"] assms(2) by (simp add: ev well_placed_def)
  next
    case (List_erase n)
    then show ?thesis using list[of "[List_insert n]"] assms(2) by (simp add: ev well_placed_def)
  next
    case (List_clear n)
    then show ?thesis using list[of "map (\<lambda>i. List_insert (int i)) (rev [0..<nat n])"] assms(2)
      by (auto simp: ev well_placed_def rev_map[symmetric])
  qed (use assms(3) in simp_all)
qed

text \<open>The whole log, instruction by instruction, from the last to the first.\<close>

lemma inverse_located_append: "inverse_located (xs @ ys) = inverse_located ys @ inverse_located xs"
  by (simp add: inverse_located_def)

lemma located_single: "located x (c # cs) = located x [c] @ located (select c x) cs"
  by simp

lemma well_scoped_single: "well_scoped x (c # cs) \<longleftrightarrow> well_scoped x [c] \<and> well_scoped (select c x) cs"
  by simp

lemma rev_calls_rinv:
  assumes "rinv a x E" "well_scoped x cs" "\<forall>c\<in>set cs. has_block c"
  shows "\<exists>y. rinv (fold rev_call cs a) y (inverse_located (located x cs) @ E)"
  using assms
proof (induction cs arbitrary: a x E)
  case Nil
  then show ?case by (intro exI[of _ x]) (simp add: inverse_located_def)
next
  case (Cons c cs)
  from Cons.prems(2) have w: "well_scoped x [c]" "well_scoped (select c x) cs"
    unfolding well_scoped_single[of x c cs] by simp_all
  have "rinv (rev_call c a) (select c x) (inverse_located (located x [c]) @ E)"
    using rev_call_rinv[OF Cons.prems(1) w(1)] Cons.prems(3) by simp
  from Cons.IH[OF this w(2)] Cons.prems(3) show ?case
    unfolding located_single[of x c cs] inverse_located_append by simp
qed

lemma located_reversed_calls:
  assumes "well_scoped (None, None) cs" "\<forall>c\<in>set cs. has_block c"
  shows "located (None, None) (reversed_calls cs) = inverse_located (located (None, None) cs)"
proof -
  obtain y where "rinv (fold rev_call cs no_rev_calls) y (inverse_located (located (None, None) cs) @ [])"
    using rev_calls_rinv[OF rinv_new assms] by blast
  from flush_table_located(1)[OF this, of None] show ?thesis by (simp add: reversed_calls_def)
qed

end
