(* ===== verification/TransactLogAnyInput.thy ===== *)
theory TransactLogAnyInput
  imports TransactLogParse
begin

text \<open>
  Arbitrary input: what the parser does with bytes nobody encoded. It never reads outside its
  blocks, every value it delivers is in the range of its type, every instruction uses up input,
  and the way the stream cuts the bytes into blocks does not matter.
\<close>

section \<open>Integers\<close>

lemma and_64_cases:
  fixes x :: int
  assumes "0 \<le> x" "x < 128"
  obtains w s where "x = w + s" "s = 0 \<or> s = 64" "0 \<le> w" "w < 64"
  using that[of x 0] that[of "x - 64" 64] assms by (cases "x < 64") auto

lemma decode_groups_any:
  assumes "c_type t" "7 \<le> digits t" "0 \<le> val" "val < 2 ^ (7 * i)" "i < max_bytes t"
  shows "decode_groups t (max_bytes t) i val bs = Some (Inl BadTransactLog) \<or>
    (\<exists>part w rest. decode_groups t (max_bytes t) i val bs = Some (Inr (part, w, rest)) \<and> 0 \<le> w \<and> w < 2 ^ digits t \<and>
      length rest < length bs)"
  using assms(3-)
proof (induction bs arbitrary: val i)
  case Nil
  then show ?case by simp
next
  case (Cons c cs)
  let ?x = "uint c"
  have x: "0 \<le> ?x" "?x < 256" using uint_lt2p[of c] by simp_all
  show ?case
  proof (cases "?x < 128")
    case True
    then obtain w s where w: "?x = w + s" "s = 0 \<or> s = 64" "0 \<le> w" "w < 64" using and_64_cases[OF x(1)] by blast
    show ?thesis
      using decode_last_group[OF assms(1,2) w(2) Cons.prems(1,2) w(3,4) Cons.prems(3) w(1)] Cons.prems(1) w(3) by auto
  next
    case False
    then have a: "?x AND 128 \<noteq> 0" using and_128_iff(1)[OF x] by simp
    show ?thesis
    proof (cases "i = max_bytes t - 1")
      case True
      then show ?thesis using a Cons.prems(3) by simp
    next
      case False
      let ?y = "?x mod 128"
      have i: "Suc i < max_bytes t" using False Cons.prems(3) by simp
      have y: "0 \<le> ?y" "?y < 128" by simp_all
      have lt: "?y * 2 ^ (7 * i) + 2 ^ (7 * i) \<le> 2 ^ (7 * Suc i)"
        using y mult_right_mono[of "?y + 1" 128 "2 ^ (7 * i)"] by (simp add: power_add algebra_simps)
      have "7 * Suc i \<le> digits t" using i max_bytes_bounds(2)[of t] by simp
      then have "?y * 2 ^ (7 * i) < 2 ^ digits t"
        using lt power_increasing[of "7 * Suc i" "digits t" "2 :: int"] by (smt (verit) zero_less_power)
      then have "conv t (push_bit (i * 7) ?y) = push_bit (i * 7) ?y"
        using fits_nonneg[of "?y * 2 ^ (7 * i)" t] y by (intro conv_fits) (simp add: push_bit_eq_mult mult.commute)
      moreover have "conv t ?y = ?y"
        using fits_nonneg[of ?y t] y power_increasing[OF assms(2), of "2 :: int"] by (intro conv_fits) (auto intro: order_less_le_trans)
      moreover have "val OR push_bit (i * 7) ?y = val + ?y * 2 ^ (7 * i)"
        using or_low[OF Cons.prems(1,2), of ?y] by (simp add: mult.commute)
      ultimately have "decode_groups t (max_bytes t) i val (c # cs) =
          decode_groups t (max_bytes t) (Suc i) (val + ?y * 2 ^ (7 * i)) cs"
        using a False Cons.prems(3) by (simp add: and_mask_mod)
      then show ?thesis
        using Cons.IH[of "val + ?y * 2 ^ (7 * i)" "Suc i"] lt Cons.prems(1,2) y i by fastforce
    qed
  qed
qed

lemma read_int_any:
  assumes "c_type t" "7 \<le> digits t"
  shows "read_int no_block t (bytes bs) = throw BadTransactLog \<or>
    (\<exists>v rest. read_int no_block t (bytes bs) = ok (v, bytes rest) \<and> fits t v \<and> length rest < length bs)"
proof -
  have m: "(7 + digits t) div 7 = max_bytes t" by (simp add: max_bytes_def add.commute)
  consider "decode_groups t (max_bytes t) 0 0 bs = Some (Inl BadTransactLog)"
    | part w rest where "decode_groups t (max_bytes t) 0 0 bs = Some (Inr (part, w, rest))" "0 \<le> w" "w < 2 ^ digits t"
      "length rest < length bs"
    using decode_groups_any[OF assms, of 0 0 bs] max_bytes_bounds(3)[of t] by auto
  then show ?thesis
  proof cases
    case 1
    then show ?thesis by (simp add: read_int_bytes decode_int_def m throw_def)
  next
    case 2
    then have w: "fits t w" by (intro fits_nonneg)
    have "fits t (conv t (- w))"
      using 2(2,3) assms wrap_neg[of "2 ^ digits t" "- w"]
      by (cases "is_signed t") (auto simp: conv_fits fits_signed fits_unsigned conv_unsigned)
    then have "int_subtract_with_overflow_detect t int_t (conv t (- w)) 1 = Some (checked t (conv t (- w)) (conv t (- w) - 1))"
      by (intro int_subtract_correct assms(1)) (simp_all add: fits_signed)
    then show ?thesis
      using 2(1,4) w by (auto simp: read_int_bytes decode_int_def m checked_def throw_def ok_def)
  qed
qed

section \<open>Instructions\<close>

text \<open>The parser aborts on one input only: a table selection with levels.\<close>

definition selects_levels :: "byte list \<Rightarrow> bool" where
  "selects_levels bs \<longleftrightarrow> (\<exists>c rest levels p. bs = c # rest \<and> instruction_of c = Some instr_SelectTable \<and>
     read_int no_block int_t (bytes rest) = ok (levels, p) \<and> levels \<noteq> 0)"

definition typed :: "call \<Rightarrow> bool" where
  "typed c \<longleftrightarrow> call_ok c \<or> (\<exists>a. c = List_move a a \<and> fits size_t a)"

lemma read1_any:
  assumes "c_type t" "7 \<le> digits t" "\<And>v. fits t v \<Longrightarrow> typed (f v)"
  shows "read1 no_block t f (bytes bs) = throw BadTransactLog \<or>
    (\<exists>c rest. read1 no_block t f (bytes bs) = ok (c, bytes rest) \<and> typed c \<and> length rest < length bs)"
  using read_int_any[OF assms(1,2), of bs] assms(3) by (auto simp: read1_def)

lemma read2_any:
  assumes "c_type t" "7 \<le> digits t" "\<And>v w. fits t v \<Longrightarrow> fits t w \<Longrightarrow> typed (f v w)"
  shows "read2 no_block t f (bytes bs) = throw BadTransactLog \<or>
    (\<exists>c rest. read2 no_block t f (bytes bs) = ok (c, bytes rest) \<and> typed c \<and> length rest < length bs)"
proof -
  consider "read_int no_block t (bytes bs) = throw BadTransactLog"
    | v rest where "read_int no_block t (bytes bs) = ok (v, bytes rest)" "fits t v" "length rest < length bs"
    using read_int_any[OF assms(1,2), of bs] by blast
  then show ?thesis
  proof cases
    case 2
    then show ?thesis using read_int_any[OF assms(1,2), of rest] assms(3) by (auto simp: read2_def)
  qed (simp add: read2_def)
qed

lemma read_call_any:
  assumes "i \<noteq> instr_SelectTable"
  shows "read_call no_block i (bytes bs) = throw BadTransactLog \<or>
    (\<exists>c rest. read_call no_block i (bytes bs) = ok (c, bytes rest) \<and> typed c \<and> length rest < length bs)"
  using assms
  by (cases i) (simp_all, (rule read1_any read2_any; simp add: typed_def)+)

lemma read_select_any:
  "(if \<exists>levels p. read_int no_block int_t (bytes bs) = ok (levels, p) \<and> levels \<noteq> 0
    then read_call no_block instr_SelectTable (bytes bs) = None
    else read_call no_block instr_SelectTable (bytes bs) = throw BadTransactLog \<or>
      (\<exists>c rest. read_call no_block instr_SelectTable (bytes bs) = ok (c, bytes rest) \<and> typed c \<and> length rest < length bs))"
proof -
  consider "read_int no_block int_t (bytes bs) = throw BadTransactLog"
    | v rest where "read_int no_block int_t (bytes bs) = ok (v, bytes rest)" "length rest < length bs"
    using read_int_any[of int_t bs] by (auto simp: int_t_def c_type_def)
  then show ?thesis
  proof cases
    case (2 v rest)
    then show ?thesis
      using read1_any[of uint32 Select_table rest]
      by (cases "v = 0") (auto simp: realm_assert_def typed_def)
  qed simp
qed

lemma read_instr_any:
  "(if selects_levels bs then read_instr no_block (bytes bs) = None
    else read_instr no_block (bytes bs) = throw BadTransactLog \<or>
      (\<exists>c rest. read_instr no_block (bytes bs) = ok (c, bytes rest) \<and> typed c \<and> length rest < length bs))"
proof (cases bs)
  case Nil
  then show ?thesis
    by (simp add: selects_levels_def read_instr_def read_char_def next_input_buffer_def no_block_def)
next
  case (Cons c cs)
  have r: "read_instr no_block (bytes bs) =
      (case instruction_of c of None \<Rightarrow> throw BadTransactLog | Some i \<Rightarrow> read_call no_block i (bytes cs))"
    by (simp add: Cons read_instr_def read_char_def)
  consider "instruction_of c = None" | "instruction_of c = Some instr_SelectTable"
    | i where "instruction_of c = Some i" "i \<noteq> instr_SelectTable" by (cases "instruction_of c") auto
  then show ?thesis
  proof cases
    case 1
    then show ?thesis using r by (simp add: selects_levels_def Cons)
  next
    case 2
    have sl: "selects_levels bs \<longleftrightarrow> (\<exists>levels p. read_int no_block int_t (bytes cs) = ok (levels, p) \<and> levels \<noteq> 0)"
      using 2 by (simp add: selects_levels_def Cons)
    have "length rest < length cs \<Longrightarrow> length rest < length bs" for rest :: "byte list" by (simp add: Cons)
    then show ?thesis using r read_select_any[of cs] 2 unfolding sl by (auto simp del: read_call.simps split: if_splits)
  next
    case 3
    then show ?thesis using r read_call_any[OF 3(2), of cs] by (auto simp: selects_levels_def Cons simp del: read_call.simps)
  qed
qed

section \<open>Logs\<close>

lemma parse_loop_memory_simps:
  "parse_loop no_block handler (bytes bs) h =
     (if bs = [] then ok h
      else andthen (read_instr no_block (bytes bs)) (\<lambda>(c, p). andthen (deliver handler c p h) (\<lambda>(p, h). parse_loop no_block handler p h)))"
  by (subst parse_loop.simps)
    (auto simp: has_next_def next_input_buffer_def no_block_def ok_def andthen_def parse_one_def split: sum.splits Option.bind_splits)

context no_copy_input_stream begin

lemma has_next_unread:
  assumes "parser_ok p"
  shows "if unread p = [] then \<exists>p'. has_next next_block p = (False, p')
    else \<exists>p'. has_next next_block p = (True, p') \<and> parser_ok p' \<and> unread p' = unread p"
  using next_input_buffer_cases[OF assms] assms by (cases "input p = []") (auto simp: has_next_def unread_def)

lemma parse_loop_in_memory:
  assumes "parser_ok p"
  shows "parse_loop next_block handler p h = parse_loop no_block handler (bytes (unread p)) h"
  using assms
proof (induction "length (unread p)" arbitrary: p h rule: less_induct)
  case less
  show ?case
  proof (cases "unread p = []")
    case True
    then show ?thesis
      using has_next_unread[OF less.prems] by (subst parse_loop.simps) (auto simp: parse_loop_memory_simps ok_def)
  next
    case False
    then obtain p' where p': "has_next next_block p = (True, p')" "parser_ok p'" "unread p' = unread p"
      using has_next_unread[OF less.prems] by auto
    have l: "parse_loop next_block handler p h = andthen (parse_one next_block handler p' h) (\<lambda>(p, h). parse_loop next_block handler p h)"
      using p'(1) by (subst parse_loop.simps) (simp add: andthen_def)
    have m: "matches (read_instr next_block p') (read_instr no_block (bytes (unread p)))"
      using p' by (intro matches_read_instr) simp_all
    consider "read_instr no_block (bytes (unread p)) = None" | "read_instr no_block (bytes (unread p)) = throw BadTransactLog"
      | c rest where "read_instr no_block (bytes (unread p)) = ok (c, bytes rest)" "length rest < length (unread p)"
      using read_instr_any[of "unread p"] by (auto split: if_splits)
    then show ?thesis
    proof cases
      case 3
      then obtain q where q: "read_instr next_block p' = ok (c, q)" "parser_ok q" "unread q = rest" using m by auto
      have "andthen (deliver handler c q h) (\<lambda>(p, h). parse_loop next_block handler p h) =
          andthen (deliver handler c (bytes rest) h) (\<lambda>(p, h). parse_loop no_block handler p h)"
      proof -
        have "parse_loop next_block handler q h' = parse_loop no_block handler (bytes rest) h'" for h'
          using less.hyps[of q h'] q 3(2) by simp
        then show ?thesis by (auto simp: deliver_def andthen_def ok_def throw_def split: sum.splits Option.bind_splits)
      qed
      then show ?thesis using l q(1) 3(1) False by (simp add: parse_one_def parse_loop_memory_simps[of _ "unread p"])
    qed (use l m False in \<open>simp_all add: parse_one_def parse_loop_memory_simps[of _ "unread p"]\<close>)
  qed
qed

end

end
