(* ===== verification/InputStreams.thy ===== *)
theory InputStreams
  imports TransactLogCodec
begin

text \<open>
  The streams of realm/impl/input_stream.hpp: what each of them delivers, block by block.
  Every \<open>NoCopyInputStream\<close> is an interpretation of \<open>no_copy_input_stream\<close>, so the parser's lemmas
  hold for all of them.
\<close>

section \<open>Streams that copy\<close>

text \<open>\<open>InputStream::read\<close>: some bytes, none only at the end of the input or when none are asked for.\<close>

type_synonym 's read = "'s \<Rightarrow> nat \<Rightarrow> byte list \<times> 's"

locale input_stream =
  fixes read :: "'s read" and contents :: "'s \<Rightarrow> byte list"
  assumes read_contents: "read s n = (bs, s') \<Longrightarrow> contents s = bs @ contents s' \<and> length bs \<le> n"
    and read_nonempty: "read s n = ([], s') \<Longrightarrow> 0 < n \<Longrightarrow> contents s = []"

definition simple_read :: "byte list read" where
  "simple_read s n = (let k = min n (length s) in (take k s, drop k s))"

interpretation simple_input: input_stream simple_read "\<lambda>s. s"
  by unfold_locales (auto simp: simple_read_def Let_def min_def split: if_splits)

section \<open>Streams that do not copy\<close>

text \<open>\<open>NoCopyInputStreamAdaptor\<close>: an \<open>InputStream\<close> read in pieces of the size of its buffer.\<close>

definition adaptor_next_block :: "'s read \<Rightarrow> nat \<Rightarrow> 's next_block" where
  "adaptor_next_block read buffer_size s =
     (let (bs, s') = read s buffer_size in (if bs = [] then None else Some bs, s'))"

locale buffered_input = input_stream +
  fixes buffer_size :: nat
  assumes buffer_size: "0 < buffer_size"

sublocale buffered_input \<subseteq> adaptor: no_copy_input_stream "adaptor_next_block read buffer_size" "\<lambda>_. True" contents
proof
  fix s s' :: 'a and b :: "byte list"
  obtain bs t where r: "read s buffer_size = (bs, t)" by (cases "read s buffer_size")
  show "contents s = [] \<and> True \<and> contents s' = []" if "adaptor_next_block read buffer_size s = (None, s')"
    using that r read_contents[OF r] read_nonempty[of s buffer_size s'] buffer_size
    by (auto simp: adaptor_next_block_def split: if_splits)
  show "b \<noteq> [] \<and> True \<and> contents s = b @ contents s'" if "adaptor_next_block read buffer_size s = (Some b, s')"
    using that r read_contents[OF r] by (auto simp: adaptor_next_block_def split: if_splits)
qed

text \<open>The parser's own buffer has 1024 bytes.\<close>

definition parser_buffer_size :: nat where
  "parser_buffer_size = 1024"

interpretation simple_adaptor: buffered_input simple_read "\<lambda>s. s" parser_buffer_size
  by unfold_locales (simp add: parser_buffer_size_def)

text \<open>\<open>SimpleNoCopyInputStream\<close>: everything in one block.\<close>

definition simple_next_block :: "byte list next_block" where
  "simple_next_block s = (if s = [] then (None, s) else (Some s, []))"

interpretation simple_no_copy: no_copy_input_stream simple_next_block "\<lambda>_. True" "\<lambda>s. s"
  by unfold_locales (auto simp: simple_next_block_def split: if_splits)

text \<open>
  \<open>MultiLogNoCopyInputStream\<close>: a sequence of logs; \<open>next_block\<close> skips the empty ones. Its \<open>read\<close>
  goes on in the current log, of which \<open>curr_remaining\<close> bytes are left.
\<close>

record multi_log =
  logs :: "byte list list"
  curr_remaining :: nat

definition new_multi_log :: "byte list list \<Rightarrow> multi_log" where
  "new_multi_log ls = \<lparr>logs = ls, curr_remaining = (case ls of [] \<Rightarrow> 0 | l # _ \<Rightarrow> length l)\<rparr>"

fun multi_read :: "byte list list \<Rightarrow> nat \<Rightarrow> nat \<Rightarrow> byte list \<times> multi_log" where
  "multi_read [] remaining n = ([], \<lparr>logs = [], curr_remaining = remaining\<rparr>)"
| "multi_read (l # ls) remaining n =
     (if 0 < remaining then
        let data = drop (length l - remaining) l; k = min remaining n
        in (take k data, \<lparr>logs = l # ls, curr_remaining = remaining - k\<rparr>)
      else case ls of [] \<Rightarrow> ([], \<lparr>logs = [], curr_remaining = remaining\<rparr>) | l' # _ \<Rightarrow> multi_read ls (length l') n)"

definition multi_log_read :: "multi_log read" where
  "multi_log_read m n = multi_read (logs m) (curr_remaining m) n"

fun multi_next :: "byte list list \<Rightarrow> byte list option \<times> byte list list" where
  "multi_next [] = (None, [])"
| "multi_next (l # ls) = (if l = [] then multi_next ls else (Some l, ls))"

definition multi_log_next_block :: "multi_log next_block" where
  "multi_log_next_block m = (let (b, ls) = multi_next (logs m) in (b, m\<lparr>logs := ls\<rparr>))"

lemma multi_next_props:
  "multi_next ls = (b, ls') \<Longrightarrow> (case b of None \<Rightarrow> concat ls = [] \<and> ls' = [] | Some l \<Rightarrow> l \<noteq> [] \<and> concat ls = l @ concat ls')"
  by (induction ls) (auto split: if_splits option.splits)

interpretation multi_no_copy: no_copy_input_stream multi_log_next_block "\<lambda>_. True" "\<lambda>m. concat (logs m)"
  by unfold_locales (auto simp: multi_log_next_block_def split: prod.splits dest!: multi_next_props)

text \<open>As a stream that copies: what is left of the current log, and the logs after it.\<close>

definition multi_contents :: "multi_log \<Rightarrow> byte list" where
  "multi_contents m = (case logs m of [] \<Rightarrow> [] | l # ls \<Rightarrow> drop (length l - curr_remaining m) l @ concat ls)"

lemma multi_read_props:
  assumes "multi_read ls r n = (bs, m)" "case ls of [] \<Rightarrow> True | l # _ \<Rightarrow> r \<le> length l"
  shows "multi_contents \<lparr>logs = ls, curr_remaining = r\<rparr> = bs @ multi_contents m \<and> length bs \<le> n \<and>
    (bs = [] \<longrightarrow> 0 < n \<longrightarrow> multi_contents \<lparr>logs = ls, curr_remaining = r\<rparr> = []) \<and>
    (case logs m of [] \<Rightarrow> True | l # _ \<Rightarrow> curr_remaining m \<le> length l)"
  using assms
proof (induction ls r n rule: multi_read.induct)
  case (1 r n)
  then show ?case by (auto simp: multi_contents_def)
next
  case (2 l ls r n)
  show ?case
  proof (cases "0 < r")
    case True
    let ?k = "min r n" and ?d = "drop (length l - r) l"
    have r: "bs = take ?k ?d" "m = \<lparr>logs = l # ls, curr_remaining = r - ?k\<rparr>" using 2(2) True by (auto simp: Let_def)
    have d: "length ?d = r" "r \<le> length l" using 2(3) by auto
    have "?k + (length l - r) = length l - (r - ?k)" using d(2) by simp
    then have "drop ?k ?d = drop (length l - (r - ?k)) l" by (simp add: add.commute)
    then have split: "?d = bs @ drop (length l - (r - ?k)) l" using append_take_drop_id[of ?k ?d] r(1) by simp
    have c: "multi_contents \<lparr>logs = l # ls, curr_remaining = r\<rparr> = ?d @ concat ls"
      "multi_contents m = drop (length l - (r - ?k)) l @ concat ls"
      by (simp_all add: multi_contents_def r(2))
    have "multi_contents \<lparr>logs = l # ls, curr_remaining = r\<rparr> = bs @ multi_contents m"
      unfolding c by (subst split) simp
    moreover have "bs = [] \<longrightarrow> 0 < n \<longrightarrow> False" using r(1) d True by auto
    moreover have "length bs \<le> n" using r(1) by simp
    moreover have "case logs m of [] \<Rightarrow> True | l # _ \<Rightarrow> curr_remaining m \<le> length l" using r(2) d(2) by simp
    ultimately show ?thesis by blast
  next
    case False
    show ?thesis
    proof (cases ls)
      case Nil
      then show ?thesis using False 2(2) by (auto simp: multi_contents_def)
    next
      case (Cons l' ls')
      have "multi_read ls (length l') n = (bs, m)" using 2(2) False Cons by simp
      from "2.IH"[OF False Cons this] show ?thesis using False Cons by (simp add: multi_contents_def)
    qed
  qed
qed

section \<open>Changesets of a history\<close>

text \<open>
  \<open>ChangesetInputStream\<close> asks the history for up to eight changesets at a time. A changeset is the
  list of chunks its \<open>BinaryIterator\<close> yields, one for each call of \<open>get_next\<close>, which returns empty data
  when there are no more. \<open>get_changesets b e\<close> of the history is a parameter.
\<close>

type_synonym changeset = "byte list list"

definition NB_BUFFERS :: nat where
  "NB_BUFFERS = 8"

record changeset_stream =
  begin_version :: nat
  end_version :: nat
  changesets :: "changeset list"
  valid :: bool

text \<open>\<open>m_end_version - m_begin_version\<close>, unsigned.\<close>

definition versions_left :: "changeset_stream \<Rightarrow> nat" where
  "versions_left s = (end_version s + 2 ^ 64 - begin_version s) mod 2 ^ 64"

definition get_changeset :: "(nat \<Rightarrow> nat \<Rightarrow> changeset list) \<Rightarrow> changeset_stream \<Rightarrow> changeset_stream" where
  "get_changeset hist s =
     (let versions_to_get = versions_left s in
      if versions_to_get > 0 then
        let e = begin_version s + min versions_to_get NB_BUFFERS
        in s\<lparr>begin_version := e, changesets := hist (begin_version s) e, valid := True\<rparr>
      else s\<lparr>valid := False\<rparr>)"

definition new_changeset_stream :: "(nat \<Rightarrow> nat \<Rightarrow> changeset list) \<Rightarrow> nat \<Rightarrow> nat \<Rightarrow> changeset_stream" where
  "new_changeset_stream hist b e =
     get_changeset hist \<lparr>begin_version = b, end_version = e, changesets = [], valid = False\<rparr>"

text \<open>\<open>get_next\<close> of the current iterator: the chunk, and the iterator behind it.\<close>

fun get_next :: "changeset \<Rightarrow> byte list \<times> changeset" where
  "get_next [] = ([], [])"
| "get_next (c # cs) = (c, cs)"

lemma mod_diff_small: "k \<le> x mod m \<Longrightarrow> 0 < m \<Longrightarrow> (x - k) mod m = x mod m - k" for x k m :: nat
proof -
  assume k: "k \<le> x mod m" and m: "0 < m"
  have "x - k = m * (x div m) + (x mod m - k)" using k mult_div_mod_eq[of m x] by linarith
  moreover have "x mod m - k < m" using mod_less_divisor[OF m, of x] by linarith
  ultimately show ?thesis by (simp only: mod_mult_self4 mod_less)
qed

lemma versions_left_get_changeset:
  "valid (get_changeset hist s) \<Longrightarrow> versions_left (get_changeset hist s) < versions_left s"
  "\<not> valid (get_changeset hist s) \<Longrightarrow> get_changeset hist s = s\<lparr>valid := False\<rparr>"
proof -
  assume v: "valid (get_changeset hist s)"
  let ?k = "min (versions_left s) NB_BUFFERS"
  have k: "0 < ?k" "?k \<le> versions_left s" using v by (auto simp: get_changeset_def NB_BUFFERS_def Let_def split: if_splits)
  have "versions_left (get_changeset hist s) = (end_version s + 2 ^ 64 - begin_version s - ?k) mod 2 ^ 64"
    using k(1) unfolding versions_left_def[of "get_changeset hist s"]
    by (simp only: get_changeset_def Let_def if_True changeset_stream.simps min_less_iff_conj diff_diff_left)
      (simp add: get_changeset_def)
  also have "\<dots> = versions_left s - ?k"
    using k(2) unfolding versions_left_def by (rule mod_diff_small) simp
  finally show "versions_left (get_changeset hist s) < versions_left s" using k by linarith
next
  assume "\<not> valid (get_changeset hist s)"
  then show "get_changeset hist s = s\<lparr>valid := False\<rparr>" by (auto simp: get_changeset_def Let_def split: if_splits)
qed

text \<open>
  The loop of \<open>next_block\<close>. The case of no current changeset is never reached: the history
  retrieves as many as were asked for.
\<close>

function changeset_next_block :: "(nat \<Rightarrow> nat \<Rightarrow> changeset list) \<Rightarrow> changeset_stream next_block" where
  "changeset_next_block hist s =
     (if \<not> valid s then (None, s)
      else case changesets s of
          [] \<Rightarrow> (None, s)
        | it # its \<Rightarrow>
            (case get_next it of (actual, it') \<Rightarrow>
               if actual \<noteq> [] then (Some actual, s\<lparr>changesets := it' # its\<rparr>)
               else changeset_next_block hist
                 (if its = [] then get_changeset hist (s\<lparr>changesets := []\<rparr>) else s\<lparr>changesets := its\<rparr>)))"
  by pat_completeness auto
termination
proof (relation "measures [\<lambda>(hist, s). versions_left s, \<lambda>(hist, s). length (changesets s)]")
  fix hist :: "nat \<Rightarrow> nat \<Rightarrow> changeset list" and s :: changeset_stream and it its p actual it'
  assume s: "\<not> \<not> valid s" "changesets s = it # its"
  let ?s = "s\<lparr>changesets := []\<rparr>"
  show "((hist, if its = [] then get_changeset hist ?s else s\<lparr>changesets := its\<rparr>), hist, s)
      \<in> measures [\<lambda>(hist, s). versions_left s, \<lambda>(hist, s). length (changesets s)]"
  proof (cases "its = []")
    case True
    have "versions_left ?s = versions_left s" by (simp add: versions_left_def)
    then show ?thesis
      using True s versions_left_get_changeset[of hist ?s]
      by (cases "valid (get_changeset hist ?s)") (simp_all add: versions_left_def)
  next
    case False
    then show ?thesis using s by (simp add: versions_left_def)
  qed
qed simp

declare changeset_next_block.simps [simp del]

text \<open>
  What the history documents: \<open>get_changesets\<close> makes the changesets of the versions after
  \<open>begin\<close> up to \<open>end\<close> available, in order.
\<close>

definition hist_ok :: "(nat \<Rightarrow> nat \<Rightarrow> changeset list) \<Rightarrow> (nat \<Rightarrow> changeset) \<Rightarrow> bool" where
  "hist_ok hist at \<longleftrightarrow> (\<forall>b e. hist b e = map at [b..<e])"

definition changeset_bytes :: "changeset \<Rightarrow> byte list" where
  "changeset_bytes cs = concat (takeWhile (\<lambda>c. c \<noteq> []) cs)"

definition changesets_ok :: "changeset_stream \<Rightarrow> bool" where
  "changesets_ok s \<longleftrightarrow> begin_version s \<le> end_version s \<and> end_version s < 2 ^ 64 \<and>
     (valid s \<longrightarrow> changesets s \<noteq> []) \<and> (\<not> valid s \<longrightarrow> begin_version s = end_version s)"

definition changesets_contents :: "(nat \<Rightarrow> changeset) \<Rightarrow> changeset_stream \<Rightarrow> byte list" where
  "changesets_contents at s =
     (if valid s then concat (map changeset_bytes (changesets s @ map at [begin_version s..<end_version s])) else [])"

lemma get_changeset_props:
  assumes "hist_ok hist at" "begin_version s \<le> end_version s" "end_version s < 2 ^ 64"
  shows "changesets_ok (get_changeset hist s)"
    "changesets_contents at (get_changeset hist s) = concat (map changeset_bytes (map at [begin_version s..<end_version s]))"
proof -
  let ?n = "end_version s - begin_version s"
  have n: "versions_left s = ?n"
  proof -
    have "end_version s + 2 ^ 64 - begin_version s = ?n + 2 ^ 64" using assms(2) by linarith
    moreover have "?n < 2 ^ 64" using assms(3) by (rule less_imp_diff_less)
    ultimately show ?thesis by (simp only: versions_left_def mod_add_self2 mod_less)
  qed
  let ?e = "begin_version s + min ?n NB_BUFFERS"
  have "[begin_version s..<end_version s] = [begin_version s..<?e] @ [?e..<end_version s]"
  proof -
    have "?e \<le> end_version s" "begin_version s \<le> ?e" using assms(2) by auto
    then show ?thesis using upt_add_eq_append[of "begin_version s" ?e "end_version s - ?e"] by (metis le_add_diff_inverse)
  qed
  then have m: "map at [begin_version s..<end_version s] = map at [begin_version s..<?e] @ map at [?e..<end_version s]" by simp
  have "changesets_ok (get_changeset hist s) \<and> changesets_contents at (get_changeset hist s) =
      concat (map changeset_bytes (map at [begin_version s..<end_version s]))"
  proof (cases "?n = 0")
    case True
    then have "get_changeset hist s = s\<lparr>valid := False\<rparr>" unfolding get_changeset_def n by simp
    then show ?thesis using True assms(2,3) by (simp add: changesets_ok_def changesets_contents_def)
  next
    case False
    have g: "get_changeset hist s = s\<lparr>begin_version := ?e, changesets := map at [begin_version s..<?e], valid := True\<rparr>"
      using False assms(1) unfolding get_changeset_def n by (simp add: hist_ok_def Let_def)
    have "changesets_ok (get_changeset hist s)"
      using False assms(3) unfolding g by (simp add: changesets_ok_def NB_BUFFERS_def)
    then show ?thesis unfolding m unfolding g by (simp add: changesets_contents_def)
  qed
  then show "changesets_ok (get_changeset hist s)"
    "changesets_contents at (get_changeset hist s) = concat (map changeset_bytes (map at [begin_version s..<end_version s]))"
    by blast+
qed

lemma get_next_props:
  "get_next it = (c, it') \<Longrightarrow> (c \<noteq> [] \<longrightarrow> changeset_bytes it = c @ changeset_bytes it') \<and> (c = [] \<longrightarrow> changeset_bytes it = [])"
  by (cases it) (auto simp: changeset_bytes_def)

lemma changeset_next_block_props:
  assumes "hist_ok hist at" "changesets_ok s" "changeset_next_block hist s = (b, s')"
  shows "changesets_ok s' \<and> (case b of None \<Rightarrow> changesets_contents at s = [] \<and> changesets_contents at s' = []
    | Some c \<Rightarrow> c \<noteq> [] \<and> changesets_contents at s = c @ changesets_contents at s')"
  using assms
proof (induction hist s arbitrary: b s' rule: changeset_next_block.induct)
  case (1 hist s)
  show ?case
  proof (cases "valid s")
    case False
    then show ?thesis using 1 by (auto simp: changeset_next_block.simps[of hist s] changesets_contents_def)
  next
    case True
    then obtain it its where its: "changesets s = it # its" using 1(3) by (cases "changesets s") (auto simp: changesets_ok_def)
    obtain c it' where it: "get_next it = (c, it')" by (cases "get_next it")
    show ?thesis
    proof (cases "c = []")
      case False
      then show ?thesis
        using 1(3,4) True its it get_next_props[OF it]
        by (auto simp: changeset_next_block.simps[of hist s] changesets_contents_def changesets_ok_def)
    next
      case c: True
      let ?t = "if its = [] then get_changeset hist (s\<lparr>changesets := []\<rparr>) else s\<lparr>changesets := its\<rparr>"
      have t: "changesets_ok ?t" "changesets_contents at ?t = changesets_contents at s"
        using 1(3) its True c get_next_props[OF it] get_changeset_props[OF 1(2), of "s\<lparr>changesets := []\<rparr>"]
        by (auto simp: changesets_contents_def changesets_ok_def)
      have "changeset_next_block hist ?t = (b, s')"
        using 1(4) True its it c by (simp add: changeset_next_block.simps[of hist s])
      moreover have "\<not> \<not> valid s" "\<not> c \<noteq> []" using True c by auto
      ultimately show ?thesis using "1.IH"[OF _ its it[symmetric] _ 1(2) t(1), of b s'] unfolding t(2) by blast
    qed
  qed
qed

text \<open>A history as an in-memory sequence of changesets.\<close>

definition history_of :: "changeset list \<Rightarrow> nat \<Rightarrow> nat \<Rightarrow> changeset list" where
  "history_of cs b e = map (\<lambda>v. if v < length cs then cs ! v else []) [b..<e]"

lemma changeset_stream: "hist_ok hist at \<Longrightarrow> no_copy_input_stream (changeset_next_block hist) changesets_ok (changesets_contents at)"
  using changeset_next_block_props[of hist at] by unfold_locales fastforce+

end
