(* ===== verification/TransactLogProperties.thy ===== *)
theory TransactLogProperties
  imports TransactReverserContexts TransactLogAnyInput InputStreams "HOL-Library.Sublist"
begin

text \<open>
  The properties of the transaction log: the integer encoding, the round trip of a log through
  encoder and parser, the parser on arbitrary input, the streams, and the reversed log.
\<close>

section \<open>What a sequence of bytes says\<close>

text \<open>
  The calls a parser makes on the bytes of a log and how it ends, independently of the handler: at
  the end of the input, with an exception or by aborting.
\<close>

function decode_log :: "byte list \<Rightarrow> call list \<times> unit action" where
  "decode_log bs =
     (if bs = [] then ([], ok ())
      else case read_instr no_block (bytes bs) of
          None \<Rightarrow> ([], None)
        | Some (Inl e) \<Rightarrow> ([], throw e)
        | Some (Inr (c, p)) \<Rightarrow> (case decode_log (input p) of (cs, r) \<Rightarrow> (c # cs, r)))"
  by pat_completeness auto
termination
proof (relation "measure length")
  fix bs x b c p
  assume "read_instr no_block (bytes bs) = Some x" "x = Inr b" "(c, p) = b"
  then show "(input p, bs) \<in> measure length"
    using read_instr_any[of bs] by (auto simp: ok_def throw_def split: if_splits)
qed simp

declare decode_log.simps [simp del]

text \<open>What is left after an instruction is a suffix of the input.\<close>

lemma decode_groups_suffix:
  "decode_groups t M i v bs = Some (Inr (part, w, rest)) \<Longrightarrow> suffix rest bs"
  by (induction t M i v bs rule: decode_groups.induct)
    (auto split: if_splits Option.bind_splits prod.splits intro: suffix_ConsI)

lemma read_int_suffix: "read_int no_block t p = ok (v, q) \<Longrightarrow> suffix (input q) (input p)"
  using decode_groups_suffix read_int_bytes[of t "input p"]
  by (cases p, cases q) (auto simp: decode_int_def ok_def split: option.splits sum.splits prod.splits Option.bind_splits if_splits)

lemma andthen_ok: "andthen m f = ok y \<longleftrightarrow> (\<exists>x. m = ok x \<and> f x = ok y)"
  by (auto simp: andthen_def ok_def split: sum.splits Option.bind_splits)

lemma read1_suffix: "read1 no_block t f p = ok (c, q) \<Longrightarrow> suffix (input q) (input p)"
  using read_int_suffix by (auto simp: read1_def andthen_ok)

lemma read2_suffix: "read2 no_block t f p = ok (c, q) \<Longrightarrow> suffix (input q) (input p)"
  by (auto simp: read2_def andthen_ok dest!: read_int_suffix intro: suffix_order.trans)

lemma read_call_suffix: "read_call no_block i p = ok (c, q) \<Longrightarrow> suffix (input q) (input p)"
  by (cases i) (auto simp: andthen_ok dest!: read1_suffix read2_suffix read_int_suffix intro: suffix_order.trans)

lemma read_instr_suffix: "read_instr no_block (bytes bs) = ok (c, q) \<Longrightarrow> suffix (input q) bs"
  using read_call_suffix[of _ "bytes (tl bs)" c q]
  by (cases bs) (auto simp: read_instr_def read_char_def next_input_buffer_def no_block_def andthen_ok
      split: option.splits dest!: read_call_suffix intro: suffix_ConsI)

lemma decode_log_typed:
  "\<forall>c\<in>set (fst (decode_log bs)). typed c"
  "snd (decode_log bs) \<in> {ok (), throw BadTransactLog, None}"
proof (induction bs rule: decode_log.induct)
  case (1 bs)
  {
    case 1
    show ?case
      using "1.IH"(1) read_instr_any[of bs]
      by (subst decode_log.simps)
        (auto simp: ok_def throw_def split: option.splits sum.splits prod.splits if_splits)
  next
    case 2
    show ?case
      using "1.IH"(2) read_instr_any[of bs]
      by (subst decode_log.simps)
        (auto simp: ok_def throw_def split: option.splits sum.splits prod.splits if_splits)
  }
qed

lemma decode_log_None: "snd (decode_log bs) = None \<Longrightarrow> \<exists>rest. suffix rest bs \<and> selects_levels rest"
proof (induction bs rule: decode_log.induct)
  case (1 bs)
  show ?case
  proof (cases "selects_levels bs")
    case False
    then obtain c p where p: "bs \<noteq> []" "read_instr no_block (bytes bs) = ok (c, p)"
      using 1(2) read_instr_any[of bs] by (subst (asm) decode_log.simps) (auto simp: ok_def throw_def split: if_splits)
    then have "snd (decode_log (input p)) = None"
      using 1(2) by (subst (asm) decode_log.simps) (auto simp: ok_def split: prod.splits)
    then obtain rest where "suffix rest (input p)" "selects_levels rest"
      using "1.IH"[OF p(1) p(2)[unfolded ok_def] refl refl] by blast
    then show ?thesis using read_instr_suffix[OF p(2)] suffix_order.trans by blast
  qed (auto intro: exI[of _ bs])
qed

definition finish :: "call list \<times> unit action \<Rightarrow> 'h handler \<Rightarrow> 'h \<Rightarrow> 'h action" where
  "finish d handler h = andthen (run_calls handler (fst d) h) (\<lambda>h. andthen (snd d) (\<lambda>_. ok h))"

lemma finish_Cons:
  "finish (c # cs, r) handler h =
     andthen (handler c h) (\<lambda>(accepted, h). if accepted then finish (cs, r) handler h else throw BadTransactLog)"
  by (auto simp: finish_def andthen_def throw_def split: sum.splits Option.bind_splits)

lemma parse_loop_decode:
  "parse_loop no_block handler (bytes bs) h = finish (decode_log bs) handler h"
proof (induction bs arbitrary: h rule: decode_log.induct)
  case (1 bs)
  consider "bs = []" | "bs \<noteq> []" "read_instr no_block (bytes bs) = None"
    | e where "bs \<noteq> []" "read_instr no_block (bytes bs) = throw e"
    | c p where "bs \<noteq> []" "read_instr no_block (bytes bs) = ok (c, p)"
    by (cases "read_instr no_block (bytes bs)") (auto simp: ok_def throw_def, metis sum.exhaust surj_pair)
  then show ?case
  proof cases
    case (4 c p)
    obtain cs r where d: "decode_log (input p) = (cs, r)" by (cases "decode_log (input p)")
    have p: "p = bytes (input p)" by (cases p) simp
    have "parse_loop no_block handler p h' = finish (cs, r) handler h'" for h'
      using "1.IH"[of "Inr (c, p)" "(c, p)" c p h'] 4 d p by (simp add: ok_def)
    then show ?thesis
      using 4 d by (subst parse_loop_memory_simps, subst decode_log.simps)
        (auto simp: ok_def deliver_def finish_Cons andthen_def throw_def split: sum.splits Option.bind_splits)
  qed (subst parse_loop_memory_simps, subst decode_log.simps, simp add: finish_def throw_def)+
qed

lemma decode_log_reads_back: "list_all2 reads_back cs bss \<Longrightarrow> decode_log (concat bss) = (cs, ok ())"
proof (induction cs bss rule: list_all2_induct)
  case Nil
  then show ?case by (simp add: decode_log.simps)
next
  case (Cons c cs bs bss)
  have "read_instr no_block (bytes (bs @ concat bss)) = ok (c, bytes (concat bss))"
    using Cons.hyps(1) by (simp add: reads_back_def)
  then show ?case
    using Cons.IH reads_back_not_Nil[OF Cons.hyps(1)] by (subst decode_log.simps) (simp add: ok_def)
qed

text \<open>The bytes an encoder has written.\<close>

definition written :: "encoder \<Rightarrow> byte list" where
  "written e = map the (take (free_begin e) (m_buffer e))"

lemma written_enc_ok: "enc_ok e bs \<Longrightarrow> written e = bs"
  by (simp add: written_def enc_ok_def comp_def)

context no_copy_input_stream begin

lemma parse_decode_log:
  "stream_ok s \<Longrightarrow> parse next_block handler s h = finish (decode_log (contents s)) handler h"
  using parse_loop_in_memory[of "\<lparr>input = [], stream = s\<rparr>" handler h] parse_loop_decode[of handler "contents s" h]
  by (simp add: parse_def parser_ok_def unread_def)

end

section \<open>Functions for the witnesses\<close>

text \<open>Functions like \<open>select_table\<close> and \<open>select_list\<close> of the encoder, and a handler that keeps the calls.\<close>

definition sample_select_table :: select_table where
  "sample_select_table k = append_simple_instr [Instr instr_SelectTable, Size 0, Table_key k]"

definition sample_select_list :: select_list where
  "sample_select_list c k = append_simple_instr [Instr instr_SelectList, Col_key c, Obj_key k]"

definition keep_calls :: "call list handler" where
  "keep_calls c cs = ok (True, cs @ [c])"

lemma run_calls_keep [simp]: "run_calls keep_calls cs xs = ok (xs @ cs)"
  by (induction cs arbitrary: xs) (simp_all add: keep_calls_def)

lemma sample_selects_ok: "selects_ok sample_select_table sample_select_list"
proof -
  have app: "appends (append_simple_instr as) (arg_bytes as)" if "\<forall>a\<in>set as. arg_ok a" "max_size_list as \<le> 32" for as
    using that length_arg_bytes[OF that(1)] append_simple_instr_props[OF _ that(1)] by (auto simp: appends_def)
  have "reads_back (Select_table k) (arg_bytes [Instr instr_SelectTable, Size 0, Table_key k])" if "fits uint32 k" for k
    using that fits_table_key[OF that]
    by (simp add: reads_back_def arg_bytes_def read_instr_code read1_def read_int_encoded fits_nonneg
        realm_assert_def c_type_int del: instr_code.simps)
  moreover have "reads_back (Select_list c k) (arg_bytes [Instr instr_SelectList, Col_key c, Obj_key k])"
    if "fits int64 c" "fits int64 k" for c k
    using that by (simp add: reads_back_def arg_bytes_def read_instr_code read2_def read_int_encoded del: instr_code.simps)
  ultimately show ?thesis
    using fits_table_key
    by (auto simp: selects_ok_def sample_select_table_def sample_select_list_def max_size_list_def
        max_enc_bytes_per_int_def fits_unsigned intro!: exI app)
qed

section \<open>The encoding of integers\<close>

lemma read_encoded_as:
  assumes "c_type u" "fits u v" "c_type t" "7 \<le> digits t" "encode_int u v = Some bs"
  shows "read_int no_block t (bytes (bs @ rest)) =
    (case read_as t v of None \<Rightarrow> throw BadTransactLog | Some x \<Rightarrow> ok (x, bytes rest))"
proof -
  obtain bs' where "encode_int u v = Some bs'"
      "decode_int t (bs' @ rest) = Some (case read_as t v of None \<Rightarrow> Inl BadTransactLog | Some x \<Rightarrow> Inr (x, rest))"
    using decode_encode_int[OF assms(1-4)] .
  then show ?thesis using assms(5) by (simp add: read_int_bytes throw_def split: option.split)
qed

text \<open>C21. An integer of any type is encoded in at least one and at most
  \<open>ceil((1 + digits) / 7)\<close> bytes, never more than \<open>max_enc_bytes_per_int\<close>. Read back as any signed type,
  or as any type when it is not negative, it gives the same value and leaves what follows in the input;
  the read fails exactly when the value is outside the range of the type it is read as.\<close>

theorem integer_encoding_roundtrip:
  assumes "c_type u" "fits u v" "c_type t" "7 \<le> digits t" "is_signed t \<or> 0 \<le> v"
  shows "\<exists>bs. encode_int u v = Some bs \<and> 0 < length bs \<and> length bs \<le> (digits u + 7) div 7 \<and>
    length bs \<le> max_enc_bytes_per_int \<and>
    (\<forall>rest. read_int no_block t (bytes (bs @ rest)) = (if fits t v then ok (v, bytes rest) else throw BadTransactLog))"
proof -
  obtain bs where bs: "encode_int u v = Some bs" "0 < length bs" "length bs \<le> max_bytes u" "length bs \<le> max_enc_bytes_per_int"
    using encode_int_length[OF assms(1,2)] by blast
  have "read_int no_block t (bytes (bs @ rest)) = (if fits t v then ok (v, bytes rest) else throw BadTransactLog)" for rest
    using read_encoded_as[OF assms(1-4) bs(1), of rest] assms(5) by (simp add: read_as_def)
  then show ?thesis using bs by (auto simp: max_bytes_def)
qed

theorem integer_encoding_roundtrip_witness:
  "\<exists>bs. encode_int int64 (- 300) = Some bs \<and> length bs \<le> 10 \<and> read_int no_block int_t (bytes bs) = ok (- 300, bytes [])"
proof -
  have "fits int64 (- 300)" "fits int_t (- 300)" "7 \<le> digits int_t" "is_signed int_t"
    by (simp_all add: fits_def int64_def int_t_def signed_t_def min_of_def max_of_def)
  then obtain bs where "encode_int int64 (- 300) = Some bs" "length bs \<le> max_enc_bytes_per_int"
      "\<forall>rest. read_int no_block int_t (bytes (bs @ rest)) = ok (- 300, bytes rest)"
    using integer_encoding_roundtrip[of int64 "- 300" int_t] by auto
  then show ?thesis by (intro exI[of _ bs]) (simp add: max_enc_bytes_per_int_def, metis append_Nil2)
qed

text \<open>C22. A negative value read as an unsigned type is not always refused: from -2 down to
  \<open>- (2 ^ digits)\<close> it is delivered modulo \<open>2 ^ digits\<close>, although it is outside the range of the type.\<close>

theorem negative_read_as_unsigned:
  assumes "c_type u" "fits u v" "c_type t" "7 \<le> digits t" "\<not> is_signed t" "- (2 ^ digits t) \<le> v" "v < - 1"
  shows "\<not> fits t v \<and>
    (\<exists>bs. encode_int u v = Some bs \<and> (\<forall>rest. read_int no_block t (bytes (bs @ rest)) = ok (2 ^ digits t + v, bytes rest)))"
proof -
  obtain bs where bs: "encode_int u v = Some bs"
    using encode_int_length[OF assms(1,2)] by blast
  have "read_as t v = Some (2 ^ digits t + v)" using assms(5-7) by (simp add: read_as_def magnitude_def)
  then have "read_int no_block t (bytes (bs @ rest)) = ok (2 ^ digits t + v, bytes rest)" for rest
    using read_encoded_as[OF assms(1-4) bs, of rest] by simp
  then show ?thesis using bs assms(5,7) by (simp add: fits_unsigned)
qed

theorem negative_read_as_unsigned_witness:
  "\<exists>bs. encode_int int64 (- 2) = Some bs \<and> read_int no_block size_t (bytes bs) = ok (2 ^ 64 - 2, bytes [])"
proof -
  have "fits int64 (- 2)" "\<not> is_signed size_t" "digits size_t = 64"
    by (simp_all add: fits_def int64_def size_t_def signed_t_def unsigned_t_def min_of_def max_of_def)
  then obtain bs where "encode_int int64 (- 2) = Some bs"
      "\<forall>rest. read_int no_block size_t (bytes (bs @ rest)) = ok (2 ^ 64 + - 2, bytes rest)"
    using negative_read_as_unsigned[of int64 "- 2" size_t] by auto
  then show ?thesis by (intro exI[of _ bs]) (simp, metis append_Nil2)
qed

section \<open>Logs\<close>

text \<open>C11. A log is parsed as what was encoded: the calls given to an encoder, read back from any
  stream that delivers the bytes it wrote, reach the handler in the same order with the same
  arguments, until it refuses one.\<close>

theorem log_roundtrip:
  assumes "selects_ok st sl" "\<forall>c\<in>set cs. call_ok c" "32 * length cs < 2 ^ 64" "no_copy_input_stream nb stream_ok contents"
  shows "yields (encode_calls st sl cs new_encoder) (\<lambda>e. \<forall>s h. stream_ok s \<longrightarrow> contents s = written e \<longrightarrow>
    parse nb handler s h = run_calls handler cs h)"
proof -
  have "yields (encode_calls st sl cs new_encoder) (\<lambda>e. \<exists>bss. list_all2 reads_back cs bss \<and> enc_ok e (concat bss))"
    using encode_calls_props[OF assms(1,2) enc_ok_new] assms(3) by simp
  then show ?thesis
  proof (rule yields_mono)
    fix e
    assume "\<exists>bss. list_all2 reads_back cs bss \<and> enc_ok e (concat bss)"
    then obtain bss where "list_all2 reads_back cs bss" "written e = concat bss" using written_enc_ok by blast
    then show "\<forall>s h. stream_ok s \<longrightarrow> contents s = written e \<longrightarrow> parse nb handler s h = run_calls handler cs h"
      using no_copy_input_stream.parse_reads_back[OF assms(4)] by fastforce
  qed
qed

theorem log_roundtrip_witness:
  "\<exists>e. encode_calls sample_select_table sample_select_list [Select_table 5, Create_object (- 7), List_swap 1 300] new_encoder = ok e \<and>
     parse simple_next_block keep_calls (written e) [] = ok [Select_table 5, Create_object (- 7), List_swap 1 300]"
proof -
  let ?cs = "[Select_table 5, Create_object (- 7), List_swap 1 300]"
  have "\<forall>c\<in>set ?cs. call_ok c"
    by (simp add: fits_def int64_def uint32_def size_t_def signed_t_def unsigned_t_def min_of_def max_of_def)
  then obtain e where "encode_calls sample_select_table sample_select_list ?cs new_encoder = ok e"
      "parse simple_next_block keep_calls (written e) [] = run_calls keep_calls ?cs []"
    using log_roundtrip[OF sample_selects_ok _ _ simple_no_copy.no_copy_input_stream_axioms, of ?cs keep_calls]
    unfolding yields_iff by auto
  then show ?thesis unfolding run_calls_keep by (intro exI[of _ e]) simp
qed

text \<open>C12. On any input whatever the parser is a function of the bytes: it makes the calls
  \<open>decode_log\<close> finds in them, with arguments in the range of their types, and ends with the input, by
  throwing \<open>BadTransactLog\<close> or by aborting; how the stream cuts the bytes into blocks does not matter.
  It always returns, unless the handler or a table selection with levels aborts.\<close>

theorem parse_any_input:
  fixes handler :: "'h handler"
  assumes "no_copy_input_stream nb stream_ok contents" "stream_ok s"
  shows "parse nb handler s h =
      andthen (run_calls handler (fst (decode_log (contents s))) h) (\<lambda>h. andthen (snd (decode_log (contents s))) (\<lambda>_. ok h)) \<and>
    (\<forall>c\<in>set (fst (decode_log (contents s))). typed c) \<and>
    snd (decode_log (contents s)) \<in> {ok (), throw BadTransactLog, None} \<and>
    (snd (decode_log (contents s)) = None \<longrightarrow> (\<exists>rest. suffix rest (contents s) \<and> selects_levels rest))"
  using no_copy_input_stream.parse_decode_log[OF assms, of handler h] decode_log_typed[of "contents s"] decode_log_None[of "contents s"]
  by (simp add: finish_def)

theorem parse_any_input_witness:
  "parse multi_log_next_block keep_calls (new_multi_log [[11], [], [65, 0]]) [] = throw BadTransactLog"
proof -
  have 1: "read_int no_block int64 (bytes [65, 0]) = ok (- 2, bytes [0])"
    by (simp add: read_int_bytes decode_int_def int64_def signed_t_def) code_simp
  have d: "decode_log [11, 65, 0] = ([Create_object (- 2)], throw BadTransactLog)"
    using 1 by (simp add: decode_log.simps read_instr_def read_char_def instruction_of_def all_instructions_def read1_def ok_def throw_def)
  show ?thesis
    using parse_any_input[OF multi_no_copy.no_copy_input_stream_axioms, of keep_calls "new_multi_log [[11], [], [65, 0]]" "[]"]
    by (simp add: new_multi_log_def d keep_calls_def)
qed

section \<open>Streams\<close>

text \<open>All streams are alike to the parser: a copying stream read through the adaptor in pieces
  of 1024 bytes, several logs one after the other, and the changesets of a history fetched eight at a time
  are parsed exactly as the concatenation of their bytes in one block.\<close>

theorem streams_deliver_the_same:
  fixes handler :: "'h handler"
  assumes "hist_ok hist at" "b \<le> e" "e < 2 ^ 64"
  shows "parse (adaptor_next_block simple_read parser_buffer_size) handler bs h = parse simple_next_block handler bs h \<and>
    parse multi_log_next_block handler (new_multi_log ls) h = parse simple_next_block handler (concat ls) h \<and>
    parse (changeset_next_block hist) handler (new_changeset_stream hist b e) h =
      parse simple_next_block handler (concat (map (\<lambda>v. changeset_bytes (at v)) [b..<e])) h"
proof -
  have simple: "parse simple_next_block handler x h = finish (decode_log x) handler h" for x
    using simple_no_copy.parse_decode_log[of handler x h] by simp
  have adaptor: "parse (adaptor_next_block simple_read parser_buffer_size) handler bs h = finish (decode_log bs) handler h"
    using simple_adaptor.adaptor.parse_decode_log[of handler bs h] by simp
  have multi: "parse multi_log_next_block handler (new_multi_log ls) h = finish (decode_log (concat ls)) handler h"
    using multi_no_copy.parse_decode_log[of handler "new_multi_log ls" h] by (simp add: new_multi_log_def)
  let ?s = "\<lparr>begin_version = b, end_version = e, changesets = [], valid = False\<rparr>"
  have "changesets_ok (new_changeset_stream hist b e)"
    "changesets_contents at (new_changeset_stream hist b e) = concat (map (\<lambda>v. changeset_bytes (at v)) [b..<e])"
    using get_changeset_props[OF assms(1), of ?s] assms(2,3) by (simp_all add: new_changeset_stream_def comp_def)
  then have "parse (changeset_next_block hist) handler (new_changeset_stream hist b e) h =
      finish (decode_log (concat (map (\<lambda>v. changeset_bytes (at v)) [b..<e]))) handler h"
    using no_copy_input_stream.parse_decode_log[OF changeset_stream[OF assms(1)]] by fastforce
  then show ?thesis using simple adaptor multi by simp
qed

theorem streams_deliver_the_same_witness:
  "parse (changeset_next_block (history_of [[[1, 5]], [[], [7]], [[2], [6]]])) keep_calls
     (new_changeset_stream (history_of [[[1, 5]], [[], [7]], [[2], [6]]]) 0 3) [] =
   parse simple_next_block keep_calls [1, 5, 2, 6] []"
proof -
  let ?cs = "[[[1, 5]], [[], [7]], [[2], [6]]] :: changeset list"
  have "hist_ok (history_of ?cs) (\<lambda>v. if v < length ?cs then ?cs ! v else [])"
    by (simp add: hist_ok_def history_of_def)
  from streams_deliver_the_same[OF this, of 0 3 keep_calls "[]" "[]" "[]"] show ?thesis
    by (simp add: upt_rec changeset_bytes_def)
qed

section \<open>The reversed log\<close>

text \<open>The reverser refines \<open>reversed_calls\<close>: when it has received the calls of a log, its
  reversed stream delivers a log that is parsed as their reversal.\<close>

theorem reversed_stream_parses:
  assumes "selects_ok st sl" "\<forall>c\<in>set cs. call_ok c" "32 * sum_list (map weight cs) < 2 ^ 64"
  shows "yields (run_calls (reverser_handler st sl) cs new_reverser) (\<lambda>r.
    parse reversed_next_block handler (new_reversed_stream r) h = run_calls handler (reversed_calls cs) h)"
  by (rule reversed_log[OF assms])

theorem reversed_stream_parses_witness:
  "\<exists>r. run_calls (reverser_handler sample_select_table sample_select_list)
      [Select_table 5, Create_object 1, Select_list 2 1, List_insert 0, Select_table 6, Clear_table 2] new_reverser = ok r \<and>
    parse reversed_next_block keep_calls (new_reversed_stream r) [] =
      ok [Select_table 6, Create_object (- 1), Create_object (- 1), Select_table 5, Select_list 2 1, List_erase 0, Remove_object 1]"
proof -
  let ?cs = "[Select_table 5, Create_object 1, Select_list 2 1, List_insert 0, Select_table 6, Clear_table 2]"
  have "\<forall>c\<in>set ?cs. call_ok c"
    by (simp add: fits_def int64_def uint32_def size_t_def signed_t_def unsigned_t_def min_of_def max_of_def)
  then obtain r where "run_calls (reverser_handler sample_select_table sample_select_list) ?cs new_reverser = ok r"
      "parse reversed_next_block keep_calls (new_reversed_stream r) [] = run_calls keep_calls (reversed_calls ?cs) []"
    using reversed_stream_parses[OF sample_selects_ok, of ?cs keep_calls "[]"] unfolding yields_iff by auto
  moreover have "reversed_calls ?cs =
      [Select_table 6, Create_object (- 1), Create_object (- 1), Select_table 5, Select_list 2 1, List_erase 0, Remove_object 1]"
    by (simp add: reversed_calls_def no_rev_calls_def flush_table_def flush_list_def put_block_def null_key_def Let_def
        eval_nat_numeral)
  ultimately show ?thesis unfolding run_calls_keep by (intro exI[of _ r]) simp
qed

text \<open>C23. The two instructions without a range of their own go astray: a column renamed before another
  table is selected is renamed, in the reversed log, before any table is selected, and a column renamed
  last is not renamed at all. The move of a list element is reversed to the same move.\<close>

theorem reversed_rename_column_astray:
  assumes "fits uint32 t" "fits uint32 u" "fits int64 c" "fits int64 x"
  shows "yields (run_calls (reverser_handler sample_select_table sample_select_list)
      [Select_table t, Rename_column c, Select_table u, Create_object x, List_move 0 2, Rename_column c] new_reverser)
    (\<lambda>r. parse reversed_next_block keep_calls (new_reversed_stream r) [] =
      ok [Rename_column c, Select_table u, List_move 0 2, Remove_object x, Select_table t])"
proof -
  let ?cs = "[Select_table t, Rename_column c, Select_table u, Create_object x, List_move 0 2, Rename_column c]"
  have "\<forall>c\<in>set ?cs. call_ok c" using assms by (simp add: fits_nonneg)
  moreover have "reversed_calls ?cs = [Rename_column c, Select_table u, List_move 0 2, Remove_object x, Select_table t]"
    by (simp add: reversed_calls_def no_rev_calls_def flush_table_def flush_list_def put_block_def Let_def)
  ultimately show ?thesis
    using reversed_log[OF sample_selects_ok, of ?cs keep_calls "[]"] unfolding run_calls_keep by (auto elim!: yields_mono)
qed

theorem reversed_rename_column_astray_witness:
  "\<exists>r. run_calls (reverser_handler sample_select_table sample_select_list)
      [Select_table 1, Rename_column 7, Select_table 2, Create_object 3, List_move 0 2, Rename_column 7] new_reverser = ok r \<and>
    parse reversed_next_block keep_calls (new_reversed_stream r) [] =
      ok [Rename_column 7, Select_table 2, List_move 0 2, Remove_object 3, Select_table 1]"
proof -
  have "fits uint32 1" "fits uint32 2" "fits int64 7" "fits int64 3" by (simp_all add: fits_nonneg)
  from reversed_rename_column_astray[OF this] show ?thesis unfolding yields_iff .
qed

end
