(* ===== verification/TransactConvenientProperties.thy ===== *)
theory TransactConvenientProperties
  imports TransactConvenientCorrect TransactLogProperties
begin

text \<open>
  The properties of the convenient encoder, and of the whole path of a change: through the encoder
  and its selection cache into the log, back out of the parser, and through the reverser.
\<close>

section \<open>Functions for the witnesses\<close>

text \<open>Functions like \<open>do_select_table\<close> and \<open>do_select_list\<close>.\<close>

definition sample_do_select_table :: "(nat \<Rightarrow> int) \<Rightarrow> do_select_table" where
  "sample_do_select_table key_of t s =
     andthen (with_encoder (sample_select_table (key_of t)) s) (\<lambda>s. ok (s\<lparr>selected_table := Some t\<rparr>))"

definition sample_do_select_list :: "(nat \<Rightarrow> int) \<Rightarrow> do_select_list" where
  "sample_do_select_list key_of l s =
     andthen (ce_select_table (sample_do_select_table key_of) (lst_table l) s) (\<lambda>s.
     andthen (with_encoder (sample_select_list (lst_col l) (lst_obj l)) s) (\<lambda>s.
     ok (s\<lparr>selected_list := link_list_id key_of l\<rparr>)))"

lemma sample_select_writes:
  "fits uint32 k \<Longrightarrow> enc_ok (ce_encoder s) log \<Longrightarrow> length log + 32 < 2 ^ 64 \<Longrightarrow>
   writes (with_encoder (sample_select_table k) s) log [Select_table k] (\<lambda>s'. selected_table s' = selected_table s)"
  "fits int64 c \<Longrightarrow> fits int64 k \<Longrightarrow> enc_ok (ce_encoder s) log \<Longrightarrow> length log + 32 < 2 ^ 64 \<Longrightarrow>
   writes (with_encoder (sample_select_list c k) s) log [Select_list c k] (\<lambda>s'. selected_table s' = selected_table s)"
proof -
  have one: "writes (with_encoder f s) log [c] (\<lambda>s'. selected_table s' = selected_table s)"
    if "appends f bs" "reads_back c bs" "enc_ok (ce_encoder s) log" "length log + 32 < 2 ^ 64" for f bs c
    using that unfolding writes_def with_encoder_def appends_def
    by (auto elim!: yields_mono allE[of _ "ce_encoder s"] allE[of _ log] intro!: exI[of _ "[bs]"])
  show "writes (with_encoder (sample_select_table k) s) log [Select_table k] (\<lambda>s'. selected_table s' = selected_table s)"
    if "fits uint32 k" "enc_ok (ce_encoder s) log" "length log + 32 < 2 ^ 64"
    using that sample_selects_ok one unfolding selects_ok_def by blast
  show "writes (with_encoder (sample_select_list c k) s) log [Select_list c k] (\<lambda>s'. selected_table s' = selected_table s)"
    if "fits int64 c" "fits int64 k" "enc_ok (ce_encoder s) log" "length log + 32 < 2 ^ 64"
    using that sample_selects_ok one unfolding selects_ok_def by blast
qed

lemma writes_then:
  assumes "writes m log cs P"
    and "\<And>s' log'. P s' \<Longrightarrow> enc_ok (ce_encoder s') log' \<Longrightarrow> length log' \<le> length log + 32 * length cs \<Longrightarrow> writes (f s') log' ds Q"
  shows "writes (andthen m f) log (cs @ ds) Q"
proof -
  obtain s' bss where s': "m = ok s'" "P s'" "list_all2 reads_back cs bss" "length (concat bss) \<le> 32 * length cs"
      "enc_ok (ce_encoder s') (log @ concat bss)"
    using assms(1) unfolding writes_def yields_iff by blast
  have "writes (f s') (log @ concat bss) ds Q" using assms(2)[OF s'(2,5)] s'(4) by simp
  then obtain s'' css where s'': "f s' = ok s''" "Q s''" "list_all2 reads_back ds css" "length (concat css) \<le> 32 * length ds"
      "enc_ok (ce_encoder s'') ((log @ concat bss) @ concat css)"
    unfolding writes_def yields_iff by blast
  have "list_all2 reads_back (cs @ ds) (bss @ css) \<and> length (concat (bss @ css)) \<le> 32 * length (cs @ ds) \<and>
      enc_ok (ce_encoder s'') (log @ concat (bss @ css))"
    using s' s'' by (auto intro: list_all2_appendI)
  then show ?thesis using s'(1) s''(1,2) unfolding writes_def by auto
qed

lemma writes_ok: "enc_ok (ce_encoder s) log \<Longrightarrow> Q s \<Longrightarrow> writes (ok s) log [] Q"
  by (simp add: writes_def)

lemma sample_do_select_table_writes:
  assumes "fits uint32 (key_of t)" "enc_ok (ce_encoder s) log" "length log + 32 < 2 ^ 64"
  shows "writes (sample_do_select_table key_of t s) log [Select_table (key_of t)] (\<lambda>s'. selected_table s' = Some t)"
  using writes_then[OF sample_select_writes(1)[OF assms], of "\<lambda>s. ok (s\<lparr>selected_table := Some t\<rparr>)" "[]" "\<lambda>s'. selected_table s' = Some t"]
  by (simp add: sample_do_select_table_def writes_ok)

lemma sample_selecting_ok: "selecting_ok key_of (sample_do_select_table key_of) (sample_do_select_list key_of)"
proof -
  let ?dst = "sample_do_select_table key_of"
  have "writes (sample_do_select_list key_of l s) log (list_selection key_of l s)
      (\<lambda>s'. selected_table s' = Some (lst_table l) \<and> selected_list s' = link_list_id key_of l)"
    if l: "lst_ok key_of l" "enc_ok (ce_encoder s) log" "length log + 64 < 2 ^ 64" for l s log
  proof -
    let ?T = "if selected_table s = Some (lst_table l) then [] else [Select_table (key_of (lst_table l))]"
    have len: "length log + 32 < 2 ^ 64" using l(3) by linarith
    have "writes (ce_select_table ?dst (lst_table l) s) log ?T (\<lambda>s'. selected_table s' = Some (lst_table l))"
    proof (cases "selected_table s = Some (lst_table l)")
      case True
      then show ?thesis using l(2) by (simp add: ce_select_table_def writes_ok)
    next
      case False
      then show ?thesis
        using writes_then[OF sample_do_select_table_writes[OF _ l(2) len], of key_of "lst_table l"
            "\<lambda>s. ok (s\<lparr>selected_list := null_list_id\<rparr>)" "[]" "\<lambda>s'. selected_table s' = Some (lst_table l)"] l(1)
        by (simp add: ce_select_table_def writes_ok lst_ok_def eq_commute)
    qed
    then show ?thesis
      unfolding sample_do_select_list_def list_selection_def
    proof (rule writes_then)
      fix s' :: conv_encoder and log'
      assume s': "selected_table s' = Some (lst_table l)" "enc_ok (ce_encoder s') log'" "length log' \<le> length log + 32 * length ?T"
      have len': "length log' + 32 < 2 ^ 64" using s'(3) l(3) by (auto split: if_splits)
      have "fits int64 (lst_col l)" "fits int64 (lst_obj l)" using l(1) by (auto simp: lst_ok_def)
      from writes_then[OF sample_select_writes(2)[OF this s'(2) len'], of "\<lambda>s. ok (s\<lparr>selected_list := link_list_id key_of l\<rparr>)" "[]"
          "\<lambda>s'. selected_table s' = Some (lst_table l) \<and> selected_list s' = link_list_id key_of l"] s'(1)
      show "writes (andthen (with_encoder (sample_select_list (lst_col l) (lst_obj l)) s') (\<lambda>s. ok (s\<lparr>selected_list := link_list_id key_of l\<rparr>)))
          log' [Select_list (lst_col l) (lst_obj l)] (\<lambda>s'. selected_table s' = Some (lst_table l) \<and> selected_list s' = link_list_id key_of l)"
        by (simp add: writes_ok)
    qed
  qed
  then show ?thesis unfolding selecting_ok_def using sample_do_select_table_writes by blast
qed

section \<open>Changes in the log\<close>

lemma changes_decoded:
  assumes "selecting_ok key_of dst dsl" "\<forall>ch\<in>set chs. change_ok key_of ch" "96 * length chs < 2 ^ 64"
  shows "yields (apply_changes key_of dst dsl chs new_conv_encoder) (\<lambda>s. \<exists>cs. decode_log (written (ce_encoder s)) = (cs, ok ()) \<and>
    well_scoped (None, None) cs \<and> located (None, None) cs = concat (map (intended key_of) chs))"
proof -
  have "yields (apply_changes key_of dst dsl chs new_conv_encoder)
      (\<lambda>s'. \<exists>ds. cinv key_of s' (0 + 3 * length chs) ds ([] @ concat (map (intended key_of) chs)))"
    using assms(3) by (intro cinv_changes[OF assms(1) cinv_new assms(2)]) simp
  then show ?thesis
    using decode_log_reads_back written_enc_ok by (auto simp: cinv_def elim!: yields_mono)
qed

lemma has_block_located: "\<forall>y\<in>set (located x cs). has_block (snd y) \<Longrightarrow> \<forall>c\<in>set cs. has_block c"
proof (induction cs arbitrary: x)
  case (Cons c cs)
  have "has_block c" using Cons.prems by (cases "is_select c") (auto elim: is_select.elims)
  moreover have "\<forall>y\<in>set (located (select c x) cs). has_block (snd y)" using Cons.prems by simp
  ultimately show ?case using Cons.IH[of "select c x"] by simp
qed simp

text \<open>C1. The log of the convenient encoder, with its selection cache, says what was changed: parsing
  it ends normally, every change is found in it in order as the right instruction with the right
  arguments, and when that instruction is reached the selected table is the table changed and the
  selected list the list changed. Changes that write nothing (default values, empty substrings) are not in it.\<close>

theorem changes_in_log:
  assumes "selecting_ok key_of dst dsl" "\<forall>ch\<in>set chs. change_ok key_of ch" "96 * length chs < 2 ^ 64"
  shows "yields (apply_changes key_of dst dsl chs new_conv_encoder) (\<lambda>s. \<exists>cs. decode_log (written (ce_encoder s)) = (cs, ok ()) \<and>
    located (None, None) cs = concat (map (intended key_of) chs))"
  using changes_decoded[OF assms] by (auto elim!: yields_mono)

text \<open>A group of two tables with a list, and some changes.\<close>

definition sample_keys :: "nat \<Rightarrow> int" where
  "sample_keys t = (if t = 1000 then 5 else 6)"

definition sample_lst :: lst where
  "sample_lst = \<lparr>lst_table = 1000, lst_col = 3, lst_obj = 4\<rparr>"

definition sample_changes :: "change list" where
  "sample_changes =
     [In_table 1000 (Create 4), In_list sample_lst (Insert_element 0), In_list sample_lst (Set_element 0),
      In_table 2000 (Set_value 8 9 instr_SetDefault), In_table 1000 (Clear 2), In_list sample_lst (Erase_element 0)]"

lemma sample_changes_ok: "\<forall>ch\<in>set sample_changes. change_ok sample_keys ch" "length sample_changes = 6"
  by (simp_all add: sample_changes_def sample_keys_def sample_lst_def lst_ok_def link_list_id_def null_list_id_def fits_nonneg)

theorem changes_in_log_witness:
  "\<exists>s cs. apply_changes sample_keys (sample_do_select_table sample_keys) (sample_do_select_list sample_keys) sample_changes new_conv_encoder = ok s \<and>
     decode_log (written (ce_encoder s)) = (cs, ok ()) \<and>
     located (None, None) cs =
       [((Some 5, None), Create_object 4), ((Some 5, Some (3, 4)), List_insert 0), ((Some 5, Some (3, 4)), List_set 0),
        ((Some 5, None), Clear_table 2), ((Some 5, Some (3, 4)), List_erase 0)]"
proof -
  have "concat (map (intended sample_keys) sample_changes) =
       [((Some 5, None), Create_object 4), ((Some 5, Some (3, 4)), List_insert 0), ((Some 5, Some (3, 4)), List_set 0),
        ((Some 5, None), Clear_table 2), ((Some 5, Some (3, 4)), List_erase 0)]"
    by (simp add: sample_changes_def sample_keys_def sample_lst_def)
  then show ?thesis
    using changes_in_log[OF sample_selecting_ok sample_changes_ok(1)] sample_changes_ok(2) unfolding yields_iff by simp
qed

end
