(* ===== verification/ObjectChanges.thy ===== *)
theory ObjectChanges
  imports Exceptions "HOL-Library.AList"
begin

text \<open>
  \<open>ObjectChangeSet\<close> (include/object_changeset.hpp, object_changeset.cpp): which objects of a table were
  inserted, deleted and modified. A hash set is a list without duplicates, a hash map an association list;
  the order of their elements stands for the iteration order. \<open>verify\<close> is empty without \<open>REALM_DEBUG\<close>.
\<close>

section \<open>Data\<close>

type_synonym object_set = "int list"

record object_changes =
  oc_deletions :: object_set
  oc_insertions :: object_set
  oc_modifications :: "(int \<times> object_set) list"
  clear_did_occur :: bool

definition no_object_changes :: object_changes where
  "no_object_changes = \<lparr>oc_deletions = [], oc_insertions = [], oc_modifications = [], clear_did_occur = False\<rparr>"

definition oc_empty :: "object_changes \<Rightarrow> bool" where
  "oc_empty c \<longleftrightarrow> oc_deletions c = [] \<and> oc_insertions c = [] \<and> oc_modifications c = [] \<and> \<not> clear_did_occur c"

text \<open>\<open>m_modifications[obj]\<close> creates an empty set for a new key.\<close>

definition columns_of :: "(int \<times> object_set) list \<Rightarrow> int \<Rightarrow> object_set" where
  "columns_of ms obj = (case map_of ms obj of None \<Rightarrow> [] | Some cols \<Rightarrow> cols)"

section \<open>Single changes\<close>

definition insertions_add :: "int \<Rightarrow> object_changes \<Rightarrow> object_changes" where
  "insertions_add obj c = c\<lparr>oc_insertions := List.insert obj (oc_insertions c)\<rparr>"

definition modifications_add :: "int \<Rightarrow> int \<Rightarrow> object_changes \<Rightarrow> object_changes" where
  "modifications_add obj col c =
     (if obj \<notin> set (oc_insertions c)
      then c\<lparr>oc_modifications := AList.update obj (List.insert col (columns_of (oc_modifications c) obj)) (oc_modifications c)\<rparr>
      else c)"

definition deletions_add :: "int \<Rightarrow> object_changes \<Rightarrow> object_changes" where
  "deletions_add obj c =
     (let c = c\<lparr>oc_modifications := AList.delete obj (oc_modifications c)\<rparr>
      in if obj \<in> set (oc_insertions c) then c\<lparr>oc_insertions := remove1 obj (oc_insertions c)\<rparr>
         else c\<lparr>oc_deletions := List.insert obj (oc_deletions c)\<rparr>)"

definition oc_clear :: "nat \<Rightarrow> object_changes \<Rightarrow> object_changes" where
  "oc_clear old_size c = \<lparr>oc_deletions = [], oc_insertions = [], oc_modifications = [], clear_did_occur = True\<rparr>"

definition insertions_remove :: "int \<Rightarrow> object_changes \<Rightarrow> bool \<times> object_changes" where
  "insertions_remove obj c = (obj \<in> set (oc_insertions c), c\<lparr>oc_insertions := remove1 obj (oc_insertions c)\<rparr>)"

definition modifications_remove :: "int \<Rightarrow> object_changes \<Rightarrow> bool \<times> object_changes" where
  "modifications_remove obj c =
     (obj \<in> fst ` set (oc_modifications c), c\<lparr>oc_modifications := AList.delete obj (oc_modifications c)\<rparr>)"

definition deletions_remove :: "int \<Rightarrow> object_changes \<Rightarrow> bool \<times> object_changes" where
  "deletions_remove obj c = (obj \<in> set (oc_deletions c), c\<lparr>oc_deletions := remove1 obj (oc_deletions c)\<rparr>)"

section \<open>Queries\<close>

definition deletions_contains :: "object_changes \<Rightarrow> int \<Rightarrow> bool" where
  "deletions_contains c obj = (if clear_did_occur c then obj \<notin> set (oc_insertions c) else obj \<in> set (oc_deletions c))"

definition insertions_contains :: "object_changes \<Rightarrow> int \<Rightarrow> bool" where
  "insertions_contains c obj \<longleftrightarrow> obj \<in> set (oc_insertions c)"

definition modifications_contains :: "object_changes \<Rightarrow> int \<Rightarrow> bool" where
  "modifications_contains c obj \<longleftrightarrow> obj \<in> fst ` set (oc_modifications c)"

definition get_columns_modified :: "object_changes \<Rightarrow> int \<Rightarrow> object_set option" where
  "get_columns_modified c obj = map_of (oc_modifications c) obj"

definition insertions_empty :: "object_changes \<Rightarrow> bool" where
  "insertions_empty c \<longleftrightarrow> oc_insertions c = []"

definition modifications_empty :: "object_changes \<Rightarrow> bool" where
  "modifications_empty c \<longleftrightarrow> oc_modifications c = []"

definition deletions_empty :: "object_changes \<Rightarrow> bool" where
  "deletions_empty c \<longleftrightarrow> oc_deletions c = []"

definition insertions_size :: "object_changes \<Rightarrow> nat" where
  "insertions_size c = length (oc_insertions c)"

definition modifications_size :: "object_changes \<Rightarrow> nat" where
  "modifications_size c = length (oc_modifications c)"

definition deletions_size :: "object_changes \<Rightarrow> nat" where
  "deletions_size c = length (oc_deletions c)"

section \<open>Merging\<close>

text \<open>
  The loop over \<open>other.m_deletions\<close>. For an object inserted before, it passes its iterator into
  \<open>other.m_deletions\<close> to \<open>m_deletions.erase\<close>, a different container, which is undefined.
\<close>

fun drop_inserted_then_deleted :: "int list \<Rightarrow> object_changes \<Rightarrow> object_changes option" where
  "drop_inserted_then_deleted [] c = Some c"
| "drop_inserted_then_deleted (obj # objs) c =
     (let previously_inserted = obj \<in> set (oc_insertions c);
          c = c\<lparr>oc_modifications := AList.delete obj (oc_modifications c)\<rparr>
      in if previously_inserted then None else drop_inserted_then_deleted objs c)"

definition merge_object_modifications :: "(int \<times> object_set) list \<Rightarrow> (int \<times> object_set) list \<Rightarrow> (int \<times> object_set) list" where
  "merge_object_modifications ms others =
     fold (\<lambda>(obj, cols) ms. AList.update obj (fold List.insert cols (columns_of ms obj)) ms) others ms"

definition oc_merge :: "object_changes \<Rightarrow> object_changes \<Rightarrow> object_changes option" where
  "oc_merge c other =
     (if oc_empty other then Some c
      else if oc_empty c then Some other
      else do {
        let c = c\<lparr>clear_did_occur := clear_did_occur c \<or> clear_did_occur other\<rparr>;
        c \<leftarrow> drop_inserted_then_deleted (oc_deletions other) c;
        let c = c\<lparr>oc_insertions := fold List.insert (oc_insertions other) (oc_insertions c)\<rparr>;
        let c = c\<lparr>oc_deletions := fold List.insert (oc_deletions other) (oc_deletions c)\<rparr>;
        Some (c\<lparr>oc_modifications := merge_object_modifications (oc_modifications c) (oc_modifications other)\<rparr>)
      })"

end
