(* ===== verification/TransactObserver.thy ===== *)
theory TransactObserver
  imports TransactSelections CollectionChange ObjectChanges
begin

text \<open>
  impl/transact_log_handler.cpp: the instruction handlers of the object store.
  \<open>TransactLogValidator\<close> only refuses instructions that the object store does not support;
  \<open>TransactLogObserver\<close> also records the changes of lists and tables in a \<open>TransactionChangeInfo\<close>
  (impl/collection_notifier.hpp). The \<open>CollectionChangeBuilder\<close>s that \<open>ListChangeInfo\<close>s point to are
  a list, the pointers indexes into it; a pointer to an entry of the hash map \<open>tables\<close> is the key of the entry.
\<close>

section \<open>Data\<close>

record list_change_info =
  li_table :: int
  li_row :: int
  li_col :: int
  li_changes :: nat

record change_info =
  info_lists :: "list_change_info list"
  info_tables :: "(int \<times> object_changes) list"
  track_all :: bool
  schema_changed :: bool

text \<open>The members of the observer, and the builders its \<open>info\<close> points to.\<close>

record observer =
  ob_info :: change_info
  current_table :: int
  active_list :: "nat option"
  active_table :: "int option"
  builders :: "change_builder list"

definition null_table :: int where
  "null_table = 2 ^ 31 - 1"

definition new_observer :: "change_info \<Rightarrow> change_builder list \<Rightarrow> observer" where
  "new_observer info bs =
     \<lparr>ob_info = info, current_table = null_table, active_list = None, active_table = None, builders = bs\<rparr>"

section \<open>Validation\<close>

text \<open>\<open>TransactLogValidationMixin\<close>, on the instructions a subclass does not handle itself.\<close>

fun validate :: "call \<Rightarrow> bool action" where
  "validate (Erase_group_level_table k) = throw UnsupportedSchemaChange"
| "validate (Rename_group_level_table k) = throw UnsupportedSchemaChange"
| "validate (Erase_column c) = throw UnsupportedSchemaChange"
| "validate (Rename_column c) = throw UnsupportedSchemaChange"
| "validate c = ok True"

text \<open>\<open>TransactLogValidator\<close>; its state is the selected table.\<close>

definition validator_handler :: "call \<Rightarrow> int \<Rightarrow> (bool \<times> int) action" where
  "validator_handler c table =
     andthen (validate c) (\<lambda>accepted. ok (accepted, case c of Select_table k \<Rightarrow> k | _ \<Rightarrow> table))"

section \<open>The observer\<close>

definition table_changes_at :: "(int \<times> object_changes) list \<Rightarrow> int \<Rightarrow> object_changes" where
  "table_changes_at ts k = (case map_of ts k of None \<Rightarrow> no_object_changes | Some c \<Rightarrow> c)"

definition set_tables :: "((int \<times> object_changes) list \<Rightarrow> (int \<times> object_changes) list) \<Rightarrow> observer \<Rightarrow> observer" where
  "set_tables f ob = ob\<lparr>ob_info := (ob_info ob)\<lparr>info_tables := f (info_tables (ob_info ob))\<rparr>\<rparr>"

text \<open>A change of \<open>*m_active_table\<close>, if there is one.\<close>

definition on_active_table :: "(object_changes \<Rightarrow> object_changes) \<Rightarrow> observer \<Rightarrow> observer" where
  "on_active_table f ob =
     (case active_table ob of
        None \<Rightarrow> ob
      | Some k \<Rightarrow> set_tables (\<lambda>ts. AList.update k (f (table_changes_at ts k)) ts) ob)"

text \<open>A change of \<open>*m_active_list\<close>, if there is one.\<close>

definition on_active_list :: "(change_builder \<Rightarrow> change_builder option) \<Rightarrow> observer \<Rightarrow> observer option" where
  "on_active_list f ob =
     (case active_list ob of
        None \<Rightarrow> Some ob
      | Some p \<Rightarrow> do { realm_assert (p < length (builders ob)); b \<leftarrow> f (builders ob ! p); Some (ob\<lparr>builders := (builders ob)[p := b]\<rparr>) })"

definition find_list :: "int \<Rightarrow> int \<Rightarrow> observer \<Rightarrow> nat option" where
  "find_list obj col ob =
     map_option li_changes (find (\<lambda>l. li_table l = current_table ob \<and> li_row l = obj \<and> li_col l = col)
       (rev (info_lists (ob_info ob))))"

definition ob_select_table :: "int \<Rightarrow> observer \<Rightarrow> observer" where
  "ob_select_table key ob =
     (let ob = ob\<lparr>current_table := key\<rparr> in
      if track_all (ob_info ob)
      then (set_tables (\<lambda>ts. AList.update key (table_changes_at ts key) ts) ob)\<lparr>active_table := Some key\<rparr>
      else ob\<lparr>active_table := if key \<in> fst ` set (info_tables (ob_info ob)) then Some key else None\<rparr>)"

definition ob_modify_object :: "int \<Rightarrow> int \<Rightarrow> observer \<Rightarrow> observer" where
  "ob_modify_object col key ob = on_active_table (modifications_add key col) ob"

definition ob_select_list :: "int \<Rightarrow> int \<Rightarrow> observer \<Rightarrow> observer" where
  "ob_select_list col obj ob = (let ob = ob_modify_object col obj ob in ob\<lparr>active_list := find_list obj col ob\<rparr>)"

definition ob_list_set :: "nat \<Rightarrow> observer \<Rightarrow> observer option" where
  "ob_list_set index = on_active_list (\<lambda>b. cb_modify b index None)"

definition ob_list_insert :: "nat \<Rightarrow> observer \<Rightarrow> observer option" where
  "ob_list_insert index = on_active_list (\<lambda>b. cb_insert b index 1 True)"

definition ob_list_erase :: "nat \<Rightarrow> observer \<Rightarrow> observer option" where
  "ob_list_erase index = on_active_list (\<lambda>b. cb_erase b index)"

definition ob_list_swap :: "nat \<Rightarrow> nat \<Rightarrow> observer \<Rightarrow> observer option" where
  "ob_list_swap index1 index2 = on_active_list (\<lambda>b.
     let (index1, index2) = (if index1 > index2 then (index2, index1) else (index1, index2))
     in do {
       b \<leftarrow> cb_move b index1 index2;
       if index1 + 1 \<noteq> index2 then cb_move b (index2 - 1) index1 else Some b
     })"

definition ob_list_clear :: "nat \<Rightarrow> observer \<Rightarrow> observer option" where
  "ob_list_clear old_size = on_active_list (\<lambda>b. cb_clear b old_size)"

definition ob_list_move :: "nat \<Rightarrow> nat \<Rightarrow> observer \<Rightarrow> observer option" where
  "ob_list_move from to = on_active_list (\<lambda>b. cb_move b from to)"

definition ob_create_object :: "int \<Rightarrow> observer \<Rightarrow> observer" where
  "ob_create_object key ob = on_active_table (insertions_add key) ob"

text \<open>
  The loop of \<open>remove_object\<close> over the lists: an entry is removed by moving the last one into its
  place; the index goes on to the next place.
\<close>

function remove_lists_of :: "int \<Rightarrow> int \<Rightarrow> nat \<Rightarrow> list_change_info list \<Rightarrow> list_change_info list" where
  "remove_lists_of table key i ls =
     (if i \<ge> length ls then ls
      else if li_table (ls ! i) = table \<and> li_row (ls ! i) = key
      then remove_lists_of table key (i + 1) (butlast (if i + 1 < length ls then ls[i := last ls] else ls))
      else remove_lists_of table key (i + 1) ls)"
  by pat_completeness auto
termination by (relation "measure (\<lambda>(table, key, i, ls). length ls - i)") auto

declare remove_lists_of.simps [simp del]

definition set_lists :: "(list_change_info list \<Rightarrow> list_change_info list) \<Rightarrow> observer \<Rightarrow> observer" where
  "set_lists f ob = ob\<lparr>ob_info := (ob_info ob)\<lparr>info_lists := f (info_lists (ob_info ob))\<rparr>\<rparr>"

definition remove_from_table :: "int \<Rightarrow> object_changes \<Rightarrow> object_changes" where
  "remove_from_table key c =
     (let (removed, c) = insertions_remove key c; c = (if \<not> removed then deletions_add key c else c)
      in snd (modifications_remove key c))"

definition ob_remove_object :: "int \<Rightarrow> observer \<Rightarrow> observer" where
  "ob_remove_object key ob =
     (if active_table ob = None then ob
      else let ob = on_active_table (remove_from_table key) ob
           in set_lists (remove_lists_of (current_table ob) key 0) ob)"

definition ob_clear_table :: "nat \<Rightarrow> observer \<Rightarrow> observer" where
  "ob_clear_table old_size ob =
     set_lists (filter (\<lambda>l. li_table l \<noteq> current_table ob)) (on_active_table (oc_clear old_size) ob)"

definition set_schema_changed :: "observer \<Rightarrow> observer" where
  "set_schema_changed ob = ob\<lparr>ob_info := (ob_info ob)\<lparr>schema_changed := True\<rparr>\<rparr>"

fun observe :: "call \<Rightarrow> observer \<Rightarrow> observer option" where
  "observe (Select_table k) ob = Some (ob_select_table k ob)"
| "observe (Select_list c k) ob = Some (ob_select_list c k ob)"
| "observe (Insert_group_level_table k) ob = Some (set_schema_changed ob)"
| "observe (Create_object k) ob = Some (ob_create_object k ob)"
| "observe (Remove_object k) ob = Some (ob_remove_object k ob)"
| "observe (Modify_object c k) ob = Some (ob_modify_object c k ob)"
| "observe (Clear_table n) ob = Some (ob_clear_table (nat n) ob)"
| "observe (Insert_column c) ob = Some (set_schema_changed ob)"
| "observe (List_set n) ob = ob_list_set (nat n) ob"
| "observe (List_insert n) ob = ob_list_insert (nat n) ob"
| "observe (List_move a b) ob = ob_list_move (nat a) (nat b) ob"
| "observe (List_swap a b) ob = ob_list_swap (nat a) (nat b) ob"
| "observe (List_erase n) ob = ob_list_erase (nat n) ob"
| "observe (List_clear n) ob = ob_list_clear (nat n) ob"
| "observe c ob = Some ob"

text \<open>\<open>TransactLogObserver\<close>; what it does not handle itself is inherited.\<close>

definition observer_handler :: "call \<Rightarrow> observer \<Rightarrow> (bool \<times> observer) action" where
  "observer_handler c ob = andthen (validate c) (\<lambda>accepted. andthen (lift (observe c ob)) (\<lambda>ob. ok (accepted, ob)))"

section \<open>The end of a log\<close>

fun clean_up_lists :: "list_change_info list \<Rightarrow> change_builder list \<Rightarrow> change_builder list option" where
  "clean_up_lists [] bs = Some bs"
| "clean_up_lists (l # ls) bs =
     do {
       realm_assert (li_changes l < length bs);
       b \<leftarrow> clean_up_stale_moves (bs ! li_changes l);
       clean_up_lists ls (bs[li_changes l := b])
     }"

definition parse_complete :: "observer \<Rightarrow> observer option" where
  "parse_complete ob =
     do {
       bs \<leftarrow> clean_up_lists (info_lists (ob_info ob)) (builders ob);
       Some (set_tables (filter (\<lambda>(k, c). \<not> oc_empty c)) (ob\<lparr>builders := bs\<rparr>))
     }"

text \<open>
  What \<open>Transaction::internal_advance_read\<close> and \<open>rollback_and_continue_as_read\<close> (realm/db.hpp) do with an
  observer: a parser reads the log for it, then its \<open>parse_complete\<close> is called.
\<close>

definition advance_with_observer :: "'s next_block \<Rightarrow> 's \<Rightarrow> observer \<Rightarrow> observer action" where
  "advance_with_observer nb log ob = andthen (parse nb observer_handler log ob) (\<lambda>ob. lift (parse_complete ob))"

text \<open>
  \<open>advance(Transaction&, TransactionChangeInfo&, VersionID)\<close>: without anything to record the log is not
  read by an observer.
\<close>

definition advance_info :: "'s next_block \<Rightarrow> 's \<Rightarrow> change_info \<Rightarrow> change_builder list \<Rightarrow> observer action" where
  "advance_info nb log info bs =
     (if \<not> track_all info \<and> info_tables info = [] \<and> info_lists info = [] then ok (new_observer info bs)
      else advance_with_observer nb log (new_observer info bs))"

end
