(* ===== verification/ObservedLists.thy ===== *)
theory ObservedLists
  imports TransactObserver CollectionChangeMerge
begin

text \<open>
  What \<open>TransactLogObserver\<close> records of lists: when the instructions of a log are executed on lists,
  the change set of every observed list leads from the old rows to the new ones, and marks the rows that were set.
\<close>

section \<open>Lists\<close>

text \<open>The elements of a list with a mark on those that were set. An inserted element is not marked.\<close>

type_synonym 'a slots = "('a \<times> bool) list"

inductive list_step :: "call \<Rightarrow> 'a slots \<Rightarrow> 'a slots \<Rightarrow> bool" where
  Set: "n < length ys \<Longrightarrow> list_step (List_set (int n)) ys (ys[n := (fst (ys ! n), True)])"
| Insert: "n \<le> length ys \<Longrightarrow> length ys < npos \<Longrightarrow> list_step (List_insert (int n)) ys (take n ys @ (x, False) # drop n ys)"
| Move: "a < length ys \<Longrightarrow> b < length ys \<Longrightarrow> a \<noteq> b \<Longrightarrow> list_step (List_move (int a) (int b)) ys
    (let zs = take a ys @ drop (Suc a) ys in take b zs @ ys ! a # drop b zs)"
| Swap: "a < length ys \<Longrightarrow> b < length ys \<Longrightarrow> a \<noteq> b \<Longrightarrow> list_step (List_swap (int a) (int b)) ys (ys[a := ys ! b, b := ys ! a])"
| Erase: "n < length ys \<Longrightarrow> list_step (List_erase (int n)) ys (take n ys @ drop (Suc n) ys)"
| Clear: "list_step (List_clear (int (length ys))) ys []"

inductive_simps list_step_simps:
  "list_step (List_set n) ys zs" "list_step (List_insert n) ys zs" "list_step (List_move a b) ys zs"
  "list_step (List_swap a b) ys zs" "list_step (List_erase n) ys zs" "list_step (List_clear n) ys zs"

lemma list_step_is_list_op: "list_step c ys zs \<Longrightarrow> is_list_op c"
  by (induction rule: list_step.induct) simp_all

lemma list_step_length: "list_step c ys zs \<Longrightarrow> length ys \<le> npos \<Longrightarrow> length zs \<le> npos"
  by (induction rule: list_step.induct) (auto simp: Let_def)

definition marked :: "'a slots \<Rightarrow> nat set" where
  "marked ys = {i. i < length ys \<and> snd (ys ! i)}"

definition records :: "change_builder \<Rightarrow> 'a list \<Rightarrow> 'a slots \<Rightarrow> bool" where
  "records b xs ys \<longleftrightarrow> describes b xs (map fst ys) \<and> tracked b None = marked ys"

section \<open>One instruction\<close>

text \<open>The operation of the change builder for an instruction.\<close>

fun list_effect :: "call \<Rightarrow> change_builder \<Rightarrow> change_builder option" where
  "list_effect (List_set n) b = cb_modify b (nat n) None"
| "list_effect (List_insert n) b = cb_insert b (nat n) 1 True"
| "list_effect (List_move i j) b = cb_move b (nat i) (nat j)"
| "list_effect (List_swap i j) b =
     (let (i, j) = (if nat i > nat j then (nat j, nat i) else (nat i, nat j))
      in do { b \<leftarrow> cb_move b i j; if i + 1 \<noteq> j then cb_move b (j - 1) i else Some b })"
| "list_effect (List_erase n) b = cb_erase b (nat n)"
| "list_effect (List_clear n) b = cb_clear b (nat n)"
| "list_effect c b = Some b"

lemma list_effect_fun:
  "list_effect (List_set n) = (\<lambda>b. cb_modify b (nat n) None)"
  "list_effect (List_insert n) = (\<lambda>b. cb_insert b (nat n) 1 True)"
  "list_effect (List_move i j) = (\<lambda>b. cb_move b (nat i) (nat j))"
  "list_effect (List_swap i j) = (\<lambda>b. let (i, j) = (if nat i > nat j then (nat j, nat i) else (nat i, nat j))
      in do { b \<leftarrow> cb_move b i j; if i + 1 \<noteq> j then cb_move b (j - 1) i else Some b })"
  "list_effect (List_erase n) = (\<lambda>b. cb_erase b (nat n))"
  "list_effect (List_clear n) = (\<lambda>b. cb_clear b (nat n))"
  by (rule ext, simp only: list_effect.simps)+

lemma observe_list_op: "is_list_op c \<Longrightarrow> observe c ob = on_active_list (list_effect c) ob"
  by (cases c)
    (simp_all only: observe.simps is_list_op.simps list_effect_fun ob_list_set_def ob_list_insert_def ob_list_move_def
      ob_list_swap_def ob_list_erase_def ob_list_clear_def)

text \<open>The marks of a list, and of its parts.\<close>

lemma marked_simps [simp]:
  "marked [] = {}" "marked (y # ys) = (if snd y then {0} else {}) \<union> Suc ` marked ys"
proof -
  have "i \<in> marked (y # ys) \<longleftrightarrow> i \<in> (if snd y then {0} else {}) \<union> Suc ` marked ys" for i
    by (cases i) (auto simp: marked_def)
  then show "marked (y # ys) = (if snd y then {0} else {}) \<union> Suc ` marked ys" by blast
qed (simp add: marked_def)

lemma marked_append: "marked (xs @ ys) = marked xs \<union> (+) (length xs) ` marked ys"
  by (induction xs) (auto simp: image_Un image_image)

lemma marked_less: "i \<in> marked ys \<Longrightarrow> i < length ys"
  by (simp add: marked_def)

lemma marked_insert_rows: "n \<le> length ys \<Longrightarrow>
  marked (insert_rows n [y] ys) = (if snd y then {n} else {}) \<union> open_gap n 1 (marked ys)"
proof -
  assume n: "n \<le> length ys"
  have y: "marked ys = marked (take n ys) \<union> (+) n ` marked (drop n ys)"
    using marked_append[of "take n ys" "drop n ys"] n by (simp add: min_absorb2)
  have "open_gap n 1 (marked ys) = marked (take n ys) \<union> (\<lambda>i. n + Suc i) ` marked (drop n ys)"
    unfolding y open_gap_def using marked_less[of _ "take n ys"] n by (force simp: image_Un image_image)
  then show ?thesis
    using n by (auto simp: insert_rows_def marked_append image_image min_absorb2)
qed

lemma marked_remove_row: "n < length ys \<Longrightarrow> marked (remove_row n ys) = close_gap n (marked ys)"
proof -
  assume n: "n < length ys"
  have y: "marked ys = marked (take n ys) \<union> (if snd (ys ! n) then {n} else {}) \<union> (\<lambda>i. n + Suc i) ` marked (drop (Suc n) ys)"
    using marked_append[of "take n ys" "ys ! n # drop (Suc n) ys"] n id_take_nth_drop[OF n]
    by (auto simp: min_absorb2 image_Un image_image)
  let ?f = "\<lambda>x. if x < n then x else x - 1"
  have a: "?f ` (marked (take n ys) - {n}) = marked (take n ys)"
    using marked_less[of _ "take n ys"] n by (force simp: min_absorb2)
  have b: "?f ` ((\<lambda>i. n + Suc i) ` B - {n}) = (+) n ` B" for B
  proof -
    have "(\<lambda>i. n + Suc i) ` B - {n} = (\<lambda>i. n + Suc i) ` B" by auto
    then show ?thesis by (simp only: image_image) simp
  qed
  have "close_gap n (marked ys) = marked (take n ys) \<union> (+) n ` marked (drop (Suc n) ys)"
    unfolding y close_gap_def Un_Diff image_Un a b by auto
  then show ?thesis using n by (simp add: remove_row_def marked_append min_absorb2)
qed

lemma marked_move_row:
  assumes "a < length ys" "b < length ys"
  shows "marked (move_row a b ys) = (if a \<in> marked ys then {b} else {}) \<union> back_to {b} {a} ` (marked ys - {a})"
proof -
  have "open_gap b 1 (close_gap a (marked ys)) = back_to {b} {a} ` (marked ys - {a})"
    by (simp add: open_gap_shift close_gap_unshift image_image back_to_def)
  then show ?thesis
    using assms marked_less unfolding move_row_def
    by (subst marked_insert_rows) (auto simp: marked_remove_row marked_def[of ys])
qed

lemma map_rows [simp]:
  "map f (insert_rows n zs ys) = insert_rows n (map f zs) (map f ys)"
  "map f (remove_row n ys) = remove_row n (map f ys)"
  "a < length ys \<Longrightarrow> map f (move_row a b ys) = move_row a b (map f ys)"
  by (simp_all add: insert_rows_def remove_row_def move_row_def take_map drop_map)

lemma records_insert:
  assumes "records b xs ys" "n \<le> length ys"
  shows "returns (cb_insert b n 1 True) (\<lambda>b'. records b' xs (insert_rows n [(x, False)] ys))"
  using insert_props[of b xs "map fst ys" n "[x]"] assms
  by (auto simp: records_def marked_insert_rows elim!: returns_mono)

lemma records_erase:
  assumes "records b xs ys" "n < length ys" "length ys \<le> npos"
  shows "returns (cb_erase b n) (\<lambda>b'. records b' xs (remove_row n ys))"
  using erase_props[of b xs "map fst ys" n] assms
  by (auto simp: records_def marked_remove_row elim!: returns_mono)

lemma records_move:
  assumes "records b xs ys" "i < length ys" "j < length ys" "i \<noteq> j" "length ys \<le> npos"
  shows "returns (cb_move b i j) (\<lambda>b'. records b' xs (move_row i j ys))"
  using move_props[of b xs "map fst ys" i j] assms
  by (auto simp: records_def marked_move_row elim!: returns_mono)

lemma records_set:
  assumes "records b xs ys" "n < length ys"
  shows "returns (cb_modify b n None) (\<lambda>b'. records b' xs (ys[n := (fst (ys ! n), True)]))"
proof -
  have "marked (ys[n := (fst (ys ! n), True)]) = insert n (marked ys)"
    using assms(2) by (auto simp: marked_def nth_list_update)
  moreover have "map fst (ys[n := (fst (ys ! n), True)]) = map fst ys"
    using assms(2) by (metis fst_conv list_update_id map_update)
  ultimately show ?thesis
    using modify_props[of b xs "map fst ys" n None] assms(1) by (auto simp: records_def elim!: returns_mono)
qed

lemma records_clear:
  assumes "records b xs ys"
  shows "returns (cb_clear b (length ys)) (\<lambda>b'. records b' xs [])"
  using clear_props[of b xs "map fst ys"] assms by (auto simp: records_def elim!: returns_mono)

lemma nth_insert_row: "n \<le> length ys \<Longrightarrow> insert_rows n [y] ys ! k = (if k < n then ys ! k else if k = n then y else ys ! (k - 1))"
  by (simp add: insert_rows_def nth_append min_absorb2 nth_Cons')

lemma nth_remove_row: "n < length ys \<Longrightarrow> remove_row n ys ! k = ys ! (if k < n then k else Suc k)"
  by (simp add: remove_row_def nth_append min_absorb2)

lemma nth_move_row:
  assumes "f < length ys" "t < length ys"
  shows "move_row f t ys ! k = ys ! (if k = t then f else if f \<le> k \<and> k < t then Suc k else if t < k \<and> k \<le> f then k - 1 else k)"
  using assms by (auto simp: move_row_def nth_insert_row nth_remove_row)

text \<open>Two elements are swapped by moving one behind the other and that one forwards.\<close>

lemma swap_moves:
  assumes "i < j" "j < length ys"
  shows "ys[i := ys ! j, j := ys ! i] = (if i + 1 \<noteq> j then move_row (j - 1) i (move_row i j ys) else move_row i j ys)"
proof (rule nth_equalityI)
  fix k
  assume "k < length (ys[i := ys ! j, j := ys ! i])"
  then have k: "k < length ys" by simp
  have l: "ys[i := ys ! j, j := ys ! i] ! k = ys ! (if k = i then j else if k = j then i else k)"
    using assms k by (auto simp: nth_list_update)
  show "ys[i := ys ! j, j := ys ! i] ! k =
      (if i + 1 \<noteq> j then move_row (j - 1) i (move_row i j ys) else move_row i j ys) ! k"
  proof (cases "i + 1 = j")
    case True
    have "move_row i j ys ! k = ys ! (if k = j then i else if i \<le> k \<and> k < j then Suc k else if j < k \<and> k \<le> i then k - 1 else k)"
      using nth_move_row[of i ys j k] assms k by simp
    then show ?thesis unfolding l using True k by (auto intro!: arg_cong[of _ _ "(!) ys"])
  next
    case False
    let ?m = "if k = i then j - 1 else if j - 1 \<le> k \<and> k < i then Suc k else if i < k \<and> k \<le> j - 1 then k - 1 else k"
    have "move_row (j - 1) i (move_row i j ys) ! k = move_row i j ys ! ?m"
      using nth_move_row[of "j - 1" "move_row i j ys" i k] assms k by simp
    also have "\<dots> = ys ! (if ?m = j then i else if i \<le> ?m \<and> ?m < j then Suc ?m else if j < ?m \<and> ?m \<le> i then ?m - 1 else ?m)"
      using assms k by (intro nth_move_row) auto
    also have "\<dots> = ys ! (if k = i then j else if k = j then i else k)"
    proof (rule arg_cong[of _ _ "(!) ys"])
      consider "k < i" | "k = i" | "i < k" "k < j" | "k = j" | "j < k" by linarith
      then show "(if ?m = j then i else if i \<le> ?m \<and> ?m < j then Suc ?m else if j < ?m \<and> ?m \<le> i then ?m - 1 else ?m) =
          (if k = i then j else if k = j then i else k)"
        using assms False by cases (simp_all, linarith+)
    qed
    finally show ?thesis unfolding l using False by simp
  qed
qed (use assms in auto)

lemma records_swap:
  assumes "records b xs ys" "i < j" "j < length ys" "length ys \<le> npos"
  shows "returns (do { b \<leftarrow> cb_move b i j; if i + 1 \<noteq> j then cb_move b (j - 1) i else Some b })
    (\<lambda>b'. records b' xs (ys[i := ys ! j, j := ys ! i]))"
proof -
  obtain b1 where b1: "cb_move b i j = Some b1" "records b1 xs (move_row i j ys)"
    using records_move[OF assms(1), of i j] assms(2-) by (auto simp: returns_iff)
  show ?thesis
  proof (cases "i + 1 = j")
    case True
    then show ?thesis using b1 swap_moves[OF assms(2,3)] by simp
  next
    case False
    have "returns (cb_move b1 (j - 1) i) (\<lambda>b'. records b' xs (move_row (j - 1) i (move_row i j ys)))"
      using assms(2-) False by (intro records_move[OF b1(2)]) auto
    then show ?thesis using b1 False swap_moves[OF assms(2,3)] by simp
  qed
qed

lemma list_step_records:
  assumes "list_step c ys zs" "records b xs ys" "length ys \<le> npos"
  shows "returns (list_effect c b) (\<lambda>b'. records b' xs zs)"
  using assms
proof (induction rule: list_step.induct)
  case (Insert n ys x)
  then show ?case using records_insert[of b xs ys n x] by (simp add: insert_rows_def)
next
  case (Move i ys j)
  then show ?case using records_move[of b xs ys i j] by (simp add: move_row_def insert_rows_def remove_row_def Let_def)
next
  case (Swap i ys j)
  have sym: "ys[i := ys ! j, j := ys ! i] = ys[j := ys ! i, i := ys ! j]"
    using Swap.hyps(3) by (simp add: list_update_swap)
  show ?case
    using Swap records_swap[of b xs ys i j] records_swap[of b xs ys j i] sym by (simp add: Let_def)
next
  case (Erase n ys)
  then show ?case using records_erase[of b xs ys n] by (simp add: remove_row_def)
qed (simp_all add: records_set records_clear)

section \<open>A database of lists\<close>

text \<open>
  The lists of a database by table, column and object, and the objects that were removed. An
  instruction on a list is only followed as long as its object has not been removed.
\<close>

type_synonym list_key = "int \<times> int \<times> int"
type_synonym 'a list_db = "(list_key \<Rightarrow> 'a slots) \<times> (int \<times> int) set"

fun supported :: "call \<Rightarrow> bool" where
  "supported (Erase_group_level_table k) = False"
| "supported (Rename_group_level_table k) = False"
| "supported (Erase_column c) = False"
| "supported (Rename_column c) = False"
| "supported c = True"

inductive db_step :: "selection \<times> call \<Rightarrow> 'a list_db \<Rightarrow> 'a list_db \<Rightarrow> bool" where
  On_list: "list_step c (L (t, col, k)) ys \<Longrightarrow> (t, k) \<notin> R \<Longrightarrow>
    db_step ((Some t, Some (col, k)), c) (L, R) (L((t, col, k) := ys), R)"
| Remove: "db_step ((Some t, None), Remove_object k) (L, R) (L, insert (t, k) R)"
| Clear_all: "db_step ((Some t, None), Clear_table n) (L, R) (L, R \<union> {t} \<times> UNIV)"
| Other: "supported c \<Longrightarrow> \<not> is_list_op c \<Longrightarrow> (\<forall>k. c \<noteq> Remove_object k) \<Longrightarrow> (\<forall>n. c \<noteq> Clear_table n) \<Longrightarrow>
    db_step (x, c) (L, R) (L, R)"

inductive db_run :: "(selection \<times> call) list \<Rightarrow> 'a list_db \<Rightarrow> 'a list_db \<Rightarrow> bool" where
  Nil: "db_run [] s s"
| Cons: "db_step y s s1 \<Longrightarrow> db_run ys s1 s2 \<Longrightarrow> db_run (y # ys) s s2"

inductive_cases db_run_NilE: "db_run [] s s'"
inductive_cases db_run_ConsE: "db_run (y # ys) s s'"

definition li_key :: "list_change_info \<Rightarrow> list_key" where
  "li_key l = (li_table l, li_col l, li_row l)"

definition li_owner :: "list_change_info \<Rightarrow> int \<times> int" where
  "li_owner l = (li_table l, li_row l)"

definition lists_ok :: "list_change_info list \<Rightarrow> bool" where
  "lists_ok ls \<longleftrightarrow> distinct (map li_key ls) \<and> distinct (map li_changes ls)"

definition ob_inv :: "list_change_info list \<Rightarrow> (list_key \<Rightarrow> 'a list) \<Rightarrow> 'a list_db \<Rightarrow> selection \<Rightarrow> observer \<Rightarrow> bool" where
  "ob_inv ls X s x ob \<longleftrightarrow> set (info_lists (ob_info ob)) \<subseteq> set ls \<and>
     (\<forall>l\<in>set ls. li_owner l \<notin> snd s \<longrightarrow> l \<in> set (info_lists (ob_info ob))) \<and>
     (\<forall>l\<in>set (info_lists (ob_info ob)). li_changes l < length (builders ob) \<and>
        records (builders ob ! li_changes l) (X (li_key l)) (fst s (li_key l)) \<and> length (fst s (li_key l)) \<le> npos) \<and>
     (\<forall>t. fst x = Some t \<longrightarrow> current_table ob = t) \<and>
     (\<forall>t c k. x = (Some t, Some (c, k)) \<longrightarrow> (t, k) \<notin> snd s \<longrightarrow>
        active_list ob = map_option li_changes (find (\<lambda>l. li_key l = (t, c, k)) ls))"

lemma find_unique:
  assumes "l \<in> set ls" "P l" "\<forall>m\<in>set ls. P m \<longrightarrow> m = l"
  shows "find P ls = Some l"
proof (cases "find P ls")
  case None
  then show ?thesis using assms(1,2) by (auto simp: find_None_iff)
next
  case (Some m)
  then have "P m" "m \<in> set ls" by (auto simp: find_Some_iff)
  then show ?thesis using Some assms(3) by simp
qed

lemma find_none: "\<forall>m\<in>set ls. \<not> P m \<Longrightarrow> find P ls = None"
  by (simp add: find_None_iff)

lemma lists_okD:
  assumes "lists_ok ls" "l \<in> set ls" "m \<in> set ls"
  shows "li_key l = li_key m \<Longrightarrow> l = m" "li_changes l = li_changes m \<Longrightarrow> l = m"
  using assms by (auto simp: lists_ok_def distinct_map dest: inj_onD)

lemma remove_lists_of_props:
  "set (remove_lists_of t k i ls) \<subseteq> set ls \<and>
   (\<forall>l\<in>set ls. li_owner l \<noteq> (t, k) \<longrightarrow> l \<in> set (remove_lists_of t k i ls))"
proof (induction t k i ls rule: remove_lists_of.induct)
  case (1 t k i ls)
  consider "length ls \<le> i" | "i < length ls" "li_owner (ls ! i) = (t, k)" | "i < length ls" "li_owner (ls ! i) \<noteq> (t, k)"
    by linarith
  then show ?case
  proof cases
    case 2
    let ?ls = "butlast (if i + 1 < length ls then ls[i := last ls] else ls)"
    have "last ls \<in> set ls" using 2(1) by (intro last_in_set) auto
    then have "set (ls[i := last ls]) \<subseteq> set ls" using set_update_subset_insert[of ls i "last ls"] by auto
    then have "set ?ls \<subseteq> set ls" by (auto dest: in_set_butlastD)
    moreover have "l \<in> set ?ls" if l: "l \<in> set ls" and o: "li_owner l \<noteq> (t, k)" for l
    proof -
      obtain j where j: "j < length ls" "l = ls ! j" using l unfolding in_set_conv_nth by blast
      then have "j \<noteq> i" using o 2(2) by auto
      note j = j this
      show ?thesis
      proof (cases "j = length ls - 1")
        case True
        moreover have "last ls = ls ! (length ls - 1)" using j by (intro last_conv_nth) auto
        ultimately have "?ls ! i = l" "i < length ?ls" using j 2(1) by (auto simp: nth_butlast)
        then show ?thesis by (metis nth_mem)
      next
        case False
        then have "?ls ! j = l" "j < length ?ls" using j 2(1) by (auto simp: nth_butlast)
        then show ?thesis by (metis nth_mem)
      qed
    qed
    moreover have eq: "remove_lists_of t k i ls = remove_lists_of t k (i + 1) ?ls"
      using 2 by (subst remove_lists_of.simps) (simp add: li_owner_def)
    ultimately show ?thesis using 1(1) 2 unfolding eq li_owner_def by auto
  next
    case 3
    then have eq: "remove_lists_of t k i ls = remove_lists_of t k (i + 1) ls"
      by (subst remove_lists_of.simps) (auto simp: li_owner_def)
    show ?thesis using 1(2) 3 unfolding eq li_owner_def by auto
  next
    case 1
    then have eq: "remove_lists_of t k i ls = ls" by (subst remove_lists_of.simps) simp
    show ?thesis unfolding eq by simp
  qed
qed

lemma observe_group:
  assumes "\<not> is_list_op c" "\<not> is_select c" "\<forall>k. c \<noteq> Remove_object k" "\<forall>n. c \<noteq> Clear_table n"
  shows "\<exists>ob'. observe c ob = Some ob' \<and> info_lists (ob_info ob') = info_lists (ob_info ob) \<and> builders ob' = builders ob \<and>
    current_table ob' = current_table ob \<and> active_list ob' = active_list ob"
  using assms
  by (cases c) (auto simp: set_schema_changed_def ob_create_object_def ob_modify_object_def on_active_table_def set_tables_def
      split: option.splits)

lemma ob_remove_object_props:
  "info_lists (ob_info (ob_remove_object k ob)) \<in> {info_lists (ob_info ob), remove_lists_of (current_table ob) k 0 (info_lists (ob_info ob))}"
  "builders (ob_remove_object k ob) = builders ob" "current_table (ob_remove_object k ob) = current_table ob"
  "active_list (ob_remove_object k ob) = active_list ob"
  by (auto simp: ob_remove_object_def set_lists_def on_active_table_def set_tables_def Let_def split: option.splits)

lemma ob_clear_table_props:
  "info_lists (ob_info (ob_clear_table n ob)) = filter (\<lambda>l. li_table l \<noteq> current_table ob) (info_lists (ob_info ob))"
  "builders (ob_clear_table n ob) = builders ob" "current_table (ob_clear_table n ob) = current_table ob"
  "active_list (ob_clear_table n ob) = active_list ob"
  by (auto simp: ob_clear_table_def set_lists_def on_active_table_def set_tables_def split: option.splits)

lemma observer_handler_supported: "supported c \<Longrightarrow> observer_handler c ob = andthen (lift (observe c ob)) (\<lambda>ob. ok (True, ob))"
  by (cases c) (simp_all add: observer_handler_def)

lemma db_step_supported: "db_step (x, c) s s' \<Longrightarrow> supported c"
proof (induction "(x, c)" s s' rule: db_step.induct)
  case (On_list L t col k ys R)
  then show ?case using list_step_is_list_op[OF On_list(1)] by (cases c) simp_all
qed auto

text \<open>The parts of the invariant.\<close>

lemma ob_invD:
  assumes "ob_inv ls X s x ob"
  shows "set (info_lists (ob_info ob)) \<subseteq> set ls"
    and "\<And>l. l \<in> set ls \<Longrightarrow> li_owner l \<notin> snd s \<Longrightarrow> l \<in> set (info_lists (ob_info ob))"
    and "\<And>l. l \<in> set (info_lists (ob_info ob)) \<Longrightarrow> li_changes l < length (builders ob) \<and>
      records (builders ob ! li_changes l) (X (li_key l)) (fst s (li_key l)) \<and> length (fst s (li_key l)) \<le> npos"
    and "\<And>t. fst x = Some t \<Longrightarrow> current_table ob = t"
    and "\<And>t c k. x = (Some t, Some (c, k)) \<Longrightarrow> (t, k) \<notin> snd s \<Longrightarrow>
      active_list ob = map_option li_changes (find (\<lambda>l. li_key l = (t, c, k)) ls)"
  using assms by (auto simp: ob_inv_def)

text \<open>Objects are removed, and maybe their entries.\<close>

lemma ob_inv_remove:
  assumes inv: "ob_inv ls X (L, R) x ob" and "R \<subseteq> R'"
    and "set (info_lists (ob_info ob')) \<subseteq> set (info_lists (ob_info ob))"
    and "\<And>l. l \<in> set (info_lists (ob_info ob)) \<Longrightarrow> li_owner l \<notin> R' \<Longrightarrow> l \<in> set (info_lists (ob_info ob'))"
    and "builders ob' = builders ob" "current_table ob' = current_table ob" "active_list ob' = active_list ob"
  shows "ob_inv ls X (L, R') x ob'"
  unfolding ob_inv_def
proof (intro conjI ballI allI impI)
  show "set (info_lists (ob_info ob')) \<subseteq> set ls" using ob_invD(1)[OF inv] assms(3) by blast
  show "l \<in> set (info_lists (ob_info ob'))" if "l \<in> set ls" "li_owner l \<notin> snd (L, R')" for l
    using ob_invD(2)[OF inv that(1)] assms(2,4) that(2) by auto
  fix l
  assume "l \<in> set (info_lists (ob_info ob'))"
  from ob_invD(3)[OF inv subsetD[OF assms(3) this]]
  show "li_changes l < length (builders ob')" "records (builders ob' ! li_changes l) (X (li_key l)) (fst (L, R') (li_key l))"
    "length (fst (L, R') (li_key l)) \<le> npos" using assms(5) by auto
next
  show "current_table ob' = t" if "fst x = Some t" for t using ob_invD(4)[OF inv that] assms(6) by simp
  show "active_list ob' = map_option li_changes (find (\<lambda>l. li_key l = (t, c, k)) ls)"
    if "x = (Some t, Some (c, k))" "(t, k) \<notin> snd (L, R')" for t c k
    using ob_invD(5)[OF inv that(1)] that(2) assms(2,7) by auto
qed

text \<open>An instruction on a list changes the builder of that list, if it is observed.\<close>

lemma ob_inv_list_op:
  assumes ls: "lists_ok ls" and inv: "ob_inv ls X (L, R) (Some t, Some (col, k)) ob"
    and step: "list_step c (L (t, col, k)) ys" and R: "(t, k) \<notin> R"
  shows "returns (observe c ob) (\<lambda>ob'. ob_inv ls X (L((t, col, k) := ys), R) (Some t, Some (col, k)) ob')"
proof -
  have act: "active_list ob = map_option li_changes (find (\<lambda>l. li_key l = (t, col, k)) ls)"
    using ob_invD(5)[OF inv] R by simp
  show ?thesis
  proof (cases "find (\<lambda>l. li_key l = (t, col, k)) ls")
    case None
    then have "\<forall>l\<in>set ls. li_key l \<noteq> (t, col, k)" by (auto simp: find_None_iff)
    then have "ob_inv ls X (L((t, col, k) := ys), R) (Some t, Some (col, k)) ob"
      using inv unfolding ob_inv_def by auto
    then show ?thesis using None act by (simp add: observe_list_op[OF list_step_is_list_op[OF step]] on_active_list_def)
  next
    case (Some l)
    then have l: "l \<in> set ls" "li_key l = (t, col, k)" by (auto simp: find_Some_iff)
    let ?p = "li_changes l"
    have "l \<in> set (info_lists (ob_info ob))" using ob_invD(2)[OF inv l(1)] l(2) R by (simp add: li_key_def li_owner_def)
    note r = ob_invD(3)[OF inv this]
    then obtain b where b: "list_effect c (builders ob ! ?p) = Some b" "records b (X (li_key l)) ys"
      using list_step_records[OF step, of "builders ob ! ?p" "X (li_key l)"] l(2) by (auto simp: returns_iff)
    define ob' where "ob' = ob\<lparr>builders := (builders ob)[?p := b]\<rparr>"
    then have ob': "ob_info ob' = ob_info ob" "active_list ob' = active_list ob" "current_table ob' = current_table ob"
      "builders ob' = (builders ob)[?p := b]" by simp_all
    have "li_changes m < length ((builders ob)[?p := b]) \<and>
        records ((builders ob)[?p := b] ! li_changes m) (X (li_key m)) ((L((t, col, k) := ys)) (li_key m)) \<and>
        length ((L((t, col, k) := ys)) (li_key m)) \<le> npos"
      if "m \<in> set (info_lists (ob_info ob))" for m
    proof -
      have m: "m \<in> set ls" and rm: "li_changes m < length (builders ob)"
          "records (builders ob ! li_changes m) (X (li_key m)) (L (li_key m))" "length (L (li_key m)) \<le> npos"
        using ob_invD(1)[OF inv] ob_invD(3)[OF inv that] that by auto
      have ys: "length ys \<le> npos" using list_step_length[OF step] r l(2) by auto
      show ?thesis
      proof (cases "m = l")
        case True
        then show ?thesis using b(2) rm(1) l(2) ys by simp
      next
        case False
        then have "li_key m \<noteq> (t, col, k)" "li_changes l \<noteq> li_changes m" using lists_okD[OF ls l(1) m] l(2) by auto
        then show ?thesis using rm by simp
      qed
    qed
    then have "ob_inv ls X (L((t, col, k) := ys), R) (Some t, Some (col, k)) ob'"
      using inv unfolding ob_inv_def ob' by simp
    then show ?thesis using Some act r b(1)
      by (simp add: ob'_def observe_list_op[OF list_step_is_list_op[OF step]] on_active_list_def)
  qed
qed

text \<open>Any instruction, also a selection.\<close>

lemma ob_inv_other:
  assumes inv: "ob_inv ls X s x ob" and ob': "info_lists (ob_info ob') = info_lists (ob_info ob)" "builders ob' = builders ob"
    and "\<And>t. fst x' = Some t \<Longrightarrow> current_table ob' = t"
    and "\<And>t c k. x' = (Some t, Some (c, k)) \<Longrightarrow> (t, k) \<notin> snd s \<Longrightarrow>
      active_list ob' = map_option li_changes (find (\<lambda>l. li_key l = (t, c, k)) ls)"
  shows "ob_inv ls X s x' ob'"
  using inv assms(4,5) unfolding ob_inv_def ob' by blast

lemma ob_inv_unselect: "ob_inv ls X s x ob \<Longrightarrow> ob_inv ls X s (None, None) ob"
  by (rule ob_inv_other) auto

lemma ob_inv_step:
  assumes ls: "lists_ok ls" and inv: "ob_inv ls X s x ob" and step: "db_step (place c x, c) s s'" and sel: "\<not> is_select c"
  shows "returns (observe c ob) (\<lambda>ob'. ob_inv ls X s' (select c x) ob')"
  using step
proof (cases rule: db_step.cases)
  case (On_list L t col k ys R)
  note l = list_step_is_list_op[OF On_list(4)]
  then have "x = (Some t, Some (col, k))" "select c x = x"
    using On_list(1) sel by (cases c; simp add: place_def; fail)+
  then show ?thesis using ob_inv_list_op[of ls X L R t col k ob, OF ls _ On_list(4,5)] inv On_list(2,3) by simp
next
  case (Remove t k L R)
  then have x: "fst x = Some t" "select c x = x" by (auto simp: place_def)
  have t: "current_table ob = t" using ob_invD(4)[OF inv x(1)] .
  have "ob_inv ls X (L, insert (t, k) R) x (ob_remove_object k ob)"
  proof (rule ob_inv_remove)
    show "ob_inv ls X (L, R) x ob" using inv Remove(3) by simp
    show "set (info_lists (ob_info (ob_remove_object k ob))) \<subseteq> set (info_lists (ob_info ob))"
      using ob_remove_object_props(1)[of k ob] remove_lists_of_props[of "current_table ob" k 0 "info_lists (ob_info ob)"] by auto
    show "l \<in> set (info_lists (ob_info (ob_remove_object k ob)))"
      if "l \<in> set (info_lists (ob_info ob))" "li_owner l \<notin> insert (t, k) R" for l
      using that ob_remove_object_props(1)[of k ob] remove_lists_of_props[of "current_table ob" k 0 "info_lists (ob_info ob)"] t by auto
  qed (simp_all add: ob_remove_object_props subset_insertI)
  then show ?thesis using Remove x(2) by simp
next
  case (Clear_all t n L R)
  then have x: "fst x = Some t" "select c x = x" by (auto simp: place_def)
  have t: "current_table ob = t" using ob_invD(4)[OF inv x(1)] .
  have "ob_inv ls X (L, R \<union> {t} \<times> UNIV) x (ob_clear_table (nat n) ob)"
  proof (rule ob_inv_remove)
    show "ob_inv ls X (L, R) x ob" using inv Clear_all(3) by simp
  qed (auto simp: ob_clear_table_props t li_owner_def)
  then show ?thesis using Clear_all x(2) by simp
next
  case (Other L R)
  obtain ob' where ob': "observe c ob = Some ob'" "info_lists (ob_info ob') = info_lists (ob_info ob)" "builders ob' = builders ob"
      "current_table ob' = current_table ob" "active_list ob' = active_list ob"
    using observe_group[OF Other(4) sel Other(5,6), of ob] by blast
  have "select c x = x \<or> select c x = (None, None)" using sel by (cases c) auto
  then have "ob_inv ls X s (select c x) ob" using inv ob_inv_unselect[OF inv] by metis
  then have "ob_inv ls X s (select c x) ob'" unfolding ob_inv_def ob' .
  then show ?thesis using ob'(1) Other(1,2) by simp
qed

lemma ob_inv_select:
  assumes ls: "lists_ok ls" and inv: "ob_inv ls X s x ob" and sel: "is_select c" and ws: "\<forall>col k. c = Select_list col k \<longrightarrow> fst x \<noteq> None"
  shows "returns (observe c ob) (\<lambda>ob'. ob_inv ls X s (select c x) ob')"
proof -
  consider t where "c = Select_table t" | col k where "c = Select_list col k" using sel by (cases c) auto
  then show ?thesis
  proof cases
    case 1
    have "ob_inv ls X s (Some t, None) (ob_select_table t ob)"
      by (rule ob_inv_other[OF inv]) (auto simp: ob_select_table_def set_tables_def Let_def)
    then show ?thesis using 1 by simp
  next
    case 2
    then obtain t where t: "fst x = Some t" using ws by auto
    let ?ob = "ob_modify_object col k ob"
    have ob: "info_lists (ob_info ?ob) = info_lists (ob_info ob)" "builders ?ob = builders ob" "current_table ?ob = t"
      using ob_invD(4)[OF inv t] by (auto simp: ob_modify_object_def on_active_table_def set_tables_def split: option.splits)
    have "find_list k col ?ob = map_option li_changes (find (\<lambda>l. li_key l = (t, col, k)) ls)" if R: "(t, k) \<notin> snd s"
    proof -
      have e: "(\<lambda>l. li_table l = current_table ?ob \<and> li_row l = k \<and> li_col l = col) = (\<lambda>l. li_key l = (t, col, k))"
        using ob(3) by (auto simp: li_key_def)
      have "find (\<lambda>l. li_key l = (t, col, k)) (rev (info_lists (ob_info ob))) = find (\<lambda>l. li_key l = (t, col, k)) ls"
      proof (cases "\<exists>l\<in>set ls. li_key l = (t, col, k)")
        case True
        then obtain l where l: "l \<in> set ls" "li_key l = (t, col, k)" by blast
        then have "l \<in> set (info_lists (ob_info ob))" using ob_invD(2)[OF inv l(1)] R by (auto simp: li_key_def li_owner_def)
        then have r: "l \<in> set (rev (info_lists (ob_info ob)))" by simp
        have u: "\<forall>m\<in>set ls. li_key m = (t, col, k) \<longrightarrow> m = l" using lists_okD(1)[OF ls _ l(1)] l(2) by auto
        then have v: "\<forall>m\<in>set (rev (info_lists (ob_info ob))). li_key m = (t, col, k) \<longrightarrow> m = l"
          using ob_invD(1)[OF inv] unfolding set_rev by blast
        have "find (\<lambda>l. li_key l = (t, col, k)) (rev (info_lists (ob_info ob))) = Some l"
          "find (\<lambda>l. li_key l = (t, col, k)) ls = Some l"
          using find_unique[of l _ "\<lambda>l. li_key l = (t, col, k)", OF r l(2) v]
            find_unique[of l _ "\<lambda>l. li_key l = (t, col, k)", OF l u] by auto
        then show ?thesis by simp
      next
        case False
        then have "find (\<lambda>l. li_key l = (t, col, k)) ls = None" by (intro find_none) blast
        moreover have "find (\<lambda>l. li_key l = (t, col, k)) (rev (info_lists (ob_info ob))) = None"
          using False ob_invD(1)[OF inv] by (intro find_none) auto
        ultimately show ?thesis by simp
      qed
      then show ?thesis unfolding find_list_def e ob(1) by simp
    qed
    then have "ob_inv ls X s (Some t, Some (col, k)) (ob_select_list col k ob)"
      by (intro ob_inv_other[OF inv]) (auto simp: ob_select_list_def Let_def ob)
    then show ?thesis using 2 t by simp
  qed
qed

lemma ob_inv_run:
  assumes ls: "lists_ok ls"
  shows "db_run (located x cs) s s' \<Longrightarrow> well_scoped x cs \<Longrightarrow> ob_inv ls X s x ob \<Longrightarrow>
    yields (run_calls observer_handler cs ob) (\<lambda>ob'. ob_inv ls X s' (fold select cs x) ob')"
proof (induction cs arbitrary: x s ob)
  case Nil
  then show ?case by (auto elim: db_run_NilE)
next
  case (Cons c cs)
  have step: "\<exists>ob' s1. observe c ob = Some ob' \<and> ob_inv ls X s1 (select c x) ob' \<and> db_run (located (select c x) cs) s1 s' \<and> supported c"
  proof (cases "is_select c")
    case True
    have "\<forall>col k. c = Select_list col k \<longrightarrow> fst x \<noteq> None" using Cons.prems(2) by auto
    from ob_inv_select[OF ls Cons.prems(3) True this]
    obtain ob' where "observe c ob = Some ob'" "ob_inv ls X s (select c x) ob'" unfolding returns_iff by blast
    moreover have "db_run (located (select c x) cs) s s'" "supported c" using Cons.prems(1) True by (simp, cases c) auto
    ultimately show ?thesis by blast
  next
    case False
    then obtain s1 where s1: "db_step (place c x, c) s s1" "db_run (located (select c x) cs) s1 s'"
      using Cons.prems(1) by (auto elim: db_run_ConsE)
    from ob_inv_step[OF ls Cons.prems(3) s1(1) False]
    obtain ob' where "observe c ob = Some ob'" "ob_inv ls X s1 (select c x) ob'" unfolding returns_iff by blast
    then show ?thesis using s1(2) db_step_supported[OF s1(1)] by blast
  qed
  then obtain ob' s1 where ob': "observe c ob = Some ob'" "ob_inv ls X s1 (select c x) ob'" "db_run (located (select c x) cs) s1 s'"
      "supported c" by blast
  have "well_scoped (select c x) cs" using Cons.prems(2) by simp
  from Cons.IH[OF ob'(3) this ob'(2)] show ?case
    using ob'(1,4) by (simp add: observer_handler_supported)
qed

section \<open>The whole log\<close>

lemma records_clean_up:
  assumes "records b xs ys"
  shows "returns (clean_up_stale_moves b) (\<lambda>b'. records b' xs ys)"
proof -
  have ok: "sets_ok b" and a: "applies (iset_of (deletions b)) (iset_of (insertions b)) xs (map fst ys)"
    and m: "moves_ok (iset_of (deletions b)) (iset_of (insertions b)) (moves b) xs (map fst ys)"
    and t: "tracked b None = marked ys"
    using assms by (auto simp: records_def describes_def)
  have "wf (deletions b)" "wf (insertions b)" using ok by (auto simp: sets_ok_def)
  then obtain dels ins ms where c: "clean_stale (deletions b) (insertions b) (moves b) = Some (dels, ins, ms)" "wf dels" "wf ins"
      "applies (iset_of dels) (iset_of ins) xs (map fst ys)" "moves_ok (iset_of dels) (iset_of ins) ms xs (map fst ys)"
    using clean_stale_props[OF _ _ a m] unfolding returns_iff by (auto split: prod.splits)
  have "tracked (b\<lparr>deletions := dels, insertions := ins, moves := ms\<rparr>) j = tracked b j" for j
    by (simp add: tracked_def split: option.splits)
  then show ?thesis using c ok t by (simp add: clean_up_stale_moves_def records_def describes_def sets_ok_def)
qed

lemma clean_up_lists_props:
  assumes "set ls \<subseteq> S" "inj_on li_changes S"
    and "\<forall>l\<in>S. li_changes l < length bs \<and> records (bs ! li_changes l) (X (li_key l)) (Y (li_key l))"
  shows "returns (clean_up_lists ls bs) (\<lambda>bs'. length bs' = length bs \<and>
    (\<forall>l\<in>S. li_changes l < length bs' \<and> records (bs' ! li_changes l) (X (li_key l)) (Y (li_key l))))"
  using assms(1,3)
proof (induction ls arbitrary: bs)
  case (Cons l ls)
  have l: "l \<in> S" "li_changes l < length bs" "records (bs ! li_changes l) (X (li_key l)) (Y (li_key l))" using Cons.prems by auto
  obtain b where b: "clean_up_stale_moves (bs ! li_changes l) = Some b" "records b (X (li_key l)) (Y (li_key l))"
    using records_clean_up[OF l(3)] by (auto simp: returns_iff)
  have "\<forall>m\<in>S. li_changes m < length (bs[li_changes l := b]) \<and>
      records (bs[li_changes l := b] ! li_changes m) (X (li_key m)) (Y (li_key m))"
  proof
    fix m
    assume m: "m \<in> S"
    show "li_changes m < length (bs[li_changes l := b]) \<and>
      records (bs[li_changes l := b] ! li_changes m) (X (li_key m)) (Y (li_key m))"
    proof (cases "m = l")
      case False
      then have "li_changes l \<noteq> li_changes m" using inj_onD[OF assms(2) _ l(1) m] by auto
      then show ?thesis using Cons.prems(2) m by simp
    qed (use l(2) b(2) in simp)
  qed
  with Cons.IH[of "bs[li_changes l := b]"] Cons.prems(1) show ?case using l(2) b(1) by simp
qed simp

text \<open>The observer starts with nothing recorded.\<close>

definition observed_ok :: "list_change_info list \<Rightarrow> change_builder list \<Rightarrow> bool" where
  "observed_ok ls bs \<longleftrightarrow> lists_ok ls \<and> (\<forall>l\<in>set ls. li_changes l < length bs \<and> bs ! li_changes l = empty_builder)"

definition unmarked :: "(list_key \<Rightarrow> 'a list) \<Rightarrow> list_key \<Rightarrow> 'a slots" where
  "unmarked X k = map (\<lambda>x. (x, False)) (X k)"

lemma records_empty: "records empty_builder xs (map (\<lambda>x. (x, False)) xs)"
proof -
  have "marked (map (\<lambda>x. (x, False)) xs) = {}" by (auto simp: marked_def)
  moreover have "tracked empty_builder None = {}" by (simp add: tracked_def empty_builder_def iset_of_def)
  ultimately show ?thesis using describes_empty[of xs] by (simp add: records_def comp_def)
qed

lemma ob_inv_new:
  assumes "observed_ok (info_lists info) bs" "\<forall>l\<in>set (info_lists info). length (X (li_key l)) \<le> npos"
  shows "ob_inv (info_lists info) X (unmarked X, {}) (None, None) (new_observer info bs)"
  using assms records_empty by (auto simp: ob_inv_def new_observer_def observed_ok_def unmarked_def)

lemma observed_calls:
  assumes "observed_ok (info_lists info) bs" "\<forall>l\<in>set (info_lists info). length (X (li_key l)) \<le> npos"
    and "well_scoped (None, None) cs" "db_run (located (None, None) cs) (unmarked X, {}) (L, R)"
  shows "yields (andthen (run_calls observer_handler cs (new_observer info bs)) (\<lambda>ob. lift (parse_complete ob)))
    (\<lambda>ob. \<forall>l\<in>set (info_lists info). li_owner l \<notin> R \<longrightarrow> l \<in> set (info_lists (ob_info ob)) \<and>
      li_changes l < length (builders ob) \<and> records (builders ob ! li_changes l) (X (li_key l)) (L (li_key l)))"
proof -
  have ls: "lists_ok (info_lists info)" using assms(1) by (simp add: observed_ok_def)
  obtain ob where ob: "run_calls observer_handler cs (new_observer info bs) = ok ob"
      "ob_inv (info_lists info) X (L, R) (fold select cs (None, None)) ob"
    using ob_inv_run[OF ls assms(4,3) ob_inv_new[OF assms(1,2)]] by (auto simp: yields_iff)
  let ?S = "set (info_lists (ob_info ob))"
  have "inj_on li_changes ?S"
    using ls ob_invD(1)[OF ob(2)] by (auto simp: lists_ok_def distinct_map intro: inj_on_subset)
  then obtain bs' where bs': "clean_up_lists (info_lists (ob_info ob)) (builders ob) = Some bs'"
      "\<forall>l\<in>?S. li_changes l < length bs' \<and> records (bs' ! li_changes l) (X (li_key l)) (L (li_key l))"
    using clean_up_lists_props[of "info_lists (ob_info ob)" ?S "builders ob" X L] ob_invD(3)[OF ob(2)]
    by (auto simp: returns_iff)
  then show ?thesis using ob ob_invD(2)[OF ob(2)] by (auto simp: parse_complete_def set_tables_def)
qed

end
