(* ===== verification/TransactReverserLists.thy ===== *)
theory TransactReverserLists
  imports TransactLogProperties ObservedLists
begin

text \<open>
  What reversing a log is for: when the instructions of a log have been executed on the lists of a database, those of the
  reversed log lead back to the lists as they were, the erased elements put back where they had been.
\<close>

section \<open>The instructions on one list\<close>

text \<open>The instructions of a log that are for the list in column \<open>col\<close> of the object \<open>k\<close> of the table \<open>t\<close>.\<close>

definition on_list :: "int \<Rightarrow> int \<Rightarrow> int \<Rightarrow> (selection \<times> call) list \<Rightarrow> call list" where
  "on_list t col k xs = map snd (filter (\<lambda>x. fst x = (Some t, Some (col, k))) xs)"

text \<open>Instructions executed on a list, one after the other; what an inserted element is, they do not say.\<close>

inductive list_run :: "call list \<Rightarrow> 'a slots \<Rightarrow> 'a slots \<Rightarrow> bool" where
  Nil: "list_run [] ys ys"
| Cons: "list_step c ys zs \<Longrightarrow> list_run cs zs us \<Longrightarrow> list_run (c # cs) ys us"

inductive_cases list_run_NilE: "list_run [] ys zs"
inductive_cases list_run_ConsE: "list_run (c # cs) ys zs"

text \<open>Moves between neighbours.\<close>

fun short_move :: "call \<Rightarrow> bool" where
  "short_move (List_move a b) \<longleftrightarrow> \<bar>a - b\<bar> = 1"
| "short_move c = True"

lemma list_run_append: "list_run cs ys zs \<Longrightarrow> list_run ds zs us \<Longrightarrow> list_run (cs @ ds) ys us"
  by (induction rule: list_run.induct) (auto intro: list_run.Cons)

lemma list_run_single: "list_step c ys zs \<Longrightarrow> list_run [c] ys zs"
  by (intro list_run.Cons[OF _ list_run.Nil])

lemma list_step_length_eq:
  "list_step c ys zs \<Longrightarrow> list_step c ys' zs' \<Longrightarrow> length ys = length ys' \<Longrightarrow> length zs = length zs'"
  by (induction rule: list_step.induct) (auto simp: list_step_simps Let_def)

lemma list_run_length_eq:
  "list_run cs ys zs \<Longrightarrow> list_run cs ys' zs' \<Longrightarrow> length ys = length ys' \<Longrightarrow> length zs = length zs'"
proof (induction arbitrary: ys' rule: list_run.induct)
  case (Nil ys)
  then show ?case by (auto elim: list_run_NilE)
next
  case (Cons c ys zs cs us)
  from Cons.prems(1) obtain us' where "list_step c ys' us'" "list_run cs us' zs'" by (auto elim: list_run_ConsE)
  then show ?case using Cons.IH[of us'] list_step_length_eq[OF Cons.hyps(1)] Cons.prems(2) by blast
qed

section \<open>Undoing one instruction\<close>

text \<open>The values of a list, put back one by one.\<close>

lemma refill:
  assumes "n \<le> length vs" "length vs \<le> npos"
  shows "list_run (map (\<lambda>i. List_insert (int i)) [0..<n]) [] (map (\<lambda>v. (v, False)) (take n vs))"
  using assms(1)
proof (induction n)
  case 0
  then show ?case by (simp add: list_run.Nil)
next
  case (Suc n)
  let ?ys = "map (\<lambda>v. (v, False)) (take n vs)"
  have "list_step (List_insert (int n)) ?ys (take n ?ys @ (vs ! n, False) # drop n ?ys)"
    using Suc.prems assms(2) by (intro list_step.Insert) auto
  then have "list_step (List_insert (int n)) ?ys (map (\<lambda>v. (v, False)) (take (Suc n) vs))"
    using Suc.prems by (simp add: take_Suc_conv_app_nth)
  then show ?case using list_run_append[OF Suc.IH list_run_single] Suc.prems by simp
qed

lemma move_back:
  assumes "a < length ys" "b < length ys" "\<bar>int a - int b\<bar> = 1"
  shows "move_row a b (move_row a b ys) = ys"
proof -
  define lo where "lo = min a b"
  have ab: "a = lo \<and> b = Suc lo \<or> a = Suc lo \<and> b = lo" using assms(3) by (auto simp: lo_def)
  have lo: "Suc lo < length ys" using assms(1,2) ab by auto
  define us p q vs where "us = take lo ys" "p = ys ! lo" "q = ys ! Suc lo" "vs = drop (Suc (Suc lo)) ys"
  have ys: "ys = us @ p # q # vs"
    using lo id_take_nth_drop[of lo ys] Cons_nth_drop_Suc[of "Suc lo" ys] by (simp add: us_p_q_vs_def)
  have len: "length us = lo" using lo by (simp add: us_p_q_vs_def)
  have swap: "move_row a b (us @ x # y # vs) = us @ y # x # vs" for x y
    using ab len by (auto simp: move_row_def insert_rows_def remove_row_def nth_append)
  show ?thesis by (simp only: ys swap)
qed

lemma undo_step:
  assumes "list_step c ys zs" "short_move c" "length ys \<le> npos" "map fst zs' = map fst zs"
  shows "\<exists>ys'. list_run (inverse_of c) zs' ys' \<and> map fst ys' = map fst ys"
  using assms
proof (induction rule: list_step.induct)
  case (Set n ys)
  have n: "n < length zs'" using Set.prems(3) Set.hyps by (metis length_list_update length_map)
  have "list_run [List_set (int n)] zs' (zs'[n := (fst (zs' ! n), True)])" by (intro list_run_single list_step.Set n)
  moreover have "map fst (zs'[n := (fst (zs' ! n), True)]) = map fst zs'"
    using n by (simp add: map_update list_update_same_conv)
  moreover have "map fst (ys[n := (fst (ys ! n), True)]) = map fst ys"
    using Set.hyps by (simp add: map_update list_update_same_conv)
  ultimately show ?case using Set.prems(3) by auto
next
  case (Insert n ys x)
  have len: "length zs' = Suc (length ys)" using arg_cong[OF Insert.prems(3), of length] Insert.hyps by simp
  have "list_run [List_erase (int n)] zs' (take n zs' @ drop (Suc n) zs')"
    using len Insert.hyps by (intro list_run_single list_step.Erase) simp
  moreover have "map fst (take n zs' @ drop (Suc n) zs') = map fst ys"
    using Insert.hyps by (simp add: take_map[symmetric] drop_map[symmetric] Insert.prems(3))
  ultimately show ?case by auto
next
  case (Move a ys b)
  have same: "map fst zs' = move_row a b (map fst ys)"
    using Move by (simp add: move_row_def insert_rows_def remove_row_def Let_def take_map drop_map)
  have len: "length zs' = length ys"
    using arg_cong[OF Move.prems(3), of length] Move.hyps by (auto simp: Let_def min_def)
  have "list_run [List_move (int a) (int b)] zs' (move_row a b zs')"
    using list_step.Move[of a zs' b] Move.hyps len
    by (intro list_run_single) (simp add: move_row_def insert_rows_def remove_row_def Let_def)
  moreover have "map fst (move_row a b zs') = map fst ys"
    using Move.hyps Move.prems(1) len by (simp add: same move_back)
  ultimately show ?case by auto
next
  case (Swap a ys b)
  have len: "length zs' = length ys" using arg_cong[OF Swap.prems(3), of length] by simp
  have "list_run [List_swap (int a) (int b)] zs' (zs'[a := zs' ! b, b := zs' ! a])"
    using Swap.hyps len by (intro list_run_single list_step.Swap) simp_all
  moreover have at: "fst (zs' ! i) = fst ((ys[a := ys ! b, b := ys ! a]) ! i)" if "i < length ys" for i
    using arg_cong[OF Swap.prems(3), of "\<lambda>l. l ! i"] that len by simp
  have "map fst (zs'[a := zs' ! b, b := zs' ! a]) = map fst ys"
    using Swap.hyps at len by (intro nth_equalityI) (auto simp: nth_list_update)
  ultimately show ?case by auto
next
  case (Erase n ys)
  have split: "map fst zs' = take n (map fst ys) @ drop (Suc n) (map fst ys)"
    using Erase.prems(3) by (simp add: take_map drop_map)
  have len: "Suc (length zs') = length ys" using arg_cong[OF split, of length] Erase.hyps by simp
  have "list_run [List_insert (int n)] zs' (take n zs' @ (fst (ys ! n), False) # drop n zs')"
    using len Erase.hyps Erase.prems(2) by (intro list_run_single list_step.Insert) simp_all
  moreover have "map fst (take n zs' @ (fst (ys ! n), False) # drop n zs') = map fst ys"
    using Erase.hyps id_take_nth_drop[of n "map fst ys"]
    by (simp add: take_map[symmetric] drop_map[symmetric] split)
  ultimately show ?case by auto
next
  case (Clear ys)
  then have "zs' = []" by simp
  moreover have "list_run (map (\<lambda>i. List_insert (int i)) [0..<length ys]) [] (map (\<lambda>v. (v, False)) (take (length ys) (map fst ys)))"
    using Clear.prems(2) by (intro refill) simp_all
  ultimately show ?case by (intro exI[of _ "map (\<lambda>v. (v, False)) (map fst ys)"]) (simp add: comp_def)
qed

text \<open>Undoing a sequence of instructions, from the last to the first.\<close>

lemma undo_run:
  assumes "list_run cs ys zs" "\<forall>c\<in>set cs. short_move c" "length ys \<le> npos" "map fst zs' = map fst zs"
  shows "\<exists>ys'. list_run (concat (map inverse_of (rev cs))) zs' ys' \<and> map fst ys' = map fst ys"
  using assms
proof (induction arbitrary: zs' rule: list_run.induct)
  case (Nil ys)
  then show ?case by (auto intro: list_run.Nil)
next
  case (Cons c ys zs cs us)
  obtain vs where vs: "list_run (concat (map inverse_of (rev cs))) zs' vs" "map fst vs = map fst zs"
    using Cons.IH[of zs'] Cons.prems list_step_length[OF Cons.hyps(1)] by auto
  obtain ys' where "list_run (inverse_of c) vs ys'" "map fst ys' = map fst ys"
    using undo_step[OF Cons.hyps(1) _ Cons.prems(2) vs(2)] Cons.prems(1) by auto
  then show ?case using list_run_append[OF vs(1)] by auto
qed

lemma on_list_inverse: "on_list t col k (inverse_located xs) = concat (map inverse_of (rev (on_list t col k xs)))"
proof (induction xs)
  case (Cons x xs)
  obtain y c where x: "x = (y, c)" by (cases x)
  have "on_list t col k (map (Pair y) ds) = (if y = (Some t, Some (col, k)) then ds else [])" for ds
    by (induction ds) (simp_all add: on_list_def comp_def)
  moreover have "on_list t col k (us @ vs) = on_list t col k us @ on_list t col k vs" for us vs
    by (simp add: on_list_def)
  ultimately show ?case using Cons.IH by (simp add: x inverse_located_def) (simp add: on_list_def comp_def)
qed (simp add: on_list_def inverse_located_def)

section \<open>Properties\<close>

text \<open>C2. Rolling back. When the reverser has received the instructions of a log, its reversed log is parsed as
  instructions that undo those on every list: if the instructions of the log on a list led from the elements
  \<open>xs\<close> to \<open>ys\<close>, those of the reversed log on the same list, which may stand at other places among other selections,
  can be executed on \<open>ys\<close> and lead back to \<open>xs\<close>, with every element in its old place, when the erased values are inserted again; whatever is
  inserted, they lead to a list of the old length. The log renames no column and sets no link type (the
  instructions that go astray), and moves the elements of that list to neighbouring places only (a longer move is
  reversed to the same move, which does not undo it).\<close>

theorem reversal_restores_lists:
  fixes ys :: "'a slots"
  assumes "selects_ok st sl" "\<forall>c\<in>set cs. call_ok c" "32 * sum_list (map weight cs) < 2 ^ 64"
    and "well_scoped (None, None) cs" "\<forall>c\<in>set cs. has_block c"
    and "list_run (on_list t col k (located (None, None) cs)) xs ys" "length xs \<le> npos"
    and "\<forall>c\<in>set (on_list t col k (located (None, None) cs)). short_move c"
  shows "yields (run_calls (reverser_handler st sl) cs new_reverser) (\<lambda>r.
    \<exists>ds. parse reversed_next_block keep_calls (new_reversed_stream r) [] = ok ds \<and>
      (\<exists>zs. list_run (on_list t col k (located (None, None) ds)) ys zs \<and> map fst zs = map fst xs) \<and>
      (\<forall>us. list_run (on_list t col k (located (None, None) ds)) ys us \<longrightarrow> length us = length xs))"
proof -
  let ?ds = "on_list t col k (located (None, None) (reversed_calls cs))"
  have ds: "?ds = concat (map inverse_of (rev (on_list t col k (located (None, None) cs))))"
    by (simp add: located_reversed_calls[OF assms(4,5)] on_list_inverse)
  obtain zs where zs: "list_run ?ds ys zs" "map fst zs = map fst xs"
    using undo_run[OF assms(6,8,7), of ys] unfolding ds by auto
  have "length zs = length xs" using arg_cong[OF zs(2), of length] by simp
  then have "length us = length xs" if "list_run ?ds ys us" for us
    using list_run_length_eq[OF that zs(1)] by simp
  then show ?thesis
    using reversed_log[OF assms(1-3), of keep_calls "[]"] zs unfolding run_calls_keep by (auto elim!: yields_mono)
qed

section \<open>Witnesses\<close>

text \<open>An element is inserted, one erased, two neighbours are exchanged by a move, in between objects are created and
  another list is cleared.\<close>

definition sample_log :: "call list" where
  "sample_log = [Select_table 5, Select_list 2 1, List_insert 1, Create_object 4, List_erase 0, Select_table 6,
     Select_list 2 1, List_clear 3, Select_table 5, Select_list 2 1, List_move 1 0]"

lemma sample_log_run:
  "list_run (on_list 5 2 1 (located (None, None) sample_log)) [(10, False), (20, False :: bool)] [(20 :: int, False), (99, False)]"
proof -
  have bound: "Suc (Suc 0) < npos" by (simp add: npos_def)
  have calls: "on_list 5 2 1 (located (None, None) sample_log) = [List_insert 1, List_erase 0, List_move 1 0]"
    by (simp add: on_list_def sample_log_def place_def)
  have s: "list_step (List_insert 1) [(10, False), (20, False)] [(10 :: int, False), (99, False), (20, False)]"
    "list_step (List_erase 0) [(10, False), (99, False), (20, False)] [(99 :: int, False), (20, False)]"
    "list_step (List_move 1 0) [(99, False), (20, False)] [(20 :: int, False), (99, False)]"
    using list_step.Insert[of 1 "[(10, False), (20, False)]" 99] list_step.Erase[of 0 "[(10, False), (99, False), (20, False)]"]
      list_step.Move[of 1 "[(99, False), (20, False)]" 0] bound by simp_all
  show ?thesis unfolding calls by (intro list_run.Cons[OF s(1)] list_run.Cons[OF s(2)] list_run_single s(3))
qed

theorem reversal_restores_lists_witness:
  "\<exists>r ds zs. run_calls (reverser_handler sample_select_table sample_select_list) sample_log new_reverser = ok r \<and>
     parse reversed_next_block keep_calls (new_reversed_stream r) [] = ok ds \<and>
     list_run (on_list 5 2 1 (located (None, None) ds)) [(20, False), (99, False)] zs \<and> map fst zs = [10, 20 :: int]"
proof -
  have ok: "\<forall>c\<in>set sample_log. call_ok c"
    by (simp add: sample_log_def fits_def int64_def uint32_def size_t_def signed_t_def unsigned_t_def min_of_def max_of_def)
  have w: "32 * sum_list (map weight sample_log) < 2 ^ 64" "well_scoped (None, None) sample_log"
    "\<forall>c\<in>set sample_log. has_block c" "\<forall>c\<in>set (on_list 5 2 1 (located (None, None) sample_log)). short_move c"
    by (simp_all add: sample_log_def well_placed_def on_list_def place_def)
  have e: "map fst [(10 :: int, False), (20, False)] = [10, 20]" by simp
  from reversal_restores_lists[OF sample_selects_ok ok w(1-3) sample_log_run _ w(4)]
  show ?thesis unfolding yields_iff e by (simp add: npos_def) (elim exE conjE, intro exI conjI)
qed

end
