(* ===== verification/ObservedObjects.thy ===== *)
theory ObservedObjects
  imports ObservedLists
begin

text \<open>
  What \<open>TransactLogObserver\<close> records of tables: when the instructions of a log are executed on
  tables of objects, the \<open>ObjectChangeSet\<close> of every observed table says which objects are new, which are gone, and
  which columns of the others were modified.
\<close>

section \<open>Tables of objects\<close>

text \<open>The objects of a table: whether they are new, and the columns modified since the start.\<close>

type_synonym object_table = "int \<Rightarrow> (bool \<times> int set) option"

definition is_new :: "object_table \<Rightarrow> int \<Rightarrow> bool" where
  "is_new T k \<longleftrightarrow> (\<exists>C. T k = Some (True, C))"

definition survives :: "object_table \<Rightarrow> int \<Rightarrow> bool" where
  "survives T k \<longleftrightarrow> (\<exists>C. T k = Some (False, C))"

definition modified_columns :: "object_table \<Rightarrow> int \<Rightarrow> int set" where
  "modified_columns T k = (case T k of Some (False, C) \<Rightarrow> C | _ \<Rightarrow> {})"

text \<open>
  The instructions on a table. Selecting a list of an object counts as a modification of its column:
  the observer marks it \<open>pre-emptively\<close>.
\<close>

fun table_step :: "call \<Rightarrow> object_table \<Rightarrow> object_table option" where
  "table_step (Create_object k) T = (if T k = None then Some (T(k \<mapsto> (True, {}))) else None)"
| "table_step (Remove_object k) T = (if T k = None then None else Some (T(k := None)))"
| "table_step (Modify_object c k) T = (case T k of None \<Rightarrow> None | Some (n, C) \<Rightarrow> Some (T(k \<mapsto> (n, insert c C))))"
| "table_step (Select_list c k) T = (case T k of None \<Rightarrow> None | Some (n, C) \<Rightarrow> Some (T(k \<mapsto> (n, insert c C))))"
| "table_step (Clear_table n) T = Some (\<lambda>k. None)"
| "table_step c T = Some T"

text \<open>What a change set of a table says about the objects \<open>old\<close> before and \<open>T\<close> after.\<close>

definition tells :: "object_changes \<Rightarrow> int set \<Rightarrow> object_table \<Rightarrow> bool" where
  "tells c old T \<longleftrightarrow> distinct (oc_insertions c) \<and> distinct (oc_deletions c) \<and> distinct (map fst (oc_modifications c)) \<and>
     (\<forall>k. k \<in> set (oc_insertions c) \<longleftrightarrow> is_new T k) \<and> (\<forall>k. survives T k \<longrightarrow> k \<in> old) \<and>
     (if clear_did_occur c then oc_deletions c = [] \<and> (\<forall>k. \<not> survives T k)
      else \<forall>k. k \<in> set (oc_deletions c) \<longleftrightarrow> k \<in> old \<and> \<not> survives T k) \<and>
     (\<forall>k. set (columns_of (oc_modifications c) k) = modified_columns T k) \<and>
     (\<forall>(k, cols)\<in>set (oc_modifications c). cols \<noteq> [])"

definition old_table :: "int set \<Rightarrow> object_table" where
  "old_table old k = (if k \<in> old then Some (False, {}) else None)"

lemma tells_start: "tells no_object_changes old (old_table old)"
  by (auto simp: tells_def no_object_changes_def old_table_def is_new_def survives_def modified_columns_def columns_of_def)

lemma modifications_contains_tells:
  "tells c old T \<Longrightarrow> k \<in> fst ` set (oc_modifications c) \<longleftrightarrow> modified_columns T k \<noteq> {}"
proof -
  assume t: "tells c old T"
  have m: "set (columns_of (oc_modifications c) k) = modified_columns T k" using t by (simp add: tells_def)
  show ?thesis
  proof
    assume "k \<in> fst ` set (oc_modifications c)"
    then obtain cols where cols: "map_of (oc_modifications c) k = Some cols" by (metis map_of_eq_None_iff not_None_eq)
    then have "cols \<noteq> []" using t by (auto simp: tells_def dest!: map_of_SomeD)
    moreover have "set cols = modified_columns T k" using m cols by (simp add: columns_of_def)
    ultimately show "modified_columns T k \<noteq> {}" by (metis set_empty)
  next
    assume "modified_columns T k \<noteq> {}"
    then show "k \<in> fst ` set (oc_modifications c)"
      using m by (auto simp: columns_of_def map_of_eq_None_iff[symmetric] split: option.splits intro: ccontr)
  qed
qed

lemma columns_of_update: "columns_of (AList.update k cols ms) j = (if j = k then cols else columns_of ms j)"
  by (simp add: columns_of_def update_conv')

lemma columns_of_delete: "columns_of (AList.delete k ms) j = (if j = k then [] else columns_of ms j)"
  by (simp add: columns_of_def delete_conv')

lemma update_nonempty: "\<forall>(k, cols)\<in>set ms. cols \<noteq> [] \<Longrightarrow> cs \<noteq> [] \<Longrightarrow> \<forall>(k, cols)\<in>set (AList.update k cs ms). cols \<noteq> []"
  by (induction ms) auto

lemma delete_nonempty: "\<forall>(k, cols)\<in>set ms. cols \<noteq> [] \<Longrightarrow> \<forall>(k, cols)\<in>set (AList.delete k ms). cols \<noteq> []"
  by (induction ms) auto

lemma tells_create:
  assumes "tells c old T" "T k = None"
  shows "tells (insertions_add k c) old (T(k \<mapsto> (True, {})))"
  using assms
  by (auto simp: tells_def insertions_add_def is_new_def survives_def modified_columns_def)

lemma tells_modify:
  assumes "tells c old T" "T k = Some (n, C)"
  shows "tells (modifications_add k col c) old (T(k \<mapsto> (n, insert col C)))"
proof (cases n)
  case True
  then have "k \<in> set (oc_insertions c)" using assms by (auto simp: tells_def is_new_def)
  then show ?thesis
    using assms True by (auto simp: tells_def modifications_add_def is_new_def survives_def modified_columns_def)
next
  case False
  then have "k \<notin> set (oc_insertions c)" using assms by (auto simp: tells_def is_new_def)
  moreover have "List.insert x xs \<noteq> []" for x and xs :: "int list" by (cases xs) (simp_all add: List.insert_def)
  ultimately show ?thesis
    using assms False update_nonempty[of "oc_modifications c" "List.insert col (columns_of (oc_modifications c) k)" k]
    by (auto simp: tells_def modifications_add_def is_new_def survives_def modified_columns_def columns_of_update distinct_update)
qed

lemma remove_from_table_eq:
  "remove_from_table k c =
     (if k \<in> set (oc_insertions c)
      then c\<lparr>oc_insertions := remove1 k (oc_insertions c), oc_modifications := AList.delete k (oc_modifications c)\<rparr>
      else c\<lparr>oc_deletions := List.insert k (oc_deletions c), oc_modifications := AList.delete k (oc_modifications c)\<rparr>)"
  by (simp add: remove_from_table_def insertions_remove_def modifications_remove_def deletions_add_def Let_def delete_idem
      remove1_idem)

lemma table_removed:
  "is_new (T(k := None)) j \<longleftrightarrow> j \<noteq> k \<and> is_new T j" "survives (T(k := None)) j \<longleftrightarrow> j \<noteq> k \<and> survives T j"
  "modified_columns (T(k := None)) j = (if j = k then {} else modified_columns T j)"
  by (auto simp: is_new_def survives_def modified_columns_def)

lemma tells_remove:
  assumes "tells c old T" "T k = Some (n, C)"
  shows "tells (remove_from_table k c) old (T(k := None))"
proof -
  have ne: "\<forall>(k, cols)\<in>set (AList.delete k (oc_modifications c)). cols \<noteq> []"
    using assms(1) by (intro delete_nonempty) (simp add: tells_def)
  have i: "k \<in> set (oc_insertions c) \<longleftrightarrow> n" "n \<longrightarrow> \<not> survives T k" "\<not> n \<longrightarrow> survives T k"
    using assms by (auto simp: tells_def is_new_def survives_def)
  then have "clear_did_occur c \<longrightarrow> n" using assms(1) by (auto simp: tells_def)
  then show ?thesis
    using assms(1) ne i unfolding tells_def remove_from_table_eq table_removed
    by (cases n) (simp_all add: columns_of_delete distinct_delete, blast+)
qed

lemma tells_clear: "tells (oc_clear n c) old (\<lambda>k. None)"
  by (simp add: tells_def oc_clear_def is_new_def survives_def modified_columns_def columns_of_def)

section \<open>The observer\<close>

text \<open>All tables, and the one that is selected.\<close>

type_synonym table_db = "int option \<times> (int \<Rightarrow> object_table)"

fun on_table :: "call \<Rightarrow> bool" where
  "on_table (Create_object k) = True"
| "on_table (Remove_object k) = True"
| "on_table (Modify_object c k) = True"
| "on_table (Select_list c k) = True"
| "on_table (Clear_table n) = True"
| "on_table c = False"

fun tables_step :: "call \<Rightarrow> table_db \<Rightarrow> table_db option" where
  "tables_step (Select_table k) (cur, TT) = Some (Some k, TT)"
| "tables_step c (cur, TT) =
     (if is_group_op c then Some (None, TT)
      else if \<not> on_table c then Some (cur, TT)
      else case cur of None \<Rightarrow> None | Some t \<Rightarrow> map_option (\<lambda>T. (Some t, TT(t := T))) (table_step c (TT t)))"

fun tables_run :: "call list \<Rightarrow> table_db \<Rightarrow> table_db option" where
  "tables_run [] s = Some s"
| "tables_run (c # cs) s = (case tables_step c s of None \<Rightarrow> None | Some s \<Rightarrow> tables_run cs s)"

definition table_inv :: "(int \<Rightarrow> int set) \<Rightarrow> bool \<Rightarrow> int set \<Rightarrow> table_db \<Rightarrow> observer \<Rightarrow> bool" where
  "table_inv old every keys s ob \<longleftrightarrow> track_all (ob_info ob) = every \<and>
     (let ts = info_tables (ob_info ob) in
      distinct (map fst ts) \<and> keys \<subseteq> fst ` set ts \<and> (\<not> every \<longrightarrow> fst ` set ts = keys) \<and>
      (\<forall>t. t \<in> fst ` set ts \<or> every \<longrightarrow> tells (table_changes_at ts t) (old t) (snd s t)) \<and>
      (\<forall>t. fst s = Some t \<longrightarrow> current_table ob = t \<and>
         active_table ob = (if t \<in> fst ` set ts then Some t else None) \<and> (every \<longrightarrow> t \<in> fst ` set ts)))"

lemma table_changes_at_update:
  "table_changes_at (AList.update k c ts) t = (if t = k then c else table_changes_at ts t)"
  by (simp add: table_changes_at_def update_conv')

lemma fst_update: "fst ` set (AList.update k c ts) = insert k (fst ` set ts)"
  by (induction ts) auto

lemma table_inv_select:
  assumes "table_inv old every keys (cur, TT) ob"
  shows "table_inv old every keys (Some t, TT) (ob_select_table t ob)"
  using assms
  by (cases "track_all (ob_info ob)")
    (auto simp: table_inv_def ob_select_table_def set_tables_def Let_def fst_update table_changes_at_update distinct_update)

text \<open>A change of the selected table.\<close>

lemma table_inv_change:
  assumes inv: "table_inv old every keys (Some t, TT) ob"
    and f: "\<And>c. tells c (old t) (TT t) \<Longrightarrow> tells (f c) (old t) T"
  shows "table_inv old every keys (Some t, TT(t := T)) (on_active_table f ob)"
proof -
  let ?ts = "info_tables (ob_info ob)"
  have a: "active_table ob = (if t \<in> fst ` set ?ts then Some t else None)" and e: "every \<longrightarrow> t \<in> fst ` set ?ts"
    using inv by (auto simp: table_inv_def Let_def)
  show ?thesis
  proof (cases "t \<in> fst ` set ?ts")
    case True
    then have "tells (f (table_changes_at ?ts t)) (old t) T" using inv f by (auto simp: table_inv_def Let_def)
    then show ?thesis
      using inv a True by (auto simp: table_inv_def on_active_table_def set_tables_def Let_def fst_update table_changes_at_update distinct_update)
  next
    case False
    then show ?thesis using inv a e by (auto simp: table_inv_def on_active_table_def Let_def)
  qed
qed

lemma table_inv_same:
  assumes "table_inv old every keys s ob" "info_tables (ob_info ob') = info_tables (ob_info ob)"
    "track_all (ob_info ob') = track_all (ob_info ob)" "current_table ob' = current_table ob" "active_table ob' = active_table ob"
  shows "table_inv old every keys s ob'"
  using assms by (simp add: table_inv_def)

lemma table_inv_unselect: "table_inv old every keys (cur, TT) ob \<Longrightarrow> table_inv old every keys (None, TT) ob"
  by (simp add: table_inv_def Let_def)

lemma on_active_list_keeps:
  "on_active_list f ob = Some ob' \<Longrightarrow> ob_info ob' = ob_info ob \<and> current_table ob' = current_table ob \<and> active_table ob' = active_table ob"
  by (auto simp: on_active_list_def realm_assert_def split: option.splits Option.bind_splits if_splits)

lemma observe_keeps:
  assumes "observe c ob = Some ob'" "\<not> on_table c" "\<not> (\<exists>k. c = Select_table k)"
  shows "info_tables (ob_info ob') = info_tables (ob_info ob) \<and> track_all (ob_info ob') = track_all (ob_info ob) \<and>
    current_table ob' = current_table ob \<and> active_table ob' = active_table ob"
proof (cases "is_list_op c")
  case True
  then show ?thesis using assms(1) on_active_list_keeps by (simp add: observe_list_op)
next
  case False
  then show ?thesis using assms by (cases c) (auto simp: set_schema_changed_def)
qed

text \<open>One instruction.\<close>

lemma table_inv_on_table:
  assumes inv: "table_inv old every keys (Some t, TT) ob" and c: "on_table c" and T: "table_step c (TT t) = Some T"
    and ob': "observe c ob = Some ob'"
  shows "table_inv old every keys (Some t, TT(t := T)) ob'"
  using c
proof (cases c)
  case (Create_object k)
  then have "TT t k = None" "T = (TT t)(k \<mapsto> (True, {}))" using T by (auto split: if_splits)
  then show ?thesis using table_inv_change[OF inv, of "insertions_add k"] tells_create ob' Create_object
    by (auto simp: ob_create_object_def)
next
  case (Remove_object k)
  then obtain n C where k: "TT t k = Some (n, C)" "T = (TT t)(k := None)" using T by (auto split: if_splits)
  let ?ob = "on_active_table (remove_from_table k) ob"
  have i: "table_inv old every keys (Some t, TT(t := T)) ?ob"
    using table_inv_change[OF inv, of "remove_from_table k"] tells_remove[of _ "old t" "TT t" k n C] k by blast
  have "ob' = ?ob \<or> ob' = set_lists (remove_lists_of (current_table ?ob) k 0) ?ob"
    using ob' Remove_object by (auto simp: ob_remove_object_def on_active_table_def Let_def split: option.splits)
  then show ?thesis using i table_inv_same[OF i, of ob'] by (auto simp: set_lists_def)
next
  case (Modify_object col k)
  then obtain n C where k: "TT t k = Some (n, C)" "T = (TT t)(k \<mapsto> (n, insert col C))" using T by (auto split: option.splits)
  then show ?thesis using table_inv_change[OF inv, of "modifications_add k col"] tells_modify ob' Modify_object
    by (auto simp: ob_modify_object_def)
next
  case (Select_list col k)
  then obtain n C where k: "TT t k = Some (n, C)" "T = (TT t)(k \<mapsto> (n, insert col C))" using T by (auto split: option.splits)
  then have "table_inv old every keys (Some t, TT(t := T)) (ob_modify_object col k ob)"
    using table_inv_change[OF inv, of "modifications_add k col"] tells_modify by (auto simp: ob_modify_object_def)
  from table_inv_same[OF this, of ob'] show ?thesis
    using ob' Select_list by (auto simp: ob_select_list_def Let_def)
next
  case (Clear_table n)
  then have "table_inv old every keys (Some t, TT(t := T)) (on_active_table (oc_clear (nat n)) ob)"
    using table_inv_change[OF inv, of "oc_clear (nat n)"] tells_clear T by auto
  from table_inv_same[OF this, of ob'] show ?thesis
    using ob' Clear_table by (auto simp: ob_clear_table_def set_lists_def)
qed simp_all

lemma table_inv_step:
  assumes inv: "table_inv old every keys s ob" and s': "tables_step c s = Some s'" and ob': "observe c ob = Some ob'"
  shows "table_inv old every keys s' ob'"
proof -
  obtain cur TT where s: "s = (cur, TT)" by (cases s)
  consider k where "c = Select_table k" | "\<not> (\<exists>k. c = Select_table k)" "\<not> on_table c" | "on_table c" by blast
  then show ?thesis
  proof cases
    case 1
    then show ?thesis using inv s s' ob' table_inv_select by auto
  next
    case 2
    have i: "table_inv old every keys s ob'"
      using observe_keeps[OF ob' 2(2,1)] table_inv_same[OF inv] by auto
    have "s' = (None, TT) \<or> s' = s" using s' s 2 by (cases c) auto
    then show ?thesis using i table_inv_unselect s by blast
  next
    case 3
    then obtain t T where "cur = Some t" "table_step c (TT t) = Some T" "s' = (Some t, TT(t := T))"
      using s' s by (cases c; cases cur) (auto split: if_splits)
    then show ?thesis using table_inv_on_table[of old every keys t TT ob c T ob'] inv s 3 ob' by simp
  qed
qed

lemma run_calls_observe:
  assumes "run_calls observer_handler (c # cs) ob = ok ob'"
  obtains ob1 where "observe c ob = Some ob1" "run_calls observer_handler cs ob1 = ok ob'"
proof -
  have "supported c"
  proof (rule ccontr)
    assume "\<not> supported c"
    then have "observer_handler c ob = throw UnsupportedSchemaChange" by (cases c) (simp_all add: observer_handler_def)
    then show False using assms by simp
  qed
  then show thesis
    using assms that by (cases "observe c ob") (simp_all add: observer_handler_supported, simp add: ok_def)
qed

lemma table_inv_run:
  "table_inv old every keys s ob \<Longrightarrow> tables_run cs s = Some s' \<Longrightarrow> run_calls observer_handler cs ob = ok ob' \<Longrightarrow>
    table_inv old every keys s' ob'"
proof (induction cs arbitrary: s ob)
  case (Cons c cs)
  obtain s1 where s1: "tables_step c s = Some s1" "tables_run cs s1 = Some s'"
    using Cons.prems(2) by (auto split: option.splits)
  obtain ob1 where ob1: "observe c ob = Some ob1" "run_calls observer_handler cs ob1 = ok ob'"
    by (rule run_calls_observe[OF Cons.prems(3)])
  show ?case using Cons.IH[OF table_inv_step[OF Cons.prems(1) s1(1) ob1(1)] s1(2) ob1(2)] .
qed simp

lemma table_inv_new:
  assumes "\<forall>(t, c)\<in>set (info_tables info). c = no_object_changes" "distinct (map fst (info_tables info))"
  shows "table_inv old (track_all info) (fst ` set (info_tables info)) (None, \<lambda>t. old_table (old t)) (new_observer info bs)"
proof -
  have "table_changes_at (info_tables info) t = no_object_changes" for t
    using assms(1) by (auto simp: table_changes_at_def split: option.splits dest!: map_of_SomeD)
  then show ?thesis using tells_start assms(2) by (auto simp: table_inv_def new_observer_def Let_def)
qed

lemma table_changes_at_filter:
  assumes "distinct (map fst ts)"
  shows "table_changes_at (filter (\<lambda>(k, c). \<not> oc_empty c) ts) t = table_changes_at ts t"
  using assms
proof (induction ts)
  case (Cons y ts)
  obtain k c where y: "y = (k, c)" by (cases y)
  have e: "c = no_object_changes" if "oc_empty c" for c
    using that by (cases c) (simp add: oc_empty_def no_object_changes_def)
  have "map_of (filter (\<lambda>(k, c). \<not> oc_empty c) ts) k = None"
    using Cons.prems y by (auto simp: map_of_eq_None_iff)
  then show ?case using Cons y e[of c] by (auto simp: table_changes_at_def)
qed simp

section \<open>Merging\<close>

text \<open>The objects after two transactions, the first leading to \<open>T1\<close>, and the second from there to \<open>T2\<close>.\<close>

definition followed_by :: "object_table \<Rightarrow> object_table \<Rightarrow> object_table" where
  "followed_by T1 T2 k = (case T2 k of Some (False, C2) \<Rightarrow>
     (case T1 k of None \<Rightarrow> None | Some (n, C1) \<Rightarrow> Some (n, C1 \<union> C2)) | r \<Rightarrow> r)"

fun table_run :: "call list \<Rightarrow> object_table \<Rightarrow> object_table option" where
  "table_run [] T = Some T"
| "table_run (c # cs) T = (case table_step c T of None \<Rightarrow> None | Some T \<Rightarrow> table_run cs T)"

lemma dom_followed_by:
  assumes "\<forall>k. survives T2 k \<longrightarrow> T1 k \<noteq> None"
  shows "followed_by T1 T2 k = None \<longleftrightarrow> T2 k = None"
  using assms by (auto simp: followed_by_def survives_def split: option.splits bool.splits)

lemma followed_by_step:
  assumes "table_step c T2 = Some T2'" "\<forall>k. survives T2 k \<longrightarrow> T1 k \<noteq> None"
  shows "table_step c (followed_by T1 T2) = Some (followed_by T1 T2') \<and> (\<forall>k. survives T2' k \<longrightarrow> T1 k \<noteq> None)"
proof -
  have modify: "\<exists>n C. followed_by T1 T2 k = Some (n, C) \<and>
      followed_by T1 (T2(k \<mapsto> (m, insert col D))) = (followed_by T1 T2)(k \<mapsto> (n, insert col C)) \<and>
      (\<forall>j. survives (T2(k \<mapsto> (m, insert col D))) j \<longrightarrow> T1 j \<noteq> None)" if "T2 k = Some (m, D)" for k m D col
    using that assms(2) spec[OF assms(2), of k]
    by (cases m; cases "T1 k") (auto simp: followed_by_def survives_def fun_eq_iff)
  show ?thesis
  proof (cases c)
    case (Modify_object col k)
    then show ?thesis using assms(1) modify[of k _ _ col] by (force split: option.splits prod.splits)
  next
    case (Select_list col k)
    then show ?thesis using assms(1) modify[of k _ _ col] by (force split: option.splits prod.splits)
  next
    case (Create_object k)
    then have "T2 k = None" "T2' = T2(k \<mapsto> (True, {}))" using assms(1) by (auto split: if_splits)
    then show ?thesis using Create_object assms(2) by (auto simp: followed_by_def survives_def fun_eq_iff)
  next
    case (Remove_object k)
    then have "T2 k \<noteq> None" "T2' = T2(k := None)" using assms(1) by (auto split: if_splits)
    then show ?thesis using Remove_object assms(2) dom_followed_by[OF assms(2), of k]
      by (auto simp: followed_by_def survives_def fun_eq_iff)
  qed (use assms in \<open>auto simp: followed_by_def survives_def fun_eq_iff\<close>)
qed

lemma followed_by_run:
  "table_run cs T2 = Some T2' \<Longrightarrow> \<forall>k. survives T2 k \<longrightarrow> T1 k \<noteq> None \<Longrightarrow>
    table_run cs (followed_by T1 T2) = Some (followed_by T1 T2')"
proof (induction cs arbitrary: T2)
  case (Cons c cs)
  then obtain T where T: "table_step c T2 = Some T" "table_run cs T = Some T2'" by (auto split: option.splits)
  show ?case using followed_by_step[OF T(1) Cons.prems(2)] Cons.IH[OF T(2)] by simp
qed simp

lemma followed_by_old: "followed_by T1 (old_table (dom T1)) = T1"
  by (auto simp: fun_eq_iff followed_by_def old_table_def split: option.splits)

lemma followed_by_start:
  assumes "table_run cs (old_table (dom T1)) = Some T2"
  shows "table_run cs T1 = Some (followed_by T1 T2)"
proof -
  have "\<forall>k. survives (old_table (dom T1)) k \<longrightarrow> T1 k \<noteq> None" by (auto simp: survives_def old_table_def)
  from followed_by_run[OF assms this] show ?thesis by (simp add: followed_by_old)
qed

lemma fold_insert_set [simp]: "set (fold List.insert xs ys) = set xs \<union> set ys"
  by (induction xs arbitrary: ys) auto

lemma fold_insert_distinct [simp]: "distinct ys \<Longrightarrow> distinct (fold List.insert xs ys)"
  by (induction xs arbitrary: ys) auto

lemma fold_insert_nonempty: "xs \<noteq> [] \<Longrightarrow> fold List.insert xs ys \<noteq> []"
  using fold_insert_set[of xs ys] by (metis Un_empty set_empty)

lemma drop_inserted_then_deleted_eq:
  "(\<forall>k\<in>set ks. k \<notin> set (oc_insertions c)) \<Longrightarrow>
    drop_inserted_then_deleted ks c = Some (c\<lparr>oc_modifications := fold AList.delete ks (oc_modifications c)\<rparr>)"
  by (induction ks arbitrary: c) simp_all

lemma columns_of_fold_delete: "columns_of (fold AList.delete ks ms) k = (if k \<in> set ks then [] else columns_of ms k)"
  by (induction ks arbitrary: ms) (simp_all add: columns_of_delete)

lemma distinct_fold_delete: "distinct (map fst ms) \<Longrightarrow> distinct (map fst (fold AList.delete ks ms))"
  by (induction ks arbitrary: ms) (simp_all add: distinct_delete)

lemma fold_delete_nonempty: "\<forall>(k, cols)\<in>set ms. cols \<noteq> [] \<Longrightarrow> \<forall>(k, cols)\<in>set (fold AList.delete ks ms). cols \<noteq> []"
proof (induction ks arbitrary: ms)
  case (Cons j ks)
  show ?case using Cons.IH[OF delete_nonempty[OF Cons.prems, of j]] by simp
qed simp

lemma merge_object_modifications_simps [simp]:
  "merge_object_modifications ms [] = ms"
  "merge_object_modifications ms ((j, cols) # others) =
     merge_object_modifications (AList.update j (fold List.insert cols (columns_of ms j)) ms) others"
  by (simp_all add: merge_object_modifications_def)

lemma columns_of_merge:
  "distinct (map fst others) \<Longrightarrow>
    set (columns_of (merge_object_modifications ms others) k) = set (columns_of ms k) \<union> set (columns_of others k)"
proof (induction others arbitrary: ms)
  case Nil
  then show ?case by (simp add: columns_of_def)
next
  case (Cons y others)
  obtain j cols where y: "y = (j, cols)" by (cases y)
  have "map_of others j = None" using Cons.prems(1) y by (simp add: map_of_eq_None_iff)
  then have "columns_of others j = []" by (simp add: columns_of_def)
  moreover have "columns_of (y # others) k = (if k = j then cols else columns_of others k)"
    by (simp add: columns_of_def y)
  ultimately show ?case using Cons y by (auto simp: columns_of_update)
qed

lemma distinct_merge: "distinct (map fst ms) \<Longrightarrow> distinct (map fst (merge_object_modifications ms others))"
proof (induction others arbitrary: ms)
  case (Cons y others)
  then show ?case by (cases y) (simp add: distinct_update)
qed simp

lemma merge_nonempty:
  "\<forall>(k, cols)\<in>set others. cols \<noteq> [] \<Longrightarrow> \<forall>(k, cols)\<in>set ms. cols \<noteq> [] \<Longrightarrow>
    \<forall>(k, cols)\<in>set (merge_object_modifications ms others). cols \<noteq> []"
proof (induction others arbitrary: ms)
  case (Cons y others)
  obtain j cols where y: "y = (j, cols)" by (cases y)
  then have "fold List.insert cols (columns_of ms j) \<noteq> []" using Cons.prems(1) by (intro fold_insert_nonempty) simp
  from Cons.IH[OF _ update_nonempty[OF Cons.prems(2) this]] show ?case using Cons.prems(1) y by simp
qed simp

lemma followed_by_facts:
  assumes "\<forall>k. survives T2 k \<longrightarrow> T1 k \<noteq> None" "\<forall>k. is_new T1 k \<longrightarrow> survives T2 k \<and> modified_columns T2 k = {}"
  shows "is_new (followed_by T1 T2) k \<longleftrightarrow> is_new T1 k \<or> is_new T2 k"
    "survives (followed_by T1 T2) k \<longleftrightarrow> survives T1 k \<and> survives T2 k"
    "modified_columns (followed_by T1 T2) k =
       (if survives T2 k then modified_columns T1 k else {}) \<union> modified_columns T2 k"
proof -
  have a: "survives T2 k \<longrightarrow> T1 k \<noteq> None" "is_new T1 k \<longrightarrow> survives T2 k \<and> modified_columns T2 k = {}" using assms by blast+
  show "is_new (followed_by T1 T2) k \<longleftrightarrow> is_new T1 k \<or> is_new T2 k"
    "survives (followed_by T1 T2) k \<longleftrightarrow> survives T1 k \<and> survives T2 k"
    "modified_columns (followed_by T1 T2) k =
       (if survives T2 k then modified_columns T1 k else {}) \<union> modified_columns T2 k"
    using a by (auto simp: is_new_def survives_def modified_columns_def followed_by_def split: option.splits bool.splits)
qed

lemma tells_same: "tells c old T \<Longrightarrow> (\<And>k. is_new T' k = is_new T k \<and> survives T' k = survives T k \<and>
    modified_columns T' k = modified_columns T k) \<Longrightarrow> tells c old T'"
  by (simp add: tells_def)

lemma oc_merge_tells:
  assumes c: "tells c old T1" and d: "tells d (dom T1) T2" and clear: "\<not> clear_did_occur d"
    and new: "\<forall>k. is_new T1 k \<longrightarrow> survives T2 k \<and> modified_columns T2 k = {}"
  shows "returns (oc_merge c d) (\<lambda>m. tells m old (followed_by T1 T2))"
proof -
  have "\<forall>k. survives T2 k \<longrightarrow> T1 k \<noteq> None" using d by (auto simp: tells_def)
  note f = followed_by_facts[OF this new]
  have dd: "k \<in> set (oc_deletions d) \<longleftrightarrow> T1 k \<noteq> None \<and> \<not> survives T2 k" for k using d clear by (auto simp: tells_def)
  have di: "k \<in> set (oc_insertions d) \<longleftrightarrow> is_new T2 k" for k using d by (auto simp: tells_def)
  have dm: "set (columns_of (oc_modifications d) k) = modified_columns T2 k" for k using d by (auto simp: tells_def)
  have alive: "T1 k \<noteq> None \<longleftrightarrow> is_new T1 k \<or> survives T1 k" for k by (auto simp: is_new_def survives_def)
  have stale: "\<not> survives T k \<Longrightarrow> modified_columns T k = {}" for T k
    by (auto simp: survives_def modified_columns_def split: option.splits bool.splits)
  consider "oc_empty d" | "\<not> oc_empty d" "oc_empty c" | "\<not> oc_empty d" "\<not> oc_empty c" by blast
  then show ?thesis
  proof cases
    case 1
    then have "tells c old (followed_by T1 T2)"
    proof (intro tells_same[OF c])
      fix k
      have e: "\<not> is_new T2 k" "T1 k \<noteq> None \<longrightarrow> survives T2 k" "modified_columns T2 k = {}"
        using 1 di[of k] dd[of k] dm[of k] by (auto simp: oc_empty_def columns_of_def)
      moreover have "modified_columns T1 k = {}" if "\<not> survives T2 k" using that e(2) by (cases "T1 k") (simp_all add: modified_columns_def)
      ultimately show "is_new (followed_by T1 T2) k = is_new T1 k \<and> survives (followed_by T1 T2) k = survives T1 k \<and>
          modified_columns (followed_by T1 T2) k = modified_columns T1 k"
        using alive[of k] by (auto simp: f)
    qed
    then show ?thesis using 1 by (simp add: oc_merge_def)
  next
    case 2
    have c2: "\<not> is_new T1 k" "survives T1 k \<longleftrightarrow> k \<in> old" "modified_columns T1 k = {}" for k
      using c 2(2) by (auto simp: tells_def oc_empty_def columns_of_def)
    then have "T1 k \<noteq> None \<longleftrightarrow> k \<in> old" for k using alive[of k] by blast
    then have "dom T1 = old" unfolding dom_def by blast
    then have d': "tells d old T2" using d by simp
    have "tells d old (followed_by T1 T2)"
    proof (intro tells_same[OF d'])
      fix k
      have "survives T2 k \<longrightarrow> survives T1 k" using d' c2(2)[of k] by (simp add: tells_def)
      then show "is_new (followed_by T1 T2) k = is_new T2 k \<and> survives (followed_by T1 T2) k = survives T2 k \<and>
          modified_columns (followed_by T1 T2) k = modified_columns T2 k"
        using c2(1,3)[of k] by (auto simp: f)
    qed
    then show ?thesis using 2 by (simp add: oc_merge_def)
  next
    case 3
    let ?ms = "fold AList.delete (oc_deletions d) (oc_modifications c)"
    let ?m = "c\<lparr>oc_insertions := fold List.insert (oc_insertions d) (oc_insertions c),
        oc_deletions := fold List.insert (oc_deletions d) (oc_deletions c),
        oc_modifications := merge_object_modifications ?ms (oc_modifications d)\<rparr>"
    have ci: "k \<in> set (oc_insertions c) \<longleftrightarrow> is_new T1 k" for k using c by (auto simp: tells_def)
    have "\<forall>k\<in>set (oc_deletions d). k \<notin> set (oc_insertions c)" using dd ci new by blast
    from drop_inserted_then_deleted_eq[OF this] have m: "oc_merge c d = Some ?m"
      using 3 clear by (simp add: oc_merge_def)
    have ms: "set (columns_of (merge_object_modifications ?ms (oc_modifications d)) k) =
        modified_columns (followed_by T1 T2) k" for k
    proof -
      have "set (columns_of (oc_modifications c) k) = modified_columns T1 k" "distinct (map fst (oc_modifications d))"
        using c d by (auto simp: tells_def)
      moreover have "T1 k = None \<longrightarrow> modified_columns T1 k = {}" by (simp add: modified_columns_def)
      ultimately show ?thesis
        unfolding columns_of_merge[OF \<open>distinct _\<close>] columns_of_fold_delete dd f using dm[of k]
        by (cases "survives T2 k"; cases "T1 k = None") simp_all
    qed
    have ok: "distinct (map fst (oc_modifications c))" "\<forall>(k, cols)\<in>set (oc_modifications c). cols \<noteq> []"
      "\<forall>(k, cols)\<in>set (oc_modifications d). cols \<noteq> []"
      using c d by (simp_all add: tells_def)
    have wf: "distinct (map fst (oc_modifications ?m))" "\<forall>(k, cols)\<in>set (oc_modifications ?m). cols \<noteq> []"
      using distinct_merge[OF distinct_fold_delete[OF ok(1)]] merge_nonempty[OF ok(3) fold_delete_nonempty[OF ok(2)]]
      by simp_all
    have del: "if clear_did_occur ?m then oc_deletions ?m = [] \<and> (\<forall>k. \<not> survives (followed_by T1 T2) k)
        else \<forall>k. k \<in> set (oc_deletions ?m) \<longleftrightarrow> k \<in> old \<and> \<not> survives (followed_by T1 T2) k"
    proof (cases "clear_did_occur c")
      case True
      have e: "oc_deletions c = []" "\<forall>k. \<not> survives T1 k" using c True unfolding tells_def by simp_all
      then have "k \<notin> set (oc_deletions d)" for k using dd[of k] alive[of k] spec[OF new, of k] by blast
      then have "oc_deletions d = []" by (cases "oc_deletions d") auto
      then show ?thesis using True e by (simp add: f)
    next
      case False
      have "k \<in> set (oc_deletions ?m) \<longleftrightarrow> k \<in> old \<and> \<not> survives (followed_by T1 T2) k" for k
      proof -
        have "k \<in> set (oc_deletions c) \<longleftrightarrow> k \<in> old \<and> \<not> survives T1 k" "survives T1 k \<longrightarrow> k \<in> old"
          using c False by (auto simp: tells_def)
        then show ?thesis using dd[of k] alive[of k] spec[OF new, of k] by (auto simp: f)
      qed
      then show ?thesis using False by simp
    qed
    have dist: "distinct (oc_insertions ?m)" "distinct (oc_deletions ?m)" using c by (simp_all add: tells_def)
    have ins: "\<forall>k. k \<in> set (oc_insertions ?m) \<longleftrightarrow> is_new (followed_by T1 T2) k" using ci di by (auto simp: f)
    have old: "\<forall>k. survives (followed_by T1 T2) k \<longrightarrow> k \<in> old" using c by (simp add: tells_def f)
    have cols: "\<forall>k. set (columns_of (oc_modifications ?m) k) = modified_columns (followed_by T1 T2) k" using ms by simp
    have "tells ?m old (followed_by T1 T2)"
      unfolding tells_def by (intro conjI; fact)
    then show ?thesis using m by simp
  qed
qed

end
