(* ===== verification/ObserverProperties.thy ===== *)
theory ObserverProperties
  imports ObservedObjects TransactConvenientProperties
begin

text \<open>
  The properties of \<open>TransactLogObserver\<close> and \<open>ObjectChangeSet\<close>: what reaches the observers of a database
  after the changes were encoded, parsed and recorded.
\<close>

section \<open>From the encoder to the observer\<close>

lemma lift_eq_ok: "lift m = ok x \<longleftrightarrow> m = Some x"
  by (cases m) (auto simp: lift_def ok_def)

lemma advance_in_memory:
  assumes "decode_log log = (cs, ok ())"
    and "info_lists info = [] \<Longrightarrow> info_tables info = [] \<Longrightarrow> \<not> track_all info \<Longrightarrow> Q (new_observer info bs)"
    and "yields (andthen (run_calls observer_handler cs (new_observer info bs)) (\<lambda>ob. lift (parse_complete ob))) Q"
  shows "yields (advance_info simple_next_block log info bs) Q"
proof -
  have "parse simple_next_block observer_handler log (new_observer info bs) = run_calls observer_handler cs (new_observer info bs)"
    using simple_no_copy.parse_decode_log[of observer_handler log "new_observer info bs"] assms(1)
    by (cases "run_calls observer_handler cs (new_observer info bs)") (auto simp: finish_def ok_def andthen_def split: sum.splits)
  then show ?thesis using assms(2,3) by (auto simp: advance_info_def advance_with_observer_def)
qed

text \<open>C7. From a change of a list to its notification. When changes are written by the convenient
  encoder, and the log is parsed for an observer, the builder of every observed list describes how the list
  has changed, and marks exactly the elements that were set, wherever later changes moved them, unless
  the object of the list was removed. Changes of other lists, of objects and of the schema in between do not matter.\<close>

theorem observed_lists_correct:
  assumes "selecting_ok key_of dst dsl" "\<forall>ch\<in>set chs. change_ok key_of ch" "96 * length chs < 2 ^ 64"
    and "observed_ok (info_lists info) bs" "\<forall>l\<in>set (info_lists info). length (X (li_key l)) \<le> npos"
    and "db_run (concat (map (intended key_of) chs)) (unmarked X, {}) (L, R)"
  shows "yields (apply_changes key_of dst dsl chs new_conv_encoder) (\<lambda>s.
    yields (advance_info simple_next_block (written (ce_encoder s)) info bs) (\<lambda>ob.
      \<forall>l\<in>set (info_lists info). li_owner l \<notin> R \<longrightarrow> l \<in> set (info_lists (ob_info ob)) \<and>
        describes (builders ob ! li_changes l) (X (li_key l)) (map fst (L (li_key l))) \<and>
        tracked (builders ob ! li_changes l) None = {i. i < length (L (li_key l)) \<and> snd (L (li_key l) ! i)}))"
  using changes_decoded[OF assms(1-3)]
proof (rule yields_mono)
  fix s
  assume "\<exists>cs. decode_log (written (ce_encoder s)) = (cs, ok ()) \<and>
    well_scoped (None, None) cs \<and> located (None, None) cs = concat (map (intended key_of) chs)"
  then obtain cs where cs: "decode_log (written (ce_encoder s)) = (cs, ok ())" "well_scoped (None, None) cs"
      "located (None, None) cs = concat (map (intended key_of) chs)" by blast
  have "db_run (located (None, None) cs) (unmarked X, {}) (L, R)" using assms(6) cs(3) by simp
  note obs = observed_calls[OF assms(4,5) cs(2) this]
  show "yields (advance_info simple_next_block (written (ce_encoder s)) info bs) (\<lambda>ob.
      \<forall>l\<in>set (info_lists info). li_owner l \<notin> R \<longrightarrow> l \<in> set (info_lists (ob_info ob)) \<and>
        describes (builders ob ! li_changes l) (X (li_key l)) (map fst (L (li_key l))) \<and>
        tracked (builders ob ! li_changes l) None = {i. i < length (L (li_key l)) \<and> snd (L (li_key l) ! i)})"
    by (rule advance_in_memory[OF cs(1)], simp, rule yields_mono[OF obs]) (auto simp: records_def marked_def)
qed

definition sample_info :: change_info where
  "sample_info = \<lparr>info_lists = [\<lparr>li_table = 5, li_row = 4, li_col = 3, li_changes = 0\<rparr>], info_tables = [],
     track_all = False, schema_changed = False\<rparr>"

theorem observed_lists_correct_witness:
  "yields (apply_changes sample_keys (sample_do_select_table sample_keys) (sample_do_select_list sample_keys)
     [In_list sample_lst (Insert_element 1), In_list sample_lst (Set_element 0), In_list sample_lst (Swap_elements 0 2)] new_conv_encoder)
   (\<lambda>s. yields (advance_info simple_next_block (written (ce_encoder s)) sample_info [empty_builder])
     (\<lambda>ob. describes (builders ob ! 0) [10, 20] [20, 99, 10 :: int] \<and> tracked (builders ob ! 0) None = {2}))"
proof -
  let ?k = "(5, 3, 4) :: list_key" and ?x = "(Some 5, Some (3, 4)) :: selection"
  define X where "X = (\<lambda>k. if k = ?k then [10, 20 :: int] else [])"
  let ?y0 = "[(10, False), (20, False)] :: int slots" and ?y1 = "[(10, False), (99, False), (20, False)] :: int slots"
  let ?y2 = "[(10, True), (99, False), (20, False)] :: int slots" and ?y3 = "[(20, False), (99, False), (10, True)] :: int slots"
  have npos_bound: "Suc (Suc 0) < npos" by (simp add: npos_def)
  have s: "list_step (List_insert 1) ?y0 ?y1" "list_step (List_set 0) ?y1 ?y2" "list_step (List_swap 0 2) ?y2 ?y3"
    using list_step.Insert[of 1 ?y0 99] list_step.Set[of 0 ?y1] list_step.Swap[of 0 ?y2 2] npos_bound by simp_all
  let ?L = "\<lambda>y. (unmarked X)(?k := y)"
  have o: "db_step (?x, c) (?L y, {}) (?L z, {})" if "list_step c y z" for c y z
    using db_step.On_list[of c "?L y" 5 3 4 z "{}"] that by simp
  have i: "concat (map (intended sample_keys)
      [In_list sample_lst (Insert_element 1), In_list sample_lst (Set_element 0), In_list sample_lst (Swap_elements 0 2)]) =
      [(?x, List_insert 1), (?x, List_set 0), (?x, List_swap 0 2)]"
    by (simp add: sample_lst_def sample_keys_def)
  have "db_run [(?x, List_insert 1), (?x, List_set 0), (?x, List_swap 0 2)] (?L ?y0, {}) (?L ?y3, {})"
    by (intro db_run.Cons[OF o[OF s(1)]] db_run.Cons[OF o[OF s(2)]] db_run.Cons[OF o[OF s(3)]] db_run.Nil)
  moreover have "?L ?y0 = unmarked X" by (auto simp: unmarked_def X_def)
  ultimately have r: "db_run (concat (map (intended sample_keys)
      [In_list sample_lst (Insert_element 1), In_list sample_lst (Set_element 0), In_list sample_lst (Swap_elements 0 2)]))
      (unmarked X, {}) (?L ?y3, {})"
    unfolding i by simp
  have ok: "observed_ok (info_lists sample_info) [empty_builder]"
    by (simp add: observed_ok_def lists_ok_def sample_info_def)
  have "\<forall>l\<in>set (info_lists sample_info). length (X (li_key l)) \<le> npos"
    by (simp add: sample_info_def X_def li_key_def npos_def)
  from observed_lists_correct[OF sample_selecting_ok _ _ ok this r]
  have "yields (apply_changes sample_keys (sample_do_select_table sample_keys) (sample_do_select_list sample_keys)
     [In_list sample_lst (Insert_element 1), In_list sample_lst (Set_element 0), In_list sample_lst (Swap_elements 0 2)] new_conv_encoder)
   (\<lambda>s. yields (advance_info simple_next_block (written (ce_encoder s)) sample_info [empty_builder])
     (\<lambda>ob. describes (builders ob ! 0) [10, 20] (map fst ?y3) \<and> tracked (builders ob ! 0) None = {i. i < length ?y3 \<and> snd (?y3 ! i)}))"
    by (auto simp: sample_info_def X_def li_key_def li_owner_def sample_lst_def sample_keys_def lst_ok_def link_list_id_def
        null_list_id_def fits_nonneg elim!: yields_mono)
  moreover have "{i. i < length ?y3 \<and> snd (?y3 ! i)} = {2}" by (auto simp: less_Suc_eq numeral_2_eq_2)
  ultimately show ?thesis by simp
qed

text \<open>What is told about an object \<open>k\<close> of a table with the objects \<open>olds\<close> before and \<open>T\<close> after.\<close>

definition reports :: "object_changes \<Rightarrow> int set \<Rightarrow> object_table \<Rightarrow> int \<Rightarrow> bool" where
  "reports c olds T k \<longleftrightarrow> (insertions_contains c k \<longleftrightarrow> is_new T k) \<and> (survives T k \<longrightarrow> k \<in> olds) \<and>
     (if clear_did_occur c then \<not> survives T k \<and> (deletions_contains c k \<longleftrightarrow> \<not> is_new T k)
      else deletions_contains c k \<longleftrightarrow> k \<in> olds \<and> \<not> survives T k) \<and>
     (case get_columns_modified c k of None \<Rightarrow> modified_columns T k = {}
      | Some cols \<Rightarrow> set cols = modified_columns T k \<and> cols \<noteq> [])"

text \<open>C8. From a change of an object to its notification. After a log was parsed for an observer, the
  change set of every observed table (of every table, if all are tracked) has the new objects as insertions, the old objects
  that are gone (or were replaced by new ones) as deletions and no others, and has the modified columns of exactly the
  modified objects that are not new. If it says that the table was cleared, no old object is left, and all
  that are not new count as deleted.\<close>

theorem observed_objects_correct:
  assumes "selects_ok st sl" "\<forall>c\<in>set cs. call_ok c" "32 * length cs < 2 ^ 64"
    and "observed_ok (info_lists info) bs" "\<forall>l\<in>set (info_lists info). length (X (li_key l)) \<le> npos"
    and "well_scoped (None, None) cs" "db_run (located (None, None) cs) (unmarked X, {}) (L, R)"
    and "\<forall>(t, c)\<in>set (info_tables info). c = no_object_changes" "distinct (map fst (info_tables info))"
    and "tables_run cs (None, \<lambda>t. old_table (old t)) = Some (cur, TT)"
  shows "yields (encode_calls st sl cs new_encoder) (\<lambda>e. yields (advance_info simple_next_block (written e) info bs) (\<lambda>ob.
    \<forall>t k. track_all info \<or> t \<in> fst ` set (info_tables info) \<longrightarrow>
      reports (table_changes_at (info_tables (ob_info ob)) t) (old t) (TT t) k))"
proof -
  let ?told = "\<lambda>ob. \<forall>t. track_all info \<or> t \<in> fst ` set (info_tables info) \<longrightarrow>
    tells (table_changes_at (info_tables (ob_info ob)) t) (old t) (TT t)"
  have t: "reports c olds T k" if c: "tells c olds T" for c olds T k
  proof -
    have "set (columns_of (oc_modifications c) k) = modified_columns T k" using c by (simp add: tells_def)
    moreover have "\<forall>cols. map_of (oc_modifications c) k = Some cols \<longrightarrow> cols \<noteq> []"
      using c by (auto simp: tells_def dest!: map_of_SomeD)
    ultimately have "case get_columns_modified c k of None \<Rightarrow> modified_columns T k = {}
      | Some cols \<Rightarrow> set cols = modified_columns T k \<and> cols \<noteq> []"
      by (cases "map_of (oc_modifications c) k") (simp_all add: get_columns_modified_def columns_of_def)
    moreover have "insertions_contains c k \<longleftrightarrow> is_new T k" using c by (simp add: insertions_contains_def tells_def)
    moreover have "T k = None \<Longrightarrow> \<not> is_new T k \<and> \<not> survives T k" "survives T k \<Longrightarrow> \<not> is_new T k"
      by (auto simp: is_new_def survives_def)
    ultimately show ?thesis
      using c unfolding reports_def deletions_contains_def tells_def by (auto split: if_splits)
  qed
  have "yields (encode_calls st sl cs new_encoder) (\<lambda>e. \<exists>bss. list_all2 reads_back cs bss \<and> enc_ok e (concat bss))"
    using encode_calls_props[OF assms(1,2) enc_ok_new] assms(3) by simp
  then show ?thesis
  proof (rule yields_mono)
    fix e
    assume "\<exists>bss. list_all2 reads_back cs bss \<and> enc_ok e (concat bss)"
    then have d: "decode_log (written e) = (cs, ok ())" using decode_log_reads_back written_enc_ok by auto
    have new: "table_inv old (track_all info) (fst ` set (info_tables info)) (None, \<lambda>t. old_table (old t)) (new_observer info bs)"
      by (rule table_inv_new[OF assms(8,9)])
    have "yields (advance_info simple_next_block (written e) info bs) ?told"
    proof (rule advance_in_memory[OF d])
      show "?told (new_observer info bs)" if "info_lists info = []" "info_tables info = []" "\<not> track_all info"
        using that by simp
      obtain ob ob' where ob: "run_calls observer_handler cs (new_observer info bs) = ok ob" "parse_complete ob = Some ob'"
        using observed_calls[OF assms(4,5,6,7)] unfolding yields_andthen by (auto simp: yields_iff lift_eq_ok)
      have i: "table_inv old (track_all info) (fst ` set (info_tables info)) (cur, TT) ob"
        by (rule table_inv_run[OF new assms(10) ob(1)])
      have "info_tables (ob_info ob') = filter (\<lambda>(k, c). \<not> oc_empty c) (info_tables (ob_info ob))"
        using ob(2) by (auto simp: parse_complete_def set_tables_def split: Option.bind_splits)
      then have "?told ob'"
        using i table_changes_at_filter[of "info_tables (ob_info ob)"] by (auto simp: table_inv_def Let_def)
      then show "yields (andthen (run_calls observer_handler cs (new_observer info bs)) (\<lambda>ob. lift (parse_complete ob))) ?told"
        using ob by simp
    qed
    then show "yields (advance_info simple_next_block (written e) info bs) (\<lambda>ob.
    \<forall>t k. track_all info \<or> t \<in> fst ` set (info_tables info) \<longrightarrow>
      reports (table_changes_at (info_tables (ob_info ob)) t) (old t) (TT t) k)"
      by (rule yields_mono) (use t in blast)
  qed
qed


definition sample_tables :: change_info where
  "sample_tables = \<lparr>info_lists = [], info_tables = [(5, no_object_changes)], track_all = False, schema_changed = False\<rparr>"

theorem observed_objects_correct_witness:
  "yields (encode_calls sample_select_table sample_select_list
     [Select_table 5, Create_object 9, Modify_object 3 4, Modify_object 3 9, Remove_object 7] new_encoder)
   (\<lambda>e. yields (advance_info simple_next_block (written e) sample_tables []) (\<lambda>ob.
     let c = table_changes_at (info_tables (ob_info ob)) 5 in
       insertions_contains c 9 \<and> deletions_contains c 7 \<and> \<not> deletions_contains c 4 \<and>
       get_columns_modified c 9 = None \<and> map_option set (get_columns_modified c 4) = Some {3}))"
proof -
  let ?cs = "[Select_table 5, Create_object 9, Modify_object 3 4, Modify_object 3 9, Remove_object 7]"
  let ?X = "\<lambda>k. [] :: unit list" and ?old = "\<lambda>t. if t = (5 :: int) then {4, 7 :: int} else {}"
  have o: "observed_ok (info_lists sample_tables) []" "\<forall>l\<in>set (info_lists sample_tables). length (?X (li_key l)) \<le> npos"
    "\<forall>(t, c)\<in>set (info_tables sample_tables). c = no_object_changes" "distinct (map fst (info_tables sample_tables))"
    by (simp_all add: sample_tables_def observed_ok_def lists_ok_def)
  have c: "\<forall>c\<in>set ?cs. call_ok c" "32 * length ?cs < 2 ^ 64"
    by (auto simp: fits_nonneg)
  have w: "well_scoped (None, None) ?cs" by (simp add: well_placed_def)
  have l: "located (None, None) ?cs = [((Some 5, None), Create_object 9), ((Some 5, None), Modify_object 3 4),
      ((Some 5, None), Modify_object 3 9), ((Some 5, None), Remove_object 7)]"
    by (simp add: place_def)
  have o1: "db_step ((Some 5, None), Create_object 9) (unmarked ?X, {}) (unmarked ?X, {})"
    "db_step ((Some 5, None), Modify_object 3 4) (unmarked ?X, {}) (unmarked ?X, {})"
    "db_step ((Some 5, None), Modify_object 3 9) (unmarked ?X, {}) (unmarked ?X, {})"
    "db_step ((Some 5, None), Remove_object 7) (unmarked ?X, {}) (unmarked ?X, {(5, 7)})"
    by (simp_all add: db_step.Other db_step.Remove)
  have r: "db_run (located (None, None) ?cs) (unmarked ?X, {}) (unmarked ?X, {(5, 7)})"
    unfolding l
    by (rule db_run.Cons[OF o1(1)], rule db_run.Cons[OF o1(2)], rule db_run.Cons[OF o1(3)], rule db_run.Cons[OF o1(4)], rule db_run.Nil)
  define TT where "TT = (\<lambda>t. old_table (?old t))(5 := (old_table {4, 7})(9 := Some (True, {3}), 4 := Some (False, {3}), 7 := None))"
  have "tables_run ?cs (None, \<lambda>t. old_table (?old t)) = Some (Some 5, TT)"
    by (auto simp: TT_def old_table_def fun_eq_iff)
  note all = observed_objects_correct[OF sample_selects_ok c o(1,2) w r o(3,4) this]
  have k: "TT 5 9 = Some (True, {3})" "TT 5 7 = None" "TT 5 4 = Some (False, {3})"
    by (simp_all add: TT_def)
  have "insertions_contains c 9 \<and> deletions_contains c 7 \<and> \<not> deletions_contains c 4 \<and>
       get_columns_modified c 9 = None \<and> map_option set (get_columns_modified c 4) = Some {3}"
    if "reports c {4, 7} (TT 5) 9" "reports c {4, 7} (TT 5) 7" "reports c {4, 7} (TT 5) 4" for c
    using that k by (auto simp: reports_def is_new_def survives_def modified_columns_def split: option.splits if_splits)
  then have one: "let c = table_changes_at (info_tables (ob_info ob)) 5 in
       insertions_contains c 9 \<and> deletions_contains c 7 \<and> \<not> deletions_contains c 4 \<and>
       get_columns_modified c 9 = None \<and> map_option set (get_columns_modified c 4) = Some {3}"
    if "\<forall>t k. track_all sample_tables \<or> t \<in> fst ` set (info_tables sample_tables) \<longrightarrow>
      reports (table_changes_at (info_tables (ob_info ob)) t) (?old t) (TT t) k" for ob
    using that[rule_format, of 5 9] that[rule_format, of 5 7] that[rule_format, of 5 4] by (simp add: sample_tables_def Let_def)
  show ?thesis
    by (rule yields_mono[OF all], rule yields_mono, assumption, rule one)
qed

section \<open>Several transactions\<close>

text \<open>C24. Merging the change sets of two transactions. If one change set tells what happened up to the objects
  \<open>T1\<close>, and another one what the calls \<open>cs\<close> of the next transaction did to them, merging tells what happened
  altogether, if the second transaction did not clear the table, and neither deleted nor modified objects
  that the first one created.\<close>

theorem object_merge_correct:
  assumes "tells c old T1" "table_run cs (old_table (dom T1)) = Some T2" "tells d (dom T1) T2"
    and "\<not> clear_did_occur d" "\<forall>k. is_new T1 k \<longrightarrow> survives T2 k \<and> modified_columns T2 k = {}"
  shows "yields (lift (oc_merge c d)) (\<lambda>m. \<exists>T. table_run cs T1 = Some T \<and> tells m old T)"
proof -
  obtain m where "oc_merge c d = Some m" "tells m old (followed_by T1 T2)"
    using oc_merge_tells[OF assms(1,3,4,5)] by (auto simp: returns_iff)
  then show ?thesis using followed_by_start[OF assms(2)] by simp
qed

theorem object_merge_correct_witness:
  "yields (lift (oc_merge \<lparr>oc_deletions = [], oc_insertions = [9], oc_modifications = [(4, [3])], clear_did_occur = False\<rparr>
      \<lparr>oc_deletions = [7], oc_insertions = [], oc_modifications = [(4, [2])], clear_did_occur = False\<rparr>))
    (\<lambda>m. set (oc_deletions m) = {7} \<and> set (oc_insertions m) = {9})"
proof -
  let ?c = "\<lparr>oc_deletions = [], oc_insertions = [9], oc_modifications = [(4, [3])], clear_did_occur = False\<rparr>"
  let ?d = "\<lparr>oc_deletions = [7], oc_insertions = [], oc_modifications = [(4, [2])], clear_did_occur = False\<rparr>"
  define T1 where "T1 = (\<lambda>k :: int. if k = 9 then Some (True, {} :: int set) else if k = 4 then Some (False, {3})
      else if k = 7 then Some (False, {}) else None)"
  define T2 where "T2 = (\<lambda>k :: int. if k = 9 then Some (False, {} :: int set) else if k = 4 then Some (False, {2}) else None)"
  have d: "dom T1 = {4, 7, 9}" by (auto simp: T1_def split: if_splits)
  have c: "tells ?c {4, 7} T1"
    by (auto simp: tells_def T1_def is_new_def survives_def modified_columns_def columns_of_def split: if_splits)
  have t2: "tells ?d (dom T1) T2" unfolding d
    by (auto simp: tells_def T2_def is_new_def survives_def modified_columns_def columns_of_def split: if_splits)
  have r: "table_run [Remove_object 7, Modify_object 2 4] (old_table (dom T1)) = Some T2"
    unfolding d by (auto simp: T2_def old_table_def fun_eq_iff)
  have n: "\<forall>k. is_new T1 k \<longrightarrow> survives T2 k \<and> modified_columns T2 k = {}"
    by (auto simp: T1_def T2_def is_new_def survives_def modified_columns_def split: if_splits)
  have T: "T = T1(7 := None, 4 := Some (False, {2, 3}))"
    if "table_run [Remove_object 7, Modify_object 2 4] T1 = Some T" for T
    using that by (simp add: T1_def)
  have m: "set (oc_deletions m) = {7} \<and> set (oc_insertions m) = {9}"
    if mm: "oc_merge ?c ?d = Some m" "\<exists>T. table_run [Remove_object 7, Modify_object 2 4] T1 = Some T \<and> tells m {4, 7} T" for m
  proof -
    obtain T where "tells m {4, 7} T" and T: "T = T1(7 := None, 4 := Some (False, {2, 3}))"
      using mm(2) T by blast
    moreover have "\<not> clear_did_occur m" using mm(1) by (auto simp: oc_merge_def oc_empty_def)
    moreover have "is_new T k \<longleftrightarrow> k = 9" "survives T k \<longleftrightarrow> k = 4" for k
      using T by (auto simp: is_new_def survives_def T1_def)
    ultimately show ?thesis unfolding tells_def by (simp add: set_eq_iff) auto
  qed
  show ?thesis
    using object_merge_correct[OF c r t2 _ n] m by (auto simp: yields_iff lift_eq_ok)
qed

lemma drop_undefined: "k \<in> set objs \<Longrightarrow> k \<in> set (oc_insertions c) \<Longrightarrow> drop_inserted_then_deleted objs c = None"
  by (induction objs c rule: drop_inserted_then_deleted.induct) (auto simp: Let_def)

lemma drop_defined:
  "set objs \<inter> set (oc_insertions c) = {} \<Longrightarrow> \<exists>ms. drop_inserted_then_deleted objs c = Some (c\<lparr>oc_modifications := ms\<rparr>)"
proof (induction objs c rule: drop_inserted_then_deleted.induct)
  case (1 c)
  show ?case by (rule exI[of _ "oc_modifications c"]) simp
next
  case (2 obj objs c)
  then show ?case by (auto simp: Let_def)
qed

lemma merge_keeps_modified:
  "fst ` set ms \<union> fst ` set others \<subseteq> fst ` set (merge_object_modifications ms others)"
proof (induction others arbitrary: ms)
  case (Cons o' others)
  show ?case
    using Cons.IH[of "AList.update (fst o') (fold List.insert (snd o') (columns_of ms (fst o'))) ms"]
    by (auto simp: merge_object_modifications_def case_prod_unfold dom_update)
qed (simp add: merge_object_modifications_def)

text \<open>C25. What merging change sets of objects gets wrong, for an object that the first set has as inserted: if the second one has it as deleted,
  merging is undefined, because the iterator of one hash set is passed to \<open>erase\<close> of another. If it does not delete any
  such object, the object remains an insertion, also if the second set says that the table was cleared, and if it has it as modified it is
  merged as modified, although \<open>modifications_add\<close> does not record modifications of new objects.\<close>

theorem object_changes_astray:
  assumes "insertions_contains c k" "\<not> oc_empty d"
  shows "modifications_add k col c = c \<and> (k \<in> set (oc_deletions d) \<longrightarrow> oc_merge c d = None) \<and>
    (set (oc_deletions d) \<inter> set (oc_insertions c) = {} \<longrightarrow>
      returns (oc_merge c d) (\<lambda>m. insertions_contains m k \<and> (clear_did_occur d \<longrightarrow> clear_did_occur m) \<and>
        (modifications_contains d k \<longrightarrow> modifications_contains m k)))"
proof -
  have k: "k \<in> set (oc_insertions c)" using assms(1) by (simp add: insertions_contains_def)
  then have c: "\<not> oc_empty c" by (auto simp: oc_empty_def)
  have "oc_merge c d = None" if "k \<in> set (oc_deletions d)"
    using drop_undefined[OF that, of "c\<lparr>clear_did_occur := clear_did_occur c \<or> clear_did_occur d\<rparr>"] k c assms(2)
    by (simp add: oc_merge_def)
  moreover have "returns (oc_merge c d) (\<lambda>m. insertions_contains m k \<and> (clear_did_occur d \<longrightarrow> clear_did_occur m) \<and>
        (modifications_contains d k \<longrightarrow> modifications_contains m k))"
    if none: "set (oc_deletions d) \<inter> set (oc_insertions c) = {}"
  proof -
    obtain ms where "drop_inserted_then_deleted (oc_deletions d) (c\<lparr>clear_did_occur := clear_did_occur c \<or> clear_did_occur d\<rparr>) =
        Some (c\<lparr>clear_did_occur := clear_did_occur c \<or> clear_did_occur d, oc_modifications := ms\<rparr>)"
      using drop_defined[of "oc_deletions d" "c\<lparr>clear_did_occur := clear_did_occur c \<or> clear_did_occur d\<rparr>"] none by auto
    moreover have "k \<in> fst ` set (oc_modifications d) \<Longrightarrow> k \<in> fst ` set (merge_object_modifications ms (oc_modifications d))"
      using merge_keeps_modified[of ms "oc_modifications d"] by blast
    ultimately show ?thesis using c assms(2) k
      by (simp add: oc_merge_def returns_iff insertions_contains_def modifications_contains_def)
  qed
  moreover have "modifications_add k col c = c" using k by (simp add: modifications_add_def)
  ultimately show ?thesis by blast
qed

theorem object_changes_astray_witness:
  "oc_merge (insertions_add 7 no_object_changes) (deletions_add 7 no_object_changes) = None"
  using object_changes_astray[of "insertions_add 7 no_object_changes" 7 "deletions_add 7 no_object_changes" 0]
  by (simp add: insertions_contains_def insertions_add_def deletions_add_def no_object_changes_def oc_empty_def List.insert_def Let_def)

text \<open>When an object with observed lists is removed, the entry that is moved into the place of the first one removed is skipped: it
  stays under observation, also if it is a list of the same object.\<close>

theorem moved_list_not_examined:
  assumes "\<forall>m\<in>set (ls @ ms). \<not> (li_table m = t \<and> li_row m = k)" "li_table l = t" "li_row l = k"
  shows "remove_lists_of t k 0 (ls @ l # ms @ [m]) = ls @ m # ms"
proof -
  have pass: "remove_lists_of t k (length ps) (ps @ ns @ qs) = remove_lists_of t k (length (ps @ ns)) (ps @ ns @ qs)"
    if "\<forall>m\<in>set ns. \<not> (li_table m = t \<and> li_row m = k)" for ps ns qs
    using that
  proof (induction ns arbitrary: ps)
    case (Cons n ns)
    have "remove_lists_of t k (length ps) (ps @ (n # ns) @ qs) = remove_lists_of t k (length (ps @ [n])) ((ps @ [n]) @ ns @ qs)"
      using Cons.prems by (subst remove_lists_of.simps) (auto simp: nth_append)
    also have "\<dots> = remove_lists_of t k (length ((ps @ [n]) @ ns)) ((ps @ [n]) @ ns @ qs)"
      using Cons by (intro Cons.IH) simp
    finally show ?case by simp
  qed simp
  have "remove_lists_of t k 0 (ls @ l # ms @ [m]) = remove_lists_of t k (length ls) (ls @ l # ms @ [m])"
    using pass[of ls "[]" "l # ms @ [m]"] assms(1) by simp
  also have "\<dots> = remove_lists_of t k (length (ls @ [m])) ((ls @ [m]) @ ms @ [])"
    using assms(2,3) by (subst remove_lists_of.simps) (simp add: nth_append butlast_append)
  also have "\<dots> = remove_lists_of t k (length ((ls @ [m]) @ ms)) ((ls @ [m]) @ ms @ [])"
    using assms(1) by (intro pass) simp
  also have "\<dots> = ls @ m # ms" by (subst remove_lists_of.simps) simp
  finally show ?thesis .
qed

theorem moved_list_not_examined_witness:
  "remove_lists_of 5 9 0 [\<lparr>li_table = 5, li_row = 9, li_col = 1, li_changes = 0\<rparr>, \<lparr>li_table = 5, li_row = 9, li_col = 2, li_changes = 1\<rparr>] =
     [\<lparr>li_table = 5, li_row = 9, li_col = 2, li_changes = 1\<rparr>]"
  using moved_list_not_examined[of "[]" "[]"] by simp

end
