(* ===== verification/KvoAdapter.thy ===== *)
theory KvoAdapter
  imports TransactObserver
begin

text \<open>
  \<open>KVOAdapter\<close> (impl/transact_log_handler.cpp) with the data of \<open>BindingContext\<close> (binding_context.hpp): the
  changes that the observer recorded, as they are told to observers of single objects, which know assignments, insertions
  and removals at indexes, and nothing else. A pointer to an observer is its position, and the builder of
  the list at a position of \<open>m_lists\<close> has the same position among the \<open>builders\<close>. What a table's columns are is a parameter.
\<close>

section \<open>Data\<close>

datatype info_kind = No_change | Set_kind | Insert_kind | Remove_kind | Set_all_kind

record column_info =
  ci_kind :: info_kind
  ci_indices :: index_set

definition new_column_info :: column_info where
  "new_column_info = \<lparr>ci_kind = No_change, ci_indices = []\<rparr>"

text \<open>The opaque \<open>info\<close> has the type \<open>'i\<close>.\<close>

record 'i observer_state =
  os_table :: int
  os_obj :: int
  os_info :: 'i
  os_changes :: "(int \<times> column_info) list"

record kvo_list_info =
  kl_observer :: nat
  kl_col :: int

record 'i kvo_adapter =
  kvo_context :: bool
  kvo_observers :: "'i observer_state list"
  kvo_invalidated :: "'i list"
  kvo_lists :: "kvo_list_info list"
  kvo_version :: nat

text \<open>\<open>VersionID{}\<close>; versions are compared by their number.\<close>

definition no_version :: nat where
  "no_version = 2 ^ 64 - 1"

section \<open>The constructor\<close>

fun lists_of_observers :: "(int \<Rightarrow> int list) \<Rightarrow> (int \<Rightarrow> int \<Rightarrow> bool) \<Rightarrow> nat \<Rightarrow> 'i observer_state list \<Rightarrow> kvo_list_info list" where
  "lists_of_observers column_keys is_list i [] = []"
| "lists_of_observers column_keys is_list i (ob # obs) =
     map (\<lambda>key. \<lparr>kl_observer = i, kl_col = key\<rparr>) (filter (is_list (os_table ob)) (column_keys (os_table ob))) @
     lists_of_observers column_keys is_list (i + 1) obs"

definition tables_needed :: "'i observer_state list \<Rightarrow> int list" where
  "tables_needed obs = remdups_adj (sort (map os_table obs))"

text \<open>The adapter, the \<open>TransactionChangeInfo\<close> it extends, and the builders of its lists.\<close>

definition new_kvo_adapter ::
  "(int \<Rightarrow> int list) \<Rightarrow> (int \<Rightarrow> int \<Rightarrow> bool) \<Rightarrow> bool \<Rightarrow> 'i observer_state list \<Rightarrow> 'i kvo_adapter \<times> change_info \<times> change_builder list" where
  "new_kvo_adapter column_keys is_list has_context obs =
     (let ls = (if obs = [] then [] else lists_of_observers column_keys is_list 0 obs) in
      (\<lparr>kvo_context = has_context, kvo_observers = obs, kvo_invalidated = [], kvo_lists = ls, kvo_version = no_version\<rparr>,
       \<lparr>info_lists = map (\<lambda>i. let l = ls ! i; ob = obs ! kl_observer l in
            \<lparr>li_table = os_table ob, li_row = os_obj ob, li_col = kl_col l, li_changes = i\<rparr>) [0..<length ls],
        info_tables = map (\<lambda>t. (t, no_object_changes)) (if obs = [] then [] else tables_needed obs),
        track_all = False, schema_changed = False\<rparr>,
       map (\<lambda>l. empty_builder) ls))"

section \<open>Lists\<close>

text \<open>The lambda \<open>in_range\<close>; an iterator is the list of the ranges from it on.\<close>

definition in_next_range :: "index_range list \<Rightarrow> nat \<Rightarrow> index_range list \<times> bool" where
  "in_next_range it i =
     (let it = (if it \<noteq> [] \<and> i \<ge> snd (hd it) then tl it else it)
      in (it, it \<noteq> [] \<and> i \<ge> fst (hd it) \<and> i < snd (hd it)))"

text \<open>The loop over the rows. \<open>i + shift\<close> is unsigned.\<close>

fun add_shifted_rows :: "nat list \<Rightarrow> index_range list \<Rightarrow> index_range list \<Rightarrow> int \<Rightarrow> index_set \<Rightarrow> index_set option" where
  "add_shifted_rows [] del_it ins_it sh indices = Some indices"
| "add_shifted_rows (i # is) del_it ins_it sh indices =
     (let (del_it, deleted) = in_next_range del_it i;
          (ins_it, inserted) = (if deleted then (ins_it, False) else in_next_range ins_it (nat ((int i + sh) mod 2 ^ 64)));
          sh = (if deleted then sh - 1 else if inserted then sh + 1 else sh)
      in do {
        indices \<leftarrow> if sh \<noteq> 0 then add indices i else Some indices;
        add_shifted_rows is del_it ins_it sh indices
      })"

definition moves_as_sets :: "change_builder \<Rightarrow> index_set option" where
  "moves_as_sets b =
     do {
       indices \<leftarrow> add_set (modifications b) (deletions b);
       let del_it = ranges (deletions b);
       let ins_it = ranges (insertions b);
       realm_assert (del_it \<noteq> [] \<and> ins_it \<noteq> []);
       let start = min (fst (hd ins_it)) (fst (hd del_it));
       let stop = max (snd (last ins_it)) (snd (last del_it));
       add_shifted_rows [start..<stop] del_it ins_it 0 indices
     }"

text \<open>
  What \<open>before\<close> does for a list whose column was marked: the builder, and what is told of the column.
\<close>

definition kvo_list_change :: "change_builder \<Rightarrow> column_info \<Rightarrow> (change_builder \<times> column_info) option" where
  "kvo_list_change b changes =
     do {
       mods \<leftarrow> remove_set (modifications b) (insertions b);
       let b = b\<lparr>modifications := mods\<rparr>;
       if moves b \<noteq> [] \<and> index_count (insertions b) 0 npos = length (moves b) \<and> index_count (deletions b) 0 npos = length (moves b)
       then do { indices \<leftarrow> moves_as_sets b; Some (b, changes\<lparr>ci_kind := Set_kind, ci_indices := indices\<rparr>) }
       else if of_bool (empty (insertions b)) + of_bool (empty (modifications b)) + of_bool (empty (deletions b)) < (2 :: nat)
       then Some (b, changes\<lparr>ci_kind := Set_all_kind\<rparr>)
       else if \<not> empty (insertions b) then Some (b, changes\<lparr>ci_kind := Insert_kind, ci_indices := insertions b\<rparr>)
       else if \<not> empty (modifications b) then Some (b, changes\<lparr>ci_kind := Set_kind, ci_indices := modifications b\<rparr>)
       else do {
         realm_assert (\<not> empty (deletions b));
         Some (b, changes\<lparr>ci_kind := Remove_kind, ci_indices := deletions b\<rparr>)
       }
     }"

section \<open>Before and after an advance\<close>

text \<open>\<open>changes[col].kind = Set\<close> for each of the columns.\<close>

fun mark_columns :: "int list \<Rightarrow> (int \<times> column_info) list \<Rightarrow> (int \<times> column_info) list" where
  "mark_columns [] changes = changes"
| "mark_columns (col # cols) changes =
     mark_columns cols (AList.update col
       ((case map_of changes col of None \<Rightarrow> new_column_info | Some c \<Rightarrow> c)\<lparr>ci_kind := Set_kind\<rparr>) changes)"

text \<open>The loop over the observers: each with its changes, and what is added to \<open>m_invalidated\<close>.\<close>

fun observe_objects :: "(int \<times> object_changes) list \<Rightarrow> 'i observer_state list \<Rightarrow> 'i observer_state list \<times> 'i list" where
  "observe_objects ts [] = ([], [])"
| "observe_objects ts (ob # obs) =
     (let (obs', invalidated) = observe_objects ts obs in
      case map_of ts (os_table ob) of
        None \<Rightarrow> (ob # obs', invalidated)
      | Some table \<Rightarrow>
          if deletions_contains table (os_obj ob) then (ob # obs', os_info ob # invalidated)
          else (case get_columns_modified table (os_obj ob) of
                  None \<Rightarrow> ob # obs'
                | Some cols \<Rightarrow> ob\<lparr>os_changes := mark_columns cols (os_changes ob)\<rparr> # obs', invalidated))"

text \<open>The loop over the lists, from the one at a position on.\<close>

definition set_changes :: "nat \<Rightarrow> (int \<times> column_info) list \<Rightarrow> 'i observer_state list \<Rightarrow> 'i observer_state list" where
  "set_changes i changes obs = obs[i := (obs ! i)\<lparr>os_changes := changes\<rparr>]"

fun observe_lists :: "kvo_list_info list \<Rightarrow> nat \<Rightarrow> change_builder list \<Rightarrow> 'i observer_state list \<Rightarrow>
    (change_builder list \<times> 'i observer_state list) option" where
  "observe_lists [] p bs obs = Some (bs, obs)"
| "observe_lists (l # ls) p bs obs =
     do {
       realm_assert (p < length bs \<and> kl_observer l < length obs);
       let changes = os_changes (obs ! kl_observer l);
       if cs_empty (bs ! p) then observe_lists ls (p + 1) bs (set_changes (kl_observer l) (AList.delete (kl_col l) changes) obs)
       else if changes = [] then observe_lists ls (p + 1) bs obs
       else case map_of changes (kl_col l) of
         None \<Rightarrow> None
       | Some c \<Rightarrow>
           do {
             (b, c) \<leftarrow> kvo_list_change (bs ! p) c;
             observe_lists ls (p + 1) (bs[p := b]) (set_changes (kl_observer l) (AList.update (kl_col l) c changes) obs)
           }
     }"

text \<open>
  \<open>before\<close>: the result says whether \<open>will_change\<close> is called, with the observers and the
  invalidated of the adapter.
\<close>

definition kvo_before :: "nat \<Rightarrow> observer \<Rightarrow> 'i kvo_adapter \<Rightarrow> (observer \<times> 'i kvo_adapter \<times> bool) option" where
  "kvo_before current_version ob ad =
     (if \<not> kvo_context ad then Some (ob, ad, False)
      else let ad = ad\<lparr>kvo_version := current_version\<rparr> in
        if info_tables (ob_info ob) = [] then Some (ob, ad, False)
        else do {
          let (obs, invalidated) = observe_objects (info_tables (ob_info ob)) (kvo_observers ad);
          (bs, obs) \<leftarrow> observe_lists (kvo_lists ad) 0 (builders ob) obs;
          Some (ob\<lparr>builders := bs\<rparr>, ad\<lparr>kvo_observers := obs, kvo_invalidated := kvo_invalidated ad @ invalidated\<rparr>, True)
        })"

text \<open>\<open>after\<close>: the arguments of \<open>did_change\<close>, if it is called.\<close>

definition kvo_after :: "nat \<Rightarrow> 'i kvo_adapter \<Rightarrow> ('i observer_state list \<times> 'i list \<times> bool) option" where
  "kvo_after current_version ad =
     (if \<not> kvo_context ad then None
      else Some (kvo_observers ad, kvo_invalidated ad, kvo_version ad \<noteq> no_version \<and> kvo_version ad \<noteq> current_version))"

text \<open>
  A log read by a \<open>KVOTransactLogObserver\<close>, up to the end of its \<open>parse_complete\<close>; the packages of notifications, which
  do not depend on what the adapter recorded, are left out.
\<close>

definition kvo_advance ::
  "(int \<Rightarrow> int list) \<Rightarrow> (int \<Rightarrow> int \<Rightarrow> bool) \<Rightarrow> bool \<Rightarrow> nat \<Rightarrow> 's next_block \<Rightarrow> 's \<Rightarrow> 'i observer_state list \<Rightarrow>
    (observer \<times> 'i kvo_adapter \<times> bool) action" where
  "kvo_advance column_keys is_list has_context current_version nb log obs =
     (let (ad, info, bs) = new_kvo_adapter column_keys is_list has_context obs in
      andthen (advance_with_observer nb log (new_observer info bs)) (\<lambda>ob. lift (kvo_before current_version ob ad)))"

end
