(* ===== verification/KvoLists.thy ===== *)
theory KvoLists
  imports KvoAdapter ObservedObjects
begin

text \<open>
  What \<open>KVOAdapter\<close> tells of a list: the kind and the indexes describe the change of the list, if no two
  moved elements have come to lie next to each other.
\<close>

definition kvo_says :: "info_kind \<Rightarrow> nat set \<Rightarrow> 'a list \<Rightarrow> 'a list \<Rightarrow> nat set \<Rightarrow> bool" where
  "kvo_says kind S xs ys M = (case kind of
     No_change \<Rightarrow> False
   | Set_kind \<Rightarrow> length xs = length ys \<and> (\<forall>i<length xs. i \<notin> S \<longrightarrow> xs ! i = ys ! i \<and> i \<notin> M)
   | Insert_kind \<Rightarrow> applies {} S xs ys \<and> M \<subseteq> S
   | Remove_kind \<Rightarrow> applies S {} xs ys \<and> M = {}
   | Set_all_kind \<Rightarrow> True)"

definition isolated :: "nat set \<Rightarrow> bool" where
  "isolated I \<longleftrightarrow> (\<forall>i\<in>I. Suc i \<notin> I)"

section \<open>Stepping through ranges\<close>

lemma in_next_range_props:
  assumes ok: "ranges_ok it" and near: "it \<noteq> [] \<longrightarrow> p \<le> Suc (snd (hd it))" and n: "in_next_range it p = (it', b)"
  shows "ranges_ok it' \<and> (b \<longleftrightarrow> p \<in> iset it) \<and> iset it' \<inter> {p..} = iset it \<inter> {p..} \<and> (it' \<noteq> [] \<longrightarrow> p < snd (hd it'))"
proof (cases it)
  case Nil
  then show ?thesis using n by (auto simp: in_next_range_def)
next
  case (Cons r rs)
  have r: "fst r < snd r" "\<forall>s\<in>set rs. snd r < fst s" "ranges_ok rs" using ok Cons by (auto simp: ranges_ok_Cons)
  have rs: "x \<in> iset rs \<Longrightarrow> snd r < x" for x using r(2) by (fastforce simp: mem_iset)
  show ?thesis
  proof (cases "snd r \<le> p")
    case False
    then have "it' = it" "b = (fst r \<le> p \<and> p < snd r)" using n Cons by (auto simp: in_next_range_def)
    then show ?thesis using Cons False ok rs[of p] by auto
  next
    case True
    then have it': "it' = rs" "b \<longleftrightarrow> rs \<noteq> [] \<and> fst (hd rs) \<le> p \<and> p < snd (hd rs)"
      using n Cons by (auto simp: in_next_range_def Let_def)
    have "\<not> x < snd r \<or> x < p" for x using True by auto
    then have i: "iset it' \<inter> {p..} = iset it \<inter> {p..}" using True it' Cons by auto
    show ?thesis
    proof (cases rs)
      case Nil
      then show ?thesis using it' Cons True by auto
    next
      case (Cons s ss)
      have "fst s < snd s" "snd r < fst s" "\<forall>t\<in>set ss. snd s < fst t"
        using r Cons by (auto simp: ranges_ok_Cons)
      moreover have "p \<le> Suc (snd r)" using near \<open>it = r # rs\<close> by simp
      moreover have "p \<notin> iset ss" using calculation by (fastforce simp: mem_iset)
      ultimately show ?thesis using it' i r(3) Cons True \<open>it = r # rs\<close> by auto
    qed
  qed
qed

lemma same_from:
  fixes i j :: nat
  assumes "A \<inter> {i..} = B \<inter> {i..}" "i \<le> j"
  shows "A \<inter> {j..} = B \<inter> {j..}"
proof -
  have "{j..} = {i..} \<inter> {j..}" using assms(2) by auto
  then show ?thesis using assms(1) by (metis inf_assoc)
qed

lemma from_Suc:
  "\<forall>k. Suc i \<le> k \<and> k < n \<and> P k \<longrightarrow> Q k \<Longrightarrow> P i \<longrightarrow> Q i \<Longrightarrow> \<forall>k. i \<le> k \<and> k < n \<and> P k \<longrightarrow> Q k"
  by (metis le_antisym not_less_eq_eq)

definition stepping :: "nat set \<Rightarrow> nat set \<Rightarrow> nat \<Rightarrow> nat \<Rightarrow> int \<Rightarrow> index_range list \<Rightarrow> index_range list \<Rightarrow> bool" where
  "stepping D I i p s ds is \<longleftrightarrow> int p = int i + s \<and> unshift_of D i = unshift_of I p \<and>
     ranges_ok ds \<and> ranges_ok is \<and> iset ds \<inter> {i..} = D \<inter> {i..} \<and> iset is \<inter> {p..} = I \<inter> {p..} \<and>
     (ds \<noteq> [] \<longrightarrow> i \<le> Suc (snd (hd ds))) \<and> (is \<noteq> [] \<longrightarrow> p \<le> Suc (snd (hd is)))"

lemma add_shifted_rows_props:
  assumes D: "D \<subseteq> {..<n}" and I: "I \<subseteq> {..<n}" "card D = card I" "isolated I" and n: "n \<le> npos" "stop \<le> n"
  shows "stepping D I i p s ds is \<Longrightarrow> wf idx \<Longrightarrow> returns (add_shifted_rows [i..<stop] ds is s idx) (\<lambda>r. wf r \<and>
    iset_of idx \<subseteq> iset_of r \<and> (\<forall>k. i \<le> k \<and> k < stop \<and> k \<notin> D \<and> back_to I D k \<noteq> k \<longrightarrow> k \<in> iset_of r))"
proof (induction "stop - i" arbitrary: i p s ds "is" idx)
  case 0
  then show ?case by auto
next
  case (Suc m)
  then have i: "i < stop" "[i..<stop] = i # [Suc i..<stop]" by (auto simp: upt_rec)
  note st = Suc.prems(1)[unfolded stepping_def]
  obtain ds' del where ds': "in_next_range ds i = (ds', del)" by (cases "in_next_range ds i")
  have d: "ranges_ok ds'" "del \<longleftrightarrow> i \<in> D" "iset ds' \<inter> {i..} = D \<inter> {i..}" "ds' \<noteq> [] \<longrightarrow> i < snd (hd ds')"
    using in_next_range_props[OF _ _ ds'] st by auto
  then have d': "iset ds' \<inter> {Suc i..} = D \<inter> {Suc i..}" by (elim same_from) simp
  have p: "p < n" if "i \<notin> D"
  proof (rule ccontr)
    assume "\<not> p < n"
    then have "unshift_of I n \<le> unshift_of I p" by (simp add: unshift_of_mono)
    moreover have "unshift_of D i < unshift_of D n" using i(1) n(2) that by (intro unshift_of_strict) auto
    moreover have "unshift_of S n = n - card S" if "S \<subseteq> {..<n}" for S
      using that by (simp add: unshift_of_eq_diff Int_absorb2)
    ultimately show False using st D I(1,2) by simp
  qed
  show ?case
  proof (cases "i \<in> D")
    case True
    have "stepping D I (Suc i) p (s - 1) ds' is"
      using st d d' True unfolding stepping_def by (auto simp: unshift_of_Suc)
    moreover have "\<exists>idx'. (if s - 1 \<noteq> 0 then add idx i else Some idx) = Some idx' \<and> wf idx' \<and> iset_of idx \<subseteq> iset_of idx'"
      using add_props[OF Suc.prems(2), of i] Suc.prems(2) by (cases "s = 1") (auto simp: returns_iff)
    then obtain idx' where idx': "(if s - 1 \<noteq> 0 then add idx i else Some idx) = Some idx'" "wf idx'" "iset_of idx \<subseteq> iset_of idx'"
      by blast
    ultimately have rest: "returns (add_shifted_rows [Suc i..<stop] ds' is (s - 1) idx') (\<lambda>r. wf r \<and>
        iset_of idx' \<subseteq> iset_of r \<and> (\<forall>k. Suc i \<le> k \<and> k < stop \<and> k \<notin> D \<and> back_to I D k \<noteq> k \<longrightarrow> k \<in> iset_of r))"
      using Suc.hyps(2) by (intro Suc.hyps(1)) auto
    have eq: "add_shifted_rows [i..<stop] ds is s idx = add_shifted_rows [Suc i..<stop] ds' is (s - 1) idx'"
      using i(2) ds' d(2) True idx'(1) by simp
    show ?thesis
      unfolding eq
    proof (rule returns_mono[OF rest], elim conjE, intro conjI)
      fix r
      assume r: "iset_of idx' \<subseteq> iset_of r"
        "\<forall>k. Suc i \<le> k \<and> k < stop \<and> k \<notin> D \<and> back_to I D k \<noteq> k \<longrightarrow> k \<in> iset_of r"
      show "iset_of idx \<subseteq> iset_of r" using idx'(3) r(1) by (rule subset_trans)
      show "\<forall>k. i \<le> k \<and> k < stop \<and> k \<notin> D \<and> back_to I D k \<noteq> k \<longrightarrow> k \<in> iset_of r"
        by (rule from_Suc[where P = "\<lambda>k. k \<notin> D \<and> back_to I D k \<noteq> k" and Q = "\<lambda>k. k \<in> iset_of r", OF r(2)]) (simp add: True)
    qed
  next
    case False
    have pn: "nat ((int i + s) mod 2 ^ 64) = p" 
    proof -
      have "int i + s = int p" "int p < 2 ^ 64" using st p[OF False] n(1) by (simp_all add: npos_def)
      then show ?thesis by (simp add: mod_pos_pos_trivial)
    qed
    obtain is' ins where is': "in_next_range is p = (is', ins)" by (cases "in_next_range is p")
    have e: "ranges_ok is'" "ins \<longleftrightarrow> p \<in> I" "iset is' \<inter> {p..} = I \<inter> {p..}" "is' \<noteq> [] \<longrightarrow> p < snd (hd is')"
      using in_next_range_props[OF _ _ is'] st by auto
    let ?s = "if ins then s + 1 else s" and ?q = "if ins then p + 2 else p + 1"
    have q: "iset is' \<inter> {?q..} = I \<inter> {?q..}" using e(3) by (elim same_from) simp
    have "stepping D I (Suc i) ?q ?s ds' is'"
      using st d d' e q False I(3) unfolding stepping_def isolated_def by (auto simp: unshift_of_Suc)
    moreover have newpos: "int (back_to I D i) = int i + ?s"
    proof -
      have "shift_of I (unshift_of D i) = (if ins then p + 1 else p)"
        using st e(2) I(3) by (intro shift_of_eqI) (auto simp: isolated_def unshift_of_Suc)
      then show ?thesis using st by (simp add: back_to_def)
    qed
    moreover have "\<exists>idx'. (if ?s \<noteq> 0 then add idx i else Some idx) = Some idx' \<and> wf idx' \<and> iset_of idx \<subseteq> iset_of idx' \<and>
        (?s \<noteq> 0 \<longrightarrow> i \<in> iset_of idx')"
      using add_props[OF Suc.prems(2), of i] Suc.prems(2) by (cases "?s = 0") (auto simp: returns_iff)
    then obtain idx' where idx': "(if ?s \<noteq> 0 then add idx i else Some idx) = Some idx'" "wf idx'" "iset_of idx \<subseteq> iset_of idx'"
        "?s \<noteq> 0 \<longrightarrow> i \<in> iset_of idx'" by blast
    ultimately have rest: "returns (add_shifted_rows [Suc i..<stop] ds' is' ?s idx') (\<lambda>r. wf r \<and>
        iset_of idx' \<subseteq> iset_of r \<and> (\<forall>k. Suc i \<le> k \<and> k < stop \<and> k \<notin> D \<and> back_to I D k \<noteq> k \<longrightarrow> k \<in> iset_of r))"
      using Suc.hyps(2) by (intro Suc.hyps(1)) auto
    have eq: "add_shifted_rows [i..<stop] ds is s idx = add_shifted_rows [Suc i..<stop] ds' is' ?s idx'"
      using i(2) ds' d(2) False idx'(1) pn is' by simp
    have b: "back_to I D i \<noteq> i \<longrightarrow> i \<in> iset_of idx'" using newpos idx'(4) by auto
    show ?thesis
      unfolding eq
    proof (rule returns_mono[OF rest], elim conjE, intro conjI)
      fix r
      assume r: "iset_of idx' \<subseteq> iset_of r"
        "\<forall>k. Suc i \<le> k \<and> k < stop \<and> k \<notin> D \<and> back_to I D k \<noteq> k \<longrightarrow> k \<in> iset_of r"
      show "iset_of idx \<subseteq> iset_of r" using idx'(3) r(1) by (rule subset_trans)
      show "\<forall>k. i \<le> k \<and> k < stop \<and> k \<notin> D \<and> back_to I D k \<noteq> k \<longrightarrow> k \<in> iset_of r"
        by (rule from_Suc[where P = "\<lambda>k. k \<notin> D \<and> back_to I D k \<noteq> k" and Q = "\<lambda>k. k \<in> iset_of r", OF r(2)]) (use b r(1) in blast)
    qed
  qed
qed

section \<open>Moves\<close>

lemma ranges_bounds:
  assumes "ranges_ok rs" "rs \<noteq> []"
  shows "fst (hd rs) \<in> iset rs" "snd (last rs) - 1 \<in> iset rs" "x \<in> iset rs \<Longrightarrow> fst (hd rs) \<le> x \<and> x < snd (last rs)"
proof -
  obtain r rs' where r: "rs = r # rs'" using assms(2) by (cases rs) auto
  obtain ss s where s: "rs = ss @ [s]" using assms(2) by (cases rs rule: rev_cases) auto
  have h: "fst (hd rs) \<le> fst q" if "q \<in> set rs" for q
    using assms(1) that r by (fastforce simp: ranges_ok_Cons)
  have l: "snd q \<le> snd (last rs)" if "q \<in> set rs" for q
    using assms(1) that s by (fastforce simp: ranges_ok_append)
  have "fst r < snd r" "fst s < snd s" using ranges_ok_nonempty[OF assms(1)] r s by (metis list.set_intros(1), metis in_set_conv_decomp)
  moreover from this have "fst r \<in> iset (r # rs')" "snd s - 1 \<in> iset (ss @ [s])" by auto
  ultimately show "fst (hd rs) \<in> iset rs" "snd (last rs) - 1 \<in> iset rs" using r s by (metis list.sel(1), metis last_snoc)
  show "x \<in> iset rs \<Longrightarrow> fst (hd rs) \<le> x \<and> x < snd (last rs)"
    using h l by (auto simp: mem_iset intro: le_trans order.strict_trans2)
qed

text \<open>Outside the range from the first to the last changed index every element has kept its place.\<close>

lemma back_to_outside:
  assumes "finite D" "finite I" "card D = card I" "i \<notin> D" "i \<notin> I"
    and "(\<forall>x\<in>D \<union> I. i < x) \<or> (\<forall>x\<in>D \<union> I. x < i)"
  shows "back_to I D i = i"
proof -
  have "card (D \<inter> {..<i}) = card (I \<inter> {..<i})"
  proof (cases "\<forall>x\<in>D \<union> I. i < x")
    case True
    then have "D \<inter> {..<i} = {}" "I \<inter> {..<i} = {}" by (meson Un_iff disjoint_iff lessThan_iff less_asym)+
    then show ?thesis by simp
  next
    case False
    then have "\<forall>x\<in>D \<union> I. x < i" using assms(6) by blast
    then have "D \<inter> {..<i} = D" "I \<inter> {..<i} = I" by auto
    then show ?thesis using assms(3) by simp
  qed
  then have "unshift_of I i = unshift_of D i" by (simp add: unshift_of_eq_diff)
  then show ?thesis using assms(5) by (simp add: back_to_def shift_of_eqI)
qed

lemma moves_as_sets_props:
  assumes ok: "wf (deletions b)" "wf (insertions b)" "wf (modifications b)"
    and a: "applies (iset_of (deletions b)) (iset_of (insertions b)) xs ys"
    and c: "card (iset_of (deletions b)) = card (iset_of (insertions b))" "iset_of (insertions b) \<noteq> {}" "isolated (iset_of (insertions b))"
    and n: "length ys \<le> npos"
  shows "returns (moves_as_sets b) (\<lambda>r. wf r \<and>
    (\<forall>i<length xs. i \<notin> iset_of r \<longrightarrow> i \<notin> iset_of (modifications b) \<and> i \<notin> iset_of (insertions b) \<and> xs ! i = ys ! i))"
proof -
  let ?D = "iset_of (deletions b)" and ?I = "iset_of (insertions b)" and ?M = "iset_of (modifications b)"
  note d = appliesD[OF a]
  have len: "length xs = length ys" using applies_lengths[OF a] c(1) by simp
  have D: "?D \<noteq> {}" using c(1,2) d(1,2) by (metis card_0_eq)
  let ?ds = "ranges (deletions b)" and ?is = "ranges (insertions b)"
  have r: "ranges_ok ?ds" "ranges_ok ?is" "?D = iset ?ds" "?I = iset ?is" using ok by (simp_all add: wf_def iset_of_def)
  then have ne: "?ds \<noteq> []" "?is \<noteq> []" using D c(2) by auto
  note bd = ranges_bounds[OF r(1) ne(1)] and bi = ranges_bounds[OF r(2) ne(2)]
  let ?start = "min (fst (hd ?is)) (fst (hd ?ds))" and ?stop = "max (snd (last ?is)) (snd (last ?ds))"
  have stop: "?stop \<le> length ys"
    using bd(2) bi(2) d(3,4) len r(3,4) by (auto simp: subset_eq)
  have below: "x \<notin> ?D \<and> x \<notin> ?I" if "x < ?start \<or> ?stop \<le> x" for x
    using that bd(3)[of x] bi(3)[of x] r(3,4) by auto
  have inside: "?start \<le> x \<and> x < ?stop" if "x \<in> ?D \<or> x \<in> ?I" for x
    using that bd(3)[of x] bi(3)[of x] r(3,4) by auto
  have un: "unshift_of S ?start = ?start" if "S \<subseteq> ?D \<union> ?I" for S
  proof -
    have "S \<inter> {..<?start} = {}" using that inside by fastforce
    then show ?thesis by (simp add: unshift_of_eq_diff)
  qed
  have st: "stepping ?D ?I ?start ?start 0 ?ds ?is"
    unfolding stepping_def using un[of ?D] un[of ?I] r ne bd(3)[OF bd(1)] bi(3)[OF bi(1)]
      ranges_ok_nonempty[of ?ds "hd ?ds"] ranges_ok_nonempty[of ?is "hd ?is"] by auto
  obtain idx where idx: "add_set (modifications b) (deletions b) = Some idx" "wf idx" "iset_of idx = ?M \<union> ?D"
    using add_set_props[OF ok(3,1)] by (auto simp: returns_iff)
  have "returns (add_shifted_rows [?start..<?stop] ?ds ?is 0 idx) (\<lambda>r. wf r \<and> iset_of idx \<subseteq> iset_of r \<and>
      (\<forall>k. ?start \<le> k \<and> k < ?stop \<and> k \<notin> ?D \<and> back_to ?I ?D k \<noteq> k \<longrightarrow> k \<in> iset_of r))"
    by (rule add_shifted_rows_props[OF _ d(4) c(1,3) n stop st idx(2)]) (use d(3) len in simp)
  moreover have "i \<notin> ?M \<and> i \<notin> ?I \<and> xs ! i = ys ! i"
    if r: "iset_of idx \<subseteq> iset_of r" "\<forall>k. ?start \<le> k \<and> k < ?stop \<and> k \<notin> ?D \<and> back_to ?I ?D k \<noteq> k \<longrightarrow> k \<in> iset_of r"
      and i: "i < length xs" "i \<notin> iset_of r" for r i
  proof -
    have iD: "i \<notin> ?D" "i \<notin> ?M" using r(1) i(2) idx(3) by auto
    have new: "back_to ?I ?D i = i"
    proof (cases "?start \<le> i \<and> i < ?stop")
      case True
      then show ?thesis using r(2) iD(1) i(2) by blast
    next
      case False
      then have "(\<forall>x\<in>?D \<union> ?I. i < x) \<or> (\<forall>x\<in>?D \<union> ?I. x < i)" using inside by fastforce
      moreover have "i \<notin> ?I" using False inside by blast
      ultimately show ?thesis using back_to_outside[OF d(1,2) c(1) iD(1)] by blast
    qed
    show ?thesis
      using applies_nth[OF applies_sym[OF a] i(1) iD(1)] new iD by simp
  qed
  ultimately show ?thesis
    using idx(1) ne unfolding moves_as_sets_def Let_def by (auto elim!: returns_mono)
qed

section \<open>A changed list\<close>

text \<open>In any case it returns.\<close>

lemma add_shifted_rows_returns: "wf idx \<Longrightarrow> returns (add_shifted_rows is ds it sh idx) wf"
proof (induction "is" arbitrary: ds it sh idx)
  case (Cons i js)
  have "returns (if s \<noteq> 0 then add idx i else Some idx) wf" for s :: int
    using Cons.prems by (auto intro: returns_mono[OF add_props[OF Cons.prems, of i]])
  then have "returns (if s \<noteq> 0 then add idx i else Some idx) (\<lambda>x. returns (add_shifted_rows js d t s x) wf)" for s d t
    by (rule returns_mono) (rule Cons.IH)
  then have step: "returns (Option.bind (if s \<noteq> 0 then add idx i else Some idx) (add_shifted_rows js d t s)) wf" for s d t
    by simp
  obtain ds' d where 1: "in_next_range ds i = (ds', d)" by (cases "in_next_range ds i")
  obtain it' n where 2: "(if d then (it, False) else in_next_range it (nat ((int i + sh) mod 2 ^ 64))) = (it', n)"
    by (metis surj_pair)
  show ?case unfolding add_shifted_rows.simps Let_def 1 case_prod_conv 2 by (rule step)
qed simp

lemma moves_as_sets_returns:
  assumes "wf (deletions b)" "wf (insertions b)" "wf (modifications b)" "iset_of (deletions b) \<noteq> {}" "iset_of (insertions b) \<noteq> {}"
  shows "returns (moves_as_sets b) (\<lambda>r. True)"
proof -
  have "ranges (deletions b) \<noteq> []" "ranges (insertions b) \<noteq> []" using assms(4,5) by (auto simp: iset_of_def)
  moreover obtain idx where "add_set (modifications b) (deletions b) = Some idx" "wf idx"
    using add_set_props[OF assms(3,1)] by (auto simp: returns_iff)
  ultimately show ?thesis
    by (auto simp: moves_as_sets_def Let_def intro: returns_mono[OF add_shifted_rows_returns])
qed

lemma kvo_list_change_props:
  assumes "describes b xs ys" "length ys \<le> npos" "length xs \<le> npos" "\<not> cs_empty b" "modifications_new b = []"
  shows "returns (kvo_list_change b ci) (\<lambda>(b', ci'). insertions b' = insertions b \<and> moves b' = moves b \<and>
    ((moves b \<noteq> [] \<longrightarrow> isolated (iset_of (insertions b))) \<longrightarrow>
       kvo_says (ci_kind ci') (iset_of (ci_indices ci')) xs ys (tracked b None)))"
proof -
  let ?D = "iset_of (deletions b)" and ?I = "iset_of (insertions b)"
  have ok: "wf (deletions b)" "wf (insertions b)" "wf (modifications b)" and a: "applies ?D ?I xs ys"
    and m: "moves_ok ?D ?I (moves b) xs ys" and t: "tracked b None = iset_of (modifications b)"
    using assms(1) by (auto simp: describes_def sets_ok_def tracked_def)
  note d = appliesD[OF a]
  obtain mods where mods: "remove_set (modifications b) (insertions b) = Some mods" "wf mods"
      "iset_of mods = iset_of (modifications b) - ?I"
    using remove_set_props[OF ok(3,2)] by (auto simp: returns_iff)
  let ?b = "b\<lparr>modifications := mods\<rparr>"
  have count: "index_count s 0 npos = card (iset_of s)" if "wf s" "iset_of s \<subseteq> {..<n}" "n \<le> npos" for s n
  proof -
    have "iset_of s \<inter> {..<npos} = iset_of s" using that by auto
    then show ?thesis using index_count_from_0[OF that(1), of npos] by simp
  qed
  have e: "empty (deletions b) \<longleftrightarrow> ?D = {}" "empty (insertions b) \<longleftrightarrow> ?I = {}" "empty mods \<longleftrightarrow> iset_of mods = {}"
    using ok mods(2) empty_iff by blast+
  show ?thesis
  proof (cases "moves b \<noteq> [] \<and> index_count (insertions b) 0 npos = length (moves b) \<and> index_count (deletions b) 0 npos = length (moves b)")
    case True
    then have "card ?I = length (moves b)" "card ?D = length (moves b)" "moves b \<noteq> []"
      using count[OF ok(1) d(3) assms(3)] count[OF ok(2) d(4) assms(2)] by simp_all
    then have "card ?D = card ?I" "?I \<noteq> {}" by auto
    moreover from this have "?D \<noteq> {}" by auto
    ultimately have "returns (moves_as_sets ?b) (\<lambda>r. isolated ?I \<longrightarrow>
        (\<forall>i<length xs. i \<notin> iset_of r \<longrightarrow> i \<notin> iset_of mods \<and> i \<notin> ?I \<and> xs ! i = ys ! i))"
      using moves_as_sets_props[of ?b xs ys] moves_as_sets_returns[of ?b] ok mods a assms(2)
      by (cases "isolated ?I") (auto elim!: returns_mono)
    moreover have "length xs = length ys" using applies_lengths[OF a] \<open>card ?D = card ?I\<close> by simp
    ultimately show ?thesis
      using True mods t unfolding kvo_list_change_def by (auto simp: kvo_says_def Let_def elim!: returns_mono)
  next
    case False
    consider "?I = {} \<and> ?D = {} \<and> iset_of mods \<noteq> {}" | "?I = {} \<and> iset_of mods = {} \<and> ?D \<noteq> {}"
      | "?D = {} \<and> iset_of mods = {} \<and> ?I \<noteq> {}" | "?I = {} \<and> ?D = {} \<and> iset_of mods = {}"
      | "of_bool (?I = {}) + of_bool (iset_of mods = {}) + of_bool (?D = {}) < (2 :: nat)"
      by (cases "?I = {}"; cases "?D = {}"; cases "iset_of mods = {}") auto
    then show ?thesis
    proof cases
      case 1
      then have "xs = ys" using a by (simp add: applies_def nths_all)
      then show ?thesis using 1 False mods t e unfolding kvo_list_change_def by (auto simp: kvo_says_def)
    next
      case 2
      then show ?thesis using False mods t e a unfolding kvo_list_change_def by (auto simp: kvo_says_def)
    next
      case 3
      then show ?thesis using False mods t e a unfolding kvo_list_change_def by (auto simp: kvo_says_def)
    next
      case 4
      then have "moves b = []" using m by (cases "moves b") (auto simp: moves_ok_def)
      moreover have "iset_of (modifications b) = {}" using 4 mods(3) by blast
      ultimately have "cs_empty b" using 4 e assms(5) empty_iff[OF ok(3)] by (simp add: cs_empty_def empty_def)
      then show ?thesis using assms(4) by simp
    next
      case 5
      then show ?thesis using False mods t e unfolding kvo_list_change_def by (auto simp: kvo_says_def)
    qed
  qed
qed

end
