(* ===== verification/KvoCorrect.thy ===== *)
theory KvoCorrect
  imports KvoLists
begin

text \<open>
  \<open>KVOAdapter\<close> after an observer has read a log: every list whose builder is not empty belongs to a
  column that was marked as modified, unless the object of the list is gone; so \<open>before\<close> finds the entries it asserts.
\<close>

section \<open>Objects that survive\<close>

lemma table_step_survives:
  assumes "table_step c T = Some T'" "survives T' k"
  shows "survives T k \<and> modified_columns T k \<subseteq> modified_columns T' k"
  using assms
  by (cases c) (auto simp: survives_def modified_columns_def split: if_splits option.splits prod.splits)

definition marked_list :: "(int \<Rightarrow> object_table) \<Rightarrow> list_change_info \<Rightarrow> bool" where
  "marked_list TT l \<longleftrightarrow> (survives (TT (li_table l)) (li_row l) \<longrightarrow> li_col l \<in> modified_columns (TT (li_table l)) (li_row l))"

lemma tables_step_change:
  assumes "tables_step c (cur, TT) = Some (cur', TT')" "TT' \<noteq> TT"
  obtains t T where "cur = Some t" "table_step c (TT t) = Some T" "TT' = TT(t := T)"
  using assms by (cases c; cases cur) (auto simp del: table_step.simps split: if_splits)

lemma marked_list_step:
  assumes "tables_step c (cur, TT) = Some (cur', TT')" "marked_list TT l"
  shows "marked_list TT' l"
proof (cases "TT' = TT")
  case False
  then obtain t T where "table_step c (TT t) = Some T" "TT' = TT(t := T)"
    using tables_step_change[OF assms(1)] by metis
  then show ?thesis using assms(2) table_step_survives[of c "TT t" T "li_row l"] by (auto simp: marked_list_def)
qed (use assms in simp)

lemma tables_step_selects: "tables_step c (cur, TT) = Some (cur', TT') \<Longrightarrow> fst (select c (cur, l)) = cur'"
  by (cases c) (auto split: if_splits option.splits)

text \<open>Removed objects do not survive.\<close>

lemma removed_run:
  "db_run (located x cs) (L, R) (L', R') \<Longrightarrow> tables_run cs (fst x, TT) = Some (cur', TT') \<Longrightarrow>
    \<forall>(t, k)\<in>R. \<not> survives (TT t) k \<Longrightarrow> \<forall>(t, k)\<in>R'. \<not> survives (TT' t) k"
proof (induction cs arbitrary: x L R TT)
  case Nil
  then show ?case by (auto elim: db_run_NilE)
next
  case (Cons c cs)
  obtain cur1 TT1 where s1: "tables_step c (fst x, TT) = Some (cur1, TT1)" "tables_run cs (cur1, TT1) = Some (cur', TT')"
    using Cons.prems(2) by (auto split: option.splits)
  have cur1: "cur1 = fst (select c x)" using tables_step_selects[OF s1(1), of "snd x"] by simp
  have keep: "\<not> survives (TT1 t) k" if "\<not> survives (TT t) k" for t k
  proof (cases "TT1 = TT")
    case False
    then obtain u T where "table_step c (TT u) = Some T" "TT1 = TT(u := T)"
      using tables_step_change[OF s1(1)] by metis
    then show ?thesis using that table_step_survives[of c "TT u" T k] by auto
  qed (use that in simp)
  obtain L1 R1 where r: "db_run (located (select c x) cs) (L1, R1) (L', R')" "\<forall>(t, k)\<in>R1. \<not> survives (TT1 t) k"
  proof (cases "is_select c")
    case True
    then have "db_run (located (select c x) cs) (L, R) (L', R')" using Cons.prems(1) by simp
    then show ?thesis using that keep Cons.prems(3) by blast
  next
    case False
    then obtain s where s: "db_step (place c x, c) (L, R) s" "db_run (located (select c x) cs) s (L', R')"
      using Cons.prems(1) by (auto elim: db_run_ConsE)
    obtain L1 R1 where s1': "s = (L1, R1)" by (cases s)
    have "\<forall>(t, k)\<in>R1. \<not> survives (TT1 t) k"
      using s(1) unfolding s1'
    proof (cases rule: db_step.cases)
      case (Remove t k)
      then have "fst x = Some t" "c = Remove_object k" by (auto simp: place_def split: if_splits)
      then have "\<not> survives (TT1 t) k" using s1(1) by (auto simp: survives_def split: if_splits)
      then show ?thesis using Remove keep Cons.prems(3) by auto
    next
      case (Clear_all t n)
      then have "fst x = Some t" "c = Clear_table n" by (auto simp: place_def split: if_splits)
      then have "\<not> survives (TT1 t) k" for k using s1(1) by (auto simp: survives_def)
      then show ?thesis using Clear_all keep Cons.prems(3) by auto
    qed (use keep Cons.prems(3) in auto)
    then show ?thesis using that s(2) s1' by blast
  qed
  then show ?case using Cons.IH s1(2) cur1 by simp
qed

section \<open>The builders of the lists\<close>

definition kvo_inv :: "list_change_info list \<Rightarrow> (int \<Rightarrow> object_table) \<Rightarrow> observer \<Rightarrow> bool" where
  "kvo_inv ls TT ob \<longleftrightarrow> set (info_lists (ob_info ob)) \<subseteq> set ls \<and>
     (\<forall>l\<in>set ls. (\<not> cs_empty (builders ob ! li_changes l) \<longrightarrow> marked_list TT l) \<and>
        (active_list ob = Some (li_changes l) \<longrightarrow> marked_list TT l) \<and>
        modifications_new (builders ob ! li_changes l) = [])"

lemma for_each_col_keeps_new: "for_each_col f b = Some b' \<Longrightarrow> modifications_new b' = modifications_new b"
  by (auto simp: for_each_col_def bind_eq_Some_conv)

lemma cb_ops_keep_new:
  "cb_modify b n col = Some b' \<Longrightarrow> modifications_new b' = modifications_new b"
  "cb_insert b n m tr = Some b' \<Longrightarrow> modifications_new b' = modifications_new b"
  "cb_erase b n = Some b' \<Longrightarrow> modifications_new b' = modifications_new b"
  "cb_clear b n = Some b' \<Longrightarrow> modifications_new b' = modifications_new b"
proof -
  show "cb_modify b n col = Some b' \<Longrightarrow> modifications_new b' = modifications_new b"
    by (auto simp: cb_modify_def bind_eq_Some_conv Let_def split: option.splits if_splits)
  show "cb_insert b n m tr = Some b' \<Longrightarrow> modifications_new b' = modifications_new b"
    by (auto simp: cb_insert_def bind_eq_Some_conv dest!: for_each_col_keeps_new split: if_splits)
  show "cb_erase b n = Some b' \<Longrightarrow> modifications_new b' = modifications_new b"
    by (auto simp: cb_erase_def bind_eq_Some_conv case_prod_unfold Let_def dest!: for_each_col_keeps_new)
  show "cb_clear b n = Some b' \<Longrightarrow> modifications_new b' = modifications_new b"
    by (auto simp: cb_clear_def bind_eq_Some_conv Let_def)
qed

lemma cb_move_keeps_new: "cb_move b i j = Some b' \<Longrightarrow> modifications_new b' = modifications_new b"
  by (auto simp: cb_move_def bind_eq_Some_conv case_prod_unfold Let_def dest!: for_each_col_keeps_new split: if_splits)

lemma list_effect_keeps_new:
  assumes "list_effect c b = Some b'"
  shows "modifications_new b' = modifications_new b"
proof (cases c)
  case (List_swap i j)
  obtain a d where "(if nat i > nat j then (nat j, nat i) else (nat i, nat j)) = (a, d)" by (metis surj_pair)
  then have "Option.bind (cb_move b a d) (\<lambda>b. if a + 1 \<noteq> d then cb_move b (d - 1) a else Some b) = Some b'"
    using assms List_swap by simp
  then show ?thesis by (auto simp: bind_eq_Some_conv dest!: cb_move_keeps_new split: if_splits)
qed (use assms cb_ops_keep_new cb_move_keeps_new in auto)

lemma observe_builders:
  assumes "observe c ob = Some ob'" "\<not> is_list_op c" "\<nexists>col k. c = Select_list col k"
  shows "builders ob' = builders ob \<and> active_list ob' = active_list ob \<and>
    set (info_lists (ob_info ob')) \<subseteq> set (info_lists (ob_info ob))"
proof -
  consider k where "c = Select_table k" | k where "c = Remove_object k" | n where "c = Clear_table n"
    | "\<not> is_select c" "\<forall>k. c \<noteq> Remove_object k" "\<forall>n. c \<noteq> Clear_table n"
    using assms(3) by (cases c) auto
  then show ?thesis
  proof cases
    case (1 k)
    then show ?thesis using assms(1) by (cases "track_all (ob_info ob)") (auto simp: ob_select_table_def set_tables_def Let_def)
  next
    case (2 k)
    then have "ob' = ob_remove_object k ob" using assms(1) by simp
    then show ?thesis
      using ob_remove_object_props[of k ob] remove_lists_of_props[of "current_table ob" k 0 "info_lists (ob_info ob)"] by auto
  next
    case (3 n)
    then have "ob' = ob_clear_table (nat n) ob" using assms(1) by simp
    then show ?thesis using ob_clear_table_props[of "nat n" ob] by auto
  next
    case 4
    then show ?thesis using observe_group[OF assms(2) 4, of ob] assms(1) by auto
  qed
qed

lemma kvo_inv_step:
  assumes ls: "lists_ok ls" and inv: "kvo_inv ls TT ob" and s: "tables_step c (cur, TT) = Some (cur', TT')"
    and ob: "observe c ob = Some ob'" and cur: "\<forall>t. cur = Some t \<longrightarrow> current_table ob = t"
  shows "kvo_inv ls TT' ob'"
proof -
  have keep: "marked_list TT l \<Longrightarrow> marked_list TT' l" for l by (rule marked_list_step[OF s])
  have inv': "kvo_inv ls TT' ob" using inv keep by (auto simp: kvo_inv_def)
  show ?thesis
  proof (cases "is_list_op c")
    case True
    then have o: "on_active_list (list_effect c) ob = Some ob'" using ob observe_list_op by simp
    show ?thesis
    proof (cases "active_list ob")
      case None
      then show ?thesis using o inv' by (simp add: on_active_list_def)
    next
      case (Some p)
      then obtain b where b: "p < length (builders ob)" "list_effect c (builders ob ! p) = Some b" "ob' = ob\<lparr>builders := (builders ob)[p := b]\<rparr>"
        using o by (auto simp: on_active_list_def realm_assert_def split: Option.bind_splits if_splits)
      have n: "builders ob' ! li_changes l = (if li_changes l = p then b else builders ob ! li_changes l)" for l
        using b by (simp add: nth_list_update)
      have "ob_info ob' = ob_info ob" "active_list ob' = Some p" using b(3) Some by simp_all
      then show ?thesis using inv' list_effect_keeps_new[OF b(2)] Some unfolding kvo_inv_def n by auto
    qed
  next
    case False
    consider col k where "c = Select_list col k" | "\<not> (\<exists>col k. c = Select_list col k)" by blast
    then show ?thesis
    proof cases
      case 1
      then obtain t n C where t: "cur = Some t" "TT t k = Some (n, C)" "TT' = TT(t := (TT t)(k \<mapsto> (n, insert col C)))"
        using s by (auto split: option.splits)
      let ?ob = "ob_modify_object col k ob"
      have o: "info_lists (ob_info ?ob) = info_lists (ob_info ob)" "builders ?ob = builders ob" "current_table ?ob = t"
        using cur t(1) by (auto simp: ob_modify_object_def on_active_table_def set_tables_def split: option.splits)
      have ob': "ob' = ?ob\<lparr>active_list := find_list k col ?ob\<rparr>" using ob 1 by (simp add: ob_select_list_def Let_def)
      have "marked_list TT' l" if l: "l \<in> set ls" and p: "find_list k col ?ob = Some (li_changes l)" for l
      proof -
        obtain m where m: "find (\<lambda>l. li_table l = t \<and> li_row l = k \<and> li_col l = col) (rev (info_lists (ob_info ob))) = Some m"
            "li_changes m = li_changes l"
          using p o by (auto simp: find_list_def)
        then have "m \<in> set (info_lists (ob_info ob))" "li_table m = t" "li_row m = k" "li_col m = col"
          by (auto simp: find_Some_iff) (metis nth_mem set_rev length_rev)
        moreover from this have "m = l" using lists_okD(2)[OF ls _ l m(2)] inv by (auto simp: kvo_inv_def)
        ultimately show ?thesis using t by (auto simp: marked_list_def survives_def modified_columns_def)
      qed
      then show ?thesis using inv' o unfolding ob' by (auto simp: kvo_inv_def)
    next
      case 2
      have "builders ob' = builders ob \<and> active_list ob' = active_list ob \<and>
        set (info_lists (ob_info ob')) \<subseteq> set (info_lists (ob_info ob))"
        by (rule observe_builders[OF ob False]) (use 2 in blast)
      then show ?thesis using inv' by (auto simp: kvo_inv_def)
    qed
  qed
qed

lemma kvo_inv_run:
  assumes ls: "lists_ok ls"
  shows "kvo_inv ls (snd s) ob \<Longrightarrow> table_inv old every keys s ob \<Longrightarrow> tables_run cs s = Some s' \<Longrightarrow>
    run_calls observer_handler cs ob = ok ob' \<Longrightarrow> kvo_inv ls (snd s') ob'"
proof (induction cs arbitrary: s ob)
  case (Cons c cs)
  obtain s1 where s1: "tables_step c s = Some s1" "tables_run cs s1 = Some s'"
    using Cons.prems(3) by (auto split: option.splits)
  obtain ob1 where ob1: "observe c ob = Some ob1" "run_calls observer_handler cs ob1 = ok ob'"
    by (rule run_calls_observe[OF Cons.prems(4)])
  have "\<forall>t. fst s = Some t \<longrightarrow> current_table ob = t" using Cons.prems(2) by (simp add: table_inv_def Let_def)
  then have "kvo_inv ls (snd s1) ob1"
    using kvo_inv_step[OF ls, of "snd s" ob c "fst s" "fst s1" "snd s1" ob1] Cons.prems(1) s1(1) ob1(1) by simp
  from Cons.IH[OF this table_inv_step[OF Cons.prems(2) s1(1) ob1(1)] s1(2) ob1(2)] show ?case .
qed simp

lemma observe_length: "observe c ob = Some ob' \<Longrightarrow> length (builders ob') = length (builders ob)"
proof (cases "is_list_op c")
  case True
  then show "observe c ob = Some ob' \<Longrightarrow> length (builders ob') = length (builders ob)"
    by (auto simp: observe_list_op on_active_list_def realm_assert_def bind_eq_Some_conv split: option.splits if_splits)
next
  case False
  assume o: "observe c ob = Some ob'"
  show "length (builders ob') = length (builders ob)"
  proof (cases "\<exists>col k. c = Select_list col k")
    case True
    then show ?thesis using o
      by (auto simp: ob_select_list_def ob_modify_object_def on_active_table_def set_tables_def Let_def split: option.splits)
  next
    case ns: False
    then show ?thesis using observe_builders[OF o False] by simp
  qed
qed

lemma run_calls_length: "run_calls observer_handler cs ob = ok ob' \<Longrightarrow> length (builders ob') = length (builders ob)"
proof (induction cs arbitrary: ob)
  case (Cons c cs)
  obtain ob1 where ob1: "observe c ob = Some ob1" "run_calls observer_handler cs ob1 = ok ob'"
    by (rule run_calls_observe[OF Cons.prems])
  then show ?case using Cons.IH observe_length by metis
qed simp

lemma clean_up_keeps:
  assumes "clean_up_stale_moves b = Some b'"
  shows "modifications_new b' = modifications_new b \<and> (cs_empty b \<longrightarrow> b' = b)"
  using assms by (auto simp: clean_up_stale_moves_def bind_eq_Some_conv cs_empty_def)

lemma clean_up_lists_keeps:
  "clean_up_lists ls bs = Some bs' \<Longrightarrow> length bs' = length bs \<and>
    (\<forall>i<length bs. modifications_new (bs' ! i) = modifications_new (bs ! i) \<and> (cs_empty (bs ! i) \<longrightarrow> cs_empty (bs' ! i)))"
proof (induction ls arbitrary: bs)
  case (Cons l ls)
  obtain b where b: "li_changes l < length bs" "clean_up_stale_moves (bs ! li_changes l) = Some b"
      "clean_up_lists ls (bs[li_changes l := b]) = Some bs'"
    using Cons.prems by (auto simp: bind_eq_Some_conv realm_assert_def split: if_splits)
  have step: "modifications_new (bs[li_changes l := b] ! i) = modifications_new (bs ! i) \<and>
      (cs_empty (bs ! i) \<longrightarrow> cs_empty (bs[li_changes l := b] ! i))" for i
    using clean_up_keeps[OF b(2)] b(1) by (cases "i = li_changes l") auto
  from Cons.IH[OF b(3)] step show ?case by simp
qed simp

section \<open>What is told of objects\<close>

definition object_told :: "(int \<times> object_changes) list \<Rightarrow> 'i observer_state \<Rightarrow> 'i observer_state" where
  "object_told ts ob =
     (let c = table_changes_at ts (os_table ob) in
      if deletions_contains c (os_obj ob) then ob
      else case get_columns_modified c (os_obj ob) of
        None \<Rightarrow> ob
      | Some cols \<Rightarrow> ob\<lparr>os_changes := mark_columns cols (os_changes ob)\<rparr>)"

lemma observe_objects_eq:
  "observe_objects ts obs = (map (object_told ts) obs,
     map os_info (filter (\<lambda>ob. deletions_contains (table_changes_at ts (os_table ob)) (os_obj ob)) obs))"
proof (induction obs)
  case (Cons ob obs)
  have "deletions_contains no_object_changes k = False" "get_columns_modified no_object_changes k = None" for k
    by (simp_all add: deletions_contains_def get_columns_modified_def no_object_changes_def)
  then show ?case
    using Cons by (cases "map_of ts (os_table ob)") (auto simp: object_told_def table_changes_at_def Let_def split: option.splits)
qed simp

lemma mark_columns_eq:
  "map_of (mark_columns cols changes) col =
     (if col \<in> set cols then Some ((case map_of changes col of None \<Rightarrow> new_column_info | Some c \<Rightarrow> c)\<lparr>ci_kind := Set_kind\<rparr>)
      else map_of changes col)"
proof (induction cols arbitrary: changes)
  case (Cons c cols)
  show ?case unfolding mark_columns.simps Cons.IH
    by (cases "col = c"; cases "col \<in> set cols") (simp_all add: update_conv' split: option.splits)
qed simp

section \<open>What is told of lists\<close>

definition list_found :: "kvo_list_info \<Rightarrow> change_builder \<Rightarrow> 'i observer_state list \<Rightarrow> bool" where
  "list_found l b obs \<longleftrightarrow> kl_observer l < length obs \<and>
     (\<not> cs_empty b \<and> os_changes (obs ! kl_observer l) \<noteq> [] \<longrightarrow>
        (\<exists>c. map_of (os_changes (obs ! kl_observer l)) (kl_col l) = Some c \<and> returns (kvo_list_change b c) (\<lambda>r. True)))"

definition list_told :: "kvo_list_info \<Rightarrow> change_builder \<Rightarrow> 'i observer_state list \<Rightarrow> change_builder \<Rightarrow> 'i observer_state list \<Rightarrow> bool" where
  "list_told l b obs b' obs' \<longleftrightarrow>
     (if cs_empty b then b' = b \<and> map_of (os_changes (obs' ! kl_observer l)) (kl_col l) = None
      else os_changes (obs ! kl_observer l) \<noteq> [] \<longrightarrow>
        (\<exists>c c'. map_of (os_changes (obs ! kl_observer l)) (kl_col l) = Some c \<and> kvo_list_change b c = Some (b', c') \<and>
           map_of (os_changes (obs' ! kl_observer l)) (kl_col l) = Some c'))"

text \<open>A change of one column of an observer.\<close>

lemma set_changes_simps [simp]:
  "length (set_changes i ch obs) = length obs"
  "i < length obs \<Longrightarrow> set_changes i ch obs ! j = (if j = i then (obs ! i)\<lparr>os_changes := ch\<rparr> else obs ! j)"
  by (simp_all add: set_changes_def nth_list_update)

definition other_columns :: "kvo_list_info set \<Rightarrow> 'i observer_state list \<Rightarrow> 'i observer_state list \<Rightarrow> bool" where
  "other_columns S obs obs' \<longleftrightarrow> length obs' = length obs \<and>
     (\<forall>i<length obs. os_table (obs' ! i) = os_table (obs ! i) \<and> os_obj (obs' ! i) = os_obj (obs ! i) \<and> os_info (obs' ! i) = os_info (obs ! i) \<and>
        (os_changes (obs ! i) = [] \<longrightarrow> os_changes (obs' ! i) = []) \<and>
        (\<forall>col. \<lparr>kl_observer = i, kl_col = col\<rparr> \<notin> S \<longrightarrow> map_of (os_changes (obs' ! i)) col = map_of (os_changes (obs ! i)) col))"

lemma other_columns_refl: "other_columns S obs obs"
  by (simp add: other_columns_def)

lemma other_columns_trans: "other_columns S obs obs' \<Longrightarrow> other_columns S' obs' obs'' \<Longrightarrow> other_columns (S \<union> S') obs obs''"
  by (simp add: other_columns_def)

lemma other_columns_set:
  assumes "kl_observer l < length obs" "\<And>col. col \<noteq> kl_col l \<Longrightarrow> map_of ch col = map_of (os_changes (obs ! kl_observer l)) col"
    and "os_changes (obs ! kl_observer l) = [] \<Longrightarrow> ch = []"
  shows "other_columns {l} obs (set_changes (kl_observer l) ch obs)"
  using assms by (cases l) (simp add: other_columns_def)

lemma observe_lists_props:
  assumes "distinct ls" "p + length ls \<le> length bs" "\<forall>j<length ls. list_found (ls ! j) (bs ! (p + j)) obs"
  shows "returns (observe_lists ls p bs obs) (\<lambda>(bs', obs'). length bs' = length bs \<and> (\<forall>j<p. bs' ! j = bs ! j) \<and>
    other_columns (set ls) obs obs' \<and> (\<forall>j<length ls. list_told (ls ! j) (bs ! (p + j)) obs (bs' ! (p + j)) obs'))"
  using assms
proof (induction ls arbitrary: p bs obs)
  case Nil
  then show ?case by (simp add: other_columns_refl)
next
  case (Cons l ls)
  let ?o = "kl_observer l" and ?c = "kl_col l"
  have l: "?o < length obs" "p < length bs" and f: "list_found l (bs ! p) obs" using Cons.prems(2,3) by (auto simp: list_found_def)
  obtain b' obs1 where step: "observe_lists (l # ls) p bs obs = observe_lists ls (p + 1) (bs[p := b']) obs1"
      "other_columns {l} obs obs1" "list_told l (bs ! p) obs b' obs1"
  proof -
    consider "cs_empty (bs ! p)" | "\<not> cs_empty (bs ! p)" "os_changes (obs ! ?o) = []"
      | c b' c' where "\<not> cs_empty (bs ! p)" "os_changes (obs ! ?o) \<noteq> []" "map_of (os_changes (obs ! ?o)) ?c = Some c"
          "kvo_list_change (bs ! p) c = Some (b', c')"
      using f by (auto simp: list_found_def returns_iff)
    then show thesis
    proof cases
      case 1
      let ?obs = "set_changes ?o (AList.delete ?c (os_changes (obs ! ?o))) obs"
      have "observe_lists (l # ls) p bs obs = observe_lists ls (p + 1) (bs[p := bs ! p]) ?obs"
        using l 1 by (simp add: realm_assert_def Let_def)
      moreover have "other_columns {l} obs ?obs" using l(1) by (intro other_columns_set) (auto simp: delete_conv')
      moreover have "list_told l (bs ! p) obs (bs ! p) ?obs" using 1 l(1) by (simp add: list_told_def delete_conv')
      ultimately show thesis by (rule that)
    next
      case 2
      then show thesis using that[of "bs ! p" obs] l by (simp add: realm_assert_def list_told_def other_columns_refl)
    next
      case 3
      let ?obs = "set_changes ?o (AList.update ?c c' (os_changes (obs ! ?o))) obs"
      have "observe_lists (l # ls) p bs obs = observe_lists ls (p + 1) (bs[p := b']) ?obs"
        using l 3 by (simp add: realm_assert_def Let_def)
      moreover have "other_columns {l} obs ?obs" using l(1) 3(2) by (intro other_columns_set) (auto simp: update_conv')
      moreover have "list_told l (bs ! p) obs b' ?obs" using 3 l(1) by (simp add: list_told_def update_conv')
      ultimately show thesis by (rule that)
    qed
  qed
  have d: "distinct ls" "l \<notin> set ls" using Cons.prems(1) by auto
  have found: "list_found (ls ! j) (bs[p := b'] ! (p + 1 + j)) obs1" if j: "j < length ls" for j
  proof -
    have "list_found (ls ! j) (bs ! (p + 1 + j)) obs" using Cons.prems(3)[rule_format, of "Suc j"] j by simp
    moreover have "ls ! j \<noteq> l" using d(2) j by auto
    then have "map_of (os_changes (obs1 ! kl_observer (ls ! j))) (kl_col (ls ! j)) = map_of (os_changes (obs ! kl_observer (ls ! j))) (kl_col (ls ! j))"
      if "kl_observer (ls ! j) < length obs"
      using step(2) that unfolding other_columns_def by (cases "ls ! j"; cases l) auto
    ultimately show ?thesis
      using step(2) by (auto simp: list_found_def other_columns_def)
  qed
  have "p + 1 + length ls \<le> length (bs[p := b'])" using Cons.prems(2) by simp
  from Cons.IH[OF d(1) this] found
  have IH: "returns (observe_lists ls (p + 1) (bs[p := b']) obs1) (\<lambda>(bs', obs'). length bs' = length (bs[p := b']) \<and>
      (\<forall>j<p + 1. bs' ! j = bs[p := b'] ! j) \<and> other_columns (set ls) obs1 obs' \<and>
      (\<forall>j<length ls. list_told (ls ! j) (bs[p := b'] ! (p + 1 + j)) obs1 (bs' ! (p + 1 + j)) obs'))" by blast
  show ?case
    unfolding step(1)
  proof (rule returns_mono[OF IH], clarify, intro conjI)
    fix bs' obs'
    assume h: "length bs' = length (bs[p := b'])" "\<forall>j<p + 1. bs' ! j = bs[p := b'] ! j" "other_columns (set ls) obs1 obs'"
      "\<forall>j<length ls. list_told (ls ! j) (bs[p := b'] ! (p + 1 + j)) obs1 (bs' ! (p + 1 + j)) obs'"
    show "length bs' = length bs" "\<forall>j<p. bs' ! j = bs ! j" using h(1,2) by auto
    show "other_columns (set (l # ls)) obs obs'" using other_columns_trans[OF step(2) h(3)] by simp
    have len: "length obs1 = length obs" using step(2) by (simp add: other_columns_def)
    have same_l: "map_of (os_changes (obs' ! ?o)) ?c = map_of (os_changes (obs1 ! ?o)) ?c"
      using h(3) d(2) l(1) len unfolding other_columns_def by (cases l) auto
    show "\<forall>j<length (l # ls). list_told ((l # ls) ! j) (bs ! (p + j)) obs (bs' ! (p + j)) obs'"
    proof (intro allI impI)
      fix j
      assume j: "j < length (l # ls)"
      show "list_told ((l # ls) ! j) (bs ! (p + j)) obs (bs' ! (p + j)) obs'"
      proof (cases j)
        case 0
        moreover have "bs' ! p = b'" using h(2) l(2) by simp
        ultimately show ?thesis using step(3) same_l by (auto simp: list_told_def split: if_splits)
      next
        case (Suc i)
        then have i: "i < length ls" using j by simp
        then have "ls ! i \<noteq> l" using d(2) by auto
        moreover have "kl_observer (ls ! i) < length obs" using Cons.prems(3)[rule_format, of "Suc i"] i by (simp add: list_found_def)
        ultimately have same: "map_of (os_changes (obs1 ! kl_observer (ls ! i))) (kl_col (ls ! i)) =
            map_of (os_changes (obs ! kl_observer (ls ! i))) (kl_col (ls ! i))"
          "os_changes (obs ! kl_observer (ls ! i)) = [] \<longrightarrow> os_changes (obs1 ! kl_observer (ls ! i)) = []"
          using step(2) unfolding other_columns_def by (cases "ls ! i"; cases l; auto)+
        have "list_told (ls ! i) (bs ! (p + 1 + i)) obs1 (bs' ! (p + 1 + i)) obs'"
          using h(4) i by simp
        moreover have "list_found (ls ! i) (bs ! (p + 1 + i)) obs" using Cons.prems(3)[rule_format, of "Suc i"] i by simp
        ultimately show ?thesis
          unfolding list_told_def list_found_def using Suc same by (cases "cs_empty (bs ! (p + 1 + i))") fastforce+
      qed
    qed
  qed
qed

end
