(* ===== verification/KvoProperties.thy ===== *)
theory KvoProperties
  imports KvoCorrect ObserverProperties
begin

text \<open>
  The properties of \<open>KVOAdapter\<close>: what observers of single objects are told after a log was read.
\<close>

section \<open>A new adapter\<close>

lemma set_lists_of_observers:
  "l \<in> set (lists_of_observers ck il i obs) \<longleftrightarrow>
    (\<exists>j<length obs. kl_observer l = i + j \<and> kl_col l \<in> set (ck (os_table (obs ! j))) \<and> il (os_table (obs ! j)) (kl_col l))"
proof (induction obs arbitrary: i)
  case (Cons ob obs)
  have "(\<exists>j<length (ob # obs). kl_observer l = i + j \<and> kl_col l \<in> set (ck (os_table ((ob # obs) ! j))) \<and> il (os_table ((ob # obs) ! j)) (kl_col l)) \<longleftrightarrow>
      kl_observer l = i \<and> kl_col l \<in> set (ck (os_table ob)) \<and> il (os_table ob) (kl_col l) \<or>
      (\<exists>j<length obs. kl_observer l = i + 1 + j \<and> kl_col l \<in> set (ck (os_table (obs ! j))) \<and> il (os_table (obs ! j)) (kl_col l))"
    unfolding length_Cons Ex_less_Suc2 by simp
  moreover have "l \<in> (\<lambda>key. \<lparr>kl_observer = i, kl_col = key\<rparr>) ` S \<longleftrightarrow> kl_observer l = i \<and> kl_col l \<in> S" for S
    by (cases l) auto
  ultimately show ?case using Cons.IH[of "i + 1"] by auto
qed simp

lemma distinct_lists_of_observers:
  "\<forall>ob\<in>set obs. distinct (ck (os_table ob)) \<Longrightarrow> distinct (lists_of_observers ck il i obs)"
proof (induction obs arbitrary: i)
  case (Cons ob obs)
  have "distinct (map (\<lambda>key. \<lparr>kl_observer = i, kl_col = key\<rparr>) (filter (il (os_table ob)) (ck (os_table ob))))"
    using Cons.prems by (simp add: distinct_map inj_on_def)
  moreover have "kl_observer l > i" if "l \<in> set (lists_of_observers ck il (i + 1) obs)" for l
    using that unfolding set_lists_of_observers by auto
  ultimately show ?case using Cons by fastforce
qed simp

lemma sorted_distinct_adj: "sorted xs \<Longrightarrow> distinct_adj xs \<Longrightarrow> distinct (xs :: int list)"
proof (induction xs)
  case (Cons x xs)
  then show ?case by (cases xs) (auto simp: distinct_adj_Cons)
qed simp

lemma distinct_tables_needed: "distinct (tables_needed obs)" and set_tables_needed: "set (tables_needed obs) = os_table ` set obs"
  by (auto simp: tables_needed_def intro!: sorted_distinct_adj sorted_remdups_adj)

lemma new_adapter_props:
  assumes "distinct (map (\<lambda>ob. (os_table ob, os_obj ob)) obs)" "\<forall>ob\<in>set obs. distinct (ck (os_table ob))"
    and "new_kvo_adapter ck il ctx obs = (ad, info, bs)"
  shows "kvo_observers ad = obs" "kvo_context ad = ctx" "kvo_invalidated ad = []"
    "kvo_lists ad = lists_of_observers ck il 0 obs" "distinct (kvo_lists ad)"
    "length (info_lists info) = length (kvo_lists ad)" "length bs = length (kvo_lists ad)"
    "p < length (kvo_lists ad) \<Longrightarrow> info_lists info ! p =
       \<lparr>li_table = os_table (obs ! kl_observer (kvo_lists ad ! p)), li_row = os_obj (obs ! kl_observer (kvo_lists ad ! p)),
        li_col = kl_col (kvo_lists ad ! p), li_changes = p\<rparr>"
    "observed_ok (info_lists info) bs" "fst ` set (info_tables info) = os_table ` set obs"
    "\<forall>(t, c)\<in>set (info_tables info). c = no_object_changes" "distinct (map fst (info_tables info))" "\<not> track_all info"
    "\<forall>b\<in>set bs. b = empty_builder"
proof -
  let ?ls = "lists_of_observers ck il 0 obs"
  have e: "obs = [] \<Longrightarrow> tables_needed obs = []" by (simp add: tables_needed_def)
  have new: "ad = \<lparr>kvo_context = ctx, kvo_observers = obs, kvo_invalidated = [], kvo_lists = ?ls, kvo_version = no_version\<rparr>"
    "info_lists info = map (\<lambda>i. let l = ?ls ! i; ob = obs ! kl_observer l in
        \<lparr>li_table = os_table ob, li_row = os_obj ob, li_col = kl_col l, li_changes = i\<rparr>) [0..<length ?ls]"
    "info_tables info = map (\<lambda>t. (t, no_object_changes)) (tables_needed obs)" "\<not> track_all info" "bs = map (\<lambda>l. empty_builder) ?ls"
    using assms(3) e by (auto simp: new_kvo_adapter_def Let_def)
  show "kvo_observers ad = obs" "kvo_context ad = ctx" "kvo_invalidated ad = []"
    "kvo_lists ad = ?ls" "length (info_lists info) = length (kvo_lists ad)" "length bs = length (kvo_lists ad)" "\<not> track_all info"
    "\<forall>b\<in>set bs. b = empty_builder"
    using new by auto
  show d: "distinct (kvo_lists ad)" using distinct_lists_of_observers[OF assms(2)] new(1) by simp
  show nth: "p < length (kvo_lists ad) \<Longrightarrow> info_lists info ! p =
       \<lparr>li_table = os_table (obs ! kl_observer (kvo_lists ad ! p)), li_row = os_obj (obs ! kl_observer (kvo_lists ad ! p)),
        li_col = kl_col (kvo_lists ad ! p), li_changes = p\<rparr>" for p
    using new(1,2) by (simp add: Let_def)
  show "fst ` set (info_tables info) = os_table ` set obs" using new(3) set_tables_needed[of obs] by force
  show "\<forall>(t, c)\<in>set (info_tables info). c = no_object_changes" "distinct (map fst (info_tables info))"
    using new(3) distinct_tables_needed by (auto simp: comp_def)
  have changes: "map li_changes (info_lists info) = [0..<length ?ls]" using new(2) by (simp add: Let_def comp_def)
  have o: "kl_observer (?ls ! p) < length obs" if "p < length ?ls" for p
    using set_lists_of_observers[of "?ls ! p" ck il 0 obs] that by auto
  have "p = q" if pq: "p < length ?ls" "q < length ?ls" "li_key (info_lists info ! p) = li_key (info_lists info ! q)" for p q
  proof -
    have "map (\<lambda>ob. (os_table ob, os_obj ob)) obs ! kl_observer (?ls ! p) = map (\<lambda>ob. (os_table ob, os_obj ob)) obs ! kl_observer (?ls ! q)"
      "kl_col (?ls ! p) = kl_col (?ls ! q)"
      using pq nth o new(1) by (simp_all add: li_key_def)
    then have "kl_observer (?ls ! p) = kl_observer (?ls ! q)"
      using nth_eq_iff_index_eq[OF assms(1)] o[OF pq(1)] o[OF pq(2)] by simp
    then have "?ls ! p = ?ls ! q" using \<open>kl_col (?ls ! p) = kl_col (?ls ! q)\<close> by (cases "?ls ! p"; cases "?ls ! q") simp
    then show ?thesis using d new(1) pq(1,2) by (simp add: nth_eq_iff_index_eq)
  qed
  then have "distinct (map li_key (info_lists info))"
    using new(2) by (auto simp: distinct_conv_nth)
  then have "lists_ok (info_lists info)" using changes by (simp add: lists_ok_def)
  moreover have "\<forall>l\<in>set (info_lists info). li_changes l < length bs \<and> bs ! li_changes l = empty_builder"
    using new(2,5) by (auto simp: Let_def)
  ultimately show "observed_ok (info_lists info) bs" by (simp add: observed_ok_def)
qed

section \<open>What observers are told\<close>

text \<open>
  What the changes \<open>ch\<close> of an observer say of its object \<open>k\<close> in the table \<open>t\<close>, whose objects became \<open>T\<close>.
\<close>

definition object_told_right :: "(int \<Rightarrow> int \<Rightarrow> bool) \<Rightarrow> (list_key \<Rightarrow> 'a list) \<Rightarrow> (list_key \<Rightarrow> 'a slots) \<Rightarrow> int \<Rightarrow> int \<Rightarrow> object_table \<Rightarrow>
    (int \<times> column_info) list \<Rightarrow> bool" where
  "object_told_right is_list X L t k T ch \<longleftrightarrow>
     (if survives T k
      then \<forall>col. case map_of ch col of
             None \<Rightarrow> col \<in> modified_columns T k \<longrightarrow> is_list t col \<and> map fst (L (t, col, k)) = X (t, col, k) \<and> marked (L (t, col, k)) = {}
           | Some c \<Rightarrow> col \<in> modified_columns T k \<and> (is_list t col \<or> ci_kind c = Set_kind)
      else ch = [])"

text \<open>What is told of a list with the builder \<open>b\<close>.\<close>

definition list_told_right :: "change_builder \<Rightarrow> 'a list \<Rightarrow> 'a slots \<Rightarrow> column_info \<Rightarrow> bool" where
  "list_told_right b xs ys c \<longleftrightarrow> (moves b \<noteq> [] \<longrightarrow> isolated (iset_of (insertions b))) \<longrightarrow>
     kvo_says (ci_kind c) (iset_of (ci_indices c)) xs (map fst ys) (marked ys)"

definition observers_told_right :: "(int \<Rightarrow> int \<Rightarrow> bool) \<Rightarrow> (list_key \<Rightarrow> 'a list) \<Rightarrow> (list_key \<Rightarrow> 'a slots) \<Rightarrow> (int \<Rightarrow> object_table) \<Rightarrow>
    'i observer_state list \<Rightarrow> observer \<Rightarrow> 'i kvo_adapter \<Rightarrow> bool" where
  "observers_told_right is_list X L TT obs ob ad \<longleftrightarrow> length (kvo_observers ad) = length obs \<and>
     (\<forall>i<length obs. let t = os_table (obs ! i); k = os_obj (obs ! i) in
        object_told_right is_list X L t k (TT t) (os_changes (kvo_observers ad ! i)) \<and>
        (TT t k = None \<longrightarrow> os_info (obs ! i) \<in> set (kvo_invalidated ad))) \<and>
     (\<forall>p<length (kvo_lists ad). let i = kl_observer (kvo_lists ad ! p); col = kl_col (kvo_lists ad ! p);
          key = (os_table (obs ! i), col, os_obj (obs ! i)) in
        survives (TT (os_table (obs ! i))) (os_obj (obs ! i)) \<longrightarrow>
        (case map_of (os_changes (kvo_observers ad ! i)) col of None \<Rightarrow> True
         | Some c \<Rightarrow> list_told_right (builders ob ! p) (X key) (L key) c))"

lemma observers_told_rightI:
  assumes "kvo_observers ad = obs'" "kvo_lists ad = ls" "builders ob = bs" "length obs' = length obs"
    and "\<And>i. i < length obs \<Longrightarrow>
      object_told_right is_list X L (os_table (obs ! i)) (os_obj (obs ! i)) (TT (os_table (obs ! i))) (os_changes (obs' ! i))"
    and "\<And>i. i < length obs \<Longrightarrow> TT (os_table (obs ! i)) (os_obj (obs ! i)) = None \<Longrightarrow> os_info (obs ! i) \<in> set (kvo_invalidated ad)"
    and "\<And>p. p < length ls \<Longrightarrow> survives (TT (os_table (obs ! kl_observer (ls ! p)))) (os_obj (obs ! kl_observer (ls ! p))) \<Longrightarrow>
      (case map_of (os_changes (obs' ! kl_observer (ls ! p))) (kl_col (ls ! p)) of None \<Rightarrow> True
       | Some c \<Rightarrow> list_told_right (bs ! p) (X (os_table (obs ! kl_observer (ls ! p)), kl_col (ls ! p), os_obj (obs ! kl_observer (ls ! p))))
           (L (os_table (obs ! kl_observer (ls ! p)), kl_col (ls ! p), os_obj (obs ! kl_observer (ls ! p)))) c)"
  shows "observers_told_right is_list X L TT obs ob ad"
  using assms(4-) unfolding observers_told_right_def Let_def assms(1-3) by simp

text \<open>Before the observers are told: the state after \<open>parse_complete\<close>.\<close>

definition ready :: "(list_key \<Rightarrow> 'a list) \<Rightarrow> (list_key \<Rightarrow> 'a slots) \<Rightarrow> (int \<Rightarrow> int set) \<Rightarrow> (int \<Rightarrow> object_table) \<Rightarrow>
    'i observer_state list \<Rightarrow> kvo_list_info list \<Rightarrow> observer \<Rightarrow> bool" where
  "ready X L old TT obs ls ob \<longleftrightarrow>
     (\<forall>w\<in>set obs. tells (table_changes_at (info_tables (ob_info ob)) (os_table w)) (old (os_table w)) (TT (os_table w)) \<and>
        os_obj w \<in> old (os_table w) \<and> os_changes w = []) \<and>
     (\<forall>p<length ls. p < length (builders ob) \<and> kl_observer (ls ! p) < length obs \<and> modifications_new (builders ob ! p) = [] \<and>
        (let t = os_table (obs ! kl_observer (ls ! p)); k = os_obj (obs ! kl_observer (ls ! p)); key = (t, kl_col (ls ! p), k) in
         survives (TT t) k \<longrightarrow> (\<not> cs_empty (builders ob ! p) \<longrightarrow> kl_col (ls ! p) \<in> modified_columns (TT t) k) \<and>
           records (builders ob ! p) (X key) (L key) \<and> length (X key) \<le> npos \<and> length (L key) \<le> npos))"

lemma object_told_changes:
  assumes c: "tells (table_changes_at ts (os_table w)) old T" and "os_changes w = []"
  shows "map_of (os_changes (object_told ts w)) col =
      (if col \<in> modified_columns T (os_obj w) then Some (new_column_info\<lparr>ci_kind := Set_kind\<rparr>) else None)"
    "os_changes (object_told ts w) \<noteq> [] \<longleftrightarrow> modified_columns T (os_obj w) \<noteq> {}"
    "os_table (object_told ts w) = os_table w" "os_obj (object_told ts w) = os_obj w" "os_info (object_told ts w) = os_info w"
proof -
  let ?c = "table_changes_at ts (os_table w)" and ?k = "os_obj w"
  have m: "set (columns_of (oc_modifications ?c) ?k) = modified_columns T ?k" using c by (simp add: tells_def)
  have alive: "modified_columns T ?k \<noteq> {} \<Longrightarrow> survives T ?k"
    by (auto simp: modified_columns_def survives_def split: option.splits bool.splits)
  have del: "\<not> deletions_contains ?c ?k" if "modified_columns T ?k \<noteq> {}"
    using alive[OF that] c unfolding deletions_contains_def tells_def by (auto split: if_splits)
  have found: "get_columns_modified ?c ?k = Some cols \<Longrightarrow> set cols = modified_columns T ?k" for cols
    using m by (simp add: get_columns_modified_def columns_of_def)
  have none: "get_columns_modified ?c ?k = None \<Longrightarrow> modified_columns T ?k = {}"
    using m by (simp add: get_columns_modified_def columns_of_def)
  show map: "map_of (os_changes (object_told ts w)) col =
      (if col \<in> modified_columns T ?k then Some (new_column_info\<lparr>ci_kind := Set_kind\<rparr>) else None)" for col
    using assms(2) del found none
    by (auto simp: object_told_def Let_def mark_columns_eq split: option.splits)
  show "os_changes (object_told ts w) \<noteq> [] \<longleftrightarrow> modified_columns T ?k \<noteq> {}"
  proof
    assume "os_changes (object_told ts w) \<noteq> []"
    then obtain col c rest where "os_changes (object_told ts w) = (col, c) # rest"
      by (cases "os_changes (object_told ts w)") auto
    then have "map_of (os_changes (object_told ts w)) col = Some c" by simp
    then show "modified_columns T ?k \<noteq> {}" using map[of col] by (auto split: if_splits)
  next
    assume "modified_columns T ?k \<noteq> {}"
    then obtain col where "col \<in> modified_columns T ?k" by blast
    then show "os_changes (object_told ts w) \<noteq> []" using map[of col] by auto
  qed
  show "os_table (object_told ts w) = os_table w" "os_obj (object_told ts w) = os_obj w" "os_info (object_told ts w) = os_info w"
    by (simp_all add: object_told_def Let_def split: option.splits)
qed

lemma records_of_empty:
  assumes "records b xs ys" "cs_empty b"
  shows "map fst ys = xs" "marked ys = {}"
proof -
  have "deletions b = []" "insertions b = []" "modifications b = []" using assms(2) by (auto simp: cs_empty_def empty_def)
  then have i: "iset_of (deletions b) = {}" "iset_of (insertions b) = {}" "iset_of (modifications b) = {}" by (simp_all add: iset_of_def)
  then show "map fst ys = xs" using assms(1) by (simp add: records_def describes_def applies_def nths_all)
  show "marked ys = {}" using assms(1) i by (auto simp: records_def tracked_def)
qed

lemma kvo_before_props:
  assumes r: "ready X L old TT obs (kvo_lists ad) ob" and ad: "kvo_observers ad = obs" "kvo_context ad" "distinct (kvo_lists ad)"
    and il: "\<And>l. l \<in> set (kvo_lists ad) \<Longrightarrow> is_list (os_table (obs ! kl_observer l)) (kl_col l)"
  shows "returns (kvo_before v ob ad) (\<lambda>(ob', ad', told). observers_told_right is_list X L TT obs ob' ad')"
proof -
  let ?ts = "info_tables (ob_info ob)" and ?ls = "kvo_lists ad" and ?obs = "map (object_told (info_tables (ob_info ob))) obs"
  have tl: "tells (table_changes_at ?ts (os_table (obs ! i))) (old (os_table (obs ! i))) (TT (os_table (obs ! i)))"
    "os_obj (obs ! i) \<in> old (os_table (obs ! i))" "os_changes (obs ! i) = []" if "i < length obs" for i
    using r that by (auto simp: ready_def)
  note told = object_told_changes[OF tl(1,3)]
  have alive: "survives T k" if "col \<in> modified_columns T k" for T k and col :: int
    using that by (auto simp: modified_columns_def survives_def split: option.splits bool.splits)
  have rl: "p < length (builders ob) \<and> kl_observer (?ls ! p) < length obs \<and> modifications_new (builders ob ! p) = []"
    "survives (TT (os_table (obs ! kl_observer (?ls ! p)))) (os_obj (obs ! kl_observer (?ls ! p))) \<Longrightarrow>
      (\<not> cs_empty (builders ob ! p) \<longrightarrow> kl_col (?ls ! p) \<in> modified_columns (TT (os_table (obs ! kl_observer (?ls ! p)))) (os_obj (obs ! kl_observer (?ls ! p)))) \<and>
      records (builders ob ! p) (X (os_table (obs ! kl_observer (?ls ! p)), kl_col (?ls ! p), os_obj (obs ! kl_observer (?ls ! p))))
        (L (os_table (obs ! kl_observer (?ls ! p)), kl_col (?ls ! p), os_obj (obs ! kl_observer (?ls ! p)))) \<and>
      length (X (os_table (obs ! kl_observer (?ls ! p)), kl_col (?ls ! p), os_obj (obs ! kl_observer (?ls ! p)))) \<le> npos \<and>
      length (L (os_table (obs ! kl_observer (?ls ! p)), kl_col (?ls ! p), os_obj (obs ! kl_observer (?ls ! p)))) \<le> npos"
    if "p < length ?ls" for p
    using r that by (auto simp: ready_def Let_def)
  have change: "returns (kvo_list_change (builders ob ! p) c) (\<lambda>(b', c'). insertions b' = insertions (builders ob ! p) \<and> moves b' = moves (builders ob ! p) \<and>
      list_told_right (builders ob ! p) (X (os_table (obs ! kl_observer (?ls ! p)), kl_col (?ls ! p), os_obj (obs ! kl_observer (?ls ! p))))
        (L (os_table (obs ! kl_observer (?ls ! p)), kl_col (?ls ! p), os_obj (obs ! kl_observer (?ls ! p)))) c')"
    if "p < length ?ls" "\<not> cs_empty (builders ob ! p)"
      "survives (TT (os_table (obs ! kl_observer (?ls ! p)))) (os_obj (obs ! kl_observer (?ls ! p)))" for p c
    using rl[OF that(1)] that(2,3) by (auto simp: records_def list_told_right_def intro!: returns_mono[OF kvo_list_change_props])
  have found: "list_found (?ls ! p) (builders ob ! p) ?obs" if p: "p < length ?ls" for p
  proof -
    let ?i = "kl_observer (?ls ! p)"
    have i: "?i < length obs" using rl(1)[OF p] by simp
    show ?thesis
      unfolding list_found_def
    proof (intro conjI impI)
      assume "\<not> cs_empty (builders ob ! p) \<and> os_changes (?obs ! ?i) \<noteq> []"
      then have ne: "\<not> cs_empty (builders ob ! p)" "os_changes (?obs ! ?i) \<noteq> []" by blast+
      then have "modified_columns (TT (os_table (obs ! ?i))) (os_obj (obs ! ?i)) \<noteq> {}" using told(2)[OF i i] i by simp
      then have s: "survives (TT (os_table (obs ! ?i))) (os_obj (obs ! ?i))" using alive by blast
      have "returns (kvo_list_change (builders ob ! p) c) (\<lambda>r. True)" for c
        by (rule returns_mono[OF change[OF p ne(1) s]]) simp
      with rl(2)[OF p s] ne(1) told(1)[OF i i] i
      show "\<exists>c. map_of (os_changes (?obs ! ?i)) (kl_col (?ls ! p)) = Some c \<and> returns (kvo_list_change (builders ob ! p) c) (\<lambda>r. True)"
        by auto
    qed (use i in simp)
  qed
  show ?thesis
  proof (cases "?ts = []")
    case True
    have t: "tells no_object_changes (old (os_table (obs ! i))) (TT (os_table (obs ! i)))" if "i < length obs" for i
      using tl(1)[OF that] True by (simp add: table_changes_at_def)
    have s: "survives (TT (os_table (obs ! i))) (os_obj (obs ! i)) \<and> modified_columns (TT (os_table (obs ! i))) (os_obj (obs ! i)) = {}"
      if "i < length obs" for i
      using t[OF that] tl(2)[OF that] by (auto simp: tells_def no_object_changes_def columns_of_def)
    have "kvo_before v ob ad = Some (ob, ad\<lparr>kvo_version := v\<rparr>, False)" using True ad(2) by (simp add: kvo_before_def Let_def)
    moreover have "observers_told_right is_list X L TT obs ob (ad\<lparr>kvo_version := v\<rparr>)"
    proof (rule observers_told_rightI[where ls = ?ls and obs' = obs and bs = "builders ob"])
      show "object_told_right is_list X L (os_table (obs ! i)) (os_obj (obs ! i)) (TT (os_table (obs ! i))) (os_changes (obs ! i))"
        if "i < length obs" for i
        using s[OF that] tl(3)[OF that] by (simp add: object_told_right_def)
      show "os_info (obs ! i) \<in> set (kvo_invalidated (ad\<lparr>kvo_version := v\<rparr>))"
        if "i < length obs" "TT (os_table (obs ! i)) (os_obj (obs ! i)) = None" for i
        using s[OF that(1)] that(2) by (simp add: survives_def)
    qed (use ad(1) tl(3) rl(1) in simp_all)
    ultimately show ?thesis by simp
  next
    case False
    obtain bs' obs' where lists: "observe_lists ?ls 0 (builders ob) ?obs = Some (bs', obs')" "other_columns (set ?ls) ?obs obs'"
        "\<forall>p<length ?ls. list_told (?ls ! p) (builders ob ! p) ?obs (bs' ! p) obs'"
    proof -
      have "0 + length ?ls \<le> length (builders ob)" using rl(1)[of "length ?ls - 1"] by (cases "length ?ls") auto
      from observe_lists_props[OF ad(3) this, of ?obs] found show thesis using that by (auto simp: returns_iff)
    qed
    have len: "length obs' = length obs" using lists(2) by (simp add: other_columns_def)
    have dead: "os_changes (obs' ! i) = []" if i: "i < length obs" and "\<not> survives (TT (os_table (obs ! i))) (os_obj (obs ! i))" for i
    proof -
      have "modified_columns (TT (os_table (obs ! i))) (os_obj (obs ! i)) = {}" using alive that(2) by blast
      then have "os_changes (?obs ! i) = []" using told(2)[OF i i] i by simp
      then show ?thesis using lists(2) i by (simp add: other_columns_def)
    qed
    have listed: "if cs_empty (builders ob ! p) then map_of (os_changes (obs' ! kl_observer (?ls ! p))) (kl_col (?ls ! p)) = None
        else kl_col (?ls ! p) \<in> modified_columns (TT (os_table (obs ! kl_observer (?ls ! p)))) (os_obj (obs ! kl_observer (?ls ! p))) \<and>
          (\<exists>c c'. kvo_list_change (builders ob ! p) c = Some (bs' ! p, c') \<and>
            map_of (os_changes (obs' ! kl_observer (?ls ! p))) (kl_col (?ls ! p)) = Some c')"
      if p: "p < length ?ls" and s: "survives (TT (os_table (obs ! kl_observer (?ls ! p)))) (os_obj (obs ! kl_observer (?ls ! p)))" for p
    proof -
      let ?i = "kl_observer (?ls ! p)"
      have i: "?i < length obs" using rl(1)[OF p] by simp
      have "os_changes (?obs ! ?i) \<noteq> []" if "\<not> cs_empty (builders ob ! p)"
        using rl(2)[OF p s] that told(2)[OF i i] i by auto
      then show ?thesis using lists(3) p rl(2)[OF p s] unfolding list_told_def by fastforce
    qed
    have right: "object_told_right is_list X L (os_table (obs ! i)) (os_obj (obs ! i)) (TT (os_table (obs ! i))) (os_changes (obs' ! i))"
      if i: "i < length obs" for i
    proof (cases "survives (TT (os_table (obs ! i))) (os_obj (obs ! i))")
      case True
      let ?M = "modified_columns (TT (os_table (obs ! i))) (os_obj (obs ! i))"
      have "case map_of (os_changes (obs' ! i)) col of
             None \<Rightarrow> col \<in> ?M \<longrightarrow> is_list (os_table (obs ! i)) col \<and>
               map fst (L (os_table (obs ! i), col, os_obj (obs ! i))) = X (os_table (obs ! i), col, os_obj (obs ! i)) \<and>
               marked (L (os_table (obs ! i), col, os_obj (obs ! i))) = {}
           | Some c \<Rightarrow> col \<in> ?M \<and> (is_list (os_table (obs ! i)) col \<or> ci_kind c = Set_kind)" for col
      proof (cases "\<lparr>kl_observer = i, kl_col = col\<rparr> \<in> set ?ls")
        case False
        then have "map_of (os_changes (obs' ! i)) col = map_of (os_changes (?obs ! i)) col"
          using lists(2) i by (simp add: other_columns_def)
        then show ?thesis using told(1)[OF i i, of col] i by simp
      next
        case in_ls: True
        then obtain p where p: "p < length ?ls" "?ls ! p = \<lparr>kl_observer = i, kl_col = col\<rparr>" by (auto simp: in_set_conv_nth)
        have "is_list (os_table (obs ! i)) col" using il[OF in_ls] by simp
        moreover have "records (builders ob ! p) (X (os_table (obs ! i), col, os_obj (obs ! i))) (L (os_table (obs ! i), col, os_obj (obs ! i)))"
          using rl(2)[OF p(1)] p(2) True by simp
        ultimately show ?thesis
          using listed[OF p(1)] p(2) True records_of_empty[of "builders ob ! p" "X (os_table (obs ! i), col, os_obj (obs ! i))"
            "L (os_table (obs ! i), col, os_obj (obs ! i))"] by (auto split: option.splits if_splits)
      qed
      then show ?thesis using True by (simp add: object_told_right_def)
    qed (use dead[OF i] in \<open>simp add: object_told_right_def\<close>)
    have list_right: "case map_of (os_changes (obs' ! kl_observer (?ls ! p))) (kl_col (?ls ! p)) of None \<Rightarrow> True
        | Some c \<Rightarrow> list_told_right (bs' ! p)
            (X (os_table (obs ! kl_observer (?ls ! p)), kl_col (?ls ! p), os_obj (obs ! kl_observer (?ls ! p))))
            (L (os_table (obs ! kl_observer (?ls ! p)), kl_col (?ls ! p), os_obj (obs ! kl_observer (?ls ! p)))) c"
      if p: "p < length ?ls" and s: "survives (TT (os_table (obs ! kl_observer (?ls ! p)))) (os_obj (obs ! kl_observer (?ls ! p)))" for p
    proof (cases "cs_empty (builders ob ! p)")
      case True
      then show ?thesis using listed[OF p s] by simp
    next
      case False
      then obtain c c' where c: "kvo_list_change (builders ob ! p) c = Some (bs' ! p, c')"
          "map_of (os_changes (obs' ! kl_observer (?ls ! p))) (kl_col (?ls ! p)) = Some c'"
        using listed[OF p s] by auto
      from change[OF p False s, of c] show ?thesis unfolding c by (auto simp: list_told_right_def)
    qed
    have gone: "deletions_contains (table_changes_at ?ts (os_table (obs ! i))) (os_obj (obs ! i))"
      if "i < length obs" "TT (os_table (obs ! i)) (os_obj (obs ! i)) = None" for i
      using tl(1,2)[OF that(1)] that(2) by (auto simp: tells_def deletions_contains_def is_new_def survives_def)
    let ?ob = "ob\<lparr>builders := bs'\<rparr>"
    let ?ad = "ad\<lparr>kvo_version := v, kvo_observers := obs', kvo_invalidated := kvo_invalidated ad @
      map os_info (filter (\<lambda>ob. deletions_contains (table_changes_at ?ts (os_table ob)) (os_obj ob)) obs)\<rparr>"
    have "observers_told_right is_list X L TT obs ?ob ?ad"
    proof (rule observers_told_rightI[where ls = ?ls and obs' = obs' and bs = bs'])
      show "os_info (obs ! i) \<in> set (kvo_invalidated ?ad)" if "i < length obs" "TT (os_table (obs ! i)) (os_obj (obs ! i)) = None" for i
        using gone[OF that] that(1) by auto
    qed (use len right list_right in simp_all)
    then show ?thesis
      using False ad(1,2) lists(1) by (simp add: kvo_before_def Let_def observe_objects_eq)
  qed
qed

lemma kvo_before_lists: "kvo_before v ob ad = Some (ob', ad', told) \<Longrightarrow> kvo_lists ad' = kvo_lists ad"
  by (auto simp: kvo_before_def Let_def bind_eq_Some_conv split: if_splits prod.splits)

text \<open>C9. From a change of an object to what its observers are told. When a log was parsed for an observer of
  single objects, \<open>before\<close> finds every entry it asserts, and what it tells each observer of an object that
  survives are exactly its modified columns, less those lists that were selected but did not change in the end; for a list, the kind and
  the indexes describe how it changed, unless elements were moved next to each other. An object
  that was removed is reported as invalidated, and nothing else is told of it.\<close>

theorem kvo_notifications_correct:
  assumes "selects_ok st sl" "\<forall>c\<in>set cs. call_ok c" "32 * length cs < 2 ^ 64"
    and "well_scoped (None, None) cs" "db_run (located (None, None) cs) (unmarked X, {}) (L, R)"
    and "tables_run cs (None, \<lambda>t. old_table (old t)) = Some (cur, TT)"
    and "distinct (map (\<lambda>ob. (os_table ob, os_obj ob)) obs)" "\<forall>ob\<in>set obs. distinct (column_keys (os_table ob))"
    and "\<forall>ob\<in>set obs. os_obj ob \<in> old (os_table ob) \<and> os_changes ob = []" "\<forall>k. length (X k) \<le> npos \<and> length (L k) \<le> npos"
  shows "yields (encode_calls st sl cs new_encoder) (\<lambda>e.
    yields (kvo_advance column_keys is_list True v simple_next_block (written e) obs) (\<lambda>(ob, ad, told).
      kvo_lists ad = lists_of_observers column_keys is_list 0 obs \<and> observers_told_right is_list X L TT obs ob ad))"
proof -
  obtain ad info bs where new: "new_kvo_adapter column_keys is_list True obs = (ad, info, bs)" by (metis prod_cases3)
  note n = new_adapter_props[OF assms(7,8) new]
  have lX: "\<forall>l\<in>set (info_lists info). length (X (li_key l)) \<le> npos" using assms(10) by blast
  have ls: "lists_ok (info_lists info)" using n(9) by (simp add: observed_ok_def)
  obtain ob ob' where ob: "run_calls observer_handler cs (new_observer info bs) = ok ob" "parse_complete ob = Some ob'"
    and rec: "\<forall>l\<in>set (info_lists info). li_owner l \<notin> R \<longrightarrow> li_changes l < length (builders ob') \<and>
      records (builders ob' ! li_changes l) (X (li_key l)) (L (li_key l))"
    using observed_calls[OF n(9) lX assms(4,5)] unfolding yields_andthen by (auto simp: yields_iff lift_eq_ok)
  have start: "table_inv old False (os_table ` set obs) (None, \<lambda>t. old_table (old t)) (new_observer info bs)"
    using table_inv_new[OF n(11,12), of old bs] n(10,13) by simp
  have ti: "table_inv old False (os_table ` set obs) (cur, TT) ob"
    by (rule table_inv_run[OF start assms(6) ob(1)])
  have "kvo_inv (info_lists info) (\<lambda>t. old_table (old t)) (new_observer info bs)"
    using n(6,7,9) by (auto simp: kvo_inv_def new_observer_def observed_ok_def cs_empty_def empty_builder_def empty_def)
  then have ki: "kvo_inv (info_lists info) TT ob"
    using kvo_inv_run[OF ls, of "(None, \<lambda>t. old_table (old t))"] start assms(6) ob(1) by fastforce
  obtain bs' where bs': "clean_up_lists (info_lists (ob_info ob)) (builders ob) = Some bs'"
      "ob' = set_tables (filter (\<lambda>(k, c). \<not> oc_empty c)) (ob\<lparr>builders := bs'\<rparr>)"
    using ob(2) by (auto simp: parse_complete_def bind_eq_Some_conv)
  have keeps: "length bs' = length (builders ob)" "\<And>i. i < length (builders ob) \<Longrightarrow>
      modifications_new (bs' ! i) = modifications_new (builders ob ! i) \<and> (cs_empty (builders ob ! i) \<longrightarrow> cs_empty (bs' ! i))"
    using clean_up_lists_keeps[OF bs'(1)] by auto
  have len: "length (builders ob) = length (kvo_lists ad)" using run_calls_length[OF ob(1)] n(7) by (simp add: new_observer_def)
  have gone: "\<not> survives (TT t) k" if "(t, k) \<in> R" for t k
    using removed_run[OF assms(5), of "\<lambda>t. old_table (old t)" cur TT] assms(6) that by auto
  have "ready X L old TT obs (kvo_lists ad) ob'"
    unfolding ready_def
  proof (intro conjI ballI allI impI)
    fix w
    assume w: "w \<in> set obs"
    show "tells (table_changes_at (info_tables (ob_info ob')) (os_table w)) (old (os_table w)) (TT (os_table w))"
      using ti w table_changes_at_filter[of "info_tables (ob_info ob)"] bs'(2) by (auto simp: table_inv_def Let_def set_tables_def)
    show "os_obj w \<in> old (os_table w)" "os_changes w = []" using assms(9) w by auto
  next
    fix p
    assume p: "p < length (kvo_lists ad)"
    let ?l = "kvo_lists ad ! p"
    show pl: "p < length (builders ob')" using p bs'(2) keeps(1) len by (simp add: set_tables_def)
    show o: "kl_observer ?l < length obs" using set_lists_of_observers[of ?l column_keys is_list 0 obs] p n(4) by auto
    have m: "info_lists info ! p \<in> set (info_lists info)" using p n(6) by simp
    have b: "builders ob' ! p = bs' ! p" using bs'(2) by (simp add: set_tables_def)
    have inv: "\<not> cs_empty (builders ob ! p) \<longrightarrow> marked_list TT (info_lists info ! p)" "modifications_new (builders ob ! p) = []"
      using ki m n(8)[OF p] unfolding kvo_inv_def by fastforce+
    show "modifications_new (builders ob' ! p) = []" using inv(2) keeps(2)[of p] p len b by simp
    show "let t = os_table (obs ! kl_observer ?l); k = os_obj (obs ! kl_observer ?l); key = (t, kl_col ?l, k) in
         survives (TT t) k \<longrightarrow> (\<not> cs_empty (builders ob' ! p) \<longrightarrow> kl_col ?l \<in> modified_columns (TT t) k) \<and>
           records (builders ob' ! p) (X key) (L key) \<and> length (X key) \<le> npos \<and> length (L key) \<le> npos"
      unfolding Let_def
    proof (intro impI conjI)
      assume s: "survives (TT (os_table (obs ! kl_observer ?l))) (os_obj (obs ! kl_observer ?l))"
      show "kl_col ?l \<in> modified_columns (TT (os_table (obs ! kl_observer ?l))) (os_obj (obs ! kl_observer ?l))"
        if "\<not> cs_empty (builders ob' ! p)"
        using that inv(1) keeps(2)[of p] p len b s n(8)[OF p] by (auto simp: marked_list_def)
      have "li_owner (info_lists info ! p) \<notin> R" using s gone n(8)[OF p] by (auto simp: li_owner_def)
      then show "records (builders ob' ! p) (X (os_table (obs ! kl_observer ?l), kl_col ?l, os_obj (obs ! kl_observer ?l)))
          (L (os_table (obs ! kl_observer ?l), kl_col ?l, os_obj (obs ! kl_observer ?l)))"
        using rec m n(8)[OF p] by (auto simp: li_key_def)
    qed (use assms(10) in auto)
  qed
  moreover have "is_list (os_table (obs ! kl_observer l)) (kl_col l)" if "l \<in> set (kvo_lists ad)" for l
    using that set_lists_of_observers[of l column_keys is_list 0 obs] n(4) by auto
  ultimately have "returns (kvo_before v ob' ad) (\<lambda>(ob'', ad', told). observers_told_right is_list X L TT obs ob'' ad')"
    using n(1,2,5) by (intro kvo_before_props) auto
  then have before: "returns (kvo_before v ob' ad) (\<lambda>(ob'', ad', told). kvo_lists ad' = lists_of_observers column_keys is_list 0 obs \<and>
      observers_told_right is_list X L TT obs ob'' ad')"
    using kvo_before_lists[of v ob' ad] n(4) by (auto simp: returns_iff)
  have adv: "kvo_advance column_keys is_list True v simple_next_block (written e) obs = lift (kvo_before v ob' ad)"
    if "decode_log (written e) = (cs, ok ())" for e
  proof -
    have "parse simple_next_block observer_handler (written e) (new_observer info bs) = ok ob"
      using simple_no_copy.parse_decode_log[of observer_handler "written e" "new_observer info bs"] that ob(1)
      by (auto simp: finish_def ok_def andthen_def split: sum.splits)
    then show ?thesis using ob(2) new by (simp add: kvo_advance_def advance_with_observer_def)
  qed
  have "yields (encode_calls st sl cs new_encoder) (\<lambda>e. \<exists>bss. list_all2 reads_back cs bss \<and> enc_ok e (concat bss))"
    using encode_calls_props[OF assms(1,2) enc_ok_new] assms(3) by simp
  then show ?thesis
  proof (rule yields_mono)
    fix e
    assume "\<exists>bss. list_all2 reads_back cs bss \<and> enc_ok e (concat bss)"
    then have d: "decode_log (written e) = (cs, ok ())" using decode_log_reads_back written_enc_ok by auto
    show "yields (kvo_advance column_keys is_list True v simple_next_block (written e) obs) (\<lambda>(ob, ad, told).
      kvo_lists ad = lists_of_observers column_keys is_list 0 obs \<and> observers_told_right is_list X L TT obs ob ad)"
      unfolding adv[OF d] using before by (auto simp: returns_iff)
  qed
qed

definition sample_observers :: "string observer_state list" where
  "sample_observers = [\<lparr>os_table = 5, os_obj = 4, os_info = ''four'', os_changes = []\<rparr>, \<lparr>os_table = 5, os_obj = 7, os_info = ''seven'', os_changes = []\<rparr>]"

theorem kvo_notifications_correct_witness:
  "yields (encode_calls sample_select_table sample_select_list
     [Select_table 5, Select_list 3 4, List_insert 1, Modify_object 2 4, Remove_object 7] new_encoder) (\<lambda>e.
     yields (kvo_advance (\<lambda>t. [2, 3]) (\<lambda>t c. c = 3) True 6 simple_next_block (written e) sample_observers) (\<lambda>(ob, ad, told).
       ''seven'' \<in> set (kvo_invalidated ad) \<and>
       (let ch = os_changes (kvo_observers ad ! 0) in map_option ci_kind (map_of ch 2) = Some Set_kind \<and> map_of ch 3 \<noteq> None \<and> map_of ch 9 = None)))"
proof -
  let ?cs = "[Select_table 5, Select_list 3 4, List_insert 1, Modify_object 2 4, Remove_object 7]"
  let ?k = "(5, 3, 4) :: list_key" and ?x = "(Some 5, Some (3, 4)) :: selection"
  define X where "X = (\<lambda>k. if k = ?k then [10, 20 :: int] else [])"
  let ?y = "[(10, False), (99, False), (20, False)] :: int slots" and ?old = "\<lambda>t. if t = (5 :: int) then {4, 7 :: int} else {}"
  define Y where "Y = (unmarked X)(?k := ?y)"
  have c: "\<forall>c\<in>set ?cs. call_ok c" "32 * length ?cs < 2 ^ 64" by (auto simp: fits_nonneg)
  have w: "well_scoped (None, None) ?cs" by (simp add: well_placed_def)
  have l: "located (None, None) ?cs = [(?x, List_insert 1), ((Some 5, None), Modify_object 2 4), ((Some 5, None), Remove_object 7)]"
    by (simp add: place_def)
  have "unmarked X ?k = [(10, False), (20, False)]" by (simp add: unmarked_def X_def)
  then have "list_step (List_insert 1) (unmarked X ?k) ?y"
    using list_step.Insert[of 1 "unmarked X ?k" 99] by (simp add: npos_def)
  then have o1: "db_step (?x, List_insert 1) (unmarked X, {}) (Y, {})"
    using db_step.On_list[of "List_insert 1" "unmarked X" 5 3 4 ?y "{}"] by (simp add: Y_def)
  have o2: "db_step ((Some 5, None), Modify_object 2 4) (Y, {}) (Y, {})" "db_step ((Some 5, None), Remove_object 7) (Y, {}) (Y, {(5, 7)})"
    by (simp_all add: db_step.Other db_step.Remove)
  have r: "db_run (located (None, None) ?cs) (unmarked X, {}) (Y, {(5, 7)})"
    unfolding l by (rule db_run.Cons[OF o1], rule db_run.Cons[OF o2(1)], rule db_run.Cons[OF o2(2)], rule db_run.Nil)
  define TT where "TT = (\<lambda>t. old_table (?old t))(5 := (old_table {4, 7})(4 := Some (False, {2, 3}), 7 := None))"
  have t: "tables_run ?cs (None, \<lambda>t. old_table (?old t)) = Some (Some 5, TT)"
    by (auto simp: TT_def old_table_def fun_eq_iff)
  have obs: "distinct (map (\<lambda>ob. (os_table ob, os_obj ob)) sample_observers)"
    "\<forall>ob\<in>set sample_observers. os_obj ob \<in> ?old (os_table ob) \<and> os_changes ob = []"
    by (auto simp: sample_observers_def)
  have "length (X k) \<le> npos \<and> length (Y k) \<le> npos" for k by (simp add: Y_def X_def unmarked_def npos_def)
  then have len: "\<forall>k. length (X k) \<le> npos \<and> length (Y k) \<le> npos" by blast
  have dk: "\<forall>ob\<in>set sample_observers. distinct ((\<lambda>t. [2, 3 :: int]) (os_table ob))" by simp
  note all = kvo_notifications_correct[OF sample_selects_ok c w r t obs(1) dk obs(2) len, where is_list = "\<lambda>t c. c = 3" and v = 6]
  have one: "''seven'' \<in> set (kvo_invalidated ad) \<and>
      (let ch = os_changes (kvo_observers ad ! 0) in map_option ci_kind (map_of ch 2) = Some Set_kind \<and> map_of ch 3 \<noteq> None \<and> map_of ch 9 = None)"
    if "observers_told_right (\<lambda>t c. c = 3) X Y TT sample_observers ob ad" for ob and ad :: "string kvo_adapter"
  proof -
    have "survives (TT 5) 4" "modified_columns (TT 5) 4 = {2, 3}" "TT 5 7 = None"
      by (auto simp: TT_def survives_def modified_columns_def)
    moreover have "map fst (Y ?k) \<noteq> X ?k" by (simp add: Y_def X_def)
    moreover have "object_told_right (\<lambda>t c. c = 3) X Y 5 4 (TT 5) (os_changes (kvo_observers ad ! 0))" "''seven'' \<in> set (kvo_invalidated ad)"
      using that \<open>TT 5 7 = None\<close> by (auto simp: observers_told_right_def sample_observers_def Let_def less_Suc_eq all_conj_distrib)
    ultimately show ?thesis
      unfolding object_told_right_def Let_def
      by (auto split: option.splits dest: spec[of _ 2] spec[of _ 3] spec[of _ 9])
  qed
  show ?thesis
    by (rule yields_mono[OF all], rule yields_mono, assumption) (use one in auto)
qed

text \<open>A move in a change set that has recorded moves only.\<close>

lemma cb_move_only:
  assumes "wf (deletions b)" "wf (insertions b)" "modifications b = []" "columns b = []" "f \<noteq> t" "f < npos"
    and "distinct (map move_to (moves b))" "f \<notin> move_to ` set (moves b)" "f \<notin> iset_of (insertions b)"
  shows "returns (cb_move b f t) (\<lambda>b'. wf (deletions b') \<and> wf (insertions b') \<and> modifications b' = [] \<and> columns b' = [] \<and>
    iset_of (insertions b') = {t} \<union> back_to {t} {f} ` iset_of (insertions b) \<and>
    iset_of (deletions b') = insert (back_to (iset_of (deletions b)) (iset_of (insertions b)) f) (iset_of (deletions b)) \<and>
    map move_to (moves b') = map (\<lambda>m. back_to {t} {f} (move_to m)) (moves b) @ [t])"
proof -
  let ?I = "iset_of (insertions b)"
  obtain ins ms where me: "move_existing f t False (insertions b) (moves b) = Some (False, ins, ms)" "wf ins" "iset_of ins = ?I"
      "map move_to ms = map (\<lambda>m. back_to {t} {f} (move_to m)) (moves b)"
  proof -
    have "move_to m \<noteq> f" if "m \<in> set (moves b)" for m using assms(8) that by auto
    then show thesis
      using move_existing_props[OF assms(2,7,5), of False] assms(8) that by (auto simp: returns_iff)
  qed
  have eu: "erase_or_unshift ins f = (erase_at ins f, unshift_of ?I f)" "unshift_of ?I f \<noteq> npos"
    using change_sets.erase_or_unshift_law[OF me(2), of f] me(3) assms(6,9) unshift_of_le[of ?I f] by auto
  have er: "wf (erase_at ins f)" "iset_of (erase_at ins f) = unshift_of {f} ` ?I"
    using change_sets.erase_at_law[OF me(2), of f] me(3) assms(9) by auto
  obtain ins' where ins': "insert_at (erase_at ins f) t 1 = Some ins'" "wf ins'" "iset_of ins' = {t} \<union> back_to {t} {f} ` ?I"
  proof -
    have "{t..<t + 1} = {t}" by auto
    then show thesis
      using change_sets.insert_at_law[OF er(1), of 1 t] er(2) that
      by (auto simp: returns_iff back_to_def image_image)
  qed
  obtain dels where dels: "add_shifted (deletions b) (unshift_of ?I f) =
      Some (dels, back_to (iset_of (deletions b)) ?I f)" "wf dels" "iset_of dels = insert (back_to (iset_of (deletions b)) ?I f) (iset_of (deletions b))"
    using change_sets.add_shifted_law[OF assms(1), of "unshift_of ?I f"] by (auto simp: returns_iff back_to_def)
  have none: "contains [] i = False" "erase_at [] i = []" "shift_for_insert_at [] j 1 = Some []" for i j
    by (simp_all add: contains_def v_find_def v_find_from_def v_begin_def v_end_def at_end_def find_if_from_def erase_at_def
        shift_for_insert_at_def realm_assert_def Let_def)
  have "for_each_col (\<lambda>col. let modified = contains col f; col = erase_at col f
      in if modified then insert_at col t 1 else shift_for_insert_at col t 1) c = Some c" if "modifications c = []" "columns c = []" for c
    using that none by (cases c) (simp add: for_each_col_def Let_def)
  then show ?thesis
    using me eu ins' dels assms(3-5) unfolding cb_move_def by (simp add: realm_assert_def Let_def)
qed

text \<open>C26. Two moves next to each other. If the second and the last of five elements are moved to the front,
  every index has another element, but what is told is an assignment to three of them: while the loop steps through the old
  elements it can pass only one inserted element at a time.\<close>

theorem kvo_moves_astray:
  "\<exists>b c. Option.bind (cb_move empty_builder 1 0) (\<lambda>b. cb_move b 4 1) = Some b \<and>
     describes b [10, 20, 30, 40, 50] [20, 50, 10, 30, 40 :: int] \<and>
     map_option snd (kvo_list_change b new_column_info) = Some c \<and> ci_kind c = Set_kind \<and> iset_of (ci_indices c) = {0, 1, 4}"
proof -
  have l: "(\<exists>x. m = Some x \<and> P x \<and> Q x)" if "returns m P" "returns m Q" for m and P Q :: "change_builder \<Rightarrow> bool"
    using that by (auto simp: returns_iff)
  have w: "wf (deletions empty_builder)" "wf (insertions empty_builder)" by (simp_all add: empty_builder_def wf_def)
  have i: "back_to {} {} x = x" "back_to {1} {0} 4 = 4" "back_to {1} {4} 0 = 0" for x :: nat
    by (simp_all add: shift_of_eqI back_to_def unshift_of_eq_diff)
  have m1: "returns (cb_move empty_builder 1 0) (\<lambda>b. wf (deletions b) \<and> wf (insertions b) \<and> modifications b = [] \<and> columns b = [] \<and>
    iset_of (insertions b) = {0} \<and> iset_of (deletions b) = {1} \<and> map move_to (moves b) = [0])"
    using cb_move_only[OF w, of 1 0] i by (simp add: empty_builder_def iset_of_def npos_def)
  have m2: "returns (cb_move empty_builder 1 0) (\<lambda>b. describes b [10, 20, 30, 40, 50] [20, 10, 30, 40, 50 :: int])"
    using move_props[OF describes_empty, of 1 "[10, 20, 30, 40, 50 :: int]" 0]
    by (auto simp: move_row_def insert_rows_def remove_row_def npos_def elim!: returns_mono)
  from l[OF m1 m2] obtain b where b: "cb_move empty_builder 1 0 = Some b" "wf (deletions b)" "wf (insertions b)" "modifications b = []" "columns b = []"
      "iset_of (insertions b) = {0}" "iset_of (deletions b) = {1}" "map move_to (moves b) = [0]"
      "describes b [10, 20, 30, 40, 50] [20, 10, 30, 40, 50 :: int]"
    by (elim exE conjE)
  have m: "move_to ` set (moves b) = {0}" "distinct (map move_to (moves b))" "length (moves b) = 1"
    using b(8) by auto
  have n1: "returns (cb_move b 4 1) (\<lambda>b. wf (deletions b) \<and> wf (insertions b) \<and> modifications b = [] \<and> columns b = [] \<and>
    iset_of (insertions b) = {0, 1} \<and> iset_of (deletions b) = {1, 4} \<and> length (moves b) = 2)"
  proof -
    have "length (moves d) = 2" if "map move_to (moves d) = map (\<lambda>m. back_to {1} {4} (move_to m)) (moves b) @ [1]" for d :: change_builder
      using arg_cong[OF that, of length] m(3) by simp
    moreover have "{1} \<union> back_to {1} {4} ` {0} = {0, 1 :: nat}" "insert (back_to {1} {0} 4) {1} = {1, 4}" using i by auto
    ultimately show ?thesis
      by (intro returns_mono[OF cb_move_only[OF b(2-5), of 4 1]]) (use b(6,7) m in \<open>simp_all add: npos_def\<close>)
  qed
  have n2: "returns (cb_move b 4 1) (\<lambda>b. describes b [10, 20, 30, 40, 50] [20, 50, 10, 30, 40 :: int])"
    using move_props[OF b(9), of 4 1] by (auto simp: move_row_def insert_rows_def remove_row_def npos_def elim!: returns_mono)
  from l[OF n1 n2] obtain d where d: "cb_move b 4 1 = Some d" "wf (deletions d)" "wf (insertions d)" "modifications d = []"
      "iset_of (insertions d) = {0, 1}" "iset_of (deletions d) = {1, 4}" "length (moves d) = 2"
      "describes d [10, 20, 30, 40, 50] [20, 50, 10, 30, 40 :: int]"
    by (elim exE conjE)
  have "iset [(0, 2)] = {0, 1}" "iset [(1, 2), (4, 5)] = {1, 4}" by auto
  moreover have "ranges_ok [(0, 2)]" "ranges_ok [(1, 2), (4, 5)]" by (simp_all add: ranges_ok_Cons)
  moreover have "ranges_ok (ranges (insertions d))" "ranges_ok (ranges (deletions d))" using d(2,3) by (simp_all add: wf_def)
  ultimately have r: "ranges (insertions d) = [(0, 2)]" "ranges (deletions d) = [(1, 2), (4, 5)]"
    using d(5,6) unfolding iset_of_def by (metis ranges_ok_unique)+
  have "index_count (insertions d) 0 npos = 2" "index_count (deletions d) 0 npos = 2"
    using index_count_from_0[OF d(2), of npos] index_count_from_0[OF d(3), of npos] d(5,6) by (simp_all add: npos_def)
  moreover obtain idx where idx: "add_set [] (deletions d) = Some idx" "wf idx" "iset_of idx = {1, 4}"
    using add_set_props[of "[]" "deletions d"] d(2,6) by (auto simp: returns_iff wf_def iset_of_def)
  moreover obtain idx1 where idx1: "add idx 0 = Some idx1" "wf idx1" "iset_of idx1 = {0, 1, 4}"
    using add_props[OF idx(2), of 0] idx(3) by (auto simp: returns_iff)
  moreover obtain idx2 where idx2: "add idx1 4 = Some idx2" "iset_of idx2 = {0, 1, 4}"
    using add_props[OF idx1(2), of 4] idx1(3) by (auto simp: returns_iff)
  moreover have "moves d \<noteq> []" using d(7) by auto
  moreover have "[0..<5] = [0, 1, 2, 3, 4 :: nat]" by (simp add: upt_rec)
  moreover have "remove_set [] (insertions d) = Some []"
  proof -
    obtain mods where m: "remove_set [] (insertions d) = Some mods" "wf mods" "iset_of mods = {}"
      using remove_set_props[of "[]" "insertions d"] d(3) by (auto simp: returns_iff wf_def iset_of_def)
    then have "mods = []" using empty_iff[OF m(2)] by (simp add: empty_def)
    then show ?thesis using m(1) by simp
  qed
  ultimately have "map_option snd (kvo_list_change d new_column_info) = Some (new_column_info\<lparr>ci_kind := Set_kind, ci_indices := idx2\<rparr>)"
    using d(4,7) r by (simp add: kvo_list_change_def moves_as_sets_def realm_assert_def in_next_range_def Let_def)
  then show ?thesis using b(1) d(1,8) idx2(2) by auto
qed

end
