(* ===== verification/Keys.thy ===== *)
theory Keys
  imports "HOL-Library.Word"
begin

unbundle bit_operations_syntax

text \<open>
  The keys of tables, columns and objects (realm/keys.hpp) and the attributes of a column
  (realm/column_type.hpp). A column key packs the column's index, type, attributes and tag into
  one 64 bit number. \<open>uint32_t\<close> is \<open>32 word\<close>; \<open>int64_t\<close> is \<open>64 word\<close> read with \<open>sint\<close>; \<open>int\<close> is
  \<open>32 word\<close>, widened with its sign.
\<close>

section \<open>Column types and attributes\<close>

datatype column_type =
    col_type_Int | col_type_Bool | col_type_String | col_type_OldStringEnum | col_type_Binary | col_type_OldTable
  | col_type_OldMixed | col_type_OldDateTime | col_type_Timestamp | col_type_Float | col_type_Double
  | col_type_Reserved4 | col_type_Link | col_type_LinkList | col_type_BackLink

fun column_type_code :: "column_type \<Rightarrow> 32 word" where
  "column_type_code col_type_Int = 0"
| "column_type_code col_type_Bool = 1"
| "column_type_code col_type_String = 2"
| "column_type_code col_type_OldStringEnum = 3"
| "column_type_code col_type_Binary = 4"
| "column_type_code col_type_OldTable = 5"
| "column_type_code col_type_OldMixed = 6"
| "column_type_code col_type_OldDateTime = 7"
| "column_type_code col_type_Timestamp = 8"
| "column_type_code col_type_Float = 9"
| "column_type_code col_type_Double = 10"
| "column_type_code col_type_Reserved4 = 11"
| "column_type_code col_type_Link = 12"
| "column_type_code col_type_LinkList = 13"
| "column_type_code col_type_BackLink = 14"

datatype column_attr =
  col_attr_None | col_attr_Indexed | col_attr_Unique | col_attr_Reserved | col_attr_StrongLinks | col_attr_Nullable | col_attr_List

fun column_attr_code :: "column_attr \<Rightarrow> 32 word" where
  "column_attr_code col_attr_None = 0"
| "column_attr_code col_attr_Indexed = 1"
| "column_attr_code col_attr_Unique = 2"
| "column_attr_code col_attr_Reserved = 4"
| "column_attr_code col_attr_StrongLinks = 8"
| "column_attr_code col_attr_Nullable = 16"
| "column_attr_code col_attr_List = 32"

type_synonym attr_mask = "32 word"

definition no_attrs :: attr_mask where
  "no_attrs = 0"

definition attr_test :: "column_attr \<Rightarrow> attr_mask \<Rightarrow> bool" where
  "attr_test prop m \<longleftrightarrow> m AND column_attr_code prop \<noteq> 0"

definition attr_set :: "column_attr \<Rightarrow> attr_mask \<Rightarrow> attr_mask" where
  "attr_set prop m = m OR column_attr_code prop"

definition attr_reset :: "column_attr \<Rightarrow> attr_mask \<Rightarrow> attr_mask" where
  "attr_reset prop m = m AND NOT (column_attr_code prop)"

text \<open>A mask as the set of its attributes.\<close>

definition attrs_of :: "attr_mask \<Rightarrow> column_attr set" where
  "attrs_of m = {p. attr_test p m}"

fun attr_bit :: "column_attr \<Rightarrow> nat option" where
  "attr_bit col_attr_None = None"
| "attr_bit col_attr_Indexed = Some 0"
| "attr_bit col_attr_Unique = Some 1"
| "attr_bit col_attr_Reserved = Some 2"
| "attr_bit col_attr_StrongLinks = Some 3"
| "attr_bit col_attr_Nullable = Some 4"
| "attr_bit col_attr_List = Some 5"

lemma column_attr_code_bit: "column_attr_code p = (case attr_bit p of None \<Rightarrow> 0 | Some k \<Rightarrow> 2 ^ k)"
  by (cases p) simp_all

lemma attr_bit_inj: "attr_bit p = Some k \<Longrightarrow> attr_bit q = Some k \<longleftrightarrow> q = p" "attr_bit p = Some k \<Longrightarrow> k < 32"
  by (cases p; cases q; auto)+

lemma bit_column_attr_code: "bit (column_attr_code p) n \<longleftrightarrow> attr_bit p = Some n"
  using attr_bit_inj(2)[of p] by (auto simp: column_attr_code_bit bit_exp_iff split: option.splits)

lemma attr_test_bit: "attr_test p m \<longleftrightarrow> (\<exists>n. attr_bit p = Some n \<and> bit m n)"
proof -
  have "m AND 2 ^ k = 0 \<longleftrightarrow> \<not> bit m k" for k by (simp add: and_exp_eq_0_iff_not_bit)
  then show ?thesis by (auto simp: attr_test_def column_attr_code_bit split: option.splits)
qed

lemma attr_test_change:
  "attr_test q (attr_set p m) \<longleftrightarrow> attr_test q m \<or> q = p \<and> q \<noteq> col_attr_None"
  "attr_test q (attr_reset p m) \<longleftrightarrow> attr_test q m \<and> q \<noteq> p"
proof -
  have none: "q \<noteq> col_attr_None \<longleftrightarrow> (\<exists>n. attr_bit q = Some n)" by (cases q) auto
  show "attr_test q (attr_set p m) \<longleftrightarrow> attr_test q m \<or> q = p \<and> q \<noteq> col_attr_None"
    using attr_bit_inj(1)[of q _ p] none by (auto simp: attr_test_bit attr_set_def bit_or_iff bit_column_attr_code)
  show "attr_test q (attr_reset p m) \<longleftrightarrow> attr_test q m \<and> q \<noteq> p"
    using attr_bit_inj(1)[of q _ p] attr_bit_inj(2)[of q]
    by (auto simp: attr_test_bit attr_reset_def bit_and_iff bit_not_iff bit_column_attr_code)
qed

section \<open>Table keys\<close>

type_synonym table_key = "32 word"

definition null_table_key :: table_key where
  "null_table_key = drop_bit 1 (- 1)"

definition tk_eq :: "table_key \<Rightarrow> table_key \<Rightarrow> bool" where "tk_eq a b \<longleftrightarrow> a = b"
definition tk_ne :: "table_key \<Rightarrow> table_key \<Rightarrow> bool" where "tk_ne a b \<longleftrightarrow> a \<noteq> b"
definition tk_less :: "table_key \<Rightarrow> table_key \<Rightarrow> bool" where "tk_less a b \<longleftrightarrow> a < b"
definition tk_bool :: "table_key \<Rightarrow> bool" where "tk_bool a \<longleftrightarrow> a \<noteq> null_table_key"

section \<open>Column keys\<close>

type_synonym col_key = "64 word"

definition null_col_key :: col_key where
  "null_col_key = drop_bit 1 (- 1)"

definition make_col_key :: "32 word \<Rightarrow> 32 word \<Rightarrow> attr_mask \<Rightarrow> 32 word \<Rightarrow> col_key" where
  "make_col_key index type attrs tag =
     (ucast index AND 0xFFFF) OR push_bit 16 (scast type AND 0x3F) OR push_bit 22 (scast attrs AND 0xFF)
     OR push_bit 30 (ucast tag AND 0xFFFFFFFF)"

definition ck_eq :: "col_key \<Rightarrow> col_key \<Rightarrow> bool" where "ck_eq a b \<longleftrightarrow> a = b"
definition ck_ne :: "col_key \<Rightarrow> col_key \<Rightarrow> bool" where "ck_ne a b \<longleftrightarrow> a \<noteq> b"
definition ck_less :: "col_key \<Rightarrow> col_key \<Rightarrow> bool" where "ck_less a b \<longleftrightarrow> sint a < sint b"
definition ck_greater :: "col_key \<Rightarrow> col_key \<Rightarrow> bool" where "ck_greater a b \<longleftrightarrow> sint a > sint b"
definition ck_bool :: "col_key \<Rightarrow> bool" where "ck_bool a \<longleftrightarrow> a \<noteq> null_col_key"

definition get_index :: "col_key \<Rightarrow> 32 word" where
  "get_index key = ucast key AND 0xFFFF"

definition get_type :: "col_key \<Rightarrow> 32 word" where
  "get_type key = drop_bit 16 (ucast key) AND 0x3F"

definition get_attrs :: "col_key \<Rightarrow> attr_mask" where
  "get_attrs key = drop_bit 22 (ucast key) AND 0xFF"

text \<open>The shift of the signed value is arithmetic.\<close>

definition get_tag :: "col_key \<Rightarrow> 32 word" where
  "get_tag key = ucast (signed_drop_bit 30 key AND 0xFFFFFFFF)"

section \<open>Object keys\<close>

type_synonym obj_key = "64 word"

definition null_obj_key :: obj_key where
  "null_obj_key = - 1"

definition ok_eq_key :: "obj_key \<Rightarrow> obj_key \<Rightarrow> bool" where "ok_eq_key a b \<longleftrightarrow> a = b"
definition ok_ne_key :: "obj_key \<Rightarrow> obj_key \<Rightarrow> bool" where "ok_ne_key a b \<longleftrightarrow> a \<noteq> b"
definition ok_less_key :: "obj_key \<Rightarrow> obj_key \<Rightarrow> bool" where "ok_less_key a b \<longleftrightarrow> sint a < sint b"
definition ok_le_key :: "obj_key \<Rightarrow> obj_key \<Rightarrow> bool" where "ok_le_key a b \<longleftrightarrow> sint a \<le> sint b"
definition ok_greater_key :: "obj_key \<Rightarrow> obj_key \<Rightarrow> bool" where "ok_greater_key a b \<longleftrightarrow> sint a > sint b"
definition ok_ge_key :: "obj_key \<Rightarrow> obj_key \<Rightarrow> bool" where "ok_ge_key a b \<longleftrightarrow> sint a \<ge> sint b"
definition ok_bool_key :: "obj_key \<Rightarrow> bool" where "ok_bool_key a \<longleftrightarrow> a \<noteq> null_obj_key"

section \<open>Properties\<close>

lemma and_masks:
  "x AND 0xFFFF = take_bit 16 x" "x AND 0x3F = take_bit 6 x" "x AND 0xFF = take_bit 8 x" "x AND 0xFFFFFFFF = take_bit 32 x"
  "y AND 0xFFFF = take_bit 16 y" "y AND 0x3F = take_bit 6 y" "y AND 0xFF = take_bit 8 y"
  for x :: "64 word" and y :: "32 word"
  by (simp_all only: take_bit_eq_mask) (simp_all add: mask_eq_exp_minus_1)

lemma bit_make_col_key:
  "bit (make_col_key index type attrs tag) n \<longleftrightarrow>
     (if n < 16 then bit index n else if n < 22 then bit type (n - 16) else if n < 30 then bit attrs (n - 22)
      else n < 62 \<and> bit tag (n - 30))"
proof -
  have "bit tag (n - 30) \<Longrightarrow> n < 62" using bit_imp_le_length[of tag "n - 30"] by simp
  then show ?thesis
    unfolding make_col_key_def and_masks bit_or_iff bit_push_bit_iff bit_take_bit_iff bit_ucast_iff bit_signed_iff
    by (auto simp: min_def)
qed

lemma col_key_fields:
  "get_index (make_col_key index type attrs tag) = take_bit 16 index"
  "get_type (make_col_key index type attrs tag) = take_bit 6 type"
  "get_attrs (make_col_key index type attrs tag) = take_bit 8 attrs"
  "get_tag (make_col_key index type attrs tag) = tag"
proof -
  show "get_index (make_col_key index type attrs tag) = take_bit 16 index"
    "get_type (make_col_key index type attrs tag) = take_bit 6 type"
    "get_attrs (make_col_key index type attrs tag) = take_bit 8 attrs"
    by (rule bit_word_eqI;
        simp add: get_index_def get_type_def get_attrs_def and_masks bit_take_bit_iff bit_ucast_iff bit_drop_bit_eq bit_make_col_key; fail)+
  show "get_tag (make_col_key index type attrs tag) = tag"
    by (rule bit_word_eqI)
      (auto simp: get_tag_def and_masks bit_take_bit_iff bit_ucast_iff bit_signed_drop_bit_iff bit_make_col_key)
qed

lemma make_col_key_not_null: "make_col_key index type attrs tag \<noteq> null_col_key" "0 \<le> sint (make_col_key index type attrs tag)"
proof -
  have "bit null_col_key 62" unfolding null_col_key_def bit_drop_bit_eq by simp
  moreover have "\<not> bit (make_col_key index type attrs tag) 62" by (simp add: bit_make_col_key)
  ultimately show "make_col_key index type attrs tag \<noteq> null_col_key" by auto
  have "\<not> bit (make_col_key index type attrs tag) 63" by (simp add: bit_make_col_key)
  then show "0 \<le> sint (make_col_key index type attrs tag)"
    by (simp add: sint_uint signed_take_bit_nonnegative_iff bit_uint_iff)
qed

lemma take_bit_word_below: "x < 2 ^ n \<Longrightarrow> n < LENGTH('a) \<Longrightarrow> take_bit n x = x" for x :: "'a::len word"
  by (simp add: take_bit_eq_mask mask_eq_iff word_2p_lem wsst_TYs)

text \<open>A column key holds its index, type, attributes and tag: each is read back as it was
  packed when it is in its range (16, 6, 8 and 32 bits), two keys are equal exactly when all four
  are, and no packed key is the null key or negative.\<close>

theorem column_key_roundtrip:
  assumes "i < 2 ^ 16" "t < 2 ^ 6" "a < 2 ^ 8"
  shows "get_index (make_col_key i t a g) = i \<and> get_type (make_col_key i t a g) = t \<and>
    get_attrs (make_col_key i t a g) = a \<and> get_tag (make_col_key i t a g) = g \<and>
    ck_bool (make_col_key i t a g) \<and> 0 \<le> sint (make_col_key i t a g)"
proof -
  have "take_bit 16 i = i" "take_bit 6 t = t" "take_bit 8 a = a"
    using assms by (auto intro!: take_bit_word_below)
  then show ?thesis using make_col_key_not_null by (simp add: col_key_fields ck_bool_def)
qed

theorem column_key_roundtrip_witness:
  "get_index (make_col_key 3 (column_type_code col_type_Link) (attr_set col_attr_Nullable no_attrs) 77) = 3 \<and>
   get_type (make_col_key 3 (column_type_code col_type_Link) (attr_set col_attr_Nullable no_attrs) 77) = 12 \<and>
   get_tag (make_col_key 3 (column_type_code col_type_Link) (attr_set col_attr_Nullable no_attrs) 77) = 77"
  using column_key_roundtrip[of 3 12 "attr_set col_attr_Nullable no_attrs" 77]
  by (simp add: attr_set_def no_attrs_def)

text \<open>The attributes of a column are a set: setting, clearing and testing an attribute affect
  that attribute alone; \<open>col_attr_None\<close> is never in it.\<close>

theorem attribute_mask_is_set:
  "attrs_of no_attrs = {} \<and> attrs_of (attr_set p m) = attrs_of m \<union> ({p} - {col_attr_None}) \<and>
   attrs_of (attr_reset p m) = attrs_of m - {p} \<and> (attr_test p m = (p \<in> attrs_of m))"
  using attr_test_change by (auto simp: attrs_of_def) (auto simp: attr_test_def no_attrs_def)

end
