(* ===== verification/NotifierCallbacks.thy ===== *)
theory NotifierCallbacks
  imports CollectionChange Exceptions "HOL-Library.Word"
begin

text \<open>
  The registered callbacks of a \<open>CollectionNotifier\<close> (impl/collection_notifier.cpp and .hpp): adding,
  removing and suppressing callbacks, accumulating changes for them, and calling them.

  A callback is called with the mutex released, so that other code (the callback itself, and other
  threads) can use the notifier before the next callback is called. What it does during the calls of
  one delivery is a list with the operations during the first call, those during the second, and so on;
  after its end nothing happens any more. Callbacks that throw are not modelled.
  \<open>None\<close> is a failed assertion or an access out of range. The \<open>size_t\<close> and \<open>uint64_t\<close> members
  are words of 64 bits.
\<close>

section \<open>Data\<close>

record 'f notifier_callback =
  fn :: 'f
  accumulated_changes :: change_builder
  changes_to_deliver :: change_set
  token :: "64 word"
  initial_delivered :: bool
  skip_next :: bool

text \<open>
  \<open>realm_set\<close> and \<open>transaction_set\<close> tell whether \<open>m_realm\<close> and \<open>m_sg\<close> are not null;
  \<open>wake_ups\<close> counts the calls of \<open>wake_up_notifier_worker\<close>.
\<close>

record 'f notifier =
  callbacks :: "'f notifier_callback list"
  have_callbacks :: bool
  callback_index :: "64 word"
  callback_count :: "64 word"
  next_token :: "64 word"
  in_error :: bool
  has_run :: bool
  realm_set :: bool
  transaction_set :: bool
  sg_version :: nat
  pending_change :: change_builder
  wake_ups :: nat

text \<open>\<open>util::npos\<close> as a word.\<close>

definition no_index :: "64 word" where
  "no_index = - 1"

definition new_notifier :: "nat \<Rightarrow> 'f notifier" where
  "new_notifier version =
     \<lparr>callbacks = [], have_callbacks = False, callback_index = no_index, callback_count = no_index, next_token = 0,
      in_error = False, has_run = False, realm_set = True, transaction_set = False, sg_version = version,
      pending_change = empty_builder, wake_ups = 0\<rparr>"

definition empty_changes :: change_set where
  "empty_changes = \<lparr>deletions = [], insertions = [], modifications = [], modifications_new = [], moves = [], columns = []\<rparr>"

text \<open>What moving its sets and vectors out leaves of a builder.\<close>

definition moved_out :: "change_builder \<Rightarrow> change_builder" where
  "moved_out c = empty_builder\<lparr>track_columns := track_columns c\<rparr>"

section \<open>Registration\<close>

text \<open>The realm of the notifier is on the thread of the caller (\<open>on_thread\<close>) or not.\<close>

definition verify_thread :: "bool \<Rightarrow> unit action" where
  "verify_thread on_thread = (if on_thread then ok () else throw IncorrectThread)"

definition verify_in_write :: "bool \<Rightarrow> unit action" where
  "verify_in_write in_write = (if in_write then ok () else throw InvalidTransaction)"

definition add_callback :: "bool \<Rightarrow> 'f \<Rightarrow> 'f notifier \<Rightarrow> (64 word \<times> 'f notifier) action" where
  "add_callback on_thread f n =
     andthen (lift (realm_assert (realm_set n))) (\<lambda>_.
     andthen (verify_thread on_thread) (\<lambda>_.
       let tok = next_token n;
           n = n\<lparr>next_token := tok + 1,
                 callbacks := callbacks n @ [\<lparr>fn = f, accumulated_changes = empty_builder,
                   changes_to_deliver = empty_changes, token = tok, initial_delivered = False, skip_next = False\<rparr>]\<rparr>
       in ok (tok, if callback_index n = no_index then n\<lparr>wake_ups := wake_ups n + 1, have_callbacks := True\<rparr> else n)))"

text \<open>The position of a token; the length of the list where there is none.\<close>

definition find_callback :: "64 word \<Rightarrow> 'f notifier \<Rightarrow> nat option" where
  "find_callback tok n =
     do {
       realm_assert (in_error n \<or> callbacks n \<noteq> []);
       let i = find_if_from 0 (\<lambda>c. token c = tok) (callbacks n);
       realm_assert (in_error n \<or> i \<noteq> length (callbacks n));
       Some i
     }"

definition remove_callback :: "64 word \<Rightarrow> 'f notifier \<Rightarrow> 'f notifier option" where
  "remove_callback tok n =
     do {
       idx \<leftarrow> find_callback tok n;
       if idx = length (callbacks n) then Some n
       else
         let n = (if callback_index n \<noteq> no_index \<and> callback_index n \<ge> of_nat idx
                  then n\<lparr>callback_index := callback_index n - 1\<rparr> else n);
             n = n\<lparr>callback_count := callback_count n - 1\<rparr>;
             n = n\<lparr>callbacks := take idx (callbacks n) @ drop (idx + 1) (callbacks n)\<rparr>
         in Some (n\<lparr>have_callbacks := callbacks n \<noteq> []\<rparr>)
     }"

definition suppress_next_notification :: "bool \<Rightarrow> bool \<Rightarrow> 64 word \<Rightarrow> 'f notifier \<Rightarrow> 'f notifier action" where
  "suppress_next_notification on_thread in_write tok n =
     andthen (lift (realm_assert (realm_set n))) (\<lambda>_.
     andthen (verify_thread on_thread) (\<lambda>_.
     andthen (verify_in_write in_write) (\<lambda>_.
     andthen (lift (find_callback tok n)) (\<lambda>i.
       ok (if i \<noteq> length (callbacks n)
           then n\<lparr>callbacks := (callbacks n)[i := (callbacks n ! i)\<lparr>skip_next := True\<rparr>]\<rparr> else n)))))"

definition unregister :: "'f notifier \<Rightarrow> 'f notifier" where
  "unregister n = n\<lparr>realm_set := False\<rparr>"

section \<open>Accumulating changes\<close>

text \<open>The last callback gets the change set itself, the others copies of it.\<close>

fun add_changes_to :: "change_builder \<Rightarrow> 'f notifier_callback list \<Rightarrow> 'f notifier_callback list option" where
  "add_changes_to change [] = Some []"
| "add_changes_to change (c # cs) =
     do {
       c \<leftarrow> if skip_next c then Some (c\<lparr>skip_next := False\<rparr>)
           else map_option (\<lambda>acc. c\<lparr>accumulated_changes := acc\<rparr>) (cb_merge (accumulated_changes c) change);
       cs \<leftarrow> add_changes_to change cs;
       Some (c # cs)
     }"

definition add_changes :: "change_builder \<Rightarrow> 'f notifier \<Rightarrow> 'f notifier option" where
  "add_changes change n = map_option (\<lambda>cs. n\<lparr>callbacks := cs\<rparr>) (add_changes_to change (callbacks n))"

text \<open>\<open>prepare_handover\<close>, at the version of the transaction; \<open>do_prepare_handover\<close> of a subclass is not part of it.\<close>

definition prepare_handover :: "nat \<Rightarrow> 'f notifier \<Rightarrow> 'f notifier option" where
  "prepare_handover version n =
     do {
       realm_assert (transaction_set n);
       let n = n\<lparr>sg_version := version\<rparr>;
       n' \<leftarrow> add_changes (pending_change n) n;
       let n' = n'\<lparr>pending_change := moved_out (pending_change n')\<rparr>;
       realm_assert (cs_empty (pending_change n'));
       Some (n'\<lparr>has_run := True\<rparr>)
     }"

text \<open>\<open>prepared\<close> is the result of \<open>prepare_to_deliver\<close> of the subclass.\<close>

fun finalize_all :: "'f notifier_callback list \<Rightarrow> 'f notifier_callback list option" where
  "finalize_all [] = Some []"
| "finalize_all (c # cs) =
     do {
       changes \<leftarrow> cb_finalize (accumulated_changes c);
       cs \<leftarrow> finalize_all cs;
       Some (c\<lparr>changes_to_deliver := changes, accumulated_changes := moved_out (accumulated_changes c)\<rparr> # cs)
     }"

definition package_for_delivery :: "bool \<Rightarrow> 'f notifier \<Rightarrow> (bool \<times> 'f notifier) option" where
  "package_for_delivery prepared n =
     (if \<not> prepared then Some (False, n)
      else do {
        cs \<leftarrow> finalize_all (callbacks n);
        Some (True, n\<lparr>callbacks := cs, callback_count := of_nat (length cs)\<rparr>)
      })"

section \<open>Delivery\<close>

text \<open>What other code does while the mutex is released; an exception goes to that code.\<close>

datatype 'f operation = Add bool 'f | Remove "64 word" | Suppress bool bool "64 word"

definition attempt :: "('a \<Rightarrow> 's) \<Rightarrow> 's \<Rightarrow> 'a action \<Rightarrow> 's option" where
  "attempt f s m = map_option (case_sum (\<lambda>e. s) f) m"

fun operate :: "'f operation \<Rightarrow> 'f notifier \<Rightarrow> 'f notifier option" where
  "operate (Add on_thread f) n = attempt snd n (add_callback on_thread f n)"
| "operate (Remove tok) n = remove_callback tok n"
| "operate (Suppress on_thread in_write tok) n = attempt (\<lambda>n. n) n (suppress_next_notification on_thread in_write tok n)"

fun operate_all :: "'f operation list \<Rightarrow> 'f notifier \<Rightarrow> 'f notifier option" where
  "operate_all [] n = Some n"
| "operate_all (p # ps) n = do { n \<leftarrow> operate p n; operate_all ps n }"

text \<open>The calls of a \<open>CollectionChangeCallback\<close>.\<close>

datatype 'f callback_call = Call_before 'f change_set | Call_after 'f change_set | Call_error 'f

text \<open>
  The function given to \<open>for_each_callback\<close>: \<open>None\<close> where it returns without a call, else what it calls
  and what it makes of the entry before. \<open>once\<close>: it removes the callback after the call.
\<close>

type_synonym 'f visitor = "'f notifier_callback \<Rightarrow> ('f notifier_callback \<times> 'f callback_call) option"

fun first_ops :: "'f operation list list \<Rightarrow> 'f operation list" where
  "first_ops [] = []"
| "first_ops (ops # sched) = ops"

definition after_call :: "bool \<Rightarrow> 'f operation list list \<Rightarrow> 64 word \<Rightarrow> 'f notifier \<Rightarrow> 'f notifier option" where
  "after_call once sched tok n =
     do { n \<leftarrow> operate_all (first_ops sched) n; if once then remove_callback tok n else Some n }"

text \<open>
  The loop below ends: a call uses up a list of operations, and after the last one the number of places
  between index and count shrinks, also where the called callback is removed.
\<close>

lemma index_after:
  fixes i :: "64 word"
  assumes "i < c"
  shows "unat c - unat (i + 1) < unat c - unat i" "unat (c - 1) - unat (i + 1) < unat c - unat i"
    "unat (c - 1) - unat i < unat c - unat i"
proof -
  have "unat (i + 1) = unat i + 1" using assms by unat_arith
  moreover have "unat (c - 1) = unat c - 1" using assms by unat_arith
  moreover have "unat i < unat c" using assms by unat_arith
  ultimately show "unat c - unat (i + 1) < unat c - unat i" "unat (c - 1) - unat (i + 1) < unat c - unat i"
    "unat (c - 1) - unat i < unat c - unat i" by simp_all
qed

lemma after_call_shrinks:
  assumes "after_call once [] tok n = Some n'" "callback_index n < callback_count n"
  shows "unat (callback_count n') - unat (callback_index n' + 1) < unat (callback_count n) - unat (callback_index n)"
  using assms index_after[OF assms(2)]
  by (auto simp: after_call_def remove_callback_def Let_def split: if_splits Option.bind_splits)

function visit_from :: "'f visitor \<Rightarrow> bool \<Rightarrow> 'f operation list list \<Rightarrow> 'f notifier \<Rightarrow>
    ((64 word \<times> 'f callback_call) list \<times> 'f notifier) option" where
  "visit_from visit once sched n =
     (if callback_index n < callback_count n then
        if unat (callback_index n) < length (callbacks n) then
          case visit (callbacks n ! unat (callback_index n)) of
            None \<Rightarrow> visit_from visit once sched (n\<lparr>callback_index := callback_index n + 1\<rparr>)
          | Some (cb, call) \<Rightarrow> do {
              n \<leftarrow> after_call once sched (token cb) (n\<lparr>callbacks := (callbacks n)[unat (callback_index n) := cb]\<rparr>);
              (calls, n) \<leftarrow> visit_from visit once (tl sched) (n\<lparr>callback_index := callback_index n + 1\<rparr>);
              Some ((token cb, call) # calls, n)
            }
        else None
      else Some ([], n\<lparr>callback_index := no_index\<rparr>))"
  by pat_completeness auto

termination
proof (relation "measures [\<lambda>(v, once, sched, n). length sched,
    \<lambda>(v, once, sched, n). unat (callback_count n) - unat (callback_index n)]", goal_cases)
  case 1
  show ?case by simp
next
  case (2 visit once sched n)
  then show ?case using index_after(1)[OF 2(1)] by simp
next
  case (3 visit once sched n p cb call n')
  let ?m = "n\<lparr>callbacks := (callbacks n)[unat (callback_index n) := cb]\<rparr>"
  have "unat (callback_count n') - unat (callback_index n' + 1) < unat (callback_count n) - unat (callback_index n)"
    if "sched = []" using after_call_shrinks[of once "token cb" ?m n'] 3 that by simp
  then show ?case by (cases sched) auto
qed

declare visit_from.simps [simp del]

definition for_each_callback :: "'f visitor \<Rightarrow> bool \<Rightarrow> 'f operation list list \<Rightarrow> 'f notifier \<Rightarrow>
    ((64 word \<times> 'f callback_call) list \<times> 'f notifier) option" where
  "for_each_callback visit once sched n = visit_from visit once sched (n\<lparr>callback_index := callback_index n + 1\<rparr>)"

definition before_visitor :: "'f visitor" where
  "before_visitor cb =
     (if cs_empty (changes_to_deliver cb) then None else Some (cb, Call_before (fn cb) (changes_to_deliver cb)))"

definition after_visitor :: "'f visitor" where
  "after_visitor cb =
     (if initial_delivered cb \<and> cs_empty (changes_to_deliver cb) then None
      else Some (cb\<lparr>initial_delivered := True, changes_to_deliver := empty_changes\<rparr>,
                 Call_after (fn cb) (changes_to_deliver cb)))"

definition error_visitor :: "'f visitor" where
  "error_visitor cb = Some (cb, Call_error (fn cb))"

definition before_advance :: "'f operation list list \<Rightarrow> 'f notifier \<Rightarrow> ((64 word \<times> 'f callback_call) list \<times> 'f notifier) option" where
  "before_advance sched n = for_each_callback before_visitor False sched n"

definition after_advance :: "'f operation list list \<Rightarrow> 'f notifier \<Rightarrow> ((64 word \<times> 'f callback_call) list \<times> 'f notifier) option" where
  "after_advance sched n = for_each_callback after_visitor False sched n"

definition deliver_error :: "'f operation list list \<Rightarrow> 'f notifier \<Rightarrow> ((64 word \<times> 'f callback_call) list \<times> 'f notifier) option" where
  "deliver_error sched n =
     (let n = n\<lparr>in_error := True\<rparr>; n = n\<lparr>callback_count := of_nat (length (callbacks n))\<rparr>
      in for_each_callback error_visitor True sched n)"

end
