(* ===== verification/NotifierCallbacksCorrect.thy ===== *)
theory NotifierCallbacksCorrect
  imports NotifierCallbacks "HOL-Library.Sublist"
begin

text \<open>
  Delivery is correct for other code that removes only callbacks the delivery was packaged with: each
  packaged callback is called once, in the order of registration, if it is still registered when its turn
  comes and has something to be told.
\<close>

section \<open>Operations of other code during a delivery\<close>

text \<open>
  \<open>uses E P ops\<close>: the operations remove and suppress only callbacks of \<open>P\<close>, each as long as it is
  registered, and those of \<open>E\<close> at any time. \<open>removals\<close> are the removed tokens, \<open>additions\<close> the number of attempts to add a callback.
\<close>

fun uses :: "64 word set \<Rightarrow> 64 word set \<Rightarrow> 'f operation list \<Rightarrow> bool" where
  "uses E P [] \<longleftrightarrow> True"
| "uses E P (Add on_thread f # ops) \<longleftrightarrow> uses E P ops"
| "uses E P (Remove tok # ops) \<longleftrightarrow> tok \<in> P \<union> E \<and> uses E (P - {tok}) ops"
| "uses E P (Suppress on_thread in_write tok # ops) \<longleftrightarrow> tok \<in> P \<union> E \<and> uses E P ops"

fun removals :: "'f operation list \<Rightarrow> 64 word set" where
  "removals [] = {}"
| "removals (Add on_thread f # ops) = removals ops"
| "removals (Remove tok # ops) = insert tok (removals ops)"
| "removals (Suppress on_thread in_write tok # ops) = removals ops"

fun additions :: "'f operation list \<Rightarrow> nat" where
  "additions [] = 0"
| "additions (Add on_thread f # ops) = Suc (additions ops)"
| "additions (Remove tok # ops) = additions ops"
| "additions (Suppress on_thread in_write tok # ops) = additions ops"

lemma removals_append [simp]: "removals (ops @ ops') = removals ops \<union> removals ops'"
  by (induction ops rule: removals.induct) auto

lemma additions_append [simp]: "additions (ops @ ops') = additions ops + additions ops'"
  by (induction ops rule: additions.induct) auto

lemma uses_append: "uses E P (ops @ ops') \<longleftrightarrow> uses E P ops \<and> uses E (P - removals ops) ops'"
proof (induction E P ops rule: uses.induct)
  case (3 E P tok ops)
  have "P - {tok} - removals ops = P - insert tok (removals ops)" by blast
  then show ?case using 3 by simp
qed auto

lemma uses_less: "uses E P ops \<Longrightarrow> P - Q \<subseteq> E \<Longrightarrow> uses E Q ops"
proof (induction E P ops arbitrary: Q rule: uses.induct)
  case (3 E P tok ops)
  have "P - {tok} - (Q - {tok}) \<subseteq> E" using 3(3) by blast
  then show ?case using 3 by auto
qed auto

section \<open>Entries that differ in the suppression only\<close>

definition like :: "'f notifier_callback \<Rightarrow> 'f notifier_callback \<Rightarrow> bool" where
  "like c c' \<longleftrightarrow> (\<exists>b. c' = c\<lparr>skip_next := b\<rparr>)"

lemma like_refl [simp, intro]: "like c c"
  unfolding like_def by (rule exI[of _ "skip_next c"]) simp

lemma like_trans: "like c c' \<Longrightarrow> like c' c'' \<Longrightarrow> like c c''"
  by (auto simp: like_def)

lemma like_skip [simp, intro]: "like c (c\<lparr>skip_next := b\<rparr>)"
  by (auto simp: like_def)

lemma like_fields: "like c c' \<Longrightarrow> fn c' = fn c \<and> token c' = token c \<and> changes_to_deliver c' = changes_to_deliver c \<and>
    initial_delivered c' = initial_delivered c \<and> accumulated_changes c' = accumulated_changes c"
  by (auto simp: like_def)

abbreviation likes :: "'f notifier_callback list \<Rightarrow> 'f notifier_callback list \<Rightarrow> bool" where
  "likes \<equiv> list_all2 like"

lemma likes_refl [simp, intro]: "likes cs cs"
  by (simp add: list_all2_refl)

lemma likes_trans: "likes cs cs' \<Longrightarrow> likes cs' cs'' \<Longrightarrow> likes cs cs''"
  using list_all2_trans[of like like like cs cs' cs''] like_trans by blast

lemma likes_tokens: "likes cs cs' \<Longrightarrow> map token cs' = map token cs"
  by (induction rule: list_all2_induct) (auto dest: like_fields)

lemma likes_token_set: "likes cs cs' \<Longrightarrow> token ` set cs' = token ` set cs"
  using likes_tokens[of cs cs'] by (metis set_map)

lemma likes_filter: "likes cs cs' \<Longrightarrow> likes (filter (\<lambda>c. p (token c)) cs) (filter (\<lambda>c. p (token c)) cs')"
  by (induction rule: list_all2_induct) (auto dest: like_fields)

section \<open>Finding and removing an entry\<close>

definition without :: "64 word set \<Rightarrow> 'f notifier_callback list \<Rightarrow> 'f notifier_callback list" where
  "without S cs = filter (\<lambda>c. token c \<notin> S) cs"

lemma without_empty [simp]: "without {} cs = cs"
  by (simp add: without_def)

lemma without_Nil [simp]: "without S [] = []"
  by (simp add: without_def)

lemma without_append [simp]: "without S (cs @ cs') = without S cs @ without S cs'"
  by (simp add: without_def)

lemma without_without [simp]: "without S (without T cs) = without (T \<union> S) cs"
  by (simp add: without_def conj_commute)

lemma without_other: "S \<inter> token ` set cs = {} \<Longrightarrow> without S cs = cs"
  by (auto simp: without_def filter_id_conv)

lemma token_without [simp]: "token ` set (without S cs) = token ` set cs - S"
  by (auto simp: without_def)

lemma likes_without: "likes cs cs' \<Longrightarrow> likes (without S cs) (without S cs')"
  unfolding without_def by (rule likes_filter)

lemma distinct_without: "distinct (map token cs) \<Longrightarrow> distinct (map token (without S cs))"
  by (simp add: without_def distinct_map_filter)

lemma find_token:
  assumes "tok \<in> token ` set cs" "distinct (map token cs)"
  shows "\<exists>i<length cs. find_if_from 0 (\<lambda>c. token c = tok) cs = i \<and> token (cs ! i) = tok \<and>
    take i cs @ drop (i + 1) cs = without {tok} cs"
  using assms
proof (induction cs)
  case (Cons c cs)
  show ?case
  proof (cases "token c = tok")
    case True
    then have "without {tok} cs = cs" using Cons.prems(2) by (intro without_other) auto
    then show ?thesis using True by (intro exI[of _ 0]) (simp add: find_if_from_def without_def)
  next
    case False
    then obtain i where "i < length cs" "find_if_from 0 (\<lambda>c. token c = tok) cs = i" "token (cs ! i) = tok"
      "take i cs @ drop (i + 1) cs = without {tok} cs" using Cons by auto
    then show ?thesis using False by (intro exI[of _ "i + 1"]) (simp add: find_if_from_def without_def)
  qed
qed simp

lemma find_callback_present:
  assumes "tok \<in> token ` set (callbacks n)" "distinct (map token (callbacks n))"
  obtains i where "find_callback tok n = Some i" "i < length (callbacks n)" "token (callbacks n ! i) = tok"
    "take i (callbacks n) @ drop (i + 1) (callbacks n) = without {tok} (callbacks n)"
proof -
  obtain i where i: "i < length (callbacks n)" "find_if_from 0 (\<lambda>c. token c = tok) (callbacks n) = i"
    "token (callbacks n ! i) = tok" "take i (callbacks n) @ drop (i + 1) (callbacks n) = without {tok} (callbacks n)"
    using find_token[OF assms] by blast
  then have "find_callback tok n = Some i" by (auto simp: find_callback_def realm_assert_def)
  then show thesis using that i by blast
qed

lemma find_callback_absent:
  assumes "in_error n" "tok \<notin> token ` set (callbacks n)"
  shows "find_callback tok n = Some (length (callbacks n))"
proof -
  have "takeWhile (\<lambda>c. token c \<noteq> tok) (callbacks n) = callbacks n" using assms(2) by (auto simp: takeWhile_eq_all_conv)
  then have "length (takeWhile (\<lambda>c. token c \<noteq> tok) (callbacks n)) = length (callbacks n)" by (simp only:)
  then show ?thesis using assms(1) by (simp add: find_callback_def realm_assert_def find_if_from_def)
qed

section \<open>The stage of a delivery\<close>

text \<open>
  In the middle of a delivery the entries are those whose turn is over (the current one included), those that are
  still to come, and those that were added; the index is one less than the number of the first ones, and
  the count the number of the first two. \<open>room\<close> callbacks can be added before the tokens wrap around.
  \<open>E\<close> are tokens that may belong to callbacks removed because of an error.
\<close>

definition stage :: "64 word set \<Rightarrow> nat \<Rightarrow> 'f notifier_callback list \<Rightarrow> 'f notifier_callback list \<Rightarrow> 'f notifier_callback list \<Rightarrow>
    'f notifier \<Rightarrow> bool" where
  "stage E room dn td ad n \<longleftrightarrow> callbacks n = dn @ td @ ad \<and> callback_index n = of_nat (length dn) - 1 \<and>
     callback_count n = of_nat (length dn + length td) \<and> distinct (map token (callbacks n)) \<and>
     (\<forall>c\<in>set (callbacks n). token c < next_token n) \<and> unat (next_token n) + room < 2 ^ 64 \<and>
     (have_callbacks n \<longleftrightarrow> callbacks n \<noteq> []) \<and> realm_set n \<and>
     (E \<noteq> {} \<longrightarrow> in_error n) \<and> E \<inter> token ` set ad = {} \<and> (\<forall>t\<in>E. t < next_token n)"

lemma distinct_words_bound:
  fixes ws :: "64 word list"
  assumes "distinct ws" "\<forall>w\<in>set ws. w < v"
  shows "length ws \<le> unat v"
proof -
  have "unat ` set ws \<subseteq> {..<unat v}" using assms(2) by (auto simp: word_less_nat_alt)
  then have "card (unat ` set ws) \<le> unat v" using card_mono[of "{..<unat v}"] by simp
  moreover have "card (unat ` set ws) = length ws"
    using assms(1) card_image[of unat "set ws"] by (simp add: inj_on_def word_unat_eq_iff[symmetric] distinct_card)
  ultimately show ?thesis by simp
qed

lemma stage_length:
  assumes "stage E room dn td ad n"
  shows "length dn + length td + length ad + room < 2 ^ 64"
  using distinct_words_bound[of "map token (callbacks n)" "next_token n"] assms by (auto simp: stage_def)

lemma length_without_one:
  assumes "tok \<in> token ` set cs" "distinct (map token cs)"
  shows "length cs = Suc (length (without {tok} cs))"
proof -
  obtain i where "i < length cs" "take i cs @ drop (i + 1) cs = without {tok} cs"
    using find_token[OF assms] by blast
  then have "length (without {tok} cs) = length (take i cs @ drop (i + 1) cs)" by (simp only:)
  then show ?thesis using \<open>i < length cs\<close> by simp
qed

lemma position_in_front:
  assumes "distinct (map token (cs @ ds))" "i < length (cs @ ds)" "token ((cs @ ds) ! i) = tok"
  shows "i < length cs \<longleftrightarrow> tok \<in> token ` set cs"
proof
  show "tok \<in> token ` set cs" if "i < length cs" using that assms(3) by (auto simp: nth_append)
  show "i < length cs" if "tok \<in> token ` set cs"
  proof (rule ccontr)
    assume "\<not> i < length cs"
    then have "tok \<in> token ` set ds" using assms(2,3) by (auto simp: nth_append)
    then show False using that assms(1) by auto
  qed
qed

text \<open>Removing steps the index back exactly if the turn of the callback is over.\<close>

lemma remove_callback_eq:
  assumes "tok \<in> token ` set (callbacks n)" "distinct (map token (callbacks n))"
  obtains i where "i < length (callbacks n)" "token (callbacks n ! i) = tok"
    "remove_callback tok n = Some (n\<lparr>
       callback_index := (if callback_index n \<noteq> no_index \<and> callback_index n \<ge> of_nat i then callback_index n - 1 else callback_index n),
       callback_count := callback_count n - 1, callbacks := without {tok} (callbacks n),
       have_callbacks := without {tok} (callbacks n) \<noteq> []\<rparr>)"
proof -
  obtain i where i: "find_callback tok n = Some i" "i < length (callbacks n)" "token (callbacks n ! i) = tok"
    "take i (callbacks n) @ drop (i + 1) (callbacks n) = without {tok} (callbacks n)"
    using find_callback_present[OF assms] .
  show thesis
    by (rule that[OF i(2,3)])
      (use i(2) in \<open>simp add: remove_callback_def Let_def i(1) i(4)[simplified] del: append_is_Nil_conv\<close>)
qed

lemma index_step:
  assumes "d < 2 ^ 64" "i < 2 ^ 64"
  shows "of_nat d - 1 \<noteq> no_index \<and> of_nat d - 1 \<ge> (of_nat i :: 64 word) \<longleftrightarrow> i < d"
proof (cases "d = 0")
  case True
  then show ?thesis by (simp add: no_index_def)
next
  case False
  then have d: "of_nat d - 1 = (of_nat (d - 1) :: 64 word)" by (simp add: of_nat_diff)
  have "(of_nat i :: 64 word) \<le> of_nat (d - 1) \<longleftrightarrow> i \<le> d - 1"
    using assms by (simp add: word_le_nat_alt unat_of_nat)
  moreover have "(of_nat (d - 1) :: 64 word) \<noteq> - 1"
  proof
    assume "(of_nat (d - 1) :: 64 word) = - 1"
    then have "(of_nat (Suc (d - 1)) :: 64 word) = 0" by simp
    then have "(of_nat d :: 64 word) = 0" using False by simp
    then have "unat (of_nat d :: 64 word) = 0" by simp
    then show False using False assms(1) by (simp add: unat_of_nat)
  qed
  moreover have "i \<le> d - 1 \<longleftrightarrow> i < d" using False by arith
  ultimately show ?thesis unfolding d no_index_def by blast
qed

lemma stageD:
  assumes "stage E room dn td ad n"
  shows "callbacks n = dn @ td @ ad" "callback_index n = of_nat (length dn) - 1"
    "callback_count n = of_nat (length dn + length td)" "distinct (map token (dn @ td @ ad))"
    "\<forall>c\<in>set (dn @ td @ ad). token c < next_token n" "unat (next_token n) + room < 2 ^ 64" "realm_set n"
    "E \<noteq> {} \<longrightarrow> in_error n" "E \<inter> token ` set ad = {}" "\<forall>t\<in>E. t < next_token n"
    "have_callbacks n \<longleftrightarrow> callbacks n \<noteq> []"
proof -
  show cb: "callbacks n = dn @ td @ ad" using assms unfolding stage_def by blast
  have "distinct (map token (callbacks n))" "\<forall>c\<in>set (callbacks n). token c < next_token n"
    using assms unfolding stage_def by blast+
  then show "distinct (map token (dn @ td @ ad))" "\<forall>c\<in>set (dn @ td @ ad). token c < next_token n"
    by (simp_all only: cb)
qed (use assms in \<open>auto simp: stage_def\<close>)

lemma remove_present:
  assumes "stage E room dn td ad n" "tok \<in> token ` set (dn @ td)"
  shows "returns (remove_callback tok n) (stage E room (without {tok} dn) (without {tok} td) ad)"
proof -
  note n = stageD[OF assms(1)]
  have small: "length dn + length td + length ad < 2 ^ 64" using stage_length[OF assms(1)] by simp
  obtain i where i: "i < length (callbacks n)" "token (callbacks n ! i) = tok"
    and r: "remove_callback tok n = Some (n\<lparr>
       callback_index := (if callback_index n \<noteq> no_index \<and> callback_index n \<ge> of_nat i then callback_index n - 1 else callback_index n),
       callback_count := callback_count n - 1, callbacks := without {tok} (callbacks n),
       have_callbacks := without {tok} (callbacks n) \<noteq> []\<rparr>)"
    using remove_callback_eq[of tok n] assms(2) n(1,4) by auto
  have front: "i < length dn \<longleftrightarrow> tok \<in> token ` set dn"
    using position_in_front[of dn "td @ ad" i tok] i n(1,4) by simp
  have step: "callback_index n \<noteq> no_index \<and> callback_index n \<ge> of_nat i \<longleftrightarrow> tok \<in> token ` set dn"
    unfolding n(2) front[symmetric] using small i(1) n(1) by (intro index_step) simp_all
  note r = r[unfolded step]
  have ad: "without {tok} ad = ad" using assms(2) n(4) by (intro without_other) auto
  have rest: "distinct (map token (without {tok} (dn @ td @ ad)))"
    by (rule distinct_without[OF n(4)])
  have bound: "\<forall>c\<in>set (without {tok} (dn @ td @ ad)). token c < next_token n"
    using n(5) by (auto simp: without_def)
  show ?thesis
  proof (cases "tok \<in> token ` set dn")
    case True
    then have "length dn = Suc (length (without {tok} dn))" "without {tok} td = td"
      using length_without_one[of tok dn] n(4) without_other[of "{tok}" td] by auto
    then show ?thesis using True n rest bound ad by (simp add: r stage_def)
  next
    case False
    then have "length td = Suc (length (without {tok} td))" "without {tok} dn = dn"
      using length_without_one[of tok td] assms(2) n(4) without_other[of "{tok}" dn] by auto
    then show ?thesis using False n rest bound ad by (simp add: r stage_def)
  qed
qed

lemma remove_stage:
  assumes "stage E room dn td ad n" "tok \<in> token ` set (dn @ td) \<union> E"
  shows "returns (remove_callback tok n) (stage E room (without {tok} dn) (without {tok} td) ad)"
proof (cases "tok \<in> token ` set (dn @ td)")
  case True
  then show ?thesis by (rule remove_present[OF assms(1)])
next
  case False
  note n = stageD[OF assms(1)]
  have "in_error n" "tok \<notin> token ` set (callbacks n)" using False assms(2) n(1,8,9) by auto
  then have "remove_callback tok n = Some n" by (simp add: remove_callback_def find_callback_absent)
  moreover have "without {tok} dn = dn" "without {tok} td = td" using False by (auto intro!: without_other)
  ultimately show ?thesis using assms(1) by simp
qed

text \<open>An added callback comes last.\<close>

lemma stage_less_room: "stage E (Suc room) dn td ad n \<Longrightarrow> stage E room dn td ad n"
  unfolding stage_def by (elim conjE, intro conjI) (assumption | simp)+

lemma word_next:
  fixes v :: "64 word"
  assumes "unat v + 1 < 2 ^ 64"
  shows "unat (v + 1) = unat v + 1" "v < v + 1"
proof -
  show "unat (v + 1) = unat v + 1" using assms by (simp add: unat_word_ariths)
  then show "v < v + 1" by (simp add: word_less_nat_alt)
qed

lemma add_stage:
  assumes "stage E (Suc room) dn td ad n"
  shows "\<exists>ad' n'. attempt snd n (add_callback on_thread f n) = Some n' \<and> stage E room dn td (ad @ ad') n' \<and>
    token ` set ad' \<subseteq> {next_token n..} \<and> next_token n \<le> next_token n' \<and> (on_thread \<longrightarrow> next_token n \<in> token ` set ad')"
proof (cases on_thread)
  case False
  then have "attempt snd n (add_callback on_thread f n) = Some n"
    using assms by (simp add: attempt_def add_callback_def verify_thread_def stage_def realm_assert_def throw_def)
  then show ?thesis using stage_less_room[OF assms] False by (intro exI[of _ "[]"] exI[of _ n]) simp
next
  case True
  define cb where "cb = \<lparr>fn = f, accumulated_changes = empty_builder, changes_to_deliver = empty_changes,
    token = next_token n, initial_delivered = False, skip_next = False\<rparr>"
  define n' where "n' = snd (next_token n, if callback_index n = no_index
    then n\<lparr>next_token := next_token n + 1, callbacks := callbacks n @ [cb], wake_ups := wake_ups n + 1, have_callbacks := True\<rparr>
    else n\<lparr>next_token := next_token n + 1, callbacks := callbacks n @ [cb]\<rparr>)"
  note n = stageD[OF assms]
  note nx = word_next[of "next_token n"]
  have r: "attempt snd n (add_callback on_thread f n) = Some n'"
    using True n(7) by (simp add: attempt_def add_callback_def verify_thread_def realm_assert_def ok_def Let_def n'_def cb_def)
  have n': "callbacks n' = dn @ td @ ad @ [cb]" "callback_index n' = callback_index n" "callback_count n' = callback_count n"
    "next_token n' = next_token n + 1" "realm_set n'"
    using n by (simp_all add: n'_def)
  have "callback_index n \<noteq> no_index \<Longrightarrow> dn \<noteq> []" using n(2) by (auto simp: no_index_def)
  then have have': "have_callbacks n'" using assms n(1) by (auto simp: n'_def stage_def)
  have fresh: "\<forall>c\<in>set (dn @ td @ ad). token c < next_token n + 1" using n(5,6) nx by (auto intro: less_trans)
  have new: "token cb = next_token n" by (simp add: cb_def)
  have "token cb \<notin> token ` set (dn @ td @ ad)" using n(5) new by auto
  then have "distinct (map token (dn @ td @ ad @ [cb]))" using n(4) by auto
  moreover have "\<forall>c\<in>set (dn @ td @ ad @ [cb]). token c < next_token n + 1" using fresh nx(2) n(6) new by simp
  moreover have "unat (next_token n + 1) + room < 2 ^ 64" using nx(1) n(6) by simp
  moreover have "E \<noteq> {} \<longrightarrow> in_error n'" using n(8) by (simp add: n'_def)
  moreover have "E \<inter> token ` set (ad @ [cb]) = {}" "\<forall>t\<in>E. t < next_token n + 1"
    using n(9,10) new nx(2) n(6) by (auto intro: less_trans)
  ultimately have "stage E room dn td (ad @ [cb]) n'" using n' n(2,3) have' by (simp add: stage_def)
  then show ?thesis using r new nx n(6) n'(4)
    by (intro exI[of _ "[cb]"] exI[of _ n']) (simp add: order.strict_implies_order)
qed

lemma likes_update: "i < length cs \<Longrightarrow> likes cs (cs[i := (cs ! i)\<lparr>skip_next := b\<rparr>])"
  by (auto simp: list_all2_conv_all_nth nth_list_update)

lemma suppress_present:
  assumes "stage E room dn td ad n" "tok \<in> token ` set (dn @ td)"
  shows "\<exists>dn' td'. likes dn dn' \<and> likes td td' \<and>
    returns (attempt (\<lambda>n. n) n (suppress_next_notification on_thread in_write tok n)) (stage E room dn' td' ad)"
proof (cases "on_thread \<and> in_write")
  case False
  then have "attempt (\<lambda>n. n) n (suppress_next_notification on_thread in_write tok n) = Some n"
    using assms by (auto simp: attempt_def suppress_next_notification_def verify_thread_def verify_in_write_def
        stage_def realm_assert_def throw_def ok_def)
  then show ?thesis using assms(1) by (intro exI[of _ dn] exI[of _ td]) simp
next
  case True
  note n = stageD[OF assms(1)]
  obtain i where i: "find_callback tok n = Some i" "i < length (callbacks n)" "token (callbacks n ! i) = tok"
  proof -
    have "tok \<in> token ` set (callbacks n)" "distinct (map token (callbacks n))"
      using assms(2) n(1,4) by auto
    from find_callback_present[OF this] that show thesis by blast
  qed
  define cs where "cs = (callbacks n)[i := (callbacks n ! i)\<lparr>skip_next := True\<rparr>]"
  have r: "attempt (\<lambda>n. n) n (suppress_next_notification on_thread in_write tok n) = Some (n\<lparr>callbacks := cs\<rparr>)"
    using True i n(7) by (simp add: attempt_def suppress_next_notification_def verify_thread_def verify_in_write_def
        realm_assert_def ok_def cs_def)
  have front: "i < length (dn @ td)"
    using position_in_front[of "dn @ td" ad i tok] i(2,3) n(1,4) assms(2) by simp
  have like: "likes (callbacks n) cs" unfolding cs_def by (rule likes_update[OF i(2)])
  have cs: "cs = (dn @ td)[i := (callbacks n ! i)\<lparr>skip_next := True\<rparr>] @ ad"
    by (simp only: cs_def n(1) append_assoc[symmetric] list_update_append1[OF front])
  define dn' where "dn' = take (length dn) ((dn @ td)[i := (callbacks n ! i)\<lparr>skip_next := True\<rparr>])"
  define td' where "td' = drop (length dn) ((dn @ td)[i := (callbacks n ! i)\<lparr>skip_next := True\<rparr>])"
  have split: "cs = dn' @ td' @ ad" "length dn' = length dn" "length td' = length td"
    using cs by (simp_all add: dn'_def td'_def)
  have likes: "likes dn dn'" "likes td td'"
  proof -
    have "likes (dn @ td @ ad) (dn' @ td' @ ad)" using like by (simp only: split(1) n(1))
    then show "likes dn dn'" "likes td td'" using split(2,3) by (simp_all add: list_all2_append)
  qed
  have tokens: "map token cs = map token (callbacks n)" by (rule likes_tokens[OF like])
  then have "token ` set cs = token ` set (callbacks n)" by (metis set_map)
  then have "\<forall>c\<in>set cs. token c < next_token n" using n(5) n(1) by (metis imageE imageI)
  moreover have "distinct (map token cs)" using tokens n(1,4) by simp
  moreover have "dn' = [] \<longleftrightarrow> dn = []" "td' = [] \<longleftrightarrow> td = []" using split(2,3) by (metis length_0_conv)+
  ultimately have "stage E room dn' td' ad (n\<lparr>callbacks := cs\<rparr>)"
    using assms(1) split unfolding stage_def by (simp add: cs_def)
  then show ?thesis using likes r by (intro exI[of _ dn'] exI[of _ td']) simp
qed

lemma suppress_stage:
  assumes "stage E room dn td ad n" "tok \<in> token ` set (dn @ td) \<union> E"
  shows "\<exists>dn' td'. likes dn dn' \<and> likes td td' \<and>
    returns (attempt (\<lambda>n. n) n (suppress_next_notification on_thread in_write tok n)) (stage E room dn' td' ad)"
proof (cases "tok \<in> token ` set (dn @ td)")
  case True
  then show ?thesis by (rule suppress_present[OF assms(1)])
next
  case False
  note n = stageD[OF assms(1)]
  have "in_error n" "tok \<notin> token ` set (callbacks n)" using False assms(2) n(1,8,9) by auto
  then have "attempt (\<lambda>n. n) n (suppress_next_notification on_thread in_write tok n) = Some n"
    using n(7) by (auto simp: attempt_def suppress_next_notification_def verify_thread_def verify_in_write_def
        realm_assert_def throw_def ok_def lift_def find_callback_absent)
  then show ?thesis using assms(1) by (intro exI[of _ dn] exI[of _ td]) simp
qed

section \<open>A list of operations\<close>

text \<open>Where the operations of other code lead from a stage.\<close>

lemma operate_stage:
  assumes "stage E (additions [p] + room) dn td ad n" "uses E (token ` set (dn @ td)) [p]"
  shows "\<exists>dn' td' ad' n'. operate p n = Some n' \<and> stage E room dn' td' (ad @ ad') n' \<and>
    likes (without (removals [p]) dn) dn' \<and> likes (without (removals [p]) td) td' \<and>
    token ` set ad' \<subseteq> {next_token n..} \<and> next_token n \<le> next_token n'"
proof (cases p)
  case (Add on_thread f)
  then show ?thesis using add_stage[of E room dn td ad n on_thread f] assms(1) by fastforce
next
  case (Remove tok)
  then have "returns (remove_callback tok n) (stage E room (without {tok} dn) (without {tok} td) ad)"
    using remove_stage[of E room dn td ad n tok] assms by simp
  then obtain n' where n': "remove_callback tok n = Some n'" "stage E room (without {tok} dn) (without {tok} td) ad n'"
    by (auto simp: returns_iff)
  moreover have "next_token n' = next_token n"
    using n'(1) by (auto simp: remove_callback_def Let_def split: Option.bind_splits if_splits)
  ultimately show ?thesis using Remove
    by (intro exI[of _ "without {tok} dn"] exI[of _ "without {tok} td"] exI[of _ "[]"] exI[of _ n']) simp
next
  case (Suppress on_thread in_write tok)
  then obtain dn' td' where "likes dn dn'" "likes td td'"
    "returns (operate p n) (stage E room dn' td' ad)"
    using suppress_stage[of E room dn td ad n tok on_thread in_write] assms by auto
  moreover have "next_token n \<le> next_token n'" if "operate p n = Some n'" for n'
    using that Suppress by (auto simp: attempt_def suppress_next_notification_def andthen_def ok_def lift_def throw_def
        realm_assert_def verify_thread_def verify_in_write_def split: if_splits Option.bind_splits sum.splits)
  ultimately obtain n' where "operate p n = Some n'" "stage E room dn' td' ad n'" "next_token n \<le> next_token n'"
    by (auto simp: returns_iff)
  then show ?thesis using Suppress \<open>likes dn dn'\<close> \<open>likes td td'\<close>
    by (intro exI[of _ dn'] exI[of _ td'] exI[of _ "[]"] exI[of _ n']) simp
qed

lemma operations_stage:
  assumes "stage E (additions ps + room) dn td ad n" "uses E (token ` set (dn @ td)) ps"
  shows "\<exists>dn' td' ad' n'. operate_all ps n = Some n' \<and> stage E room dn' td' (ad @ ad') n' \<and>
    likes (without (removals ps) dn) dn' \<and> likes (without (removals ps) td) td' \<and>
    token ` set ad' \<subseteq> {next_token n..} \<and> next_token n \<le> next_token n'"
  using assms
proof (induction ps arbitrary: dn td ad n)
  case Nil
  then show ?case by (intro exI[of _ dn] exI[of _ td] exI[of _ "[]"] exI[of _ n]) simp
next
  case (Cons p ps)
  have split: "additions (p # ps) = additions [p] + additions ps" "removals (p # ps) = removals [p] \<union> removals ps"
    "uses E P (p # ps) \<longleftrightarrow> uses E P [p] \<and> uses E (P - removals [p]) ps" for P
    using additions_append[of "[p]" ps] removals_append[of "[p]" ps] uses_append[of E P "[p]" ps] by simp_all
  obtain dn1 td1 ad1 n1 where 1: "operate p n = Some n1" "stage E (additions ps + room) dn1 td1 (ad @ ad1) n1"
    "likes (without (removals [p]) dn) dn1" "likes (without (removals [p]) td) td1"
    "token ` set ad1 \<subseteq> {next_token n..}" "next_token n \<le> next_token n1"
  proof -
    have "stage E (additions [p] + (additions ps + room)) dn td ad n" "uses E (token ` set (dn @ td)) [p]"
      using Cons.prems(1) Cons.prems(2)[unfolded split(3)] by (simp_all only: split(1) add.assoc)
    from operate_stage[OF this] that show thesis by blast
  qed
  have "token ` set (dn1 @ td1) = token ` set (dn @ td) - removals [p]"
    using likes_token_set[OF 1(3)] likes_token_set[OF 1(4)] by (simp add: image_Un Un_Diff)
  then have "uses E (token ` set (dn1 @ td1)) ps" using Cons.prems(2)[unfolded split(3)] by simp
  from Cons.IH[OF 1(2) this] obtain dn2 td2 ad2 n2 where 2: "operate_all ps n1 = Some n2"
    "stage E room dn2 td2 ((ad @ ad1) @ ad2) n2" "likes (without (removals ps) dn1) dn2"
    "likes (without (removals ps) td1) td2" "token ` set ad2 \<subseteq> {next_token n1..}" "next_token n1 \<le> next_token n2"
    by blast
  have "likes (without (removals (p # ps)) dn) dn2" "likes (without (removals (p # ps)) td) td2"
    using likes_trans[OF likes_without[OF 1(3)] 2(3)] likes_trans[OF likes_without[OF 1(4)] 2(4)]
    unfolding split(2) without_without by blast+
  moreover have "token ` set (ad1 @ ad2) \<subseteq> {next_token n..}" using 1(5,6) 2(5) by auto
  moreover have "next_token n \<le> next_token n2" using 1(6) 2(6) by (rule order_trans)
  ultimately show ?case using 1(1) 2(1,2)
    by (intro exI[of _ dn2] exI[of _ td2] exI[of _ "ad1 @ ad2"] exI[of _ n2]) simp
qed

section \<open>The loop over the callbacks\<close>

text \<open>
  \<open>due visit sched cs\<close>: the calls that the packaged callbacks \<open>cs\<close> should get. What other code removes during a
  call is not called after it.
\<close>

function due :: "'f visitor \<Rightarrow> 'f operation list list \<Rightarrow> 'f notifier_callback list \<Rightarrow> (64 word \<times> 'f callback_call) list" where
  "due visit sched [] = []"
| "due visit sched (c # cs) =
     (case visit c of
        None \<Rightarrow> due visit sched cs
      | Some (c', call) \<Rightarrow> (token c, call) # due visit (tl sched) (without (removals (first_ops sched)) cs))"
  by pat_completeness auto
termination
  by (relation "measure (\<lambda>(visit, sched, cs). length cs)")
    (auto simp: without_def le_imp_less_Suc)

text \<open>What the delivery makes of an entry that is visited.\<close>

definition visited :: "'f visitor \<Rightarrow> 'f notifier_callback \<Rightarrow> 'f notifier_callback" where
  "visited visit c = (case visit c of None \<Rightarrow> c | Some (c', call) \<Rightarrow> c')"

text \<open>A visitor decides by the fields of an entry that the operations of other code leave alone.\<close>

locale visitor =
  fixes visit :: "'f visitor"
  assumes visit_like: "like c c' \<Longrightarrow> map_option snd (visit c') = map_option snd (visit c)"
    and visited_like: "like c c' \<Longrightarrow> like (visited visit c) (visited visit c')"
    and visited_token: "token (visited visit c) = token c"
begin

lemma likes_visited: "likes cs cs' \<Longrightarrow> likes (map (visited visit) cs) (map (visited visit) cs')"
  by (induction rule: list_all2_induct) (auto intro: visited_like)

lemma without_visited: "without S (map (visited visit) cs) = map (visited visit) (without S cs)"
  by (induction cs) (auto simp: without_def visited_token)

lemma due_likes: "likes cs cs' \<Longrightarrow> due visit sched cs' = due visit sched cs"
proof (induction cs arbitrary: sched cs' rule: length_induct)
  case (1 cs)
  show ?case
  proof (cases cs)
    case Nil
    then show ?thesis using 1(2) by simp
  next
    case (Cons d ds)
    then obtain d' ds' where cs': "cs' = d' # ds'" "like d d'" "likes ds ds'" using 1(2) by (auto simp: list_all2_Cons1)
    have eq: "map_option snd (visit d') = map_option snd (visit d)" "token d' = token d"
      using visit_like[OF cs'(2)] like_fields[OF cs'(2)] by simp_all
    have rest: "due visit sched (without S ds') = due visit sched (without S ds)" for S sched
    proof -
      have "length (without S ds) < length cs" using Cons by (simp add: without_def le_imp_less_Suc)
      then show ?thesis using 1(1) likes_without[OF cs'(3)] by blast
    qed
    show ?thesis using eq rest[of sched "{}"] rest[of "tl sched" "removals (first_ops sched)"] Cons cs'(1)
      by (cases "visit d"; cases "visit d'") (auto simp: split_beta)
  qed
qed

end

lemma after_call_stage:
  assumes "stage E (additions ops + room) dn td ad n" "uses E (token ` set (dn @ td)) ops"
    and "first_ops sched = ops" "once \<Longrightarrow> tok \<in> E" "tok \<in> token ` set dn"
  shows "\<exists>dn' td' ad' n'. after_call once sched tok n = Some n' \<and> stage E room dn' td' (ad @ ad') n' \<and>
    likes (without (removals ops \<union> (if once then {tok} else {})) dn) dn' \<and>
    likes (without (removals ops \<union> (if once then {tok} else {})) td) td' \<and>
    token ` set ad' \<subseteq> {next_token n..} \<and> next_token n \<le> next_token n'"
proof -
  obtain dn1 td1 ad1 n1 where 1: "operate_all ops n = Some n1" "stage E room dn1 td1 (ad @ ad1) n1"
    "likes (without (removals ops) dn) dn1" "likes (without (removals ops) td) td1"
    "token ` set ad1 \<subseteq> {next_token n..}" "next_token n \<le> next_token n1"
    using operations_stage[OF assms(1,2)] by blast
  show ?thesis
  proof (cases once)
    case False
    then show ?thesis using 1 assms(3)
      by (intro exI[of _ dn1] exI[of _ td1] exI[of _ ad1] exI[of _ n1]) (simp add: after_call_def)
  next
    case True
    then have "returns (remove_callback tok n1) (stage E room (without {tok} dn1) (without {tok} td1) (ad @ ad1))"
      using remove_stage[OF 1(2), of tok] assms(4) by simp
    then obtain n2 where 2: "remove_callback tok n1 = Some n2" "stage E room (without {tok} dn1) (without {tok} td1) (ad @ ad1) n2"
      by (auto simp: returns_iff)
    moreover have "next_token n2 = next_token n1"
      using 2(1) by (auto simp: remove_callback_def Let_def split: Option.bind_splits if_splits)
    ultimately show ?thesis using True 1 assms(3) likes_without[OF 1(3), of "{tok}"] likes_without[OF 1(4), of "{tok}"]
      by (intro exI[of _ "without {tok} dn1"] exI[of _ "without {tok} td1"] exI[of _ ad1] exI[of _ n2])
        (simp add: after_call_def)
  qed
qed

lemma first_ops_split:
  "additions (concat sched) = additions (first_ops sched) + additions (concat (tl sched))"
  "uses E P (concat sched) \<longleftrightarrow> uses E P (first_ops sched) \<and> uses E (P - removals (first_ops sched)) (concat (tl sched))"
  "removals (concat (take (Suc k) sched)) = removals (first_ops sched) \<union> removals (concat (take k (tl sched)))"
  by (cases sched; simp add: uses_append)+

text \<open>The state at the head of the loop: the index is that of the next entry.\<close>

abbreviation at_head where
  "at_head E room dn td ad n \<equiv> stage E room dn td ad (n\<lparr>callback_index := callback_index n - 1\<rparr>)"

lemma head_entry:
  assumes "at_head E room dn (c # td) ad n"
  shows "callback_index n < callback_count n" "unat (callback_index n) = length dn"
    "unat (callback_index n) < length (callbacks n)" "callbacks n ! unat (callback_index n) = c"
    "callbacks n = dn @ c # td @ ad"
proof -
  note n = stageD[OF assms, simplified]
  have small: "length dn + Suc (length td) < 2 ^ 64" using stage_length[OF assms] by simp
  then show *: "unat (callback_index n) = length dn" using n(2) by (simp add: unat_of_nat)
  have "callback_count n = of_nat (length dn + Suc (length td))" using n(3) by simp
  then have "unat (callback_count n) = length dn + Suc (length td)"
    using small by (simp add: unat_of_nat del: of_nat_add of_nat_Suc)
  then show "callback_index n < callback_count n" using * by (simp add: word_less_nat_alt)
  show "callbacks n = dn @ c # td @ ad" by (rule n(1))
  then show "unat (callback_index n) < length (callbacks n)" "callbacks n ! unat (callback_index n) = c"
    using * by simp_all
qed

lemma head_advance:
  assumes "at_head E room dn (c # td) ad n" "token cb = token c"
  shows "stage E room (dn @ [cb]) td ad (n\<lparr>callbacks := dn @ cb # td @ ad\<rparr>)"
  using stageD[OF assms(1), simplified] assms by (simp add: stage_def)

context visitor
begin

lemma visit_stage:
  assumes "at_head E (additions (concat sched) + room) dn td ad n"
    and "uses E (token ` set (dn @ td)) (concat sched)" "once \<longrightarrow> token ` set td \<subseteq> E"
  shows "\<exists>n' dn' ad'. visit_from visit once sched n = Some (due visit sched td, n') \<and> stage E room [] dn' (ad @ ad') n' \<and>
    likes (without (removals (concat (take (length (due visit sched td)) sched)) \<union>
        (if once then fst ` set (due visit sched td) else {})) (dn @ map (visited visit) td)) dn' \<and>
    token ` set ad' \<subseteq> {next_token n..}"
  using assms
proof (induction td arbitrary: sched dn ad n rule: length_induct)
  case (1 td)
  show ?case
  proof (cases td)
    case Nil
    note n = stageD[OF 1(2), simplified]
    have "callback_index n = callback_count n" using n(2,3) Nil by simp
    then have "visit_from visit once sched n = Some ([], n\<lparr>callback_index := no_index\<rparr>)"
      by (simp add: visit_from.simps)
    moreover have "stage E room [] dn ad (n\<lparr>callback_index := no_index\<rparr>)"
      using n Nil by (simp add: stage_def no_index_def)
    ultimately show ?thesis using Nil by (intro exI[of _ "n\<lparr>callback_index := no_index\<rparr>"] exI[of _ dn] exI[of _ "[]"]) simp
  next
    case (Cons c cs)
    have head: "at_head E (additions (concat sched) + room) dn (c # cs) ad n" using 1(2) Cons by simp
    note entry = head_entry[OF head]
    show ?thesis
    proof (cases "visit c")
      case None
      define m where "m = n\<lparr>callback_index := callback_index n + 1\<rparr>"
      have v: "visit_from visit once sched n = visit_from visit once sched m"
        using entry None by (subst visit_from.simps) (simp add: m_def)
      have h: "at_head E (additions (concat sched) + room) (dn @ [c]) cs ad m"
        using head_advance[OF head refl] entry(5) by (simp add: m_def stage_def)
      have u: "uses E (token ` set ((dn @ [c]) @ cs)) (concat sched)" "once \<longrightarrow> token ` set cs \<subseteq> E"
        using 1(3,4) Cons by simp_all
      have "length cs < length td" using Cons by simp
      from 1(1)[rule_format, OF this h u(1)] u(2) obtain n' dn' ad' where r: "visit_from visit once sched m = Some (due visit sched cs, n')"
        "stage E room [] dn' (ad @ ad') n'" "token ` set ad' \<subseteq> {next_token m..}"
        "likes (without (removals (concat (take (length (due visit sched cs)) sched)) \<union>
          (if once then fst ` set (due visit sched cs) else {})) ((dn @ [c]) @ map (visited visit) cs)) dn'"
        by blast
      have vc: "visited visit c = c" and nt: "next_token m = next_token n" using None by (simp_all add: visited_def m_def)
      have d: "due visit sched cs = due visit sched td" using Cons None by simp
      have e: "(dn @ [c]) @ map (visited visit) cs = dn @ map (visited visit) td" using vc Cons by simp
      have "visit_from visit once sched n = Some (due visit sched td, n')" using v r(1) by (simp only: d)
      note this r(2) r(3)[unfolded nt] r(4)[unfolded d e]
      then show ?thesis by blast
    next
      case (Some p)
      obtain cb call where p: "p = (cb, call)" by (cases p)
      have cb: "token cb = token c" "visited visit c = cb" using visited_token[of c] Some p by (simp_all add: visited_def)
      define ops S where "ops = first_ops sched" and "S = removals ops \<union> (if once then {token c} else {})"
      define m where "m = n\<lparr>callbacks := dn @ cb # cs @ ad\<rparr>"
      have m: "stage E (additions ops + (additions (concat (tl sched)) + room)) (dn @ [cb]) cs ad m"
        using head_advance[OF head cb(1)] by (simp add: m_def ops_def first_ops_split(1)[of sched] add.assoc)
      have P: "token ` set ((dn @ [cb]) @ cs) = token ` set (dn @ td)" using Cons cb(1) by simp
      have "uses E (token ` set ((dn @ [cb]) @ cs)) ops" using 1(3) unfolding P ops_def first_ops_split(2)[of _ _ sched] by blast
      from after_call_stage[OF m this, of sched once "token c"] obtain dn1 cs1 ad1 n1 where
        a: "after_call once sched (token c) m = Some n1" "stage E (additions (concat (tl sched)) + room) dn1 cs1 (ad @ ad1) n1"
          "likes (without S (dn @ [cb])) dn1" "likes (without S cs) cs1" "token ` set ad1 \<subseteq> {next_token m..}"
          "next_token m \<le> next_token n1"
        using 1(4) Cons cb(1) by (auto simp: ops_def S_def)
      have cs: "without S cs = without (removals ops) cs"
      proof -
        have "token c \<notin> token ` set cs" using stageD(4)[OF m] cb(1) by auto
        then have "without {token c} (without (removals ops) cs) = without (removals ops) cs"
          by (intro without_other) auto
        then show ?thesis by (simp add: S_def)
      qed
      define k where "k = n1\<lparr>callback_index := callback_index n1 + 1\<rparr>"
      have h: "at_head E (additions (concat (tl sched)) + room) dn1 cs1 (ad @ ad1) k"
      proof -
        have "k\<lparr>callback_index := callback_index k - 1\<rparr> = n1" by (simp add: k_def)
        then show ?thesis using a(2) by (simp only:)
      qed
      have u: "uses E (token ` set (dn1 @ cs1)) (concat (tl sched))"
      proof -
        have "token ` set (dn1 @ cs1) = token ` set (dn @ td) - S"
          unfolding P[symmetric] using likes_token_set[OF a(3)] likes_token_set[OF a(4)] by (simp add: image_Un) blast
        moreover have "uses E (token ` set (dn @ td) - removals ops) (concat (tl sched))"
          using 1(3) unfolding first_ops_split(2)[of _ _ sched] ops_def by blast
        moreover have "S \<subseteq> removals ops \<union> E" using 1(4) Cons by (auto simp: S_def)
        then have "A - removals ops - (A - S) \<subseteq> E" for A by blast
        ultimately show ?thesis by (simp only: uses_less)
      qed
      have once: "once \<longrightarrow> token ` set cs1 \<subseteq> E" using likes_token_set[OF a(4)] 1(4) Cons by auto
      have "length cs1 < length td"
        using list_all2_lengthD[OF a(4)] Cons length_filter_le[of "\<lambda>c. token c \<notin> S" cs] by (simp add: without_def)
      from 1(1)[rule_format, OF this h u] once obtain n' dn' ad' where r: "visit_from visit once (tl sched) k = Some (due visit (tl sched) cs1, n')"
        "stage E room [] dn' ((ad @ ad1) @ ad') n'" "token ` set ad' \<subseteq> {next_token k..}"
        "likes (without (removals (concat (take (length (due visit (tl sched) cs1)) (tl sched))) \<union>
          (if once then fst ` set (due visit (tl sched) cs1) else {})) (dn1 @ map (visited visit) cs1)) dn'"
        by blast
      have due1: "due visit (tl sched) cs1 = due visit (tl sched) (without (removals ops) cs)"
        using due_likes[OF a(4)] by (simp add: cs)
      have due: "due visit sched td = (token c, call) # due visit (tl sched) cs1"
        unfolding due1 using Some p Cons by (simp add: ops_def)
      have "visit_from visit once sched n = Some (due visit sched td, n')"
        unfolding due using entry Some p a(1) r(1) cb(1) by (subst visit_from.simps) (simp add: m_def k_def)
      moreover have "stage E room [] dn' (ad @ (ad1 @ ad')) n'" using r(2) by simp
      moreover have "token ` set (ad1 @ ad') \<subseteq> {next_token n..}"
        using a(5,6) r(3) by (auto simp: k_def m_def intro: order_trans)
      moreover have "likes (without (removals (concat (take (length (due visit sched td)) sched)) \<union>
          (if once then fst ` set (due visit sched td) else {})) (dn @ map (visited visit) td)) dn'"
      proof -
        define T where "T = removals (concat (take (length (due visit (tl sched) cs1)) (tl sched))) \<union>
          (if once then fst ` set (due visit (tl sched) cs1) else {})"
        have "likes (without S ((dn @ [cb]) @ map (visited visit) cs)) (dn1 @ map (visited visit) cs1)"
          using list_all2_appendI[OF a(3) likes_visited[OF a(4)]] by (simp only: without_append without_visited)
        from likes_trans[OF likes_without[OF this] r(4)[folded T_def]]
        have "likes (without (S \<union> T) ((dn @ [cb]) @ map (visited visit) cs)) dn'" by (simp only: without_without)
        moreover have "removals (concat (take (length (due visit sched td)) sched)) \<union>
            (if once then fst ` set (due visit sched td) else {}) = S \<union> T"
          unfolding due by (auto simp: S_def T_def ops_def first_ops_split(3)[of _ sched])
        moreover have "(dn @ [cb]) @ map (visited visit) cs = dn @ map (visited visit) td" using Cons cb(2) by simp
        ultimately show ?thesis by (simp only:)
      qed
      ultimately show ?thesis by blast
    qed
  qed
qed

text \<open>The loop, started between two deliveries.\<close>

lemma for_each_stage:
  assumes "stage E (additions (concat sched) + room) [] cs ad n"
    and "uses E (token ` set cs) (concat sched)" "once \<longrightarrow> token ` set cs \<subseteq> E"
  shows "\<exists>n' cs' ad'. for_each_callback visit once sched n = Some (due visit sched cs, n') \<and> stage E room [] cs' (ad @ ad') n' \<and>
    likes (without (removals (concat (take (length (due visit sched cs)) sched)) \<union>
        (if once then fst ` set (due visit sched cs) else {})) (map (visited visit) cs)) cs' \<and>
    token ` set ad' \<subseteq> {next_token n..}"
proof -
  have "at_head E (additions (concat sched) + room) [] cs ad (n\<lparr>callback_index := callback_index n + 1\<rparr>)"
    using assms(1) by simp
  from visit_stage[OF this _ assms(3)] assms(2) show ?thesis by (simp add: for_each_callback_def)
qed

end

interpretation before: visitor before_visitor
  by unfold_locales (auto simp: before_visitor_def visited_def like_def)

lemma after_visited_like: "like c c' \<Longrightarrow> like (visited after_visitor c) (visited after_visitor c')"
proof -
  assume "like c c'"
  then obtain b where c': "c' = c\<lparr>skip_next := b\<rparr>" by (auto simp: like_def)
  have "visited after_visitor c' = (visited after_visitor c)\<lparr>skip_next := b\<rparr>"
    by (cases c) (auto simp: c' visited_def after_visitor_def)
  then show "like (visited after_visitor c) (visited after_visitor c')" by simp
qed

interpretation after: visitor after_visitor
proof unfold_locales
  fix c c' :: "'a notifier_callback"
  show "map_option snd (after_visitor c') = map_option snd (after_visitor c)" if "like c c'"
    using like_fields[OF that] by (simp add: after_visitor_def)
  show "like (visited after_visitor c) (visited after_visitor c')" if "like c c'"
    using that by (rule after_visited_like)
  show "token (visited after_visitor c) = token c" by (simp add: visited_def after_visitor_def)
qed

interpretation on_error: visitor error_visitor
  by unfold_locales (auto simp: error_visitor_def visited_def like_def)

section \<open>The calls that are due\<close>

lemma due_Cons_Some:
  "visit c = Some p \<Longrightarrow> due visit sched (c # cs) =
    (token c, snd p) # due visit (tl sched) (without (removals (first_ops sched)) cs)"
  by (simp add: split_beta)

lemma due_subset: "(t, call) \<in> set (due visit sched cs) \<Longrightarrow> \<exists>c\<in>set cs. token c = t \<and> map_option snd (visit c) = Some call"
proof (induction visit sched cs rule: due.induct)
  case (2 visit sched c cs)
  show ?case
  proof (cases "visit c")
    case None
    then show ?thesis using 2 by simp
  next
    case (Some p)
    have "\<exists>c\<in>set (without (removals (first_ops sched)) cs). token c = t \<and> map_option snd (visit c) = Some call"
      if "(t, call) \<in> set (due visit (tl sched) (without (removals (first_ops sched)) cs))"
      using 2(2)[OF Some _ that] by (cases p) simp
    moreover have "set (without S cs) \<subseteq> set cs" for S by (auto simp: without_def)
    ultimately show ?thesis using 2(3) Some unfolding due_Cons_Some[of visit c p, OF Some] by fastforce
  qed
qed simp

lemma due_subseq: "subseq (map fst (due visit sched cs)) (map token cs)"
proof (induction visit sched cs rule: due.induct)
  case (2 visit sched c cs)
  show ?case
  proof (cases "visit c")
    case None
    then show ?thesis using 2(1) by (auto intro: list_emb_Cons)
  next
    case (Some p)
    have "subseq (map token (without (removals (first_ops sched)) cs)) (map token cs)"
      unfolding without_def by (rule subseq_map[OF subseq_filter_left])
    moreover have "subseq (map fst (due visit (tl sched) (without (removals (first_ops sched)) cs)))
        (map token (without (removals (first_ops sched)) cs))"
      using 2(2)[OF Some] by (cases p) simp
    ultimately show ?thesis unfolding due_Cons_Some[of visit c p, OF Some] by (auto intro: subseq_order.order_trans)
  qed
qed simp

lemma due_complete:
  "c \<in> set cs \<Longrightarrow> token c \<notin> removals (concat sched) \<Longrightarrow> visit c = Some (c', call) \<Longrightarrow>
    (token c, call) \<in> set (due visit sched cs)"
proof (induction visit sched cs rule: due.induct)
  case (2 visit sched d ds)
  then show ?case
    by (cases "visit d"; cases sched) (auto simp: without_def split_beta)
qed simp

lemma due_covers:
  "c \<in> set cs \<Longrightarrow> visit c \<noteq> None \<Longrightarrow>
    token c \<in> removals (concat (take (length (due visit sched cs)) sched)) \<union> fst ` set (due visit sched cs)"
proof (induction visit sched cs rule: due.induct)
  case (2 visit sched d ds)
  show ?case
  proof (cases "visit d")
    case None
    then show ?thesis using 2(1,3,4) by auto
  next
    case (Some p)
    show ?thesis
    proof (cases "c = d \<or> token c \<in> removals (first_ops sched)")
      case True
      then show ?thesis unfolding due_Cons_Some[of visit d p, OF Some]
        by (auto simp: first_ops_split(3)[of _ sched])
    next
      case False
      then have "c \<in> set (without (removals (first_ops sched)) ds)" using 2(3) by (auto simp: without_def)
      then show ?thesis unfolding due_Cons_Some[of visit d p, OF Some]
        using 2(2)[OF Some, of "fst p" "snd p"] 2(4) by (auto simp: first_ops_split(3)[of _ sched])
    qed
  qed
qed simp

lemma stage_no_errors: "stage E room dn td ad n \<Longrightarrow> stage {} room dn td ad n"
  unfolding stage_def by (elim conjE, intro conjI) (assumption | simp)+

lemma due_nothing_removed:
  assumes "removals (concat sched) = {}"
  shows "due visit sched cs = map (\<lambda>c. (token c, snd (the (visit c)))) (filter (\<lambda>c. visit c \<noteq> None) cs)"
  using assms
proof (induction visit sched cs rule: due.induct)
  case (2 visit sched d ds)
  have "removals (first_ops sched) = {}" "removals (concat (tl sched)) = {}" using 2(3) by (cases sched; simp)+
  then show ?case using 2 by (cases "visit d") (auto simp: split_beta)
qed simp

end
