(* ===== verification/NotifierProperties.thy ===== *)
theory NotifierProperties
  imports NotifierCallbacksCorrect CollectionChangeMerge
begin

text \<open>
  The properties of the callbacks of a notifier. \<open>stage {} room [] cs ad n\<close>: no delivery is going on, the next one is for
  the callbacks \<open>cs\<close>, and \<open>ad\<close> were added later; tokens are distinct, and \<open>room\<close> callbacks can be added before they
  wrap around.
\<close>

section \<open>The registered callbacks\<close>

definition registered :: "nat \<Rightarrow> 'f notifier \<Rightarrow> bool" where
  "registered room n \<longleftrightarrow>
     stage {} room [] (callbacks n) [] (n\<lparr>callback_count := of_nat (length (callbacks n))\<rparr>)"

lemma registered_stage:
  assumes "stage {} room [] cs ad n"
  shows "registered room n"
  using stageD[OF assms] by (simp add: registered_def stage_def)

lemma registered_count [simp]: "registered room (n\<lparr>callback_count := k\<rparr>) = registered room n"
  by (simp add: registered_def)

text \<open>Outside a delivery the count does not matter.\<close>

lemma operate_count: "\<exists>k'. operate p (n\<lparr>callback_count := k\<rparr>) = map_option (\<lambda>m. m\<lparr>callback_count := k'\<rparr>) (operate p n)"
proof (cases p)
  case (Add on_thread f)
  then show ?thesis
    by (cases n) (auto simp: attempt_def add_callback_def verify_thread_def realm_assert_def ok_def throw_def Let_def)
next
  case (Remove tok)
  have "operate p (n\<lparr>callback_count := k\<rparr>) = map_option (\<lambda>m. m\<lparr>callback_count := if find_callback tok n = Some (length (callbacks n)) then k else k - 1\<rparr>) (operate p n)"
    using Remove by (cases n) (auto simp: remove_callback_def find_callback_def Let_def realm_assert_def)
  then show ?thesis by blast
next
  case (Suppress on_thread in_write tok)
  then show ?thesis
    by (cases n) (auto simp: attempt_def suppress_next_notification_def verify_thread_def verify_in_write_def find_callback_def
        realm_assert_def ok_def throw_def lift_def intro!: exI[of _ k])
qed

lemma operate_all_count:
  "\<exists>k'. operate_all ps (n\<lparr>callback_count := k\<rparr>) = map_option (\<lambda>m. m\<lparr>callback_count := k'\<rparr>) (operate_all ps n)"
proof (induction ps arbitrary: n k)
  case (Cons p ps)
  obtain k' where "operate p (n\<lparr>callback_count := k\<rparr>) = map_option (\<lambda>m. m\<lparr>callback_count := k'\<rparr>) (operate p n)"
    using operate_count by blast
  then show ?case using Cons.IH[where k = k'] by (cases "operate p n") auto
qed auto

text \<open>Outside a delivery, an operation is one on packaged callbacks.\<close>

lemma operate_registered:
  assumes "registered (additions ops + room) n" "uses {} (token ` set (callbacks n)) ops"
  shows "\<exists>n' cs ad. operate_all ops n = Some n' \<and> registered room n' \<and> callbacks n' = cs @ ad \<and>
    likes (without (removals ops) (callbacks n)) cs \<and> token ` set ad \<subseteq> {next_token n..}"
proof -
  define m where "m = n\<lparr>callback_count := of_nat (length (callbacks n))\<rparr>"
  have "stage {} (additions ops + room) [] (callbacks n) [] m" using assms(1) by (simp add: registered_def m_def)
  from operations_stage[OF this] assms(2) obtain dn cs ad m' where m': "operate_all ops m = Some m'"
    "stage {} room dn cs ([] @ ad) m'" "likes (without (removals ops) []) dn"
    "likes (without (removals ops) (callbacks n)) cs" "token ` set ad \<subseteq> {next_token m..}" by auto
  obtain k where "operate_all ops m = map_option (\<lambda>m. m\<lparr>callback_count := k\<rparr>) (operate_all ops n)"
    unfolding m_def using operate_all_count by blast
  then obtain n' where n': "operate_all ops n = Some n'" "m' = n'\<lparr>callback_count := k\<rparr>"
    using m'(1) by (cases "operate_all ops n") auto
  have "dn = []" using m'(3) by simp
  then have "registered room n'" using registered_stage[of room cs ad m'] m'(2) n'(2) by simp
  moreover have "callbacks n' = cs @ ad" using stageD(1)[OF m'(2)] \<open>dn = []\<close> n'(2) by simp
  ultimately show ?thesis using n'(1) m'(4,5) by (auto simp: m_def)
qed

lemma new_notifier_registered: "room < 2 ^ 64 \<Longrightarrow> registered room (new_notifier version)"
  by (simp add: registered_def stage_def new_notifier_def no_index_def)

section \<open>Accumulated changes\<close>

lemma describes_nothing:
  fixes zs :: "'a list"
  assumes "describes c xs ys" "cs_empty c"
  shows "describes c zs zs"
proof -
  have e: "iset_of (deletions c) = {}" "iset_of (insertions c) = {}" "moves c = []"
    using assms by (auto simp: cs_empty_def describes_def sets_ok_def empty_def)
  then show ?thesis using assms(1) by (simp add: describes_def applies_def moves_ok_def)
qed

text \<open>What \<open>add_changes\<close> does to one entry.\<close>

definition updated_by :: "change_builder \<Rightarrow> 'f notifier_callback \<Rightarrow> 'f notifier_callback \<Rightarrow> bool" where
  "updated_by change c c' \<longleftrightarrow> (\<exists>acc. c' = c\<lparr>skip_next := False, accumulated_changes := acc\<rparr> \<and>
     (if skip_next c then acc = accumulated_changes c else cb_merge (accumulated_changes c) change = Some acc))"

lemma updated_byI:
  "skip_next c \<Longrightarrow> updated_by change c (c\<lparr>skip_next := False\<rparr>)"
  "\<not> skip_next c \<Longrightarrow> cb_merge (accumulated_changes c) change = Some acc \<Longrightarrow> updated_by change c (c\<lparr>accumulated_changes := acc\<rparr>)"
  by (cases c; auto simp: updated_by_def)+

lemma add_changes_to_entries:
  assumes "\<forall>c\<in>set cs. \<not> skip_next c \<longrightarrow> cb_merge (accumulated_changes c) change \<noteq> None"
  shows "returns (add_changes_to change cs) (list_all2 (updated_by change) cs)"
  using assms
proof (induction cs)
  case (Cons c cs)
  then show ?case by (auto simp: returns_iff intro: updated_byI)
qed simp

definition packaged_as :: "'f notifier_callback \<Rightarrow> 'f notifier_callback \<Rightarrow> bool" where
  "packaged_as c c' \<longleftrightarrow> (\<exists>changes. cb_finalize (accumulated_changes c) = Some changes \<and>
     c' = c\<lparr>changes_to_deliver := changes, accumulated_changes := moved_out (accumulated_changes c)\<rparr>)"

lemma finalize_all_entries:
  assumes "\<forall>c\<in>set cs. cb_finalize (accumulated_changes c) \<noteq> None"
  shows "returns (finalize_all cs) (list_all2 packaged_as cs)"
  using assms
proof (induction cs)
  case (Cons c cs)
  then show ?case by (auto simp: packaged_as_def returns_iff)
qed simp

lemma finalize_returns: "describes c xs ys \<Longrightarrow> cb_finalize c \<noteq> None"
  using remove_set_props[of "modifications c" "insertions c"]
  by (auto simp: cb_finalize_def describes_def sets_ok_def returns_iff)

lemma add_changes_to_tokens: "add_changes_to change cs = Some cs' \<Longrightarrow> map token cs' = map token cs"
  by (induction cs arbitrary: cs') (auto split: if_splits Option.bind_splits)

lemma finalize_all_tokens: "finalize_all cs = Some cs' \<Longrightarrow> map token cs' = map token cs"
  by (induction cs arbitrary: cs') (auto split: Option.bind_splits)

lemma registered_tokens:
  assumes "registered room n" "map token cs = map token (callbacks n)"
  shows "registered room (n\<lparr>callbacks := cs\<rparr>)"
proof -
  have "length cs = length (callbacks n)" "cs = [] \<longleftrightarrow> callbacks n = []"
    using assms(2) by (metis length_map, metis map_is_Nil_conv)
  moreover have "(\<forall>c\<in>set cs. token c < k) \<longleftrightarrow> (\<forall>c\<in>set (callbacks n). token c < k)" for k
  proof -
    have "token ` set cs = token ` set (callbacks n)" using assms(2) by (metis set_map)
    then show ?thesis by (metis (no_types, opaque_lifting) imageE imageI)
  qed
  ultimately show ?thesis using assms by (simp add: registered_def stage_def)
qed

section \<open>Properties\<close>

text \<open>C10. The callbacks of a delivery. If other code removes and suppresses only callbacks that were registered when the
  notifier was packaged, no assertion fails and no access is out of range; the callbacks
  that are called are those which \<open>due\<close> names: in the order of registration, each at most once, none after it was removed,
  none that was added later, and every one that has something to be told and is not removed is called with its changes.
  Afterwards the removed entries are gone, the others are kept, and the notifier is ready for the next delivery.\<close>

theorem callbacks_called:
  assumes "stage {} (additions (concat sched) + room) [] cs ad n" "uses {} (token ` set cs) (concat sched)"
  shows "returns (before_advance sched n) (\<lambda>(calls, n'). calls = due before_visitor sched cs \<and>
      subseq (map fst calls) (map token cs) \<and>
      (\<forall>c\<in>set cs. token c \<notin> removals (concat sched) \<longrightarrow> \<not> cs_empty (changes_to_deliver c) \<longrightarrow>
        (token c, Call_before (fn c) (changes_to_deliver c)) \<in> set calls) \<and>
      (\<exists>cs' ad'. stage {} room [] cs' (ad @ ad') n' \<and>
        likes (without (removals (concat (take (length calls) sched))) cs) cs')) \<and>
    returns (after_advance sched n) (\<lambda>(calls, n'). calls = due after_visitor sched cs \<and>
      subseq (map fst calls) (map token cs) \<and>
      (\<forall>c\<in>set cs. token c \<notin> removals (concat sched) \<longrightarrow> \<not> (initial_delivered c \<and> cs_empty (changes_to_deliver c)) \<longrightarrow>
        (token c, Call_after (fn c) (changes_to_deliver c)) \<in> set calls) \<and>
      (\<exists>cs' ad'. stage {} room [] cs' (ad @ ad') n' \<and>
        likes (without (removals (concat (take (length calls) sched))) (map (visited after_visitor) cs)) cs'))"
proof (rule conjI)
  have same: "map (visited before_visitor) cs = cs" by (simp add: map_idI visited_def before_visitor_def)
  have "(token c, Call_before (fn c) (changes_to_deliver c)) \<in> set (due before_visitor sched cs)"
    if "c \<in> set cs" "token c \<notin> removals (concat sched)" "\<not> cs_empty (changes_to_deliver c)" for c
    using that due_complete[OF that(1,2), of before_visitor] by (simp add: before_visitor_def)
  then show "returns (before_advance sched n) (\<lambda>(calls, n'). calls = due before_visitor sched cs \<and>
      subseq (map fst calls) (map token cs) \<and>
      (\<forall>c\<in>set cs. token c \<notin> removals (concat sched) \<longrightarrow> \<not> cs_empty (changes_to_deliver c) \<longrightarrow>
        (token c, Call_before (fn c) (changes_to_deliver c)) \<in> set calls) \<and>
      (\<exists>cs' ad'. stage {} room [] cs' (ad @ ad') n' \<and>
        likes (without (removals (concat (take (length calls) sched))) cs) cs'))"
    using before.for_each_stage[OF assms, of False] due_subseq[of before_visitor sched cs]
    by (auto simp: before_advance_def same) blast
  have "(token c, Call_after (fn c) (changes_to_deliver c)) \<in> set (due after_visitor sched cs)"
    if "c \<in> set cs" "token c \<notin> removals (concat sched)" "\<not> (initial_delivered c \<and> cs_empty (changes_to_deliver c))" for c
    using that(3) due_complete[OF that(1,2), of after_visitor] by (auto simp: after_visitor_def)
  then show "returns (after_advance sched n) (\<lambda>(calls, n'). calls = due after_visitor sched cs \<and>
      subseq (map fst calls) (map token cs) \<and>
      (\<forall>c\<in>set cs. token c \<notin> removals (concat sched) \<longrightarrow> \<not> (initial_delivered c \<and> cs_empty (changes_to_deliver c)) \<longrightarrow>
        (token c, Call_after (fn c) (changes_to_deliver c)) \<in> set calls) \<and>
      (\<exists>cs' ad'. stage {} room [] cs' (ad @ ad') n' \<and>
        likes (without (removals (concat (take (length calls) sched))) (map (visited after_visitor) cs)) cs'))"
    using after.for_each_stage[OF assms, of False] due_subseq[of after_visitor sched cs]
    by (auto simp: after_advance_def) blast
qed

text \<open>Errors: every registered callback is called with the error exactly once, in the order of registration, unless it is
  removed before its turn; other code may remove callbacks again whose error was delivered. Then all these
  callbacks are gone, and only those that were added meanwhile are registered.\<close>

theorem errors_delivered:
  assumes "registered (additions (concat sched) + room) n"
    and "uses (token ` set (callbacks n)) (token ` set (callbacks n)) (concat sched)"
  shows "returns (deliver_error sched n) (\<lambda>(calls, n'). calls = due error_visitor sched (callbacks n) \<and>
    subseq (map fst calls) (map token (callbacks n)) \<and>
    (\<forall>c\<in>set (callbacks n). token c \<notin> removals (concat sched) \<longrightarrow> (token c, Call_error (fn c)) \<in> set calls) \<and>
    registered room n' \<and> token ` set (callbacks n') \<subseteq> {next_token n..})"
proof -
  define m where "m = n\<lparr>in_error := True, callback_count := of_nat (length (callbacks n))\<rparr>"
  have "stage {} (additions (concat sched) + room) [] (callbacks n) [] (n\<lparr>callback_count := of_nat (length (callbacks n))\<rparr>)"
    using assms(1) by (simp add: registered_def)
  note n = stageD[OF this, simplified]
  have m: "stage (token ` set (callbacks n)) (additions (concat sched) + room) [] (callbacks n) [] m"
    using n by (auto simp: stage_def m_def)
  obtain n' cs' ad' where r: "for_each_callback error_visitor True sched m = Some (due error_visitor sched (callbacks n), n')"
    "stage (token ` set (callbacks n)) room [] cs' ad' n'" "token ` set ad' \<subseteq> {next_token m..}"
    "likes (without (removals (concat (take (length (due error_visitor sched (callbacks n))) sched)) \<union>
      fst ` set (due error_visitor sched (callbacks n))) (map (visited error_visitor) (callbacks n))) cs'"
    using on_error.for_each_stage[OF m assms(2), of True] by auto
  have "map (visited error_visitor) (callbacks n) = callbacks n" by (simp add: map_idI visited_def error_visitor_def)
  then have "cs' = []"
    using r(4) due_covers[of _ "callbacks n" error_visitor sched] by (auto simp: without_def error_visitor_def filter_empty_conv)
  then have "registered room n'" "callbacks n' = ad'"
    using registered_stage[OF stage_no_errors[OF r(2)]] stageD(1)[OF r(2)] by simp_all
  moreover have "deliver_error sched n = Some (due error_visitor sched (callbacks n), n')"
    using r(1) by (simp add: deliver_error_def m_def)
  moreover have "(token c, Call_error (fn c)) \<in> set (due error_visitor sched (callbacks n))"
    if "c \<in> set (callbacks n)" "token c \<notin> removals (concat sched)" for c
    using due_complete[OF that, of error_visitor] by (simp add: error_visitor_def)
  ultimately show ?thesis using due_subseq r(3) by (simp add: m_def)
qed

text \<open>C27. What callbacks are told. If for every callback the accumulated changes lead from the rows it was
  last told of to the current rows \<open>xs\<close>, and the notifier hands over and packages a change from \<open>xs\<close> to \<open>ys\<close>, then
  it is told of all changes up to \<open>ys\<close>; for a callback whose next notification was suppressed (and nothing accumulated),
  the change is left out, and its later changes start from \<open>ys\<close>. As for merging, the ranges of the accumulated deletions and
  the number of new ones must be small enough that no new chunk of ranges is begun (\<open>add_room\<close>: at most 256 together
  when there are fewer than 256 ranges).\<close>

theorem changes_told:
  assumes "describes (pending_change n) xs ys" "transaction_set n"
    and "\<forall>c\<in>set (callbacks n). describes (accumulated_changes c) (seen (token c)) xs \<and>
      (if skip_next c then cs_empty (accumulated_changes c)
       else add_room (deletions (accumulated_changes c)) (deletions (pending_change n)))"
  shows "returns (do { n \<leftarrow> prepare_handover version n; package_for_delivery True n }) (\<lambda>(deliver, n'). deliver \<and>
    callback_count n' = of_nat (length (callbacks n')) \<and> cs_empty (pending_change n') \<and> has_run n' \<and>
    list_all2 (\<lambda>c c'. token c' = token c \<and> fn c' = fn c \<and> \<not> skip_next c' \<and> initial_delivered c' = initial_delivered c \<and>
      describes (accumulated_changes c') ys ys \<and>
      (\<exists>changes. describes changes (if skip_next c then ys else seen (token c)) ys \<and>
        cb_finalize changes = Some (changes_to_deliver c'))) (callbacks n) (callbacks n'))"
proof -
  let ?d = "pending_change n"
  have merge: "returns (cb_merge (accumulated_changes c) ?d) (\<lambda>acc. describes acc (seen (token c)) ys)"
    if "c \<in> set (callbacks n)" "\<not> skip_next c" for c
  proof -
    have "describes (accumulated_changes c) (seen (token c)) xs" "add_room (deletions (accumulated_changes c)) (deletions ?d)"
      using assms(3) that by auto
    from merge_props[OF this(1) assms(1) this(2)] show ?thesis by (auto elim: returns_mono)
  qed
  have "\<forall>c\<in>set (callbacks n). \<not> skip_next c \<longrightarrow> cb_merge (accumulated_changes c) ?d \<noteq> None"
    using merge by (fastforce simp: returns_iff)
  from add_changes_to_entries[OF this] obtain cs where cs: "add_changes_to ?d (callbacks n) = Some cs"
    "list_all2 (updated_by ?d) (callbacks n) cs" by (auto simp: returns_iff)
  define told where "told c c1 \<longleftrightarrow> token c1 = token c \<and> fn c1 = fn c \<and> \<not> skip_next c1 \<and> initial_delivered c1 = initial_delivered c \<and>
    describes (accumulated_changes c1) (if skip_next c then ys else seen (token c)) ys" for c c1 :: "'b notifier_callback"
  have told: "told c c1" if "updated_by ?d c c1" "c \<in> set (callbacks n)" for c c1
  proof -
    note u = that
    obtain acc where acc: "c1 = c\<lparr>skip_next := False, accumulated_changes := acc\<rparr>"
      "if skip_next c then acc = accumulated_changes c else cb_merge (accumulated_changes c) ?d = Some acc"
      using u(1) unfolding updated_by_def by blast
    have "describes acc (if skip_next c then ys else seen (token c)) ys"
    proof (cases "skip_next c")
      case True
      then have "describes acc (seen (token c)) xs" "cs_empty acc" using assms(3) u(2) acc(2) by auto
      then show ?thesis using True describes_nothing by auto
    next
      case False
      then show ?thesis using merge[OF u(2)] acc(2) by simp
    qed
    then show ?thesis by (simp add: told_def acc(1))
  qed
  have l1: "list_all2 told (callbacks n) cs"
    by (rule list.rel_mono_strong[OF cs(2)]) (rule told)
  have "\<forall>c1\<in>set cs. \<exists>c. told c c1" using l1 by (induction rule: list_all2_induct) auto
  then have "\<forall>c\<in>set cs. cb_finalize (accumulated_changes c) \<noteq> None"
    using finalize_returns unfolding told_def by metis
  from finalize_all_entries[OF this] obtain cs' where cs': "finalize_all cs = Some cs'" "list_all2 packaged_as cs cs'"
    by (auto simp: returns_iff)
  have "list_all2 (\<lambda>c c'. token c' = token c \<and> fn c' = fn c \<and> \<not> skip_next c' \<and> initial_delivered c' = initial_delivered c \<and>
      describes (accumulated_changes c') ys ys \<and>
      (\<exists>changes. describes changes (if skip_next c then ys else seen (token c)) ys \<and>
        cb_finalize changes = Some (changes_to_deliver c'))) (callbacks n) cs'"
  proof (rule list_all2_trans[OF _ l1 cs'(2)])
    fix c c1 c' :: "'b notifier_callback"
    assume "told c c1" "packaged_as c1 c'"
    moreover have "describes (moved_out (accumulated_changes c1)) ys ys"
      if "describes (accumulated_changes c1) zs ys" for zs
      using that describes_empty[of ys] by (simp add: moved_out_def describes_def sets_ok_def empty_builder_def)
    ultimately show "token c' = token c \<and> fn c' = fn c \<and> \<not> skip_next c' \<and> initial_delivered c' = initial_delivered c \<and>
      describes (accumulated_changes c') ys ys \<and>
      (\<exists>changes. describes changes (if skip_next c then ys else seen (token c)) ys \<and>
        cb_finalize changes = Some (changes_to_deliver c'))"
      by (auto simp: told_def packaged_as_def)
  qed
  then show ?thesis using assms(2) cs(1) cs'(1)
    by (simp add: prepare_handover_def add_changes_def package_for_delivery_def realm_assert_def moved_out_def
        cs_empty_def empty_def empty_builder_def)
qed

definition some_changes :: change_set where
  "some_changes = empty_changes\<lparr>moves := [\<lparr>move_from = 0, move_to = 1\<rparr>]\<rparr>"

definition packaged_callbacks :: "'f list \<Rightarrow> 'f notifier" where
  "packaged_callbacks fs = (new_notifier 0)\<lparr>
     callbacks := map (\<lambda>i. \<lparr>fn = fs ! i, accumulated_changes = empty_builder, changes_to_deliver = some_changes,
       token = of_nat i, initial_delivered = True, skip_next = False\<rparr>) [0..<length fs],
     callback_count := of_nat (length fs), next_token := of_nat (length fs), have_callbacks := fs \<noteq> []\<rparr>"

text \<open>Removing an added callback during a delivery takes the last packaged one from those that are still to come.\<close>

lemma remove_added:
  assumes "stage {} room dn (td @ [e]) ad n" "tok \<in> token ` set ad"
  shows "returns (remove_callback tok n) (stage {} room dn td (e # without {tok} ad))"
proof -
  note n = stageD[OF assms(1)]
  have small: "length dn + length (td @ [e]) + length ad < 2 ^ 64" using stage_length[OF assms(1)] by simp
  obtain i where i: "i < length (callbacks n)" "token (callbacks n ! i) = tok"
    and r: "remove_callback tok n = Some (n\<lparr>
       callback_index := (if callback_index n \<noteq> no_index \<and> callback_index n \<ge> of_nat i then callback_index n - 1 else callback_index n),
       callback_count := callback_count n - 1, callbacks := without {tok} (callbacks n),
       have_callbacks := without {tok} (callbacks n) \<noteq> []\<rparr>)"
    using remove_callback_eq[of tok n] assms(2) n(1,4) by auto
  have out: "tok \<notin> token ` set dn" "tok \<notin> token ` set (td @ [e])" using n(4) assms(2) by (auto simp: image_iff)
  have "\<not> i < length dn" using position_in_front[of dn "(td @ [e]) @ ad" i tok] i n(1,4) out by simp
  moreover have "callback_index n \<noteq> no_index \<and> callback_index n \<ge> of_nat i \<longleftrightarrow> i < length dn"
    unfolding n(2) using small i(1) n(1) by (intro index_step) simp_all
  moreover have "without {tok} dn = dn" "without {tok} (td @ [e]) = td @ [e]"
    by (rule without_other, use out in blast)+
  then have w: "without {tok} (dn @ (td @ [e]) @ ad) = dn @ td @ e # without {tok} ad"
    unfolding without_append by simp
  moreover have "distinct (map token (dn @ td @ e # without {tok} ad))"
    using distinct_without[OF n(4), of "{tok}"] unfolding w .
  moreover have "\<forall>c\<in>set (dn @ td @ e # without {tok} ad). token c < next_token n"
    using n(5) by (auto simp: without_def)
  ultimately show ?thesis
    using n(1-3,6,7) by (simp add: r stage_def del: without_append map_append distinct_append set_append)
qed

text \<open>C29. A callback that is added and removed again during a delivery: \<open>remove_callback\<close> counts it as one of the packaged
  ones. If all packaged callbacks have something to be told and the first call does this, all of them but the last are called;
  the last one stays registered with its changes undelivered. Without it all are called.\<close>

theorem removal_of_added_callback:
  assumes "stage {} (Suc room) [] (c # cs @ [e]) ad n"
    and "\<forall>d\<in>set (c # cs @ [e]). \<not> (initial_delivered d \<and> cs_empty (changes_to_deliver d))"
  shows "returns (after_advance [] n) (\<lambda>(calls, n'). map fst calls = map token (c # cs @ [e])) \<and>
    returns (after_advance [[Add True h, Remove (next_token n)]] n) (\<lambda>(calls, n').
      map fst calls = map token (c # cs) \<and> e \<in> set (callbacks n'))"
proof -
  have due: "map fst (due after_visitor [] ds) = map token ds" if "set ds \<subseteq> set (c # cs @ [e])" for ds
  proof -
    have "filter (\<lambda>d. after_visitor d \<noteq> None) ds = ds" using assms(2) that by (auto simp: after_visitor_def filter_id_conv)
    then show ?thesis by (simp add: due_nothing_removed comp_def)
  qed
  have "stage {} (additions (concat []) + Suc room) [] (c # cs @ [e]) ad n" using assms(1) by simp
  from after.for_each_stage[OF this, of False] obtain n' where "for_each_callback after_visitor False [] n =
      Some (due after_visitor [] (c # cs @ [e]), n')" by auto
  then have all: "returns (after_advance [] n) (\<lambda>(calls, n'). map fst calls = map token (c # cs @ [e]))"
    using due[of "c # cs @ [e]"] by (simp only: after_advance_def returns_iff) auto
  define m where "m = n\<lparr>callback_index := callback_index n + 1\<rparr>"
  have head: "at_head {} (Suc room) [] (c # cs @ [e]) ad m" using assms(1) by (simp add: m_def)
  note entry = head_entry[OF head]
  obtain cb call where v: "after_visitor c = Some (cb, call)" "token cb = token c"
    using assms(2) by (auto simp: after_visitor_def)
  define m1 where "m1 = m\<lparr>callbacks := [] @ cb # (cs @ [e]) @ ad\<rparr>"
  have m1: "stage {} (Suc room) [cb] (cs @ [e]) ad m1"
    using head_advance[OF head v(2)] unfolding m1_def append_Nil .
  have tok: "next_token m1 = next_token n" by (simp add: m1_def m_def)
  from add_stage[OF m1, of True h] obtain ad1 m2 where m2: "operate (Add True h) m1 = Some m2"
      "stage {} room [cb] (cs @ [e]) (ad @ ad1) m2" "next_token n \<in> token ` set (ad @ ad1)"
    by (auto simp: tok)
  from remove_added[OF m2(2,3)] obtain m3 where m3: "remove_callback (next_token n) m2 = Some m3"
      "stage {} room [cb] cs (e # without {next_token n} (ad @ ad1)) m3" by (auto simp: returns_iff)
  define k where "k = m3\<lparr>callback_index := callback_index m3 + 1\<rparr>"
  have "k\<lparr>callback_index := callback_index k - 1\<rparr> = m3" by (simp add: k_def)
  then have "at_head {} (additions (concat []) + room) [cb] cs (e # without {next_token n} (ad @ ad1)) k" using m3(2) by simp
  from after.visit_stage[OF this, of False] obtain n' dn' ad' where r: "visit_from after_visitor False [] k = Some (due after_visitor [] cs, n')"
      "stage {} room [] dn' ((e # without {next_token n} (ad @ ad1)) @ ad') n'" by auto
  have "after_call False [[Add True h, Remove (next_token n)]] (token cb) m1 = Some m3"
    using m2(1) m3(1) by (simp add: after_call_def)
  then have "after_advance [[Add True h, Remove (next_token n)]] n = Some ((token cb, call) # due after_visitor [] cs, n')"
    using entry v r(1) by (simp add: after_advance_def for_each_callback_def m_def[symmetric])
      (subst visit_from.simps, simp add: m1_def k_def)
  moreover have "e \<in> set (callbacks n')" using stageD(1)[OF r(2)] by simp
  ultimately show ?thesis using all due[of cs] v(2) by auto
qed

text \<open>C28. The registered callbacks: tokens are distinct and less than the next one, and \<open>m_have_callbacks\<close> says whether there are
  any. A new notifier satisfies this, adding callbacks and removing or suppressing registered ones keep it, and
  so do new changes; packaging makes the notifier ready to deliver to all registered callbacks.\<close>

theorem registration_keeps_invariant:
  assumes "registered (additions ops + room) n" "uses {} (token ` set (callbacks n)) ops"
  shows "registered room (new_notifier version) \<and>
    returns (operate_all ops n) (\<lambda>n'. registered room n' \<and> (have_callbacks n' \<longleftrightarrow> callbacks n' \<noteq> []) \<and>
      token ` set (callbacks n') - {next_token n..} = token ` set (callbacks n) - removals ops \<and>
      (\<forall>change n''. add_changes change n' = Some n'' \<longrightarrow> registered room n'') \<and>
      (\<forall>n''. package_for_delivery True n' = Some (True, n'') \<longrightarrow> stage {} room [] (callbacks n'') [] n''))"
proof -
  obtain n' cs ad where r: "operate_all ops n = Some n'" "registered room n'" "callbacks n' = cs @ ad"
    "likes (without (removals ops) (callbacks n)) cs" "token ` set ad \<subseteq> {next_token n..}"
    using operate_registered[OF assms] by blast
  have n: "stage {} (additions ops + room) [] (callbacks n) [] (n\<lparr>callback_count := of_nat (length (callbacks n))\<rparr>)"
    using assms(1) by (simp add: registered_def)
  have "token ` set cs = token ` set (callbacks n) - removals ops" using likes_token_set[OF r(4)] by simp
  moreover have "\<forall>c\<in>set (callbacks n). token c < next_token n" using stageD(5)[OF n] by simp
  ultimately have "token ` set (callbacks n') - {next_token n..} = token ` set (callbacks n) - removals ops"
    using r(3,5) by (simp add: image_Un Un_Diff) fastforce
  moreover have "registered room n''" if "add_changes change n' = Some n''" for change n''
    using that registered_tokens[OF r(2)] add_changes_to_tokens by (auto simp: add_changes_def)
  moreover have "stage {} room [] (callbacks n'') [] n''" if package: "package_for_delivery True n' = Some (True, n'')" for n''
  proof -
    obtain cs' where cs': "finalize_all (callbacks n') = Some cs'" "n'' = n'\<lparr>callbacks := cs', callback_count := of_nat (length cs')\<rparr>"
      using package by (auto simp: package_for_delivery_def split: Option.bind_splits)
    then show ?thesis using registered_tokens[OF r(2) finalize_all_tokens[OF cs'(1)]] by (simp add: registered_def)
  qed
  moreover have "have_callbacks n' \<longleftrightarrow> callbacks n' \<noteq> []"
    using r(2) stageD(11)[of "{}" room "[]" "callbacks n'" "[]" "n'\<lparr>callback_count := of_nat (length (callbacks n'))\<rparr>"]
    by (simp add: registered_def)
  moreover have "room < 2 ^ 64" using stageD(6)[OF n] by simp
  ultimately show ?thesis using r(1,2) new_notifier_registered by simp
qed

lemma packaged_two: "stage {} 5 [] (callbacks (packaged_callbacks [''f'', ''g''])) [] (packaged_callbacks [''f'', ''g''])"
  by (simp add: stage_def packaged_callbacks_def new_notifier_def no_index_def)

theorem removal_of_added_callback_witness:
  "returns (after_advance [[Add True ''h'', Remove 2]] (packaged_callbacks [''f'', ''g''])) (\<lambda>(calls, n). map fst calls = [0])"
proof -
  define e where "e = callbacks (packaged_callbacks [''f'', ''g'']) ! 1"
  define c where "c = callbacks (packaged_callbacks [''f'', ''g'']) ! 0"
  have cs: "callbacks (packaged_callbacks [''f'', ''g'']) = c # [] @ [e]" by (simp add: c_def e_def packaged_callbacks_def)
  have "stage {} (Suc 4) [] (c # [] @ [e]) [] (packaged_callbacks [''f'', ''g''])"
    using packaged_two unfolding cs by simp
  moreover have "\<forall>d\<in>set (c # [] @ [e]). \<not> (initial_delivered d \<and> cs_empty (changes_to_deliver d))"
    by (simp add: c_def e_def packaged_callbacks_def some_changes_def empty_changes_def cs_empty_def empty_def)
  moreover have "next_token (packaged_callbacks [''f'', ''g'']) = 2" "token c = 0" by (simp_all add: packaged_callbacks_def c_def)
  ultimately show ?thesis using removal_of_added_callback[of 4 c "[]" e "[]" "packaged_callbacks [''f'', ''g'']" "''h''"]
    by (auto elim!: returns_mono)
qed

theorem callbacks_called_witness:
  "returns (after_advance [[Remove 1, Add True ''h'']] (packaged_callbacks [''f'', ''g''])) (\<lambda>(calls, n). map fst calls = [0])"
proof -
  have "stage {} (additions (concat [[Remove 1, Add True ''h'']]) + 4) [] (callbacks (packaged_callbacks [''f'', ''g''])) []
      (packaged_callbacks [''f'', ''g''])" using packaged_two by simp
  moreover have "uses {} (token ` set (callbacks (packaged_callbacks [''f'', ''g'']))) (concat [[Remove 1, Add True ''h'']])"
    by (simp add: packaged_callbacks_def)
  ultimately show ?thesis using callbacks_called[of "[[Remove 1, Add True ''h'']]" 4 "callbacks (packaged_callbacks [''f'', ''g''])" "[]"
      "packaged_callbacks [''f'', ''g'']"]
    by (auto elim!: returns_mono simp: packaged_callbacks_def without_def after_visitor_def some_changes_def empty_changes_def
        cs_empty_def empty_def)
qed

theorem errors_delivered_witness:
  "returns (deliver_error [[Add True ''h''], [Remove 0]] (packaged_callbacks [''f'', ''g''])) (\<lambda>(calls, n). map fst calls = [0, 1])"
proof -
  have "registered (additions (concat [[Add True ''h''], [Remove (0 :: 64 word)]]) + 4) (packaged_callbacks [''f'', ''g''])"
    using registered_stage[OF packaged_two] by simp
  moreover have "uses (token ` set (callbacks (packaged_callbacks [''f'', ''g'']))) (token ` set (callbacks (packaged_callbacks [''f'', ''g''])))
      (concat [[Add True ''h''], [Remove 0]])"
    by (simp add: packaged_callbacks_def)
  ultimately show ?thesis using errors_delivered[of "[[Add True ''h''], [Remove 0]]" 4 "packaged_callbacks [''f'', ''g'']"]
    by (auto elim!: returns_mono simp: packaged_callbacks_def without_def error_visitor_def)
qed

theorem registration_keeps_invariant_witness:
  "returns (operate_all [Add True ''h'', Remove 1] (packaged_callbacks [''f'', ''g''])) (\<lambda>n. registered 4 n)"
proof -
  have "registered (additions [Add True ''h'', Remove (1 :: 64 word)] + 4) (packaged_callbacks [''f'', ''g''])"
    using registered_stage[OF packaged_two] by simp
  moreover have "uses {} (token ` set (callbacks (packaged_callbacks [''f'', ''g'']))) [Add True ''h'', Remove 1]"
    by (simp add: packaged_callbacks_def)
  ultimately show ?thesis
    by (rule returns_mono[OF conjunct2[OF registration_keeps_invariant]]) blast
qed

text \<open>A notifier with one callback that was told of two rows, and a change that removes the first of them.\<close>

theorem changes_told_witness:
  "\<exists>d. cb_erase empty_builder 0 = Some d \<and>
    returns (do { n \<leftarrow> prepare_handover 7 ((packaged_callbacks [''f''])\<lparr>pending_change := d, transaction_set := True\<rparr>);
                  package_for_delivery True n })
      (\<lambda>(deliver, n). \<exists>changes. describes changes [10, 20 :: int] [20] \<and>
        cb_finalize changes = Some (changes_to_deliver (callbacks n ! 0)))"
proof -
  obtain d where d: "cb_erase empty_builder 0 = Some d" "describes d [10, 20] [20 :: int]"
    using erase_props[OF describes_empty, of 0 "[10, 20 :: int]"] by (auto simp: returns_iff remove_row_def npos_def)
  define n where "n = (packaged_callbacks [''f''])\<lparr>pending_change := d, transaction_set := True\<rparr>"
  have "iset_of (deletions d) \<subseteq> {..<2}" using d(2) by (auto simp: describes_def applies_def)
  then have "card (iset_of (deletions d)) \<le> card {..<2 :: nat}" by (intro card_mono) auto
  then have "add_room (deletions empty_builder) (deletions d)" by (simp add: add_room_def empty_builder_def max_size_def ranges_def)
  then have "\<forall>c\<in>set (callbacks n). describes (accumulated_changes c) [10, 20 :: int] [10, 20] \<and>
      (if skip_next c then cs_empty (accumulated_changes c)
       else add_room (deletions (accumulated_changes c)) (deletions (pending_change n)))"
    by (simp add: n_def packaged_callbacks_def describes_empty)
  moreover have "describes (pending_change n) [10, 20] [20 :: int]" "transaction_set n" using d(2) by (simp_all add: n_def)
  ultimately have "returns (do { n \<leftarrow> prepare_handover 7 n; package_for_delivery True n })
      (\<lambda>(deliver, n'). \<exists>changes. describes changes [10, 20 :: int] [20] \<and>
        cb_finalize changes = Some (changes_to_deliver (callbacks n' ! 0)))"
    using changes_told[of n "[10, 20 :: int]" "[20]" "\<lambda>_. [10, 20]" 7]
    by (auto elim!: returns_mono simp: n_def packaged_callbacks_def list_all2_Cons1)
  then show ?thesis using d(1) unfolding n_def by blast
qed

end
