(* ===== verification/DeepChangeChecker.thy ===== *)
theory DeepChangeChecker
  imports TransactObserver
begin

text \<open>
  \<open>DeepChangeChecker\<close> (impl/collection_notifier.cpp and .hpp): the tables that can be reached by links, and the search
  for a modified object among those that an object links to, directly or over other objects.

  The tables themselves belong to the storage engine; a \<open>table_store\<close> is what the code asks them for. \<open>None\<close> is a
  computation that does not return, or an access to an object that does not exist.
\<close>

section \<open>Tables\<close>

datatype column_kind = Link_column | Link_list_column | Other_column

record table_store =
  column_keys :: "int \<Rightarrow> int list"
  column_kind :: "int \<Rightarrow> int \<Rightarrow> column_kind"
  link_target :: "int \<Rightarrow> int \<Rightarrow> int"
  object_exists :: "int \<Rightarrow> int \<Rightarrow> bool"
  link_at :: "int \<Rightarrow> int \<Rightarrow> int \<Rightarrow> int option"
  link_list_at :: "int \<Rightarrow> int \<Rightarrow> int \<Rightarrow> int list"

record outgoing_link =
  col_key :: int
  is_list :: bool

record related_table =
  table_key :: int
  links :: "outgoing_link list"

section \<open>The related tables\<close>

definition is_link :: "table_store \<Rightarrow> int \<Rightarrow> int \<Rightarrow> bool" where
  "is_link g table col \<longleftrightarrow> column_kind g table col = Link_column \<or> column_kind g table col = Link_list_column"

definition outgoing :: "table_store \<Rightarrow> int \<Rightarrow> int \<Rightarrow> outgoing_link" where
  "outgoing g table col = \<lparr>col_key = col, is_list = (column_kind g table col = Link_list_column)\<rparr>"

text \<open>
  A call for a table (\<open>Inl\<close>), or what is left of the loop over the columns of one (\<open>Inr\<close>), whose
  entry is at the given place.
\<close>

partial_function (option) find_related_tables_from ::
  "table_store \<Rightarrow> int + int \<times> nat \<times> int list \<Rightarrow> related_table list \<Rightarrow> related_table list option" where
  "find_related_tables_from g job out =
     (case job of
        Inl table \<Rightarrow>
          if list_ex (\<lambda>t. table_key t = table) out then Some out
          else find_related_tables_from g (Inr (table, length out, column_keys g table))
                 (out @ [\<lparr>table_key = table, links = []\<rparr>])
      | Inr (table, out_index, []) \<Rightarrow> Some out
      | Inr (table, out_index, col # cols) \<Rightarrow>
          if is_link g table col then do {
            realm_assert (out_index < length out);
            let out = out[out_index := (out ! out_index)\<lparr>links := links (out ! out_index) @ [outgoing g table col]\<rparr>];
            out \<leftarrow> find_related_tables_from g (Inl (link_target g table col)) out;
            find_related_tables_from g (Inr (table, out_index, cols)) out
          }
          else find_related_tables_from g (Inr (table, out_index, cols)) out)"

definition find_related_tables :: "table_store \<Rightarrow> related_table list \<Rightarrow> int \<Rightarrow> related_table list option" where
  "find_related_tables g out table = find_related_tables_from g (Inl table) out"

text \<open>The related tables of a notifier for a table, and what it asks to be recorded of a transaction
  (\<open>wanted\<close> is the result of \<open>do_add_required_change_info\<close>).\<close>

definition set_table :: "table_store \<Rightarrow> int \<Rightarrow> related_table list option" where
  "set_table g table = find_related_tables g [] table"

definition add_required_change_info :: "bool \<Rightarrow> related_table list \<Rightarrow> change_info \<Rightarrow> change_info" where
  "add_required_change_info wanted related info =
     (if \<not> wanted \<or> related = [] then info
      else info\<lparr>info_tables := fold (\<lambda>t ts. AList.update (table_key t) (table_changes_at ts (table_key t)) ts)
        related (info_tables info)\<rparr>)"

text \<open>The versions of tables, as pairs of a key and a version.\<close>

definition all_related_tables_covered :: "related_table list \<Rightarrow> (int \<times> nat) list \<Rightarrow> bool" where
  "all_related_tables_covered related versions \<longleftrightarrow>
     \<not> length related > length versions \<and> list_all (\<lambda>t. list_ex (\<lambda>v. fst v = table_key t) versions) related"

section \<open>The search\<close>

record path_entry =
  path_obj :: int
  path_col :: int
  depth_exceeded :: bool

record checker =
  ck_info :: change_info
  root_table :: int
  root_changes :: "object_changes option"
  not_modified :: "(int \<times> int) set"
  related_tables :: "related_table list"
  current_path :: "path_entry list"

definition new_checker :: "change_info \<Rightarrow> int \<Rightarrow> related_table list \<Rightarrow> checker" where
  "new_checker info table related =
     \<lparr>ck_info = info, root_table = table, root_changes = map_of (info_tables info) table, not_modified = {},
      related_tables = related, current_path = replicate 4 \<lparr>path_obj = 0, path_col = 0, depth_exceeded = False\<rparr>\<rparr>"

definition is_modified :: "change_info \<Rightarrow> int \<Rightarrow> int \<Rightarrow> bool" where
  "is_modified info table key =
     (case map_of (info_tables info) table of None \<Rightarrow> False | Some c \<Rightarrow> modifications_contains c key)"

text \<open>Marks the entries of the path from \<open>i\<close> up to \<open>k\<close>.\<close>

definition mark_exceeded :: "nat \<Rightarrow> nat \<Rightarrow> checker \<Rightarrow> checker" where
  "mark_exceeded i k s = s\<lparr>current_path :=
     map (\<lambda>j. if i \<le> j \<and> j < k then (current_path s ! j)\<lparr>depth_exceeded := True\<rparr> else current_path s ! j)
       [0..<length (current_path s)]\<rparr>"

definition already_checking :: "int \<Rightarrow> int \<Rightarrow> nat \<Rightarrow> checker \<Rightarrow> bool \<times> checker" where
  "already_checking obj col depth s =
     (let match = find_if_from 0 (\<lambda>p. path_obj p = obj \<and> path_col p = col) (take depth (current_path s)) in
      if match \<noteq> depth then (True, mark_exceeded match depth s)
      else (False, s\<lparr>current_path := (current_path s)[depth := \<lparr>path_obj = obj, path_col = col, depth_exceeded = False\<rparr>]\<rparr>))"

function check_row :: "table_store \<Rightarrow> int \<Rightarrow> int \<Rightarrow> nat \<Rightarrow> checker \<Rightarrow> (bool \<times> checker) option"
  and check_links :: "table_store \<Rightarrow> int \<Rightarrow> int \<Rightarrow> nat \<Rightarrow> outgoing_link list \<Rightarrow> checker \<Rightarrow> (bool \<times> checker) option"
  and check_rows :: "table_store \<Rightarrow> int \<Rightarrow> int list \<Rightarrow> nat \<Rightarrow> checker \<Rightarrow> (bool \<times> checker) option" where
  "check_row g table key depth s =
     (if depth \<ge> 4 then Some (False, mark_exceeded 0 4 s)
      else if depth > 0 \<and> is_modified (ck_info s) table key then Some (True, s)
      else if (table, key) \<in> not_modified s then Some (False, s)
      else do {
        (ret, s) \<leftarrow>
          (case find (\<lambda>t. table_key t = table) (related_tables s) of
             None \<Rightarrow> Some (False, s)
           | Some t \<Rightarrow>
               if links t = [] then Some (False, s)
               else do { realm_assert (object_exists g table key); check_links g table key depth (links t) s });
        Some (ret, if \<not> ret \<and> (depth = 0 \<or> \<not> depth_exceeded (current_path s ! (depth - 1)))
                   then s\<lparr>not_modified := insert (table, key) (not_modified s)\<rparr> else s)
      })"
| "check_links g table obj depth [] s = Some (False, s)"
| "check_links g table obj depth (link # ls) s =
     do {
       let (checking, s) = already_checking obj (col_key link) depth s;
       (changed, s) \<leftarrow>
         (if checking then Some (False, s)
          else if \<not> is_list link then
            (case link_at g table obj (col_key link) of
               None \<Rightarrow> Some (False, s)
             | Some dst \<Rightarrow> check_row g (link_target g table (col_key link)) dst (depth + 1) s)
          else check_rows g (link_target g table (col_key link)) (link_list_at g table obj (col_key link)) (depth + 1) s);
       if changed then Some (True, s) else check_links g table obj depth ls s
     }"
| "check_rows g table [] depth s = Some (False, s)"
| "check_rows g table (key # keys) depth s =
     do {
       (changed, s) \<leftarrow> check_row g table key depth s;
       if changed then Some (True, s) else check_rows g table keys depth s
     }"
  by pat_completeness auto
termination
  by (relation "measures
      [case_sum (\<lambda>(g, t, k, d, s). if 4 \<le> d then 0 else 3 * (4 - d) + 2)
        (case_sum (\<lambda>(g, t, k, d, ls, s). 3 * (4 - d) + 1) (\<lambda>(g, t, ks, d, s). if 4 \<le> d then 0 else 3 * (4 - d) + 2)),
       case_sum (\<lambda>_. 0) (case_sum (\<lambda>(g, t, k, d, ls, s). length ls) (\<lambda>(g, t, ks, d, s). length ks))]") auto

declare check_row.simps [simp del]

definition check_object :: "table_store \<Rightarrow> int \<Rightarrow> checker \<Rightarrow> (bool \<times> checker) option" where
  "check_object g key s =
     (case root_changes s of
        Some c \<Rightarrow> if modifications_contains c key then Some (True, s) else check_row g (root_table s) key 0 s
      | None \<Rightarrow> check_row g (root_table s) key 0 s)"

section \<open>The checker of a notifier\<close>

text \<open>What \<open>get_modification_checker\<close> returns, and the new related tables of the notifier.\<close>

datatype modification_checker = Never | Table_only object_changes | Deep checker

definition get_modification_checker ::
  "table_store \<Rightarrow> change_info \<Rightarrow> int \<Rightarrow> related_table list \<Rightarrow> (modification_checker \<times> related_table list) option" where
  "get_modification_checker g info root related =
     do {
       related \<leftarrow> if schema_changed info then set_table g root else Some related;
       if \<not> list_ex (\<lambda>t. case map_of (info_tables info) (table_key t) of
             None \<Rightarrow> False | Some c \<Rightarrow> \<not> modifications_empty c) related
       then Some (Never, related)
       else if length related = 1
       then Some (Table_only (table_changes_at (info_tables info) (table_key (hd related))), related)
       else Some (Deep (new_checker info root related), related)
     }"

definition ask_checker :: "table_store \<Rightarrow> int \<Rightarrow> modification_checker \<Rightarrow> (bool \<times> modification_checker) option" where
  "ask_checker g key m =
     (case m of
        Never \<Rightarrow> Some (False, Never)
      | Table_only c \<Rightarrow> Some (modifications_contains c key, Table_only c)
      | Deep s \<Rightarrow> map_option (apsnd Deep) (check_object g key s))"

end
