(* ===== verification/DeepChangeCorrect.thy ===== *)
theory DeepChangeCorrect
  imports DeepChangeChecker
begin

text \<open>
  Correctness of the deep change checker. The related tables are exactly those that can be reached over
  links. The search finds a modified object exactly if one can be reached over one to three links; what it remembers as
  not modified, and the parts of the search it leaves out, never hide one.
\<close>

section \<open>The related tables\<close>

definition link_columns :: "table_store \<Rightarrow> int \<Rightarrow> int list" where
  "link_columns g t = filter (is_link g t) (column_keys g t)"

definition linked :: "table_store \<Rightarrow> int \<Rightarrow> int \<Rightarrow> bool" where
  "linked g t u \<longleftrightarrow> (\<exists>c\<in>set (link_columns g t). link_target g t c = u)"

definition entry_of :: "table_store \<Rightarrow> int \<Rightarrow> related_table" where
  "entry_of g t = \<lparr>table_key = t, links = map (outgoing g t) (link_columns g t)\<rparr>"

abbreviation keys_of :: "related_table list \<Rightarrow> int set" where
  "keys_of out \<equiv> table_key ` set out"

text \<open>The entries that a call adds for tables that can be reached from \<open>t\<close>.\<close>

definition complete_for :: "table_store \<Rightarrow> int \<Rightarrow> related_table list \<Rightarrow> related_table list \<Rightarrow> bool" where
  "complete_for g t out' new \<longleftrightarrow> (\<forall>r\<in>set new. r = entry_of g (table_key r) \<and> (linked g)\<^sup>*\<^sup>* t (table_key r) \<and>
     (\<forall>u. linked g (table_key r) u \<longrightarrow> u \<in> keys_of out'))"

lemma complete_for_more:
  assumes "complete_for g t out' new" "(linked g)\<^sup>*\<^sup>* t' t" "keys_of out' \<subseteq> keys_of out''"
  shows "complete_for g t' out'' new"
  using assms by (fastforce simp: complete_for_def)

lemma complete_for_append: "complete_for g t out (new @ new') \<longleftrightarrow> complete_for g t out new \<and> complete_for g t out new'"
  by (auto simp: complete_for_def)

definition job_size :: "int + int \<times> nat \<times> int list \<Rightarrow> nat" where
  "job_size job = (case job of Inl t \<Rightarrow> 0 | Inr (t, i, cs) \<Rightarrow> Suc (length cs))"

fun job_done :: "table_store \<Rightarrow> int + int \<times> nat \<times> int list \<Rightarrow> related_table list \<Rightarrow> related_table list \<Rightarrow> bool" where
  "job_done g (Inl t) out out' \<longleftrightarrow> (\<exists>new. out' = out @ new \<and> (distinct (map table_key out) \<longrightarrow> distinct (map table_key out')) \<and>
     t \<in> keys_of out' \<and> complete_for g t out' new)"
| "job_done g (Inr (t, i, cs)) out out' \<longleftrightarrow>
     (\<exists>new. out' = out[i := (out ! i)\<lparr>links := links (out ! i) @ map (outgoing g t) (filter (is_link g t) cs)\<rparr>] @ new \<and>
       (distinct (map table_key out) \<longrightarrow> distinct (map table_key out')) \<and>
       (\<forall>c\<in>set cs. is_link g t c \<longrightarrow> link_target g t c \<in> keys_of out') \<and> complete_for g t out' new)"

fun job_ok :: "table_store \<Rightarrow> int set \<Rightarrow> int + int \<times> nat \<times> int list \<Rightarrow> related_table list \<Rightarrow> bool" where
  "job_ok g R (Inl t) out \<longleftrightarrow> t \<in> R"
| "job_ok g R (Inr (t, i, cs)) out \<longleftrightarrow> t \<in> R \<and> i < length out \<and> table_key (out ! i) = t \<and> set cs \<subseteq> set (column_keys g t)"

lemma keys_update: "i < length out \<Longrightarrow> table_key r = table_key (out ! i) \<Longrightarrow> map table_key (out[i := r]) = map table_key out"
  by (simp add: map_update list_update_same_conv)

lemma keys_of_update: "i < length out \<Longrightarrow> table_key r = table_key (out ! i) \<Longrightarrow> keys_of (out[i := r]) = keys_of out"
  by (metis keys_update set_map)

lemma find_related_tables_from_done:
  assumes R: "finite R" "\<forall>t\<in>R. \<forall>u. linked g t u \<longrightarrow> u \<in> R" and "job_ok g R job out"
  shows "returns (find_related_tables_from g job out) (job_done g job out)"
  using assms(3)
proof (induction "(job, out)" arbitrary: job out
    rule: wf_induct_rule[OF wf_measures[of "[\<lambda>(job, out). card (R - keys_of out), \<lambda>(job, out). job_size job]"]])
  case (1 job out)
  have IH: "returns (find_related_tables_from g job' out') (job_done g job' out')"
    if "card (R - keys_of out') < card (R - keys_of out) \<or> R - keys_of out' \<subseteq> R - keys_of out \<and> job_size job' < job_size job"
      "job_ok g R job' out'" for job' out'
  proof (rule 1(1)[OF _ that(2)])
    have "card (R - keys_of out') \<le> card (R - keys_of out)" if "R - keys_of out' \<subseteq> R - keys_of out"
      using that R(1) by (intro card_mono) auto
    then show "((job', out'), (job, out)) \<in> measures [\<lambda>(job, out). card (R - keys_of out), \<lambda>(job, out). job_size job]"
      using that(1) by (auto simp: order.order_iff_strict)
  qed
  show ?case
  proof (cases job)
    case (Inl t)
    show ?thesis
    proof (cases "t \<in> keys_of out")
      case True
      then have "list_ex (\<lambda>r. table_key r = t) out" by (auto simp: list_ex_iff)
      then show ?thesis using True Inl by (subst find_related_tables_from.simps) (simp add: complete_for_def)
    next
      case False
      define out1 where "out1 = out @ [\<lparr>table_key = t, links = []\<rparr>]"
      have "find_related_tables_from g job out = find_related_tables_from g (Inr (t, length out, column_keys g t)) out1"
        using False Inl by (subst find_related_tables_from.simps) (auto simp: list_ex_iff out1_def)
      moreover have "returns (find_related_tables_from g (Inr (t, length out, column_keys g t)) out1)
          (job_done g (Inr (t, length out, column_keys g t)) out1)"
      proof (rule IH)
        have "R - keys_of out1 \<subset> R - keys_of out" using False 1(2) Inl by (auto simp: out1_def)
        then show "card (R - keys_of out1) < card (R - keys_of out) \<or>
            R - keys_of out1 \<subseteq> R - keys_of out \<and> job_size (Inr (t, length out, column_keys g t)) < job_size job"
          using R(1) by (simp add: psubset_card_mono)
        show "job_ok g R (Inr (t, length out, column_keys g t)) out1" using 1(2) Inl by (simp add: out1_def)
      qed
      moreover have "job_done g job out out'" if fin: "job_done g (Inr (t, length out, column_keys g t)) out1 out'" for out'
      proof -
        obtain new where new: "out' = out1[length out := (out1 ! length out)\<lparr>links := links (out1 ! length out) @ map (outgoing g t) (filter (is_link g t) (column_keys g t))\<rparr>] @ new"
          "distinct (map table_key out1) \<longrightarrow> distinct (map table_key out')"
          "\<forall>c\<in>set (column_keys g t). is_link g t c \<longrightarrow> link_target g t c \<in> keys_of out'" "complete_for g t out' new"
          using fin by auto
        have out': "out' = out @ (entry_of g t # new)"
          using new(1) by (simp add: out1_def entry_of_def link_columns_def list_update_append)
        have "complete_for g t out' (entry_of g t # new)"
          using new(3,4) by (auto simp: complete_for_def linked_def link_columns_def entry_of_def)
        moreover have "distinct (map table_key out) \<longrightarrow> distinct (map table_key out')"
          using new(2) False by (auto simp: out1_def)
        moreover have "t \<in> keys_of out'" by (simp add: out' entry_of_def)
        ultimately show ?thesis using Inl out' by auto
      qed
      ultimately show ?thesis by (auto elim: returns_mono)
    qed
  next
    case (Inr b)
    then obtain t i cols where job: "job = Inr (t, i, cols)" by (cases b) auto
    show ?thesis
    proof (cases cols)
      case Nil
      then show ?thesis using job by (subst find_related_tables_from.simps) (simp add: complete_for_def)
    next
      case (Cons c cs)
      have ok: "t \<in> R" "i < length out" "table_key (out ! i) = t" "c \<in> set (column_keys g t)" "set cs \<subseteq> set (column_keys g t)"
        using 1(2) job Cons by auto
      show ?thesis
      proof (cases "is_link g t c")
        case False
        have "returns (find_related_tables_from g (Inr (t, i, cs)) out) (job_done g (Inr (t, i, cs)) out)"
          using ok job Cons by (intro IH) (auto simp: job_size_def)
        then show ?thesis using False job Cons by (subst find_related_tables_from.simps) (auto elim!: returns_mono)
      next
        case True
        define u where "u = link_target g t c"
        have tu: "linked g t u" using True ok(4) by (auto simp: linked_def link_columns_def u_def)
        define out1 where "out1 = out[i := (out ! i)\<lparr>links := links (out ! i) @ [outgoing g t c]\<rparr>]"
        have keys1: "keys_of out1 = keys_of out" "map table_key out1 = map table_key out" "length out1 = length out"
          using ok(2) by (simp_all add: out1_def keys_of_update keys_update)
        have u: "returns (find_related_tables_from g (Inl u) out1) (job_done g (Inl u) out1)"
          using R(2) ok(1) tu job Cons by (intro IH) (auto simp: job_size_def keys1)
        obtain out2 new1 where 2: "find_related_tables_from g (Inl u) out1 = Some out2" "out2 = out1 @ new1"
          "distinct (map table_key out1) \<longrightarrow> distinct (map table_key out2)" "u \<in> keys_of out2" "complete_for g u out2 new1"
          using u by (auto simp: returns_iff)
        have i2: "i < length out2" "table_key (out2 ! i) = t" "out2 ! i = (out ! i)\<lparr>links := links (out ! i) @ [outgoing g t c]\<rparr>"
          using ok(2,3) by (simp_all add: 2(2) nth_append keys1(3)) (simp_all add: out1_def)
        have "keys_of out \<subseteq> keys_of out2" unfolding 2(2) keys1(1)[symmetric] by auto
        then have "returns (find_related_tables_from g (Inr (t, i, cs)) out2) (job_done g (Inr (t, i, cs)) out2)"
          using ok i2 job Cons by (intro IH disjI2) (auto simp: job_size_def)
        then obtain out3 new2 where 3: "find_related_tables_from g (Inr (t, i, cs)) out2 = Some out3"
          "out3 = out2[i := (out2 ! i)\<lparr>links := links (out2 ! i) @ map (outgoing g t) (filter (is_link g t) cs)\<rparr>] @ new2"
          "distinct (map table_key out2) \<longrightarrow> distinct (map table_key out3)"
          "\<forall>c\<in>set cs. is_link g t c \<longrightarrow> link_target g t c \<in> keys_of out3" "complete_for g t out3 new2"
          by (auto simp: returns_iff)
        have k23: "keys_of out2 \<subseteq> keys_of out3" using i2(1) by (simp add: 3(2) keys_of_update image_Un)
        have "complete_for g t out3 (new1 @ new2)"
          using complete_for_more[OF 2(5) _ k23, of t] tu 3(5) by (auto simp: complete_for_append)
        moreover have "\<forall>c\<in>set cols. is_link g t c \<longrightarrow> link_target g t c \<in> keys_of out3"
          using 3(4) 2(4) k23 Cons by (auto simp: u_def)
        moreover have "out3 = out[i := (out ! i)\<lparr>links := links (out ! i) @ map (outgoing g t) (filter (is_link g t) cols)\<rparr>] @ (new1 @ new2)"
          using ok(2) True Cons by (simp add: 3(2) i2(3)) (simp add: 2(2) out1_def list_update_append)
        moreover have "distinct (map table_key out) \<longrightarrow> distinct (map table_key out3)" using 2(3) 3(3) keys1(2) by simp
        ultimately have "job_done g job out out3" unfolding job by auto
        moreover have "find_related_tables_from g job out = Some out3"
          using True ok(2) job Cons 2(1) 3(1)
          by (subst find_related_tables_from.simps) (simp add: realm_assert_def out1_def u_def)
        ultimately show ?thesis by simp
      qed
    qed
  qed
qed

lemma find_related_tables_done:
  assumes "finite {u. (linked g)\<^sup>*\<^sup>* t u}"
  shows "returns (find_related_tables g [] t) (\<lambda>out. distinct (map table_key out) \<and> keys_of out = {u. (linked g)\<^sup>*\<^sup>* t u} \<and>
    (\<forall>r\<in>set out. r = entry_of g (table_key r)))"
proof -
  let ?R = "{u. (linked g)\<^sup>*\<^sup>* t u}"
  have "\<forall>t\<in>?R. \<forall>u. linked g t u \<longrightarrow> u \<in> ?R" by (auto intro: rtranclp.rtrancl_into_rtrancl)
  then have "returns (find_related_tables_from g (Inl t) []) (job_done g (Inl t) [])"
    by (intro find_related_tables_from_done[OF assms]) simp_all
  moreover have "distinct (map table_key out) \<and> keys_of out = ?R \<and> (\<forall>r\<in>set out. r = entry_of g (table_key r))"
    if "job_done g (Inl t) [] out" for out
  proof -
    have d: "distinct (map table_key out)" "t \<in> keys_of out" "complete_for g t out out" using that by auto
    have "u \<in> keys_of out" if "(linked g)\<^sup>*\<^sup>* t u" for u
      using that by (induction rule: rtranclp_induct) (use d in \<open>auto simp: complete_for_def\<close>)
    then show ?thesis using d by (auto simp: complete_for_def)
  qed
  ultimately show ?thesis unfolding find_related_tables_def by (blast intro: returns_mono)
qed

section \<open>Reachable modifications\<close>

text \<open>\<open>link_step g v w\<close>: a link of the object \<open>v\<close>, a pair of a table and a key, leads to \<open>w\<close>.\<close>

definition leads :: "table_store \<Rightarrow> int \<times> int \<Rightarrow> int \<Rightarrow> int \<times> int \<Rightarrow> bool" where
  "leads g v c w \<longleftrightarrow> c \<in> set (link_columns g (fst v)) \<and> fst w = link_target g (fst v) c \<and>
     (if column_kind g (fst v) c = Link_list_column then snd w \<in> set (link_list_at g (fst v) (snd v) c)
      else link_at g (fst v) (snd v) c = Some (snd w))"

definition link_step :: "table_store \<Rightarrow> int \<times> int \<Rightarrow> int \<times> int \<Rightarrow> bool" where
  "link_step g v w \<longleftrightarrow> (\<exists>c. leads g v c w)"

text \<open>A modified object can be reached over exactly \<open>k\<close> links; over 1 to \<open>n\<close> links; over \<open>k\<close> links from different
  objects outside \<open>A\<close>.\<close>

fun walk :: "table_store \<Rightarrow> change_info \<Rightarrow> nat \<Rightarrow> int \<times> int \<Rightarrow> bool" where
  "walk g info 0 v \<longleftrightarrow> is_modified info (fst v) (snd v)"
| "walk g info (Suc k) v \<longleftrightarrow> (\<exists>w. link_step g v w \<and> walk g info k w)"

definition near_modified :: "table_store \<Rightarrow> change_info \<Rightarrow> nat \<Rightarrow> int \<times> int \<Rightarrow> bool" where
  "near_modified g info n v \<longleftrightarrow> (\<exists>k. 1 \<le> k \<and> k \<le> n \<and> walk g info k v)"

fun route :: "table_store \<Rightarrow> change_info \<Rightarrow> nat \<Rightarrow> (int \<times> int) set \<Rightarrow> int \<times> int \<Rightarrow> bool" where
  "route g info 0 A v \<longleftrightarrow> is_modified info (fst v) (snd v)"
| "route g info (Suc k) A v \<longleftrightarrow> v \<notin> A \<and> (\<exists>w. link_step g v w \<and> route g info k (insert v A) w)"

declare walk.simps [simp del] route.simps [simp del]

lemma route_walk: "route g info k A v \<Longrightarrow> walk g info k v"
proof (induction k arbitrary: A v)
  case (Suc k)
  then show ?case unfolding route.simps walk.simps by blast
qed (simp add: route.simps walk.simps)

lemma shortest_walk_route:
  assumes "walk g info k v" "\<forall>j. 1 \<le> j \<and> j < k \<longrightarrow> \<not> walk g info j v"
    and "\<forall>u\<in>A. \<forall>j. 1 \<le> j \<and> j \<le> k \<longrightarrow> \<not> walk g info j u"
  shows "route g info k A v"
  using assms
proof (induction k arbitrary: v A)
  case (Suc k)
  obtain w where w: "link_step g v w" "walk g info k w" using Suc.prems(1) unfolding walk.simps by blast
  have "route g info k (insert v A) w"
  proof (rule Suc.IH[OF w(2)])
    show "\<forall>j. 1 \<le> j \<and> j < k \<longrightarrow> \<not> walk g info j w"
    proof (intro allI impI notI)
      fix j assume j: "1 \<le> j \<and> j < k" "walk g info j w"
      then have "walk g info (Suc j) v" using w(1) unfolding walk.simps by blast
      then show False using Suc.prems(2) j(1) by simp
    qed
    show "\<forall>u\<in>insert v A. \<forall>j. 1 \<le> j \<and> j \<le> k \<longrightarrow> \<not> walk g info j u"
      using Suc.prems(2,3) by auto
  qed
  moreover have "v \<notin> A"
  proof
    assume "v \<in> A"
    then have "\<not> walk g info (Suc k) v" using Suc.prems(3) by simp
    then show False using Suc.prems(1) by contradiction
  qed
  ultimately show ?case using w(1) unfolding route.simps by blast
qed (simp add: route.simps walk.simps)

lemma near_route:
  assumes "near_modified g info n v"
  shows "\<exists>k. 1 \<le> k \<and> k \<le> n \<and> route g info k {} v"
proof -
  define k where "k = (LEAST k. 1 \<le> k \<and> walk g info k v)"
  obtain m where m: "1 \<le> m" "m \<le> n" "walk g info m v" using assms unfolding near_modified_def by blast
  have k: "1 \<le> k \<and> walk g info k v" unfolding k_def using m by (intro LeastI[of "\<lambda>k. 1 \<le> k \<and> walk g info k v" m]) simp
  have "k \<le> m" unfolding k_def using m by (intro Least_le) simp
  moreover have "\<not> walk g info j v" if "1 \<le> j" "j < k" for j
    using not_less_Least[of j "\<lambda>k. 1 \<le> k \<and> walk g info k v"] that unfolding k_def by blast
  then have "route g info k {} v" using k by (intro shortest_walk_route) auto
  ultimately show ?thesis using k m(2) by (intro exI[of _ k]) simp
qed

lemma near_step: "link_step g v w \<Longrightarrow> is_modified info (fst w) (snd w) \<or> near_modified g info n w \<Longrightarrow> near_modified g info (Suc n) v"
  unfolding near_modified_def
proof (elim disjE exE conjE)
  assume "link_step g v w" "is_modified info (fst w) (snd w)"
  then have "walk g info 1 v" unfolding One_nat_def walk.simps by blast
  then show "\<exists>k. 1 \<le> k \<and> k \<le> Suc n \<and> walk g info k v" by (intro exI[of _ 1]) simp
next
  fix k assume "link_step g v w" "1 \<le> k" "k \<le> n" "walk g info k w"
  then have "walk g info (Suc k) v" "Suc k \<le> Suc n" unfolding walk.simps by blast+
  then show "\<exists>k. 1 \<le> k \<and> k \<le> Suc n \<and> walk g info k v" by (intro exI[of _ "Suc k"]) simp
qed

section \<open>The search\<close>

text \<open>
  What the search relies on: the entries of the related tables \<open>T\<close> are right, links lead to tables of \<open>T\<close>
  and to existing objects, and two tables have no link column in common.
\<close>

definition searchable :: "table_store \<Rightarrow> related_table list \<Rightarrow> int set \<Rightarrow> bool" where
  "searchable g rel T \<longleftrightarrow> (\<forall>t\<in>T. find (\<lambda>r. table_key r = t) rel = Some (entry_of g t)) \<and>
     (\<forall>t\<in>T. \<forall>u. linked g t u \<longrightarrow> u \<in> T) \<and>
     (\<forall>t\<in>T. \<forall>u\<in>T. set (link_columns g t) \<inter> set (link_columns g u) \<noteq> {} \<longrightarrow> t = u) \<and>
     (\<forall>v w. fst v \<in> T \<longrightarrow> object_exists g (fst v) (snd v) \<longrightarrow> link_step g v w \<longrightarrow> object_exists g (fst w) (snd w))"

lemma searchable_unique:
  "searchable g rel T \<Longrightarrow> t \<in> T \<Longrightarrow> u \<in> T \<Longrightarrow> c \<in> set (link_columns g t) \<Longrightarrow> c \<in> set (link_columns g u) \<Longrightarrow> t = u"
  unfolding searchable_def by blast

lemma searchable_step:
  "searchable g rel T \<Longrightarrow> fst v \<in> T \<Longrightarrow> leads g v c w \<Longrightarrow> fst w \<in> T"
  "searchable g rel T \<Longrightarrow> fst v \<in> T \<Longrightarrow> object_exists g (fst v) (snd v) \<Longrightarrow> leads g v c w \<Longrightarrow> object_exists g (fst w) (snd w)"
  unfolding searchable_def linked_def leads_def link_step_def by (metis, blast)

text \<open>The objects \<open>ns\<close> on the current path.\<close>

definition tracks :: "table_store \<Rightarrow> int set \<Rightarrow> (int \<times> int) list \<Rightarrow> checker \<Rightarrow> bool" where
  "tracks g T ns s \<longleftrightarrow> length (current_path s) = 4 \<and> length ns \<le> 4 \<and>
     (\<forall>i<length ns. fst (ns ! i) \<in> T \<and> path_obj (current_path s ! i) = snd (ns ! i) \<and>
        path_col (current_path s ! i) \<in> set (link_columns g (fst (ns ! i))))"

abbreviation flagged :: "checker \<Rightarrow> nat \<Rightarrow> bool" where
  "flagged s i \<equiv> depth_exceeded (current_path s ! i)"

definition sound :: "table_store \<Rightarrow> change_info \<Rightarrow> related_table list \<Rightarrow> checker \<Rightarrow> bool" where
  "sound g info rel s \<longleftrightarrow> ck_info s = info \<and> related_tables s = rel \<and> (\<forall>v\<in>not_modified s. \<not> near_modified g info 3 v)"

definition keeps :: "table_store \<Rightarrow> change_info \<Rightarrow> related_table list \<Rightarrow> int set \<Rightarrow> (int \<times> int) list \<Rightarrow> checker \<Rightarrow> checker \<Rightarrow> bool" where
  "keeps g info rel T ns s s' \<longleftrightarrow> sound g info rel s' \<and> tracks g T ns s' \<and> root_table s' = root_table s \<and>
     root_changes s' = root_changes s \<and> (\<forall>i<length ns. flagged s i \<longrightarrow> flagged s' i)"

lemma keeps_refl: "sound g info rel s \<Longrightarrow> tracks g T ns s \<Longrightarrow> keeps g info rel T ns s s"
  by (simp add: keeps_def)

lemma keeps_trans: "keeps g info rel T ns s s' \<Longrightarrow> keeps g info rel T ns s' s'' \<Longrightarrow> keeps g info rel T ns s s''"
  by (simp add: keeps_def)

lemma tracks_less: "tracks g T (ns @ ms) s \<Longrightarrow> tracks g T ns s"
  by (simp add: tracks_def) (metis nth_append trans_less_add1)

lemma keeps_less: "keeps g info rel T (ns @ ms) s s' \<Longrightarrow> keeps g info rel T ns s s'"
  unfolding keeps_def by (auto intro: tracks_less)

text \<open>
  A search from depth \<open>d\<close> that finds nothing says something of routes over \<open>k\<close> links if the limit of the depth
  is not in the way (for \<open>n = 0\<close>), or if the entry before \<open>n\<close> was not marked.
\<close>

definition decided :: "nat \<Rightarrow> nat \<Rightarrow> nat \<Rightarrow> checker \<Rightarrow> bool" where
  "decided d n k s \<longleftrightarrow> n = 0 \<and> k + d \<le> 3 \<or> 0 < n \<and> n \<le> d \<and> \<not> flagged s (n - 1) \<and> k \<le> 3"

definition row_done :: "table_store \<Rightarrow> change_info \<Rightarrow> (int \<times> int) list \<Rightarrow> int \<times> int \<Rightarrow> bool \<Rightarrow> checker \<Rightarrow> bool" where
  "row_done g info ns v ret s \<longleftrightarrow>
     (if ret then length ns \<le> 3 \<and> (0 < length ns \<and> is_modified info (fst v) (snd v) \<or> near_modified g info (3 - length ns) v)
      else \<forall>k n. decided (length ns) n k s \<longrightarrow> (k = 0 \<longrightarrow> 0 < length ns) \<longrightarrow> \<not> route g info k (set (drop n ns)) v)"

definition links_done :: "table_store \<Rightarrow> change_info \<Rightarrow> (int \<times> int) list \<Rightarrow> int \<times> int \<Rightarrow> int set \<Rightarrow> bool \<Rightarrow> checker \<Rightarrow> bool" where
  "links_done g info ns v cols ret s \<longleftrightarrow>
     (if ret then near_modified g info (3 - length ns) v
      else \<forall>c\<in>cols. \<forall>w. leads g v c w \<longrightarrow> (\<forall>k n. decided (length ns) n (Suc k) s \<longrightarrow> v \<notin> set (drop n ns) \<longrightarrow>
        \<not> route g info k (insert v (set (drop n ns))) w))"

lemma row_doneD:
  "row_done g info ns v False s \<Longrightarrow> decided (length ns) n k s \<Longrightarrow> (k = 0 \<Longrightarrow> 0 < length ns) \<Longrightarrow>
    \<not> route g info k (set (drop n ns)) v"
  unfolding row_done_def by (simp only: if_False) blast

lemma links_doneD:
  "links_done g info ns v cols False s \<Longrightarrow> c \<in> cols \<Longrightarrow> leads g v c w \<Longrightarrow> decided (length ns) n (Suc k) s \<Longrightarrow>
    v \<notin> set (drop n ns) \<Longrightarrow> \<not> route g info k (insert v (set (drop n ns))) w"
  unfolding links_done_def by (simp only: if_False) blast

lemma decided_later: "decided d n k s' \<Longrightarrow> (\<forall>i<d. flagged s i \<longrightarrow> flagged s' i) \<Longrightarrow> decided d n k s"
  by (auto simp: decided_def)

lemma row_done_later:
  "row_done g info ns v False s \<Longrightarrow> keeps g info rel T ns s s' \<Longrightarrow> row_done g info ns v False s'"
  unfolding row_done_def keeps_def by (auto dest: decided_later)

lemma links_done_later:
  "links_done g info ns v cols False s \<Longrightarrow> keeps g info rel T ns s s' \<Longrightarrow> links_done g info ns v cols False s'"
  unfolding links_done_def keeps_def by (auto dest: decided_later)

text \<open>Marking entries.\<close>

lemma mark_entry:
  "j < length (current_path s) \<Longrightarrow> current_path (mark_exceeded i k s) ! j =
     (if i \<le> j \<and> j < k then (current_path s ! j)\<lparr>depth_exceeded := True\<rparr> else current_path s ! j)"
  by (simp add: mark_exceeded_def)

lemma mark_keeps:
  assumes "sound g info rel s" "tracks g T ns s"
  shows "keeps g info rel T ns s (mark_exceeded i k s)"
proof -
  have "length (current_path (mark_exceeded i k s)) = length (current_path s)" by (simp add: mark_exceeded_def)
  moreover have "sound g info rel (mark_exceeded i k s)" using assms(1) by (simp add: sound_def mark_exceeded_def)
  moreover have "root_table (mark_exceeded i k s) = root_table s" "root_changes (mark_exceeded i k s) = root_changes s"
    by (simp_all add: mark_exceeded_def)
  ultimately show ?thesis using assms(2) by (simp add: keeps_def tracks_def mark_entry)
qed

text \<open>Looking for a link on the path: it is there, or it is put there.\<close>

lemma already_checking_cases:
  assumes "searchable g rel T" "sound g info rel s" "tracks g T ns s" "length ns \<le> 3"
    and "fst v \<in> T" "c \<in> set (link_columns g (fst v))"
  obtains (seen) i where "i < length ns" "ns ! i = v"
      "already_checking (snd v) c (length ns) s = (True, mark_exceeded i (length ns) s)"
  | (fresh) s' where "already_checking (snd v) c (length ns) s = (False, s')" "tracks g T (ns @ [v]) s'"
      "keeps g info rel T ns s s'"
proof -
  let ?d = "length ns"
  define p where "p = (\<lambda>e :: path_entry. path_obj e = snd v \<and> path_col e = c)"
  define match where "match = find_if_from 0 p (take ?d (current_path s))"
  have len: "length (take ?d (current_path s)) = ?d" using assms(3,4) by (simp add: tracks_def)
  have m: "match = length (takeWhile (\<lambda>e. \<not> p e) (take ?d (current_path s)))" by (simp add: match_def find_if_from_def)
  then have "match \<le> ?d" using length_takeWhile_le[of "\<lambda>e. \<not> p e" "take ?d (current_path s)"] len by simp
  show thesis
  proof (cases "match = ?d")
    case True
    define s' where "s' = s\<lparr>current_path := (current_path s)[?d := \<lparr>path_obj = snd v, path_col = c, depth_exceeded = False\<rparr>]\<rparr>"
    have "already_checking (snd v) c ?d s = (False, s')"
      using True by (simp add: already_checking_def match_def p_def s'_def Let_def)
    moreover have "tracks g T (ns @ [v]) s'"
      using assms(3-6) by (auto simp: tracks_def s'_def nth_append nth_list_update)
    moreover have "keeps g info rel T ns s s'"
      using assms(2-4) by (auto simp: keeps_def sound_def tracks_def s'_def nth_list_update)
    ultimately show thesis by (rule fresh)
  next
    case False
    then have less: "match < ?d" using \<open>match \<le> ?d\<close> by simp
    then have "p (take ?d (current_path s) ! match)"
      using nth_length_takeWhile[of "\<lambda>e. \<not> p e" "take ?d (current_path s)"] len m by simp
    then have "path_obj (current_path s ! match) = snd v" "path_col (current_path s ! match) = c"
      using less by (simp_all add: p_def)
    moreover have n: "fst (ns ! match) \<in> T" "path_obj (current_path s ! match) = snd (ns ! match)"
      "path_col (current_path s ! match) \<in> set (link_columns g (fst (ns ! match)))"
      using assms(3) less by (auto simp: tracks_def)
    moreover have "fst (ns ! match) = fst v"
      using searchable_unique[OF assms(1) n(1) assms(5) n(3)] assms(6) calculation(2) by simp
    ultimately have "ns ! match = v" by (simp add: prod_eq_iff)
    moreover have "already_checking (snd v) c ?d s = (True, mark_exceeded match ?d s)"
      using False by (simp add: already_checking_def match_def p_def Let_def)
    ultimately show thesis using seen less by blast
  qed
qed

text \<open>The three functions of the search, by induction over its calls.\<close>

lemma links_done_Cons:
  "links_done g info ns v {c} False s \<Longrightarrow> links_done g info ns v cols ret s \<Longrightarrow> links_done g info ns v (insert c cols) ret s"
  by (auto simp: links_done_def)

lemma seen_done:
  assumes "i < length ns" "ns ! i = v" "length ns \<le> 4" "length (current_path s) = 4"
  shows "links_done g info ns v {c} False (mark_exceeded i (length ns) s)"
proof -
  have False if "decided (length ns) n (Suc k) (mark_exceeded i (length ns) s)" "v \<notin> set (drop n ns)" for k n
  proof (cases "n \<le> i")
    case True
    then have "drop n ns ! (i - n) = v" "i - n < length (drop n ns)" using assms(1,2) by simp_all
    then have "v \<in> set (drop n ns)" by (metis nth_mem)
    then show False using that(2) by contradiction
  next
    case False
    have n: "0 < n" "n \<le> length ns" using that(1) False by (auto simp: decided_def)
    then have "i \<le> n - 1" "n - 1 < length ns" "n - 1 < length (current_path s)" using False assms(3,4) by simp_all
    then have "flagged (mark_exceeded i (length ns) s) (n - 1)" by (simp only: mark_entry) simp
    then show False using that(1) n by (simp add: decided_def)
  qed
  then show ?thesis by (auto simp: links_done_def)
qed

lemma row_links_done:
  assumes "length ns \<le> 3" "leads g v c w" "row_done g info (ns @ [v]) w ret s" "ret"
  shows "near_modified g info (3 - length ns) v"
proof -
  have "length ns \<le> 2" "is_modified info (fst w) (snd w) \<or> near_modified g info (3 - (length ns + 1)) w"
    using assms(3,4) by (auto simp: row_done_def)
  moreover have "3 - length ns = Suc (3 - (length ns + 1))" using calculation(1) by simp
  moreover have "link_step g v w" using assms(2) by (auto simp: link_step_def)
  ultimately show ?thesis using near_step by metis
qed

lemma rows_links_done:
  assumes "\<And>w. leads g v c w \<Longrightarrow> row_done g info (ns @ [v]) w False s"
  shows "links_done g info ns v {c} False s"
proof -
  have "\<not> route g info k (insert v (set (drop n ns))) w"
    if "leads g v c w" "decided (length ns) n (Suc k) s" for w k n
  proof -
    have n: "n \<le> length ns" using that(2) by (auto simp: decided_def)
    have "decided (length (ns @ [v])) n k s" using that(2) by (auto simp: decided_def)
    then have "\<not> route g info k (set (drop n (ns @ [v]))) w" using assms[OF that(1)] by (auto simp: row_done_def)
    then show ?thesis using n by simp
  qed
  then show ?thesis by (auto simp: links_done_def)
qed

lemma explored_done:
  assumes "links_done g info ns v (set (link_columns g (fst v))) ret s" "length ns \<le> 3"
    and "0 < length ns \<Longrightarrow> \<not> is_modified info (fst v) (snd v)"
  shows "row_done g info ns v ret s"
proof (cases ret)
  case True
  then show ?thesis using assms(1,2) by (simp add: row_done_def links_done_def)
next
  case False
  have "\<not> route g info k (set (drop n ns)) v" if "decided (length ns) n k s" "k = 0 \<longrightarrow> 0 < length ns" for k n
  proof (cases k)
    case 0
    then show ?thesis using that(2) assms(3) by (simp add: route.simps)
  next
    case (Suc m)
    have "\<not> route g info m (insert v (set (drop n ns))) w" if "v \<notin> set (drop n ns)" "link_step g v w" for w
    proof -
      obtain c where c: "leads g v c w" using \<open>link_step g v w\<close> by (auto simp: link_step_def)
      then have "c \<in> set (link_columns g (fst v))" by (simp add: leads_def)
      then show ?thesis
        using links_doneD[OF _ _ c _ that(1)] assms(1) False \<open>decided (length ns) n k s\<close> Suc by metis
    qed
    then show ?thesis using Suc by (auto simp: route.simps)
  qed
  then show ?thesis using False by (simp add: row_done_def)
qed

text \<open>What is remembered as not modified has no modified object near it.\<close>

lemma row_done_remember:
  assumes "row_done g info ns v False s" "length ns = 0 \<or> length ns \<le> 3 \<and> \<not> flagged s (length ns - 1)"
  shows "\<not> near_modified g info 3 v"
proof
  assume "near_modified g info 3 v"
  then obtain k where k: "1 \<le> k" "k \<le> 3" "route g info k {} v" using near_route by blast
  have "decided (length ns) (length ns) k s" using assms(2) k(2) by (auto simp: decided_def)
  then have "\<not> route g info k (set (drop (length ns) ns)) v" 
    using row_doneD[OF assms(1), of "length ns" k] k(1) by simp
  then show False using k(3) by simp
qed

lemma remembered_done:
  assumes "\<not> near_modified g info 3 v" "0 < length ns \<Longrightarrow> \<not> is_modified info (fst v) (snd v)"
  shows "row_done g info ns v False s"
proof -
  have "\<not> route g info k A v" if "k \<le> 3" "k = 0 \<longrightarrow> 0 < length ns" for k A
  proof
    assume r: "route g info k A v"
    show False
    proof (cases k)
      case 0
      then show False using r that(2) assms(2) by (simp add: route.simps)
    next
      case (Suc m)
      then show False using route_walk[OF r] that(1) assms(1) unfolding near_modified_def by fastforce
    qed
  qed
  then show ?thesis by (auto simp: row_done_def decided_def)
qed

lemma too_deep_done:
  assumes "length ns = 4" "length (current_path s) = 4"
  shows "row_done g info ns v False (mark_exceeded 0 4 s)"
proof -
  have "\<not> decided 4 n k (mark_exceeded 0 4 s)" for n k
  proof
    assume "decided 4 n k (mark_exceeded 0 4 s)"
    then have n: "0 < n" "n \<le> 4" "\<not> flagged (mark_exceeded 0 4 s) (n - 1)" by (auto simp: decided_def)
    then have "n - 1 < 4" by simp
    then have "flagged (mark_exceeded 0 4 s) (n - 1)" using assms(2) by (simp only: mark_entry) simp
    then show False using n(3) by contradiction
  qed
  then show ?thesis using assms(1) by (simp add: row_done_def)
qed

definition rows_done :: "table_store \<Rightarrow> change_info \<Rightarrow> (int \<times> int) list \<Rightarrow> int \<Rightarrow> int list \<Rightarrow> bool \<Rightarrow> checker \<Rightarrow> bool" where
  "rows_done g info ns table keys ret s \<longleftrightarrow>
     (if ret then \<exists>key\<in>set keys. row_done g info ns (table, key) True s
      else \<forall>key\<in>set keys. row_done g info ns (table, key) False s)"

lemma search_row:
  assumes S: "searchable g rel T" and d: "depth = length ns" "length ns \<le> 4" and s: "sound g info rel s" "tracks g T ns s"
    and v: "table \<in> T" "object_exists g table key"
    and links: "depth \<le> 3 \<Longrightarrow> returns (check_links g table key depth (map (outgoing g table) (link_columns g table)) s)
      (\<lambda>(ret, s'). keeps g info rel T ns s s' \<and> links_done g info ns (table, key) (set (link_columns g table)) ret s')"
  shows "returns (check_row g table key depth s) (\<lambda>(ret, s'). keeps g info rel T ns s s' \<and> row_done g info ns (table, key) ret s')"
proof -
  have info: "ck_info s = info" "related_tables s = rel" using s(1) by (simp_all add: sound_def)
  have entry: "find (\<lambda>t. table_key t = table) rel = Some (entry_of g table)" using S v(1) by (simp add: searchable_def)
  consider (deep) "depth \<ge> 4" | (modified) "depth \<le> 3" "depth > 0" "is_modified info table key"
    | (known) "depth \<le> 3" "\<not> (depth > 0 \<and> is_modified info table key)" "(table, key) \<in> not_modified s"
    | (explore) "depth \<le> 3" "\<not> (depth > 0 \<and> is_modified info table key)" "(table, key) \<notin> not_modified s"
    by linarith
  then show ?thesis
  proof cases
    case deep
    then show ?thesis using d s mark_keeps[OF s, of 0 4] too_deep_done[of ns s g info "(table, key)"]
      by (subst check_row.simps) (simp add: tracks_def)
  next
    case modified
    then show ?thesis using keeps_refl[OF s] d info by (subst check_row.simps) (simp add: row_done_def)
  next
    case known
    then have "\<not> near_modified g info 3 (table, key)" using s(1) by (simp add: sound_def)
    then have "row_done g info ns (table, key) False s" using known(2) d by (intro remembered_done) auto
    then show ?thesis using known keeps_refl[OF s] d info by (subst check_row.simps) auto
  next
    case explore
    have "returns (case find (\<lambda>t. table_key t = table) (related_tables s) of None \<Rightarrow> Some (False, s)
        | Some t \<Rightarrow> if links t = [] then Some (False, s)
            else do { realm_assert (object_exists g table key); check_links g table key depth (links t) s })
        (\<lambda>(ret, s'). keeps g info rel T ns s s' \<and> row_done g info ns (table, key) ret s')"
    proof (cases "link_columns g table = []")
      case True
      have "links_done g info ns (table, key) (set (link_columns g (fst (table, key)))) False s"
        using True by (simp add: links_done_def)
      then have "row_done g info ns (table, key) False s" using explore d by (intro explored_done) auto
      then show ?thesis using True keeps_refl[OF s] by (simp add: info entry entry_of_def)
    next
      case False
      have "returns (check_links g table key depth (map (outgoing g table) (link_columns g table)) s)
          (\<lambda>(ret, s'). keeps g info rel T ns s s' \<and> row_done g info ns (table, key) ret s')"
        using links[OF explore(1)] explored_done[of g info ns "(table, key)"] explore d by (auto elim!: returns_mono)
      then show ?thesis using False v(2) by (simp add: info entry entry_of_def realm_assert_def)
    qed
    then obtain ret s1 where r: "(case find (\<lambda>t. table_key t = table) (related_tables s) of None \<Rightarrow> Some (False, s)
        | Some t \<Rightarrow> if links t = [] then Some (False, s)
            else do { realm_assert (object_exists g table key); check_links g table key depth (links t) s }) = Some (ret, s1)"
      and post: "keeps g info rel T ns s s1" "row_done g info ns (table, key) ret s1"
      by (auto simp: returns_iff)
    define s2 where "s2 = (if \<not> ret \<and> (depth = 0 \<or> \<not> flagged s1 (depth - 1))
      then s1\<lparr>not_modified := insert (table, key) (not_modified s1)\<rparr> else s1)"
    have "check_row g table key depth s = Some (ret, s2)"
      using explore info r by (subst check_row.simps) (auto simp: s2_def)
    moreover have "keeps g info rel T ns s s2 \<and> row_done g info ns (table, key) ret s2"
    proof (cases "\<not> ret \<and> (depth = 0 \<or> \<not> flagged s1 (depth - 1))")
      case True
      then have "\<not> near_modified g info 3 (table, key)"
        using post(2) explore(1) d by (intro row_done_remember[of g info ns "(table, key)" s1]) auto
      moreover have same: "s2 = s1\<lparr>not_modified := insert (table, key) (not_modified s1)\<rparr>" using True by (simp add: s2_def)
      ultimately have "keeps g info rel T ns s s2" using post(1) by (simp add: keeps_def sound_def tracks_def)
      moreover have "row_done g info ns (table, key) ret s2"
        using post(2) by (cases ret) (simp_all add: row_done_def decided_def same)
      ultimately show ?thesis by simp
    next
      case False
      then have "s2 = s1" by (simp only: s2_def if_False)
      then show ?thesis using post by simp
    qed
    ultimately show ?thesis by simp
  qed
qed

definition row_ok :: "table_store \<Rightarrow> change_info \<Rightarrow> related_table list \<Rightarrow> int set \<Rightarrow> (int \<times> int) list \<Rightarrow> bool" where
  "row_ok g info rel T ns \<longleftrightarrow> (\<forall>s table key. sound g info rel s \<longrightarrow> tracks g T ns s \<longrightarrow> table \<in> T \<longrightarrow> object_exists g table key \<longrightarrow>
     returns (check_row g table key (length ns) s) (\<lambda>(ret, s'). keeps g info rel T ns s s' \<and> row_done g info ns (table, key) ret s'))"

lemma search_rows:
  assumes "row_ok g info rel T ns" "sound g info rel s" "tracks g T ns s" "table \<in> T" "\<forall>key\<in>set keys. object_exists g table key"
  shows "returns (check_rows g table keys (length ns) s)
    (\<lambda>(ret, s'). keeps g info rel T ns s s' \<and> rows_done g info ns table keys ret s')"
  using assms(2,3,5)
proof (induction keys arbitrary: s)
  case Nil
  then show ?case using keeps_refl by (simp add: rows_done_def)
next
  case (Cons key keys)
  obtain ret s1 where r: "check_row g table key (length ns) s = Some (ret, s1)" "keeps g info rel T ns s s1"
    "row_done g info ns (table, key) ret s1"
    using assms(1)[unfolded row_ok_def, rule_format, OF Cons.prems(1,2) assms(4), of key] Cons.prems(3)
    by (auto simp: returns_iff)
  show ?case
  proof (cases ret)
    case True
    then show ?thesis using r by (simp add: rows_done_def)
  next
    case False
    have "sound g info rel s1" "tracks g T ns s1" using r(2) by (simp_all add: keeps_def)
    then obtain ret2 s2 where r2: "check_rows g table keys (length ns) s1 = Some (ret2, s2)" "keeps g info rel T ns s1 s2"
      "rows_done g info ns table keys ret2 s2"
      using Cons.IH[of s1] Cons.prems(3) by (auto simp: returns_iff)
    have "rows_done g info ns table (key # keys) ret2 s2"
      using r2(3) row_done_later[of g info ns "(table, key)" s1] r(3) r2(2) False by (auto simp: rows_done_def)
    then show ?thesis using r(1) r2(1) False keeps_trans[OF r(2) r2(2)] by simp
  qed
qed

lemma search_links:
  assumes S: "searchable g rel T" and row: "\<And>v. row_ok g info rel T (ns @ [v])" and ns: "length ns \<le> 3"
    and v: "table \<in> T" "object_exists g table obj"
    and "sound g info rel s" "tracks g T ns s" "set cs \<subseteq> set (link_columns g table)"
  shows "returns (check_links g table obj (length ns) (map (outgoing g table) cs) s)
    (\<lambda>(ret, s'). keeps g info rel T ns s s' \<and> links_done g info ns (table, obj) (set cs) ret s')"
  using assms(6-)
proof (induction cs arbitrary: s)
  case Nil
  then show ?case using keeps_refl by (simp add: links_done_def)
next
  case (Cons c cs)
  let ?v = "(table, obj)"
  have c: "c \<in> set (link_columns g (fst ?v))" using Cons.prems(3) by simp
  have fv: "fst ?v \<in> T" using v(1) by simp
  define visit where "visit = (\<lambda>(checking, s). if checking then Some (False, s)
     else if \<not> is_list (outgoing g table c) then
       (case link_at g table obj c of
          None \<Rightarrow> Some (False, s)
        | Some dst \<Rightarrow> check_row g (link_target g table c) dst (length ns + 1) s)
     else check_rows g (link_target g table c) (link_list_at g table obj c) (length ns + 1) s)"
  have visit: "returns (visit (already_checking obj c (length ns) s)) (\<lambda>(ret, s'). keeps g info rel T ns s s' \<and>
      links_done g info ns ?v {c} ret s')"
  proof -
    consider (seen) i where "i < length ns" "ns ! i = ?v" "already_checking obj c (length ns) s = (True, mark_exceeded i (length ns) s)"
      | (fresh) s' where "already_checking obj c (length ns) s = (False, s')" "tracks g T (ns @ [?v]) s'"
        "keeps g info rel T ns s s'"
      by (rule already_checking_cases[OF S Cons.prems(1,2) ns fv c]) auto
    then show ?thesis
  proof cases
    case (seen i)
    then show ?thesis using mark_keeps[OF Cons.prems(1,2)] seen_done[of i ns ?v s g info c] Cons.prems(2) ns
      by (simp add: visit_def tracks_def)
  next
    case (fresh s')
    have s': "sound g info rel s'" using fresh(3) by (simp add: keeps_def)
    have w: "fst w \<in> T" "object_exists g (fst w) (snd w)" if "leads g ?v c w" for w
      using searchable_step(1)[OF S fv that] searchable_step(2)[OF S fv _ that] v(2) by simp_all
    show ?thesis
    proof (cases "column_kind g table c = Link_list_column")
      case list: True
      define keys where "keys = link_list_at g table obj c"
      have leads: "leads g ?v c w \<longleftrightarrow> fst w = link_target g table c \<and> snd w \<in> set keys" for w
        using c list by (simp add: leads_def keys_def)
      have "returns (check_rows g (link_target g table c) keys (length (ns @ [?v])) s')
          (\<lambda>(ret, s''). keeps g info rel T (ns @ [?v]) s' s'' \<and> rows_done g info (ns @ [?v]) (link_target g table c) keys ret s'')"
      proof (cases keys)
        case Nil
        then show ?thesis using keeps_refl[OF s' fresh(2)] by (simp add: rows_done_def)
      next
        case (Cons key keys')
        then have "link_target g table c \<in> T" using w(1)[of "(link_target g table c, key)"] leads by simp
        moreover have "\<forall>key\<in>set keys. object_exists g (link_target g table c) key" using w(2) leads by fastforce
        ultimately show ?thesis using search_rows[OF row s' fresh(2)] by blast
      qed
      moreover have "visit (already_checking obj c (length ns) s) = check_rows g (link_target g table c) keys (length (ns @ [?v])) s'"
        using fresh(1) list by (simp add: visit_def outgoing_def keys_def)
      moreover have "links_done g info ns ?v {c} ret s''"
        if rows: "rows_done g info (ns @ [?v]) (link_target g table c) keys ret s''" for ret s''
      proof (cases ret)
        case True
        then obtain key where "key \<in> set keys" "row_done g info (ns @ [?v]) (link_target g table c, key) True s''"
          using rows by (auto simp: rows_done_def)
        then show ?thesis using row_links_done[OF ns, of g ?v c "(link_target g table c, key)"] leads True
          by (simp add: links_done_def)
      next
        case False
        have "row_done g info (ns @ [?v]) w False s''" if "leads g ?v c w" for w
          using \<open>rows_done g info (ns @ [?v]) (link_target g table c) keys ret s''\<close> that False
          by (cases w) (auto simp: rows_done_def leads)
        then show ?thesis using False rows_links_done[of g ?v c info ns s''] by simp
      qed
      ultimately show ?thesis using keeps_trans[OF fresh(3) keeps_less] by (auto elim!: returns_mono)
    next
      case single: False
      then have leads: "leads g ?v c w \<longleftrightarrow> fst w = link_target g table c \<and> link_at g table obj c = Some (snd w)" for w
        using c by (simp add: leads_def)
      show ?thesis
      proof (cases "link_at g table obj c")
        case None
        then have "links_done g info ns ?v {c} False s'" using leads by (simp add: links_done_def)
        then show ?thesis using fresh(1,3) single None by (simp add: visit_def outgoing_def)
      next
        case (Some dst)
        let ?w = "(link_target g table c, dst)"
        have to: "leads g ?v c ?w" using leads Some by simp
        have "returns (check_row g (link_target g table c) dst (length (ns @ [?v])) s')
            (\<lambda>(ret, s''). keeps g info rel T (ns @ [?v]) s' s'' \<and> row_done g info (ns @ [?v]) ?w ret s'')"
          using row[of ?v] s' fresh(2) w[OF to] unfolding row_ok_def by simp
        moreover have "links_done g info ns ?v {c} ret s''" if "row_done g info (ns @ [?v]) ?w ret s''" for ret s''
        proof (cases ret)
          case True
          then show ?thesis using row_links_done[OF ns to that] by (simp add: links_done_def)
        next
          case False
          have "row_done g info (ns @ [?v]) w False s''" if "leads g ?v c w" for w
            using \<open>row_done g info (ns @ [?v]) ?w ret s''\<close> that False leads Some by (cases w) auto
          then show ?thesis using False rows_links_done[of g ?v c info ns s''] by simp
        qed
        moreover have "visit (already_checking obj c (length ns) s) = check_row g (link_target g table c) dst (length (ns @ [?v])) s'"
          using fresh(1) single Some by (simp add: visit_def outgoing_def)
        ultimately show ?thesis using keeps_trans[OF fresh(3) keeps_less] by (auto elim!: returns_mono)
      qed
    qed
  qed
  qed
  then obtain ret s1 where r: "visit (already_checking obj c (length ns) s) = Some (ret, s1)" "keeps g info rel T ns s s1"
    "links_done g info ns ?v {c} ret s1" by (auto simp: returns_iff)
  have eq: "check_links g table obj (length ns) (map (outgoing g table) (c # cs)) s =
    (if ret then Some (True, s1) else check_links g table obj (length ns) (map (outgoing g table) cs) s1)"
  proof -
    have "col_key (outgoing g table c) = c" by (simp add: outgoing_def)
    then have "check_links g table obj (length ns) (map (outgoing g table) (c # cs)) s =
        Option.bind (visit (already_checking obj c (length ns) s))
          (\<lambda>(ret, s). if ret then Some (True, s) else check_links g table obj (length ns) (map (outgoing g table) cs) s)"
      unfolding list.map check_links.simps visit_def by (simp only: split_beta Let_def)
    then show ?thesis using r(1) by simp
  qed
  show ?case
  proof (cases ret)
    case True
    then show ?thesis using r eq by (simp add: links_done_def)
  next
    case False
    have "sound g info rel s1" "tracks g T ns s1" using r(2) by (simp_all add: keeps_def)
    then obtain ret2 s2 where r2: "check_links g table obj (length ns) (map (outgoing g table) cs) s1 = Some (ret2, s2)"
      "keeps g info rel T ns s1 s2" "links_done g info ns ?v (set cs) ret2 s2"
      using Cons.IH[of s1] Cons.prems(3) by (auto simp: returns_iff)
    have "links_done g info ns ?v (set (c # cs)) ret2 s2"
      using links_done_Cons[OF links_done_later[of g info ns ?v "{c}" s1] r2(3)] r(3) r2(2) False by auto
    then show ?thesis using eq r2(1) False keeps_trans[OF r(2) r2(2)] by simp
  qed
qed

lemma search_ok:
  assumes "searchable g rel T"
  shows "length ns \<le> 4 \<Longrightarrow> row_ok g info rel T ns"
proof (induction "4 - length ns" arbitrary: ns)
  case 0
  then show ?case using search_row[OF assms refl] unfolding row_ok_def by fastforce
next
  case (Suc d)
  then have "row_ok g info rel T (ns @ [v])" for v by simp
  then show ?case using search_row[OF assms refl, of ns] search_links[OF assms, of info ns] Suc(2,3)
    unfolding row_ok_def by fastforce
qed

end
