(* ===== verification/DeepChangeProperties.thy ===== *)
theory DeepChangeProperties
  imports DeepChangeCorrect
begin

text \<open>
  The properties of the deep change checker, for tables whose link columns differ, and whose links lead to objects
  that exist.
\<close>

definition store_ok :: "table_store \<Rightarrow> int \<Rightarrow> bool" where
  "store_ok g root \<longleftrightarrow> finite {u. (linked g)\<^sup>*\<^sup>* root u} \<and>
     (\<forall>t u. (linked g)\<^sup>*\<^sup>* root t \<longrightarrow> (linked g)\<^sup>*\<^sup>* root u \<longrightarrow>
        set (link_columns g t) \<inter> set (link_columns g u) \<noteq> {} \<longrightarrow> t = u) \<and>
     (\<forall>v w. (linked g)\<^sup>*\<^sup>* root (fst v) \<longrightarrow> object_exists g (fst v) (snd v) \<longrightarrow> link_step g v w \<longrightarrow>
        object_exists g (fst w) (snd w))"

lemma find_distinct: "distinct (map f xs) \<Longrightarrow> x \<in> set xs \<Longrightarrow> find (\<lambda>y. f y = f x) xs = Some x"
  by (induction xs) auto

lemma related_searchable:
  assumes "store_ok g root" "find_related_tables g [] root = Some rel"
  shows "searchable g rel {u. (linked g)\<^sup>*\<^sup>* root u}"
proof -
  have rel: "distinct (map table_key rel)" "keys_of rel = {u. (linked g)\<^sup>*\<^sup>* root u}" "\<forall>r\<in>set rel. r = entry_of g (table_key r)"
    using find_related_tables_done[of g root] assms by (auto simp: store_ok_def)
  have "find (\<lambda>r. table_key r = t) rel = Some (entry_of g t)" if "(linked g)\<^sup>*\<^sup>* root t" for t
  proof -
    have "t \<in> keys_of rel" using that rel(2) by simp
    then obtain r where r: "r \<in> set rel" "table_key r = t" by auto
    then have "r = entry_of g t" using rel(3) by metis
    then show ?thesis using find_distinct[OF rel(1) r(1)] r(2) by simp
  qed
  moreover have "(linked g)\<^sup>*\<^sup>* root u" if "(linked g)\<^sup>*\<^sup>* root t" "linked g t u" for t u
    using that by (rule rtranclp.rtrancl_into_rtrancl)
  ultimately show ?thesis using assms(1) unfolding searchable_def store_ok_def by blast
qed

text \<open>Between two questions.\<close>

definition checker_ok :: "table_store \<Rightarrow> change_info \<Rightarrow> int \<Rightarrow> related_table list \<Rightarrow> checker \<Rightarrow> bool" where
  "checker_ok g info root rel s \<longleftrightarrow> sound g info rel s \<and> length (current_path s) = 4 \<and> root_table s = root \<and>
     root_changes s = map_of (info_tables info) root"

lemma new_checker_ok: "checker_ok g info root rel (new_checker info root rel)"
  by (simp add: checker_ok_def new_checker_def sound_def)

lemma check_object_ok:
  assumes "searchable g rel T" "root \<in> T" "checker_ok g info root rel s" "object_exists g root key"
  shows "returns (check_object g key s) (\<lambda>(ret, s'). checker_ok g info root rel s' \<and>
    (ret \<longleftrightarrow> is_modified info root key \<or> near_modified g info 3 (root, key)))"
proof (cases "is_modified info root key")
  case True
  then show ?thesis using assms(3)
    by (auto simp: check_object_def checker_ok_def is_modified_def split: option.splits)
next
  case False
  have s: "sound g info rel s" "tracks g T [] s" "root_table s = root" "root_changes s = map_of (info_tables info) root"
    using assms(3) by (simp_all add: checker_ok_def tracks_def)
  have "check_object g key s = check_row g root key 0 s"
    using False s(3,4) by (auto simp: check_object_def is_modified_def split: option.splits)
  moreover have "returns (check_row g root key 0 s) (\<lambda>(ret, s'). keeps g info rel T [] s s' \<and> row_done g info [] (root, key) ret s')"
    using search_ok[OF assms(1), of "[]" info] s(1,2) assms(2,4) unfolding row_ok_def by simp
  moreover have "checker_ok g info root rel s'" if "keeps g info rel T [] s s'" for s'
    using that s(3,4) by (simp add: checker_ok_def keeps_def tracks_def)
  moreover have "near_modified g info 3 (root, key) \<longleftrightarrow> ret" if "row_done g info [] (root, key) ret s'" for ret s'
    using that row_done_remember[of g info "[]" "(root, key)" s'] by (cases ret) (simp_all add: row_done_def)
  ultimately show ?thesis using False by (auto elim!: returns_mono)
qed

text \<open>Several questions, one after the other.\<close>

fun ask_all :: "table_store \<Rightarrow> int list \<Rightarrow> modification_checker \<Rightarrow> (bool list \<times> modification_checker) option" where
  "ask_all g [] m = Some ([], m)"
| "ask_all g (key # keys) m =
     do { (b, m) \<leftarrow> ask_checker g key m; (bs, m) \<leftarrow> ask_all g keys m; Some (b # bs, m) }"

lemma ask_all_deep:
  assumes "searchable g rel T" "root \<in> T" "checker_ok g info root rel s" "\<forall>key\<in>set keys. object_exists g root key"
  shows "returns (ask_all g keys (Deep s)) (\<lambda>(answers, m).
    answers = map (\<lambda>key. is_modified info root key \<or> near_modified g info 3 (root, key)) keys)"
  using assms(3,4)
proof (induction keys arbitrary: s)
  case (Cons key keys)
  obtain ret s1 where r: "check_object g key s = Some (ret, s1)" "checker_ok g info root rel s1"
    "ret \<longleftrightarrow> is_modified info root key \<or> near_modified g info 3 (root, key)"
    using check_object_ok[OF assms(1,2) Cons.prems(1), of key] Cons.prems(2) by (auto simp: returns_iff)
  then show ?case using Cons.IH[of s1] Cons.prems(2) by (auto simp: ask_checker_def elim!: returns_mono)
qed simp

lemma ask_all_constant:
  assumes "\<And>key. ask_checker g key m = Some (p key, m)"
  shows "ask_all g keys m = Some (map p keys, m)"
  by (induction keys) (simp_all add: assms)

lemma walk_reach: "walk g info k v \<Longrightarrow> \<exists>u key. (linked g)\<^sup>*\<^sup>* (fst v) u \<and> is_modified info u key"
proof (induction k arbitrary: v)
  case 0
  then show ?case by (auto simp: walk.simps)
next
  case (Suc k)
  then obtain w where w: "link_step g v w" "walk g info k w" by (auto simp: walk.simps)
  have "linked g (fst v) (fst w)" using w(1) by (auto simp: link_step_def leads_def linked_def)
  then show ?case using Suc.IH[OF w(2)] by (meson converse_rtranclp_into_rtranclp)
qed

section \<open>Properties\<close>

text \<open>The related tables: if only finitely many tables can be reached over links, the recursion ends, and
  gives each of them once, the table itself included, with all its link columns in order.\<close>

theorem related_tables_correct:
  assumes "finite {u. (linked g)\<^sup>*\<^sup>* t u}"
  shows "returns (find_related_tables g [] t) (\<lambda>out. distinct (map table_key out) \<and>
    table_key ` set out = {u. (linked g)\<^sup>*\<^sup>* t u} \<and>
    (\<forall>r\<in>set out. links r = map (outgoing g (table_key r)) (filter (is_link g (table_key r)) (column_keys g (table_key r)))))"
  using find_related_tables_done[OF assms]
proof (rule returns_mono)
  fix out
  assume out: "distinct (map table_key out) \<and> keys_of out = {u. (linked g)\<^sup>*\<^sup>* t u} \<and> (\<forall>r\<in>set out. r = entry_of g (table_key r))"
  have "links r = map (outgoing g (table_key r)) (filter (is_link g (table_key r)) (column_keys g (table_key r)))"
    if "r = entry_of g (table_key r)" for r
    by (subst that) (simp add: entry_of_def link_columns_def)
  then show "distinct (map table_key out) \<and> table_key ` set out = {u. (linked g)\<^sup>*\<^sup>* t u} \<and>
    (\<forall>r\<in>set out. links r = map (outgoing g (table_key r)) (filter (is_link g (table_key r)) (column_keys g (table_key r))))"
    using out by blast
qed

text \<open>If no table that can be reached has modified objects, the answer is no.\<close>

lemma nothing_modified:
  assumes "\<forall>u. (linked g)\<^sup>*\<^sup>* root u \<longrightarrow> (case map_of (info_tables info) u of None \<Rightarrow> True | Some c \<Rightarrow> modifications_empty c)"
  shows "\<not> is_modified info root key" "\<not> near_modified g info 3 (root, key)"
proof -
  have none: "\<not> is_modified info u key" if "(linked g)\<^sup>*\<^sup>* root u" for u key
    using assms that by (fastforce simp: is_modified_def modifications_contains_def modifications_empty_def split: option.splits)
  then show "\<not> is_modified info root key" by simp
  show "\<not> near_modified g info 3 (root, key)"
  proof
    assume "near_modified g info 3 (root, key)"
    then obtain k where "walk g info k (root, key)" by (auto simp: near_modified_def)
    from walk_reach[OF this] show False using none by auto
  qed
qed

text \<open>No link leads on if the table itself is the only one that can be reached, and does not link to itself only.\<close>

lemma only_table_far:
  assumes "{u. (linked g)\<^sup>*\<^sup>* root u} = {root}" "linked g root root \<longrightarrow> (\<exists>u. u \<noteq> root \<and> (linked g)\<^sup>*\<^sup>* root u)"
  shows "\<not> near_modified g info 3 (root, key)"
proof -
  have only: "u = root" if "(linked g)\<^sup>*\<^sup>* root u" for u using assms(1) that by blast
  have "\<not> linked g root u" for u
  proof
    assume l: "linked g root u"
    from only[OF r_into_rtranclp[of "linked g", OF l]] show False using l assms(2) only by blast
  qed
  then have "\<not> link_step g (root, key) w" for w
    by (auto simp: link_step_def leads_def linked_def)
  then show ?thesis by (auto simp: near_modified_def walk.simps gr0_conv_Suc Suc_le_eq)
qed

lemma ask_table_only:
  "ask_all g keys (Table_only (table_changes_at (info_tables info) root)) =
    Some (map (is_modified info root) keys, Table_only (table_changes_at (info_tables info) root))"
  by (rule ask_all_constant) (simp add: ask_checker_def table_changes_at_def is_modified_def modifications_contains_def
      no_object_changes_def split: option.splits)

text \<open>C30. The answers of a modification checker, to any questions in any order: an object counts as modified exactly if
  it was modified itself, or if a modified object can be reached from it over one, two or three links. For a table
  that links to itself only this does not hold (see below).\<close>

theorem modification_checker_correct:
  assumes "store_ok g root" "schema_changed info \<or> find_related_tables g [] root = Some rel"
    and "linked g root root \<longrightarrow> (\<exists>u. u \<noteq> root \<and> (linked g)\<^sup>*\<^sup>* root u)"
    and "\<forall>key\<in>set keys. object_exists g root key"
  shows "returns (do { (m, rel) \<leftarrow> get_modification_checker g info root rel; ask_all g keys m }) (\<lambda>(answers, m).
    answers = map (\<lambda>key. is_modified info root key \<or> near_modified g info 3 (root, key)) keys)"
proof -
  let ?T = "{u. (linked g)\<^sup>*\<^sup>* root u}"
  obtain out where out: "find_related_tables g [] root = Some out" "distinct (map table_key out)" "keys_of out = ?T"
    using find_related_tables_done[of g root] assms(1) by (auto simp: store_ok_def returns_iff)
  have rel: "(if schema_changed info then set_table g root else Some rel) = Some out"
    using assms(2) out(1) by (auto simp: set_table_def)
  have S: "searchable g out ?T" by (rule related_searchable[OF assms(1) out(1)])
  define some_modified where "some_modified = list_ex (\<lambda>t. case map_of (info_tables info) (table_key t) of
      None \<Rightarrow> False | Some c \<Rightarrow> \<not> modifications_empty c) out"
  show ?thesis
  proof (cases some_modified)
    case False
    have "\<forall>u. (linked g)\<^sup>*\<^sup>* root u \<longrightarrow> (case map_of (info_tables info) u of None \<Rightarrow> True | Some c \<Rightarrow> modifications_empty c)"
      using False unfolding some_modified_def mem_Collect_eq[of _ "(linked g)\<^sup>*\<^sup>* root", symmetric] out(3)[symmetric]
      by (auto simp: list_ex_iff split: option.splits)
    note none = nothing_modified[OF this]
    have "ask_all g keys Never = Some (map (\<lambda>_. False) keys, Never)"
      by (rule ask_all_constant) (simp add: ask_checker_def)
    then show ?thesis using False none by (simp add: get_modification_checker_def rel some_modified_def)
  next
    case True
    show ?thesis
    proof (cases "length out = 1")
      case one: True
      then obtain r where r: "out = [r]" by (auto simp: length_Suc_conv)
      have T: "?T = {table_key r}" using out(3) r by simp
      have "root \<in> ?T" by simp
      then have root: "table_key r = root" unfolding T by simp
      have far: "\<not> near_modified g info 3 (root, key)" for key
        using only_table_far[OF _ assms(3)] T root by simp
      have "get_modification_checker g info root rel =
          Some (Table_only (table_changes_at (info_tables info) root), out)"
        using True r root by (simp add: get_modification_checker_def rel some_modified_def)
      then show ?thesis using ask_table_only[of g keys info root] far by simp
    next
      case False
      have "get_modification_checker g info root rel = Some (Deep (new_checker info root out), out)"
        using True False by (simp add: get_modification_checker_def rel some_modified_def)
      then show ?thesis using ask_all_deep[OF S _ new_checker_ok assms(4)] by simp
    qed
  qed
qed

text \<open>The two ways to answer for a table that no link leads away from.\<close>

lemma only_table_answers:
  assumes "store_ok g root" "{u. (linked g)\<^sup>*\<^sup>* root u} = {root}"
    and "schema_changed info \<or> find_related_tables g [] root = Some rel"
  shows "returns (do { (m, rel) \<leftarrow> get_modification_checker g info root rel; ask_all g keys m }) (\<lambda>(answers, m).
    answers = map (is_modified info root) keys)"
proof -
  obtain out where out: "find_related_tables g [] root = Some out" "distinct (map table_key out)" "keys_of out = {root}"
    using find_related_tables_done[of g root] assms(1,2) by (auto simp: store_ok_def returns_iff)
  have "card (keys_of out) = length (map table_key out)" using distinct_card[OF out(2)] by simp
  then have "length out = 1" using out(3) by simp
  then obtain r where r: "out = [r]" "table_key r = root" using out(3) by (auto simp: length_Suc_conv)
  have rel: "(if schema_changed info then set_table g root else Some rel) = Some [r]"
    using assms(3) out(1) r(1) by (auto simp: set_table_def)
  show ?thesis
  proof (cases "case map_of (info_tables info) root of None \<Rightarrow> True | Some c \<Rightarrow> modifications_empty c")
    case True
    have "\<not> is_modified info root key" for key
      using True by (auto simp: is_modified_def modifications_contains_def modifications_empty_def split: option.splits)
    moreover have "ask_all g keys Never = Some (map (\<lambda>_. False) keys, Never)"
      by (rule ask_all_constant) (simp add: ask_checker_def)
    ultimately show ?thesis using True r(2) by (auto simp: get_modification_checker_def rel split: option.splits)
  next
    case False
    then have "get_modification_checker g info root rel =
        Some (Table_only (table_changes_at (info_tables info) root), [r])"
      using r(2) by (auto simp: get_modification_checker_def rel split: option.splits)
    then show ?thesis by (simp add: ask_table_only)
  qed
qed

text \<open>C31. A table from which no link leads to another table, its links to itself included:
  \<open>get_modification_checker\<close> takes it for a table without links, and its checker says of every object only whether
  the object itself was modified, however near a modified object is that its links lead to; a \<open>DeepChangeChecker\<close>
  for the same table and the same changes answers for the links too.\<close>

theorem self_links_ignored:
  assumes "store_ok g root" "{u. (linked g)\<^sup>*\<^sup>* root u} = {root}"
    and "schema_changed info \<or> find_related_tables g [] root = Some rel"
    and "\<forall>key\<in>set keys. object_exists g root key"
  shows "returns (do { (m, rel) \<leftarrow> get_modification_checker g info root rel; ask_all g keys m }) (\<lambda>(answers, m).
      answers = map (is_modified info root) keys) \<and>
    returns (do { rel \<leftarrow> find_related_tables g [] root; ask_all g keys (Deep (new_checker info root rel)) })
      (\<lambda>(answers, m). answers = map (\<lambda>key. is_modified info root key \<or> near_modified g info 3 (root, key)) keys)"
proof
  show "returns (do { (m, rel) \<leftarrow> get_modification_checker g info root rel; ask_all g keys m }) (\<lambda>(answers, m).
      answers = map (is_modified info root) keys)"
    by (rule only_table_answers[OF assms(1-3)])
  obtain out where out: "find_related_tables g [] root = Some out"
    using find_related_tables_done[of g root] assms(1) by (auto simp: store_ok_def returns_iff)
  show "returns (do { rel \<leftarrow> find_related_tables g [] root; ask_all g keys (Deep (new_checker info root rel)) })
      (\<lambda>(answers, m). answers = map (\<lambda>key. is_modified info root key \<or> near_modified g info 3 (root, key)) keys)"
    using ask_all_deep[OF related_searchable[OF assms(1) out] _ new_checker_ok assms(4)] by (simp add: out)
qed

section \<open>Witnesses\<close>

text \<open>One table whose only column holds links to the table itself; object 1 is linked to object 2.\<close>

definition self_linked :: table_store where
  "self_linked = \<lparr>column_keys = (\<lambda>t. if t = 0 then [5] else []), column_kind = (\<lambda>t c. Link_column), link_target = (\<lambda>t c. 0),
     object_exists = (\<lambda>t k. True), link_at = (\<lambda>t k c. if k = 1 then Some 2 else None), link_list_at = (\<lambda>t k c. [])\<rparr>"

definition object_2_modified :: change_info where
  "object_2_modified = \<lparr>info_lists = [], info_tables = [(0, modifications_add 2 9 no_object_changes)], track_all = True,
     schema_changed = True\<rparr>"

lemma is_modified_object_2: "is_modified object_2_modified t k \<longleftrightarrow> t = 0 \<and> k = 2"
  by (simp add: is_modified_def object_2_modified_def modifications_contains_def modifications_add_def no_object_changes_def)

lemma reach_self_linked: "(linked self_linked)\<^sup>*\<^sup>* 0 u \<longleftrightarrow> u = 0"
proof
  show "u = 0" if "(linked self_linked)\<^sup>*\<^sup>* 0 u"
    using that by (induction rule: rtranclp_induct) (auto simp: linked_def self_linked_def)
qed simp

lemma self_linked_ok: "store_ok self_linked 0"
  unfolding store_ok_def reach_self_linked by (auto simp: self_linked_def)

theorem self_links_ignored_witness:
  "returns (do { (m, rel) \<leftarrow> get_modification_checker self_linked object_2_modified 0 []; ask_all self_linked [1, 2] m })
     (\<lambda>(answers, m). answers = [False, True]) \<and>
   returns (do { rel \<leftarrow> find_related_tables self_linked [] 0;
                 ask_all self_linked [1, 2] (Deep (new_checker object_2_modified 0 rel)) })
     (\<lambda>(answers, m). answers = [True, True])"
proof -
  have "walk self_linked object_2_modified 1 (0, 1)"
    by (auto simp: walk.simps link_step_def leads_def link_columns_def is_link_def self_linked_def is_modified_object_2)
  then have near: "near_modified self_linked object_2_modified 3 (0, 1)"
    unfolding near_modified_def by (intro exI[of _ 1]) simp
  have "\<forall>key\<in>set [1, 2]. object_exists self_linked 0 key" "schema_changed object_2_modified"
    by (simp_all add: self_linked_def object_2_modified_def)
  moreover have "{u. (linked self_linked)\<^sup>*\<^sup>* 0 u} = {0}" by (simp add: reach_self_linked)
  ultimately show ?thesis
    using self_links_ignored[OF self_linked_ok, of object_2_modified "[]" "[1, 2]"] near
    by (simp add: is_modified_object_2)
qed

text \<open>Two tables that link to each other, the second one with a list.\<close>

definition two_tables :: table_store where
  "two_tables = \<lparr>column_keys = (\<lambda>t. if t = 0 then [5, 8] else if t = 1 then [6] else []),
     column_kind = (\<lambda>t c. if c = 5 then Link_column else if c = 6 then Link_list_column else Other_column),
     link_target = (\<lambda>t c. if c = 5 then 1 else 0), object_exists = (\<lambda>t k. True),
     link_at = (\<lambda>t k c. if k = 1 then Some 7 else None), link_list_at = (\<lambda>t k c. if k = 7 then [3, 2] else [])\<rparr>"

lemma link_columns_two_tables: "link_columns two_tables t = (if t = 0 then [5] else if t = 1 then [6] else [])"
  by (simp add: link_columns_def is_link_def two_tables_def)

lemma linked_two_tables: "linked two_tables t u \<longleftrightarrow> t = 0 \<and> u = 1 \<or> t = 1 \<and> u = 0"
  unfolding linked_def link_columns_two_tables by (auto simp: two_tables_def)

lemma reach_two_tables: "(linked two_tables)\<^sup>*\<^sup>* 0 u \<longleftrightarrow> u = 0 \<or> u = 1"
proof
  show "u = 0 \<or> u = 1" if "(linked two_tables)\<^sup>*\<^sup>* 0 u"
    using that by (induction rule: rtranclp_induct) (auto simp: linked_two_tables)
  show "(linked two_tables)\<^sup>*\<^sup>* 0 u" if "u = 0 \<or> u = 1"
    using that r_into_rtranclp[of "linked two_tables" 0 1] linked_two_tables by auto
qed

lemma two_tables_ok: "store_ok two_tables 0"
proof -
  have "object_exists two_tables t k" for t k by (simp add: two_tables_def)
  then show ?thesis unfolding store_ok_def reach_two_tables by (auto simp: link_columns_two_tables)
qed

lemma link_step_two_tables:
  "link_step two_tables v w \<longleftrightarrow> v = (0, 1) \<and> w = (1, 7) \<or> v = (1, 7) \<and> (w = (0, 3) \<or> w = (0, 2))"
  unfolding link_step_def leads_def link_columns_two_tables
  by (cases v; cases w) (auto simp: two_tables_def split: if_splits)

theorem related_tables_correct_witness:
  "returns (find_related_tables two_tables [] 0) (\<lambda>out. table_key ` set out = {0, 1})"
proof -
  have "finite {u. (linked two_tables)\<^sup>*\<^sup>* 0 u}" "{u. (linked two_tables)\<^sup>*\<^sup>* 0 u} = {0, 1}"
    unfolding reach_two_tables by auto
  then show ?thesis using related_tables_correct[of two_tables 0] by (auto elim!: returns_mono)
qed

theorem modification_checker_correct_witness:
  "returns (do { (m, rel) \<leftarrow> get_modification_checker two_tables object_2_modified 0 []; ask_all two_tables [3, 1, 2] m })
    (\<lambda>(answers, m). answers = [False, True, True])"
proof -
  have "walk two_tables object_2_modified 2 (0, 1)"
    by (simp add: numeral_2_eq_2 walk.simps link_step_two_tables is_modified_object_2)
  then have "near_modified two_tables object_2_modified 3 (0, 1)" unfolding near_modified_def by (intro exI[of _ 2]) simp
  moreover have "\<not> walk two_tables object_2_modified k (0, 3)" if "1 \<le> k" for k
    using that by (cases k) (auto simp: walk.simps link_step_two_tables)
  then have "\<not> near_modified two_tables object_2_modified 3 (0, 3)" by (auto simp: near_modified_def)
  moreover have "\<forall>key\<in>set [3, 1, 2]. object_exists two_tables 0 key" by (simp add: two_tables_def)
  moreover have "schema_changed object_2_modified" "\<not> linked two_tables 0 0"
    by (simp_all add: object_2_modified_def linked_two_tables)
  ultimately show ?thesis
    using modification_checker_correct[OF two_tables_ok, of object_2_modified "[]" "[3, 1, 2]"]
    by (auto simp: is_modified_object_2 elim!: returns_mono)
qed

end
