(* ===== verification/SyncSession.thy ===== *)
theory SyncSession
  imports Exceptions "HOL-Library.Word"
begin

text \<open>
  \<open>SyncSession\<close> (sync/sync_session.cpp and .hpp): the state machine between an application, the binding that
  fetches access tokens, and the \<open>sync::Session\<close> of the sync client.

  The methods work under \<open>m_state_mutex\<close>, which many of them release and lock again before they return. A
  \<open>section\<close> is what a method does between two such points, and \<open>exec\<close> executes one: it returns the new
  session, what is called outside, in order, and the sections in which the method goes on. What runs between the
  sections of a method is the matter of theory SyncSessionRuns. Callbacks and handlers of the application are
  events; a callback that uses the session again is another method that runs. \<open>None\<close> is a failed assertion, a
  null pointer that is used, or an overflow.

  The \<open>sync::Session\<close>s are numbered in the order in which they are made. Settings that are only copied into
  their configuration (certificates, proxy, headers, encryption key, transformer), the message of an error, the
  transaction callback and the notifiers for progress (theory SyncProgress) and connections are left out.

  Of \<open>SyncManager\<close> (sync/sync_manager.cpp) there is what the session relies on: whether \<open>m_sessions\<close> has the session, and
  whether there are a file manager and a metadata manager. No other session is made for the path of this one, the
  \<open>bind_session_handler\<close> is set, and exceptions of the library, the handlers and the callbacks are left out.
\<close>

section \<open>Data\<close>

text \<open>The four \<open>State\<close> objects, which \<open>PublicState\<close> names.\<close>

datatype session_state = Waiting_for_access_token | Active | Dying | Inactive

datatype connection_state = Disconnected | Connecting | Connected

datatype stop_policy = Immediately | LiveIndefinitely | AfterChangesUploaded

datatype client_resync_mode = Recover | DiscardLocal | Manual

datatype direction = Upload | Download

text \<open>\<open>std::error_code\<close>; a success is the value 0 of the system's category.\<close>

datatype error_category = Protocol_category | Client_category | Basic_system_category | System_category | Unknown_category string

record error_code =
  category :: error_category
  code :: int

definition success :: error_code where
  "success = \<lparr>category = System_category, code = 0\<rparr>"

text \<open>\<open>util::error::operation_aborted\<close>, which is \<open>ECANCELED\<close> (89 on the Apple platforms).\<close>

definition operation_aborted :: error_code where
  "operation_aborted = \<lparr>category = Basic_system_category, code = 89\<rparr>"

record sync_error =
  error_code :: error_code
  is_fatal :: bool
  user_info :: "string \<Rightarrow> string option"
  is_unrecognized_by_client :: bool

record sync_config =
  user :: "string option"
  reference_realm_url :: string
  stop_policy :: stop_policy
  has_error_handler :: bool
  is_partial :: bool
  cancel_waits_on_nonfatal_error :: bool
  url_prefix :: "string option"
  client_resync_mode :: client_resync_mode

text \<open>The parts of \<open>sync::Session::Config\<close> that depend on more than the configuration of the session.\<close>

record session_config =
  multiplex_ident :: string
  session_url_prefix :: "string option"
  client_reset_config :: "(string \<times> bool) option"

text \<open>
  What waits for a \<open>sync::Session\<close>: the completion handler of \<open>add_completion_callback\<close> with its direction and
  the counter it captures, and that of a dying session with the death count it captures.
\<close>

datatype waiter = Completion direction int | Death "64 word"

datatype session_call = Bind string string | Refresh string | Cancel_reconnect_delay | Server string int | Commit "64 word" | Wait waiter

text \<open>
  What is called outside the session. \<open>Entered\<close> is no call, it marks a change of \<open>m_state\<close>.
\<close>

datatype 'c event =
    Entered session_state session_state
  | Make_dir string
  | Make_session nat session_config
  | Call nat session_call
  | Destroy_session nat
  | Request_token
  | Unregister_session
  | Local_version "64 word"
  | Connection_change connection_state connection_state
  | Complete 'c error_code
  | Invalidate_user string
  | File_action bool string
  | Report sync_error

text \<open>\<open>NextStateAfterError\<close>\<close>

datatype next_state = Next_none | Next_inactive | Next_error

text \<open>
  The sections. The first group are the methods of the interface, the second what the sync client calls,
  the third are the later sections of methods.
\<close>

datatype 'c session_section =
    Wait_for direction 'c
  | Refresh_access_token string "string option"
  | Override_server string int
  | Nonsync_transact_notify "64 word"
  | Revive_if_needed
  | Handle_reconnect
  | Log_out
  | Close
  | Update_configuration sync_config
  | Set_multiplex_identifier string
  | Set_url_prefix string
  | External_reference
  | Drop_reference
  | Connection_event connection_state "sync_error option" string
  | Completed waiter error_code
  | Did_drop_external_reference
  | Handle_error sync_error string
  | Dispatch_error sync_error string
  | Finish_error next_state sync_error
  | Start_resync
  | Restore_waits "'c list" "'c list"
  | Access_token_expired
  | Bad_authentication sync_error
  | Cancel_waits error_code
  | Become_inactive
  | Report_error sync_error
  | Unregister_from_manager
  | Now_inactive connection_state "'c list" "'c list"

text \<open>
  \<open>external_references\<close> is the use count of the \<open>ExternalReference\<close> that \<open>m_external_reference\<close>
  points to, \<open>sessions_made\<close> counts the calls of \<open>make_session\<close>. The last three fields belong to the \<open>SyncManager\<close>:
  \<open>in_manager\<close> says whether \<open>m_sessions\<close> has the session, which \<open>get_session\<close> puts there when it makes it,
  the others whether \<open>m_file_manager\<close> and \<open>m_metadata_manager\<close> exist.
\<close>

record 'c sync_session =
  state :: session_state
  connection_state :: connection_state
  death_count :: "64 word"
  config :: sync_config
  force_client_resync :: bool
  realm_path :: string
  download_callbacks :: "'c list"
  upload_callbacks :: "'c list"
  client_resync_counter :: int
  server_override :: "(string \<times> int) option"
  session :: "nat option"
  session_has_been_bound :: "bool option"
  deferred_commit_notification :: "64 word option"
  deferred_close :: bool
  server_url :: "string option"
  multiplex_identity :: string
  external_references :: nat
  sessions_made :: nat
  in_manager :: bool
  file_manager :: bool
  metadata_manager :: bool

definition new_session :: "string \<Rightarrow> sync_config \<Rightarrow> bool \<Rightarrow> bool \<Rightarrow> bool \<Rightarrow> 'c sync_session" where
  "new_session path conf resync files metadata =
     \<lparr>state = Inactive, connection_state = Disconnected, death_count = 0, config = conf,
      force_client_resync = resync, realm_path = path, download_callbacks = [], upload_callbacks = [],
      client_resync_counter = 0, server_override = None, session = None, session_has_been_bound = None,
      deferred_commit_notification = None, deferred_close = False, server_url = None, multiplex_identity = [],
      external_references = 0, sessions_made = 0, in_manager = True, file_manager = files, metadata_manager = metadata\<rparr>"

fun callbacks :: "direction \<Rightarrow> 'c sync_session \<Rightarrow> 'c list" where
  "callbacks Upload s = upload_callbacks s"
| "callbacks Download s = download_callbacks s"

fun set_callbacks :: "direction \<Rightarrow> 'c list \<Rightarrow> 'c sync_session \<Rightarrow> 'c sync_session" where
  "set_callbacks Upload cs s = s\<lparr>upload_callbacks := cs\<rparr>"
| "set_callbacks Download cs s = s\<lparr>download_callbacks := cs\<rparr>"

section \<open>Composition\<close>

type_synonym 'c act = "'c sync_session \<Rightarrow> ('c sync_session \<times> 'c event list \<times> 'c session_section list) option"

definition skip :: "'c act" where
  "skip s = Some (s, [], [])"

definition alter :: "('c sync_session \<Rightarrow> 'c sync_session) \<Rightarrow> 'c act" where
  "alter f s = Some (f s, [], [])"

definition announce :: "'c event list \<Rightarrow> 'c act" where
  "announce es s = Some (s, es, [])"

definition later :: "'c session_section list \<Rightarrow> 'c act" where
  "later xs s = Some (s, [], xs)"

definition check :: "bool \<Rightarrow> 'c act" where
  "check b s = (if b then Some (s, [], []) else None)"

definition and_then :: "'c act \<Rightarrow> 'c act \<Rightarrow> 'c act" where
  "and_then a b s =
     do {
       (s, es, xs) \<leftarrow> a s;
       (s, es', xs') \<leftarrow> b s;
       Some (s, es @ es', xs @ xs')
     }"

fun run_all :: "'c act list \<Rightarrow> 'c act" where
  "run_all [] = skip"
| "run_all (a # as) = and_then a (run_all as)"

definition test :: "('c sync_session \<Rightarrow> bool) \<Rightarrow> 'c act \<Rightarrow> 'c act \<Rightarrow> 'c act" where
  "test p a b s = (if p s then a s else b s)"

text \<open>A call \<open>m_session->c\<close>.\<close>

definition call_session :: "session_call \<Rightarrow> 'c act" where
  "call_session c s = (case session s of None \<Rightarrow> None | Some i \<Rightarrow> Some (s, [Call i c], []))"

section \<open>Changing the state\<close>

definition add_completion_callback :: "direction \<Rightarrow> 'c act" where
  "add_completion_callback d s = call_session (Wait (Completion d (client_resync_counter s))) s"

text \<open>\<open>advance_state\<close>, for a given \<open>enter_state\<close> of the new state.\<close>

definition advance_to :: "session_state \<Rightarrow> 'c act \<Rightarrow> 'c act" where
  "advance_to new enter s =
     run_all [check (new \<noteq> state s), alter (state_update (\<lambda>_. new)), announce [Entered (state s) new], enter] s"

definition unregister_from_manager :: "'c act" where
  "unregister_from_manager s = run_all [check (state s = Inactive), later [Unregister_from_manager]] s"

text \<open>\<open>SyncManager::unregister_session\<close>, when the mutex is released.\<close>

definition unregister_session :: "'c act" where
  "unregister_session s =
     run_all [announce [Unregister_session], check (in_manager s),
       test (\<lambda>s. external_references s > 0) skip (alter (in_manager_update (\<lambda>_. False)))] s"

definition waiting_enter_state :: "'c act" where
  "waiting_enter_state = alter (deferred_close_update (\<lambda>_. False))"

definition active_enter_state :: "'c act" where
  "active_enter_state =
     run_all [test (\<lambda>s. upload_callbacks s \<noteq> []) (add_completion_callback Upload) skip,
              test (\<lambda>s. download_callbacks s \<noteq> []) (add_completion_callback Download) skip]"

definition destroy_session :: "'c act" where
  "destroy_session s =
     (case session s of None \<Rightarrow> skip s
      | Some i \<Rightarrow> run_all [alter (session_update (\<lambda>_. None)), announce [Destroy_session i]] s)"

definition inactive_enter_state :: "'c act" where
  "inactive_enter_state s =
     run_all [alter (connection_state_update (\<lambda>_. Disconnected)), alter (download_callbacks_update (\<lambda>_. [])),
       alter (upload_callbacks_update (\<lambda>_. [])), destroy_session, unregister_from_manager,
       later [Now_inactive (connection_state s) (download_callbacks s) (upload_callbacks s)]] s"

text \<open>The rest of it, when the mutex is released.\<close>

definition complete_all :: "'c list \<Rightarrow> error_code \<Rightarrow> 'c act" where
  "complete_all cs e = announce (map (\<lambda>c. Complete c e) cs)"

definition now_inactive :: "connection_state \<Rightarrow> 'c list \<Rightarrow> 'c list \<Rightarrow> 'c act" where
  "now_inactive old downloads uploads s =
     run_all [if old \<noteq> Disconnected then announce [Connection_change old (connection_state s)] else skip,
       complete_all downloads operation_aborted, complete_all uploads operation_aborted] s"

definition dying_enter_state :: "'c act" where
  "dying_enter_state =
     test (\<lambda>s. session s = None) (advance_to Inactive inactive_enter_state)
       (run_all [alter (death_count_update (\<lambda>n. n + 1)), (\<lambda>s. call_session (Wait (Death (death_count s))) s)])"

fun enter_state :: "session_state \<Rightarrow> 'c act" where
  "enter_state Waiting_for_access_token = waiting_enter_state"
| "enter_state Active = active_enter_state"
| "enter_state Dying = dying_enter_state"
| "enter_state Inactive = inactive_enter_state"

definition advance_state :: "session_state \<Rightarrow> 'c act" where
  "advance_state new = advance_to new (enter_state new)"

section \<open>The states\<close>

definition create_sync_session :: "'c act" where
  "create_sync_session =
     test (\<lambda>s. session s \<noteq> None) skip
       (\<lambda>s. run_all
          [if force_client_resync s then announce [Make_dir (realm_path s @ ''.resync'')] else skip,
           announce [Make_session (sessions_made s)
             \<lparr>multiplex_ident = multiplex_identity s, session_url_prefix = url_prefix (config s),
              client_reset_config = (if force_client_resync s
                then Some (realm_path s @ ''.resync'', client_resync_mode (config s) = Recover) else None)\<rparr>],
           alter (\<lambda>s. s\<lparr>session := Some (sessions_made s), sessions_made := sessions_made s + 1\<rparr>),
           alter (session_has_been_bound_update (\<lambda>_. Some False))] s)"

definition active_close :: "'c act" where
  "active_close s =
     (case stop_policy (config s) of
        Immediately \<Rightarrow> advance_state Inactive s
      | LiveIndefinitely \<Rightarrow> skip s
      | AfterChangesUploaded \<Rightarrow> advance_state Dying s)"

definition waiting_close :: "'c act" where
  "waiting_close s =
     (case stop_policy (config s) of
        Immediately \<Rightarrow> advance_state Inactive s
      | LiveIndefinitely \<Rightarrow> alter (deferred_close_update (\<lambda>_. True)) s
      | AfterChangesUploaded \<Rightarrow> alter (deferred_close_update (\<lambda>_. True)) s)"

definition inactive_close :: "'c act" where
  "inactive_close = unregister_from_manager"

text \<open>\<open>m_state->close\<close>; \<open>Dying\<close> inherits the one that does nothing.\<close>

definition state_close :: "'c act" where
  "state_close s =
     (case state s of
        Waiting_for_access_token \<Rightarrow> waiting_close s
      | Active \<Rightarrow> active_close s
      | Dying \<Rightarrow> skip s
      | Inactive \<Rightarrow> inactive_close s)"

definition bind_session :: "string \<Rightarrow> 'c act" where
  "bind_session token s =
     (case session_has_been_bound s of
        None \<Rightarrow> None
      | Some True \<Rightarrow> run_all [call_session (Refresh token), call_session Cancel_reconnect_delay] s
      | Some False \<Rightarrow>
          (case server_url s of None \<Rightarrow> None
           | Some url \<Rightarrow> run_all [call_session (Bind url token), alter (session_has_been_bound_update (\<lambda>_. Some True))] s))"

definition override_session_server :: "'c act" where
  "override_session_server s =
     (case server_override s of None \<Rightarrow> skip s | Some (address, port) \<Rightarrow> call_session (Server address port) s)"

definition deferred_commit :: "'c act" where
  "deferred_commit s =
     (case deferred_commit_notification s of None \<Rightarrow> skip s
      | Some v \<Rightarrow> run_all [call_session (Commit v), alter (deferred_commit_notification_update (\<lambda>_. None))] s)"

definition waiting_refresh_access_token :: "string \<Rightarrow> string option \<Rightarrow> 'c act" where
  "waiting_refresh_access_token token url =
     run_all [create_sync_session,
       test (\<lambda>s. server_url s = None) (alter (server_url_update (\<lambda>_. url))) skip,
       bind_session token, override_session_server, deferred_commit, advance_state Active,
       test deferred_close state_close skip]"

definition active_refresh_access_token :: "string \<Rightarrow> 'c act" where
  "active_refresh_access_token token = run_all [call_session (Refresh token), call_session Cancel_reconnect_delay]"

definition state_refresh_access_token :: "string \<Rightarrow> string option \<Rightarrow> 'c act" where
  "state_refresh_access_token token url s =
     (case state s of
        Waiting_for_access_token \<Rightarrow> waiting_refresh_access_token token url s
      | Active \<Rightarrow> active_refresh_access_token token s
      | Dying \<Rightarrow> skip s
      | Inactive \<Rightarrow> skip s)"

definition active_access_token_expired :: "'c act" where
  "active_access_token_expired = run_all [advance_state Waiting_for_access_token, announce [Request_token]]"

definition state_access_token_expired :: "'c act" where
  "state_access_token_expired s = (case state s of Active \<Rightarrow> active_access_token_expired s | _ \<Rightarrow> skip s)"

definition waiting_log_out :: "'c act" where
  "waiting_log_out = advance_state Inactive"

definition active_log_out :: "'c act" where
  "active_log_out = advance_state Inactive"

definition dying_log_out :: "'c act" where
  "dying_log_out = advance_state Inactive"

definition state_log_out :: "'c act" where
  "state_log_out s =
     (case state s of
        Waiting_for_access_token \<Rightarrow> waiting_log_out s
      | Active \<Rightarrow> active_log_out s
      | Dying \<Rightarrow> dying_log_out s
      | Inactive \<Rightarrow> skip s)"

definition waiting_revive_if_needed :: "'c act" where
  "waiting_revive_if_needed = alter (deferred_close_update (\<lambda>_. False))"

definition dying_revive_if_needed :: "'c act" where
  "dying_revive_if_needed = advance_state Active"

text \<open>This one returns true, for which \<open>SyncSession::revive_if_needed\<close> asks for a token.\<close>

definition inactive_revive_if_needed :: "'c act" where
  "inactive_revive_if_needed = run_all [advance_state Waiting_for_access_token, announce [Request_token]]"

definition state_revive_if_needed :: "'c act" where
  "state_revive_if_needed s =
     (case state s of
        Waiting_for_access_token \<Rightarrow> waiting_revive_if_needed s
      | Active \<Rightarrow> skip s
      | Dying \<Rightarrow> dying_revive_if_needed s
      | Inactive \<Rightarrow> inactive_revive_if_needed s)"

definition waiting_handle_reconnect :: "'c act" where
  "waiting_handle_reconnect = announce [Request_token]"

definition active_handle_reconnect :: "'c act" where
  "active_handle_reconnect = call_session Cancel_reconnect_delay"

definition state_handle_reconnect :: "'c act" where
  "state_handle_reconnect s =
     (case state s of
        Waiting_for_access_token \<Rightarrow> waiting_handle_reconnect s
      | Active \<Rightarrow> active_handle_reconnect s
      | Dying \<Rightarrow> skip s
      | Inactive \<Rightarrow> skip s)"

definition waiting_nonsync_transact_notify :: "64 word \<Rightarrow> 'c act" where
  "waiting_nonsync_transact_notify v = alter (deferred_commit_notification_update (\<lambda>_. Some v))"

definition active_nonsync_transact_notify :: "64 word \<Rightarrow> 'c act" where
  "active_nonsync_transact_notify v = call_session (Commit v)"

definition state_nonsync_transact_notify :: "64 word \<Rightarrow> 'c act" where
  "state_nonsync_transact_notify v s =
     (case state s of
        Waiting_for_access_token \<Rightarrow> waiting_nonsync_transact_notify v s
      | Active \<Rightarrow> active_nonsync_transact_notify v s
      | Dying \<Rightarrow> skip s
      | Inactive \<Rightarrow> skip s)"

definition active_wait_for_completion :: "direction \<Rightarrow> 'c act" where
  "active_wait_for_completion d s = run_all [check (session s \<noteq> None), add_completion_callback d] s"

definition dying_wait_for_completion :: "direction \<Rightarrow> 'c act" where
  "dying_wait_for_completion d s = run_all [check (session s \<noteq> None), add_completion_callback d] s"

definition state_wait_for_completion :: "direction \<Rightarrow> 'c act" where
  "state_wait_for_completion d s =
     (case state s of
        Waiting_for_access_token \<Rightarrow> skip s
      | Active \<Rightarrow> active_wait_for_completion d s
      | Dying \<Rightarrow> dying_wait_for_completion d s
      | Inactive \<Rightarrow> skip s)"

definition waiting_override_server :: "string \<Rightarrow> int \<Rightarrow> 'c act" where
  "waiting_override_server address port = alter (server_override_update (\<lambda>_. Some (address, port)))"

definition active_override_server :: "string \<Rightarrow> int \<Rightarrow> 'c act" where
  "active_override_server address port =
     run_all [alter (server_override_update (\<lambda>_. Some (address, port))), call_session (Server address port)]"

definition dying_override_server :: "string \<Rightarrow> int \<Rightarrow> 'c act" where
  "dying_override_server address port =
     run_all [alter (server_override_update (\<lambda>_. Some (address, port))), call_session (Server address port)]"

definition inactive_override_server :: "string \<Rightarrow> int \<Rightarrow> 'c act" where
  "inactive_override_server address port = alter (server_override_update (\<lambda>_. Some (address, port)))"

definition state_override_server :: "string \<Rightarrow> int \<Rightarrow> 'c act" where
  "state_override_server address port s =
     (case state s of
        Waiting_for_access_token \<Rightarrow> waiting_override_server address port s
      | Active \<Rightarrow> active_override_server address port s
      | Dying \<Rightarrow> dying_override_server address port s
      | Inactive \<Rightarrow> inactive_override_server address port s)"

text \<open>The methods of the states are unfolded with the dispatch to them.\<close>

lemmas state_methods [simp] = active_access_token_expired_def waiting_log_out_def active_log_out_def dying_log_out_def
  waiting_revive_if_needed_def dying_revive_if_needed_def inactive_revive_if_needed_def waiting_handle_reconnect_def
  active_handle_reconnect_def waiting_nonsync_transact_notify_def active_nonsync_transact_notify_def
  active_wait_for_completion_def dying_wait_for_completion_def waiting_override_server_def active_override_server_def
  dying_override_server_def inactive_override_server_def

section \<open>Errors\<close>

datatype protocol_error =
    connection_closed | other_error | unknown_message | bad_syntax | limits_exceeded | wrong_protocol_version
  | bad_session_ident | reuse_of_session_ident | bound_in_other_session | bad_message_order | bad_decompression
  | bad_changeset_header_syntax | bad_changeset_size | bad_changesets
  | session_closed | other_session_error | token_expired | bad_authentication | illegal_realm_path | no_such_realm
  | permission_denied | bad_server_file_ident | bad_client_file_ident | bad_server_version | bad_client_version
  | diverging_histories | bad_changeset | disabled_session | partial_sync_disabled | unsupported_session_feature
  | bad_origin_file_ident | bad_client_file | server_file_deleted | client_file_blacklisted | user_blacklisted
  | transact_before_upload | client_file_expired

definition protocol_errors :: "(int \<times> protocol_error) list" where
  "protocol_errors =
     [(100, connection_closed), (101, other_error), (102, unknown_message), (103, bad_syntax), (104, limits_exceeded),
      (105, wrong_protocol_version), (106, bad_session_ident), (107, reuse_of_session_ident),
      (108, bound_in_other_session), (109, bad_message_order), (110, bad_decompression),
      (111, bad_changeset_header_syntax), (112, bad_changeset_size), (113, bad_changesets),
      (200, session_closed), (201, other_session_error), (202, token_expired), (203, bad_authentication),
      (204, illegal_realm_path), (205, no_such_realm), (206, permission_denied), (207, bad_server_file_ident),
      (208, bad_client_file_ident), (209, bad_server_version), (210, bad_client_version), (211, diverging_histories),
      (212, bad_changeset), (213, disabled_session), (214, partial_sync_disabled), (215, unsupported_session_feature),
      (216, bad_origin_file_ident), (217, bad_client_file), (218, server_file_deleted),
      (219, client_file_blacklisted), (220, user_blacklisted), (221, transact_before_upload), (222, client_file_expired)]"

definition protocol_error_of :: "error_code \<Rightarrow> protocol_error option" where
  "protocol_error_of e = (if category e = Protocol_category then map_of protocol_errors (code e) else None)"

definition is_client_reset_requested :: "sync_error \<Rightarrow> bool" where
  "is_client_reset_requested e =
     (case protocol_error_of (error_code e) of None \<Rightarrow> False
      | Some p \<Rightarrow> p \<in> {bad_server_file_ident, bad_client_file_ident, bad_server_version, diverging_histories,
                          client_file_expired})"

text \<open>The values of \<open>Client::Error\<close> for which the code does something.\<close>

definition client_connection_closed :: int where "client_connection_closed = 100"

definition client_pong_timeout :: int where "client_pong_timeout = 118"

text \<open>
  What becomes of an error that is not a resync: it is ignored, one of two sections deals with it, or the
  session goes on with the next state. The first argument is \<open>next_state\<close> as initialised; \<open>Some backup\<close>
  in the result means that the file is marked for deletion.
\<close>

datatype response = Ignore | Expire | Unauthenticated | Next next_state "bool option"

fun protocol_response :: "next_state \<Rightarrow> protocol_error \<Rightarrow> response" where
  "protocol_response next connection_closed = Ignore"
| "protocol_response next other_error = Ignore"
| "protocol_response next session_closed = Ignore"
| "protocol_response next other_session_error = Ignore"
| "protocol_response next disabled_session = Ignore"
| "protocol_response next token_expired = Expire"
| "protocol_response next bad_authentication = Unauthenticated"
| "protocol_response next permission_denied = Next Next_inactive (Some False)"
| "protocol_response next bad_client_file = Next Next_inactive (Some True)"
| "protocol_response next bad_client_file_ident = Next Next_inactive (Some True)"
| "protocol_response next bad_origin_file_ident = Next Next_inactive (Some True)"
| "protocol_response next bad_server_file_ident = Next Next_inactive (Some True)"
| "protocol_response next bad_server_version = Next Next_inactive (Some True)"
| "protocol_response next client_file_blacklisted = Next Next_inactive (Some True)"
| "protocol_response next diverging_histories = Next Next_inactive (Some True)"
| "protocol_response next server_file_deleted = Next Next_inactive (Some True)"
| "protocol_response next user_blacklisted = Next Next_inactive (Some True)"
| "protocol_response next client_file_expired = Next Next_inactive (Some True)"
| "protocol_response next _ = Next next None"

definition error_response :: "sync_error \<Rightarrow> response" where
  "error_response e =
     (let next = if is_fatal e then Next_error else Next_none in
      case category (error_code e) of
        Protocol_category \<Rightarrow>
          (case protocol_error_of (error_code e) of None \<Rightarrow> Next next None | Some p \<Rightarrow> protocol_response next p)
      | Client_category \<Rightarrow>
          if code (error_code e) \<in> {client_connection_closed, client_pong_timeout} then Ignore else Next next None
      | _ \<Rightarrow> Next next None)"

definition unrecognized :: "sync_error \<Rightarrow> sync_error" where
  "unrecognized e =
     (if category (error_code e) \<in> {Protocol_category, Client_category} then e
      else e\<lparr>is_unrecognized_by_client := True\<rparr>)"

text \<open>
  \<open>SyncConfig::realm_url\<close> asserts that there are a URL and a user, whose identity is used, too.
  The arguments of the action other than the file names are left out.
\<close>

definition realm_url_given :: "'c sync_session \<Rightarrow> bool" where
  "realm_url_given s \<longleftrightarrow> reference_realm_url (config s) \<noteq> [] \<and> user (config s) \<noteq> None"

definition update_error :: "string \<Rightarrow> bool \<Rightarrow> string \<Rightarrow> sync_error \<Rightarrow> sync_error" where
  "update_error path backup recovery e =
     (let e = e\<lparr>user_info := (user_info e)(''ORIGINAL_FILE_PATH'' \<mapsto> path)\<rparr>
      in if backup then e\<lparr>user_info := (user_info e)(''RECOVERY_FILE_PATH'' \<mapsto> recovery)\<rparr> else e)"

text \<open>
  \<open>recovery\<close> is the file name that \<open>get_recovery_file_path\<close> reserves, for which \<open>SyncManager::recovery_directory_path\<close>
  asserts that there is a file manager. \<open>SyncManager::perform_metadata_update\<close> does nothing without metadata manager.
\<close>

definition update_error_and_mark_file_for_deletion :: "bool \<Rightarrow> string \<Rightarrow> 'c act" where
  "update_error_and_mark_file_for_deletion backup recovery s =
     run_all [check (backup \<longrightarrow> file_manager s),
       if metadata_manager s
       then run_all [check (realm_url_given s), announce [File_action backup (if backup then recovery else [])]]
       else skip] s"

definition dying_handle_error :: "sync_error \<Rightarrow> 'c act" where
  "dying_handle_error e = (if is_fatal e then advance_state Inactive else skip)"

declare dying_handle_error_def [simp]

text \<open>The first section of \<open>SyncSession::handle_error\<close>, which ends it if the state deals with the error.\<close>

definition state_handle_error :: "sync_error \<Rightarrow> string \<Rightarrow> 'c act" where
  "state_handle_error e recovery s =
     (case state s of
        Dying \<Rightarrow> dying_handle_error e s
      | _ \<Rightarrow> later [Dispatch_error e recovery] s)"

definition dispatch_error :: "sync_error \<Rightarrow> string \<Rightarrow> 'c act" where
  "dispatch_error e recovery s =
     (if is_client_reset_requested e \<and> client_resync_mode (config s) \<noteq> Manual then later [Start_resync] s
      else case error_response e of
        Ignore \<Rightarrow> skip s
      | Expire \<Rightarrow> later [Access_token_expired] s
      | Unauthenticated \<Rightarrow> later [Bad_authentication e] s
      | Next next None \<Rightarrow> later [Finish_error next (unrecognized e)] s
      | Next next (Some backup) \<Rightarrow>
          run_all [update_error_and_mark_file_for_deletion backup recovery,
            later [Finish_error next (update_error (realm_path s) backup recovery e)]] s)"

definition cancel_pending_waits :: "error_code \<Rightarrow> 'c act" where
  "cancel_pending_waits e s =
     run_all [alter (download_callbacks_update (\<lambda>_. [])), alter (upload_callbacks_update (\<lambda>_. [])),
       complete_all (download_callbacks s) e, complete_all (upload_callbacks s) e] s"

definition invalidate_and_go_on :: "sync_error \<Rightarrow> 'c act" where
  "invalidate_and_go_on e s =
     run_all [cancel_pending_waits (error_code e),
       (case user (config s) of None \<Rightarrow> skip | Some u \<Rightarrow> announce [Invalidate_user u]),
       later [Finish_error Next_none e]] s"

definition finish_error :: "next_state \<Rightarrow> sync_error \<Rightarrow> 'c act" where
  "finish_error next e s =
     (case next of
        Next_none \<Rightarrow>
          later ((if cancel_waits_on_nonfatal_error (config s) then [Cancel_waits (error_code e)] else []) @ [Report_error e]) s
      | Next_inactive \<Rightarrow>
          later ((if is_client_reset_requested e then [Cancel_waits (error_code e)] else []) @ [Become_inactive, Report_error e]) s
      | Next_error \<Rightarrow> later [Cancel_waits (error_code e), Report_error e] s)"

definition report_error :: "sync_error \<Rightarrow> 'c act" where
  "report_error e s = (if has_error_handler (config s) then announce [Report e] s else skip s)"

text \<open>\<open>INT_MAX\<close>\<close>

definition max_counter :: int where
  "max_counter = 2 ^ 31 - 1"

definition start_resync :: "'c act" where
  "start_resync s =
     run_all [alter (force_client_resync_update (\<lambda>_. True)), check (client_resync_counter s < max_counter),
       alter (client_resync_counter_update (\<lambda>n. n + 1)), alter (download_callbacks_update (\<lambda>_. [])),
       alter (upload_callbacks_update (\<lambda>_. [])), advance_state Inactive,
       later [Restore_waits (download_callbacks s) (upload_callbacks s), Revive_if_needed]] s"

definition restore_waits :: "'c list \<Rightarrow> 'c list \<Rightarrow> 'c act" where
  "restore_waits downloads uploads =
     run_all [alter (download_callbacks_update (\<lambda>_. downloads)), alter (upload_callbacks_update (\<lambda>_. uploads))]"

section \<open>The methods\<close>

definition wait_for_completion :: "direction \<Rightarrow> 'c \<Rightarrow> 'c act" where
  "wait_for_completion d c =
     run_all [test (\<lambda>s. callbacks d s = []) (state_wait_for_completion d) skip,
       alter (\<lambda>s. set_callbacks d (callbacks d s @ [c]) s)]"

definition refresh_access_token :: "string \<Rightarrow> string option \<Rightarrow> 'c act" where
  "refresh_access_token token url =
     test (\<lambda>s. server_url s = None \<and> url = None) skip (state_refresh_access_token token url)"

definition nonsync_transact_notify :: "64 word \<Rightarrow> 'c act" where
  "nonsync_transact_notify v = run_all [announce [Local_version v], state_nonsync_transact_notify v]"

definition update_configuration :: "sync_config \<Rightarrow> 'c act" where
  "update_configuration new s =
     (if state s \<noteq> Inactive then run_all [advance_state Inactive, later [Update_configuration new]] s
      else run_all [check (session s = None), check (user (config s) = user new),
        check (reference_realm_url (config s) = reference_realm_url new), check (is_partial (config s) = is_partial new),
        alter (config_update (\<lambda>_. new)), later [Revive_if_needed]] s)"

definition external_reference :: "'c act" where
  "external_reference = alter (external_references_update (\<lambda>n. n + 1))"

text \<open>A reference goes out of scope; the last one destroys the \<open>ExternalReference\<close>.\<close>

definition drop_reference :: "'c act" where
  "drop_reference =
     run_all [\<lambda>s. check (external_references s > 0) s, alter (external_references_update (\<lambda>n. n - 1)),
       test (\<lambda>s. external_references s = 0) (later [Did_drop_external_reference]) skip]"

definition did_drop_external_reference :: "'c act" where
  "did_drop_external_reference = test (\<lambda>s. external_references s > 0) skip state_close"

text \<open>The listener, handlers and death waiter that the session gives to the sync client.\<close>

definition connection_event :: "connection_state \<Rightarrow> sync_error option \<Rightarrow> string \<Rightarrow> 'c act" where
  "connection_event new error recovery s =
     run_all [alter (connection_state_update (\<lambda>_. new)), announce [Connection_change (connection_state s) new],
       (case error of None \<Rightarrow> skip | Some e \<Rightarrow> later [Handle_error e recovery])] s"

fun completed :: "waiter \<Rightarrow> error_code \<Rightarrow> 'c act" where
  "completed (Completion d counter) e =
     test (\<lambda>s. counter \<noteq> client_resync_counter s) skip
       (\<lambda>s. run_all [alter (set_callbacks d []), complete_all (callbacks d s) e] s)"
| "completed (Death n) e =
     test (\<lambda>s. state s = Dying \<and> death_count s = n) (advance_state Inactive) skip"

fun exec :: "'c session_section \<Rightarrow> 'c act" where
  "exec (Wait_for d c) = wait_for_completion d c"
| "exec (Refresh_access_token token url) = refresh_access_token token url"
| "exec (Override_server address port) = state_override_server address port"
| "exec (Nonsync_transact_notify v) = nonsync_transact_notify v"
| "exec Revive_if_needed = state_revive_if_needed"
| "exec Handle_reconnect = state_handle_reconnect"
| "exec Log_out = state_log_out"
| "exec Close = state_close"
| "exec (Update_configuration new) = update_configuration new"
| "exec (Set_multiplex_identifier ident) = alter (multiplex_identity_update (\<lambda>_. ident))"
| "exec (Set_url_prefix prefix) = alter (config_update (url_prefix_update (\<lambda>_. Some prefix)))"
| "exec External_reference = external_reference"
| "exec Drop_reference = drop_reference"
| "exec (Connection_event new error recovery) = connection_event new error recovery"
| "exec (Completed w e) = completed w e"
| "exec Did_drop_external_reference = did_drop_external_reference"
| "exec (Handle_error e recovery) = state_handle_error e recovery"
| "exec (Dispatch_error e recovery) = dispatch_error e recovery"
| "exec (Finish_error next e) = finish_error next e"
| "exec Start_resync = start_resync"
| "exec (Restore_waits downloads uploads) = restore_waits downloads uploads"
| "exec Access_token_expired = state_access_token_expired"
| "exec (Bad_authentication e) = invalidate_and_go_on e"
| "exec (Cancel_waits e) = cancel_pending_waits e"
| "exec Become_inactive = advance_state Inactive"
| "exec (Report_error e) = report_error e"
| "exec Unregister_from_manager = unregister_session"
| "exec (Now_inactive old downloads uploads) = now_inactive old downloads uploads"

end
