(* ===== verification/SyncSessionRuns.thy ===== *)
theory SyncSessionRuns
  imports SyncSession "HOL-Library.Multiset"
begin

text \<open>
  How a \<open>SyncSession\<close> is used: methods that threads of the application run at the same time, and the calls of
  the sync client. A \<open>world\<close> is the session with the methods that are running, each with its sections still to
  come, and the completion handlers that the sync client has yet to call. Between two sections of
  a method sections of others may run.
\<close>

section \<open>Steps\<close>

text \<open>
  \<open>registered\<close> are the callbacks given to \<open>wait_for_upload_completion\<close> and \<open>wait_for_download_completion\<close>,
  \<open>lost\<close> those that \<open>Restore_waits\<close> overwrites.
\<close>

record 'c world =
  sess :: "'c sync_session"
  jobs :: "'c session_section list list"
  waiters :: "waiter list"
  trace :: "'c event list"
  registered :: "'c list"
  lost :: "'c list"

definition new_world :: "string \<Rightarrow> sync_config \<Rightarrow> bool \<Rightarrow> bool \<Rightarrow> bool \<Rightarrow> 'c world" where
  "new_world path conf resync files metadata =
     \<lparr>sess = new_session path conf resync files metadata, jobs = [], waiters = [], trace = [], registered = [], lost = []\<rparr>"

fun waiters_of :: "'c event list \<Rightarrow> waiter list" where
  "waiters_of [] = []"
| "waiters_of (Call i (Wait w) # es) = w # waiters_of es"
| "waiters_of (e # es) = waiters_of es"

fun completions :: "'c event list \<Rightarrow> 'c list" where
  "completions [] = []"
| "completions (Complete c e # es) = c # completions es"
| "completions (e # es) = completions es"

fun registers :: "'c session_section \<Rightarrow> 'c list" where
  "registers (Wait_for d c) = [c]"
| "registers x = []"

fun loses :: "'c session_section \<Rightarrow> 'c sync_session \<Rightarrow> 'c list" where
  "loses (Restore_waits downloads uploads) s = download_callbacks s @ upload_callbacks s"
| "loses x s = []"

definition same_realm :: "sync_config \<Rightarrow> sync_config \<Rightarrow> bool" where
  "same_realm a b \<longleftrightarrow> user a = user b \<and> reference_realm_url a = reference_realm_url b \<and> is_partial a = is_partial b"

definition drops :: "'c session_section list list \<Rightarrow> nat" where
  "drops js = length (filter (\<lambda>x. x = Drop_reference) (concat js))"

text \<open>
  The methods that may be called: a reference is dropped once, and \<open>update_configuration\<close> is for the same Realm.
\<close>

fun is_method :: "'c world \<Rightarrow> 'c session_section \<Rightarrow> bool" where
  "is_method w (Wait_for d c) = True"
| "is_method w (Refresh_access_token token url) = True"
| "is_method w (Override_server address port) = True"
| "is_method w (Nonsync_transact_notify v) = True"
| "is_method w Revive_if_needed = True"
| "is_method w Handle_reconnect = True"
| "is_method w Log_out = True"
| "is_method w Close = True"
| "is_method w (Update_configuration new) = same_realm (config (sess w)) new"
| "is_method w (Set_multiplex_identifier ident) = True"
| "is_method w (Set_url_prefix prefix) = True"
| "is_method w External_reference = True"
| "is_method w Drop_reference = (drops (jobs w) < external_references (sess w))"
| "is_method w x = False"

definition restoring :: "'c session_section list \<Rightarrow> bool" where
  "restoring xs \<longleftrightarrow> (\<exists>downloads uploads. Restore_waits downloads uploads \<in> set xs)"

text \<open>
  The events of a \<open>sync::Session\<close> may still come when it has been destroyed. Its completion handlers are called
  once, without error or with \<open>operation_aborted\<close>.
  In \<open>calm\<close> worlds nothing interferes with a client resync until the callbacks are put back.
\<close>

inductive step :: "bool \<Rightarrow> 'c world \<Rightarrow> 'c world \<Rightarrow> bool" where
  start: "is_method w x \<Longrightarrow> step calm w (w\<lparr>jobs := jobs w @ [[x]]\<rparr>)"
| event: "sessions_made (sess w) > 0 \<Longrightarrow>
    step calm w (w\<lparr>jobs := jobs w @ [[Connection_event new error recovery]]\<rparr>)"
| complete: "waiters w = us @ u # vs \<Longrightarrow> e \<in> {success, operation_aborted} \<Longrightarrow>
    step calm w (w\<lparr>waiters := us @ vs, jobs := jobs w @ [[Completed u e]]\<rparr>)"
| run: "jobs w = js @ (x # xs) # ks \<Longrightarrow> exec x (sess w) = Some (s, es, ys) \<Longrightarrow>
    (calm \<Longrightarrow> \<forall>j \<in> set (js @ ks). \<not> restoring j) \<Longrightarrow>
    step calm w (w\<lparr>sess := s, jobs := js @ (ys @ xs) # ks, waiters := waiters w @ waiters_of es, trace := trace w @ es,
      registered := registered w @ registers x, lost := lost w @ loses x (sess w)\<rparr>)"

inductive_cases stepE: "step calm w w'"

inductive reachable :: "bool \<Rightarrow> 'c world \<Rightarrow> bool" where
  initial: "reachable calm (new_world path conf resync files metadata)"
| more: "reachable calm w \<Longrightarrow> step calm w w' \<Longrightarrow> reachable calm w'"

lemma reachable_calm: "reachable True w \<Longrightarrow> reachable calm w"
proof (induction "True" w rule: reachable.induct)
  case (initial path conf resync files metadata)
  show ?case by (rule reachable.initial)
next
  case (more w w')
  from more(3) have "step calm w w'" by cases (auto intro: step.intros)
  with more(2) show ?case by (rule reachable.more)
qed

section \<open>Runs\<close>

text \<open>The steps as a function, to compute worlds: \<open>Handler\<close> and \<open>Go\<close> have the number of the handler or method.\<close>

datatype 'c session_move = Start "'c session_section" | Event connection_state "sync_error option" string | Handler nat error_code | Go nat

fun do_move :: "bool \<Rightarrow> 'c session_move \<Rightarrow> 'c world \<Rightarrow> 'c world option" where
  "do_move calm (Start x) w = (if is_method w x then Some (w\<lparr>jobs := jobs w @ [[x]]\<rparr>) else None)"
| "do_move calm (Event new error recovery) w =
     (if sessions_made (sess w) > 0 then Some (w\<lparr>jobs := jobs w @ [[Connection_event new error recovery]]\<rparr>) else None)"
| "do_move calm (Handler k e) w =
     (if k < length (waiters w) \<and> e \<in> {success, operation_aborted}
      then Some (w\<lparr>waiters := take k (waiters w) @ drop (Suc k) (waiters w), jobs := jobs w @ [[Completed (waiters w ! k) e]]\<rparr>)
      else None)"
| "do_move calm (Go k) w =
     (if k < length (jobs w) then
        case jobs w ! k of
          [] \<Rightarrow> None
        | x # xs \<Rightarrow>
            if calm \<and> (\<exists>j \<in> set (take k (jobs w) @ drop (Suc k) (jobs w)). restoring j) then None
            else map_option (\<lambda>(s, es, ys).
              w\<lparr>sess := s, jobs := take k (jobs w) @ (ys @ xs) # drop (Suc k) (jobs w), waiters := waiters w @ waiters_of es,
                trace := trace w @ es, registered := registered w @ registers x, lost := lost w @ loses x (sess w)\<rparr>)
              (exec x (sess w))
      else None)"

fun play :: "bool \<Rightarrow> 'c session_move list \<Rightarrow> 'c world \<Rightarrow> 'c world option" where
  "play calm [] w = Some w"
| "play calm (m # ms) w = Option.bind (do_move calm m w) (play calm ms)"

lemma move_step: "do_move calm m w = Some w' \<Longrightarrow> step calm w w'"
proof (induction calm m w rule: do_move.induct)
  case (1 calm x w)
  then show ?case by (auto intro: step.start split: if_splits)
next
  case (2 calm new error recovery w)
  then show ?case by (auto intro: step.event split: if_splits)
next
  case (3 calm k e w)
  then show ?case using step.complete[of w "take k (waiters w)" "waiters w ! k" "drop (Suc k) (waiters w)" e calm]
    by (auto simp: id_take_nth_drop[symmetric] split: if_splits)
next
  case (4 calm k w)
  then obtain x xs s es ys where k: "k < length (jobs w)" "jobs w ! k = x # xs" and "exec x (sess w) = Some (s, es, ys)"
    and "calm \<Longrightarrow> \<forall>j \<in> set (take k (jobs w) @ drop (Suc k) (jobs w)). \<not> restoring j"
    and "w' = w\<lparr>sess := s, jobs := take k (jobs w) @ (ys @ xs) # drop (Suc k) (jobs w), waiters := waiters w @ waiters_of es,
      trace := trace w @ es, registered := registered w @ registers x, lost := lost w @ loses x (sess w)\<rparr>"
    by (fastforce split: if_splits list.splits)
  moreover have "jobs w = take k (jobs w) @ (x # xs) # drop (Suc k) (jobs w)"
    using id_take_nth_drop[OF k(1)] k(2) by simp
  ultimately show ?case using step.run by blast
qed

lemma play_reachable: "play calm ms w = Some w' \<Longrightarrow> reachable calm w \<Longrightarrow> reachable calm w'"
  by (induction ms arbitrary: w) (auto split: Option.bind_splits dest: move_step intro: reachable.more)

section \<open>Executing a method alone\<close>

partial_function (option) run_job :: "'c session_section list \<Rightarrow> 'c sync_session \<Rightarrow> ('c sync_session \<times> 'c event list) option" where
  "run_job xs s =
     (case xs of
        [] \<Rightarrow> Some (s, [])
      | x # xs \<Rightarrow> do {
          (s, es, ys) \<leftarrow> exec x s;
          (s, es') \<leftarrow> run_job (ys @ xs) s;
          Some (s, es @ es')
        })"

end
