(* ===== verification/SyncSessionCorrect.thy ===== *)
theory SyncSessionCorrect
  imports SyncSessionRuns
begin

text \<open>
  The invariants of a \<open>SyncSession\<close>.
\<close>

section \<open>Executing sections\<close>

text \<open>The equations of the combinators applied to a session, and the definitions of the sections.\<close>

lemma apply_branches [simp]:
  "(if b then f else g) s = (if b then f s else g s)"
  "(case_option f h y) s = case_option (f s) (\<lambda>y. h y s) y"
  by (simp_all split: option.split)

lemmas act_simps = skip_def alter_def announce_def later_def check_def and_then_def test_def call_session_def complete_all_def

lemmas state_defs = advance_state_def advance_to_def unregister_from_manager_def destroy_session_def waiting_enter_state_def
  active_enter_state_def dying_enter_state_def inactive_enter_state_def add_completion_callback_def

lemmas method_defs = create_sync_session_def bind_session_def override_session_server_def deferred_commit_def
  waiting_refresh_access_token_def active_refresh_access_token_def state_refresh_access_token_def
  refresh_access_token_def state_close_def active_close_def waiting_close_def inactive_close_def
  state_access_token_expired_def state_log_out_def state_revive_if_needed_def state_handle_reconnect_def
  state_nonsync_transact_notify_def nonsync_transact_notify_def state_wait_for_completion_def wait_for_completion_def
  state_override_server_def update_configuration_def external_reference_def drop_reference_def
  did_drop_external_reference_def connection_event_def

lemmas error_defs = state_handle_error_def dispatch_error_def cancel_pending_waits_def invalidate_and_go_on_def
  finish_error_def report_error_def start_resync_def restore_waits_def now_inactive_def
  update_error_and_mark_file_for_deletion_def unregister_session_def

definition sess_ok :: "'c sync_session \<Rightarrow> bool" where
  "sess_ok s \<longleftrightarrow>
     (\<forall>i. session s = Some i \<longrightarrow> session_has_been_bound s = Some True \<and> server_url s \<noteq> None \<and> i < sessions_made s) \<and>
     (state s \<in> {Active, Dying} \<longrightarrow> session s \<noteq> None) \<and> (state s = Inactive \<longrightarrow> session s = None) \<and>
     client_resync_counter s \<le> max_counter"

lemma callbacks_simps [simp]:
  "state (set_callbacks d cs s) = state s" "session (set_callbacks d cs s) = session s"
  "session_has_been_bound (set_callbacks d cs s) = session_has_been_bound s"
  "server_url (set_callbacks d cs s) = server_url s" "sessions_made (set_callbacks d cs s) = sessions_made s"
  "client_resync_counter (set_callbacks d cs s) = client_resync_counter s"
  "config (set_callbacks d cs s) = config s" "external_references (set_callbacks d cs s) = external_references s"
  "death_count (set_callbacks d cs s) = death_count s"
  by (cases d; simp)+


section \<open>Effects\<close>

text \<open>What a change of the state does, and what it calls.\<close>

definition became_inactive :: "'c sync_session \<Rightarrow> 'c sync_session" where
  "became_inactive s =
     s\<lparr>state := Inactive, connection_state := Disconnected, download_callbacks := [], upload_callbacks := [], session := None\<rparr>"

definition leaving_events :: "'c sync_session \<Rightarrow> 'c event list" where
  "leaving_events s =
     Entered (state s) Inactive # (case session s of None \<Rightarrow> [] | Some i \<Rightarrow> [Destroy_session i])"

definition pending_waits :: "nat \<Rightarrow> 'c sync_session \<Rightarrow> 'c event list" where
  "pending_waits i s =
     (if upload_callbacks s \<noteq> [] then [Call i (Wait (Completion Upload (client_resync_counter s)))] else []) @
     (if download_callbacks s \<noteq> [] then [Call i (Wait (Completion Download (client_resync_counter s)))] else [])"

lemma advance_inactive:
  "advance_state Inactive s =
     (if state s = Inactive then None
      else Some (became_inactive s, leaving_events s,
                 [Unregister_from_manager, Now_inactive (connection_state s) (download_callbacks s) (upload_callbacks s)]))"
  by (auto simp: advance_state_def advance_to_def act_simps inactive_enter_state_def destroy_session_def unregister_from_manager_def
      became_inactive_def leaving_events_def split: option.split)

lemma advance_waiting:
  "advance_state Waiting_for_access_token s =
     (if state s = Waiting_for_access_token then None
      else Some (s\<lparr>state := Waiting_for_access_token, deferred_close := False\<rparr>, [Entered (state s) Waiting_for_access_token], []))"
  by (auto simp: advance_state_def advance_to_def act_simps waiting_enter_state_def)

lemma advance_active:
  assumes "session s = Some i"
  shows "advance_state Active s =
     (if state s = Active then None
      else Some (s\<lparr>state := Active\<rparr>, Entered (state s) Active # pending_waits i s, []))"
  using assms by (auto simp: advance_state_def advance_to_def act_simps active_enter_state_def add_completion_callback_def pending_waits_def)

lemma advance_dying:
  assumes "session s = Some i"
  shows "advance_state Dying s =
     (if state s = Dying then None
      else Some (s\<lparr>state := Dying, death_count := death_count s + 1\<rparr>,
        [Entered (state s) Dying, Call i (Wait (Death (death_count s + 1)))], []))"
  using assms by (auto simp: advance_state_def advance_to_def act_simps dying_enter_state_def)

lemmas advance = advance_inactive advance_waiting advance_active advance_dying

lemma became_inactive_simps [simp]:
  "state (became_inactive s) = Inactive" "session (became_inactive s) = None"
  "connection_state (became_inactive s) = Disconnected" "callbacks d (became_inactive s) = []"
  "upload_callbacks (became_inactive s) = []" "download_callbacks (became_inactive s) = []"
  "config (became_inactive s) = config s" "external_references (became_inactive s) = external_references s"
  "client_resync_counter (became_inactive s) = client_resync_counter s" "sessions_made (became_inactive s) = sessions_made s"
  by (cases d; simp add: became_inactive_def)+

text \<open>The states of the object the virtual methods are called on, when the invariant holds.\<close>

lemma session_states:
  assumes "sess_ok s"
  obtains (waiting) "state s = Waiting_for_access_token"
  | (active) i where "state s = Active" "session s = Some i"
  | (dying) i where "state s = Dying" "session s = Some i"
  | (inactive) "state s = Inactive" "session s = None"
  using assms by (cases "state s") (auto simp: sess_ok_def)

lemma active_close:
  assumes "session s = Some i" "state s = Active"
  shows "state_close s =
     (case stop_policy (config s) of
        Immediately \<Rightarrow> advance_state Inactive s
      | LiveIndefinitely \<Rightarrow> Some (s, [], [])
      | AfterChangesUploaded \<Rightarrow> advance_state Dying s)"
  using assms by (simp add: state_close_def active_close_def act_simps split: stop_policy.split)

text \<open>The session a token is given to when the session waits for one.\<close>

definition made_session :: "'c sync_session \<Rightarrow> nat" where
  "made_session s = (case session s of None \<Rightarrow> sessions_made s | Some i \<Rightarrow> i)"

definition got_token :: "string option \<Rightarrow> 'c sync_session \<Rightarrow> 'c sync_session" where
  "got_token url s =
     s\<lparr>state := Active, session := Some (made_session s), session_has_been_bound := Some True,
       sessions_made := (if session s = None then sessions_made s + 1 else sessions_made s),
       server_url := (if server_url s = None then url else server_url s), deferred_commit_notification := None\<rparr>"

definition token_events :: "string \<Rightarrow> string \<Rightarrow> 'c sync_session \<Rightarrow> 'c event list" where
  "token_events token url s =
     (let i = made_session s;
          dir = realm_path s @ ''.resync'';
          conf = \<lparr>multiplex_ident = multiplex_identity s, session_url_prefix = url_prefix (config s),
            client_reset_config = (if force_client_resync s
              then Some (dir, client_resync_mode (config s) = Recover) else None)\<rparr>
      in (if session s = None
          then (if force_client_resync s then [Make_dir dir] else []) @ [Make_session i conf, Call i (Bind url token)]
          else [Call i (Refresh token), Call i Cancel_reconnect_delay]) @
         (case server_override s of None \<Rightarrow> [] | Some (address, port) \<Rightarrow> [Call i (Server address port)]) @
         (case deferred_commit_notification s of None \<Rightarrow> [] | Some v \<Rightarrow> [Call i (Commit v)]) @
         Entered (state s) Active # pending_waits i s)"


lemma and_then_Some: "a s = Some (s', es, xs) \<Longrightarrow>
    and_then a b s = map_option (\<lambda>(s, es', xs'). (s, es @ es', xs @ xs')) (b s')"
  by (auto simp: and_then_def map_option_case split: option.split)

lemma create_session:
  assumes "session s = None"
  shows "create_sync_session s =
    Some (s\<lparr>session := Some (sessions_made s), sessions_made := sessions_made s + 1, session_has_been_bound := Some False\<rparr>,
      (if force_client_resync s then [Make_dir (realm_path s @ ''.resync'')] else []) @
      [Make_session (sessions_made s)
        \<lparr>multiplex_ident = multiplex_identity s, session_url_prefix = url_prefix (config s),
         client_reset_config = (if force_client_resync s
           then Some (realm_path s @ ''.resync'', client_resync_mode (config s) = Recover) else None)\<rparr>], [])"
  using assms by (simp add: create_sync_session_def act_simps)

lemma keep_session: "session s = Some i \<Longrightarrow> create_sync_session s = Some (s, [], [])"
  by (simp add: create_sync_session_def act_simps)

lemma bind_new:
  "session_has_been_bound s = Some False \<Longrightarrow> session s = Some i \<Longrightarrow> server_url s = Some url \<Longrightarrow>
    bind_session token s = Some (s\<lparr>session_has_been_bound := Some True\<rparr>, [Call i (Bind url token)], [])"
  by (simp add: bind_session_def act_simps)

lemma bind_again:
  "session_has_been_bound s = Some True \<Longrightarrow> session s = Some i \<Longrightarrow>
    bind_session token s = Some (s, [Call i (Refresh token), Call i Cancel_reconnect_delay], [])"
  by (simp add: bind_session_def act_simps)

lemma override_session:
  "session s = Some i \<Longrightarrow> override_session_server s =
    Some (s, case server_override s of None \<Rightarrow> [] | Some (address, port) \<Rightarrow> [Call i (Server address port)], [])"
  by (simp add: override_session_server_def act_simps split: option.split)

lemma commit_session:
  "session s = Some i \<Longrightarrow> deferred_commit s =
    Some (s\<lparr>deferred_commit_notification := None\<rparr>,
      case deferred_commit_notification s of None \<Rightarrow> [] | Some v \<Rightarrow> [Call i (Commit v)], [])"
  by (cases s) (simp add: deferred_commit_def act_simps split: option.split)

lemma set_url:
  "test (\<lambda>s. server_url s = None) (alter (server_url_update (\<lambda>_. url))) skip s =
    Some (s\<lparr>server_url := (if server_url s = None then url else server_url s)\<rparr>, [], [])"
  by (cases s) (simp add: act_simps)

text \<open>The steps after the session was made, and bound or refreshed.\<close>

lemma refresh_steps:
  assumes "create_sync_session s = Some (s1, es1, [])" "session s1 = Some i"
    and "bind_session token (s1\<lparr>server_url := (if server_url s1 = None then url else server_url s1)\<rparr>) = Some (s2, es2, [])"
    and "session s2 = Some i" "state s2 \<noteq> Active"
  shows "waiting_refresh_access_token token url s =
    map_option (\<lambda>(s, es, xs).
      (s, es1 @ es2 @ (case server_override s2 of None \<Rightarrow> [] | Some (address, port) \<Rightarrow> [Call i (Server address port)]) @
        (case deferred_commit_notification s2 of None \<Rightarrow> [] | Some v \<Rightarrow> [Call i (Commit v)]) @
        Entered (state s2) Active # pending_waits i s2 @ es, xs))
      (test deferred_close state_close skip (s2\<lparr>deferred_commit_notification := None, state := Active\<rparr>))"
proof -
  let ?s3 = "s2\<lparr>deferred_commit_notification := None\<rparr>"
  have "advance_state Active ?s3 = Some (?s3\<lparr>state := Active\<rparr>, Entered (state s2) Active # pending_waits i s2, [])"
    using assms(4,5) advance_active[of ?s3 i] by (simp add: pending_waits_def)
  note steps = and_then_Some[of create_sync_session s, OF assms(1)]
    and_then_Some[of "test (\<lambda>s. server_url s = None) (alter (server_url_update (\<lambda>_. url))) skip" s1, OF set_url]
    and_then_Some[of "bind_session token" "s1\<lparr>server_url := (if server_url s1 = None then url else server_url s1)\<rparr>", OF assms(3)]
    and_then_Some[of override_session_server s2, OF override_session[OF assms(4)]]
    and_then_Some[of deferred_commit s2, OF commit_session[OF assms(4)]]
    and_then_Some[of "advance_state Active" ?s3, OF this]
  have skip: "and_then b skip = b" for b :: "'a act"
    by (auto simp: and_then_def skip_def fun_eq_iff split: Option.bind_split)
  show ?thesis
    unfolding waiting_refresh_access_token_def run_all.simps steps skip
    by (simp add: option.map_comp comp_def case_prod_unfold)
qed

lemma waiting_refresh:
  assumes "sess_ok s" "state s = Waiting_for_access_token" "server_url (got_token url s) = Some u"
  shows "waiting_refresh_access_token token url s =
    map_option (\<lambda>(s', es, xs). (s', token_events token u s @ es, xs)) (test deferred_close state_close skip (got_token url s))"
proof (cases "session s")
  case None
  let ?s1 = "s\<lparr>session := Some (sessions_made s), sessions_made := sessions_made s + 1, session_has_been_bound := Some False\<rparr>"
  let ?s2 = "?s1\<lparr>server_url := (if server_url ?s1 = None then url else server_url ?s1), session_has_been_bound := Some True\<rparr>"
  have eq: "?s2\<lparr>deferred_commit_notification := None, state := Active\<rparr> = got_token url s"
    using None by (cases s) (simp add: got_token_def made_session_def)
  have "bind_session token (?s1\<lparr>server_url := (if server_url ?s1 = None then url else server_url ?s1)\<rparr>) =
      Some (?s2, [Call (sessions_made s) (Bind u token)], [])"
    by (subst bind_new[where i = "sessions_made s" and url = u]) (use assms(3) in \<open>auto simp: got_token_def split: if_splits\<close>)
  note refresh_steps[OF create_session[OF None] _ this, unfolded eq]
  then show ?thesis using None assms(2)
    by (simp add: token_events_def made_session_def pending_waits_def Let_def)
next
  case (Some i)
  let ?s2 = "s\<lparr>server_url := (if server_url s = None then url else server_url s)\<rparr>"
  have b: "session_has_been_bound s = Some True" using assms(1) Some by (auto simp: sess_ok_def)
  have eq: "?s2\<lparr>deferred_commit_notification := None, state := Active\<rparr> = got_token url s"
    using Some b by (cases s) (simp add: got_token_def made_session_def)
  have "bind_session token ?s2 = Some (?s2, [Call i (Refresh token), Call i Cancel_reconnect_delay], [])"
    using Some b by (subst bind_again[where i = i]) simp_all
  note refresh_steps[OF keep_session[OF Some] Some this, unfolded eq]
  then show ?thesis using Some assms(2)
    by (simp add: token_events_def made_session_def pending_waits_def Let_def)
qed

section \<open>The effects of a section\<close>

text \<open>Sections that put callbacks aside.\<close>

fun held_by :: "'c session_section \<Rightarrow> 'c list" where
  "held_by (Restore_waits downloads uploads) = downloads @ uploads"
| "held_by (Now_inactive old downloads uploads) = downloads @ uploads"
| "held_by x = []"

definition same_core :: "'c sync_session \<Rightarrow> 'c sync_session \<Rightarrow> bool" where
  "same_core s s' \<longleftrightarrow>
     state s' = state s \<and> session s' = session s \<and> session_has_been_bound s' = session_has_been_bound s \<and>
     server_url s' = server_url s \<and> sessions_made s' = sessions_made s \<and> upload_callbacks s' = upload_callbacks s \<and>
     download_callbacks s' = download_callbacks s \<and> client_resync_counter s' = client_resync_counter s \<and>
     death_count s' = death_count s"

fun quiet_call :: "session_call \<Rightarrow> bool" where
  "quiet_call (Bind url token) = False"
| "quiet_call (Wait u) = False"
| "quiet_call c = True"

fun quiet_event :: "'c sync_session \<Rightarrow> 'c event \<Rightarrow> bool" where
  "quiet_event s (Entered old new) = False"
| "quiet_event s (Make_session i conf) = False"
| "quiet_event s (Destroy_session i) = False"
| "quiet_event s (Call i c) = (session s = Some i \<and> quiet_call c)"
| "quiet_event s e = True"

inductive effect :: "'c sync_session \<Rightarrow> 'c event list \<Rightarrow> 'c sync_session \<Rightarrow> bool" where
  quiet: "same_core s s' \<Longrightarrow> (\<forall>e \<in> set es. quiet_event s e) \<Longrightarrow> effect s es s'"
| leave: "state s \<noteq> Inactive \<Longrightarrow> effect s (leaving_events s) (became_inactive s)"
| wait: "state s \<in> {Active, Inactive} \<Longrightarrow>
    effect s [Entered (state s) Waiting_for_access_token, Request_token] (s\<lparr>state := Waiting_for_access_token, deferred_close := False\<rparr>)"
| token: "state s = Waiting_for_access_token \<Longrightarrow> server_url (got_token url s) = Some u \<Longrightarrow>
    effect s (token_events token u s) (got_token url s)"
| die: "state s = Active \<Longrightarrow> session s = Some i \<Longrightarrow>
    effect s [Entered Active Dying, Call i (Wait (Death (death_count s + 1)))] (s\<lparr>state := Dying, death_count := death_count s + 1\<rparr>)"
| revive: "state s = Dying \<Longrightarrow> session s = Some i \<Longrightarrow> effect s (Entered Dying Active # pending_waits i s) (s\<lparr>state := Active\<rparr>)"
| add: "callbacks d s \<noteq> [] \<or> state s \<notin> {Active, Dying} \<Longrightarrow> effect s [] (set_callbacks d (callbacks d s @ [c]) s)"
| add_first: "callbacks d s = [] \<Longrightarrow> state s \<in> {Active, Dying} \<Longrightarrow> session s = Some i \<Longrightarrow>
    effect s [Call i (Wait (Completion d (client_resync_counter s)))] (set_callbacks d [c] s)"
| take: "effect s (map (\<lambda>c. Complete c e) (callbacks d s)) (set_callbacks d [] s)"
| resync: "state s \<noteq> Inactive \<Longrightarrow> client_resync_counter s < max_counter \<Longrightarrow>
    effect s (leaving_events s)
      ((became_inactive s)\<lparr>force_client_resync := True, client_resync_counter := client_resync_counter s + 1\<rparr>)"
| sequence: "effect s es s' \<Longrightarrow> effect s' es' s'' \<Longrightarrow> effect s (es @ es') s''"

lemma effect_quiet_calls:
  "session s = Some i \<Longrightarrow> \<forall>c \<in> set cs. quiet_call c \<Longrightarrow> effect s (map (Call i) cs) s"
  by (rule effect.quiet) (auto simp: same_core_def)

lemma close_effect:
  assumes "sess_ok s" "state_close s = Some (s', es, ys)"
  shows "effect s es s'"
  using assms(1)
proof (cases rule: session_states)
  case waiting
  with assms(2) show ?thesis
    by (auto simp: state_close_def waiting_close_def advance_inactive act_simps same_core_def split: stop_policy.splits
        intro: effect.leave effect.quiet)
next
  case (active i)
  with assms(2) show ?thesis
    by (auto simp: active_close advance split: stop_policy.splits if_splits intro: effect.leave effect.die effect.quiet simp: same_core_def)
next
  case (dying i)
  with assms(2) show ?thesis by (auto simp: state_close_def act_simps same_core_def intro: effect.quiet)
next
  case inactive
  with assms(2) show ?thesis by (auto simp: state_close_def inactive_close_def unregister_from_manager_def act_simps same_core_def intro: effect.quiet)
qed

lemma got_token_ok:
  assumes "sess_ok s" "state s = Waiting_for_access_token" "server_url (got_token url s) = Some u"
  shows "sess_ok (got_token url s)"
  using assms by (auto simp: sess_ok_def got_token_def made_session_def split: option.splits if_splits)

lemma refresh_effect:
  assumes "sess_ok s" "refresh_access_token token url s = Some (s', es, ys)"
  shows "effect s es s'"
  using assms(1)
proof (cases rule: session_states)
  case waiting
  show ?thesis
  proof (cases "server_url s = None \<and> url = None")
    case True
    with assms(2) show ?thesis by (auto simp: refresh_access_token_def act_simps same_core_def intro: effect.quiet)
  next
    case False
    then obtain u where u: "server_url (got_token url s) = Some u" by (cases "server_url s") (auto simp: got_token_def)
    note ok = got_token_ok[OF assms(1) waiting u]
    have t: "effect s (token_events token u s) (got_token url s)" using waiting u by (rule effect.token)
    from False assms(2) have "map_option (\<lambda>(s', es, xs). (s', token_events token u s @ es, xs)) (test deferred_close state_close skip (got_token url s)) = Some (s', es, ys)"
      unfolding refresh_access_token_def test_def[of "\<lambda>s. server_url s = None \<and> url = None"] if_not_P[OF False]
      by (simp add: state_refresh_access_token_def waiting waiting_refresh[OF assms(1) waiting u])
    then obtain es' where "es = token_events token u s @ es'"
        "state_close (got_token url s) = Some (s', es', ys) \<or> es' = [] \<and> s' = got_token url s"
      by (auto simp: act_simps split: if_splits Option.bind_splits)
    then show ?thesis using t effect.sequence[OF t] close_effect[OF ok] by auto
  qed
next
  case (active i)
  with assms(2) show ?thesis
    by (auto simp: refresh_access_token_def state_refresh_access_token_def active_refresh_access_token_def act_simps same_core_def
        intro!: effect.quiet split: if_splits)
qed (use assms(2) in \<open>auto simp: refresh_access_token_def state_refresh_access_token_def act_simps same_core_def
        intro: effect.quiet split: if_splits\<close>)


lemma advance_inactive_effect:
  "advance_state Inactive s = Some (s', es, ys) \<Longrightarrow> effect s es s'"
  by (auto simp: advance_inactive intro: effect.leave split: if_splits)

lemma revive_effect:
  assumes "sess_ok s" "state_revive_if_needed s = Some (s', es, ys)"
  shows "effect s es s'"
  using assms(1)
proof (cases rule: session_states)
  case (dying i)
  with assms(2) show ?thesis by (auto simp: state_revive_if_needed_def advance_active intro: effect.revive)
next
  case inactive
  with assms(2) effect.wait[of s] show ?thesis by (auto simp: state_revive_if_needed_def advance_waiting act_simps)
qed (use assms(2) in \<open>auto simp: state_revive_if_needed_def act_simps same_core_def intro: effect.quiet\<close>)

lemma wait_effect:
  assumes "sess_ok s" "wait_for_completion d c s = Some (s', es, ys)"
  shows "effect s es s'"
proof (cases "callbacks d s = []")
  case True
  from assms(1) show ?thesis
  proof (cases rule: session_states)
    case waiting
    with assms(2) True effect.add[of d s c] show ?thesis by (auto simp: wait_for_completion_def state_wait_for_completion_def act_simps)
  next
    case (active i)
    with assms(2) True effect.add_first[of d s i c] show ?thesis
      by (auto simp: wait_for_completion_def state_wait_for_completion_def add_completion_callback_def act_simps)
  next
    case (dying i)
    with assms(2) True effect.add_first[of d s i c] show ?thesis
      by (auto simp: wait_for_completion_def state_wait_for_completion_def add_completion_callback_def act_simps)
  next
    case inactive
    with assms(2) True effect.add[of d s c] show ?thesis by (auto simp: wait_for_completion_def state_wait_for_completion_def act_simps)
  qed
next
  case False
  with assms(2) effect.add[of d s c] show ?thesis by (auto simp: wait_for_completion_def act_simps)
qed

lemma cancel_effect:
  assumes "cancel_pending_waits e s = Some (s', es, ys)"
  shows "effect s es s'"
proof -
  have "s' = set_callbacks Upload [] (set_callbacks Download [] s)" "ys = []"
    and "es = map (\<lambda>c. Complete c e) (callbacks Download s) @ map (\<lambda>c. Complete c e) (callbacks Upload (set_callbacks Download [] s))"
    using assms by (simp_all add: cancel_pending_waits_def act_simps)
  then show ?thesis using effect.sequence[OF effect.take effect.take] by blast
qed

lemma resync_effect:
  assumes "start_resync s = Some (s', es, ys)"
  shows "effect s es s'"
proof -
  have eq: "became_inactive (client_resync_counter_update (\<lambda>n. n + 1) (s\<lparr>force_client_resync := True\<rparr>)
      \<lparr>download_callbacks := [], upload_callbacks := []\<rparr>) =
    (became_inactive s)\<lparr>force_client_resync := True, client_resync_counter := client_resync_counter s + 1\<rparr>"
    by (cases s) (simp add: became_inactive_def)
  have "state s \<noteq> Inactive" "client_resync_counter s < max_counter" "es = leaving_events s"
    and "s' = (became_inactive s)\<lparr>force_client_resync := True, client_resync_counter := client_resync_counter s + 1\<rparr>"
    using assms eq by (auto simp: start_resync_def act_simps advance_inactive leaving_events_def split: if_splits)
  then show ?thesis using effect.resync by simp
qed

lemma completed_effect:
  assumes "sess_ok s" "completed u e s = Some (s', es, ys)"
  shows "effect s es s'"
proof (cases u)
  case (Completion d k)
  with assms(2) effect.take[of s e d] show ?thesis by (auto simp: act_simps same_core_def split: if_splits intro: effect.quiet)
next
  case (Death n)
  with assms(2) show ?thesis
    by (auto simp: test_def skip_def same_core_def split: if_splits intro: effect.quiet advance_inactive_effect)
qed


lemma quiet_effects:
  assumes "sess_ok s" "exec x s = Some (s', es, ys)"
    and "x \<in> {Handle_reconnect, External_reference, Drop_reference} \<or>
      (\<exists>address port. x = Override_server address port) \<or> (\<exists>v. x = Nonsync_transact_notify v) \<or>
      (\<exists>ident. x = Set_multiplex_identifier ident) \<or> (\<exists>prefix. x = Set_url_prefix prefix) \<or>
      (\<exists>new error recovery. x = Connection_event new error recovery) \<or> (\<exists>next e. x = Finish_error next e) \<or>
      (\<exists>e recovery. x = Dispatch_error e recovery) \<or> (\<exists>e. x = Report_error e) \<or> x = Unregister_from_manager"
  shows "same_core s s' \<and> (\<forall>e \<in> set es. quiet_event s e)"
  using assms(1)
proof (cases rule: session_states)
  case waiting
  with assms(2,3) show ?thesis
    by (auto simp: method_defs error_defs act_simps same_core_def split: if_splits response.splits option.splits next_state.splits)
next
  case (active i)
  with assms(2,3) show ?thesis
    by (auto simp: method_defs error_defs act_simps same_core_def split: if_splits response.splits option.splits next_state.splits)
next
  case (dying i)
  with assms(2,3) show ?thesis
    by (auto simp: method_defs error_defs act_simps same_core_def split: if_splits response.splits option.splits next_state.splits)
next
  case inactive
  with assms(2,3) show ?thesis
    by (auto simp: method_defs error_defs act_simps same_core_def split: if_splits response.splits option.splits next_state.splits)
qed


lemma handle_error_effect:
  assumes "sess_ok s" "state_handle_error e recovery s = Some (s', es, ys)"
  shows "effect s es s'"
  using assms(2)
  by (auto simp: state_handle_error_def act_simps same_core_def split: session_state.splits if_splits
      intro: effect.quiet advance_inactive_effect)

lemma configuration_effect:
  assumes "sess_ok s" "update_configuration new s = Some (s', es, ys)"
  shows "effect s es s'"
proof (cases "state s = Inactive")
  case True
  with assms(2) show ?thesis
    by (auto simp: update_configuration_def act_simps same_core_def split: if_splits intro: effect.quiet)
next
  case False
  with assms(2) effect.leave[of s] show ?thesis by (auto simp: update_configuration_def act_simps advance_inactive)
qed

lemma expired_effect:
  assumes "state_access_token_expired s = Some (s', es, ys)"
  shows "effect s es s'"
  using assms effect.wait[of s]
  by (auto simp: state_access_token_expired_def advance_waiting act_simps same_core_def split: session_state.splits intro: effect.quiet)

lemma authentication_effect:
  assumes "invalidate_and_go_on e s = Some (s', es, ys)"
  shows "effect s es s'"
proof -
  obtain es' es'' where c: "cancel_pending_waits (error_code e) s = Some (s', es', [])" and es: "es = es' @ es''"
      and u: "\<forall>x \<in> set es''. \<exists>u. x = Invalidate_user u"
    using assms by (auto simp: invalidate_and_go_on_def cancel_pending_waits_def act_simps split: option.splits)
  have "effect s' es'' s'" using u by (auto intro!: effect.quiet simp: same_core_def)
  with cancel_effect[OF c] show ?thesis unfolding es by (rule effect.sequence)
qed

lemma restore_exec:
  "exec (Restore_waits downloads uploads) s = Some (s\<lparr>download_callbacks := downloads, upload_callbacks := uploads\<rparr>, [], [])"
  by (simp add: restore_waits_def act_simps)

definition is_restore :: "'c session_section \<Rightarrow> bool" where
  "is_restore x \<longleftrightarrow> (\<exists>downloads uploads. x = Restore_waits downloads uploads)"

lemma exec_effect:
  assumes "sess_ok s" "exec x s = Some (s', es, ys)" "\<not> is_restore x"
  shows "effect s es s'"
proof (cases x)
  case (Restore_waits downloads uploads)
  with assms(3) show ?thesis by (simp add: is_restore_def)
next
  case (Now_inactive old downloads uploads)
  then have "s' = s" "\<forall>e \<in> set es. quiet_event s e"
    using assms(2) by (auto simp: now_inactive_def act_simps split: if_splits)
  then show ?thesis by (auto intro: effect.quiet simp: same_core_def)
next
  case (Completed u e)
  then show ?thesis using assms(1,2) completed_effect by auto
next
  case Did_drop_external_reference
  then show ?thesis using assms close_effect[OF assms(1)]
    by (auto simp: did_drop_external_reference_def test_def skip_def same_core_def split: if_splits intro: effect.quiet)
next
  case Log_out
  then show ?thesis using assms(2)
    by (auto simp: state_log_out_def act_simps same_core_def split: session_state.splits intro: effect.quiet advance_inactive_effect)
next
  case (Wait_for d c)
  then show ?thesis using assms(2) by (auto intro: wait_effect[OF assms(1)])
next
  case (Refresh_access_token token url)
  then show ?thesis using assms(2) by (auto intro: refresh_effect[OF assms(1)])
next
  case Revive_if_needed
  then show ?thesis using assms(2) by (auto intro: revive_effect[OF assms(1)])
next
  case Close
  then show ?thesis using assms(2) by (auto intro: close_effect[OF assms(1)])
next
  case (Update_configuration new)
  then show ?thesis using assms(2) by (auto intro: configuration_effect[OF assms(1)])
next
  case (Handle_error e recovery)
  then show ?thesis using assms(2) by (auto intro: handle_error_effect[OF assms(1)])
next
  case Start_resync
  then show ?thesis using assms(2) by (auto intro: resync_effect)
next
  case Access_token_expired
  then show ?thesis using assms(2) by (auto intro: expired_effect)
next
  case (Bad_authentication e)
  then show ?thesis using assms(2) by (auto intro: authentication_effect)
next
  case (Cancel_waits e)
  then show ?thesis using assms(2) by (auto intro: cancel_effect)
next
  case Become_inactive
  then show ?thesis using assms(2) by (auto intro: advance_inactive_effect)
qed (use quiet_effects[OF assms(1,2)] in \<open>auto intro: effect.quiet\<close>)


section \<open>The invariant of the session\<close>

lemma effect_ok: "effect s es s' \<Longrightarrow> sess_ok s \<Longrightarrow> sess_ok s'"
proof (induction rule: effect.induct)
  case (token s url u token)
  then show ?case using got_token_ok by blast
next
  case (sequence s es s' es' s'')
  then show ?case by blast
qed (auto simp: sess_ok_def same_core_def)

lemma exec_ok:
  assumes "sess_ok s" "exec x s = Some (s', es, ys)"
  shows "sess_ok s'"
proof (cases "is_restore x")
  case True
  then obtain downloads uploads where "x = Restore_waits downloads uploads" by (auto simp: is_restore_def)
  with assms show ?thesis by (auto simp: restore_exec sess_ok_def simp del: exec.simps)
next
  case False
  with assms show ?thesis using exec_effect effect_ok by blast
qed

lemma new_session_ok [simp]: "sess_ok (new_session path conf resync files metadata)"
  by (simp add: sess_ok_def new_session_def max_counter_def)

end
