(* ===== verification/SyncSessionInvariants.thy ===== *)
theory SyncSessionInvariants
  imports SyncSessionCorrect
begin

text \<open>
  What holds of a \<open>SyncSession\<close> in all worlds that can be reached: what changes its state, it uses its \<open>sync::Session\<close>s as these demand, no callback is called twice, and those that wait will be called.
\<close>

section \<open>Changes of the state\<close>

text \<open>
  The comment before \<open>SyncSession::State\<close> (lines "From" and "To"): which section may change which state. A
  session is asked to close by \<open>close\<close>, by the last external reference, or by a token that comes after
  a close was deferred.
\<close>

definition asked_to_close :: "'c session_section \<Rightarrow> 'c sync_session \<Rightarrow> bool" where
  "asked_to_close x s \<longleftrightarrow>
     x \<in> {Close, Did_drop_external_reference} \<or> (\<exists>token url. x = Refresh_access_token token url) \<and> deferred_close s"

fun documented :: "'c session_section \<Rightarrow> 'c sync_session \<Rightarrow> session_state \<Rightarrow> session_state \<Rightarrow> bool" where
  "documented x s Inactive Waiting_for_access_token = (x = Revive_if_needed)"
| "documented x s Waiting_for_access_token Active = (\<exists>token url. x = Refresh_access_token token url)"
| "documented x s Waiting_for_access_token Inactive =
     (x = Log_out \<or> asked_to_close x s \<and> stop_policy (config s) = Immediately)"
| "documented x s Active Waiting_for_access_token = (x = Access_token_expired)"
| "documented x s Active Inactive = (x = Log_out \<or> asked_to_close x s \<and> stop_policy (config s) = Immediately)"
| "documented x s Active Dying = (asked_to_close x s \<and> stop_policy (config s) = AfterChangesUploaded)"
| "documented x s Dying Inactive = (x = Log_out \<or> (\<exists>e. x = Completed (Death (death_count s)) e))"
| "documented x s Dying Active = (x = Revive_if_needed)"
| "documented x s a b = False"

text \<open>
  What else makes a session inactive: a client resync, an error that does, a fatal error when the session is dying, and
  \<open>update_configuration\<close>.
\<close>

definition undocumented :: "'c session_section \<Rightarrow> session_state \<Rightarrow> session_state \<Rightarrow> bool" where
  "undocumented x a b \<longleftrightarrow> a \<noteq> Inactive \<and> b = Inactive \<and>
     (x \<in> {Start_resync, Become_inactive} \<or> (\<exists>new. x = Update_configuration new) \<or>
      a = Dying \<and> (\<exists>e recovery. x = Handle_error e recovery \<and> is_fatal e))"

text \<open>
  The state after the events, if each change among them is among the changes given and starts where the last one ended.
\<close>

fun follows :: "(session_state \<Rightarrow> session_state \<Rightarrow> bool) \<Rightarrow> session_state \<Rightarrow> 'c event list \<Rightarrow> session_state option" where
  "follows may a [] = Some a"
| "follows may a (Entered x y # es) = (if x = a \<and> may x y then follows may y es else None)"
| "follows may a (e # es) = follows may a es"

lemma follows_append: "follows may a (es @ es') = Option.bind (follows may a es) (\<lambda>b. follows may b es')"
  by (induction may a es rule: follows.induct) auto

lemma follows_other: "(\<And>x y. Entered x y \<notin> set es) \<Longrightarrow> follows may a es = Some a"
  by (induction may a es rule: follows.induct) auto

lemma follows_mono: "follows may a es = Some b \<Longrightarrow> (\<And>x y. may x y \<Longrightarrow> may' x y) \<Longrightarrow> follows may' a es = Some b"
  by (induction may a es rule: follows.induct) (auto split: if_splits)

lemma follows_quiet: "\<forall>e \<in> set es. quiet_event s e \<Longrightarrow> follows may a es = Some a"
  by (rule follows_other) auto

lemma follows_completions: "follows may a (map (\<lambda>c. Complete c e) cs) = Some a"
  by (rule follows_other) auto

lemma follows_waits: "follows may a (pending_waits i s) = Some a"
  by (simp add: pending_waits_def)

lemma inactive_follows:
  "advance_state Inactive s = Some (s', es, ys) \<Longrightarrow> (state s \<noteq> Inactive \<Longrightarrow> may (state s) Inactive) \<Longrightarrow>
    follows may (state s) es = Some (state s')"
  by (auto simp: advance_inactive leaving_events_def split: option.split if_splits)

lemma close_follows:
  assumes "sess_ok s" "state_close s = Some (s', es, ys)"
    and "stop_policy (config s) = Immediately \<Longrightarrow> may Waiting_for_access_token Inactive \<and> may Active Inactive"
    and "stop_policy (config s) = AfterChangesUploaded \<Longrightarrow> may Active Dying"
  shows "follows may (state s) es = Some (state s')"
  using assms(1)
proof (cases rule: session_states)
  case waiting
  with assms(2,3) show ?thesis
    by (auto simp: state_close_def waiting_close_def act_simps split: stop_policy.splits dest!: inactive_follows[of s _ _ _ may])
next
  case (active i)
  with assms(2-4) show ?thesis
    by (auto simp: active_close advance_dying split: stop_policy.splits if_splits dest!: inactive_follows[of s _ _ _ may])
qed (use assms(2) in \<open>auto simp: state_close_def inactive_close_def unregister_from_manager_def act_simps\<close>)

text \<open>A section that gives the session a token.\<close>

lemma refresh_follows:
  assumes ok: "sess_ok s" and r: "refresh_access_token token url s = Some (s', es, ys)"
  shows "follows (documented (Refresh_access_token token url) s) (state s) es = Some (state s')"
  using ok
proof (cases rule: session_states)
  case waiting
  let ?may = "documented (Refresh_access_token token url) s"
  show ?thesis
  proof (cases "server_url s = None \<and> url = None")
    case True
    with r show ?thesis by (auto simp: refresh_access_token_def act_simps)
  next
    case False
    then obtain u where u: "server_url (got_token url s) = Some u" by (cases "server_url s") (auto simp: got_token_def)
    have start: "follows ?may (state s) (token_events token u s) = Some Active"
      using waiting by (auto simp: token_events_def Let_def follows_append follows_waits split: option.split)
    from False r have "map_option (\<lambda>(s', es, xs). (s', token_events token u s @ es, xs)) (test deferred_close state_close skip (got_token url s)) = Some (s', es, ys)"
      unfolding refresh_access_token_def test_def[of "\<lambda>s. server_url s = None \<and> url = None"] if_not_P[OF False]
      by (simp add: state_refresh_access_token_def waiting waiting_refresh[OF ok waiting u])
    then obtain es' where es: "es = token_events token u s @ es'"
      and rest: "deferred_close s \<and> state_close (got_token url s) = Some (s', es', ys) \<or> es' = [] \<and> s' = got_token url s"
      by (auto simp: test_def skip_def got_token_def split: if_splits)
    have "follows ?may Active es' = Some (state s')"
      using rest close_follows[OF got_token_ok[OF ok waiting u], of s' es' ys ?may]
      by (auto simp: got_token_def asked_to_close_def)
    with start es show ?thesis by (simp add: follows_append)
  qed
qed (use r in \<open>auto simp: refresh_access_token_def state_refresh_access_token_def active_refresh_access_token_def act_simps
  split: if_splits\<close>)

definition causes :: "'c session_section \<Rightarrow> 'c sync_session \<Rightarrow> session_state \<Rightarrow> session_state \<Rightarrow> bool" where
  "causes x s a b \<longleftrightarrow> documented x s a b \<or> undocumented x a b"

lemma quiet_follows:
  assumes "effect s es s'" "\<And>a b. Entered a b \<notin> set es" "state s' = state s"
  shows "follows may (state s) es = Some (state s')"
  using assms(2,3) follows_other[of es may "state s"] by simp

lemma exec_follows:
  assumes ok: "sess_ok s" and x: "exec x s = Some (s', es, ys)"
  shows "follows (causes x s) (state s) es = Some (state s')"
proof (cases x)
  case (Refresh_access_token token url)
  with refresh_follows[OF ok, of token url] x show ?thesis by (auto intro: follows_mono simp: causes_def)
next
  case Close
  with close_follows[OF ok] x show ?thesis by (auto simp: causes_def asked_to_close_def)
next
  case Did_drop_external_reference
  with close_follows[OF ok] x show ?thesis
    by (auto simp: causes_def asked_to_close_def did_drop_external_reference_def test_def skip_def split: if_splits)
next
  case Log_out
  with x show ?thesis
    by (auto simp: state_log_out_def skip_def causes_def split: session_state.splits dest: inactive_follows[where may = "causes x s"])
next
  case Revive_if_needed
  show ?thesis using ok
    by (cases rule: session_states)
      (use x Revive_if_needed in \<open>auto simp: state_revive_if_needed_def advance_active advance_waiting act_simps causes_def follows_waits\<close>)
next
  case (Update_configuration new)
  with x show ?thesis
    by (auto simp: update_configuration_def act_simps advance_inactive leaving_events_def causes_def undocumented_def
        split: if_splits option.splits)
next
  case (Completed u e)
  with x show ?thesis
    by (cases u) (auto simp: act_simps advance_inactive leaving_events_def causes_def follows_completions
        split: if_splits option.splits)
next
  case (Handle_error e recovery)
  with x show ?thesis
    by (auto simp: state_handle_error_def act_simps advance_inactive leaving_events_def causes_def undocumented_def
        split: if_splits option.splits session_state.splits)
next
  case Start_resync
  with x show ?thesis
    by (auto simp: start_resync_def act_simps advance_inactive leaving_events_def causes_def undocumented_def
        split: if_splits option.splits)
next
  case Access_token_expired
  with x show ?thesis
    by (auto simp: state_access_token_expired_def act_simps advance_waiting causes_def split: session_state.splits)
next
  case Become_inactive
  with x show ?thesis
    by (auto simp: causes_def undocumented_def dest: inactive_follows[where may = "causes x s"])
next
  case (Wait_for d c)
  show ?thesis using ok
    by (cases rule: session_states)
      (use x Wait_for in \<open>auto simp: wait_for_completion_def state_wait_for_completion_def add_completion_callback_def act_simps split: if_splits\<close>)
next
  case (Bad_authentication e)
  with x show ?thesis
    by (subst follows_other) (auto simp: invalidate_and_go_on_def cancel_pending_waits_def act_simps split: option.splits)
next
  case (Cancel_waits e)
  with x show ?thesis by (subst follows_other) (auto simp: cancel_pending_waits_def act_simps)
next
  case (Restore_waits downloads uploads)
  with x show ?thesis by (auto simp: restore_exec simp del: exec.simps)
next
  case (Now_inactive old downloads uploads)
  with x show ?thesis by (subst follows_other) (auto simp: now_inactive_def act_simps split: if_splits)
qed (use quiet_effects[OF ok x] in \<open>auto simp: same_core_def follows_quiet\<close>)

section \<open>The use of the sync sessions\<close>

text \<open>
  What the sync client demands: there is one \<open>sync::Session\<close> at a time, it is bound once and before
  anything else is called, and nothing is called after it was destroyed. The arguments are the number of sessions
  made and the one that exists, with whether it is bound.
\<close>

fun uses_sessions :: "nat \<times> (nat \<times> bool) option \<Rightarrow> 'c event list \<Rightarrow> (nat \<times> (nat \<times> bool) option) option" where
  "uses_sessions v [] = Some v"
| "uses_sessions (n, v) (Make_session i conf # es) =
     (if v = None \<and> i = n then uses_sessions (n + 1, Some (i, False)) es else None)"
| "uses_sessions (n, v) (Call i (Bind url token) # es) =
     (if v = Some (i, False) then uses_sessions (n, Some (i, True)) es else None)"
| "uses_sessions (n, v) (Call i c # es) = (if v = Some (i, True) then uses_sessions (n, v) es else None)"
| "uses_sessions (n, v) (Destroy_session i # es) =
     (if v \<in> {Some (i, False), Some (i, True)} then uses_sessions (n, None) es else None)"
| "uses_sessions v (e # es) = uses_sessions v es"

definition view :: "'c sync_session \<Rightarrow> nat \<times> (nat \<times> bool) option" where
  "view s = (sessions_made s, map_option (\<lambda>i. (i, True)) (session s))"

lemma uses_sessions_append: "uses_sessions v (es @ es') = Option.bind (uses_sessions v es) (\<lambda>v. uses_sessions v es')"
  by (induction v es rule: uses_sessions.induct) auto

lemma uses_quiet:
  assumes "\<forall>e \<in> set es. quiet_event s e"
  shows "uses_sessions (view s) es = Some (view s)"
  using assms
proof (induction es)
  case (Cons e es)
  then show ?case
  proof (cases e)
    case (Call i c)
    with Cons show ?thesis by (cases c) (auto simp: view_def)
  qed (auto simp: view_def)
qed simp

lemma uses_waits: "uses_sessions (n, Some (i, True)) (pending_waits i s) = Some (n, Some (i, True))"
  by (simp add: pending_waits_def)

lemma uses_completions: "uses_sessions v (map (\<lambda>c. Complete c e) cs) = Some v"
  by (induction cs) (auto split: prod.split)

lemma effect_uses: "effect s es s' \<Longrightarrow> sess_ok s \<Longrightarrow> uses_sessions (view s) es = Some (view s')"
proof (induction rule: effect.induct)
  case (quiet s s' es)
  then show ?case using uses_quiet[of es s] by (auto simp: same_core_def view_def)
next
  case (leave s)
  then show ?case by (auto simp: leaving_events_def view_def split: option.split)
next
  case (resync s)
  then show ?case by (auto simp: leaving_events_def view_def split: option.split)
next
  case (token s url u token)
  then show ?case
    by (auto simp: token_events_def Let_def uses_sessions_append uses_waits got_token_def made_session_def view_def split: option.split)
next
  case (take s e d)
  show ?case by (simp add: uses_completions view_def)
next
  case (sequence s es s' es' s'')
  then show ?case using effect_ok[OF sequence(1)] by (simp add: uses_sessions_append)
qed (auto simp: view_def uses_waits)

lemma exec_uses:
  assumes "sess_ok s" "exec x s = Some (s', es, ys)"
  shows "uses_sessions (view s) es = Some (view s')"
proof (cases "is_restore x")
  case True
  then obtain downloads uploads where "x = Restore_waits downloads uploads" by (auto simp: is_restore_def)
  with assms show ?thesis by (auto simp: restore_exec view_def simp del: exec.simps)
next
  case False
  with assms show ?thesis using exec_effect effect_uses by blast
qed


section \<open>Waiters\<close>

text \<open>
  The callbacks of a session that is connected wait for a handler of the sync client that will call them, and a
  dying session waits for the one that ends it.
\<close>

definition covered :: "waiter set \<Rightarrow> 'c sync_session \<Rightarrow> bool" where
  "covered us s \<longleftrightarrow>
     (\<forall>d. state s \<in> {Active, Dying} \<and> callbacks d s \<noteq> [] \<longrightarrow> Completion d (client_resync_counter s) \<in> us) \<and>
     (state s = Dying \<longrightarrow> Death (death_count s) \<in> us)"

lemma all_directions: "(\<forall>d. P d) \<longleftrightarrow> P Upload \<and> P Download"
  by (metis (full_types) direction.exhaust)

lemma covered_mono: "covered us s \<Longrightarrow> us \<subseteq> vs \<Longrightarrow> covered vs s"
  by (auto simp: covered_def)

lemma waiters_append [simp]: "waiters_of (es @ es') = waiters_of es @ waiters_of es'"
  by (induction es rule: waiters_of.induct) auto

lemma pending_waiters:
  "set (waiters_of (pending_waits i s)) = {Completion d (client_resync_counter s) |d. callbacks d s \<noteq> []}"
  by (auto simp: pending_waits_def) (metis callbacks.elims)+

lemma effect_covered:
  "effect s es s' \<Longrightarrow> sess_ok s \<Longrightarrow> covered us s \<Longrightarrow> covered (us \<union> set (waiters_of es)) s'"
proof (induction arbitrary: us rule: effect.induct)
  case (quiet s s' es)
  then show ?case by (auto simp: covered_def same_core_def all_directions)
next
  case (token s url u token)
  then show ?case by (auto simp: covered_def all_directions token_events_def Let_def pending_waiters got_token_def)
next
  case (revive s i)
  then show ?case by (auto simp: covered_def pending_waiters all_directions)
next
  case (add d s c)
  then show ?case by (cases d) (auto simp: covered_def all_directions)
next
  case (add_first d s i c)
  then show ?case by (cases d) (auto simp: covered_def all_directions)
next
  case (take s e d)
  then show ?case by (cases d) (auto simp: covered_def all_directions)
next
  case (sequence s es s' es' s'')
  then show ?case using effect_ok[OF sequence(1)] by (simp add: Un_assoc[symmetric])
qed (auto simp: covered_def all_directions)

text \<open>A handler that is called is needed no longer.\<close>

lemma completed_covered:
  assumes "completed u e s = Some (s', es, ys)" "covered (insert u us) s"
  shows "covered (us \<union> set (waiters_of es)) s'"
proof (cases u)
  case (Completion d k)
  with assms show ?thesis by (cases d) (auto simp: covered_def all_directions act_simps split: if_splits)
next
  case (Death n)
  with assms show ?thesis by (auto simp: covered_def all_directions test_def skip_def advance_inactive split: if_splits)
qed

section \<open>Callbacks\<close>

text \<open>Every callback that is registered stays in a list of the session or with a section until it is called.\<close>

definition listed :: "'c sync_session \<Rightarrow> 'c multiset" where
  "listed s = mset (download_callbacks s) + mset (upload_callbacks s)"

definition held :: "'c session_section list \<Rightarrow> 'c multiset" where
  "held xs = mset (concat (map held_by xs))"

lemma completions_append [simp]: "completions (es @ es') = completions es @ completions es'"
  by (induction es rule: completions.induct) auto

lemma completions_complete [simp]: "completions (map (\<lambda>c. Complete c e) cs) = cs"
  by (induction cs) auto

lemma held_simps [simp]: "held [] = {#}" "held (x # xs) = mset (held_by x) + held xs" "held (xs @ ys) = held xs + held ys"
  by (auto simp: held_def)


text \<open>What an action returns.\<close>

type_synonym 'c outcome = "('c sync_session \<times> 'c event list \<times> 'c session_section list) option"

named_theorems track \<open>actions that keep track\<close>

lemma listed_update [simp]:
  "listed (s\<lparr>state := x1\<rparr>) = listed s" "listed (s\<lparr>connection_state := x2\<rparr>) = listed s"
  "listed (death_count_update f s) = listed s" "listed (s\<lparr>session := x3\<rparr>) = listed s"
  "listed (config_update g s) = listed s" "listed (s\<lparr>sessions_made := n\<rparr>) = listed s"
  "listed (s\<lparr>session_has_been_bound := b\<rparr>) = listed s" "listed (s\<lparr>deferred_close := x4\<rparr>) = listed s"
  "listed (s\<lparr>server_url := u\<rparr>) = listed s" "listed (s\<lparr>deferred_commit_notification := v\<rparr>) = listed s"
  "listed (s\<lparr>server_override := w\<rparr>) = listed s" "listed (external_references_update h s) = listed s"
  "listed (s\<lparr>multiplex_identity := i\<rparr>) = listed s" "listed (s\<lparr>force_client_resync := r\<rparr>) = listed s"
  "listed (client_resync_counter_update k s) = listed s" "listed (s\<lparr>in_manager := y\<rparr>) = listed s"
  by (simp_all add: listed_def)




text \<open>Sections that follow others: no methods, and callbacks are only put back after a resync.\<close>

definition is_later :: "'c session_section \<Rightarrow> bool" where
  "is_later x \<longleftrightarrow> x \<noteq> Drop_reference \<and> (\<forall>new. x \<noteq> Update_configuration new) \<and> \<not> is_restore x"

text \<open>
  A relation between a session and the outcome of an action that composed actions satisfy because their parts do:
  actions that leave the callbacks, the configuration and the references alone, and becoming inactive.
\<close>

locale tracking =
  fixes P :: "'c sync_session \<Rightarrow> 'c outcome \<Rightarrow> bool"
  assumes none [track]: "P s None"
    and same: "listed t = listed s \<Longrightarrow> config t = config s \<Longrightarrow> external_references t = external_references s \<Longrightarrow> P s (Some (t, [], []))"
    and emitted: "completions es = [] \<Longrightarrow> P s (Some (s, es, []))"
    and postponed: "held xs = {#} \<Longrightarrow> list_all is_later xs \<Longrightarrow> P s (Some (s, [], xs))"
    and sequenced [track]: "P s (a s) \<Longrightarrow> (\<And>t. P t (b t)) \<Longrightarrow> P s (and_then a b s)"
    and inactive [track]: "P s (advance_state Inactive s)"
begin

lemma skips [track]: "P s (skip s)"
  by (simp add: skip_def same)

lemma changes [track]:
  "listed (f s) = listed s \<Longrightarrow> config (f s) = config s \<Longrightarrow> external_references (f s) = external_references s \<Longrightarrow> P s (alter f s)"
  by (simp add: alter_def same)

lemma emits [track]: "completions es = [] \<Longrightarrow> P s (announce es s)"
  by (simp add: announce_def emitted)

lemma postpones [track]: "held xs = {#} \<Longrightarrow> list_all is_later xs \<Longrightarrow> P s (later xs s)"
  by (simp add: later_def postponed)

lemma checks [track]: "P s (check b s)"
  by (simp add: check_def same none)

lemma calls [track]: "P s (call_session c s)"
  by (simp add: call_session_def none emitted split: option.split)

lemma tests [track]: "P s (a s) \<Longrightarrow> P s (b s) \<Longrightarrow> P s (test p a b s)"
  by (simp add: test_def)

lemma waiting [track]: "P s (advance_state Waiting_for_access_token s)"
  by (auto simp: advance_state_def advance_to_def waiting_enter_state_def intro!: track)

lemma add_completion [track]: "P s (add_completion_callback d s)"
  by (simp add: add_completion_callback_def track)

lemma active [track]: "P s (advance_state Active s)"
  by (auto simp: advance_state_def advance_to_def active_enter_state_def intro!: track)

lemma dying [track]: "P s (advance_state Dying s)"
proof -
  have "P s (dying_enter_state s)" for s
    by (auto simp: dying_enter_state_def advance_state_def[of Inactive, simplified, symmetric] intro!: track)
  then show ?thesis by (auto simp: advance_state_def advance_to_def intro!: track)
qed

lemma closes [track]: "P s (state_close s)"
  by (auto simp: state_close_def waiting_close_def active_close_def inactive_close_def unregister_from_manager_def
      is_later_def is_restore_def intro!: track split: session_state.split stop_policy.split)

lemma refreshes: "P s (refresh_access_token token url s)"
  by (auto simp: refresh_access_token_def state_refresh_access_token_def waiting_refresh_access_token_def
      active_refresh_access_token_def create_sync_session_def bind_session_def override_session_server_def
      deferred_commit_def Let_def intro!: track split: session_state.split option.split bool.split)

lemma waits: "P s (state_wait_for_completion d s)"
  by (auto simp: state_wait_for_completion_def intro!: track split: session_state.split)

text \<open>The sections that neither register, call or restore callbacks nor set the configuration or the references.\<close>

lemma executes:
  assumes "x \<notin> {Start_resync, External_reference, Drop_reference}" "\<not> is_restore x"
    and "\<forall>d c. x \<noteq> Wait_for d c" "\<forall>old ds us. x \<noteq> Now_inactive old ds us" "\<forall>u e. x \<noteq> Completed u e"
    and "\<forall>e. x \<noteq> Cancel_waits e" "\<forall>e. x \<noteq> Bad_authentication e" "\<forall>new. x \<noteq> Update_configuration new" "\<forall>p. x \<noteq> Set_url_prefix p"
  shows "P s (exec x s)"
  using assms
  by (cases x) (auto simp: refreshes state_access_token_expired_def state_log_out_def state_revive_if_needed_def
      state_handle_reconnect_def state_nonsync_transact_notify_def nonsync_transact_notify_def state_override_server_def
      did_drop_external_reference_def connection_event_def state_handle_error_def dispatch_error_def finish_error_def
      report_error_def update_error_and_mark_file_for_deletion_def unregister_session_def is_restore_def is_later_def
      intro!: track split: session_state.split option.split response.split next_state.split)

end

text \<open>Every callback is accounted for.\<close>

definition balanced :: "'c sync_session \<Rightarrow> 'c outcome \<Rightarrow> bool" where
  "balanced s r \<longleftrightarrow>
     (\<forall>s' es ys. r = Some (s', es, ys) \<longrightarrow> listed s = mset (completions es) + listed s' + held ys)"

interpretation balance: tracking balanced
proof unfold_locales
  fix s :: "'a sync_session" and a b :: "'a act"
  assume "balanced s (a s)" "\<And>t. balanced t (b t)"
  then show "balanced s (and_then a b s)"
    unfolding balanced_def and_then_def by (fastforce split: Option.bind_splits)
qed (auto simp: balanced_def advance_inactive leaving_events_def listed_def split: option.splits)

text \<open>The configuration and the references stay, and no method follows.\<close>

definition framed :: "'c sync_session \<Rightarrow> 'c outcome \<Rightarrow> bool" where
  "framed s r \<longleftrightarrow>
     (\<forall>s' es ys. r = Some (s', es, ys) \<longrightarrow>
        config s' = config s \<and> external_references s' = external_references s \<and> list_all is_later ys)"

interpretation frame: tracking framed
proof unfold_locales
  fix s :: "'a sync_session" and a b :: "'a act"
  assume "framed s (a s)" "\<And>t. framed t (b t)"
  then show "framed s (and_then a b s)"
    unfolding framed_def and_then_def by (fastforce split: Option.bind_splits)
qed (auto simp: framed_def advance_inactive is_later_def is_restore_def)

lemma balanced_cancel: "balanced s (cancel_pending_waits e s)"
  by (auto simp: balanced_def cancel_pending_waits_def act_simps listed_def)

lemma balanced_resync: "balanced s (start_resync s)"
  by (auto simp: balanced_def start_resync_def act_simps advance_inactive listed_def leaving_events_def
      split: if_splits option.splits)

lemma balanced_completed: "balanced s (completed u e s)"
proof (cases u)
  case (Completion d k)
  then show ?thesis by (cases d) (auto simp: balanced_def act_simps listed_def split: if_splits)
next
  case (Death n)
  then show ?thesis by (auto intro!: balance.tests balance.skips balance.inactive)
qed

lemma balanced_configuration: "balanced s (update_configuration new s)"
  by (auto simp: balanced_def update_configuration_def act_simps advance_inactive leaving_events_def listed_def
      split: if_splits option.splits)

lemma wait_balance:
  assumes "wait_for_completion d c s = Some (s', es, ys)"
  shows "listed s + {#c#} = mset (completions es) + listed s' + held ys"
proof -
  have "balanced s (test (\<lambda>s. callbacks d s = []) (state_wait_for_completion d) skip s)"
    by (intro balance.tests balance.skips balance.waits)
  then show ?thesis using assms
    by (cases d) (auto simp: wait_for_completion_def act_simps balanced_def listed_def split: if_splits Option.bind_splits)
qed

lemma exec_balance:
  assumes "exec x s = Some (s', es, ys)"
  shows "listed s + mset (held_by x) + mset (registers x) = mset (completions es) + listed s' + held ys + mset (loses x s)"
proof (cases "(\<exists>d c. x = Wait_for d c) \<or> is_restore x \<or> (\<exists>old ds us. x = Now_inactive old ds us)")
  case True
  then show ?thesis using assms wait_balance
    by (auto simp: is_restore_def restore_exec listed_def now_inactive_def act_simps restore_waits_def split: if_splits)
next
  case False
  then have x: "held_by x = []" "registers x = []" "loses x s = []" by (cases x; auto simp: is_restore_def)+
  have "balanced s (exec x s)"
  proof (cases x)
    case (Bad_authentication e)
    then show ?thesis
      by (auto simp: invalidate_and_go_on_def balanced_cancel is_later_def is_restore_def intro!: balance.sequenced balance.emits balance.skips balance.postpones
          split: option.split)
  next
    case (Set_url_prefix p)
    then show ?thesis by (auto simp: balanced_def alter_def)
  next
    case External_reference
    then show ?thesis by (auto simp: balanced_def external_reference_def alter_def)
  next
    case Drop_reference
    then show ?thesis by (auto simp: balanced_def drop_reference_def act_simps)
  qed (use False balance.executes[of x s] balanced_cancel balanced_resync balanced_completed balanced_configuration in auto)
  with x assms show ?thesis by (simp add: balanced_def)
qed

section \<open>Assertions\<close>

text \<open>Executing a section fails in these cases only.\<close>

lemma close_succeeds: "sess_ok s \<Longrightarrow> state_close s \<noteq> None"
  by (erule session_states)
    (auto simp: state_close_def waiting_close_def active_close_def inactive_close_def unregister_from_manager_def act_simps advance
      split: stop_policy.split)

lemma refresh_succeeds:
  assumes "sess_ok s"
  shows "refresh_access_token token url s \<noteq> None"
  using assms
proof (cases rule: session_states)
  case waiting
  note s = assms waiting
  show ?thesis
  proof (cases "server_url s = None \<and> url = None")
    case True
    then show ?thesis by (simp add: refresh_access_token_def act_simps)
  next
    case False
    then obtain u where u: "server_url (got_token url s) = Some u" by (cases "server_url s") (auto simp: got_token_def)
    show ?thesis
      using close_succeeds[OF got_token_ok[OF s u]] False
      by (simp add: refresh_access_token_def test_def[of _ skip] state_refresh_access_token_def s(2) waiting_refresh[OF s u])
        (auto simp: test_def skip_def)
  qed
qed (auto simp: refresh_access_token_def state_refresh_access_token_def active_refresh_access_token_def act_simps)

definition fails :: "'c session_section \<Rightarrow> 'c sync_session \<Rightarrow> bool" where
  "fails x s \<longleftrightarrow>
     state s = Inactive \<and> x \<in> {Become_inactive, Start_resync} \<or>
     x = Start_resync \<and> client_resync_counter s = max_counter \<or>
     x = Drop_reference \<and> external_references s = 0 \<or>
     (\<exists>new. x = Update_configuration new \<and> state s = Inactive \<and> \<not> same_realm (config s) new) \<or>
     x = Unregister_from_manager \<and> \<not> in_manager s \<or>
     (\<exists>e recovery next backup. x = Dispatch_error e recovery \<and>
        \<not> (is_client_reset_requested e \<and> client_resync_mode (config s) \<noteq> Manual) \<and> error_response e = Next next (Some backup) \<and>
        (backup \<and> \<not> file_manager s \<or> metadata_manager s \<and> \<not> realm_url_given s))"

lemma exec_fails:
  assumes "sess_ok s"
  shows "exec x s = None \<longleftrightarrow> fails x s"
proof (cases x)
  case (Completed u e)
  then show ?thesis by (cases u) (auto simp: fails_def act_simps advance_inactive)
next
  case Start_resync
  then show ?thesis using assms
    by (auto simp: fails_def start_resync_def act_simps advance_inactive sess_ok_def max_counter_def)
next
  case (Update_configuration new)
  then show ?thesis using assms
    by (auto simp: fails_def update_configuration_def act_simps advance_inactive sess_ok_def same_realm_def)
next
  case (Refresh_access_token token url)
  then show ?thesis using refresh_succeeds[OF assms] by (auto simp: fails_def)
next
  case Close
  then show ?thesis using close_succeeds[OF assms] by (auto simp: fails_def)
next
  case Did_drop_external_reference
  then show ?thesis using close_succeeds[OF assms] by (auto simp: fails_def did_drop_external_reference_def test_def skip_def)
qed (rule session_states[OF assms];
  auto simp: fails_def wait_for_completion_def state_wait_for_completion_def state_override_server_def nonsync_transact_notify_def
    state_nonsync_transact_notify_def state_revive_if_needed_def state_handle_reconnect_def state_log_out_def
    external_reference_def drop_reference_def connection_event_def error_defs state_access_token_expired_def
    add_completion_callback_def advance act_simps
    split: option.splits response.splits next_state.splits)+


section \<open>All worlds\<close>

text \<open>What a section does to the configuration and the references.\<close>

lemma wait_frame: "framed s (wait_for_completion d c s)"
proof -
  let ?first = "test (\<lambda>s. callbacks d s = []) (state_wait_for_completion d) skip s"
  have "framed s ?first"
    by (intro frame.tests frame.skips frame.waits)
  moreover have "wait_for_completion d c s = map_option (\<lambda>(t, es, ys). (set_callbacks d (callbacks d t @ [c]) t, es, ys)) ?first"
    by (auto simp: wait_for_completion_def and_then_def alter_def skip_def map_option_case split: Option.bind_split option.split)
  ultimately show ?thesis by (cases ?first) (auto simp: framed_def)
qed

lemma exec_frame:
  assumes "exec x s = Some (s', es, ys)"
  shows "same_realm (config s) (config s')"
    and "external_references s \<le> external_references s' + (if x = Drop_reference then 1 else 0)"
    and "y \<in> set ys \<Longrightarrow> is_later y \<or> x = y \<and> (\<exists>new. x = Update_configuration new) \<or> x = Start_resync \<and> is_restore y"
proof -
  have "same_realm (config s) (config s') \<and>
      external_references s \<le> external_references s' + (if x = Drop_reference then 1 else 0) \<and>
      (\<forall>y \<in> set ys. is_later y \<or> x = y \<and> (\<exists>new. x = Update_configuration new) \<or> x = Start_resync \<and> is_restore y)"
  proof (cases "framed s (exec x s)")
    case True
    with assms show ?thesis by (auto simp: framed_def same_realm_def list_all_iff)
  next
    case False
    then consider "x = Start_resync" | "x = External_reference" | "x = Drop_reference" | "is_restore x"
      | d c where "x = Wait_for d c" | old ds us where "x = Now_inactive old ds us" | u e where "x = Completed u e"
      | e where "x = Cancel_waits e" | e where "x = Bad_authentication e" | new where "x = Update_configuration new"
      | p where "x = Set_url_prefix p"
      using frame.executes[of x s] by blast
    then show ?thesis
    proof cases
      case 5
      with False show ?thesis by (simp add: wait_frame)
    next
      case 7
      with assms show ?thesis
        by (cases u) (auto simp: act_simps same_realm_def advance_inactive is_later_def is_restore_def split: if_splits)
    next
      case 10
      with assms show ?thesis
        by (auto simp: update_configuration_def act_simps advance_inactive is_later_def is_restore_def same_realm_def split: if_splits)
    qed (use assms in \<open>auto simp: start_resync_def external_reference_def drop_reference_def is_restore_def restore_exec
      now_inactive_def invalidate_and_go_on_def cancel_pending_waits_def restore_waits_def act_simps advance_inactive is_later_def is_restore_def same_realm_def
      split: if_splits option.splits\<close>)
  qed
  then show "same_realm (config s) (config s')"
    and "external_references s \<le> external_references s' + (if x = Drop_reference then 1 else 0)"
    and "y \<in> set ys \<Longrightarrow> is_later y \<or> x = y \<and> (\<exists>new. x = Update_configuration new) \<or> x = Start_resync \<and> is_restore y" by auto
qed

text \<open>The invariant of the worlds, for any interleaving of the methods.\<close>

definition world_ok :: "'c world \<Rightarrow> bool" where
  "world_ok w \<longleftrightarrow>
     sess_ok (sess w) \<and> drops (jobs w) \<le> external_references (sess w) \<and>
     (\<forall>j \<in> set (jobs w). \<forall>new. Update_configuration new \<in> set j \<longrightarrow> same_realm (config (sess w)) new) \<and>
     follows (\<lambda>a b. True) Inactive (trace w) = Some (state (sess w)) \<and>
     uses_sessions (0, None) (trace w) = Some (view (sess w)) \<and>
     mset (registered w) =
       mset (completions (trace w)) + listed (sess w) + held (concat (jobs w)) + mset (lost w)"

lemma same_realm_trans: "same_realm a b \<Longrightarrow> same_realm a c \<Longrightarrow> same_realm b c"
  by (simp add: same_realm_def)

lemma drops_simps [simp]:
  "drops [] = 0" "drops (js @ ks) = drops js + drops ks"
  "drops ((x # xs) # js) = (if x = Drop_reference then 1 else 0) + drops (xs # js)"
  "drops ((xs @ ys) # js) = drops [xs] + drops (ys # js)" "drops [[]] = 0" "drops ([] # js) = drops js"
  by (simp_all add: drops_def)

lemma drops_later: "(\<And>y. y \<in> set ys \<Longrightarrow> y \<noteq> Drop_reference) \<Longrightarrow> drops [ys] = 0"
  by (simp add: drops_def filter_empty_conv)

lemma run_ok:
  assumes ok: "world_ok w" and jobs: "jobs w = js @ (x # xs) # ks" and exec: "exec x (sess w) = Some (s, es, ys)"
  shows "world_ok (w\<lparr>sess := s, jobs := js @ (ys @ xs) # ks, waiters := waiters w @ waiters_of es, trace := trace w @ es,
      registered := registered w @ registers x, lost := lost w @ loses x (sess w)\<rparr>)" (is "world_ok ?w")
proof -
  have s: "sess_ok (sess w)" using ok by (simp add: world_ok_def)
  have d: "drops [ys] = 0" using exec_frame(3)[OF exec] by (intro drops_later) (auto simp: is_later_def is_restore_def)
  have "drops (js @ (ys @ xs) # ks) \<le> external_references s"
    using ok exec_frame(2)[OF exec] d unfolding world_ok_def jobs by (auto split: if_splits)
  moreover have "same_realm (config s) new"
    if "j \<in> set (js @ (ys @ xs) # ks)" "Update_configuration new \<in> set j" for j new
  proof -
    have "\<exists>j \<in> set (jobs w). Update_configuration new \<in> set j"
      using that exec_frame(3)[OF exec, of "Update_configuration new"] by (auto simp: jobs is_later_def is_restore_def)
    then have "same_realm (config (sess w)) new" using ok by (auto simp: world_ok_def)
    with exec_frame(1)[OF exec] show ?thesis by (rule same_realm_trans)
  qed
  moreover have "mset (registered w @ registers x) = mset (completions (trace w @ es)) + listed s +
      held (concat (js @ (ys @ xs) # ks)) + mset (lost w @ loses x (sess w))"
    using ok exec_balance[OF exec] unfolding world_ok_def jobs by (simp add: ac_simps)
  ultimately show ?thesis
    using ok exec_ok[OF s exec] follows_mono[OF exec_follows[OF s exec], of "\<lambda>a b. True"] exec_uses[OF s exec]
    by (auto simp: world_ok_def follows_append uses_sessions_append)
qed

lemma new_job_ok:
  assumes "world_ok w" "held_by x = []" "x = Drop_reference \<longrightarrow> drops (jobs w) < external_references (sess w)"
    and "\<forall>new. x = Update_configuration new \<longrightarrow> same_realm (config (sess w)) new"
  shows "world_ok (w\<lparr>jobs := jobs w @ [[x]]\<rparr>)"
  using assms by (auto simp: world_ok_def)

lemma waiters_irrelevant [simp]: "world_ok (w\<lparr>waiters := us, jobs := js\<rparr>) = world_ok (w\<lparr>jobs := js\<rparr>)"
  by (simp add: world_ok_def)

lemma step_ok: "step calm w w' \<Longrightarrow> world_ok w \<Longrightarrow> world_ok w'"
proof (induction rule: step.induct)
  case (start w x calm)
  then show ?case by (intro new_job_ok) (cases x; auto)+
next
  case (event w calm new error recovery)
  then show ?case by (intro new_job_ok) auto
next
  case (complete w us u vs e calm)
  then show ?case using new_job_ok[of w "Completed u e"] by simp
next
  case (run w js x xs ks s es ys calm)
  then show ?case using run_ok by blast
qed

lemma reachable_ok: "reachable calm w \<Longrightarrow> world_ok w"
proof (induction rule: reachable.induct)
  case (initial calm path conf resync files metadata)
  show ?case by (simp add: world_ok_def new_world_def) (simp add: new_session_def view_def listed_def)
next
  case (more calm w w')
  then show ?case using step_ok by blast
qed

section \<open>Worlds without interference\<close>

text \<open>
  While a client resync is under way, it is the next thing to go on, and the session is inactive without
  callbacks until they are put back.
\<close>

definition resyncing :: "'c session_section list \<Rightarrow> bool" where
  "resyncing j \<longleftrightarrow>
     (\<exists>ds us rest. (j = Restore_waits ds us # rest \<or> (\<exists>old. j = Now_inactive old [] [] # Restore_waits ds us # rest \<or>
          j = Unregister_from_manager # Now_inactive old [] [] # Restore_waits ds us # rest)) \<and>
        \<not> restoring rest)"

definition outstanding :: "'c world \<Rightarrow> waiter set" where
  "outstanding w = set (waiters w) \<union> {u. \<exists>e. \<exists>j \<in> set (jobs w). Completed u e \<in> set j}"

definition calm_ok :: "'c world \<Rightarrow> bool" where
  "calm_ok w \<longleftrightarrow>
     (\<forall>j \<in> set (jobs w). restoring j \<longrightarrow> resyncing j \<and> state (sess w) = Inactive \<and> listed (sess w) = {#}) \<and>
     covered (outstanding w) (sess w) \<and> lost w = []"


lemma outstanding_update [simp]: "outstanding (w\<lparr>lost := cs\<rparr>) = outstanding w"
  by (simp add: outstanding_def)

lemma restoring_simps [simp]:
  "\<not> restoring []" "restoring (x # xs) \<longleftrightarrow> is_restore x \<or> restoring xs" "restoring (xs @ ys) \<longleftrightarrow> restoring xs \<or> restoring ys"
  by (auto simp: restoring_def is_restore_def)

lemma exec_restoring:
  assumes "exec x s = Some (s', es, ys)" "restoring ys"
  shows "x = Start_resync"
  using assms(2) exec_frame(3)[OF assms(1)] by (auto simp: restoring_def is_later_def is_restore_def)

lemma resync_exec:
  assumes "exec Start_resync s = Some (s', es, ys)"
  shows "state s' = Inactive \<and> listed s' = {#} \<and>
    (\<exists>old ds us. ys = [Unregister_from_manager, Now_inactive old [] [], Restore_waits ds us, Revive_if_needed])"
  using assms by (auto simp: start_resync_def act_simps advance_inactive listed_def split: if_splits)

lemma listed_empty: "listed s = {#} \<longleftrightarrow> download_callbacks s = [] \<and> upload_callbacks s = []"
  by (auto simp: listed_def)

lemma covered_inactive: "state s = Inactive \<Longrightarrow> covered us s"
  by (simp add: covered_def)

text \<open>The handlers outstanding after a section has run; a handler that ran is needed no longer.\<close>

lemma run_covered:
  assumes ok: "sess_ok s" "exec x s = Some (s', es, ys)" "\<not> is_restore x"
    and us: "covered us s" "us \<subseteq> {u. \<exists>e. x = Completed u e} \<union> vs"
  shows "covered (vs \<union> set (waiters_of es)) s'"
proof (cases "\<exists>u e. x = Completed u e")
  case True
  then obtain u e where x: "x = Completed u e" by blast
  then have "us \<subseteq> insert u vs" using us(2) by auto
  with us(1) have "covered (insert u vs) s" by (rule covered_mono)
  then show ?thesis using completed_covered ok(2) unfolding x exec.simps by blast
next
  case False
  then have "us \<subseteq> vs" using us(2) by auto
  with us(1) have "covered vs s" by (rule covered_mono)
  then show ?thesis using effect_covered exec_effect[OF ok] ok(1) by blast
qed

lemma calm_run:
  assumes ok: "sess_ok (sess w)" and calm: "calm_ok w" and jobs: "jobs w = js @ (x # xs) # ks"
    and exec: "exec x (sess w) = Some (s, es, ys)" and others: "\<forall>j \<in> set (js @ ks). \<not> restoring j"
  shows "calm_ok (w\<lparr>sess := s, jobs := js @ (ys @ xs) # ks, waiters := waiters w @ waiters_of es, trace := trace w @ es,
      registered := registered w @ registers x, lost := lost w @ loses x (sess w)\<rparr>)" (is "calm_ok ?w")
proof -
  have job: "restoring (x # xs) \<longrightarrow> resyncing (x # xs) \<and> state (sess w) = Inactive \<and> listed (sess w) = {#}"
    using calm unfolding calm_ok_def jobs by simp
  have outstanding: "outstanding w \<subseteq> {u. \<exists>e. x = Completed u e} \<union> outstanding ?w"
    and waiters: "set (waiters_of es) \<subseteq> outstanding ?w"
    by (auto simp: outstanding_def jobs)
  show ?thesis
  proof (cases "is_restore x")
    case True
    then obtain ds us where x: "x = Restore_waits ds us" by (auto simp: is_restore_def)
    then have empty: "state (sess w) = Inactive" "listed (sess w) = {#}" and "\<not> restoring xs"
      using job True by (auto simp: resyncing_def)
    moreover have "state s = Inactive" "ys = []" "loses x (sess w) = []"
      using exec empty by (auto simp: x restore_exec listed_empty simp del: exec.simps)
    ultimately show ?thesis
      using calm others by (simp add: calm_ok_def covered_inactive)
  next
    case False
    have covered: "covered (outstanding ?w) s"
      using run_covered[OF ok exec False _ outstanding] calm waiters covered_mono[of _ s "outstanding ?w"]
      by (simp add: calm_ok_def)
    have kept: "loses x (sess w) = []" using False by (cases x) (auto simp: is_restore_def)
    have "resyncing (ys @ xs) \<and> state s = Inactive \<and> listed s = {#}" if "restoring (ys @ xs)"
    proof (cases "restoring ys")
      case True
      then have "x = Start_resync" by (rule exec_restoring[OF exec])
      moreover from this have "\<not> restoring xs" using job by (auto simp: resyncing_def)
      ultimately show ?thesis using resync_exec[of "sess w" s es ys] exec by (auto simp: resyncing_def is_restore_def)
    next
      case ys: False
      then have "restoring (x # xs)" using that by simp
      then have job: "resyncing (x # xs)" "state (sess w) = Inactive" "listed (sess w) = {#}" using job by auto
      then have "resyncing xs" using False by (auto simp: resyncing_def is_restore_def)
      moreover have "ys = []" "state s = Inactive" "listed s = {#}"
        using exec job False by (auto simp: resyncing_def is_restore_def now_inactive_def unregister_session_def act_simps split: if_splits)
      ultimately show ?thesis using job by simp
    qed
    then show ?thesis using covered kept calm others by (auto simp: calm_ok_def simp del: restoring_simps)
  qed
qed

lemma calm_new_job:
  assumes "calm_ok w" "\<not> restoring [x]" "set us \<subseteq> set vs \<union> {u. \<exists>e. x = Completed u e}" "waiters w = us"
  shows "calm_ok (w\<lparr>waiters := vs, jobs := jobs w @ [[x]]\<rparr>)"
proof -
  have "outstanding w \<subseteq> outstanding (w\<lparr>waiters := vs, jobs := jobs w @ [[x]]\<rparr>)"
    using assms(3,4) by (auto simp: outstanding_def)
  then show ?thesis using assms(1,2) covered_mono by (auto simp: calm_ok_def simp del: restoring_simps)
qed

lemma calm_step: "step True w w' \<Longrightarrow> world_ok w \<Longrightarrow> calm_ok w \<Longrightarrow> calm_ok w'"
proof (induction "True" w w' rule: step.induct)
  case (start w x)
  moreover from start have "\<not> restoring [x]" by (cases x) (auto simp: is_restore_def)
  ultimately show ?case using calm_new_job[of w x "waiters w" "waiters w"] by simp
next
  case (event w new error recovery)
  then show ?case using calm_new_job[of w _ "waiters w" "waiters w"] by (simp add: is_restore_def)
next
  case (complete w us u vs e)
  then show ?case using calm_new_job[of w "Completed u e" "waiters w" "us @ vs"] by (auto simp: is_restore_def)
next
  case (run w js x xs ks s es ys)
  then show ?case using calm_run[of w js x xs ks s es ys] by (simp add: world_ok_def)
qed

lemma reachable_calm_ok: "reachable True w \<Longrightarrow> calm_ok w"
proof (induction "True" w rule: reachable.induct)
  case (initial path conf resync files metadata)
  show ?case by (simp add: calm_ok_def new_world_def new_session_def covered_inactive)
next
  case (more w w')
  then show ?case using calm_step reachable_ok by blast
qed

end
