(* ===== verification/SyncSessionProperties.thy ===== *)
theory SyncSessionProperties
  imports SyncSessionInvariants
begin

text \<open>
  The properties of a \<open>SyncSession\<close>: what holds whatever methods run at the same time, the handling of errors
  when nothing interferes, and runs in which something goes wrong.
\<close>

section \<open>Samples\<close>

definition sample_config :: sync_config where
  "sample_config = \<lparr>user = Some ''u'', reference_realm_url = ''realm'', stop_policy = AfterChangesUploaded,
     has_error_handler = True, is_partial = False, cancel_waits_on_nonfatal_error = False, url_prefix = None,
     client_resync_mode = Recover\<rparr>"

definition sample_world :: "nat world" where
  "sample_world = new_world ''path'' sample_config False True True"

definition protocol_failure :: "int \<Rightarrow> sync_error" where
  "protocol_failure k = \<lparr>error_code = \<lparr>category = Protocol_category, code = k\<rparr>, is_fatal = True, user_info = \<lambda>_. None,
     is_unrecognized_by_client = False\<rparr>"

text \<open>Reviving the session and giving it a token.\<close>

definition to_active :: "nat session_move list" where
  "to_active = [Start Revive_if_needed, Go 0, Start (Refresh_access_token ''t'' (Some ''url'')), Go 1]"

lemmas sample_simps = sample_config_def sample_world_def protocol_failure_def to_active_def new_world_def new_session_def
  method_defs error_defs act_simps state_defs

lemma to_active_reached:
  "play True to_active sample_world =
    Some \<lparr>sess = \<lparr>state = Active, connection_state = Disconnected, death_count = 0, config = sample_config,
      force_client_resync = False, realm_path = ''path'', download_callbacks = [], upload_callbacks = [],
      client_resync_counter = 0, server_override = None, session = Some 0, session_has_been_bound = Some True,
      deferred_commit_notification = None, deferred_close = False, server_url = Some ''url'', multiplex_identity = [],
      external_references = 0, sessions_made = 1, in_manager = True,
      file_manager = True, metadata_manager = True\<rparr>, jobs = [[], []], waiters = [],
      trace = [Entered Inactive Waiting_for_access_token, Request_token,
        Make_session 0 \<lparr>multiplex_ident = [], session_url_prefix = None, client_reset_config = None\<rparr>,
        Call 0 (Bind ''url'' ''t''), Entered Waiting_for_access_token Active],
      registered = [], lost = []\<rparr>"
  by (simp add: sample_simps restoring_def)


lemma sample_reachable: "reachable calm sample_world"
  by (simp add: sample_world_def reachable.initial)

definition active_world :: "nat world" where
  "active_world = the (play True to_active sample_world)"

lemma active_world: "play True to_active sample_world = Some active_world"
  by (simp add: active_world_def to_active_reached)

lemma active_reachable: "reachable True active_world"
  using play_reachable[OF active_world sample_reachable] .

lemma active_state: "state (sess active_world) = Active"
  by (simp add: active_world_def to_active_reached)

lemmas active_world_eq = active_world_def[unfolded to_active_reached option.sel]

section \<open>Interleaved methods\<close>

text \<open>The errors that are dealt with specially, by their category and number.\<close>

definition kind :: "sync_error \<Rightarrow> error_category \<times> int" where
  "kind e = (category (error_code e), code (error_code e))"

definition informational :: "(error_category \<times> int) set" where
  "informational = {(Protocol_category, 100), (Protocol_category, 101), (Protocol_category, 200), (Protocol_category, 201),
     (Protocol_category, 213), (Client_category, 100), (Client_category, 118)}"

definition with_backup :: "(error_category \<times> int) set" where
  "with_backup = Pair Protocol_category ` {207, 208, 209, 211, 216, 217, 218, 219, 220, 222}"

definition concerns_file :: "(error_category \<times> int) set" where
  "concerns_file = insert (Protocol_category, 206) with_backup"

definition requests_reset :: "(error_category \<times> int) set" where
  "requests_reset = Pair Protocol_category ` {207, 208, 209, 211, 222}"

lemma protocol_error_cases:
  assumes "protocol_error_of e = Some p"
  shows "category e = Protocol_category \<and> (code e, p) \<in> set protocol_errors"
  using assms by (auto simp: protocol_error_of_def dest: map_of_SomeD split: if_splits)

lemma protocol_error_none: "protocol_error_of e = None \<Longrightarrow> category e \<noteq> Protocol_category \<or> code e \<notin> fst ` set protocol_errors"
  by (auto simp: protocol_error_of_def map_of_eq_None_iff split: if_splits)

lemma reset_kind: "is_client_reset_requested e \<longleftrightarrow> kind e \<in> requests_reset"
proof (cases "protocol_error_of (error_code e)")
  case None
  with protocol_error_none[OF None] show ?thesis
    by (auto simp: is_client_reset_requested_def requests_reset_def kind_def protocol_errors_def)
next
  case (Some p)
  with protocol_error_cases[OF Some] show ?thesis
    unfolding protocol_errors_def set_simps insert_iff empty_iff prod.inject
    by (elim conjE disjE; simp add: is_client_reset_requested_def requests_reset_def kind_def)
qed

lemma response_kind:
  "error_response e =
     (if kind e \<in> informational then Ignore
      else if kind e = (Protocol_category, 202) then Expire
      else if kind e = (Protocol_category, 203) then Unauthenticated
      else if kind e = (Protocol_category, 206) then Next Next_inactive (Some False)
      else if kind e \<in> with_backup then Next Next_inactive (Some True)
      else Next (if is_fatal e then Next_error else Next_none) None)"
proof (cases "protocol_error_of (error_code e)")
  case None
  with protocol_error_none[OF None] show ?thesis
    by (auto simp: error_response_def kind_def informational_def with_backup_def protocol_errors_def client_connection_closed_def
        client_pong_timeout_def Let_def split: error_category.split)
next
  case (Some p)
  with protocol_error_cases[OF Some] show ?thesis
    unfolding protocol_errors_def set_simps insert_iff empty_iff prod.inject
    by (elim conjE disjE; simp add: error_response_def kind_def informational_def with_backup_def)
qed

text \<open>C32. In all worlds that can be reached, whatever methods run at the same time, a section of a method fails in these
  cases only: the sections of error handling that make the session inactive, when it is inactive already
  (or, for a client resync, when the number of resyncs overflows); unregistering a session that the manager does not have any more;
  and marking a file for deletion without file manager (if there should be a backup), user or URL.\<close>

theorem sections_succeed:
  assumes "reachable calm w" "x # xs \<in> set (jobs w)"
  shows "exec x (sess w) = None \<longleftrightarrow>
    state (sess w) = Inactive \<and> x \<in> {Become_inactive, Start_resync} \<or>
    x = Start_resync \<and> client_resync_counter (sess w) = max_counter \<or>
    x = Unregister_from_manager \<and> \<not> in_manager (sess w) \<or>
    (\<exists>e recovery. x = Dispatch_error e recovery \<and>
       \<not> (kind e \<in> requests_reset \<and> client_resync_mode (config (sess w)) \<noteq> Manual) \<and>
       (kind e \<in> with_backup \<and> \<not> file_manager (sess w) \<or>
        kind e \<in> concerns_file \<and> metadata_manager (sess w) \<and>
          (user (config (sess w)) = None \<or> reference_realm_url (config (sess w)) = [])))"
proof -
  have ok: "world_ok w" using assms(1) by (rule reachable_ok)
  have drop: "(x = Drop_reference \<and> external_references (sess w) = 0) = False"
    using split_list[OF assms(2)] ok by (auto simp: world_ok_def)
  have update: "(\<exists>new. x = Update_configuration new \<and> state (sess w) = Inactive \<and> \<not> same_realm (config (sess w)) new) = False"
    using ok assms(2) by (auto simp: world_ok_def)
  have mark: "(\<exists>next backup. error_response e = Next next (Some backup) \<and>
      (backup \<and> \<not> file_manager s \<or> metadata_manager s \<and> \<not> realm_url_given s)) \<longleftrightarrow>
    kind e \<in> with_backup \<and> \<not> file_manager s \<or>
    kind e \<in> concerns_file \<and> metadata_manager s \<and> (user (config s) = None \<or> reference_realm_url (config s) = [])"
    for e and s :: "'a sync_session"
    by (auto simp: response_kind concerns_file_def with_backup_def informational_def realm_url_given_def)
  have "sess_ok (sess w)" using ok by (simp add: world_ok_def)
  then show ?thesis by (simp add: exec_fails fails_def reset_kind drop update mark)
qed

theorem sections_succeed_witness:
  "exec Close (sess (active_world\<lparr>jobs := jobs active_world @ [[Close]]\<rparr>)) \<noteq> None"
  using sections_succeed[of True "active_world\<lparr>jobs := jobs active_world @ [[Close]]\<rparr>" Close "[]"]
    reachable.more[OF active_reachable step.start[of active_world Close True]] by simp

text \<open>C34. The state of a session changes as its documentation says, one change after the other: a section makes the changes that the comment
  before \<open>State\<close> allows it, and besides those, which it does not name, that a client resync, errors and \<open>update_configuration\<close>
  make the session inactive.\<close>

theorem state_changes_documented:
  assumes "reachable calm w" "x # xs \<in> set (jobs w)" "exec x (sess w) = Some (s, es, ys)"
  shows "follows (\<lambda>a b. True) Inactive (trace w) = Some (state (sess w)) \<and>
    follows (\<lambda>a b. documented x (sess w) a b \<or> undocumented x a b) (state (sess w)) es = Some (state s)"
  using reachable_ok[OF assms(1)] exec_follows[OF _ assms(3)] by (simp add: world_ok_def causes_def[abs_def])

theorem state_changes_documented_witness:
  "follows (\<lambda>a b. documented Log_out (sess active_world) a b \<or> undocumented (Log_out :: nat session_section) a b) Active
     (leaving_events (sess active_world)) = Some Inactive"
  using state_changes_documented[of True "active_world\<lparr>jobs := jobs active_world @ [[Log_out]]\<rparr>" Log_out "[]"
      "became_inactive (sess active_world)" "leaving_events (sess active_world)"]
    reachable.more[OF active_reachable step.start[of active_world Log_out True]]
  by (auto simp: state_log_out_def advance_inactive active_state)

text \<open>C33. A session keeps the rules of the sync client: at any time it has one \<open>sync::Session\<close> at most, which it binds once
  and before it calls anything else, and it calls none that it has destroyed.\<close>

theorem sync_sessions_well_used:
  assumes "reachable calm w"
  shows "uses_sessions (0, None) (trace w) =
      Some (sessions_made (sess w), map_option (\<lambda>i. (i, True)) (session (sess w))) \<and>
    (state (sess w) \<in> {Active, Dying} \<longrightarrow> session (sess w) \<noteq> None) \<and>
    (state (sess w) = Inactive \<longrightarrow> session (sess w) = None)"
  using reachable_ok[OF assms] by (auto simp: world_ok_def view_def sess_ok_def)

theorem sync_sessions_well_used_witness:
  "uses_sessions (0, None) (trace active_world) = Some (1, Some (0, True))"
  using sync_sessions_well_used[OF active_reachable] by (simp add: active_world_eq)

text \<open>C5. No callback is called twice, and none is called that was not registered: each one registered was called once, or
  it waits in a list of the session or with a method that will call it or put it back, or it is lost. None is lost if
  nothing interferes with a client resync.\<close>

theorem callbacks_kept:
  assumes "reachable calm w"
  shows "mset (registered w) = mset (completions (trace w)) + mset (download_callbacks (sess w) @ upload_callbacks (sess w)) +
      mset (concat (map held_by (concat (jobs w)))) + mset (lost w) \<and> (calm \<longrightarrow> lost w = [])"
proof -
  have "lost w = []" if calm using reachable_calm_ok[of w] assms that by (simp add: calm_ok_def)
  then show ?thesis using reachable_ok[OF assms] by (simp add: world_ok_def listed_def held_def)
qed

definition two_waits :: "nat session_move list" where
  "two_waits = [Start (Wait_for Upload 1), Go 2, Start (Wait_for Download 2), Go 3]"

lemma two_waits:
  "\<exists>w. play True two_waits active_world = Some w \<and> registered w = [1, 2] \<and> waiters w = [Completion Upload 0, Completion Download 0]"
  by (simp add: two_waits_def active_world_eq sample_simps restoring_def)

theorem callbacks_kept_witness:
  "\<exists>w. play True two_waits active_world = Some w \<and>
     mset (completions (trace w)) + mset (download_callbacks (sess w) @ upload_callbacks (sess w)) +
       mset (concat (map held_by (concat (jobs w)))) = {#1, 2#}"
proof -
  obtain w where w: "play True two_waits active_world = Some w" "registered w = [1, 2]" using two_waits by blast
  have "reachable True w" using play_reachable[OF w(1) active_reachable] .
  from callbacks_kept[OF this] w show ?thesis by auto
qed

text \<open>C4. Callbacks are called in the end: while the session is connected, a callback that waits is among those that an outstanding
  handler of the sync client will call, and a dying session waits for a handler that ends it. So, if nothing interferes with a
  client resync and the sync client has called all its handlers and the methods have returned, no session is dying, and all the callbacks
  registered have been called if the session is active.\<close>

theorem waiting_callbacks_called:
  assumes "reachable True w"
  shows "(\<forall>d. state (sess w) \<in> {Active, Dying} \<and> callbacks d (sess w) \<noteq> [] \<longrightarrow>
      Completion d (client_resync_counter (sess w)) \<in> outstanding w \<and>
      (\<forall>e. exec (Completed (Completion d (client_resync_counter (sess w))) e) (sess w) =
        Some (set_callbacks d [] (sess w), map (\<lambda>c. Complete c e) (callbacks d (sess w)), []))) \<and>
    (state (sess w) = Dying \<longrightarrow> Death (death_count (sess w)) \<in> outstanding w) \<and>
    (waiters w = [] \<and> concat (jobs w) = [] \<longrightarrow>
      state (sess w) \<noteq> Dying \<and> (state (sess w) = Active \<longrightarrow> mset (completions (trace w)) = mset (registered w)))"
proof -
  note ok = reachable_ok[OF assms] and calm = reachable_calm_ok[OF assms]
  have covered: "covered (outstanding w) (sess w)" and "lost w = []" using calm by (auto simp: calm_ok_def)
  moreover have "outstanding w = {}" if "waiters w = []" "concat (jobs w) = []"
    using that by (auto simp: outstanding_def concat_eq_Nil_conv)
  ultimately show ?thesis
    using ok by (auto simp: covered_def world_ok_def held_def listed_def all_directions act_simps)
qed

theorem waiting_callbacks_called_witness:
  "\<exists>w. play True (two_waits @ [Handler 0 success, Go 4, Handler 0 success, Go 5]) active_world = Some w \<and>
     waiters w = [] \<and> concat (jobs w) = [] \<and> mset (completions (trace w)) = {#1, 2#}"
proof -
  obtain w where w: "play True (two_waits @ [Handler 0 success, Go 4, Handler 0 success, Go 5]) active_world = Some w"
      "registered w = [1, 2]" "waiters w = []" "concat (jobs w) = []" "state (sess w) = Active"
    by (simp add: two_waits_def active_world_eq sample_simps restoring_def)
  have "reachable True w" using play_reachable[OF w(1) active_reachable] .
  from waiting_callbacks_called[OF this] w show ?thesis by auto
qed


section \<open>Errors\<close>

lemma run_nil: "run_job [] s = Some (s, [])"
  by (subst run_job.simps) simp

lemma run_cons:
  "exec x s = Some (t, es, ys) \<Longrightarrow>
    run_job (x # xs) s = map_option (\<lambda>(s', es'). (s', es @ es')) (run_job (ys @ xs) t)"
  by (subst run_job.simps) (simp add: map_option_case case_prod_unfold split: option.split)

lemma now_inactive_exec:
  "exec (Now_inactive old ds us) s =
    Some (s, (if old \<noteq> Disconnected then [Connection_change old (connection_state s)] else []) @
      map (\<lambda>c. Complete c operation_aborted) (ds @ us), [])"
  by (simp add: now_inactive_def act_simps)

lemma unregister_exec:
  "exec Unregister_from_manager s =
    (if in_manager s then Some (s\<lparr>in_manager := external_references s > 0\<rparr>, [Unregister_session], []) else None)"
  by (cases s) (auto simp: unregister_session_def act_simps)

text \<open>The session after the error of a client reset, if nothing interferes.\<close>

definition resynced :: "'c sync_session \<Rightarrow> 'c sync_session" where
  "resynced s =
     s\<lparr>state := Waiting_for_access_token, connection_state := Disconnected, session := None, force_client_resync := True,
       client_resync_counter := client_resync_counter s + 1, deferred_close := False,
       in_manager := external_references s > 0\<rparr>"

lemma resync_run:
  assumes "sess_ok s" "state s \<in> {Waiting_for_access_token, Active}" "client_resync_counter s < max_counter"
    and "is_client_reset_requested e" "client_resync_mode (config s) \<noteq> Manual" "in_manager s"
  shows "run_job [Handle_error e recovery] s =
    Some (resynced s, leaving_events s @ Unregister_session #
      (if connection_state s \<noteq> Disconnected then [Connection_change (connection_state s) Disconnected] else []) @
      [Entered Inactive Waiting_for_access_token, Request_token])"
proof -
  let ?t = "(became_inactive s)\<lparr>force_client_resync := True, client_resync_counter := client_resync_counter s + 1\<rparr>"
  let ?v = "?t\<lparr>in_manager := external_references s > 0\<rparr>"
  let ?u = "?v\<lparr>download_callbacks := download_callbacks s, upload_callbacks := upload_callbacks s\<rparr>"
  have 1: "exec (Handle_error e recovery) s = Some (s, [], [Dispatch_error e recovery])"
    using assms(2) by (auto simp: state_handle_error_def act_simps)
  have 2: "exec (Dispatch_error e recovery) s = Some (s, [], [Start_resync])"
    using assms(4,5) by (simp add: dispatch_error_def act_simps)
  have eq: "became_inactive (client_resync_counter_update (\<lambda>n. n + 1) (s\<lparr>force_client_resync := True\<rparr>)
      \<lparr>download_callbacks := [], upload_callbacks := []\<rparr>) = ?t"
    by (cases s) (simp add: became_inactive_def)
  have 3: "exec Start_resync s = Some (?t, leaving_events s,
      [Unregister_from_manager, Now_inactive (connection_state s) [] [], Restore_waits (download_callbacks s) (upload_callbacks s), Revive_if_needed])"
    using assms(2,3) eq by (auto simp: start_resync_def act_simps advance_inactive leaving_events_def)
  have unregister: "exec Unregister_from_manager ?t = Some (?v, [Unregister_session], [])"
    using assms(6) by (simp add: unregister_exec del: exec.simps) (simp add: became_inactive_def)
  have 4: "exec Revive_if_needed ?u = Some (resynced s, [Entered Inactive Waiting_for_access_token, Request_token], [])"
    by (cases s) (simp add: state_revive_if_needed_def act_simps advance_waiting resynced_def became_inactive_def)
  show ?thesis
    using 4 by (simp add: run_cons[OF 1] run_cons[OF 2] run_cons[OF 3] run_cons[OF unregister] run_cons[OF now_inactive_exec] run_cons[OF restore_exec]
        run_cons[OF 4] run_nil del: exec.simps)
qed

text \<open>C6. A client resync is transparent: on such an error a connected session that the manager has destroys its \<open>sync::Session\<close> and asks for
  a token without calling or losing a callback or reporting the error, and ignores what the handlers of the destroyed \<open>sync::Session\<close>
  tell it. With the token it makes a \<open>sync::Session\<close> that resets the client and waits anew for all callbacks.\<close>

theorem resync_transparent:
  assumes "sess_ok s" "state s \<in> {Waiting_for_access_token, Active}" "client_resync_counter s < max_counter"
    and "is_client_reset_requested e" "client_resync_mode (config s) \<noteq> Manual" "server_url s \<noteq> None"
    and "in_manager s"
  shows "\<exists>t es u es' conf. run_job [Handle_error e recovery] s = Some (t, es) \<and>
    completions es = [] \<and> (\<forall>e. Report e \<notin> set es) \<and> last es = Request_token \<and>
    (\<forall>d. callbacks d t = callbacks d s) \<and> state t = Waiting_for_access_token \<and>
    (\<forall>d k ec. k \<le> client_resync_counter s \<longrightarrow> exec (Completed (Completion d k) ec) t = Some (t, [], [])) \<and>
    run_job [Refresh_access_token token None] t = Some (u, es') \<and>
    state u = Active \<and> (\<forall>d. callbacks d u = callbacks d s) \<and> completions es' = [] \<and>
    Make_session (sessions_made s) conf \<in> set es' \<and>
    client_reset_config conf = Some (realm_path s @ ''.resync'', client_resync_mode (config s) = Recover) \<and>
    set (waiters_of es') = {Completion d (client_resync_counter s + 1) |d. callbacks d s \<noteq> []}"
proof -
  let ?t = "resynced s" and ?dir = "realm_path s @ ''.resync''"
  obtain url where url: "server_url s = Some url" using assms(6) by blast
  have t: "sess_ok ?t" "state ?t = Waiting_for_access_token" "server_url (got_token None ?t) = Some url"
    using assms(1,3) url by (simp_all add: resynced_def sess_ok_def got_token_def)
  have "exec (Refresh_access_token token None) ?t = Some (got_token None ?t, token_events token url ?t, [])"
  proof -
    have "\<not> deferred_close (got_token None ?t)" "server_url ?t = Some url" using url by (simp_all add: resynced_def got_token_def)
    then show ?thesis
      using waiting_refresh[OF t, of token] t(2)
      by (simp add: refresh_access_token_def state_refresh_access_token_def test_def skip_def)
  qed
  then have refresh: "run_job [Refresh_access_token token None] ?t = Some (got_token None ?t, token_events token url ?t)"
    by (simp add: run_cons run_nil del: exec.simps)
  have lists: "callbacks d ?t = callbacks d s" "callbacks d (got_token None ?t) = callbacks d s" for d
    by (cases d; simp add: resynced_def got_token_def)+
  have ignored: "exec (Completed (Completion d k) ec) ?t = Some (?t, [], [])" if "k \<le> client_resync_counter s" for d k ec
    using that by (simp add: act_simps resynced_def)
  define conf where "conf = \<lparr>multiplex_ident = multiplex_identity ?t, session_url_prefix = url_prefix (config ?t),
    client_reset_config = Some (?dir, client_resync_mode (config s) = Recover)\<rparr>"
  have made: "Make_session (sessions_made s) conf \<in> set (token_events token url ?t)"
    by (simp add: token_events_def Let_def resynced_def made_session_def conf_def)
  have waits: "set (waiters_of (token_events token url ?t)) = {Completion d (client_resync_counter s + 1) |d. callbacks d s \<noteq> []}"
    using lists(1) by (auto simp: token_events_def Let_def pending_waiters split: option.split) (auto simp: resynced_def)
  have quiet: "completions (token_events token url ?t) = []"
    by (auto simp: token_events_def Let_def pending_waits_def split: option.split)
  let ?es = "leaving_events s @ Unregister_session #
    (if connection_state s \<noteq> Disconnected then [Connection_change (connection_state s) Disconnected] else []) @
    [Entered Inactive Waiting_for_access_token, Request_token]"
  have "completions (leaving_events s) = []" "Report e \<notin> set (leaving_events s)" for e
    by (auto simp: leaving_events_def split: option.split)
  then have es: "completions ?es = []" "\<forall>e. Report e \<notin> set ?es" "last ?es = Request_token" by auto
  have u: "state (got_token None ?t) = Active" by (simp add: got_token_def)
  have conf: "client_reset_config conf = Some (?dir, client_resync_mode (config s) = Recover)" by (simp add: conf_def)
  show ?thesis
    by (rule exI[of _ ?t], rule exI[of _ ?es], rule exI[of _ "got_token None ?t"], rule exI[of _ "token_events token url ?t"],
        rule exI[of _ conf])
      (intro conjI allI impI resync_run[OF assms(1-5,7)] es es(2)[rule_format] lists t(2) ignored refresh u quiet made conf waits; assumption?)
qed

theorem resync_transparent_witness:
  "\<exists>t es. run_job [Handle_error (protocol_failure 208) ''''] (sess active_world) = Some (t, es) \<and> state t = Waiting_for_access_token"
  using resync_transparent[of "sess active_world" "protocol_failure 208" "''''" "''t''"]
    reachable_ok[OF active_reachable]
  by (auto simp: world_ok_def active_world_eq sample_config_def max_counter_def is_client_reset_requested_def protocol_failure_def
      protocol_error_of_def protocol_errors_def)

text \<open>What an error does to the callbacks, and that it is reported.\<close>

definition no_callbacks :: "'c sync_session \<Rightarrow> 'c sync_session" where
  "no_callbacks s = s\<lparr>download_callbacks := [], upload_callbacks := []\<rparr>"

definition called_with :: "error_code \<Rightarrow> 'c sync_session \<Rightarrow> 'c event list" where
  "called_with ec s = map (\<lambda>c. Complete c ec) (download_callbacks s @ upload_callbacks s)"

definition reported :: "sync_config \<Rightarrow> sync_error \<Rightarrow> 'c event list" where
  "reported conf e = (if has_error_handler conf then [Report e] else [])"

definition disconnection :: "'c sync_session \<Rightarrow> 'c event list" where
  "disconnection s = (if connection_state s \<noteq> Disconnected then [Connection_change (connection_state s) Disconnected] else [])"

lemma no_callbacks_simps [simp]:
  "config (no_callbacks s) = config s" "state (no_callbacks s) = state s" "became_inactive (no_callbacks s) = became_inactive s"
  "leaving_events (no_callbacks s) = leaving_events s" "called_with ec (no_callbacks s) = []"
  "no_callbacks (no_callbacks s) = no_callbacks s" "disconnection (no_callbacks s) = disconnection s"
  "called_with ec (became_inactive s) = []" "disconnection (became_inactive s) = []" "in_manager (no_callbacks s) = in_manager s"
  by (simp_all add: no_callbacks_def leaving_events_def called_with_def became_inactive_def disconnection_def)

lemma cancel_exec: "exec (Cancel_waits ec) s = Some (no_callbacks s, called_with ec s, [])"
  by (simp add: cancel_pending_waits_def act_simps no_callbacks_def called_with_def)

lemma report_exec: "exec (Report_error e) s = Some (s, reported (config s) e, [])"
  by (simp add: report_error_def act_simps reported_def)

lemma inactive_exec:
  "state s \<noteq> Inactive \<Longrightarrow> exec Become_inactive s =
    Some (became_inactive s, leaving_events s,
      [Unregister_from_manager, Now_inactive (connection_state s) (download_callbacks s) (upload_callbacks s)])"
  by (simp add: advance_inactive)

text \<open>What follows when a session has become inactive: the manager forgets it if nobody refers to it.\<close>

definition left :: "'c sync_session \<Rightarrow> 'c sync_session" where
  "left s = (became_inactive s)\<lparr>in_manager := external_references s > 0\<rparr>"

lemma announce_run:
  "run_job (Unregister_from_manager # Now_inactive (connection_state s) (download_callbacks s) (upload_callbacks s) # xs)
      (became_inactive s) =
    (if in_manager s
     then map_option (\<lambda>(s', es). (s', Unregister_session # disconnection s @ called_with operation_aborted s @ es)) (run_job xs (left s))
     else None)"
proof (cases "in_manager s")
  case True
  then have 1: "exec Unregister_from_manager (became_inactive s) = Some (left s, [Unregister_session], [])"
    by (simp add: unregister_exec left_def del: exec.simps) (simp add: became_inactive_def)
  have 2: "exec (Now_inactive (connection_state s) (download_callbacks s) (upload_callbacks s)) (left s) =
      Some (left s, disconnection s @ called_with operation_aborted s, [])"
    by (simp add: now_inactive_exec disconnection_def called_with_def left_def became_inactive_def del: exec.simps)
  show ?thesis using True
    by (simp add: run_cons[OF 1] run_cons[OF 2] option.map_comp comp_def case_prod_unfold)
next
  case False
  then have "exec Unregister_from_manager (became_inactive s) = None"
    by (simp add: unregister_exec del: exec.simps) (simp add: became_inactive_def)
  with False show ?thesis by (subst run_job.simps) (simp del: exec.simps)
qed

lemma finish_exec:
  "exec (Finish_error next e) s = Some (s, [],
    (case next of
       Next_none \<Rightarrow> (if cancel_waits_on_nonfatal_error (config s) then [Cancel_waits (error_code e)] else []) @ [Report_error e]
     | Next_inactive \<Rightarrow>
         (if is_client_reset_requested e then [Cancel_waits (error_code e)] else []) @ [Become_inactive, Report_error e]
     | Next_error \<Rightarrow> [Cancel_waits (error_code e), Report_error e]))"
  by (simp add: finish_error_def act_simps split: next_state.split)

lemma authentication_exec:
  "exec (Bad_authentication e) s = Some (no_callbacks s,
    called_with (error_code e) s @ (case user (config s) of None \<Rightarrow> [] | Some u \<Rightarrow> [Invalidate_user u]), [Finish_error Next_none e])"
  by (auto simp: invalidate_and_go_on_def cancel_pending_waits_def act_simps no_callbacks_def called_with_def split: option.split)

text \<open>The mark for deletion.\<close>

definition marking :: "bool \<Rightarrow> string \<Rightarrow> 'c sync_session \<Rightarrow> 'c event list" where
  "marking backup recovery s =
     (if metadata_manager s then [File_action backup (if backup then recovery else [])] else [])"

lemma run_none: "exec x s = None \<Longrightarrow> run_job (x # xs) s = None"
  by (subst run_job.simps) simp

lemma dispatch_exec:
  assumes "\<not> (is_client_reset_requested e \<and> client_resync_mode (config s) \<noteq> Manual)"
  shows "exec (Dispatch_error e recovery) s =
    (case error_response e of
       Ignore \<Rightarrow> Some (s, [], [])
     | Expire \<Rightarrow> Some (s, [], [Access_token_expired])
     | Unauthenticated \<Rightarrow> Some (s, [], [Bad_authentication e])
     | Next next None \<Rightarrow> Some (s, [], [Finish_error next (unrecognized e)])
     | Next next (Some backup) \<Rightarrow>
         if (backup \<longrightarrow> file_manager s) \<and> (metadata_manager s \<longrightarrow> realm_url_given s)
         then Some (s, marking backup recovery s, [Finish_error next (update_error (realm_path s) backup recovery e)])
         else None)"
  using assms by (auto simp: dispatch_error_def update_error_and_mark_file_for_deletion_def marking_def act_simps
      split: response.split option.split)

lemma response_next:
  "error_response e = Next n backup \<Longrightarrow>
    (case backup of None \<Rightarrow> n = (if is_fatal e then Next_error else Next_none) \<and> kind e \<notin> concerns_file
     | Some b \<Rightarrow> n = Next_inactive \<and> kind e \<in> concerns_file \<and> (b \<longleftrightarrow> kind e \<in> with_backup))"
  by (auto simp: response_kind concerns_file_def with_backup_def split: if_splits)

lemma error_start:
  assumes "state s \<in> {Waiting_for_access_token, Active}" "\<not> (is_client_reset_requested e \<and> client_resync_mode (config s) \<noteq> Manual)"
  shows "run_job [Handle_error e recovery] s =
    (case error_response e of
       Ignore \<Rightarrow> Some (s, [])
     | Expire \<Rightarrow> run_job [Access_token_expired] s
     | Unauthenticated \<Rightarrow> run_job [Bad_authentication e] s
     | Next next None \<Rightarrow> run_job [Finish_error next (unrecognized e)] s
     | Next next (Some backup) \<Rightarrow>
         if (backup \<longrightarrow> file_manager s) \<and> (metadata_manager s \<longrightarrow> realm_url_given s)
         then map_option (\<lambda>(s', es). (s', marking backup recovery s @ es))
           (run_job [Finish_error next (update_error (realm_path s) backup recovery e)] s)
         else None)"
proof -
  have 1: "exec (Handle_error e recovery) s = Some (s, [], [Dispatch_error e recovery])"
    using assms(1) by (auto simp: state_handle_error_def act_simps)
  note 2 = dispatch_exec[OF assms(2)]
  show ?thesis
    by (simp add: run_cons[OF 1] del: exec.simps)
      (auto simp: run_cons run_none 2 run_nil option.map_comp option.map_ident option.map_id id_def comp_def case_prod_unfold
        simp del: exec.simps split: response.split option.split)
qed


lemma error_updates [simp]:
  "error_code (unrecognized e) = error_code e" "error_code (update_error path backup recovery e) = error_code e"
  "is_client_reset_requested (update_error path backup recovery e) = is_client_reset_requested e"
  by (simp_all add: unrecognized_def update_error_def is_client_reset_requested_def Let_def)

lemma left_simps [simp]: "left (no_callbacks s) = left s" "config (left s) = config s" "state (left s) = Inactive"
  by (simp_all add: left_def) (simp add: no_callbacks_def)

text \<open>An error that makes the session inactive.\<close>

lemma finish_inactive_run:
  assumes "state s \<noteq> Inactive"
  shows "run_job [Finish_error Next_inactive e] s =
    (if in_manager s
     then Some (left s, (if is_client_reset_requested e
         then called_with (error_code e) s @ leaving_events s @ Unregister_session # disconnection s
         else leaving_events s @ Unregister_session # disconnection s @ called_with operation_aborted s) @ reported (config s) e)
     else None)"
proof (cases "is_client_reset_requested e")
  case True
  have "exec Become_inactive (no_callbacks s) = Some (became_inactive s, leaving_events s, [Unregister_from_manager,
      Now_inactive (connection_state (no_callbacks s)) (download_callbacks (no_callbacks s)) (upload_callbacks (no_callbacks s))])"
    using inactive_exec[of "no_callbacks s"] assms by simp
  note run_cons[OF this] announce_run[of "no_callbacks s", unfolded no_callbacks_simps]
  with True show ?thesis
    by (simp add: run_cons[OF finish_exec] run_cons[OF cancel_exec] run_cons[OF report_exec] run_nil del: exec.simps)
next
  case False
  then show ?thesis
    by (simp add: run_cons[OF finish_exec] run_cons[OF inactive_exec[OF assms]] announce_run run_cons[OF report_exec] run_nil
        del: exec.simps)
qed

text \<open>C35. What an error does to a session that is not inactive, if nothing interferes and no client resync begins: informational ones change nothing,
  an expired token (202) makes an active session ask for one, a refused one (203) invalidates the user, and all that wait are told of it.
  Others are reported after the callbacks were called with the error (when it is fatal, or they should be called for
  any error), as unrecognized if they are neither errors of the protocol nor of the client. Those that concern the file (206, and with backup 207 to 209, 211,
  216 to 220 and 222) mark it for deletion, if there are metadata, make the session inactive and are reported with the path of the file and
  of its backup; they fail without file manager, user or URL when these are needed, and when the manager does not have the session.
  A dying session reports nothing, and a fatal error ends it.\<close>

theorem errors_handled:
  assumes "state s \<noteq> Inactive" "\<not> (kind e \<in> requests_reset \<and> client_resync_mode (config s) \<noteq> Manual)"
  shows "run_job [Handle_error e recovery] s =
    (if state s = Dying then
       if \<not> is_fatal e then Some (s, [])
       else if in_manager s
       then Some (left s, leaving_events s @ Unregister_session # disconnection s @ called_with operation_aborted s)
       else None
     else if kind e \<in> informational then Some (s, [])
     else if kind e = (Protocol_category, 202) then
       if state s = Active
       then Some (s\<lparr>state := Waiting_for_access_token, deferred_close := False\<rparr>,
         [Entered Active Waiting_for_access_token, Request_token])
       else Some (s, [])
     else if kind e = (Protocol_category, 203) then
       Some (no_callbacks s, called_with (error_code e) s @
         (case user (config s) of None \<Rightarrow> [] | Some u \<Rightarrow> [Invalidate_user u]) @ reported (config s) e)
     else if kind e \<in> concerns_file then
       if in_manager s \<and> (kind e \<in> with_backup \<longrightarrow> file_manager s) \<and>
          (metadata_manager s \<longrightarrow> user (config s) \<noteq> None \<and> reference_realm_url (config s) \<noteq> [])
       then Some (left s,
         (if metadata_manager s
          then [if kind e \<in> with_backup then File_action True recovery else File_action False []] else []) @
         (if kind e \<in> requests_reset
          then called_with (error_code e) s @ leaving_events s @ Unregister_session # disconnection s
          else leaving_events s @ Unregister_session # disconnection s @ called_with operation_aborted s) @
         reported (config s) (e\<lparr>user_info :=
           if kind e \<in> with_backup
           then (user_info e)(''ORIGINAL_FILE_PATH'' \<mapsto> realm_path s, ''RECOVERY_FILE_PATH'' \<mapsto> recovery)
           else (user_info e)(''ORIGINAL_FILE_PATH'' \<mapsto> realm_path s)\<rparr>))
       else None
     else
       let e' = e\<lparr>is_unrecognized_by_client :=
             (category (error_code e) \<notin> {Protocol_category, Client_category} \<or> is_unrecognized_by_client e)\<rparr>
       in if is_fatal e \<or> cancel_waits_on_nonfatal_error (config s)
          then Some (no_callbacks s, called_with (error_code e) s @ reported (config s) e')
          else Some (s, reported (config s) e'))"
proof (cases "state s = Dying")
  case True
  then have "exec (Handle_error e recovery) s =
    (if is_fatal e then Some (became_inactive s, leaving_events s,
        [Unregister_from_manager, Now_inactive (connection_state s) (download_callbacks s) (upload_callbacks s)])
     else Some (s, [], []))"
    by (simp add: state_handle_error_def act_simps advance_inactive)
  with True show ?thesis by (auto simp: run_cons announce_run run_nil simp del: exec.simps split: if_splits)
next
  case False
  with assms(1) have "state s \<in> {Waiting_for_access_token, Active}" by (cases "state s") auto
  note start = error_start[OF this, unfolded reset_kind, OF assms(2)] and kinds = response_kind[of e]
  note runs = run_cons[OF finish_exec] run_cons[OF cancel_exec] run_cons[OF report_exec]
  show ?thesis
  proof (cases "error_response e")
    case Ignore
    then have "kind e \<in> informational" using kinds by (auto split: if_splits)
    with Ignore False start show ?thesis by simp
  next
    case Expire
    then have "kind e \<notin> informational" "kind e = (Protocol_category, 202)" using kinds by (auto split: if_splits)
    moreover have "exec Access_token_expired s = (if state s = Active
        then Some (s\<lparr>state := Waiting_for_access_token, deferred_close := False\<rparr>, [Entered Active Waiting_for_access_token, Request_token], [])
        else Some (s, [], []))"
      by (simp add: state_access_token_expired_def act_simps advance_waiting split: session_state.split)
    ultimately show ?thesis using Expire False start by (simp add: run_cons run_nil del: exec.simps)
  next
    case Unauthenticated
    then have "kind e \<notin> informational" "kind e = (Protocol_category, 203)" using kinds by (auto split: if_splits)
    with Unauthenticated False start show ?thesis
      by (simp add: run_cons[OF authentication_exec] runs run_nil del: exec.simps)
  next
    case (Next n backup)
    show ?thesis
    proof (cases backup)
      case None
      then have k: "kind e \<notin> informational" "kind e \<notin> concerns_file" "kind e \<noteq> (Protocol_category, 202)" "kind e \<noteq> (Protocol_category, 203)"
          and n: "n = (if is_fatal e then Next_error else Next_none)"
        using kinds Next by (auto simp: concerns_file_def split: if_splits)
      have "unrecognized e = e\<lparr>is_unrecognized_by_client :=
          (category (error_code e) \<notin> {Protocol_category, Client_category} \<or> is_unrecognized_by_client e)\<rparr>"
        by (simp add: unrecognized_def)
      with n k None Next False start show ?thesis by (auto simp: runs run_nil Let_def simp del: exec.simps)
    next
      case (Some b)
      then have k: "kind e \<notin> informational" "kind e \<in> concerns_file" "kind e \<noteq> (Protocol_category, 202)" "kind e \<noteq> (Protocol_category, 203)"
          and b: "b \<longleftrightarrow> kind e \<in> with_backup" and n: "n = Next_inactive"
        using kinds Next by (auto simp: concerns_file_def with_backup_def split: if_splits)
      have m: "marking b recovery s = (if metadata_manager s
          then [if kind e \<in> with_backup then File_action True recovery else File_action False []] else [])"
        by (simp add: marking_def b)
      have u: "update_error (realm_path s) b recovery e = e\<lparr>user_info :=
           if kind e \<in> with_backup
           then (user_info e)(''ORIGINAL_FILE_PATH'' \<mapsto> realm_path s, ''RECOVERY_FILE_PATH'' \<mapsto> recovery)
           else (user_info e)(''ORIGINAL_FILE_PATH'' \<mapsto> realm_path s)\<rparr>"
        by (simp add: update_error_def b Let_def)
      have p: "((b \<longrightarrow> file_manager s) \<and> (metadata_manager s \<longrightarrow> realm_url_given s)) = ((kind e \<in> with_backup \<longrightarrow> file_manager s) \<and>
          (metadata_manager s \<longrightarrow> user (config s) \<noteq> None \<and> reference_realm_url (config s) \<noteq> []))"
        by (auto simp: b realm_url_given_def)
      note finish_inactive_run[OF assms(1), of "update_error (realm_path s) b recovery e", unfolded error_updates reset_kind[of e]]
      then have "run_job [Handle_error e recovery] s =
        (if (b \<longrightarrow> file_manager s) \<and> (metadata_manager s \<longrightarrow> realm_url_given s) \<and> in_manager s
         then Some (left s, marking b recovery s @ (if kind e \<in> requests_reset
           then called_with (error_code e) s @ leaving_events s @ Unregister_session # disconnection s
           else leaving_events s @ Unregister_session # disconnection s @ called_with operation_aborted s) @
           reported (config s) (update_error (realm_path s) b recovery e)) else None)"
        using start Next Some n by simp
      with k False show ?thesis unfolding m u using p by auto
    qed
  qed
qed

theorem errors_handled_witness:
  "\<exists>t es. run_job [Handle_error (protocol_failure 206) ''''] (sess active_world) = Some (t, es) \<and> state t = Inactive \<and> hd es = File_action False []"
  using errors_handled[of "sess active_world" "protocol_failure 206" "''''"]
  by (simp add: active_world_eq sample_config_def protocol_failure_def kind_def informational_def concerns_file_def with_backup_def
      requests_reset_def left_def became_inactive_def Let_def image_iff)

section \<open>What goes wrong\<close>

text \<open>Executing sections, with nothing between them, comes to one that fails.\<close>

inductive aborts :: "'c session_section list \<Rightarrow> 'c sync_session \<Rightarrow> bool" where
  now: "exec x s = None \<Longrightarrow> aborts (x # xs) s"
| later_on: "exec x s = Some (t, es, ys) \<Longrightarrow> aborts (ys @ xs) t \<Longrightarrow> aborts (x # xs) s"

inductive_simps aborts_nil [simp]: "aborts [] s"

inductive_cases aborts_consE: "aborts (x # xs) s"

lemma aborts_some: "exec x s = Some (t, es, ys) \<Longrightarrow> aborts (x # xs) s \<longleftrightarrow> aborts (ys @ xs) t"
  by (auto elim: aborts_consE intro: aborts.later_on simp del: exec.simps)

lemma aborts_none: "exec x s = None \<Longrightarrow> aborts (x # xs) s"
  by (rule aborts.now)

lemma inactive_aborts:
  assumes "state s = Inactive"
  shows "aborts [Finish_error n e] s \<longleftrightarrow> n = Next_inactive"
proof -
  have inactive: "exec Become_inactive t = None" if "state t = Inactive" for t
    using that by (simp add: advance_inactive)
  note facts = aborts_some[OF finish_exec] aborts_some[OF cancel_exec] aborts_some[OF report_exec] aborts_none[OF inactive]
  show ?thesis using assms by (cases n) (simp_all add: facts del: exec.simps)
qed

text \<open>C36. An error that the sync client reports when the session is inactive, which it may do after the
  \<open>sync::Session\<close> was destroyed, fails an assertion exactly if it would make the session inactive or ask for a client resync:
  these are the errors that concern the file.\<close>

theorem late_errors_abort:
  assumes "reachable calm w" "state (sess w) = Inactive" "sessions_made (sess w) > 0"
  shows "step calm w (w\<lparr>jobs := jobs w @ [[Connection_event new (Some e) recovery]]\<rparr>) \<and>
    (aborts [Connection_event new (Some e) recovery] (sess w) \<longleftrightarrow> kind e \<in> concerns_file)"
proof -
  define s where "s = (sess w)\<lparr>connection_state := new\<rparr>"
  have s: "state s = Inactive" using assms(2) by (simp add: s_def)
  have 1: "exec (Connection_event new (Some e) recovery) (sess w) =
      Some (s, [Connection_change (connection_state (sess w)) new], [Handle_error e recovery])"
    by (cases "sess w") (simp add: connection_event_def act_simps s_def)
  have 2: "exec (Handle_error e recovery) s = Some (s, [], [Dispatch_error e recovery])"
    using s by (simp add: state_handle_error_def act_simps)
  have start: "aborts [Connection_event new (Some e) recovery] (sess w) \<longleftrightarrow> aborts [Dispatch_error e recovery] s"
    by (simp add: aborts_some[OF 1] aborts_some[OF 2] del: exec.simps)
  have "aborts [Dispatch_error e recovery] s \<longleftrightarrow> kind e \<in> concerns_file"
  proof (cases "kind e \<in> requests_reset \<and> client_resync_mode (config s) \<noteq> Manual")
    case True
    then have 3: "exec (Dispatch_error e recovery) s = Some (s, [], [Start_resync])"
      by (simp add: dispatch_error_def reset_kind act_simps)
    have "exec Start_resync s = None" using s by (auto simp: start_resync_def act_simps advance_inactive)
    then have "aborts [Dispatch_error e recovery] s" by (simp add: aborts_some[OF 3] aborts_none del: exec.simps)
    with True show ?thesis by (auto simp: concerns_file_def with_backup_def requests_reset_def)
  next
    case False
    have expired: "exec Access_token_expired s = Some (s, [], [])"
      using s by (simp add: state_access_token_expired_def act_simps)
    have kinds: "kind e \<notin> concerns_file" if "error_response e \<in> {Ignore, Expire, Unauthenticated}"
      using that by (auto simp: response_kind concerns_file_def with_backup_def informational_def split: if_splits)
    note dispatch = dispatch_exec[of e s recovery, unfolded reset_kind, OF False]
    show ?thesis
    proof (cases "error_response e")
      case Ignore
      with kinds dispatch show ?thesis by (simp add: aborts_some del: exec.simps)
    next
      case Expire
      with kinds dispatch show ?thesis by (simp add: aborts_some[OF expired] aborts_some del: exec.simps)
    next
      case Unauthenticated
      with kinds dispatch s show ?thesis
        by (simp add: aborts_some aborts_some[OF authentication_exec] inactive_aborts del: exec.simps)
    next
      case (Next n backup)
      with response_next[OF Next] dispatch s show ?thesis
        by (cases backup) (auto simp: aborts_some aborts_none inactive_aborts simp del: exec.simps split: if_splits)
    qed
  qed
  with start show ?thesis using step.event[OF assms(3)] by blast
qed

lemma run_start:
  "is_method w x \<Longrightarrow> reachable calm w \<Longrightarrow> exec x (sess w) = Some (s, es, ys) \<Longrightarrow>
    (calm \<Longrightarrow> \<forall>j \<in> set (jobs w). \<not> restoring j) \<Longrightarrow>
    reachable calm (w\<lparr>sess := s, jobs := jobs w @ [ys], waiters := waiters w @ waiters_of es, trace := trace w @ es,
      registered := registered w @ registers x, lost := lost w @ loses x (sess w)\<rparr>)"
  using reachable.more[OF reachable.more[OF _ step.start] step.run[of "w\<lparr>jobs := jobs w @ [[x]]\<rparr>" "jobs w" x "[]" "[]" s es ys calm]]
  by simp

theorem late_errors_abort_witness:
  "\<exists>w. state (sess w) = Inactive \<and> aborts [Connection_event Disconnected (Some (protocol_failure 206)) ''''] (sess (w :: nat world))"
proof -
  let ?s = "sess active_world"
  have "exec Log_out ?s = Some (became_inactive ?s, leaving_events ?s,
      [Unregister_from_manager, Now_inactive (connection_state ?s) (download_callbacks ?s) (upload_callbacks ?s)])"
    by (simp add: state_log_out_def active_state advance_inactive)
  from run_start[OF _ active_reachable this] obtain w :: "nat world" where "reachable True w" "sess w = became_inactive ?s"
    by (force simp: active_world_eq)
  then show ?thesis
    using late_errors_abort[of True w Disconnected "protocol_failure 206" "''''"]
    by (intro exI[of _ w]) (simp add: active_world_eq kind_def protocol_failure_def concerns_file_def)
qed

text \<open>A callback that is registered after a commit, while another one waits for uploads, gets no wait of its own: the handler that is
  outstanding since before the commit tells it, with the other ones, that all is uploaded.\<close>

theorem early_upload_completion:
  assumes "reachable True w" "state (sess w) = Active" "upload_callbacks (sess w) \<noteq> []"
  shows "Completion Upload (client_resync_counter (sess w)) \<in> outstanding w \<and>
    (\<exists>i t. session (sess w) = Some i \<and>
      run_job [Nonsync_transact_notify v, Wait_for Upload c, Completed (Completion Upload (client_resync_counter (sess w))) success] (sess w) =
        Some (t, [Local_version v, Call i (Commit v)] @ map (\<lambda>c. Complete c success) (upload_callbacks (sess w) @ [c])))"
proof -
  let ?s = "sess w" and ?u = "Completion Upload (client_resync_counter (sess w))"
  have "covered (outstanding w) ?s" using reachable_calm_ok[OF assms(1)] by (simp add: calm_ok_def)
  then have u: "?u \<in> outstanding w" using assms(2,3) by (auto simp: covered_def all_directions)
  have "sess_ok ?s" using reachable_ok[OF assms(1)] by (simp add: world_ok_def)
  then obtain i where i: "session ?s = Some i" using assms(2) by (auto simp: sess_ok_def)
  let ?t = "?s\<lparr>upload_callbacks := upload_callbacks ?s @ [c]\<rparr>"
  have 1: "exec (Nonsync_transact_notify v) ?s = Some (?s, [Local_version v, Call i (Commit v)], [])"
    using assms(2) i by (simp add: nonsync_transact_notify_def state_nonsync_transact_notify_def act_simps)
  have 2: "exec (Wait_for Upload c) ?s = Some (?t, [], [])"
    using assms(3) by (simp add: wait_for_completion_def act_simps)
  have 3: "exec (Completed ?u success) ?t =
      Some (?t\<lparr>upload_callbacks := []\<rparr>, map (\<lambda>c. Complete c success) (upload_callbacks ?s @ [c]), [])"
    by (simp add: act_simps)
  show ?thesis using u i by (simp add: run_cons[OF 1] run_cons[OF 2] run_cons[OF 3] run_nil del: exec.simps)
qed

theorem early_upload_completion_witness:
  "\<exists>w t. play True two_waits active_world = Some w \<and>
     run_job [Nonsync_transact_notify 5, Wait_for Upload 3, Completed (Completion Upload (client_resync_counter (sess w))) success] (sess w) =
       Some (t, [Local_version 5, Call 0 (Commit 5), Complete 1 success, Complete 3 success])"
proof -
  obtain w where w: "play True two_waits active_world = Some w" "state (sess w) = Active" "upload_callbacks (sess w) = [1]" "session (sess w) = Some 0"
    by (simp add: two_waits_def active_world_eq sample_simps restoring_def)
  have "reachable True w" using play_reachable[OF w(1) active_reachable] .
  from early_upload_completion[OF this w(2), of 5 3] w show ?thesis by auto
qed

text \<open>C38. A callback that is registered after the session was logged out and revived is told by the handler of the
  destroyed \<open>sync::Session\<close> that it was aborted, and called no more.\<close>

theorem stale_handlers_abort:
  assumes "reachable True w" "state (sess w) = Active" "callbacks d (sess w) \<noteq> []" "in_manager (sess w)"
  shows "Completion d (client_resync_counter (sess w)) \<in> outstanding w \<and>
    (\<exists>t es u. run_job [Log_out, Revive_if_needed, Wait_for d c] (sess w) = Some (t, es) \<and>
      mset (completions es) = listed (sess w) \<and> state t = Waiting_for_access_token \<and> callbacks d t = [c] \<and>
      exec (Completed (Completion d (client_resync_counter (sess w))) operation_aborted) t =
        Some (u, [Complete c operation_aborted], []) \<and> callbacks d u = [])"
proof -
  let ?s = "sess w" and ?u = "Completion d (client_resync_counter (sess w))"
  let ?t = "(left ?s)\<lparr>state := Waiting_for_access_token, deferred_close := False\<rparr>"
  have "covered (outstanding w) ?s" using reachable_calm_ok[OF assms(1)] by (simp add: calm_ok_def)
  then have u: "?u \<in> outstanding w" using assms(2,3) unfolding covered_def by blast
  have 1: "exec Log_out ?s = Some (became_inactive ?s, leaving_events ?s,
      [Unregister_from_manager, Now_inactive (connection_state ?s) (download_callbacks ?s) (upload_callbacks ?s)])"
    using assms(2) by (simp add: state_log_out_def advance_inactive)
  have 2: "exec Revive_if_needed (left ?s) = Some (?t, [Entered Inactive Waiting_for_access_token, Request_token], [])"
    by (simp add: state_revive_if_needed_def act_simps advance_waiting)
  have none: "callbacks d ?t = []" by (cases d) (simp_all add: left_def)
  then have 3: "exec (Wait_for d c) ?t = Some (set_callbacks d [c] ?t, [], [])"
    by (simp add: wait_for_completion_def state_wait_for_completion_def act_simps)
  have counter: "client_resync_counter ?t = client_resync_counter ?s" by (simp add: left_def)
  have set: "callbacks d (set_callbacks d cs s) = cs" for cs and s :: "'a sync_session" by (cases d) simp_all
  have 4: "exec (Completed ?u operation_aborted) (set_callbacks d [c] ?t) =
      Some (set_callbacks d [] (set_callbacks d [c] ?t), [Complete c operation_aborted], [])"
    by (simp add: act_simps counter set)
  have "completions (leaving_events ?s) = []" "completions (disconnection ?s) = []"
    by (auto simp: leaving_events_def disconnection_def split: option.split)
  then show ?thesis using u 4 assms(4)
    by (simp add: run_cons[OF 1] announce_run run_cons[OF 2] run_cons[OF 3] run_nil set called_with_def listed_def del: exec.simps map_append)
qed

theorem stale_handlers_abort_witness:
  "\<exists>w t es. play True two_waits active_world = Some w \<and>
     run_job [Log_out, Revive_if_needed, Wait_for Upload 3] (sess w) = Some (t, es) \<and> mset (completions es) = {#1, 2#} \<and>
     callbacks Upload t = [3]"
proof -
  obtain w where w: "play True two_waits active_world = Some w" "state (sess w) = Active" "upload_callbacks (sess w) = [1]"
      "download_callbacks (sess w) = [2]" "in_manager (sess w)"
    by (simp add: two_waits_def active_world_eq sample_simps restoring_def)
  have "reachable True w" using play_reachable[OF w(1) active_reachable] .
  from stale_handlers_abort[OF this w(2), of Upload 3] w show ?thesis by (auto simp: listed_def)
qed




text \<open>C40. Logging a session out while its last external reference is dropped can end the program: when the session is inactive, but has not been
  unregistered, dropping the reference unregisters it, and the assertion of \<open>SyncManager::unregister_session\<close> fails for the other method.\<close>

theorem log_out_races_with_drop:
  assumes "state s \<noteq> Inactive" "external_references s = 1" "in_manager s"
  shows "\<exists>s1 es ys s2 es'. exec Log_out s = Some (s1, es, Unregister_from_manager # ys) \<and>
    run_job [Drop_reference] s1 = Some (s2, es') \<and> aborts (Unregister_from_manager # ys) s2"
proof -
  let ?s1 = "became_inactive s"
  let ?s2 = "?s1\<lparr>external_references := 0\<rparr>" and ?s3 = "?s1\<lparr>external_references := 0, in_manager := False\<rparr>"
  have 1: "exec Log_out s = Some (?s1, leaving_events s,
      [Unregister_from_manager, Now_inactive (connection_state s) (download_callbacks s) (upload_callbacks s)])"
    using assms(1) by (cases "state s") (simp_all add: state_log_out_def advance_inactive)
  have 2: "exec Drop_reference ?s1 = Some (?s2, [], [Did_drop_external_reference])"
    using assms(2) by (cases s) (simp add: drop_reference_def act_simps became_inactive_def)
  have 3: "exec Did_drop_external_reference ?s2 = Some (?s2, [], [Unregister_from_manager])"
    by (simp add: did_drop_external_reference_def state_close_def inactive_close_def unregister_from_manager_def act_simps)
  have 4: "exec Unregister_from_manager ?s2 = Some (?s3, [Unregister_session], [])"
    using assms(3) by (simp add: unregister_exec del: exec.simps) (simp add: became_inactive_def)
  have 5: "exec Unregister_from_manager ?s3 = None" by (simp add: unregister_exec del: exec.simps)
  show ?thesis
    using 1 aborts_none[OF 5] by (simp add: run_cons[OF 2] run_cons[OF 3] run_cons[OF 4] run_nil del: exec.simps)
qed

theorem log_out_races_with_drop_witness:
  "\<exists>s1 es ys s2 es'. exec Log_out ((sess active_world)\<lparr>external_references := 1\<rparr>) = Some (s1, es, Unregister_from_manager # ys) \<and>
    run_job [Drop_reference] s1 = Some (s2, es') \<and> aborts (Unregister_from_manager # ys) s2"
  using log_out_races_with_drop[of "(sess active_world)\<lparr>external_references := 1\<rparr>"] by (simp add: active_world_eq)

end
