(* ===== verification/SyncProgress.thy ===== *)
theory SyncProgress
  imports Prelude "HOL-Library.Word"
begin

text \<open>
  \<open>SyncProgressNotifier\<close> (sync/sync_session.cpp and .hpp): notifiers that are told how many bytes of a session have been
  uploaded or downloaded. Its methods hold a mutex until they have decided what to call; the calls are a result, each
  with the token of its notifier. Each method is one step. The \<open>uint64_t\<close> members are words of 64 bits. The map of the notifiers is an
  association list; the order in which a map is traversed is not specified, so that the properties are about the calls of one notifier.
\<close>

section \<open>Model\<close>

record progress =
  uploadable :: "64 word"
  downloadable :: "64 word"
  uploaded :: "64 word"
  downloaded :: "64 word"
  progress_version :: "64 word"

record 'f package =
  notifier :: 'f
  captured_transferrable :: "64 word option"
  package_version :: "64 word"
  is_streaming :: bool
  is_download :: bool

record 'f progress_notifier =
  progress_token :: "64 word"
  local_version :: "64 word"
  current_progress :: "progress option"
  packages :: "(64 word \<times> 'f package) list"

definition new_progress_notifier :: "'f progress_notifier" where
  "new_progress_notifier = \<lparr>progress_token = 1, local_version = 0, current_progress = None, packages = []\<rparr>"

text \<open>
  The package with what it captures, whether it is expired, and the arguments the notifier will be called with,
  if it is called.
\<close>

definition invoke :: "'f package \<Rightarrow> progress \<Rightarrow> 64 word \<Rightarrow> 'f package \<times> bool \<times> (64 word \<times> 64 word) option" where
  "invoke k p transferrable =
     (let transferred = if is_download k then downloaded p else uploaded p
      in (k, \<not> is_streaming k \<and> transferred \<ge> transferrable, Some (transferred, transferrable)))"

definition create_invocation :: "'f package \<Rightarrow> progress \<Rightarrow> 'f package \<times> bool \<times> (64 word \<times> 64 word) option" where
  "create_invocation k p =
     (if is_streaming k then invoke k p (if is_download k then downloadable p else uploadable p)
      else case captured_transferrable k of
        Some n \<Rightarrow> invoke k p n
      | None \<Rightarrow>
          if is_download k then invoke (k\<lparr>captured_transferrable := Some (downloadable p)\<rparr>) p (downloadable p)
          else if package_version k > progress_version p then (k, False, None)
          else invoke (k\<lparr>captured_transferrable := Some (uploadable p)\<rparr>) p (uploadable p))"

text \<open>\<open>emplace\<close> of a map: a key that is there keeps its value.\<close>

definition emplace :: "64 word \<Rightarrow> 'f package \<Rightarrow> (64 word \<times> 'f package) list \<Rightarrow> (64 word \<times> 'f package) list" where
  "emplace t k ks = (if map_of ks t = None then ks @ [(t, k)] else ks)"

type_synonym calls = "(64 word \<times> 64 word \<times> 64 word) list"

definition calls_of :: "64 word \<Rightarrow> (64 word \<times> 64 word) option \<Rightarrow> calls" where
  "calls_of t call = (case call of None \<Rightarrow> [] | Some c \<Rightarrow> [(t, c)])"

definition register_callback :: "'f \<Rightarrow> bool \<Rightarrow> bool \<Rightarrow> 'f progress_notifier \<Rightarrow> 64 word \<times> calls \<times> 'f progress_notifier" where
  "register_callback f download streaming n =
     (let t = progress_token n;
          n = n\<lparr>progress_token := t + 1\<rparr>;
          k = \<lparr>notifier = f, captured_transferrable = None, package_version = local_version n,
               is_streaming = streaming, is_download = download\<rparr>
      in case current_progress n of
           None \<Rightarrow> (t, [], n\<lparr>packages := emplace t k (packages n)\<rparr>)
         | Some p \<Rightarrow>
             let (k, expired, call) = create_invocation k p
             in if expired then (0, calls_of t call, n)
                else (t, calls_of t call, n\<lparr>packages := emplace t k (packages n)\<rparr>))"

definition unregister_callback :: "64 word \<Rightarrow> 'f progress_notifier \<Rightarrow> 'f progress_notifier" where
  "unregister_callback t n = n\<lparr>packages := filter (\<lambda>(u, k). u \<noteq> t) (packages n)\<rparr>"

fun update_packages :: "progress \<Rightarrow> (64 word \<times> 'f package) list \<Rightarrow> calls \<times> (64 word \<times> 'f package) list" where
  "update_packages p [] = ([], [])"
| "update_packages p ((t, k) # ks) =
     (let (k', expired, call) = create_invocation k p;
          (calls, ks') = update_packages p ks
      in (calls_of t call @ calls, if expired then ks' else (t, k') # ks'))"

definition update_progress :: "64 word \<Rightarrow> progress \<Rightarrow> 'f progress_notifier \<Rightarrow> calls \<times> 'f progress_notifier" where
  "update_progress download_version p n =
     (if download_version = 0 then ([], n)
      else let (calls, ks) = update_packages p (packages n)
           in (calls, n\<lparr>current_progress := Some p, packages := ks\<rparr>))"

definition set_local_version :: "64 word \<Rightarrow> 'f progress_notifier \<Rightarrow> 'f progress_notifier" where
  "set_local_version v n = n\<lparr>local_version := v\<rparr>"

section \<open>Sequences of calls\<close>

datatype 'f progress_op = Register 'f bool bool | Unregister "64 word" | Update "64 word" progress | Set_version "64 word"

fun do_op :: "'f progress_op \<Rightarrow> 'f progress_notifier \<Rightarrow> calls \<times> 'f progress_notifier" where
  "do_op (Register f download streaming) n = snd (register_callback f download streaming n)"
| "do_op (Unregister t) n = ([], unregister_callback t n)"
| "do_op (Update v p) n = update_progress v p n"
| "do_op (Set_version v) n = ([], set_local_version v n)"

fun do_ops :: "'f progress_op list \<Rightarrow> 'f progress_notifier \<Rightarrow> calls \<times> 'f progress_notifier" where
  "do_ops [] n = ([], n)"
| "do_ops (x # xs) n =
     (let (calls, n) = do_op x n; (calls', n) = do_ops xs n in (calls @ calls', n))"

text \<open>The progress reported after the first DOWNLOAD message.\<close>

fun progresses :: "'f progress_op list \<Rightarrow> progress list" where
  "progresses [] = []"
| "progresses (Update v p # xs) = (if v = 0 then progresses xs else p # progresses xs)"
| "progresses (x # xs) = progresses xs"

definition told :: "64 word \<Rightarrow> calls \<Rightarrow> (64 word \<times> 64 word) list" where
  "told t calls = map snd (filter (\<lambda>c. fst c = t) calls)"

section \<open>What a notifier is told\<close>

text \<open>One notifier on its own.\<close>

fun history :: "'f package \<Rightarrow> progress list \<Rightarrow> (64 word \<times> 64 word) list" where
  "history k [] = []"
| "history k (p # ps) =
     (let (k', expired, call) = create_invocation k p
      in (case call of None \<Rightarrow> [] | Some c \<Rightarrow> [c]) @ (if expired then [] else history k' ps))"

text \<open>
  What is to be told of the progress: a streaming notifier is told all of it; another one takes the first progress for
  its goal, which for uploads is the first that is not older than the local commits at the registration, and is told all until the goal is
  reached. The comment before \<open>register_progress_notifier\<close> (sync_session.hpp) says nothing of that version.
\<close>

definition transferred_by :: "bool \<Rightarrow> progress \<Rightarrow> 64 word" where
  "transferred_by download p = (if download then downloaded p else uploaded p)"

definition transferrable_by :: "bool \<Rightarrow> progress \<Rightarrow> 64 word" where
  "transferrable_by download p = (if download then downloadable p else uploadable p)"

definition until_done :: "bool \<Rightarrow> 64 word \<Rightarrow> progress list \<Rightarrow> (64 word \<times> 64 word) list" where
  "until_done download goal ps =
     (let more = \<lambda>p. transferred_by download p < goal
      in map (\<lambda>p. (transferred_by download p, goal)) (takeWhile more ps @ take 1 (dropWhile more ps)))"

definition expected :: "bool \<Rightarrow> bool \<Rightarrow> 64 word \<Rightarrow> progress list \<Rightarrow> (64 word \<times> 64 word) list" where
  "expected download streaming version ps =
     (if streaming then map (\<lambda>p. (transferred_by download p, transferrable_by download p)) ps
      else case (if download then ps else dropWhile (\<lambda>p. progress_version p < version) ps) of
        [] \<Rightarrow> []
      | p # ps \<Rightarrow> until_done download (transferrable_by download p) (p # ps))"

lemma history_captured:
  assumes "captured_transferrable k = Some goal" "\<not> is_streaming k"
  shows "history k ps = until_done (is_download k) goal ps"
  using assms
  by (induction ps arbitrary: k)
    (auto simp: create_invocation_def invoke_def until_done_def transferred_by_def Let_def not_le not_less)

lemma history_expected:
  assumes "captured_transferrable k = None"
  shows "history k ps = expected (is_download k) (is_streaming k) (package_version k) ps"
proof (cases "is_streaming k")
  case True
  then show ?thesis
    by (induction ps) (auto simp: expected_def create_invocation_def invoke_def transferred_by_def transferrable_by_def Let_def)
next
  case False
  show ?thesis
  proof (induction ps)
    case (Cons p ps)
    let ?k = "k\<lparr>captured_transferrable := Some (transferrable_by (is_download k) p)\<rparr>"
    have goal: "history ?k (p # ps) = until_done (is_download k) (transferrable_by (is_download k) p) (p # ps)"
      by (subst history_captured) (use False in auto)
    show ?case
    proof (cases "\<not> is_download k \<and> package_version k > progress_version p")
      case True
      with Cons False assms show ?thesis by (auto simp: create_invocation_def expected_def)
    next
      case late: False
      then have "history k (p # ps) = history ?k (p # ps)"
        using False assms by (auto simp: create_invocation_def invoke_def transferrable_by_def Let_def)
      with goal late False show ?thesis by (auto simp: expected_def)
    qed
  qed (simp add: expected_def)
qed

text \<open>Tokens are given once, as long as they do not wrap around.\<close>

definition tokens_ok :: "'f progress_notifier \<Rightarrow> nat \<Rightarrow> bool" where
  "tokens_ok n m \<longleftrightarrow>
     distinct (map fst (packages n)) \<and> (\<forall>t \<in> fst ` set (packages n). t < progress_token n) \<and>
     0 < progress_token n \<and> unat (progress_token n) + m < 2 ^ 64"

lemma told_simps [simp]:
  "told t [] = []" "told t (cs @ cs') = told t cs @ told t cs'"
  "told t (calls_of u call) = (if u = t then (case call of None \<Rightarrow> [] | Some c \<Rightarrow> [c]) else [])"
  by (auto simp: told_def calls_of_def split: option.split)

lemma update_packages_keys: "set (map fst (snd (update_packages p ks))) \<subseteq> set (map fst ks)"
proof (induction ks)
  case (Cons x ks)
  then show ?case by (cases x) (auto simp: case_prod_unfold Let_def subset_iff)
qed simp

lemma update_packages_distinct: "distinct (map fst ks) \<Longrightarrow> distinct (map fst (snd (update_packages p ks)))"
proof (induction ks)
  case (Cons x ks)
  then show ?case using update_packages_keys[of p ks] by (cases x) (auto simp: case_prod_unfold Let_def)
qed simp

lemma update_packages_told:
  assumes "distinct (map fst ks)"
  shows "told t (fst (update_packages p ks)) =
      (case map_of ks t of None \<Rightarrow> [] | Some k \<Rightarrow> (case snd (snd (create_invocation k p)) of None \<Rightarrow> [] | Some c \<Rightarrow> [c])) \<and>
    map_of (snd (update_packages p ks)) t =
      (case map_of ks t of None \<Rightarrow> None
       | Some k \<Rightarrow> if fst (snd (create_invocation k p)) then None else Some (fst (create_invocation k p)))"
  using assms
proof (induction ks)
  case (Cons x ks)
  obtain u k where x: "x = (u, k)" by (cases x)
  with Cons.prems have "map_of ks u = None" by (auto simp: map_of_eq_None_iff)
  with Cons x show ?case
    by (cases "create_invocation k p"; cases "update_packages p ks") (auto simp: Let_def split: option.splits)
qed simp

lemma map_of_others: "map_of (filter (\<lambda>(v, k). v \<noteq> u) ks) t = (if u = t then None else map_of ks t)"
  by (induction ks) auto

lemma op_tokens:
  assumes "tokens_ok n (Suc m)"
  shows "tokens_ok (snd (do_op x n)) m \<and> progress_token n \<le> progress_token (snd (do_op x n))"
proof (cases x)
  case (Register f d st)
  have next_token: "progress_token n < progress_token n + 1" "unat (progress_token n + 1) = unat (progress_token n) + 1"
    using assms by (auto simp: tokens_ok_def unat_word_ariths word_less_nat_alt)
  have "map_of (packages n) (progress_token n) = None" "progress_token n \<notin> fst ` set (packages n)"
    using assms by (auto simp: tokens_ok_def map_of_eq_None_iff)
  with assms next_token show ?thesis
    by (auto simp: Register register_callback_def Let_def case_prod_unfold emplace_def tokens_ok_def split: option.split)
next
  case (Unregister t)
  then show ?thesis using assms by (auto simp: unregister_callback_def tokens_ok_def distinct_map_filter)
next
  case (Update v p)
  have "fst ` set (snd (update_packages p (packages n))) \<subseteq> fst ` set (packages n)"
    using update_packages_keys[of p "packages n"] by simp
  then have "\<forall>t \<in> fst ` set (snd (update_packages p (packages n))). t < progress_token n"
    using assms unfolding tokens_ok_def by blast
  with Update assms update_packages_distinct[of "packages n" p] show ?thesis
    by (auto simp: update_progress_def tokens_ok_def case_prod_unfold Let_def)
next
  case (Set_version v)
  then show ?thesis using assms by (auto simp: set_local_version_def tokens_ok_def)
qed

text \<open>The calls of a notifier in a sequence are its history, until it is unregistered.\<close>

definition own_progresses :: "64 word \<Rightarrow> 'f progress_op list \<Rightarrow> progress list" where
  "own_progresses t xs = progresses (takeWhile (\<lambda>x. x \<noteq> Unregister t) xs)"

lemma ops_history:
  assumes "tokens_ok n (length xs)" "t < progress_token n"
  shows "told t (fst (do_ops xs n)) =
    (case map_of (packages n) t of None \<Rightarrow> [] | Some k \<Rightarrow> history k (own_progresses t xs))"
  using assms
proof (induction xs arbitrary: n)
  case Nil
  then show ?case by (simp add: own_progresses_def split: option.split)
next
  case (Cons x xs)
  let ?n = "snd (do_op x n)"
  have ok: "tokens_ok ?n (length xs)" "t < progress_token ?n"
    using op_tokens[of n "length xs" x] Cons.prems by auto
  have split: "told t (fst (do_ops (x # xs) n)) = told t (fst (do_op x n)) @ told t (fst (do_ops xs ?n))"
    by (simp add: case_prod_unfold Let_def)
  note IH = Cons.IH[OF ok]
  have distinct: "distinct (map fst (packages n))" using Cons.prems by (simp add: tokens_ok_def)
  show ?case
  proof (cases x)
    case (Register f d st)
    have "map_of (packages ?n) t = map_of (packages n) t" "told t (fst (do_op x n)) = []"
      using Cons.prems
      by (auto simp: Register register_callback_def Let_def case_prod_unfold emplace_def map_add_def split: option.split)
    moreover have "own_progresses t (x # xs) = own_progresses t xs" by (simp add: Register own_progresses_def)
    ultimately show ?thesis using IH split by (auto split: option.split)
  next
    case (Unregister u)
    have "map_of (packages ?n) t = (if u = t then None else map_of (packages n) t)"
      by (simp add: Unregister unregister_callback_def map_of_others)
    moreover have "own_progresses t (x # xs) = (if u = t then [] else own_progresses t xs)"
      by (simp add: Unregister own_progresses_def)
    moreover have "told t (fst (do_op x n)) = []" by (simp add: Unregister)
    ultimately show ?thesis using IH split by (auto split: option.split)
  next
    case (Update v p)
    show ?thesis
    proof (cases "v = 0")
      case True
      then have "own_progresses t (x # xs) = own_progresses t xs" by (simp add: Update own_progresses_def)
      with True show ?thesis using IH split by (auto simp: Update update_progress_def split: option.split)
    next
      case False
      then show ?thesis using IH split update_packages_told[OF distinct, of t p]
        by (auto simp: Update update_progress_def own_progresses_def case_prod_unfold Let_def split: option.split)
    qed
  next
    case (Set_version v)
    then have "own_progresses t (x # xs) = own_progresses t xs" by (simp add: own_progresses_def)
    with Set_version show ?thesis using IH split by (auto simp: set_local_version_def split: option.split)
  qed
qed

section \<open>The property\<close>

lemma new_tokens_ok: "m < 2 ^ 64 - 1 \<Longrightarrow> tokens_ok new_progress_notifier m"
  by (simp add: tokens_ok_def new_progress_notifier_def)

lemma ops_tokens: "tokens_ok n (length xs + m) \<Longrightarrow> tokens_ok (snd (do_ops xs n)) m"
proof (induction xs arbitrary: n)
  case (Cons x xs)
  then have "tokens_ok (snd (do_op x n)) (length xs + m)" using op_tokens[of n "length xs + m" x] by simp
  with Cons.IH show ?case by (simp add: case_prod_unfold Let_def)
qed simp

lemma ops_current:
  "current_progress (snd (do_ops xs n)) = (if progresses xs = [] then current_progress n else Some (last (progresses xs)))"
proof (induction xs arbitrary: n)
  case (Cons x xs)
  have "current_progress (snd (do_op x n)) = (case progresses [x] of [] \<Rightarrow> current_progress n | p # ps \<Rightarrow> Some p)"
    by (cases x) (auto simp: register_callback_def unregister_callback_def update_progress_def set_local_version_def Let_def
        case_prod_unfold split: option.split)
  with Cons show ?case by (cases x) (auto simp: case_prod_unfold Let_def)
qed simp

lemma registered_told:
  assumes "tokens_ok n (Suc (length xs))" "register_callback f download streaming n = (t, calls, n')"
  shows "told (progress_token n) (calls @ fst (do_ops xs n')) =
    expected download streaming (local_version n)
      ((case current_progress n of None \<Rightarrow> [] | Some p \<Rightarrow> [p]) @ own_progresses (progress_token n) xs)"
proof -
  define k where "k = \<lparr>notifier = f, captured_transferrable = None, package_version = local_version n,
    is_streaming = streaming, is_download = download\<rparr>"
  let ?t = "progress_token n"
  have fresh: "map_of (packages n) ?t = None" using assms(1) by (auto simp: tokens_ok_def map_of_eq_None_iff)
  have n': "n' = snd (do_op (Register f download streaming) n)" using assms(2) by simp
  have ok: "tokens_ok n' (length xs)" using op_tokens[OF assms(1)] unfolding n' by blast
  have next_token: "progress_token n' = ?t + 1"
    using assms(2) by (auto simp: register_callback_def Let_def case_prod_unfold split: option.splits if_splits)
  have "?t < progress_token n'"
    unfolding next_token using assms(1) by (auto simp: tokens_ok_def unat_word_ariths word_less_nat_alt)
  note rest = ops_history[OF ok this]
  have "expected download streaming (local_version n) ps = history k ps" for ps
    using history_expected[of k ps] by (simp add: k_def)
  moreover have "told ?t calls @ (case map_of (packages n') ?t of None \<Rightarrow> [] | Some k \<Rightarrow> history k ps) =
      history k ((case current_progress n of None \<Rightarrow> [] | Some p \<Rightarrow> [p]) @ ps)" for ps
    using assms(2) fresh
    by (auto simp: register_callback_def Let_def case_prod_unfold emplace_def k_def[symmetric] split: option.splits if_splits)
  ultimately show ?thesis using rest by simp
qed

text \<open>C37. Whatever else is registered, unregistered and reported, a progress notifier is told exactly this, from the progress known when it is
  registered until it is unregistered: a streaming one every progress, with the bytes transferrable at that time; another one
  every progress relative to the bytes that were transferrable in the first one, up to and including the first that reaches them;
  uploads count from the first progress that takes the local commits into account that were made before the registration.\<close>

theorem progress_told:
  assumes "length xs + length ys < 2 ^ 64 - 3"
    and "register_callback f download streaming (snd (do_ops xs new_progress_notifier)) = (t, calls, n)"
  shows "told (progress_token (snd (do_ops xs new_progress_notifier))) (calls @ fst (do_ops ys n)) =
    expected download streaming (local_version (snd (do_ops xs new_progress_notifier)))
      ((if progresses xs = [] then [] else [last (progresses xs)]) @
       own_progresses (progress_token (snd (do_ops xs new_progress_notifier))) ys)"
proof -
  have "tokens_ok (snd (do_ops xs new_progress_notifier)) (Suc (length ys))"
    using assms(1) by (intro ops_tokens new_tokens_ok) simp
  from registered_told[OF this assms(2)] show ?thesis
    by (simp add: ops_current) (simp add: new_progress_notifier_def)
qed

definition sample_progress :: "64 word \<Rightarrow> 64 word \<Rightarrow> progress" where
  "sample_progress down up =
     \<lparr>uploadable = 10, downloadable = down, uploaded = up, downloaded = up, progress_version = 1\<rparr>"

theorem progress_told_witness:
  "told 1 (fst (do_ops [Update 1 (sample_progress 5 2), Update 1 (sample_progress 9 5), Update 1 (sample_progress 9 9)]
     (snd (snd (register_callback () True False new_progress_notifier))))) = [(2, 5), (5, 5)]"
  using progress_told[of "[]" "[Update 1 (sample_progress 5 2), Update 1 (sample_progress 9 5), Update 1 (sample_progress 9 9)]"
      "()" True False 1 "[]" "snd (snd (register_callback () True False new_progress_notifier))"]
  by (simp add: register_callback_def new_progress_notifier_def Let_def own_progresses_def expected_def until_done_def
      transferred_by_def transferrable_by_def sample_progress_def)

end
